(* ===== verification/Prelude.thy ===== *)
theory Prelude
  imports Main "HOL-Library.Word" "HOL-Library.List_Lexorder" "HOL-Library.Sublist" "HOL-Library.Multiset"
    "HOL-Library.Code_Target_Nat"
begin

text \<open>
  Shared vocabulary of the development: bytes and byte strings, slices, the little-endian integer
  codecs of the standard library (\<open>to_le_bytes\<close>/\<open>from_le_bytes\<close>), checked and saturating
  arithmetic on the machine widths the sources use, UTF-8 validity as \<open>str::from_utf8\<close> decides it,
  and the generic facts about lists that several components share.

  A Rust \<open>u8\<close> is an \<open>8 word\<close>; \<open>u16\<close>, \<open>u32\<close>, \<open>u64\<close> and \<open>usize\<close> (64 bits) values are natural
  numbers whose width is written out wherever the source can leave it: in a checked addition, a
  saturating subtraction, a truncating cast (\<open>le_bytes\<close> keeps the low bytes, as \<open>as u16\<close> does).
  A fallible function returns \<open>'e + 'a\<close>, with \<open>Inl\<close> the error.
\<close>

named_theorems codec_simps \<open>length and inversion facts about the integer codecs\<close>
named_theorems slice_simps \<open>facts about slices of byte strings\<close>

type_synonym byte = "8 word"
type_synonym bytes = "byte list"

text \<open>A Rust string is its byte string: \<open>str\<close> comparison is the lexicographic order of the bytes.\<close>
type_synonym str = "byte list"

abbreviation U16_MAX :: nat where "U16_MAX \<equiv> 65535"
abbreviation U32_MAX :: nat where "U32_MAX \<equiv> 4294967295"
abbreviation U64_MAX :: nat where "U64_MAX \<equiv> 18446744073709551615"

subsection \<open>Checked arithmetic\<close>

definition checked_add :: "nat \<Rightarrow> nat \<Rightarrow> nat \<Rightarrow> nat option" where
  "checked_add mx a b = (if a + b \<le> mx then Some (a + b) else None)"

definition checked_sub :: "nat \<Rightarrow> nat \<Rightarrow> nat option" where
  "checked_sub a b = (if b \<le> a then Some (a - b) else None)"

definition saturating_add :: "nat \<Rightarrow> nat \<Rightarrow> nat \<Rightarrow> nat" where
  "saturating_add mx a b = min mx (a + b)"

definition saturating_mul :: "nat \<Rightarrow> nat \<Rightarrow> nat \<Rightarrow> nat" where
  "saturating_mul mx a b = min mx (a * b)"

subsection \<open>Slices\<close>

text \<open>\<open>&buf[a..b]\<close>, for bounds the caller has checked.\<close>
definition bslice :: "nat \<Rightarrow> nat \<Rightarrow> 'a list \<Rightarrow> 'a list" where
  "bslice a b xs = take (b - a) (drop a xs)"

text \<open>Overwriting a range of a byte string in place (\<open>write_all_at\<close> inside the file's length).\<close>
definition overwrite :: "nat \<Rightarrow> 'a list \<Rightarrow> 'a list \<Rightarrow> 'a list" where
  "overwrite off new xs = take off xs @ new @ drop (off + length new) xs"

subsection \<open>Little-endian codecs\<close>

primrec le_bytes :: "nat \<Rightarrow> nat \<Rightarrow> bytes" where
  "le_bytes 0 n = []"
| "le_bytes (Suc k) n = of_nat (n mod 256) # le_bytes k (n div 256)"

primrec of_le :: "bytes \<Rightarrow> nat" where
  "of_le [] = 0"
| "of_le (b # bs) = unat b + 256 * of_le bs"

subsection \<open>UTF-8 validity\<close>

definition is_cont :: "byte \<Rightarrow> bool" where
  "is_cont b \<longleftrightarrow> 0x80 \<le> b \<and> b \<le> 0xBF"

definition utf8_lead3 :: "byte \<Rightarrow> byte \<Rightarrow> bool" where
  "utf8_lead3 b b1 \<longleftrightarrow>
     (b = 0xE0 \<and> 0xA0 \<le> b1 \<and> b1 \<le> 0xBF) \<or>
     (0xE1 \<le> b \<and> b \<le> 0xEC \<and> is_cont b1) \<or>
     (b = 0xED \<and> 0x80 \<le> b1 \<and> b1 \<le> 0x9F) \<or>
     (0xEE \<le> b \<and> b \<le> 0xEF \<and> is_cont b1)"

definition utf8_lead4 :: "byte \<Rightarrow> byte \<Rightarrow> bool" where
  "utf8_lead4 b b1 \<longleftrightarrow>
     (b = 0xF0 \<and> 0x90 \<le> b1 \<and> b1 \<le> 0xBF) \<or>
     (0xF1 \<le> b \<and> b \<le> 0xF3 \<and> is_cont b1) \<or>
     (b = 0xF4 \<and> 0x80 \<le> b1 \<and> b1 \<le> 0x8F)"

fun utf8_valid :: "bytes \<Rightarrow> bool" where
  "utf8_valid [] = True"
| "utf8_valid (b # bs) =
     (if b < 0x80 then utf8_valid bs
      else (case bs of
              [] \<Rightarrow> False
            | b1 # bs1 \<Rightarrow>
                if 0xC2 \<le> b \<and> b \<le> 0xDF then is_cont b1 \<and> utf8_valid bs1
                else (case bs1 of
                        [] \<Rightarrow> False
                      | b2 # bs2 \<Rightarrow>
                          if utf8_lead3 b b1 then is_cont b2 \<and> utf8_valid bs2
                          else (case bs2 of
                                  [] \<Rightarrow> False
                                | b3 # bs3 \<Rightarrow>
                                    utf8_lead4 b b1 \<and> is_cont b2 \<and> is_cont b3 \<and> utf8_valid bs3))))"

subsection \<open>Facts about the codecs\<close>

lemma length_le_bytes [simp, codec_simps]: "length (le_bytes k n) = k"
  by (induction k arbitrary: n) simp_all

lemma unat_byte [simp]: "unat (of_nat (n mod 256) :: byte) = n mod 256"
  by (simp add: unat_of_nat take_bit_eq_mod)

lemma unat_byte_less [simp]: "unat (b :: byte) < 256"
  using unsigned_less [of b] by simp

lemma of_le_le_bytes_mod: "of_le (le_bytes k n) = n mod 256 ^ k"
proof (induction k arbitrary: n)
  case (Suc k)
  have "n mod 256 ^ Suc k = 256 * (n div 256 mod 256 ^ k) + n mod 256"
    by (simp add: mod_mult2_eq)
  then show ?case using Suc by simp
qed simp

lemma of_le_le_bytes [simp, codec_simps]: "n < 256 ^ k \<Longrightarrow> of_le (le_bytes k n) = n"
  by (simp add: of_le_le_bytes_mod)

lemma of_le_less: "of_le bs < 256 ^ length bs"
proof (induction bs)
  case (Cons b bs)
  have "unat b \<le> 255" using unat_byte_less [of b] by linarith
  moreover have "of_le bs + 1 \<le> 256 ^ length bs" using Cons by simp
  ultimately show ?case by simp
qed simp

lemma of_le_less_len: "length bs = k \<Longrightarrow> of_le bs < 256 ^ k"
  using of_le_less [of bs] by simp

lemma le_bytes_of_le [codec_simps]: "length bs = k \<Longrightarrow> le_bytes k (of_le bs) = bs"
proof (induction bs arbitrary: k)
  case (Cons b bs)
  have "unat b < 256" by simp
  then have "(unat b + 256 * of_le bs) div 256 = of_le bs"
    and "(unat b + 256 * of_le bs) mod 256 = unat b" by simp_all
  then show ?case using Cons by auto
qed simp

lemma le_bytes_mod [simp]: "le_bytes k (n mod 256 ^ k) = le_bytes k n"
  by (metis le_bytes_of_le length_le_bytes of_le_le_bytes_mod)

lemma le_bytes_inject:
  "\<lbrakk>m < 256 ^ k; n < 256 ^ k; le_bytes k m = le_bytes k n\<rbrakk> \<Longrightarrow> m = n"
  by (metis of_le_le_bytes)

lemma of_le_take2: "2 \<le> length bs \<Longrightarrow> of_le (take 2 bs) < 65536"
  using of_le_less_len [of "take 2 bs" 2] by simp

lemma of_le_slice_bound: "b - a \<le> k \<Longrightarrow> of_le (bslice a b bs) < 256 ^ k"
proof -
  assume "b - a \<le> k"
  then have "length (bslice a b bs) \<le> k" by (simp add: bslice_def)
  then have "(256::nat) ^ length (bslice a b bs) \<le> 256 ^ k" by (simp add: power_increasing)
  then show ?thesis using of_le_less [of "bslice a b bs"] by linarith
qed

subsection \<open>Facts about slices\<close>

lemma length_slice [simp, slice_simps]: "length (bslice a b xs) = min (b - a) (length xs - a)"
  by (simp add: bslice_def)

lemma slice_full [slice_simps]: "length xs \<le> b \<Longrightarrow> bslice 0 b xs = xs"
  by (simp add: bslice_def)

lemma slice_empty [simp, slice_simps]: "bslice a a xs = []"
  by (simp add: bslice_def)

lemma slice_append_left [slice_simps]: "b \<le> length xs \<Longrightarrow> bslice a b (xs @ ys) = bslice a b xs"
  by (auto simp: bslice_def)

lemma slice_append_right [slice_simps]:
  "length xs \<le> a \<Longrightarrow> bslice a b (xs @ ys) = bslice (a - length xs) (b - length xs) ys"
proof -
  assume "length xs \<le> a"
  then have "b - a = (b - length xs) - (a - length xs)" by arith
  then show ?thesis using \<open>length xs \<le> a\<close> by (simp add: bslice_def)
qed

lemma slice_0_append: "bslice 0 (length xs) (xs @ ys) = xs"
  by (simp add: bslice_def)

lemma slice_prefix_suffix:
  "\<lbrakk>a = length xs; b = length xs + length ys\<rbrakk> \<Longrightarrow> bslice a b (xs @ ys @ zs) = ys"
  by (simp add: bslice_def)

lemma slice_join:
  "\<lbrakk>a \<le> b; b \<le> c\<rbrakk> \<Longrightarrow> bslice a b xs @ bslice b c xs = bslice a c xs"
proof -
  assume ab: "a \<le> b" and bc: "b \<le> c"
  have "take (c - a) (drop a xs) = take ((b - a) + (c - b)) (drop a xs)" using ab bc by simp
  also have "\<dots> = take (b - a) (drop a xs) @ take (c - b) (drop (b - a) (drop a xs))"
    by (simp only: take_add)
  finally show ?thesis using ab by (simp add: bslice_def)
qed

lemma drop_split_slice: "a \<le> b \<Longrightarrow> bslice a b xs @ drop b xs = drop a xs"
  unfolding bslice_def by (metis append_take_drop_id drop_drop le_add_diff_inverse2)

lemma nth_slice: "\<lbrakk>i < b - a; b \<le> length xs\<rbrakk> \<Longrightarrow> bslice a b xs ! i = xs ! (a + i)"
  by (simp add: bslice_def)

lemma slice_take: "b \<le> n \<Longrightarrow> bslice a b (take n xs) = bslice a b xs"
  by (simp add: bslice_def drop_take min_def)

lemma slice_cong_take:
  "\<lbrakk>take n xs = take n ys; b \<le> n\<rbrakk> \<Longrightarrow> bslice a b xs = bslice a b ys"
  by (metis slice_take)

lemma length_overwrite [simp, slice_simps]:
  "off + length new \<le> length xs \<Longrightarrow> length (overwrite off new xs) = length xs"
  by (simp add: overwrite_def)

lemma take_overwrite [slice_simps]:
  "\<lbrakk>n \<le> off; off \<le> length xs\<rbrakk> \<Longrightarrow> take n (overwrite off new xs) = take n xs"
  by (simp add: overwrite_def min_def)

lemma take_overwrite_end [slice_simps]:
  "\<lbrakk>off \<le> length xs; n = off + length new\<rbrakk> \<Longrightarrow> take n (overwrite off new xs) = take off xs @ new"
  by (simp add: overwrite_def)

lemma drop_overwrite [slice_simps]:
  "\<lbrakk>off + length new \<le> n; off + length new \<le> length xs\<rbrakk>
   \<Longrightarrow> drop n (overwrite off new xs) = drop n xs"
  by (simp add: overwrite_def)

lemma slice_overwrite_same:
  "\<lbrakk>off \<le> length xs; b = off + length new\<rbrakk> \<Longrightarrow> bslice off b (overwrite off new xs) = new"
  by (simp add: overwrite_def bslice_def)

lemma slice_overwrite_before:
  "\<lbrakk>b \<le> off; off \<le> length xs\<rbrakk> \<Longrightarrow> bslice a b (overwrite off new xs) = bslice a b xs"
  by (rule slice_cong_take [of off]) (simp_all add: take_overwrite)

lemma slice_overwrite_after:
  "\<lbrakk>off + length new \<le> a; off + length new \<le> length xs\<rbrakk> \<Longrightarrow> bslice a b (overwrite off new xs) = bslice a b xs"
  by (simp add: bslice_def drop_overwrite)

lemma drop_take_overwrite:
  assumes "a \<le> off" and "off + length new \<le> n" and "n \<le> length xs"
  shows "drop a (take n (overwrite off new xs)) = overwrite (off - a) new (drop a (take n xs))"
proof -
  have t: "take n (overwrite off new xs) = take off xs @ new @ take (n - (off + length new)) (drop (off + length new) xs)"
    using assms by (simp add: overwrite_def)
  have "drop a (take off xs) = take (off - a) (drop a (take n xs))"
    using assms by (simp add: drop_take min_def)
  moreover have "drop (off - a + length new) (drop a (take n xs)) = take (n - (off + length new)) (drop (off + length new) xs)"
    using assms by (simp add: drop_take add.commute)
  ultimately show ?thesis using assms unfolding t by (simp add: overwrite_def)
qed

subsection \<open>Facts about checked arithmetic\<close>

lemma checked_add_Some [simp]:
  "checked_add mx a b = Some c \<longleftrightarrow> c = a + b \<and> a + b \<le> mx"
  by (auto simp: checked_add_def)

lemma checked_add_None [simp]: "checked_add mx a b = None \<longleftrightarrow> mx < a + b"
  by (auto simp: checked_add_def)

lemma checked_sub_Some [simp]: "checked_sub a b = Some c \<longleftrightarrow> b \<le> a \<and> c = a - b"
  by (auto simp: checked_sub_def)

lemma checked_sub_None [simp]: "checked_sub a b = None \<longleftrightarrow> a < b"
  by (auto simp: checked_sub_def)

subsection \<open>Facts about sorted lists\<close>

lemma sorted_wrt_less_nodup:
  "sorted_wrt (<) (xs :: 'a::linorder list) \<longleftrightarrow> sorted xs \<and> distinct xs"
  by (rule strict_sorted_iff)

lemma strict_sorted_append_nat:
  "sorted_wrt (<) (xs @ ys) \<longleftrightarrow>
   sorted_wrt (<) xs \<and> sorted_wrt (<) ys \<and> (\<forall>x \<in> set xs. \<forall>y \<in> set ys. x < (y :: 'a::linorder))"
  by (rule sorted_wrt_append)

lemma strict_sorted_set_eq:
  "\<lbrakk>sorted_wrt (<) xs; sorted_wrt (<) ys; set xs = set ys\<rbrakk> \<Longrightarrow> xs = (ys :: 'a::linorder list)"
  by (meson sorted_distinct_set_unique strict_sorted_iff)

subsection \<open>Binary codecs\<close>

text \<open>
  The contract of the fixed binary formats: on well-formed values decoding inverts encoding, and every
  accepted byte string is the encoding of what it decodes to.
\<close>
locale codec =
  fixes enc :: "'a \<Rightarrow> bytes" and dec :: "bytes \<Rightarrow> 'e + 'a"
    and ok :: "'a \<Rightarrow> bool" and shape :: "bytes \<Rightarrow> bool"
  assumes dec_enc: "ok a \<Longrightarrow> shape (enc a) \<and> dec (enc a) = Inr a"
    and enc_dec: "\<lbrakk>shape b; dec b = Inr a\<rbrakk> \<Longrightarrow> ok a \<and> enc a = b"
begin

lemma enc_inj: "\<lbrakk>ok a; ok a'; enc a = enc a'\<rbrakk> \<Longrightarrow> a = a'"
  using dec_enc by (metis Inr_inject)

lemma dec_inj: "\<lbrakk>shape b; shape b'; dec b = Inr a; dec b' = Inr a\<rbrakk> \<Longrightarrow> b = b'"
  using enc_dec by metis

lemma dec_iff: "shape b \<Longrightarrow> dec b = Inr a \<longleftrightarrow> ok a \<and> enc a = b"
  using enc_dec dec_enc by metis

end

end
