(* ===== verification/Types.thy ===== *)
theory Types
  imports Prelude
begin

text \<open>
  The data model shared by the engine and its clients (\<open>crates/tephra-types\<close>): log positions, event
  types and tags, sorted duplicate-free tag sets, queries and append conditions.

  A position is a natural number; \<open>Position_next\<close> makes the \<open>u64\<close> addition's overflow an outcome of
  its own, and \<open>Position_next_word\<close> relates it to the wrapping 64-bit addition. \<open>EventType\<close> and
  \<open>Tag\<close> are the newtypes of the source with the derived order (lexicographic on bytes); \<open>wf_name\<close>
  is what their constructors and Rust's \<open>str\<close> guarantee about the wrapped string.
\<close>

subsection \<open>Positions\<close>

type_synonym Position = nat

definition Position_ZERO :: Position where "Position_ZERO = 0"

definition Position_MAX :: Position where "Position_MAX = U64_MAX"

text \<open>\<open>Position::next\<close>; \<open>None\<close> is the arithmetic overflow of \<open>self.0 + 1\<close>.\<close>
definition Position_next :: "Position \<Rightarrow> Position option" where
  "Position_next p = checked_add U64_MAX p 1"

text \<open>\<open>Position::offset_from\<close>; \<open>None\<close> is the overflow of the unsigned subtraction.\<close>
definition Position_offset_from :: "Position \<Rightarrow> Position \<Rightarrow> nat option" where
  "Position_offset_from p base = checked_sub p base"

subsection \<open>Event types and tags\<close>

datatype EventType = EventType (type_str: str)

datatype Tag = Tag (tag_str: str)

text \<open>The derived order of the newtypes is the order of the wrapped string.\<close>

instantiation Tag :: linorder
begin

definition less_eq_Tag :: "Tag \<Rightarrow> Tag \<Rightarrow> bool" where
  "less_eq_Tag a b \<longleftrightarrow> tag_str a \<le> tag_str b"

definition less_Tag :: "Tag \<Rightarrow> Tag \<Rightarrow> bool" where
  "less_Tag a b \<longleftrightarrow> tag_str a < tag_str b"

instance
  by standard (auto simp: less_eq_Tag_def less_Tag_def Tag.expand)

end

instantiation EventType :: linorder
begin

definition less_eq_EventType :: "EventType \<Rightarrow> EventType \<Rightarrow> bool" where
  "less_eq_EventType a b \<longleftrightarrow> type_str a \<le> type_str b"

definition less_EventType :: "EventType \<Rightarrow> EventType \<Rightarrow> bool" where
  "less_EventType a b \<longleftrightarrow> type_str a < type_str b"

instance
  by standard (auto simp: less_eq_EventType_def less_EventType_def EventType.expand)

end

definition MAX_NAME_LEN :: nat where "MAX_NAME_LEN = U16_MAX"

datatype NameError =
    Empty string
  | TooLong string nat nat

definition validate_name :: "str \<Rightarrow> string \<Rightarrow> NameError + unit" where
  "validate_name s what =
     (if s = [] then Inl (Empty what)
      else if length s > MAX_NAME_LEN then Inl (TooLong what (length s) MAX_NAME_LEN)
      else Inr ())"

definition EventType_new :: "str \<Rightarrow> NameError + EventType" where
  "EventType_new s =
     (case validate_name s ''event type'' of Inl e \<Rightarrow> Inl e | Inr _ \<Rightarrow> Inr (EventType s))"

definition Tag_new :: "str \<Rightarrow> NameError + Tag" where
  "Tag_new s = (case validate_name s ''tag'' of Inl e \<Rightarrow> Inl e | Inr _ \<Rightarrow> Inr (Tag s))"

text \<open>What a constructed name satisfies: the length bounds, and UTF-8 because it is a \<open>str\<close>.\<close>
definition wf_name :: "str \<Rightarrow> bool" where
  "wf_name s \<longleftrightarrow> s \<noteq> [] \<and> length s \<le> MAX_NAME_LEN \<and> utf8_valid s"

subsection \<open>Tag sets\<close>

type_synonym Tags = "Tag list"

datatype TagsError = Duplicate Tag

text \<open>\<open>(1..tags.len()).find(|&i| tags[i] == tags[i - 1])\<close>, giving the element found.\<close>
fun first_adjacent_dup :: "'a list \<Rightarrow> 'a option" where
  "first_adjacent_dup (x # y # zs) = (if x = y then Some y else first_adjacent_dup (y # zs))"
| "first_adjacent_dup _ = None"

definition Tags_new :: "Tag list \<Rightarrow> TagsError + Tags" where
  "Tags_new input =
     (let tags = sort input
      in case first_adjacent_dup tags of
           Some t \<Rightarrow> Inl (Duplicate t)
         | None \<Rightarrow> Inr tags)"

definition Tags_empty :: Tags where "Tags_empty = []"

text \<open>The invariant of a \<open>Tags\<close> value: strictly ascending, every tag a constructed name.\<close>
definition wf_Tags :: "Tags \<Rightarrow> bool" where
  "wf_Tags ts \<longleftrightarrow> sorted_wrt (<) ts \<and> list_all (wf_name \<circ> tag_str) ts"

subsection \<open>Queries and append conditions\<close>

record QueryItem =
  types :: "EventType list"
  tags :: Tags

datatype Query = All | Items "QueryItem list"

record AppendCondition =
  fail_if_events_match :: Query
  after :: Position
  fail_if_exists :: "Query option"

definition QueryItem_of_types :: "EventType list \<Rightarrow> QueryItem" where
  "QueryItem_of_types tys = \<lparr>types = tys, tags = Tags_empty\<rparr>"

definition QueryItem_with_tags :: "Tags \<Rightarrow> QueryItem" where
  "QueryItem_with_tags ts = \<lparr>types = [], tags = ts\<rparr>"

definition AppendCondition_new :: "Query \<Rightarrow> AppendCondition" where
  "AppendCondition_new q =
     \<lparr>fail_if_events_match = q, after = Position_ZERO, fail_if_exists = None\<rparr>"

definition AppendCondition_exists_only :: "Query \<Rightarrow> AppendCondition" where
  "AppendCondition_exists_only q =
     \<lparr>fail_if_events_match = Items [], after = Position_ZERO, fail_if_exists = Some q\<rparr>"

definition AppendCondition_after :: "AppendCondition \<Rightarrow> Position \<Rightarrow> AppendCondition" where
  "AppendCondition_after c p = c\<lparr>after := p\<rparr>"

definition AppendCondition_fail_if_exists :: "AppendCondition \<Rightarrow> Query \<Rightarrow> AppendCondition" where
  "AppendCondition_fail_if_exists c q = c\<lparr>fail_if_exists := Some q\<rparr>"

definition wf_Query :: "Query \<Rightarrow> bool" where
  "wf_Query q = (case q of All \<Rightarrow> True
     | Items its \<Rightarrow> list_all (\<lambda>it. wf_Tags (tags it) \<and> list_all (wf_name \<circ> type_str) (types it)) its)"

subsection \<open>Facts\<close>

lemma Position_next_word:
  assumes "p \<le> U64_MAX"
  shows "Position_next p = (if p = U64_MAX then None else Some (unat (of_nat p + 1 :: 64 word)))"
proof -
  have "unat (of_nat p + 1 :: 64 word) = (p + 1) mod 2 ^ 64"
    by (simp add: unat_word_ariths unat_of_nat take_bit_eq_mod mod_simps)
  then show ?thesis using assms by (auto simp: Position_next_def checked_add_def)
qed

lemma map_tag_str_sorted:
  "sorted_wrt (<) ts \<longleftrightarrow> sorted_wrt (<) (map tag_str ts)"
  by (simp add: sorted_wrt_map less_Tag_def [abs_def])

lemma first_adjacent_dup_None: "first_adjacent_dup xs = None \<longleftrightarrow> distinct_adj xs"
  by (induction xs rule: first_adjacent_dup.induct) auto

lemma first_adjacent_dup_Some:
  "first_adjacent_dup xs = Some x \<Longrightarrow> \<exists>us vs. xs = us @ x # x # vs"
proof (induction xs rule: first_adjacent_dup.induct)
  case (1 a b zs)
  show ?case
  proof (cases "a = b")
    case True
    then show ?thesis using 1 by (auto intro: exI [of _ "[]"])
  next
    case False
    then obtain us vs where "b # zs = us @ x # x # vs" using 1 by auto
    then show ?thesis by (auto intro: exI [of _ "a # us"])
  qed
qed auto

lemma sorted_distinct_adj:
  "sorted (xs :: 'a::linorder list) \<Longrightarrow> distinct_adj xs \<Longrightarrow> sorted_wrt (<) xs"
proof (induction xs)
  case (Cons x xs)
  then have IH: "sorted_wrt (<) xs" by (auto simp: distinct_adj_Cons)
  show ?case
  proof (cases xs)
    case (Cons y ys)
    then have "x < y" using Cons.prems by (auto simp: distinct_adj_Cons order_less_le)
    then show ?thesis using IH Cons by fastforce
  qed simp
qed simp

lemma strict_sorted_distinct_adj: "sorted_wrt (<) (xs :: 'a::linorder list) \<Longrightarrow> distinct_adj xs"
  by (simp add: distinct_adj_conv_nth sorted_wrt_iff_nth_less less_imp_neq)

text \<open>
  \<open>Tags::new\<close> succeeds exactly on duplicate-free input, and then returns the strictly sorted list
  of the same tags; on failure the tag it names occurs at least twice.
\<close>
lemma Tags_new_spec:
  "Tags_new input = Inr ts \<longleftrightarrow> distinct input \<and> ts = sort input"
proof (cases "first_adjacent_dup (sort input)")
  case None
  then have "sorted_wrt (<) (sort input)"
    by (simp add: first_adjacent_dup_None sorted_distinct_adj)
  then have "distinct input" by (simp add: strict_sorted_iff)
  then show ?thesis using None by (auto simp: Tags_new_def Let_def)
next
  case (Some t)
  from first_adjacent_dup_Some [OF Some] obtain us vs where "sort input = us @ t # t # vs"
    by auto
  then have "\<not> distinct (sort input)" by simp
  then have "\<not> distinct input" by simp
  then show ?thesis using Some by (auto simp: Tags_new_def Let_def)
qed

lemma Tags_new_wf:
  "\<lbrakk>Tags_new input = Inr ts; \<forall>t \<in> set input. wf_name (tag_str t)\<rbrakk>
   \<Longrightarrow> wf_Tags ts \<and> set ts = set input"
  by (auto simp: Tags_new_spec wf_Tags_def strict_sorted_iff list_all_iff)

lemma Tags_new_Duplicate:
  assumes "Tags_new input = Inl (Duplicate t)"
  shows "2 \<le> count_list input t"
proof -
  have "first_adjacent_dup (sort input) = Some t"
    using assms by (auto simp: Tags_new_def Let_def split: option.splits)
  from first_adjacent_dup_Some [OF this] obtain us vs where eq: "sort input = us @ t # t # vs"
    by auto
  have "count_list input t = count_list (sort input) t"
    by (metis count_mset mset_sort)
  then show ?thesis using eq by simp
qed

lemma EventType_new_spec:
  "EventType_new s = Inr t \<longleftrightarrow> t = EventType s \<and> s \<noteq> [] \<and> length s \<le> MAX_NAME_LEN"
  by (auto simp: EventType_new_def validate_name_def)

lemma Tag_new_spec:
  "Tag_new s = Inr t \<longleftrightarrow> t = Tag s \<and> s \<noteq> [] \<and> length s \<le> MAX_NAME_LEN"
  by (auto simp: Tag_new_def validate_name_def)

lemma wf_name_pos: "wf_name s \<Longrightarrow> 0 < length s"
  by (auto simp: wf_name_def)

end
