(* ===== verification/Event.thy ===== *)
theory Event
  imports Types
begin

text \<open>
  The event codec (\<open>crates/tephra/src/event.rs\<close>). \<open>Event_new\<close> lays out an event as the source does
  (a \<open>u16\<close> type length, a \<open>u16\<close> tag count, one \<open>u16\<close> per tag, then the type, the tags in order and the
  payload); \<open>EventRef_from_bytes\<close> is the validating decoder with its checks in source order, and
  \<open>event_type\<close>, \<open>event_tags\<close>, \<open>data\<close> are the unchecked accessors it enables. The lemmas show that the
  two are inverse in both directions, so the encoding is canonical.
\<close>

subsection \<open>Definitions\<close>

definition FIXED_HEADER :: nat where "FIXED_HEADER = 4"

definition header_len :: "nat \<Rightarrow> nat" where
  "header_len tag_count = FIXED_HEADER + 2 * tag_count"

datatype EncodeError =
    TooManyTags nat nat
  | EncodeTooLarge nat nat

datatype DecodeError =
    Truncated
  | DecodeTooLarge
  | EmptyType
  | EmptyTag
  | InvalidUtf8
  | TagsNotSorted

record Event =
  buf :: bytes
  data_offset :: nat

definition Event_new :: "EventType \<Rightarrow> Tags \<Rightarrow> bytes \<Rightarrow> EncodeError + Event" where
  "Event_new ety ts payload =
     (let ty = type_str ety;
          tag_count = length ts
      in if tag_count > U16_MAX then Inl (TooManyTags tag_count U16_MAX)
         else
           let type_len = length ty;
               tags_total = sum_list (map (length \<circ> tag_str) ts);
               data_start = header_len tag_count + type_len + tags_total
           in if data_start > U32_MAX then Inl (EncodeTooLarge data_start U32_MAX)
              else Inr \<lparr>buf = le_bytes 2 type_len @ le_bytes 2 tag_count
                          @ concat (map (le_bytes 2 \<circ> length \<circ> tag_str) ts)
                          @ ty @ concat (map tag_str ts) @ payload,
                        data_offset = data_start\<rparr>)"

text \<open>\<open>read_u16(buf, at)\<close>, at an offset with two bytes left.\<close>
definition read_u16 :: "bytes \<Rightarrow> nat \<Rightarrow> nat" where
  "read_u16 b at = of_le (bslice at (at + 2) b)"

text \<open>The first loop of \<open>from_bytes\<close>: indices \<open>i..i + k\<close> remain, \<open>tags_total\<close> is the running sum.\<close>
fun sum_tag_lens :: "bytes \<Rightarrow> nat \<Rightarrow> nat \<Rightarrow> nat \<Rightarrow> DecodeError + nat" where
  "sum_tag_lens b i 0 tags_total = Inr tags_total"
| "sum_tag_lens b i (Suc k) tags_total =
     (let len = read_u16 b (FIXED_HEADER + 2 * i)
      in if len = 0 then Inl EmptyTag
         else case checked_add U64_MAX tags_total len of
                None \<Rightarrow> Inl DecodeTooLarge
              | Some t \<Rightarrow> sum_tag_lens b (Suc i) k t)"

text \<open>The second loop: every tag is UTF-8 and strictly above the previous one.\<close>
fun check_tags :: "bytes \<Rightarrow> nat \<Rightarrow> nat \<Rightarrow> nat \<Rightarrow> str option \<Rightarrow> DecodeError + unit" where
  "check_tags b i 0 pos prev = Inr ()"
| "check_tags b i (Suc k) pos prev =
     (let len = read_u16 b (FIXED_HEADER + 2 * i);
          end_pos = pos + len;
          tag = bslice pos end_pos b
      in if \<not> utf8_valid tag then Inl InvalidUtf8
         else if (case prev of Some p \<Rightarrow> tag \<le> p | None \<Rightarrow> False) then Inl TagsNotSorted
         else check_tags b (Suc i) k end_pos (Some tag))"

definition EventRef_from_bytes :: "bytes \<Rightarrow> DecodeError + Event" where
  "EventRef_from_bytes b =
     (if length b < FIXED_HEADER then Inl Truncated
      else
        let type_len = read_u16 b 0;
            tag_count = read_u16 b 2;
            hlen = header_len tag_count
        in if length b < hlen then Inl Truncated
           else if type_len = 0 then Inl EmptyType
           else case sum_tag_lens b 0 tag_count 0 of
                  Inl e \<Rightarrow> Inl e
                | Inr tags_total \<Rightarrow>
                    (case Option.bind (checked_add U64_MAX hlen type_len)
                            (\<lambda>x. checked_add U64_MAX x tags_total) of
                       None \<Rightarrow> Inl DecodeTooLarge
                     | Some data_start \<Rightarrow>
                         if length b < data_start then Inl Truncated
                         else if data_start > U32_MAX then Inl DecodeTooLarge
                         else
                           let type_end = hlen + type_len
                           in if \<not> utf8_valid (bslice hlen type_end b) then Inl InvalidUtf8
                              else case check_tags b 0 tag_count type_end None of
                                     Inl e \<Rightarrow> Inl e
                                   | Inr _ \<Rightarrow> Inr \<lparr>buf = b, data_offset = data_start\<rparr>))"

definition decode_type :: "bytes \<Rightarrow> str" where
  "decode_type b =
     (let type_len = read_u16 b 0; tag_count = read_u16 b 2; start = header_len tag_count
      in bslice start (start + type_len) b)"

text \<open>The borrowing tag iterator.\<close>
record TagsRef =
  tr_data :: bytes
  tr_lens :: bytes
  tr_idx :: nat

definition decode_tags :: "bytes \<Rightarrow> TagsRef" where
  "decode_tags b =
     (let type_len = read_u16 b 0; tag_count = read_u16 b 2
      in \<lparr>tr_data = drop (header_len tag_count + type_len) b,
          tr_lens = bslice FIXED_HEADER (FIXED_HEADER + 2 * tag_count) b,
          tr_idx = 0\<rparr>)"

definition decode_data :: "bytes \<Rightarrow> nat \<Rightarrow> bytes" where
  "decode_data b off = drop off b"

definition TagsRef_next :: "TagsRef \<Rightarrow> (str \<times> TagsRef) option" where
  "TagsRef_next it =
     (let off = tr_idx it * 2
      in if off + 2 > length (tr_lens it) then None
         else let len = read_u16 (tr_lens it) off
              in Some (take len (tr_data it),
                       it\<lparr>tr_idx := tr_idx it + 1, tr_data := drop len (tr_data it)\<rparr>))"

text \<open>Draining the iterator (\<open>collect\<close>).\<close>
function TagsRef_collect :: "TagsRef \<Rightarrow> str list" where
  "TagsRef_collect it =
     (case TagsRef_next it of None \<Rightarrow> [] | Some (t, it') \<Rightarrow> t # TagsRef_collect it')"
  by pat_completeness auto
termination
  by (relation "measure (\<lambda>it. length (tr_lens it) + 1 - 2 * tr_idx it)")
    (auto simp: TagsRef_next_def Let_def split: if_splits)

declare TagsRef_collect.simps [simp del]

definition event_type :: "Event \<Rightarrow> str" where
  "event_type e = decode_type (buf e)"

definition event_tags :: "Event \<Rightarrow> str list" where
  "event_tags e = TagsRef_collect (decode_tags (buf e))"

definition data :: "Event \<Rightarrow> bytes" where
  "data e = decode_data (buf e) (data_offset e)"

text \<open>The owned copy of a borrowed view has the same buffer and offset.\<close>
definition EventRef_to_owned :: "Event \<Rightarrow> Event" where
  "EventRef_to_owned e = \<lparr>buf = buf e, data_offset = data_offset e\<rparr>"

subsection \<open>Reference view of the tag table\<close>

text \<open>The byte string cut into pieces of the given lengths.\<close>
fun pieces :: "nat list \<Rightarrow> bytes \<Rightarrow> bytes list" where
  "pieces [] b = []"
| "pieces (n # ns) b = take n b # pieces ns (drop n b)"

definition tag_lens :: "bytes \<Rightarrow> nat list" where
  "tag_lens b = map (\<lambda>i. read_u16 b (FIXED_HEADER + 2 * i)) [0 ..< read_u16 b 2]"

text \<open>What an event must satisfy to be one the decoder accepts.\<close>
definition wf_Event :: "Event \<Rightarrow> bool" where
  "wf_Event e \<longleftrightarrow> EventRef_from_bytes (buf e) = Inr e"

subsection \<open>Facts about the tag table\<close>

lemma read_u16_less: "read_u16 b at < 65536"
  using of_le_slice_bound [of "at + 2" at 2 b] by (simp add: read_u16_def)

lemma length_pieces [simp]: "length (pieces ns b) = length ns"
  by (induction ns b rule: pieces.induct) simp_all

lemma map_length_pieces: "sum_list ns \<le> length b \<Longrightarrow> map length (pieces ns b) = ns"
  by (induction ns b rule: pieces.induct) simp_all

lemma concat_pieces: "concat (pieces ns b) = take (sum_list ns) b"
  by (induction ns b rule: pieces.induct) (simp_all add: take_add)

lemma pieces_concat: "pieces (map length xs) (concat xs @ r) = xs"
  by (induction xs) simp_all

lemma sum_tag_lens_spec:
  "t \<le> U64_MAX \<Longrightarrow>
   sum_tag_lens b i k t = Inr r \<longleftrightarrow>
     (let ns = map (\<lambda>j. read_u16 b (FIXED_HEADER + 2 * j)) [i ..< i + k]
      in 0 \<notin> set ns \<and> r = t + sum_list ns \<and> r \<le> U64_MAX)"
proof (induction k arbitrary: i t)
  case (Suc k)
  have upt: "[i ..< i + Suc k] = i # [Suc i ..< Suc i + k]" by (simp add: upt_rec)
  show ?case
    unfolding upt using Suc
    by (auto simp: Let_def checked_add_def simp del: upt_Suc split: if_splits)
qed auto

lemma check_tags_spec:
  "check_tags b i k pos prev = Inr u \<longleftrightarrow>
     (let ps = pieces (map (\<lambda>j. read_u16 b (FIXED_HEADER + 2 * j)) [i ..< i + k]) (drop pos b)
      in list_all utf8_valid ps \<and>
         sorted_wrt (<) (case prev of None \<Rightarrow> ps | Some p \<Rightarrow> p # ps))"
proof (induction k arbitrary: i pos prev)
  case 0
  then show ?case by (cases prev) simp_all
next
  case (Suc k)
  have upt: "[i ..< i + Suc k] = i # [Suc i ..< Suc i + k]" by (simp add: upt_rec)
  show ?case
    unfolding upt using Suc
    by (cases prev)
      (auto simp: Let_def bslice_def sorted_wrt2 add.commute simp del: upt_Suc sorted_wrt.simps(2))
qed

lemma TagsRef_collect_spec:
  "TagsRef_collect it =
     pieces (map (\<lambda>j. read_u16 (tr_lens it) (2 * j)) [tr_idx it ..< length (tr_lens it) div 2]) (tr_data it)"
proof (induction it rule: TagsRef_collect.induct)
  case (1 it)
  show ?case
  proof (cases "tr_idx it * 2 + 2 > length (tr_lens it)")
    case True
    then have "length (tr_lens it) div 2 \<le> tr_idx it" by simp
    then show ?thesis
      using True by (subst TagsRef_collect.simps) (simp add: TagsRef_next_def)
  next
    case False
    then have "tr_idx it < length (tr_lens it) div 2" by simp
    then have upt: "[tr_idx it ..< length (tr_lens it) div 2]
                    = tr_idx it # [Suc (tr_idx it) ..< length (tr_lens it) div 2]"
      by (rule upt_conv_Cons)
    show ?thesis
      using False 1 unfolding upt
      by (subst TagsRef_collect.simps) (simp add: TagsRef_next_def Let_def mult.commute)
  qed
qed

lemma length_tag_lens [simp]: "length (tag_lens b) = read_u16 b 2"
  by (simp add: tag_lens_def)

lemma event_tags_spec:
  assumes "header_len (read_u16 b 2) \<le> length b"
  shows "TagsRef_collect (decode_tags b) =
         pieces (tag_lens b) (drop (header_len (read_u16 b 2) + read_u16 b 0) b)"
proof -
  let ?n = "read_u16 b 2"
  have len: "length (bslice FIXED_HEADER (FIXED_HEADER + 2 * ?n) b) = 2 * ?n"
    using assms by (simp add: header_len_def)
  have rd: "read_u16 (bslice FIXED_HEADER (FIXED_HEADER + 2 * ?n) b) (2 * j)
            = read_u16 b (FIXED_HEADER + 2 * j)" if "j < ?n" for j
    using that by (simp add: read_u16_def bslice_def drop_take add.commute min_def)
  have tab: "map (\<lambda>j. read_u16 (bslice FIXED_HEADER (FIXED_HEADER + 2 * ?n) b) (2 * j)) [0 ..< ?n]
             = tag_lens b"
    unfolding tag_lens_def by (rule map_cong) (simp_all add: rd)
  show ?thesis
    unfolding TagsRef_collect_spec decode_tags_def Let_def
    by (simp add: len tab del: length_slice)
qed

subsection \<open>The decoder, characterised\<close>

text \<open>Acceptance by the decoder in terms of the tag table and its pieces.\<close>
definition decodable :: "bytes \<Rightarrow> bool" where
  "decodable b \<longleftrightarrow>
     FIXED_HEADER \<le> length b \<and> read_u16 b 0 \<noteq> 0 \<and> 0 \<notin> set (tag_lens b) \<and>
     header_len (read_u16 b 2) + read_u16 b 0 + sum_list (tag_lens b) \<le> min U32_MAX (length b) \<and>
     utf8_valid (decode_type b) \<and> list_all utf8_valid (TagsRef_collect (decode_tags b)) \<and>
     sorted_wrt (<) (TagsRef_collect (decode_tags b))"

lemma EventRef_from_bytes_spec:
  "EventRef_from_bytes b = Inr e \<longleftrightarrow>
     decodable b \<and>
     e = \<lparr>buf = b, data_offset = header_len (read_u16 b 2) + read_u16 b 0 + sum_list (tag_lens b)\<rparr>"
proof (cases "FIXED_HEADER \<le> length b \<and> header_len (read_u16 b 2) \<le> length b \<and> read_u16 b 0 \<noteq> 0")
  case True
  let ?ns = "tag_lens b" and ?h = "header_len (read_u16 b 2)" and ?tl = "read_u16 b 0"
  have sum: "sum_tag_lens b 0 (read_u16 b 2) 0 = Inr r \<longleftrightarrow>
               0 \<notin> set ?ns \<and> r = sum_list ?ns \<and> r \<le> U64_MAX" for r
    using sum_tag_lens_spec [of 0 b 0 "read_u16 b 2" r] by (simp add: Let_def tag_lens_def)
  have chk: "check_tags b 0 (read_u16 b 2) (?h + ?tl) None = Inr u \<longleftrightarrow>
               list_all utf8_valid (TagsRef_collect (decode_tags b)) \<and>
               sorted_wrt (<) (TagsRef_collect (decode_tags b))" for u
    using check_tags_spec [of b 0 "read_u16 b 2" "?h + ?tl" None u] True
    by (simp add: Let_def event_tags_spec tag_lens_def)
  show ?thesis
  proof (cases "sum_tag_lens b 0 (read_u16 b 2) 0")
    case (Inl err)
    then have "\<not> (0 \<notin> set ?ns \<and> sum_list ?ns \<le> U64_MAX)" using sum [of "sum_list ?ns"] by simp
    then show ?thesis
      using True Inl by (auto simp: EventRef_from_bytes_def decodable_def Let_def)
  next
    case (Inr tot)
    then have tot: "0 \<notin> set ?ns" "tot = sum_list ?ns" "tot \<le> U64_MAX" using sum by auto
    show ?thesis
    proof (cases "check_tags b 0 (read_u16 b 2) (?h + ?tl) None")
      case Inl': (Inl err)
      then have "\<not> (list_all utf8_valid (TagsRef_collect (decode_tags b)) \<and>
                 sorted_wrt (<) (TagsRef_collect (decode_tags b)))" using chk [of "()"] by simp
      then show ?thesis
        using True Inr tot Inl'
        by (auto simp: EventRef_from_bytes_def decodable_def Let_def split: option.splits)
    next
      case Inr': (Inr u)
      then show ?thesis
        using True Inr tot Inr' chk [of u]
        by (auto simp: EventRef_from_bytes_def decodable_def Let_def decode_type_def checked_add_def
            split: option.splits if_splits)
    qed
  qed
next
  case False
  then show ?thesis
    by (auto simp: EventRef_from_bytes_def decodable_def Let_def)
qed

subsection \<open>The encoder, read back\<close>

lemma bslice_le2: "bslice 0 2 (le_bytes 2 n @ r) = le_bytes 2 n"
  by (simp add: bslice_def)

lemma read_u16_front [simp]: "n < 65536 \<Longrightarrow> read_u16 (le_bytes 2 n @ r) 0 = n"
  by (simp add: read_u16_def bslice_def)

lemma read_u16_shift: "k \<le> at \<Longrightarrow> length xs = k \<Longrightarrow> read_u16 (xs @ r) at = read_u16 r (at - k)"
  by (auto simp: read_u16_def slice_append_right Suc_diff_le)

lemma read_u16_table:
  "\<lbrakk>i < length ns; \<forall>n \<in> set ns. n < 65536\<rbrakk>
   \<Longrightarrow> read_u16 (concat (map (le_bytes 2) ns) @ r) (2 * i) = ns ! i"
proof (induction ns arbitrary: i)
  case (Cons n ns)
  show ?case
  proof (cases i)
    case (Suc j)
    then show ?thesis
      using Cons read_u16_shift [of 2 "2 * i" "le_bytes 2 n" "concat (map (le_bytes 2) ns) @ r"]
      by simp
  qed (use Cons in simp)
qed simp

lemma length_concat_le_bytes [simp]: "length (concat (map (le_bytes k \<circ> f) xs)) = k * length xs"
  by (induction xs) simp_all

text \<open>The buffer \<open>Event::new\<close> builds, and what its header says.\<close>
definition event_layout :: "str \<Rightarrow> str list \<Rightarrow> bytes \<Rightarrow> bytes" where
  "event_layout ty ts payload =
     le_bytes 2 (length ty) @ le_bytes 2 (length ts) @ concat (map (le_bytes 2 \<circ> length) ts)
       @ ty @ concat ts @ payload"

lemma Event_new_spec:
  "Event_new ety ts payload = Inr e \<longleftrightarrow>
     length ts \<le> U16_MAX \<and>
     header_len (length ts) + length (type_str ety) + sum_list (map (length \<circ> tag_str) ts) \<le> U32_MAX \<and>
     e = \<lparr>buf = event_layout (type_str ety) (map tag_str ts) payload,
          data_offset = header_len (length ts) + length (type_str ety)
                          + sum_list (map (length \<circ> tag_str) ts)\<rparr>"
  by (auto simp: Event_new_def Let_def event_layout_def comp_assoc)

text \<open>The bounds the constructors guarantee, under which every length field is exact.\<close>
definition layout_ok :: "str \<Rightarrow> str list \<Rightarrow> bool" where
  "layout_ok ty ts \<longleftrightarrow>
     length ty \<le> U16_MAX \<and> length ts \<le> U16_MAX \<and> (\<forall>t \<in> set ts. length t \<le> U16_MAX)"

lemma layout_type_len: "layout_ok ty ts \<Longrightarrow> read_u16 (event_layout ty ts payload) 0 = length ty"
  by (simp add: event_layout_def layout_ok_def)

lemma layout_tag_count: "layout_ok ty ts \<Longrightarrow> read_u16 (event_layout ty ts payload) 2 = length ts"
  using read_u16_shift [of 2 2 "le_bytes 2 (length ty)"] by (simp add: event_layout_def layout_ok_def)

lemma layout_tag_lens:
  assumes "layout_ok ty ts"
  shows "tag_lens (event_layout ty ts payload) = map length ts"
proof (rule nth_equalityI)
  show "length (tag_lens (event_layout ty ts payload)) = length (map length ts)"
    by (simp add: layout_tag_count assms)
next
  fix i assume "i < length (tag_lens (event_layout ty ts payload))"
  then have i: "i < length ts" by (simp add: layout_tag_count assms)
  have "read_u16 (event_layout ty ts payload) (FIXED_HEADER + 2 * i)
        = read_u16 (concat (map (le_bytes 2) (map length ts)) @ ty @ concat ts @ payload) (2 * i)"
    using read_u16_shift [of 4 "FIXED_HEADER + 2 * i" "le_bytes 2 (length ty) @ le_bytes 2 (length ts)"]
    by (simp add: event_layout_def FIXED_HEADER_def)
  also have "\<dots> = map length ts ! i"
    by (rule read_u16_table) (use i assms in \<open>auto simp: layout_ok_def\<close>)
  finally show "tag_lens (event_layout ty ts payload) ! i = map length ts ! i"
    using i by (simp add: tag_lens_def layout_tag_count assms)
qed

lemma layout_body:
  "drop (header_len (length ts)) (event_layout ty ts payload) = ty @ concat ts @ payload"
  by (simp add: event_layout_def header_len_def FIXED_HEADER_def)

lemma layout_length:
  "length (event_layout ty ts payload)
   = header_len (length ts) + length ty + sum_list (map length ts) + length payload"
  by (simp add: event_layout_def header_len_def FIXED_HEADER_def length_concat_le_bytes)
     (simp add: length_concat)

lemma layout_decode_type: "layout_ok ty ts \<Longrightarrow> decode_type (event_layout ty ts payload) = ty"
  by (simp add: decode_type_def Let_def layout_type_len layout_tag_count bslice_def layout_body)

lemma layout_decode_tags:
  assumes "layout_ok ty ts"
  shows "TagsRef_collect (decode_tags (event_layout ty ts payload)) = ts"
proof -
  have "drop (header_len (length ts) + length ty) (event_layout ty ts payload)
        = drop (length ty) (drop (header_len (length ts)) (event_layout ty ts payload))"
    by (simp add: add.commute)
  also have "\<dots> = concat ts @ payload" by (simp add: layout_body)
  finally show ?thesis
    by (simp add: event_tags_spec layout_length layout_tag_count layout_type_len layout_tag_lens
        pieces_concat assms)
qed

lemma layout_decode_data:
  "drop (header_len (length ts) + length ty + sum_list (map length ts)) (event_layout ty ts payload)
   = payload"
proof -
  have "drop (header_len (length ts) + length ty + sum_list (map length ts)) (event_layout ty ts payload)
        = drop (length ty + sum_list (map length ts))
            (drop (header_len (length ts)) (event_layout ty ts payload))"
    by (simp add: ac_simps)
  then show ?thesis by (simp add: layout_body length_concat)
qed

lemmas layout_simps =
  layout_type_len layout_tag_count layout_tag_lens layout_decode_type layout_decode_tags
  layout_length

text \<open>A decodable buffer is the layout of its own parts.\<close>
lemma concat_le_of_table:
  "header_len (read_u16 b 2) \<le> length b \<Longrightarrow>
   concat (map (le_bytes 2) (tag_lens b)) = bslice 4 (4 + 2 * read_u16 b 2) b"
proof -
  assume h: "header_len (read_u16 b 2) \<le> length b"
  have "concat (map (\<lambda>i. le_bytes 2 (read_u16 b (4 + 2 * i))) [0 ..< n]) = bslice 4 (4 + 2 * n) b"
    if "4 + 2 * n \<le> length b" for n
    using that
  proof (induction n)
    case (Suc n)
    have "le_bytes 2 (read_u16 b (4 + 2 * n)) = bslice (4 + 2 * n) (4 + 2 * Suc n) b"
      using Suc.prems unfolding read_u16_def by (subst le_bytes_of_le) auto
    then show ?case using Suc slice_join [of 4 "4 + 2 * n" "4 + 2 * Suc n" b] by simp
  qed simp
  from this [of "read_u16 b 2"] show ?thesis
    using h by (simp add: tag_lens_def header_len_def FIXED_HEADER_def comp_def)
qed

lemma decodable_layout:
  assumes "decodable b"
  shows "event_layout (decode_type b) (TagsRef_collect (decode_tags b))
           (drop (header_len (read_u16 b 2) + read_u16 b 0 + sum_list (tag_lens b)) b) = b"
proof -
  let ?h = "header_len (read_u16 b 2)" and ?tl = "read_u16 b 0" and ?ns = "tag_lens b"
  have len: "?h + ?tl + sum_list ?ns \<le> length b" using assms by (simp add: decodable_def)
  have tags: "TagsRef_collect (decode_tags b) = pieces ?ns (drop (?h + ?tl) b)"
    using len by (intro event_tags_spec) simp
  have lens: "map length (pieces ?ns (drop (?h + ?tl) b)) = ?ns"
    using len by (intro map_length_pieces) simp
  have ty: "decode_type b = bslice ?h (?h + ?tl) b" by (simp add: decode_type_def Let_def)
  have table: "concat (map (le_bytes 2 \<circ> length) (pieces ?ns (drop (?h + ?tl) b)))
               = bslice 4 ?h b"
    using concat_le_of_table [of b] len lens
    by (simp add: header_len_def FIXED_HEADER_def flip: map_map)
  have f0: "le_bytes 2 ?tl = bslice 0 2 b" and f2: "le_bytes 2 (read_u16 b 2) = bslice 2 4 b"
    using len by (simp_all add: read_u16_def le_bytes_of_le header_len_def FIXED_HEADER_def
        numeral_2_eq_2 [symmetric])
  have body: "concat (pieces ?ns (drop (?h + ?tl) b)) @ drop (?h + ?tl + sum_list ?ns) b
              = drop (?h + ?tl) b"
    by (simp add: concat_pieces flip: drop_drop) (metis append_take_drop_id drop_drop add.commute)
  have "length (pieces ?ns (drop (?h + ?tl) b)) = read_u16 b 2" by simp
  moreover have "length (bslice ?h (?h + ?tl) b) = ?tl" using len by simp
  ultimately have "event_layout (decode_type b) (TagsRef_collect (decode_tags b))
        (drop (?h + ?tl + sum_list ?ns) b)
      = bslice 0 2 b @ bslice 2 4 b @ bslice 4 ?h b @ bslice ?h (?h + ?tl) b @ drop (?h + ?tl) b"
    unfolding event_layout_def tags ty table using body f0 f2 by simp
  also have "\<dots> = b"
    by (simp add: drop_split_slice header_len_def FIXED_HEADER_def)
  finally show ?thesis .
qed

lemma decodable_event:
  assumes "EventRef_from_bytes b = Inr e"
  shows "buf e = b" and "event_layout (event_type e) (event_tags e) (data e) = b"
    and "map length (event_tags e) = tag_lens b" and "length (event_type e) = read_u16 b 0"
    and "decodable b"
proof -
  have e: "e = \<lparr>buf = b, data_offset = header_len (read_u16 b 2) + read_u16 b 0 + sum_list (tag_lens b)\<rparr>"
    and d: "decodable b"
    using assms by (simp_all add: EventRef_from_bytes_spec)
  show "buf e = b" and "decodable b" using e d by simp_all
  show "event_layout (event_type e) (event_tags e) (data e) = b"
    using decodable_layout [OF d] by (simp add: e event_type_def event_tags_def data_def decode_data_def)
  have len: "header_len (read_u16 b 2) + read_u16 b 0 + sum_list (tag_lens b) \<le> length b"
    using d by (simp add: decodable_def)
  show "map length (event_tags e) = tag_lens b"
    using len by (simp add: e event_tags_def event_tags_spec map_length_pieces)
  show "length (event_type e) = read_u16 b 0"
    using len by (simp add: e event_type_def decode_type_def Let_def)
qed

lemma from_bytes_wf:
  assumes "EventRef_from_bytes b = Inr e"
  shows "wf_name (event_type e)" and "wf_Tags (map Tag (event_tags e))"
    and "length (event_tags e) \<le> U16_MAX"
proof -
  note d = decodable_event [OF assms]
  have len: "length t \<in> set (tag_lens b)" if "t \<in> set (event_tags e)" for t
    using that d(3) by (metis imageI list.set_map)
  have small: "n \<le> U16_MAX" if "n \<in> set (tag_lens b)" for n
    using that read_u16_less by (auto simp: tag_lens_def less_Suc_eq_le [symmetric])
  show "wf_name (event_type e)"
    using d read_u16_less [of b 0]
    by (auto simp: wf_name_def decodable_def event_type_def MAX_NAME_LEN_def)
  have "wf_name t" if t: "t \<in> set (event_tags e)" for t
    using d(1,5) len [OF t] small [OF len [OF t]] t
    by (auto simp: wf_name_def MAX_NAME_LEN_def decodable_def event_tags_def list_all_iff)
  then show "wf_Tags (map Tag (event_tags e))"
    using d(1,5) by (simp add: wf_Tags_def list_all_iff map_tag_str_sorted comp_def
        decodable_def event_tags_def)
  show "length (event_tags e) \<le> U16_MAX"
    using arg_cong [OF d(3), of length] read_u16_less [of b 2] by simp
qed

lemma Event_new_decodes:
  assumes "wf_name (type_str ety)" and "wf_Tags ts" and "Event_new ety ts payload = Inr e"
  shows "EventRef_from_bytes (buf e) = Inr e \<and> event_type e = type_str ety \<and>
         event_tags e = map tag_str ts \<and> data e = payload"
proof -
  have e: "e = \<lparr>buf = event_layout (type_str ety) (map tag_str ts) payload,
                data_offset = header_len (length ts) + length (type_str ety)
                                + sum_list (map (length \<circ> tag_str) ts)\<rparr>"
    and cnt: "length ts \<le> U16_MAX"
    and fit: "header_len (length ts) + length (type_str ety) + sum_list (map (length \<circ> tag_str) ts) \<le> U32_MAX"
    using assms(3) by (auto simp: Event_new_spec)
  have ok: "layout_ok (type_str ety) (map tag_str ts)"
    using assms(1,2) cnt
    by (auto simp: layout_ok_def wf_name_def wf_Tags_def list_all_iff MAX_NAME_LEN_def)
  have "decodable (event_layout (type_str ety) (map tag_str ts) payload)"
    using assms(1,2) fit
    by (auto simp: decodable_def layout_simps ok wf_name_def wf_Tags_def list_all_iff
        map_tag_str_sorted header_len_def)
  then show ?thesis
    using layout_decode_data [of "map tag_str ts" "type_str ety" payload]
    by (simp add: EventRef_from_bytes_spec e layout_simps ok event_type_def event_tags_def data_def
        decode_data_def)
qed

lemma decoded_rebuilds:
  assumes "EventRef_from_bytes b = Inr e"
  shows "buf e = b \<and> wf_name (event_type e) \<and> wf_Tags (map Tag (event_tags e)) \<and>
         Event_new (EventType (event_type e)) (map Tag (event_tags e)) (data e) = Inr e"
proof -
  note d = decodable_event [OF assms]
  have cnt: "length (event_tags e) = read_u16 b 2"
    using arg_cong [OF d(3), of length] by simp
  have "data_offset e = header_len (read_u16 b 2) + read_u16 b 0 + sum_list (tag_lens b)"
    using assms by (simp add: EventRef_from_bytes_spec)
  then have "data_offset e = header_len (length (event_tags e)) + length (event_type e)
                               + sum_list (map length (event_tags e))"
    using d(3,4) cnt by simp
  moreover have "data_offset e \<le> U32_MAX"
    using assms by (auto simp: EventRef_from_bytes_spec decodable_def)
  ultimately show ?thesis
    using d from_bytes_wf [OF assms] by (simp add: Event_new_spec comp_def)
qed

subsection \<open>Properties\<close>

text \<open>
  C27. Encoding then decoding an event is the identity: for a constructed type and tag set, the buffer
  \<open>Event::new\<close> builds is accepted by \<open>EventRef::from_bytes\<close>, which returns the same buffer and payload
  offset, and the accessors give back the type, the tags in order and the payload.
\<close>
theorem event_roundtrip:
  assumes "wf_name (type_str ety)" and "wf_Tags ts" and "Event_new ety ts payload = Inr e"
  shows "EventRef_from_bytes (buf e) = Inr e \<and> event_type e = type_str ety \<and>
         event_tags e = map tag_str ts \<and> data e = payload"
  by (rule Event_new_decodes [OF assms])

theorem event_roundtrip_witness:
  "\<exists>e. Event_new (EventType [0x41]) [Tag [0x61], Tag [0x62, 0x63]] [1, 2, 3] = Inr e \<and>
       EventRef_from_bytes (buf e) = Inr e \<and> event_tags e = [[0x61], [0x62, 0x63]] \<and> data e = [1, 2, 3]"
proof -
  let ?e = "\<lparr>buf = event_layout [0x41] [[0x61], [0x62, 0x63]] [1, 2, 3], data_offset = 12\<rparr>"
  have new: "Event_new (EventType [0x41]) [Tag [0x61], Tag [0x62, 0x63]] [1, 2, 3] = Inr ?e"
    by (simp add: Event_new_spec header_len_def FIXED_HEADER_def)
  have "wf_name (type_str (EventType [0x41]))" by code_simp
  moreover have "wf_Tags [Tag [0x61], Tag [0x62, 0x63]]" by code_simp
  ultimately show ?thesis using event_roundtrip [OF _ _ new] new by auto
qed

text \<open>
  The encoding is canonical: every buffer the decoder accepts is exactly what \<open>Event::new\<close> builds
  from the decoded type, tags and payload, which are a valid name, a strictly sorted tag set of valid
  names and the remaining bytes. So two accepted buffers with equal parts are equal.
\<close>
theorem event_canonical:
  assumes "EventRef_from_bytes b = Inr e"
  shows "buf e = b \<and> wf_name (event_type e) \<and> wf_Tags (map Tag (event_tags e)) \<and>
         Event_new (EventType (event_type e)) (map Tag (event_tags e)) (data e) = Inr e"
  by (rule decoded_rebuilds [OF assms])

theorem event_canonical_witness:
  "\<exists>e. EventRef_from_bytes [1, 0, 1, 0, 1, 0, 0x41, 0x61, 9] = Inr e \<and>
       Event_new (EventType (event_type e)) (map Tag (event_tags e)) (data e) = Inr e"
proof -
  have "EventRef_from_bytes [1, 0, 1, 0, 1, 0, 0x41, 0x61, 9]
        = Inr \<lparr>buf = [1, 0, 1, 0, 1, 0, 0x41, 0x61, 9], data_offset = 8\<rparr>"
    by code_simp
  then show ?thesis using event_canonical by blast
qed

end
