(* ===== verification/Query.thy ===== *)
theory Query
  imports Event
begin

text \<open>
  The match predicate over an encoded event (\<open>crates/tephra/src/query.rs\<close>). \<open>tags_contained\<close> is the
  linear merge of the source over the borrowing tag iterator; the reference predicate
  \<open>matches_parts\<close> says what it means (OR over the items, type membership, tag inclusion), and the
  properties show that the merge computes it on every decodable event.
\<close>

subsection \<open>Definitions\<close>

text \<open>\<open>event_tags.next()\<close> as a state update of the iterator.\<close>
definition TagsRef_advance :: "TagsRef \<Rightarrow> str option \<times> TagsRef" where
  "TagsRef_advance it = (case TagsRef_next it of None \<Rightarrow> (None, it) | Some (t, it') \<Rightarrow> (Some t, it'))"

text \<open>
  The two nested loops of \<open>tags_contained\<close>: \<open>current\<close> is the event tag at hand, the iterator holds
  the ones after it.
\<close>
function tags_contained_from :: "Tag list \<Rightarrow> str option \<Rightarrow> TagsRef \<Rightarrow> bool" where
  "tags_contained_from [] current it = True"
| "tags_contained_from (req # rs) None it = False"
| "tags_contained_from (req # rs) (Some t) it =
     (if t < tag_str req
      then (case TagsRef_advance it of (current, it') \<Rightarrow> tags_contained_from (req # rs) current it')
      else if t = tag_str req
      then (case TagsRef_advance it of (current, it') \<Rightarrow> tags_contained_from rs current it')
      else False)"
  by pat_completeness auto
termination
  by (relation "measures [\<lambda>(rs, c, it). length rs,
        \<lambda>(rs, c, it). length (tr_lens it) + 1 - 2 * tr_idx it + (if c = None then 0 else 1)]")
    (auto simp: TagsRef_advance_def TagsRef_next_def Let_def split: if_splits)

definition tags_contained :: "Tags \<Rightarrow> Event \<Rightarrow> bool" where
  "tags_contained required event =
     (case TagsRef_advance (decode_tags (buf event)) of
        (current, it) \<Rightarrow> tags_contained_from required current it)"

definition QueryItem_matches :: "QueryItem \<Rightarrow> Event \<Rightarrow> bool" where
  "QueryItem_matches it event =
     (let type_ok = types it = [] \<or> list_ex (\<lambda>t. type_str t = event_type event) (types it)
      in type_ok \<and> tags_contained (tags it) event)"

definition Query_matches :: "Query \<Rightarrow> Event \<Rightarrow> bool" where
  "Query_matches q event =
     (case q of All \<Rightarrow> True | Items its \<Rightarrow> list_ex (\<lambda>it. QueryItem_matches it event) its)"

subsection \<open>The reference predicate\<close>

definition item_matches_parts :: "QueryItem \<Rightarrow> str \<Rightarrow> str list \<Rightarrow> bool" where
  "item_matches_parts it ty ts \<longleftrightarrow>
     (types it = [] \<or> ty \<in> type_str ` set (types it)) \<and> tag_str ` set (tags it) \<subseteq> set ts"

definition matches_parts :: "Query \<Rightarrow> str \<Rightarrow> str list \<Rightarrow> bool" where
  "matches_parts q ty ts \<longleftrightarrow>
     (case q of All \<Rightarrow> True | Items its \<Rightarrow> (\<exists>it \<in> set its. item_matches_parts it ty ts))"

subsection \<open>Facts\<close>

lemma TagsRef_advance_collect:
  "TagsRef_advance it = (c, it') \<Longrightarrow>
   TagsRef_collect it = (case c of None \<Rightarrow> [] | Some t \<Rightarrow> t # TagsRef_collect it')"
  by (subst TagsRef_collect.simps) (auto simp: TagsRef_advance_def split: option.splits)

lemma tags_contained_from_spec:
  assumes "sorted_wrt (<) rs"
    and "sorted_wrt (<) (case c of None \<Rightarrow> [] | Some t \<Rightarrow> t # TagsRef_collect it)"
  shows "tags_contained_from rs c it \<longleftrightarrow>
         tag_str ` set rs \<subseteq> set (case c of None \<Rightarrow> [] | Some t \<Rightarrow> t # TagsRef_collect it)"
  using assms
proof (induction rs c it rule: tags_contained_from.induct)
  case (3 req rs t it)
  obtain c it' where adv: "TagsRef_advance it = (c, it')" by fastforce
  note col = TagsRef_advance_collect [OF adv]
  have above: "\<forall>u \<in> set (TagsRef_collect it). t < u"
    and srt: "sorted_wrt (<) (case c of None \<Rightarrow> [] | Some t \<Rightarrow> t # TagsRef_collect it')"
    using 3(4) by (simp_all add: col [symmetric])
  have gt: "\<forall>r \<in> set rs. tag_str req < tag_str r" using 3(3) by (simp add: less_Tag_def)
  consider "t < tag_str req" | "t = tag_str req" | "t > tag_str req" by (rule linorder_cases)
  then show ?case
  proof cases
    case 1
    have "t \<notin> tag_str ` set (req # rs)" using 1 gt by fastforce
    then show ?thesis using 1 3(1) [OF 1 adv [symmetric]] 3(3) srt
      by (auto simp: adv col split: option.splits)
  next
    case 2
    have "t \<notin> tag_str ` set rs" using 2 gt by fastforce
    then have "tag_str ` set (req # rs) \<subseteq> set (t # TagsRef_collect it) \<longleftrightarrow>
               tag_str ` set rs \<subseteq> set (TagsRef_collect it)"
      using 2 by (simp add: subset_insert)
    moreover have "tags_contained_from rs c it' \<longleftrightarrow> tag_str ` set rs \<subseteq> set (TagsRef_collect it)"
      using 2 3(2) [OF _ 2 adv [symmetric]] 3(3) srt by (simp add: col)
    ultimately show ?thesis using 2 by (simp add: adv)
  next
    case 3
    have "tag_str req \<notin> set (t # TagsRef_collect it)" using 3 above by fastforce
    then show ?thesis using 3 by auto
  qed
qed simp_all

lemma tags_contained_spec:
  assumes "sorted_wrt (<) rs" and "sorted_wrt (<) (event_tags e)"
  shows "tags_contained rs e \<longleftrightarrow> tag_str ` set rs \<subseteq> set (event_tags e)"
proof -
  obtain c it where adv: "TagsRef_advance (decode_tags (buf e)) = (c, it)" by fastforce
  show ?thesis
    using tags_contained_from_spec [OF assms(1), where c = c and it = it] assms(2)
    by (simp add: tags_contained_def adv event_tags_def TagsRef_advance_collect [OF adv])
qed

lemma event_tags_sorted: "EventRef_from_bytes b = Inr e \<Longrightarrow> sorted_wrt (<) (event_tags e)"
  using from_bytes_wf(2) by (auto simp: wf_Tags_def map_tag_str_sorted comp_def)

lemma QueryItem_matches_spec:
  assumes "wf_Tags (tags it)" and "EventRef_from_bytes b = Inr e"
  shows "QueryItem_matches it e \<longleftrightarrow> item_matches_parts it (event_type e) (event_tags e)"
  using tags_contained_spec [OF _ event_tags_sorted [OF assms(2)], of "tags it"] assms(1)
  by (auto simp: QueryItem_matches_def item_matches_parts_def wf_Tags_def list_ex_iff
      intro: rev_image_eqI)

lemma Query_matches_spec:
  assumes "wf_Query q" and "EventRef_from_bytes b = Inr e"
  shows "Query_matches q e \<longleftrightarrow> matches_parts q (event_type e) (event_tags e)"
  using assms QueryItem_matches_spec [OF _ assms(2)]
  by (auto simp: Query_matches_def matches_parts_def wf_Query_def list_ex_iff list_all_iff
      split: Query.splits)

lemma matches_parts_All [simp]: "matches_parts All ty ts"
  by (simp add: matches_parts_def)

lemma matches_parts_no_items [simp]: "\<not> matches_parts (Items []) ty ts"
  by (simp add: matches_parts_def)

subsection \<open>Properties\<close>

text \<open>
  C28. The match predicate is the documented one: on an event that decodes, and a query whose tag sets
  are sorted and duplicate-free, the linear merge of \<open>tags_contained\<close> and the loops over types and
  items decide exactly "some item lists the event's type (or lists none) and all the item's tags are
  among the event's tags", with \<open>Query::All\<close> matching everything.
\<close>
theorem query_matches_correct:
  assumes "wf_Query q" and "EventRef_from_bytes b = Inr e"
  shows "Query_matches q e \<longleftrightarrow>
         (case q of
            All \<Rightarrow> True
          | Items its \<Rightarrow>
              (\<exists>it \<in> set its. (types it = [] \<or> EventType (event_type e) \<in> set (types it)) \<and>
                             set (tags it) \<subseteq> Tag ` set (event_tags e)))"
proof -
  have ty: "s \<in> type_str ` set tys \<longleftrightarrow> EventType s \<in> set tys" for s tys
    by (metis EventType.collapse EventType.sel image_iff)
  have tg: "tag_str ` set ts \<subseteq> set us \<longleftrightarrow> set ts \<subseteq> Tag ` set us" for ts us
    by (force simp: image_iff subset_iff)
  show ?thesis
    using Query_matches_spec [OF assms]
    by (cases q) (simp_all add: matches_parts_def item_matches_parts_def ty tg)
qed

theorem query_matches_correct_witness:
  "\<exists>e. EventRef_from_bytes [1, 0, 2, 0, 1, 0, 1, 0, 0x41, 0x61, 0x63, 9] = Inr e \<and>
       Query_matches (Items [\<lparr>types = [EventType [0x42], EventType [0x41]], tags = [Tag [0x63]]\<rparr>]) e"
proof -
  let ?b = "[1, 0, 2, 0, 1, 0, 1, 0, 0x41, 0x61, 0x63, 9] :: bytes"
  let ?q = "Items [\<lparr>types = [EventType [0x42], EventType [0x41]], tags = [Tag [0x63]]\<rparr>]"
  have dec: "EventRef_from_bytes ?b = Inr \<lparr>buf = ?b, data_offset = 11\<rparr>" by code_simp
  have "event_type \<lparr>buf = ?b, data_offset = 11\<rparr> = [0x41]" by code_simp
  moreover have "event_tags \<lparr>buf = ?b, data_offset = 11\<rparr> = [[0x61], [0x63]]" by code_simp
  moreover have "wf_Query ?q" by code_simp
  ultimately have "Query_matches ?q \<lparr>buf = ?b, data_offset = 11\<rparr>"
    using query_matches_correct [OF _ dec, of ?q] by simp
  then show ?thesis using dec by blast
qed

end
