(* ===== verification/Framing.thy ===== *)
theory Framing
  imports Prelude
begin

unbundle bit_operations_syntax

text \<open>
  Record framing of the segmented log (\<open>crates/seglog/src/lib.rs\<close>, \<open>parse.rs\<close>, and the error type of
  \<open>read.rs\<close>). A record is a little-endian \<open>u32\<close> length with two flag bits, a \<open>u32\<close> checksum of length
  and payload, and the payload. The length field is kept as a \<open>32 word\<close> because the code masks it.

  The checksum comes from a third-party crate and is the parameter \<open>crc\<close> of every definition that
  computes it: a function of the concatenated bytes fed to the hasher. \<open>frame\<close> is the reference view
  of one record on disk, used to state what the parser, the writer and recovery do.
\<close>

subsection \<open>Constants\<close>

definition LEN_SIZE :: nat where "LEN_SIZE = 4"
definition CRC32C_SIZE :: nat where "CRC32C_SIZE = 4"

definition RECORD_HEAD_SIZE :: nat where
  [code_unfold]: "RECORD_HEAD_SIZE = LEN_SIZE + CRC32C_SIZE"

definition CONTROL_FLAG :: "32 word" where "CONTROL_FLAG = 0x40000000"
definition FLAG_MASK :: "32 word" where "FLAG_MASK = CONTROL_FLAG"
definition LENGTH_MASK :: "32 word" where "LENGTH_MASK = 0x3FFFFFFF"

definition MAX_RECORD_LEN :: nat where "MAX_RECORD_LEN = unat LENGTH_MASK"

definition BATCH_COMMIT :: byte where "BATCH_COMMIT = 0x01"

definition COMMIT_MARKER_PAYLOAD :: nat where "COMMIT_MARKER_PAYLOAD = 1 + 8"

type_synonym crc_fun = "bytes \<Rightarrow> 32 word"

subsection \<open>Checks on a record header\<close>

definition has_unknown_flags :: "32 word \<Rightarrow> bool" where
  "has_unknown_flags raw \<longleftrightarrow> raw AND NOT (FLAG_MASK OR LENGTH_MASK) \<noteq> 0"

definition calculate_crc32c :: "crc_fun \<Rightarrow> bytes \<Rightarrow> bytes \<Rightarrow> bytes \<Rightarrow> 32 word" where
  "calculate_crc32c crc len_bytes header data = crc (len_bytes @ header @ data)"

definition is_truncation_marker :: "bytes \<Rightarrow> bool" where
  "is_truncation_marker head = list_all (\<lambda>b. b = 0) head"

text \<open>\<open>u32::from_le_bytes\<close> and \<open>u32::to_le_bytes\<close>.\<close>
definition u32_of_le :: "bytes \<Rightarrow> 32 word" where
  "u32_of_le bs = of_nat (of_le bs)"

definition u32_le :: "32 word \<Rightarrow> bytes" where
  "u32_le w = le_bytes 4 (unat w)"

subsection \<open>Errors\<close>

text \<open>\<open>ReadPanic\<close> is the slice-index panic of \<open>&payload[..H]\<close> on a payload shorter than \<open>H\<close>.\<close>
datatype ReadError =
    Crc32cMismatch nat
  | OutOfBounds nat nat nat
  | TruncationMarker nat
  | ControlRecord nat nat
  | Corrupt nat
  | ReplaceLengthMismatch nat nat
  | ReadIo
  | ReadPanic

subsection \<open>Parsing\<close>

definition parse_record_parts ::
  "crc_fun \<Rightarrow> nat \<Rightarrow> bytes \<Rightarrow> nat \<Rightarrow> ReadError + (bytes \<times> bytes \<times> nat)" where
  "parse_record_parts crc H bs offset =
     (if offset + RECORD_HEAD_SIZE > length bs
      then Inl (OutOfBounds offset RECORD_HEAD_SIZE (length bs))
      else
        let record_header_buf = bslice offset (offset + RECORD_HEAD_SIZE) bs
        in if is_truncation_marker record_header_buf then Inl (TruncationMarker offset)
           else
             let length_bytes = take LEN_SIZE record_header_buf;
                 length_with_flag = u32_of_le length_bytes
             in if has_unknown_flags length_with_flag then Inl (Corrupt offset)
                else
                  let is_control = length_with_flag AND CONTROL_FLAG \<noteq> 0;
                      payload_len = unat (length_with_flag AND LENGTH_MASK);
                      crc_field = u32_of_le (bslice LEN_SIZE (LEN_SIZE + CRC32C_SIZE) record_header_buf);
                      payload_offset = offset + RECORD_HEAD_SIZE
                  in if payload_offset + payload_len > length bs
                     then Inl (OutOfBounds offset (RECORD_HEAD_SIZE + payload_len) (length bs))
                     else
                       let payload = bslice payload_offset (payload_offset + payload_len) bs
                       in if is_control
                          then (if calculate_crc32c crc length_bytes [] payload \<noteq> crc_field
                                then Inl (Crc32cMismatch offset)
                                else Inl (ControlRecord offset (RECORD_HEAD_SIZE + payload_len)))
                          else if length payload < H then Inl ReadPanic
                          else
                            let header = take H payload; data = drop H payload
                            in if crc_field \<noteq> calculate_crc32c crc length_bytes header data
                               then Inl (Crc32cMismatch offset)
                               else Inr (header, data, RECORD_HEAD_SIZE + payload_len))"

definition parse_record ::
  "crc_fun \<Rightarrow> nat \<Rightarrow> bytes \<Rightarrow> nat \<Rightarrow> ReadError + (bytes \<times> bytes \<times> nat)" where
  "parse_record crc H bs offset = parse_record_parts crc H bs offset"

definition parse_record_ref :: "crc_fun \<Rightarrow> nat \<Rightarrow> bytes \<Rightarrow> nat \<Rightarrow> ReadError + (bytes \<times> nat)" where
  "parse_record_ref crc H bs offset =
     (case parse_record_parts crc H bs offset of
        Inl e \<Rightarrow> Inl e
      | Inr (_, data, total_len) \<Rightarrow> Inr (data, total_len))"

subsection \<open>Frames: the reference view of a record\<close>

datatype frame = Frame (is_ctl: bool) (frame_payload: bytes)

definition frame_raw :: "frame \<Rightarrow> 32 word" where
  "frame_raw f = of_nat (length (frame_payload f)) OR (if is_ctl f then CONTROL_FLAG else 0)"

definition frame_bytes :: "crc_fun \<Rightarrow> frame \<Rightarrow> bytes" where
  "frame_bytes crc f =
     u32_le (frame_raw f) @ u32_le (crc (u32_le (frame_raw f) @ frame_payload f)) @ frame_payload f"

text \<open>A frame that fits the length field and cannot be mistaken for the zero-filled tail.\<close>
definition frame_ok :: "crc_fun \<Rightarrow> frame \<Rightarrow> bool" where
  "frame_ok crc f \<longleftrightarrow>
     length (frame_payload f) \<le> MAX_RECORD_LEN \<and>
     (is_ctl f \<or> frame_payload f \<noteq> [] \<or> crc (le_bytes 4 0) \<noteq> 0)"

definition frame_len :: "frame \<Rightarrow> nat" where
  "frame_len f = RECORD_HEAD_SIZE + length (frame_payload f)"

definition commit_frame :: "nat \<Rightarrow> frame" where
  "commit_frame pos = Frame True (BATCH_COMMIT # le_bytes 8 pos)"

text \<open>The frame a valid record at the front of a byte string stands for.\<close>
definition frame_at :: "crc_fun \<Rightarrow> bytes \<Rightarrow> frame option" where
  "frame_at crc bs =
     (if length bs < RECORD_HEAD_SIZE \<or> is_truncation_marker (take RECORD_HEAD_SIZE bs) then None
      else
        let raw = u32_of_le (take 4 bs); n = unat (raw AND LENGTH_MASK)
        in if has_unknown_flags raw \<or> RECORD_HEAD_SIZE + n > length bs then None
           else
             let payload = bslice RECORD_HEAD_SIZE (RECORD_HEAD_SIZE + n) bs
             in if crc (take 4 bs @ payload) \<noteq> u32_of_le (bslice 4 8 bs) then None
                else Some (Frame (raw AND CONTROL_FLAG \<noteq> 0) payload))"

text \<open>A checksum instance for concrete runs of the model: the sum of the bytes plus one.\<close>
definition crc_demo :: crc_fun where
  "crc_demo bs = of_nat (1 + sum_list (map unat bs))"

subsection \<open>Facts about the length field\<close>

lemma RECORD_HEAD_SIZE_8: "RECORD_HEAD_SIZE = 8"
  by (simp add: RECORD_HEAD_SIZE_def LEN_SIZE_def CRC32C_SIZE_def)

lemma RECORD_HEAD_SIZE_pos [simp]: "0 < RECORD_HEAD_SIZE"
  by (simp add: RECORD_HEAD_SIZE_8)

lemma MAX_RECORD_LEN_val: "MAX_RECORD_LEN = 0x3FFFFFFF"
  by (simp add: MAX_RECORD_LEN_def LENGTH_MASK_def)

lemma COMMIT_MARKER_PAYLOAD_9: "COMMIT_MARKER_PAYLOAD = 9"
  by (simp add: COMMIT_MARKER_PAYLOAD_def)

lemma LENGTH_MASK_mask: "LENGTH_MASK = mask 30"
  by (simp add: LENGTH_MASK_def mask_eq_exp_minus_1)

lemma CONTROL_FLAG_bit: "bit CONTROL_FLAG n \<longleftrightarrow> n = 30"
proof -
  have "CONTROL_FLAG = 2 ^ 30" by (simp add: CONTROL_FLAG_def)
  then have "bit CONTROL_FLAG n \<longleftrightarrow> bit (2 ^ 30 :: 32 word) n" by (rule arg_cong)
  then show ?thesis unfolding bit_exp_iff by auto
qed

lemma CONTROL_FLAG_test: "raw AND CONTROL_FLAG \<noteq> 0 \<longleftrightarrow> bit raw 30"
proof -
  have "bit (raw AND CONTROL_FLAG) n \<longleftrightarrow> n = 30 \<and> bit raw 30" for n
    by (auto simp: bit_and_iff CONTROL_FLAG_bit)
  then show ?thesis unfolding bit_eq_iff [of _ "0 :: 32 word"] by (auto dest: bit_imp_le_length)
qed

lemma has_unknown_flags_bit: "has_unknown_flags raw \<longleftrightarrow> bit raw 31"
proof -
  have range: "30 \<le> n \<and> n \<noteq> 30 \<and> n < 32 \<longleftrightarrow> n = 31" for n :: nat by linarith
  have "bit (raw AND NOT (FLAG_MASK OR LENGTH_MASK)) n \<longleftrightarrow> bit raw n \<and> 30 \<le> n \<and> n \<noteq> 30 \<and> n < 32" for n
    by (auto simp: bit_and_iff bit_not_iff bit_or_iff FLAG_MASK_def CONTROL_FLAG_bit
        LENGTH_MASK_mask bit_mask_iff not_less dest: bit_imp_le_length)
  then have "bit (raw AND NOT (FLAG_MASK OR LENGTH_MASK)) n \<longleftrightarrow> n = 31 \<and> bit raw 31" for n
    unfolding range by auto
  then show ?thesis
    unfolding has_unknown_flags_def bit_eq_iff [of _ "0 :: 32 word"] by (auto dest: bit_imp_le_length)
qed

lemma LENGTH_MASK_take: "raw AND LENGTH_MASK = take_bit 30 raw"
  by (simp add: LENGTH_MASK_mask take_bit_eq_mask)

lemma raw_split:
  assumes "\<not> has_unknown_flags raw"
  shows "raw = (raw AND LENGTH_MASK) OR (if raw AND CONTROL_FLAG \<noteq> 0 then CONTROL_FLAG else 0)"
proof (rule bit_eqI)
  fix n assume "possible_bit TYPE(32 word) n"
  then have "n < 32" by simp
  then have "n < 30 \<or> n = 30 \<or> n = 31" by linarith
  then show "bit raw n =
    bit ((raw AND LENGTH_MASK) OR (if raw AND CONTROL_FLAG \<noteq> 0 then CONTROL_FLAG else 0)) n"
    using assms
    by (auto simp: CONTROL_FLAG_test has_unknown_flags_bit LENGTH_MASK_mask bit_or_iff bit_and_iff
        bit_mask_iff CONTROL_FLAG_bit)
qed

lemma length_u32_le [simp]: "length (u32_le w) = 4"
  by (simp add: u32_le_def)

lemma unat_u32_less [simp]: "unat (w :: 32 word) < 4294967296"
  using unsigned_less [of w] by simp

lemma u32_of_le_u32_le [simp]: "u32_of_le (u32_le w) = w"
  by (simp add: u32_of_le_def u32_le_def)

lemma u32_le_u32_of_le: "length bs = 4 \<Longrightarrow> u32_le (u32_of_le bs) = bs"
proof -
  assume l: "length bs = 4"
  have "of_le bs < 4294967296" using of_le_less_len [OF l] by simp
  then have "unat (of_nat (of_le bs) :: 32 word) = of_le bs"
    by (simp add: unat_of_nat take_bit_eq_mod)
  then show ?thesis using l by (simp add: u32_le_def u32_of_le_def le_bytes_of_le)
qed

lemma le_bytes_0: "le_bytes k 0 = replicate k 0"
  by (induction k) simp_all

lemma u32_le_zero: "list_all (\<lambda>b. b = 0) (u32_le w) \<longleftrightarrow> w = 0"
proof
  assume "list_all (\<lambda>b. b = 0) (u32_le w)"
  then have "u32_le w = replicate 4 0"
    by (intro nth_equalityI) (auto simp: list_all_length)
  then have "u32_of_le (u32_le w) = u32_of_le (replicate 4 0)" by (rule arg_cong)
  moreover have "u32_of_le (replicate 4 0) = 0" by (simp add: u32_of_le_def numeral_eq_Suc)
  ultimately show "w = 0" by (simp only: u32_of_le_u32_le)
qed (simp add: u32_le_def le_bytes_0 list_all_iff)

lemma frame_raw_props:
  assumes "length (frame_payload f) \<le> MAX_RECORD_LEN"
  shows "unat (frame_raw f AND LENGTH_MASK) = length (frame_payload f)"
    and "frame_raw f AND CONTROL_FLAG \<noteq> 0 \<longleftrightarrow> is_ctl f"
    and "\<not> has_unknown_flags (frame_raw f)"
proof -
  let ?n = "length (frame_payload f)"
  have small: "?n < 2 ^ 30" using assms by (simp add: MAX_RECORD_LEN_val)
  have tb: "take_bit 30 ?n = ?n" using small by (simp add: take_bit_nat_eq_self_iff)
  have ctl0: "take_bit 30 CONTROL_FLAG = 0" by (simp add: CONTROL_FLAG_def)
  have n30: "take_bit 30 (of_nat ?n :: 32 word) = of_nat ?n"
    by (metis of_nat_take_bit tb)
  have bits: "bit (of_nat ?n :: 32 word) k \<Longrightarrow> k < 30" for k
    by (metis bit_take_bit_iff n30)
  have "frame_raw f AND LENGTH_MASK = of_nat ?n"
    by (simp add: frame_raw_def LENGTH_MASK_take ctl0 n30)
  moreover have "unat (of_nat ?n :: 32 word) = ?n"
    using small by (simp add: unat_of_nat take_bit_nat_eq_self_iff)
  ultimately show "unat (frame_raw f AND LENGTH_MASK) = ?n" by simp
  show "frame_raw f AND CONTROL_FLAG \<noteq> 0 \<longleftrightarrow> is_ctl f"
    using bits [of 30] by (auto simp: CONTROL_FLAG_test frame_raw_def bit_or_iff CONTROL_FLAG_bit)
  show "\<not> has_unknown_flags (frame_raw f)"
    using bits [of 31] by (auto simp: has_unknown_flags_bit frame_raw_def bit_or_iff CONTROL_FLAG_bit)
qed

lemma frame_raw_zero:
  assumes "length (frame_payload f) \<le> MAX_RECORD_LEN"
  shows "frame_raw f = 0 \<longleftrightarrow> \<not> is_ctl f \<and> frame_payload f = []"
proof
  assume "frame_raw f = 0"
  then show "\<not> is_ctl f \<and> frame_payload f = []"
    using frame_raw_props(1,2) [OF assms] by auto
qed (simp add: frame_raw_def)

subsection \<open>Frames and bytes\<close>

lemma length_frame_bytes [simp]: "length (frame_bytes crc f) = frame_len f"
  by (simp add: frame_bytes_def frame_len_def RECORD_HEAD_SIZE_8)

lemma u32_le_of_nat: "n < 4294967296 \<Longrightarrow> u32_le (of_nat n) = le_bytes 4 n"
  by (simp add: u32_le_def unat_of_nat take_bit_eq_mod)

lemma frame_bytes_data:
  "length p \<le> MAX_RECORD_LEN \<Longrightarrow>
   frame_bytes crc (Frame False p) = le_bytes 4 (length p) @ u32_le (crc (le_bytes 4 (length p) @ p)) @ p"
  by (simp add: frame_bytes_def frame_raw_def u32_le_of_nat MAX_RECORD_LEN_val)

lemma frame_bytes_head: "take RECORD_HEAD_SIZE (frame_bytes crc f @ r) =
    u32_le (frame_raw f) @ u32_le (crc (u32_le (frame_raw f) @ frame_payload f))"
  by (simp add: frame_bytes_def RECORD_HEAD_SIZE_8)

lemma frame_head_not_marker:
  assumes "frame_ok crc f"
  shows "\<not> is_truncation_marker (take RECORD_HEAD_SIZE (frame_bytes crc f @ r))"
proof
  assume "is_truncation_marker (take RECORD_HEAD_SIZE (frame_bytes crc f @ r))"
  then have "frame_raw f = 0 \<and> crc (u32_le (frame_raw f) @ frame_payload f) = 0"
    unfolding is_truncation_marker_def frame_bytes_head list_all_append u32_le_zero .
  then have raw: "frame_raw f = 0" and c: "crc (u32_le (frame_raw f) @ frame_payload f) = 0"
    by (rule conjunct1, rule conjunct2)
  then show False
    using assms frame_raw_zero [of f] by (auto simp: frame_ok_def u32_le_def)
qed

lemma frame_at_frame_bytes:
  assumes "frame_ok crc f"
  shows "frame_at crc (frame_bytes crc f @ r) = Some f"
proof -
  note raw = frame_raw_props [of f]
  have len: "length (frame_payload f) \<le> MAX_RECORD_LEN" using assms by (simp add: frame_ok_def)
  have t4: "take 4 (frame_bytes crc f @ r) = u32_le (frame_raw f)"
    by (simp add: frame_bytes_def)
  have s48: "bslice 4 8 (frame_bytes crc f @ r) = u32_le (crc (u32_le (frame_raw f) @ frame_payload f))"
    by (simp add: frame_bytes_def bslice_def)
  have pl: "bslice RECORD_HEAD_SIZE (RECORD_HEAD_SIZE + length (frame_payload f)) (frame_bytes crc f @ r)
            = frame_payload f"
    by (simp add: frame_bytes_def bslice_def RECORD_HEAD_SIZE_8)
  have l: "\<not> length (frame_bytes crc f @ r) < RECORD_HEAD_SIZE + length (frame_payload f)"
    by (simp add: frame_len_def)
  show ?thesis
    using l frame_head_not_marker [OF assms, of r] raw [OF len] pl s48
    unfolding frame_at_def Let_def t4 by (cases f) simp
qed

lemma frame_at_iff:
  "frame_at crc bs = Some f \<longleftrightarrow>
     (let raw = u32_of_le (take 4 bs); n = unat (raw AND LENGTH_MASK)
      in \<not> is_truncation_marker (take 8 bs) \<and> \<not> has_unknown_flags raw \<and> 8 + n \<le> length bs \<and>
         crc (take 4 bs @ bslice 8 (8 + n) bs) = u32_of_le (bslice 4 8 bs) \<and>
         f = Frame (raw AND CONTROL_FLAG \<noteq> 0) (bslice 8 (8 + n) bs))"
  unfolding frame_at_def Let_def RECORD_HEAD_SIZE_8 by auto

lemma frame_at_SomeD:
  assumes "frame_at crc bs = Some f"
  shows "bs = frame_bytes crc f @ drop (frame_len f) bs" and "frame_ok crc f"
    and "frame_len f \<le> length bs"
proof -
  define raw where "raw = u32_of_le (take 4 bs)"
  define n where "n = unat (raw AND LENGTH_MASK)"
  have nm: "\<not> is_truncation_marker (take 8 bs)"
    and nu: "\<not> has_unknown_flags raw" and fit: "8 + n \<le> length bs"
    and crc: "crc (take 4 bs @ bslice 8 (8 + n) bs) = u32_of_le (bslice 4 8 bs)"
    and f: "f = Frame (raw AND CONTROL_FLAG \<noteq> 0) (bslice 8 (8 + n) bs)"
    using assms unfolding frame_at_iff Let_def raw_def n_def by blast+
  have l8: "8 \<le> length bs" using fit by simp
  have plen: "length (frame_payload f) = n" using fit by (simp add: f)
  have "of_nat n = (raw AND LENGTH_MASK)" by (simp add: n_def)
  then have raw: "frame_raw f = raw"
    using raw_split [OF nu] unfolding frame_raw_def plen by (simp add: f split: if_splits)
  have b4: "u32_le raw = take 4 bs" using l8 by (simp add: raw_def u32_le_u32_of_le)
  have b8: "u32_le (u32_of_le (bslice 4 8 bs)) = bslice 4 8 bs" using l8 by (simp add: u32_le_u32_of_le)
  have fb: "frame_bytes crc f = take 4 bs @ bslice 4 8 bs @ bslice 8 (8 + n) bs"
    unfolding frame_bytes_def raw b4 using crc b8 by (simp add: f)
  have fl: "frame_len f = 8 + n" by (simp add: frame_len_def plen RECORD_HEAD_SIZE_8)
  show "frame_len f \<le> length bs" using fl fit by simp
  have "bslice 0 4 bs @ bslice 4 8 bs @ bslice 8 (8 + n) bs @ drop (8 + n) bs = bs"
    by (simp add: drop_split_slice)
  then show "bs = frame_bytes crc f @ drop (frame_len f) bs"
    by (simp add: fb fl bslice_def)
  have "n < 2 ^ 30"
    unfolding n_def LENGTH_MASK_take unfolding unsigned_take_bit_eq by (rule take_bit_nat_less_exp)
  then have small: "n \<le> MAX_RECORD_LEN" by (simp add: MAX_RECORD_LEN_val)
  have "crc (le_bytes 4 0) \<noteq> 0" if "\<not> is_ctl f" "frame_payload f = []"
  proof
    assume z: "crc (le_bytes 4 0) = 0"
    have "frame_raw f = 0" using that by (simp add: frame_raw_def)
    then have "take 4 bs = le_bytes 4 0" using raw b4 by (simp add: u32_le_def)
    moreover have "bslice 4 8 bs = le_bytes 4 0"
      using crc z that b8 calculation by (simp add: f u32_le_def)
    ultimately have "take 8 bs = le_bytes 4 0 @ le_bytes 4 0"
      using slice_join [of 0 4 8 bs] by (simp add: bslice_def)
    then show False using nm by (simp add: is_truncation_marker_def le_bytes_0 list_all_iff)
  qed
  then show "frame_ok crc f" using small plen by (auto simp: frame_ok_def)
qed

subsection \<open>The parser in terms of frames\<close>

text \<open>The parser's view of the bytes at an offset, in terms of the rest of the string.\<close>
lemma parse_record_parts_drop:
  assumes "off + 8 \<le> length bs"
  shows "parse_record_parts crc H bs off =
     (let b = drop off bs; raw = u32_of_le (take 4 b); n = unat (raw AND LENGTH_MASK);
          p = bslice 8 (8 + n) b
      in if is_truncation_marker (take 8 b) then Inl (TruncationMarker off)
         else if has_unknown_flags raw then Inl (Corrupt off)
         else if 8 + n > length b then Inl (OutOfBounds off (8 + n) (length bs))
         else if raw AND CONTROL_FLAG \<noteq> 0
         then (if crc (take 4 b @ p) \<noteq> u32_of_le (bslice 4 8 b) then Inl (Crc32cMismatch off)
               else Inl (ControlRecord off (8 + n)))
         else if length p < H then Inl ReadPanic
         else if u32_of_le (bslice 4 8 b) \<noteq> crc (take 4 b @ p) then Inl (Crc32cMismatch off)
         else Inr (take H p, drop H p, 8 + n))"
proof -
  have h: "bslice off (off + 8) bs = take 8 (drop off bs)" by (simp add: bslice_def)
  have l: "take 4 (take 8 (drop off bs)) = take 4 (drop off bs)" by simp
  have c: "bslice 4 (4 + 4) (take 8 (drop off bs)) = bslice 4 8 (drop off bs)" by (simp add: slice_take)
  have p: "bslice (off + 8) (off + 8 + n) bs = bslice 8 (8 + n) (drop off bs)" for n
    by (simp add: bslice_def add.commute)
  have g: "off + 8 + n > length bs \<longleftrightarrow> 8 + n > length (drop off bs)" for n
    using assms by auto
  have n0: "\<not> off + 8 > length bs" using assms by simp
  show ?thesis
    unfolding parse_record_parts_def RECORD_HEAD_SIZE_8 LEN_SIZE_def CRC32C_SIZE_def h l c p g
      calculate_crc32c_def Let_def if_not_P [OF n0] append_take_drop_id append_Nil
    by (rule refl)
qed

lemma parse_record_parts_frame:
  assumes "frame_at crc (drop off bs) = Some f"
  shows "parse_record_parts crc H bs off =
         (if is_ctl f then Inl (ControlRecord off (frame_len f))
          else if length (frame_payload f) < H then Inl ReadPanic
          else Inr (take H (frame_payload f), drop H (frame_payload f), frame_len f))"
proof -
  define b where "b = drop off bs"
  define raw where "raw = u32_of_le (take 4 b)"
  define n where "n = unat (raw AND LENGTH_MASK)"
  have l: "off + 8 \<le> length bs"
    using frame_at_SomeD(3) [OF assms] by (simp add: frame_len_def RECORD_HEAD_SIZE_8)
  have facts: "\<not> is_truncation_marker (take 8 b)" "\<not> has_unknown_flags raw" "8 + n \<le> length b"
    "crc (take 4 b @ bslice 8 (8 + n) b) = u32_of_le (bslice 4 8 b)"
    and f: "f = Frame (raw AND CONTROL_FLAG \<noteq> 0) (bslice 8 (8 + n) b)"
    using assms unfolding frame_at_iff Let_def raw_def n_def b_def by blast+
  have fl: "frame_len f = 8 + n" using facts(3) by (simp add: f frame_len_def RECORD_HEAD_SIZE_8)
  have pl: "frame_payload f = bslice 8 (8 + n) b" and ctl: "is_ctl f = (raw AND CONTROL_FLAG \<noteq> 0)"
    by (simp_all add: f)
  show ?thesis
    unfolding parse_record_parts_drop [OF l] Let_def b_def [symmetric] raw_def [symmetric]
      n_def [symmetric] fl pl ctl
    using facts by (simp del: length_slice)
qed

lemma parse_record_parts_Inr:
  assumes "parse_record_parts crc H bs off = Inr (h, d, n)"
  shows "frame_at crc (drop off bs) = Some (Frame False (h @ d)) \<and> length h = H \<and>
         n = RECORD_HEAD_SIZE + length h + length d \<and> off + n \<le> length bs"
proof -
  have l: "off + 8 \<le> length bs"
    using assms by (auto simp: parse_record_parts_def RECORD_HEAD_SIZE_8 split: if_splits)
  show ?thesis
    using assms unfolding parse_record_parts_drop [OF l] frame_at_iff Let_def
    by (auto simp: RECORD_HEAD_SIZE_8 split: if_splits)
qed

end
