(* ===== verification/LogHeader.thy ===== *)
theory LogHeader
  imports Types Framing
begin

text \<open>
  The 64-byte segment header of the log (\<open>crates/tephra/src/log/header.rs\<close>): magic, version, creation
  time, base position, zero padding and a checksum of everything before it. The clock is an argument of
  \<open>SegmentHeader_new\<close>. The header is an instance of the \<open>codec\<close> contract for every checksum function.
\<close>

subsection \<open>Definitions\<close>

definition SEGMENT_HEADER_SIZE :: nat where "SEGMENT_HEADER_SIZE = 64"
definition OFF_MAGIC :: nat where "OFF_MAGIC = 0"
definition OFF_VERSION :: nat where "OFF_VERSION = OFF_MAGIC + 4"
definition OFF_CREATED_AT :: nat where "OFF_CREATED_AT = OFF_VERSION + 2"
definition OFF_BASE_POSITION :: nat where "OFF_BASE_POSITION = OFF_CREATED_AT + 8"
definition OFF_PADDING :: nat where "OFF_PADDING = OFF_BASE_POSITION + 8"
definition OFF_CRC :: nat where "OFF_CRC = SEGMENT_HEADER_SIZE - 4"

lemmas header_offsets =
  SEGMENT_HEADER_SIZE_def OFF_MAGIC_def OFF_VERSION_def OFF_CREATED_AT_def OFF_BASE_POSITION_def
  OFF_PADDING_def OFF_CRC_def

record SegmentHeader =
  version :: nat
  created_at_nanos :: nat
  base_position :: Position

datatype HeaderError =
    Unwritten
  | BadMagic "32 word" "32 word"
  | UnsupportedVersion nat nat
  | ChecksumMismatch "32 word" "32 word"
  | DirtyPadding

text \<open>\<open>u32::from_le_bytes(*b"EVTS")\<close>.\<close>
definition MAGIC_BYTES :: "32 word" where "MAGIC_BYTES = u32_of_le [0x45, 0x56, 0x54, 0x53]"

definition HEADER_VERSION :: nat where "HEADER_VERSION = 0"

definition SegmentHeader_new :: "nat \<Rightarrow> Position \<Rightarrow> SegmentHeader" where
  "SegmentHeader_new now_nanos base =
     \<lparr>version = HEADER_VERSION, created_at_nanos = now_nanos, base_position = base\<rparr>"

definition SegmentHeader_to_bytes :: "crc_fun \<Rightarrow> SegmentHeader \<Rightarrow> bytes" where
  "SegmentHeader_to_bytes crc h =
     (let b = replicate SEGMENT_HEADER_SIZE 0;
          b = overwrite OFF_MAGIC (u32_le MAGIC_BYTES) b;
          b = overwrite OFF_VERSION (le_bytes 2 (version h)) b;
          b = overwrite OFF_CREATED_AT (le_bytes 8 (created_at_nanos h)) b;
          b = overwrite OFF_BASE_POSITION (le_bytes 8 (base_position h)) b
      in overwrite OFF_CRC (u32_le (crc (take OFF_CRC b))) b)"

definition SegmentHeader_from_bytes :: "crc_fun \<Rightarrow> bytes \<Rightarrow> HeaderError + SegmentHeader" where
  "SegmentHeader_from_bytes crc b =
     (if list_all (\<lambda>x. x = 0) b then Inl Unwritten
      else
        let expected = u32_of_le (drop OFF_CRC b);
            computed = crc (take OFF_CRC b)
        in if expected \<noteq> computed then Inl (ChecksumMismatch expected computed)
           else
             let magic = u32_of_le (bslice OFF_MAGIC (OFF_MAGIC + 4) b)
             in if magic \<noteq> MAGIC_BYTES then Inl (BadMagic MAGIC_BYTES magic)
                else
                  let ver = of_le (bslice OFF_VERSION (OFF_VERSION + 2) b)
                  in if ver > HEADER_VERSION then Inl (UnsupportedVersion ver HEADER_VERSION)
                     else if list_ex (\<lambda>x. x \<noteq> 0) (bslice OFF_PADDING OFF_CRC b) then Inl DirtyPadding
                     else Inr \<lparr>version = ver,
                               created_at_nanos = of_le (bslice OFF_CREATED_AT (OFF_CREATED_AT + 8) b),
                               base_position = of_le (bslice OFF_BASE_POSITION (OFF_BASE_POSITION + 8) b)\<rparr>)"

definition wf_SegmentHeader :: "SegmentHeader \<Rightarrow> bool" where
  "wf_SegmentHeader h \<longleftrightarrow>
     version h = HEADER_VERSION \<and> created_at_nanos h \<le> U64_MAX \<and> base_position h \<le> U64_MAX"

subsection \<open>Facts\<close>

lemma header_shape:
  "SegmentHeader_to_bytes crc h =
     (let b = u32_le MAGIC_BYTES @ le_bytes 2 (version h) @ le_bytes 8 (created_at_nanos h)
                @ le_bytes 8 (base_position h) @ replicate 38 0
      in b @ u32_le (crc b))"
  by (simp add: SegmentHeader_to_bytes_def header_offsets overwrite_def Let_def)

lemma length_header [simp]: "length (SegmentHeader_to_bytes crc h) = 64"
  by (simp add: header_shape Let_def)

lemma magic_nonzero: "u32_le MAGIC_BYTES = [0x45, 0x56, 0x54, 0x53]"
  by (simp add: MAGIC_BYTES_def u32_le_u32_of_le)

lemma header_dec_enc:
  assumes "wf_SegmentHeader h"
  shows "SegmentHeader_from_bytes crc (SegmentHeader_to_bytes crc h) = Inr h"
proof -
  have "of_le (le_bytes 8 (created_at_nanos h)) = created_at_nanos h"
    "of_le (le_bytes 8 (base_position h)) = base_position h"
    using assms by (simp_all add: wf_SegmentHeader_def)
  moreover have "\<not> list_all (\<lambda>x. x = 0) (SegmentHeader_to_bytes crc h)"
    by (simp add: header_shape Let_def magic_nonzero)
  ultimately show ?thesis
    using assms
    by (simp add: SegmentHeader_from_bytes_def header_shape Let_def header_offsets bslice_def
        wf_SegmentHeader_def HEADER_VERSION_def list_ex_iff)
qed

lemma header_enc_dec:
  assumes "length b = 64" and "SegmentHeader_from_bytes crc b = Inr h"
  shows "wf_SegmentHeader h \<and> SegmentHeader_to_bytes crc h = b"
proof -
  have crc: "u32_of_le (drop 60 b) = crc (take 60 b)" and mg: "u32_of_le (bslice 0 4 b) = MAGIC_BYTES"
    and ver: "of_le (bslice 4 6 b) = 0" and pad: "\<forall>x \<in> set (bslice 22 60 b). x = 0"
    and h: "h = \<lparr>version = 0, created_at_nanos = of_le (bslice 6 14 b), base_position = of_le (bslice 14 22 b)\<rparr>"
    using assms(2)
    by (auto simp: SegmentHeader_from_bytes_def Let_def header_offsets HEADER_VERSION_def list_ex_iff
        split: if_splits)
  have m: "u32_le MAGIC_BYTES = bslice 0 4 b" using mg assms(1) by (simp add: u32_le_u32_of_le flip: mg)
  have v: "le_bytes 2 0 = bslice 4 6 b" using le_bytes_of_le [of "bslice 4 6 b" 2] ver assms(1) by simp
  have ct: "le_bytes 8 (of_le (bslice 6 14 b)) = bslice 6 14 b"
    and bp: "le_bytes 8 (of_le (bslice 14 22 b)) = bslice 14 22 b"
    using assms(1) by (simp_all add: le_bytes_of_le)
  have pd: "replicate 38 0 = bslice 22 60 b"
    using pad assms(1) by (intro replicate_eqI [symmetric]) auto
  have "bslice 0 4 b @ bslice 4 6 b @ bslice 6 14 b @ bslice 14 22 b @ bslice 22 60 b = bslice 0 60 b"
    by (simp add: slice_join)
  then have body: "u32_le MAGIC_BYTES @ le_bytes 2 0 @ le_bytes 8 (of_le (bslice 6 14 b))
      @ le_bytes 8 (of_le (bslice 14 22 b)) @ replicate 38 0 = take 60 b"
    unfolding m v ct bp pd by (simp add: bslice_def)
  have "u32_le (u32_of_le (drop 60 b)) = drop 60 b" using assms(1) by (intro u32_le_u32_of_le) simp
  then have "u32_le (crc (take 60 b)) = drop 60 b" unfolding crc .
  then have "SegmentHeader_to_bytes crc h = b"
    unfolding header_shape Let_def h using body by simp
  moreover have "wf_SegmentHeader h"
    using of_le_slice_bound [of 14 6 8 b] of_le_slice_bound [of 22 14 8 b]
    by (simp add: wf_SegmentHeader_def h HEADER_VERSION_def)
  ultimately show ?thesis by simp
qed

interpretation segment_header: codec "SegmentHeader_to_bytes crc" "SegmentHeader_from_bytes crc"
  wf_SegmentHeader "\<lambda>b. length b = 64" for crc
  by unfold_locales (simp_all add: header_dec_enc header_enc_dec)

subsection \<open>Properties\<close>

text \<open>
  The segment header is a faithful record of its fields: for every checksum function, a 64-byte block
  decodes to a header exactly when it is that header's encoding, so header bytes and (version, creation
  time, base position) determine each other, and any other block is rejected with an error.
\<close>
theorem segment_header_codec:
  assumes "length b = 64"
  shows "SegmentHeader_from_bytes crc b = Inr h \<longleftrightarrow>
         wf_SegmentHeader h \<and> SegmentHeader_to_bytes crc h = b"
  by (rule segment_header.dec_iff [OF assms])

theorem segment_header_codec_witness:
  "SegmentHeader_from_bytes crc_demo (SegmentHeader_to_bytes crc_demo (SegmentHeader_new 5 1))
   = Inr (SegmentHeader_new 5 1)"
  using segment_header_codec [of "SegmentHeader_to_bytes crc_demo (SegmentHeader_new 5 1)" crc_demo
      "SegmentHeader_new 5 1"]
  by (simp add: wf_SegmentHeader_def SegmentHeader_new_def)

end
