(* ===== verification/SegWriter.thy ===== *)
theory SegWriter
  imports Framing
begin

text \<open>
  The segment writer and crash recovery (\<open>crates/seglog/src/write.rs\<close>).

  A \<open>Writer\<close> record has the fields of the source. Its \<open>BufWriter<File>\<close> is the pair \<open>content\<close> (the file
  as the process sees it, buffered bytes included) and \<open>cursor\<close> (where the next byte goes); the two
  are distinct from \<open>write_offset\<close>, which is the writer's own account of the cursor. Every write,
  flush, sync and seek consults a schedule \<open>faults\<close> of I/O outcomes: \<open>Some k\<close> is an I/O error after \<open>k\<close>
  bytes went out, \<open>None\<close> (or an exhausted schedule) is success. What survives a crash is described
  by \<open>crash_image\<close>: any file that agrees with the content below the flushed offset.

  The 16 KB buffer itself is not modelled: a write that only fills the buffer does no I/O in the source and
  reports its error at a later write, flush or seek, while here every write may fail where it stands. Both
  give the same bytes when nothing fails. The theorems quantify over all schedules, so they cover more
  faults than can occur; none rests on one particular failing write. In the source an I/O error of
  a read of the recovery ends its scan like the end of the file does: the \<open>file\<close> of \<open>recover\<close> is what can be
  read of it (\<open>recover_unreadable\<close>), and \<open>Writer_open\<close> is modelled for a file that can be read whole.

  The lemmas show that each operation preserves the writer's invariant, what recovery computes on a
  sequence of frames, and that recovery and the commit protocol give atomic durable batches.
\<close>

subsection \<open>State and errors\<close>

datatype WriteError =
    SegmentFull nat nat
  | InvalidStartOffset nat nat
  | WRecordTooLarge nat nat
  | WRead ReadError
  | WIo

record Writer =
  content :: bytes
  cursor :: nat
  size :: nat
  start_offset :: nat
  write_offset :: nat
  flushed_offset :: nat
  dirty :: bool
  max_record :: nat
  last_position :: "nat option"
  faults :: "nat option list"

definition record_hard_limit :: "nat \<Rightarrow> nat \<Rightarrow> nat" where
  "record_hard_limit sz start = sz - start - (RECORD_HEAD_SIZE + COMMIT_MARKER_PAYLOAD)"

definition default_max_record :: "nat \<Rightarrow> nat \<Rightarrow> nat" where
  "default_max_record sz start = min (min (sz div 4) (record_hard_limit sz start)) MAX_RECORD_LEN"

subsection \<open>Buffered file operations\<close>

definition next_fault :: "Writer \<Rightarrow> nat option" where
  "next_fault w = (case faults w of [] \<Rightarrow> None | f # _ \<Rightarrow> f)"

definition pop_fault :: "Writer \<Rightarrow> Writer" where
  "pop_fault w = w\<lparr>faults := tl (faults w)\<rparr>"

text \<open>\<open>self.writer.write_all(bytes)\<close>.\<close>
definition write_all :: "bytes \<Rightarrow> Writer \<Rightarrow> (WriteError + unit) \<times> Writer" where
  "write_all bs w =
     (case next_fault w of
        None \<Rightarrow> (Inr (), (pop_fault w)\<lparr>content := overwrite (cursor w) bs (content w),
                                       cursor := cursor w + length bs\<rparr>)
      | Some k \<Rightarrow> (Inl WIo, (pop_fault w)\<lparr>content := overwrite (cursor w) (take k bs) (content w),
                                           cursor := cursor w + length (take k bs)\<rparr>))"

text \<open>\<open>flush\<close> and \<open>sync_data\<close>: no change to what the process sees.\<close>
definition file_op :: "Writer \<Rightarrow> (WriteError + unit) \<times> Writer" where
  "file_op w = (case next_fault w of None \<Rightarrow> (Inr (), pop_fault w) | Some _ \<Rightarrow> (Inl WIo, pop_fault w))"

text \<open>\<open>self.writer.seek(SeekFrom::Start(offset))\<close>.\<close>
definition seek_to :: "nat \<Rightarrow> Writer \<Rightarrow> (WriteError + unit) \<times> Writer" where
  "seek_to off w =
     (case next_fault w of
        None \<Rightarrow> (Inr (), (pop_fault w)\<lparr>cursor := off\<rparr>)
      | Some _ \<Rightarrow> (Inl WIo, pop_fault w))"

text \<open>\<open>self.writer.get_ref().write_all_at(bytes, offset)\<close>: a positioned write past the buffer.\<close>
definition write_all_at :: "bytes \<Rightarrow> nat \<Rightarrow> Writer \<Rightarrow> (WriteError + unit) \<times> Writer" where
  "write_all_at bs off w =
     (case next_fault w of
        None \<Rightarrow> (Inr (), (pop_fault w)\<lparr>content := overwrite off bs (content w)\<rparr>)
      | Some k \<Rightarrow> (Inl WIo, (pop_fault w)\<lparr>content := overwrite off (take k bs) (content w)\<rparr>))"

text \<open>The \<open>?\<close> operator on a state-passing step.\<close>
definition and_then ::
  "('e + 'a) \<times> 's \<Rightarrow> ('a \<Rightarrow> 's \<Rightarrow> ('e + 'b) \<times> 's) \<Rightarrow> ('e + 'b) \<times> 's" where
  "and_then r k = (case r of (Inl e, s) \<Rightarrow> (Inl e, s) | (Inr x, s) \<Rightarrow> k x s)"

subsection \<open>Opening, appending, committing\<close>

text \<open>
  \<open>Writer::create\<close> on a fresh file: the outcomes of \<open>open(create_new)\<close>, \<open>fallocate\<close>, the file's and the
  directory's \<open>sync_all\<close> and the final \<open>seek\<close> are the first five entries of the schedule.
\<close>
definition Writer_create :: "nat \<Rightarrow> nat \<Rightarrow> nat option list \<Rightarrow> WriteError + Writer" where
  "Writer_create sz start fs =
     (if sz \<le> start then Inl (InvalidStartOffset sz start)
      else if list_ex (\<lambda>f. f \<noteq> None) (take 5 fs) then Inl WIo
      else Inr \<lparr>content = replicate sz 0, cursor = start, size = sz, start_offset = start,
               write_offset = start, flushed_offset = start, dirty = False,
               max_record = default_max_record sz start, last_position = None, faults = drop 5 fs\<rparr>)"

record Recovered =
  committed_offset :: nat
  rec_last_position :: "nat option"

text \<open>\<open>file.read_exact_at\<close>: fails past the end of the file.\<close>
definition read_exact_at :: "bytes \<Rightarrow> nat \<Rightarrow> nat \<Rightarrow> bytes option" where
  "read_exact_at file n off = (if off + n \<le> length file then Some (bslice off (off + n) file) else None)"

text \<open>One iteration of the loop of \<open>recover\<close>: \<open>None\<close> is \<open>break\<close>, else the next cursor and state.\<close>
definition recover_step ::
  "crc_fun \<Rightarrow> bytes \<Rightarrow> nat \<Rightarrow> nat \<Rightarrow> Recovered \<Rightarrow> (nat \<times> Recovered) option" where
  "recover_step crc file sz cur st =
     (let payload_offset = cur + RECORD_HEAD_SIZE
      in if payload_offset > sz then None
         else case read_exact_at file RECORD_HEAD_SIZE cur of
           None \<Rightarrow> None
         | Some head \<Rightarrow>
             if is_truncation_marker head then None
             else
               let raw = u32_of_le (take LEN_SIZE head)
               in if has_unknown_flags raw then None
                  else
                    let is_control = raw AND CONTROL_FLAG \<noteq> 0;
                        payload_len = unat (raw AND LENGTH_MASK);
                        record_end = payload_offset + payload_len
                    in if record_end > sz then None
                       else
                         let crc_field = u32_of_le (bslice LEN_SIZE RECORD_HEAD_SIZE head)
                         in case read_exact_at file payload_len payload_offset of
                              None \<Rightarrow> None
                            | Some payload \<Rightarrow>
                                if calculate_crc32c crc (u32_le raw) [] payload \<noteq> crc_field then None
                                else if is_control \<and> payload_len = COMMIT_MARKER_PAYLOAD
                                        \<and> payload ! 0 = BATCH_COMMIT
                                then Some (record_end, \<lparr>committed_offset = record_end,
                                             rec_last_position = Some (of_le (drop 1 payload))\<rparr>)
                                else Some (record_end, st))"

lemma recover_step_progress:
  "recover_step crc file sz cur st = Some (cur', st') \<Longrightarrow> cur < cur' \<and> cur' \<le> sz"
  by (auto simp: recover_step_def Let_def split: if_splits option.splits)

function recover_from :: "crc_fun \<Rightarrow> bytes \<Rightarrow> nat \<Rightarrow> nat \<Rightarrow> Recovered \<Rightarrow> Recovered" where
  "recover_from crc file sz cur st =
     (case recover_step crc file sz cur st of
        None \<Rightarrow> st
      | Some (cur', st') \<Rightarrow> recover_from crc file sz cur' st')"
  by pat_completeness auto
termination
  by (relation "measure (\<lambda>(crc, file, sz, cur, st). sz - cur)")
    (use recover_step_progress in fastforce)+

declare recover_from.simps [simp del]

definition recover :: "crc_fun \<Rightarrow> bytes \<Rightarrow> nat \<Rightarrow> nat \<Rightarrow> Recovered" where
  "recover crc file sz start =
     recover_from crc file sz start \<lparr>committed_offset = start, rec_last_position = None\<rparr>"

text \<open>\<open>Writer::open\<close>: the schedule's first two entries are \<open>open\<close> and the final \<open>seek\<close>.\<close>
definition Writer_open :: "crc_fun \<Rightarrow> bytes \<Rightarrow> nat \<Rightarrow> nat \<Rightarrow> nat option list \<Rightarrow> WriteError + Writer" where
  "Writer_open crc file sz start fs =
     (if sz \<le> start then Inl (InvalidStartOffset sz start)
      else if list_ex (\<lambda>f. f \<noteq> None) (take 2 fs) then Inl WIo
      else
        let recovered = recover crc file sz start;
            woff = committed_offset recovered
        in Inr \<lparr>content = file, cursor = woff, size = sz, start_offset = start, write_offset = woff,
                flushed_offset = woff, dirty = False, max_record = default_max_record sz start,
                last_position = rec_last_position recovered, faults = drop 2 fs\<rparr>)"

definition append :: "crc_fun \<Rightarrow> bytes \<Rightarrow> bytes \<Rightarrow> Writer \<Rightarrow> (WriteError + (nat \<times> nat)) \<times> Writer" where
  "append crc header data w =
     (let offset = write_offset w;
          total_record_len = RECORD_HEAD_SIZE + length header + length data
      in if total_record_len > max_record w
         then (Inl (WRecordTooLarge total_record_len (max_record w)), w)
         else if offset + total_record_len > size w
         then (Inl (SegmentFull offset (size w - offset)), w)
         else
           let w = w\<lparr>dirty := True\<rparr>;
               length_bytes = le_bytes 4 (length header + length data);
               c = calculate_crc32c crc length_bytes header data
           in and_then (write_all length_bytes w) (\<lambda>_ w.
              and_then (write_all (u32_le c) w) (\<lambda>_ w.
              and_then (write_all header w) (\<lambda>_ w.
              and_then (write_all data w) (\<lambda>_ w.
                (Inr (offset, total_record_len),
                 w\<lparr>write_offset := write_offset w + total_record_len\<rparr>))))))"

definition write_commit_marker :: "crc_fun \<Rightarrow> nat \<Rightarrow> Writer \<Rightarrow> (WriteError + unit) \<times> Writer" where
  "write_commit_marker crc highest_position w =
     (let offset = write_offset w;
          tot = RECORD_HEAD_SIZE + COMMIT_MARKER_PAYLOAD
      in if offset + tot > size w then (Inl (SegmentFull offset (size w - offset)), w)
         else
           let length_with_flag = of_nat COMMIT_MARKER_PAYLOAD OR CONTROL_FLAG;
               length_bytes = u32_le length_with_flag;
               payload = BATCH_COMMIT # le_bytes 8 highest_position;
               c = calculate_crc32c crc length_bytes [] payload;
               w = w\<lparr>dirty := True\<rparr>
           in and_then (write_all length_bytes w) (\<lambda>_ w.
              and_then (write_all (u32_le c) w) (\<lambda>_ w.
              and_then (write_all payload w) (\<lambda>_ w.
                (Inr (), w\<lparr>write_offset := write_offset w + tot\<rparr>)))))"

definition sync :: "Writer \<Rightarrow> (WriteError + nat) \<times> Writer" where
  "sync w =
     (if dirty w
      then and_then (file_op w) (\<lambda>_ w.
           and_then (file_op w) (\<lambda>_ w.
             (Inr (write_offset w), w\<lparr>flushed_offset := write_offset w, dirty := False\<rparr>)))
      else (Inr (write_offset w), w))"

definition commit :: "crc_fun \<Rightarrow> nat \<Rightarrow> Writer \<Rightarrow> (WriteError + nat) \<times> Writer" where
  "commit crc highest_position w =
     and_then (write_commit_marker crc highest_position w) (\<lambda>_ w.
       sync (w\<lparr>last_position := Some highest_position\<rparr>))"

text \<open>The loop of \<open>append_batch\<close> over \<open>(header, data)\<close> pairs.\<close>
fun append_all :: "crc_fun \<Rightarrow> (bytes \<times> bytes) list \<Rightarrow> Writer \<Rightarrow> (WriteError + unit) \<times> Writer" where
  "append_all crc [] w = (Inr (), w)"
| "append_all crc ((h, d) # rs) w = and_then (append crc h d w) (\<lambda>_ w. append_all crc rs w)"

definition append_batch ::
  "crc_fun \<Rightarrow> (bytes \<times> bytes) list \<Rightarrow> nat \<Rightarrow> Writer \<Rightarrow> (WriteError + nat) \<times> Writer" where
  "append_batch crc records highest_position w =
     and_then (append_all crc records w) (\<lambda>_ w. commit crc highest_position w)"

definition set_max_record :: "nat \<Rightarrow> Writer \<Rightarrow> Writer" where
  "set_max_record m w = w\<lparr>max_record := min m (record_hard_limit (size w) (start_offset w))\<rparr>"

definition remaining_bytes :: "Writer \<Rightarrow> nat" where
  "remaining_bytes w = size w - write_offset w"

definition set_len :: "nat \<Rightarrow> Writer \<Rightarrow> (WriteError + unit) \<times> Writer" where
  "set_len offset w =
     (if offset \<ge> write_offset w then (Inr (), w)
      else and_then (sync w) (\<lambda>_ w.
             let w = w\<lparr>flushed_offset := offset, write_offset := offset\<rparr>
             in and_then (write_all_at (replicate RECORD_HEAD_SIZE 0) offset w) (\<lambda>_ w. file_op w)))"

definition rewind_to :: "nat \<Rightarrow> Writer \<Rightarrow> (WriteError + unit) \<times> Writer" where
  "rewind_to offset w =
     (if offset \<ge> write_offset w then (Inr (), w)
      else and_then (seek_to offset w) (\<lambda>_ w.
             (Inr (), w\<lparr>write_offset := offset, dirty := offset > flushed_offset w\<rparr>)))"

subsection \<open>Reference view\<close>

text \<open>The writer's invariant between operations.\<close>
definition writer_inv :: "Writer \<Rightarrow> bool" where
  "writer_inv w \<longleftrightarrow>
     length (content w) = size w \<and> start_offset w < size w \<and>
     start_offset w \<le> flushed_offset w \<and> flushed_offset w \<le> write_offset w \<and>
     write_offset w \<le> size w \<and> cursor w = write_offset w \<and>
     (dirty w \<or> flushed_offset w = write_offset w) \<and>
     max_record w \<le> RECORD_HEAD_SIZE + MAX_RECORD_LEN"

text \<open>The records written so far, as frames.\<close>
definition holds_frames :: "crc_fun \<Rightarrow> Writer \<Rightarrow> frame list \<Rightarrow> bool" where
  "holds_frames crc w fs \<longleftrightarrow>
     bslice (start_offset w) (write_offset w) (content w) = concat (map (frame_bytes crc) fs) \<and>
     list_all (frame_ok crc) fs"

definition zero_tail :: "Writer \<Rightarrow> bool" where
  "zero_tail w \<longleftrightarrow> list_all (\<lambda>b. b = 0) (drop (write_offset w) (content w))"

text \<open>A file that can be found after a crash: everything below the flushed offset is intact.\<close>
definition crash_image :: "Writer \<Rightarrow> bytes \<Rightarrow> bool" where
  "crash_image w img \<longleftrightarrow>
     length img = size w \<and> take (flushed_offset w) img = take (flushed_offset w) (content w)"

definition is_commit :: "frame \<Rightarrow> bool" where
  "is_commit f \<longleftrightarrow> is_ctl f \<and> length (frame_payload f) = COMMIT_MARKER_PAYLOAD \<and>
                   frame_payload f ! 0 = BATCH_COMMIT"

definition commit_pos :: "frame \<Rightarrow> nat" where
  "commit_pos f = of_le (drop 1 (frame_payload f))"

definition frames_len :: "frame list \<Rightarrow> nat" where
  "frames_len fs = sum_list (map frame_len fs)"

text \<open>Recovery on a sequence of frames: the last commit marker decides.\<close>
fun rec_frames :: "nat \<Rightarrow> Recovered \<Rightarrow> frame list \<Rightarrow> Recovered" where
  "rec_frames cur st [] = st"
| "rec_frames cur st (f # fs) =
     rec_frames (cur + frame_len f)
       (if is_commit f then \<lparr>committed_offset = cur + frame_len f, rec_last_position = Some (commit_pos f)\<rparr>
        else st) fs"

subsection \<open>Sequenced writes\<close>

fun write_parts :: "bytes list \<Rightarrow> Writer \<Rightarrow> (WriteError + unit) \<times> Writer" where
  "write_parts [] w = (Inr (), w)"
| "write_parts (b # bs) w = and_then (write_all b w) (\<lambda>_ w. write_parts bs w)"

lemma and_then_simps [simp]:
  "and_then (Inl e, s) k = (Inl e, s)" "and_then (Inr x, s) k = k x s"
  by (simp_all add: and_then_def)

lemma and_then_assoc: "and_then (and_then r f) g = and_then r (\<lambda>x s. and_then (f x s) g)"
  by (cases r, cases "fst r") (auto simp: and_then_def)

lemma and_then_Inr:
  "and_then r k = (Inr y, s') \<longleftrightarrow> (\<exists>x s. r = (Inr x, s) \<and> k x s = (Inr y, s'))"
  by (cases r, cases "fst r") (auto simp: and_then_def)

lemma and_then_Inl:
  "and_then r k = (Inl e, s') \<longleftrightarrow>
     r = (Inl e, s') \<or> (\<exists>x s. r = (Inr x, s) \<and> k x s = (Inl e, s'))"
  by (cases r, cases "fst r") (auto simp: and_then_def)

lemma write_parts_one: "and_then (write_all a w) k = and_then (write_parts [a] w) (\<lambda>_. k ())"
  by (cases "write_all a w", cases "fst (write_all a w)") (auto simp: and_then_def)

lemma write_parts_more:
  "and_then (write_all a w) (\<lambda>_ w. and_then (write_parts ps w) k) = and_then (write_parts (a # ps) w) k"
  by (simp add: and_then_assoc)

lemma overwrite_overwrite:
  "c \<le> length xs \<Longrightarrow> overwrite (c + length a) b (overwrite c a xs) = overwrite c (a @ b) xs"
  by (simp add: overwrite_def ac_simps)

lemma overwrite_Nil [simp]: "overwrite c [] xs = xs"
  by (simp add: overwrite_def)

lemma length_overwrite_ge: "c \<le> length xs \<Longrightarrow> c + length a \<le> length (overwrite c a xs)"
  by (simp add: overwrite_def)

lemma write_parts_spec:
  "\<lbrakk>write_parts ps w = (r, w'); cursor w \<le> length (content w)\<rbrakk> \<Longrightarrow>
   \<exists>ws n. prefix ws (concat ps) \<and> (r = Inr () \<longrightarrow> ws = concat ps) \<and> (r = Inr () \<or> r = Inl WIo) \<and>
     w' = w\<lparr>content := overwrite (cursor w) ws (content w), cursor := cursor w + length ws,
           faults := drop n (faults w)\<rparr>"
proof (induction ps arbitrary: w)
  case Nil
  then show ?case by (intro exI [of _ "[]"] exI [of _ 0]) auto
next
  case (Cons b bs)
  show ?case
  proof (cases "next_fault w")
    case (Some k)
    then have "r = Inl WIo" and w': "w' = (pop_fault w)\<lparr>content := overwrite (cursor w) (take k b) (content w),
                                           cursor := cursor w + length (take k b)\<rparr>"
      using Cons.prems by (auto simp: write_all_def)
    moreover have "prefix (take k b) (concat (b # bs))"
      by (metis append_take_drop_id append_assoc concat.simps(2) prefixI)
    ultimately show ?thesis
      by (intro exI [of _ "take k b"] exI [of _ 1]) (auto simp: pop_fault_def drop_Suc)
  next
    case None
    define w1 where "w1 = (pop_fault w)\<lparr>content := overwrite (cursor w) b (content w),
                                        cursor := cursor w + length b\<rparr>"
    have run: "write_parts bs w1 = (r, w')" using Cons.prems None by (simp add: write_all_def w1_def)
    moreover have "cursor w1 \<le> length (content w1)"
      using Cons.prems(2) length_overwrite_ge by (simp add: w1_def)
    ultimately obtain ws n where ws: "prefix ws (concat bs)" "r = Inr () \<longrightarrow> ws = concat bs"
      "r = Inr () \<or> r = Inl WIo"
      "w' = w1\<lparr>content := overwrite (cursor w1) ws (content w1), cursor := cursor w1 + length ws,
               faults := drop n (faults w1)\<rparr>"
      using Cons.IH by blast
    show ?thesis
      using ws Cons.prems(2)
      by (intro exI [of _ "b @ ws"] exI [of _ "Suc n"])
        (auto simp: w1_def pop_fault_def overwrite_overwrite drop_Suc)
  qed
qed

lemma write_parts_ok:
  "list_all (\<lambda>f. f = None) (faults w) \<Longrightarrow>
   \<exists>w'. write_parts ps w = (Inr (), w') \<and> list_all (\<lambda>f. f = None) (faults w')"
proof (induction ps arbitrary: w)
  case (Cons b bs)
  have nf: "next_fault w = None" using Cons.prems by (auto simp: next_fault_def split: list.splits)
  let ?w = "(pop_fault w)\<lparr>content := overwrite (cursor w) b (content w), cursor := cursor w + length b\<rparr>"
  have "list_all (\<lambda>f. f = None) (faults ?w)"
    using Cons.prems by (cases "faults w") (auto simp: pop_fault_def)
  then show ?case using Cons.IH [of ?w] nf by (simp add: write_all_def)
qed simp

subsection \<open>Append and commit\<close>

lemma frame_bytes_commit:
  "frame_bytes crc (commit_frame pos) =
   (let lb = u32_le (of_nat COMMIT_MARKER_PAYLOAD OR CONTROL_FLAG); p = BATCH_COMMIT # le_bytes 8 pos
    in lb @ u32_le (crc (lb @ p)) @ p)"
  by (simp add: frame_bytes_def frame_raw_def commit_frame_def Let_def COMMIT_MARKER_PAYLOAD_def)

lemma frame_ok_commit [simp]: "frame_ok crc (commit_frame pos)"
  by (simp add: frame_ok_def commit_frame_def MAX_RECORD_LEN_val)

lemma is_commit_commit [simp]: "is_commit (commit_frame pos)"
  by (simp add: is_commit_def commit_frame_def COMMIT_MARKER_PAYLOAD_def)

lemma commit_pos_commit [simp]: "pos \<le> U64_MAX \<Longrightarrow> commit_pos (commit_frame pos) = pos"
  by (simp add: commit_pos_def commit_frame_def)

lemma frame_len_commit [simp]: "frame_len (commit_frame pos) = RECORD_HEAD_SIZE + COMMIT_MARKER_PAYLOAD"
  by (simp add: frame_len_def commit_frame_def COMMIT_MARKER_PAYLOAD_def)

text \<open>The effect of writing a frame at the end of the log: all of it, or an error and a prefix of it.\<close>
definition wrote :: "Writer \<Rightarrow> bytes \<Rightarrow> Writer \<Rightarrow> bool" where
  "wrote w bs w' \<longleftrightarrow>
     content w' = overwrite (cursor w) bs (content w) \<and> cursor w' = cursor w + length bs \<and>
     size w' = size w \<and> start_offset w' = start_offset w \<and> flushed_offset w' = flushed_offset w \<and>
     max_record w' = max_record w \<and> dirty w'"

text \<open>Both \<open>append\<close> and \<open>write_commit_marker\<close> end in this sequence of writes.\<close>
lemma write_frame_cases:
  assumes "and_then (write_parts ps (w\<lparr>dirty := True\<rparr>))
             (\<lambda>_ w'. (Inr x, w'\<lparr>write_offset := write_offset w' + length (concat ps)\<rparr>)) = (r, w')"
    and "writer_inv w"
  obtains (io) ws where "r = Inl WIo" "wrote w ws w'" "write_offset w' = write_offset w"
        "last_position w' = last_position w" "length ws \<le> length (concat ps)"
    | (ok) "r = Inr x" "wrote w (concat ps) w'"
        "write_offset w' = write_offset w + length (concat ps)" "last_position w' = last_position w"
proof -
  let ?w = "w\<lparr>dirty := True\<rparr>"
  obtain r1 w1 where w1: "write_parts ps ?w = (r1, w1)" by fastforce
  have cur: "cursor ?w \<le> length (content ?w)" using assms(2) by (simp add: writer_inv_def)
  obtain ws n where ws: "prefix ws (concat ps)" "r1 = Inr () \<longrightarrow> ws = concat ps"
    "r1 = Inr () \<or> r1 = Inl WIo"
    "w1 = ?w\<lparr>content := overwrite (cursor ?w) ws (content ?w), cursor := cursor ?w + length ws,
            faults := drop n (faults ?w)\<rparr>"
    using write_parts_spec [OF w1 cur] by blast
  show thesis
  proof (cases "r1 = Inr ()")
    case True
    then have r: "r = Inr x" and w': "w' = w1\<lparr>write_offset := write_offset w1 + length (concat ps)\<rparr>"
      using assms(1) w1 by auto
    show thesis by (rule ok) (use True ws(2) in \<open>simp_all add: r w' ws(4) wrote_def\<close>)
  next
    case False
    then have "r1 = Inl WIo" using ws(3) by blast
    then have r: "r = Inl WIo" and w': "w' = w1" using assms(1) w1 by auto
    show thesis
      by (rule io [of ws]) (use prefix_length_le [OF ws(1)] in \<open>simp_all add: r w' ws(4) wrote_def\<close>)
  qed
qed

lemma append_cases:
  assumes "append crc h d w = (r, w')" and "writer_inv w"
  obtains (rejected) e where "r = Inl e" "w' = w" "e \<noteq> WIo"
    | (io) ws where "r = Inl WIo" "wrote w ws w'" "write_offset w' = write_offset w"
        "last_position w' = last_position w" "length ws \<le> frame_len (Frame False (h @ d))"
        "write_offset w + frame_len (Frame False (h @ d)) \<le> size w"
    | (ok) "r = Inr (write_offset w, frame_len (Frame False (h @ d)))"
        "wrote w (frame_bytes crc (Frame False (h @ d))) w'"
        "write_offset w' = write_offset w + frame_len (Frame False (h @ d))"
        "last_position w' = last_position w"
        "write_offset w + frame_len (Frame False (h @ d)) \<le> size w"
        "frame_len (Frame False (h @ d)) \<le> max_record w"
proof -
  let ?lb = "le_bytes 4 (length h + length d)"
  let ?ps = "[?lb, u32_le (calculate_crc32c crc ?lb h d), h, d]"
  have fl: "frame_len (Frame False (h @ d)) = RECORD_HEAD_SIZE + length h + length d"
    by (simp add: frame_len_def)
  show thesis
  proof (cases "RECORD_HEAD_SIZE + length h + length d > max_record w \<or>
                write_offset w + (RECORD_HEAD_SIZE + length h + length d) > size w")
    case True
    then show thesis
      using assms rejected by (auto simp: append_def Let_def split: if_splits)
  next
    case False
    have "length (h @ d) \<le> MAX_RECORD_LEN" using False assms(2) by (simp add: writer_inv_def)
    then have fb: "concat ?ps = frame_bytes crc (Frame False (h @ d))"
      using frame_bytes_data [of "h @ d" crc] by (simp add: calculate_crc32c_def)
    have run: "and_then (write_parts ?ps (w\<lparr>dirty := True\<rparr>))
                 (\<lambda>_ w'. (Inr (write_offset w, frame_len (Frame False (h @ d))),
                          w'\<lparr>write_offset := write_offset w' + length (concat ?ps)\<rparr>)) = (r, w')"
      using assms(1) False unfolding fb length_frame_bytes fl
      by (simp add: append_def Let_def and_then_assoc)
    show thesis
      by (rule write_frame_cases [OF run assms(2), unfolded fb length_frame_bytes])
        (rule io ok; (use False fl in simp)?)+
  qed
qed

lemma write_commit_marker_cases:
  assumes "write_commit_marker crc pos w = (r, w')" and "writer_inv w"
  obtains (rejected) e where "r = Inl e" "w' = w" "e \<noteq> WIo"
    | (io) ws where "r = Inl WIo" "wrote w ws w'" "write_offset w' = write_offset w"
        "last_position w' = last_position w" "length ws \<le> frame_len (commit_frame pos)"
        "write_offset w + frame_len (commit_frame pos) \<le> size w"
    | (ok) "r = Inr ()" "wrote w (frame_bytes crc (commit_frame pos)) w'"
        "write_offset w' = write_offset w + frame_len (commit_frame pos)"
        "last_position w' = last_position w"
        "write_offset w + frame_len (commit_frame pos) \<le> size w"
proof -
  let ?lb = "u32_le (of_nat COMMIT_MARKER_PAYLOAD OR CONTROL_FLAG)"
  let ?pl = "BATCH_COMMIT # le_bytes 8 pos"
  let ?ps = "[?lb, u32_le (calculate_crc32c crc ?lb [] ?pl), ?pl]"
  show thesis
  proof (cases "write_offset w + (RECORD_HEAD_SIZE + COMMIT_MARKER_PAYLOAD) > size w")
    case True
    then show thesis
      using assms rejected by (auto simp: write_commit_marker_def Let_def split: if_splits)
  next
    case False
    have fb: "concat ?ps = frame_bytes crc (commit_frame pos)"
      by (simp add: frame_bytes_commit Let_def calculate_crc32c_def)
    have run: "and_then (write_parts ?ps (w\<lparr>dirty := True\<rparr>))
                 (\<lambda>_ w'. (Inr (), w'\<lparr>write_offset := write_offset w' + length (concat ?ps)\<rparr>)) = (r, w')"
      using assms(1) False unfolding fb length_frame_bytes
      by (simp add: write_commit_marker_def Let_def and_then_assoc)
    show thesis
      by (rule write_frame_cases [OF run assms(2), unfolded fb length_frame_bytes])
        (rule io ok; (use False in simp)?)+
  qed
qed

subsection \<open>Effects on the invariant\<close>

lemma bslice_overwrite_append:
  "\<lbrakk>a \<le> off; off \<le> length xs\<rbrakk> \<Longrightarrow> bslice a (off + length bs) (overwrite off bs xs) = bslice a off xs @ bs"
  using slice_join [of a off "off + length bs" "overwrite off bs xs"]
  by (simp add: slice_overwrite_before slice_overwrite_same)

lemma wrote_frame:
  assumes "writer_inv w" and "wrote w (frame_bytes crc f) w'"
    and "write_offset w' = write_offset w + frame_len f" and "write_offset w + frame_len f \<le> size w"
  shows "writer_inv w'"
    and "\<lbrakk>holds_frames crc w fs; frame_ok crc f\<rbrakk> \<Longrightarrow> holds_frames crc w' (fs @ [f])"
    and "zero_tail w \<Longrightarrow> zero_tail w'"
proof -
  show "writer_inv w'" using assms by (auto simp: writer_inv_def wrote_def)
  show "holds_frames crc w' (fs @ [f])" if "holds_frames crc w fs" "frame_ok crc f"
    using assms that bslice_overwrite_append [of "start_offset w" "write_offset w" "content w" "frame_bytes crc f"]
    by (simp add: holds_frames_def wrote_def writer_inv_def)
  show "zero_tail w'" if "zero_tail w"
  proof -
    have "drop (write_offset w') (content w') = drop (frame_len f) (drop (write_offset w) (content w))"
      using assms by (simp add: wrote_def writer_inv_def drop_overwrite add.commute)
    then show ?thesis
      using that set_drop_subset_set_drop [of "write_offset w" "frame_len f + write_offset w" "content w"]
      by (auto simp: zero_tail_def list_all_iff)
  qed
qed

text \<open>What no step of a batch may touch: everything below the batch's first byte.\<close>
definition beyond :: "Writer \<Rightarrow> Writer \<Rightarrow> bool" where
  "beyond w w' \<longleftrightarrow>
     size w' = size w \<and> start_offset w' = start_offset w \<and> max_record w' = max_record w \<and>
     flushed_offset w \<le> flushed_offset w' \<and> length (content w') = length (content w) \<and>
     take (write_offset w) (content w') = take (write_offset w) (content w) \<and>
     write_offset w \<le> write_offset w' \<and> write_offset w' \<le> size w"

lemma beyond_refl: "writer_inv w \<Longrightarrow> beyond w w"
  by (simp add: beyond_def writer_inv_def)

lemma beyond_trans: "\<lbrakk>beyond w w'; beyond w' w''\<rbrakk> \<Longrightarrow> beyond w w''"
  unfolding beyond_def by (metis (no_types, lifting) le_trans min.absorb1 take_take)

lemma wrote_beyond:
  assumes "writer_inv w" and "wrote w bs w'" and "write_offset w + length bs \<le> size w"
    and "write_offset w \<le> write_offset w'" and "write_offset w' \<le> size w"
  shows "beyond w w'"
  using assms by (simp add: beyond_def wrote_def writer_inv_def take_overwrite)

lemma append_effect:
  assumes "append crc h d w = (r, w')" and "writer_inv w"
  shows "beyond w w' \<and> flushed_offset w' = flushed_offset w \<and> (r = Inr x \<longrightarrow> writer_inv w')"
  using assms
proof (cases rule: append_cases)
  case (io ws)
  then show ?thesis
    using wrote_beyond [OF assms(2) io(2)] assms(2) by (simp add: wrote_def writer_inv_def)
next
  case ok
  then show ?thesis
    using wrote_beyond [OF assms(2) ok(2)] wrote_frame(1) [OF assms(2) ok(2,3,5)] by (simp add: wrote_def)
qed (simp_all add: beyond_refl assms(2))

lemma append_frames:
  assumes "append crc h d w = (Inr x, w')" and "writer_inv w"
    and "h @ d \<noteq> [] \<or> crc (le_bytes 4 0) \<noteq> 0"
  shows "(holds_frames crc w fs \<longrightarrow> holds_frames crc w' (fs @ [Frame False (h @ d)])) \<and>
         (zero_tail w \<longrightarrow> zero_tail w')"
  using assms(1,2)
proof (cases rule: append_cases)
  case ok
  have "frame_ok crc (Frame False (h @ d))"
    using ok(6) assms(2,3) by (auto simp: frame_ok_def frame_len_def writer_inv_def)
  then show ?thesis
    using wrote_frame(2,3) [OF assms(2) ok(2,3,5)] by blast
qed simp_all

definition data_frames :: "(bytes \<times> bytes) list \<Rightarrow> frame list" where
  "data_frames rs = map (\<lambda>(h, d). Frame False (h @ d)) rs"

text \<open>A record the framing can carry: not empty, unless the checksum of an empty one is not zero.\<close>
definition rec_ok :: "crc_fun \<Rightarrow> bytes \<times> bytes \<Rightarrow> bool" where
  "rec_ok crc = (\<lambda>(h, d). h @ d \<noteq> [] \<or> crc (le_bytes 4 0) \<noteq> 0)"

lemma append_all_effect:
  "\<lbrakk>append_all crc rs w = (r, w'); writer_inv w\<rbrakk> \<Longrightarrow>
   beyond w w' \<and> flushed_offset w' = flushed_offset w \<and> (\<forall>x. r = Inr x \<longrightarrow> writer_inv w')"
proof (induction rs arbitrary: w)
  case (Cons hd rs)
  obtain h d where hd: "hd = (h, d)" by fastforce
  obtain r1 w1 where ap: "append crc h d w = (r1, w1)" by fastforce
  note eff = append_effect [OF ap Cons.prems(2)]
  show ?case
  proof (cases r1)
    case (Inl e)
    then have "r = Inl e" and "w' = w1" using Cons.prems(1) ap by (auto simp: hd)
    then show ?thesis using eff by simp
  next
    case (Inr x)
    then have "append_all crc rs w1 = (r, w')" using Cons.prems ap by (simp add: hd)
    then show ?thesis using Cons.IH [of w1] eff Inr beyond_trans by metis
  qed
qed (auto simp: beyond_refl)

lemma append_all_frames:
  "\<lbrakk>append_all crc rs w = (Inr u, w'); writer_inv w; list_all (rec_ok crc) rs\<rbrakk> \<Longrightarrow>
   (holds_frames crc w fs \<longrightarrow> holds_frames crc w' (fs @ data_frames rs)) \<and> (zero_tail w \<longrightarrow> zero_tail w')"
proof (induction rs arbitrary: w fs)
  case (Cons hd rs)
  obtain h d where hd: "hd = (h, d)" by fastforce
  obtain x w1 where ap: "append crc h d w = (Inr x, w1)" and run: "append_all crc rs w1 = (Inr u, w')"
    using Cons.prems(1) by (auto simp: hd and_then_Inr)
  have ok: "h @ d \<noteq> [] \<or> crc (le_bytes 4 0) \<noteq> 0" using Cons.prems(3) by (simp add: hd rec_ok_def)
  have "writer_inv w1" using append_effect [OF ap Cons.prems(2)] by blast
  moreover have "list_all (rec_ok crc) rs" using Cons.prems(3) by simp
  ultimately show ?case
    using Cons.IH [OF run, of "fs @ [Frame False (h @ d)]"] append_frames [OF ap Cons.prems(2) ok, of fs]
    by (simp add: data_frames_def hd)
qed (simp add: data_frames_def)

lemma sync_cases:
  assumes "sync w = (r, w')"
  obtains (clean) "\<not> dirty w" "r = Inr (write_offset w)" "w' = w"
    | (ok) fs where "dirty w" "r = Inr (write_offset w)"
        "w' = w\<lparr>flushed_offset := write_offset w, dirty := False, faults := fs\<rparr>"
    | (io) fs where "dirty w" "r = Inl WIo" "w' = w\<lparr>faults := fs\<rparr>"
proof (cases "dirty w")
  case False
  then show thesis by (intro clean) (use assms in \<open>auto simp: sync_def\<close>)
next
  case True
  show thesis
  proof (cases "next_fault w")
    case (Some k)
    then show thesis
      by (intro io [of "tl (faults w)"]) (use assms True in \<open>auto simp: sync_def file_op_def pop_fault_def\<close>)
  next
    case None
    note n1 = None
    show thesis
    proof (cases "next_fault (pop_fault w)")
      case (Some k)
      then show thesis
        by (intro io [of "tl (tl (faults w))"])
          (use assms True n1 in \<open>auto simp: sync_def file_op_def pop_fault_def\<close>)
    next
      case None
      then have "r = Inr (write_offset w)"
        "w' = w\<lparr>flushed_offset := write_offset w, dirty := False, faults := tl (tl (faults w))\<rparr>"
        using assms True n1 by (auto simp: sync_def file_op_def pop_fault_def)
      then show thesis using ok True by blast
    qed
  qed
qed

lemma commit_beyond:
  assumes "commit crc pos w = (r, w')" and "writer_inv w"
  shows "beyond w w' \<and> (r = Inl e \<longrightarrow> flushed_offset w' = flushed_offset w)"
proof -
  obtain r1 w1 where m: "write_commit_marker crc pos w = (r1, w1)" by fastforce
  from m assms(2) show ?thesis
  proof (cases rule: write_commit_marker_cases)
    case (io ws)
    then show ?thesis
      using wrote_beyond [OF assms(2) io(2)] assms m by (simp add: commit_def writer_inv_def wrote_def)
  next
    case ok
    have b: "beyond w w1" using wrote_beyond [OF assms(2) ok(2)] ok by simp
    have "sync (w1\<lparr>last_position := Some pos\<rparr>) = (r, w')" using assms(1) m ok(1) by (simp add: commit_def)
    then show ?thesis
      using b ok(2,3) assms(2) by (elim sync_cases) (auto simp: beyond_def wrote_def writer_inv_def)
  qed (use assms m beyond_refl in \<open>auto simp: commit_def\<close>)
qed

lemma append_batch_fail:
  assumes "append_batch crc records pos w = (Inl e, w')" and "writer_inv w"
  shows "beyond w w' \<and> flushed_offset w' = flushed_offset w"
proof -
  obtain r1 w1 where ap: "append_all crc records w = (r1, w1)" by fastforce
  note eff = append_all_effect [OF ap assms(2)]
  show ?thesis
  proof (cases r1)
    case (Inl e1)
    then show ?thesis using assms(1) ap eff by (simp add: append_batch_def)
  next
    case (Inr u)
    then have "commit crc pos w1 = (Inl e, w')" using assms(1) ap by (simp add: append_batch_def)
    then show ?thesis using commit_beyond [of crc pos w1 "Inl e" w'] eff Inr beyond_trans by metis
  qed
qed

lemma commit_effect:
  assumes "commit crc pos w = (Inr off, w')" and "writer_inv w"
  shows "writer_inv w'" and "flushed_offset w' = off" and "write_offset w' = off" and "\<not> dirty w'"
    and "last_position w' = Some pos"
    and "holds_frames crc w fs \<Longrightarrow> holds_frames crc w' (fs @ [commit_frame pos])"
    and "zero_tail w \<Longrightarrow> zero_tail w'"
    and "off = write_offset w + frame_len (commit_frame pos)"
proof -
  obtain w1 where m: "write_commit_marker crc pos w = (Inr (), w1)"
    and sy: "sync (w1\<lparr>last_position := Some pos\<rparr>) = (Inr off, w')"
    using assms(1) by (auto simp: commit_def and_then_Inr)
  from m assms(2) have wr: "wrote w (frame_bytes crc (commit_frame pos)) w1"
    "write_offset w1 = write_offset w + frame_len (commit_frame pos)"
    "write_offset w + frame_len (commit_frame pos) \<le> size w"
    by (cases rule: write_commit_marker_cases; simp)+
  note f = wrote_frame [OF assms(2) wr]
  have d: "dirty w1" using wr(1) by (simp add: wrote_def)
  have "\<exists>fl. off = write_offset w1 \<and> w' = w1\<lparr>last_position := Some pos,
      flushed_offset := write_offset w1, dirty := False, faults := fl\<rparr>"
    using sy
  proof (cases rule: sync_cases)
    case (ok fl)
    then show ?thesis by (intro exI [of _ fl]) simp
  qed (use d in simp_all)
  then obtain fl where off: "off = write_offset w1" and w': "w' = w1\<lparr>last_position := Some pos,
      flushed_offset := write_offset w1, dirty := False, faults := fl\<rparr>" by blast
  show "writer_inv w'" using f(1) by (simp add: w' writer_inv_def)
  show "flushed_offset w' = off" "write_offset w' = off" "\<not> dirty w'" "last_position w' = Some pos"
    by (simp_all add: w' off)
  show "holds_frames crc w' (fs @ [commit_frame pos])" if "holds_frames crc w fs"
    using f(2) [OF that] by (simp add: w' holds_frames_def)
  show "zero_tail w'" if "zero_tail w" using f(3) [OF that] by (simp add: w' zero_tail_def)
  show "off = write_offset w + frame_len (commit_frame pos)" using off wr(2) by simp
qed

subsection \<open>Recovery on frames\<close>

lemma recover_step_frame:
  "recover_step crc file sz cur st =
     (case frame_at crc (drop cur (take sz file)) of
        None \<Rightarrow> None
      | Some f \<Rightarrow> Some (cur + frame_len f,
          if is_commit f then \<lparr>committed_offset = cur + frame_len f, rec_last_position = Some (commit_pos f)\<rparr>
          else st))"
proof (cases "cur + 8 \<le> sz \<and> cur + 8 \<le> length file")
  case False
  then have "length (drop cur (take sz file)) < 8" by auto
  then show ?thesis
    using False by (auto simp: recover_step_def frame_at_def RECORD_HEAD_SIZE_8 read_exact_at_def Let_def)
next
  case True
  define b where "b = drop cur (take sz file)"
  define raw where "raw = u32_of_le (take 4 b)"
  define n where "n = unat (raw AND LENGTH_MASK)"
  have lb: "length b = min sz (length file) - cur" by (simp add: b_def)
  have head: "bslice cur (cur + 8) file = take 8 b"
    using True by (auto simp: b_def bslice_def drop_take min_def)
  have h4: "take 4 (take 8 b) = take 4 b" and h8: "bslice 4 8 (take 8 b) = bslice 4 8 b"
    by (simp_all add: slice_take)
  have "4 \<le> length b" using True lb by auto
  then have raw_le: "u32_le raw = take 4 b" by (simp add: raw_def u32_le_u32_of_le)
  have pl: "bslice (cur + 8) (cur + 8 + n) file = bslice 8 (8 + n) b" if "cur + 8 + n \<le> sz"
    using that by (simp add: b_def bslice_def drop_take min_def add.commute)
  have fit: "8 + n \<le> length b \<longleftrightarrow> cur + 8 + n \<le> sz \<and> cur + 8 + n \<le> length file"
    using True lb by auto
  have fr: "frame_at crc b = Some f \<longleftrightarrow>
      \<not> is_truncation_marker (take 8 b) \<and> \<not> has_unknown_flags raw \<and> 8 + n \<le> length b \<and>
      crc (take 4 b @ bslice 8 (8 + n) b) = u32_of_le (bslice 4 8 b) \<and>
      f = Frame (raw AND CONTROL_FLAG \<noteq> 0) (bslice 8 (8 + n) b)" for f
    unfolding frame_at_iff Let_def raw_def n_def by (rule refl)
  show ?thesis
  proof (cases "frame_at crc b")
    case None
    then have "\<not> (\<not> is_truncation_marker (take 8 b) \<and> \<not> has_unknown_flags raw \<and> 8 + n \<le> length b \<and>
      crc (take 4 b @ bslice 8 (8 + n) b) = u32_of_le (bslice 4 8 b))" using fr by auto
    then show ?thesis
      using True None fit pl
      by (auto simp: recover_step_def Let_def RECORD_HEAD_SIZE_8 LEN_SIZE_def read_exact_at_def head h4 h8
          raw_def [symmetric] n_def [symmetric] calculate_crc32c_def raw_le b_def [symmetric])
  next
    case (Some f)
    note p = Some [unfolded fr]
    have fl: "frame_len f = 8 + n" and len: "length (bslice 8 (8 + n) b) = n"
      using p by (auto simp: frame_len_def RECORD_HEAD_SIZE_8 min_def)
    have "recover_step crc file sz cur st = Some (cur + (8 + n),
        if raw AND CONTROL_FLAG \<noteq> 0 \<and> n = COMMIT_MARKER_PAYLOAD \<and> bslice 8 (8 + n) b ! 0 = BATCH_COMMIT
        then \<lparr>committed_offset = cur + (8 + n), rec_last_position = Some (of_le (drop 1 (bslice 8 (8 + n) b)))\<rparr>
        else st)"
      using True p fit pl
      by (auto simp: recover_step_def Let_def RECORD_HEAD_SIZE_8 LEN_SIZE_def read_exact_at_def head h4 h8
          raw_def [symmetric] n_def [symmetric] calculate_crc32c_def raw_le add.assoc)
    moreover have "is_commit f \<longleftrightarrow>
        raw AND CONTROL_FLAG \<noteq> 0 \<and> n = COMMIT_MARKER_PAYLOAD \<and> bslice 8 (8 + n) b ! 0 = BATCH_COMMIT"
      and "commit_pos f = of_le (drop 1 (bslice 8 (8 + n) b))"
      using p len by (auto simp: is_commit_def commit_pos_def simp del: length_slice)
    ultimately show ?thesis by (simp only: b_def [symmetric] Some fl option.case)
  qed
qed

lemma frames_len_simps [simp]:
  "frames_len [] = 0" "frames_len (f # fs) = frame_len f + frames_len fs"
  "frames_len (fs @ gs) = frames_len fs + frames_len gs"
  by (simp_all add: frames_len_def)

lemma length_concat_frames [simp]: "length (concat (map (frame_bytes crc) fs)) = frames_len fs"
  by (induction fs) simp_all

text \<open>Recovery consumes every valid frame in its way.\<close>
lemma recover_from_frames:
  "\<lbrakk>drop cur (take sz file) = concat (map (frame_bytes crc) fs) @ rest; list_all (frame_ok crc) fs\<rbrakk> \<Longrightarrow>
   recover_from crc file sz cur st = recover_from crc file sz (cur + frames_len fs) (rec_frames cur st fs)"
proof (induction fs arbitrary: cur st)
  case (Cons f fs)
  have at: "frame_at crc (drop cur (take sz file)) = Some f"
    using Cons.prems by (simp add: frame_at_frame_bytes)
  have "drop (cur + frame_len f) (take sz file) = drop (frame_len f) (drop cur (take sz file))"
    by (simp add: add.commute)
  also have "\<dots> = concat (map (frame_bytes crc) fs) @ rest" using Cons.prems(1) by simp
  finally show ?case
    using Cons.IH Cons.prems(2)
    by (subst recover_from.simps) (simp add: recover_step_frame at add.assoc)
qed simp

lemma recover_from_stop:
  "frame_at crc (drop cur (take sz file)) = None \<Longrightarrow> recover_from crc file sz cur st = st"
  by (subst recover_from.simps) (simp add: recover_step_frame)

text \<open>On any file at all, recovery reads a maximal run of valid frames and nothing else.\<close>
lemma recover_from_sound:
  "\<exists>fs rest. drop cur (take sz file) = concat (map (frame_bytes crc) fs) @ rest \<and>
     list_all (frame_ok crc) fs \<and> frame_at crc rest = None \<and>
     recover_from crc file sz cur st = rec_frames cur st fs"
proof (induction crc "file" sz cur st rule: recover_from.induct)
  case (1 crc "file" sz cur st)
  show ?case
  proof (cases "frame_at crc (drop cur (take sz file))")
    case None
    then show ?thesis
      by (intro exI [of _ "[]"] exI [of _ "drop cur (take sz file)"]) (simp add: recover_from_stop)
  next
    case (Some f)
    note d = frame_at_SomeD [OF Some]
    have dr: "drop (frame_len f) (drop cur (take sz file)) = drop (cur + frame_len f) (take sz file)"
      by (simp add: add.commute)
    from 1 [unfolded recover_step_frame Some, simplified, OF refl] obtain fs rest where
      fs: "drop (cur + frame_len f) (take sz file) = concat (map (frame_bytes crc) fs) @ rest"
        "list_all (frame_ok crc) fs" "frame_at crc rest = None"
        "recover_from crc file sz (cur + frame_len f)
           (if is_commit f then \<lparr>committed_offset = cur + frame_len f, rec_last_position = Some (commit_pos f)\<rparr>
            else st) =
         rec_frames (cur + frame_len f)
           (if is_commit f then \<lparr>committed_offset = cur + frame_len f, rec_last_position = Some (commit_pos f)\<rparr>
            else st) fs"
      by blast
    have run: "recover_from crc file sz cur st = rec_frames cur st (f # fs)"
      by (subst recover_from.simps) (simp only: recover_step_frame Some fs(4) rec_frames.simps option.case prod.case)
    have "drop cur (take sz file) = concat (map (frame_bytes crc) (f # fs)) @ rest"
      using d(1) dr fs(1) by simp
    then show ?thesis using run d(2) fs(2,3)
      by (intro exI [of _ "f # fs"] exI [of _ rest]) simp
  qed
qed

lemma rec_frames_append: "rec_frames cur st (fs @ gs) = rec_frames (cur + frames_len fs) (rec_frames cur st fs) gs"
  by (induction fs arbitrary: cur st) (simp_all add: add.assoc)

lemma rec_frames_no_commit: "list_all (\<lambda>f. \<not> is_commit f) fs \<Longrightarrow> rec_frames cur st fs = st"
  by (induction fs arbitrary: cur st) simp_all

lemma rec_frames_mono: "committed_offset st \<le> cur \<Longrightarrow> committed_offset st \<le> committed_offset (rec_frames cur st fs)"
proof (induction fs arbitrary: cur st)
  case (Cons f fs)
  then show ?case
    using Cons.IH [of "\<lparr>committed_offset = cur + frame_len f, rec_last_position = Some (commit_pos f)\<rparr>"
        "cur + frame_len f"] Cons.IH [of st "cur + frame_len f"] by auto
qed simp

lemma recover_from_mono:
  "committed_offset st \<le> cur \<Longrightarrow> committed_offset st \<le> committed_offset (recover_from crc file sz cur st)"
  using recover_from_sound [of cur sz "file" crc st] rec_frames_mono [of st cur] by metis

text \<open>
  An I/O error of a read of the recovery ends the scan, as the end of the file does: with the bytes from \<open>n\<close> on
  unreadable, \<open>recover\<close> is that of \<open>take n file\<close>. It finds no more than the whole file holds, and may find less.
\<close>
lemma recover_step_unreadable:
  assumes "recover_step crc (take n file) sz cur st = Some r"
  shows "recover_step crc file sz cur st = Some r"
proof -
  have "read_exact_at file k off = Some b" if "read_exact_at (take n file) k off = Some b" for k off b
    using that by (auto simp: read_exact_at_def bslice_def take_drop min_def split: if_splits)
  then show ?thesis
    using assms unfolding recover_step_def Let_def by (auto split: if_splits option.splits)
qed

lemma recover_unreadable:
  "committed_offset (recover crc (take n file) sz start) \<le> committed_offset (recover crc file sz start)"
proof -
  have "committed_offset (recover_from crc (take n file) sz cur st) \<le> committed_offset (recover_from crc file sz cur st)"
    if "committed_offset st \<le> cur" for cur st
    using that
  proof (induction crc "take n file" sz cur st rule: recover_from.induct)
    case (1 crc sz cur st)
    show ?case
    proof (cases "recover_step crc (take n file) sz cur st")
      case None
      then show ?thesis using recover_from_mono [OF 1(2)] by (simp add: recover_from.simps [of crc "take n file"])
    next
      case (Some r)
      obtain cur' st' where r: "r = (cur', st')" by fastforce
      note step = recover_step_unreadable [OF Some]
      have "committed_offset st' \<le> cur'"
        using Some 1(2) recover_step_progress [OF Some [unfolded r]] unfolding r
        by (auto simp: recover_step_def Let_def split: if_splits option.splits)
      then have "committed_offset (recover_from crc (take n file) sz cur' st') \<le> committed_offset (recover_from crc file sz cur' st')"
        using 1(1) Some r by blast
      then show ?thesis
        using Some step r by (simp add: recover_from.simps [of crc "take n file" sz cur] recover_from.simps [of crc "file" sz cur])
    qed
  qed
  then show ?thesis by (simp add: recover_def)
qed

lemma rec_frames_last_commit:
  "is_commit c \<Longrightarrow> list_all (\<lambda>f. \<not> is_commit f) gs \<Longrightarrow>
   rec_frames cur st (fs @ c # gs)
   = \<lparr>committed_offset = cur + frames_len fs + frame_len c, rec_last_position = Some (commit_pos c)\<rparr>"
  by (simp add: rec_frames_append rec_frames_no_commit)

lemma rec_frames_split:
  obtains "list_all (\<lambda>f. \<not> is_commit f) fs"
    | us c vs where "fs = us @ c # vs" "is_commit c" "list_all (\<lambda>f. \<not> is_commit f) vs"
proof (cases "\<exists>f \<in> set fs. is_commit f")
  case True
  then show thesis using split_list_last_prop [of fs is_commit] that(2) by (auto simp: list_all_iff)
qed (use that(1) in \<open>auto simp: list_all_iff\<close>)

lemma frame_at_zeros: "list_all (\<lambda>b. b = 0) (take 8 bs) \<Longrightarrow> frame_at crc bs = None"
  by (simp add: frame_at_def is_truncation_marker_def RECORD_HEAD_SIZE_8)

text \<open>A successful batch: everything written, committed and flushed.\<close>
lemma append_batch_effect:
  assumes "append_batch crc records pos w = (Inr off, w')" and "writer_inv w"
    and "list_all (rec_ok crc) records"
  shows "writer_inv w'" and "beyond w w'" and "flushed_offset w' = off" and "write_offset w' = off"
    and "\<not> dirty w'" and "last_position w' = Some pos"
    and "holds_frames crc w fs \<Longrightarrow> holds_frames crc w' (fs @ data_frames records @ [commit_frame pos])"
    and "zero_tail w \<Longrightarrow> zero_tail w'"
proof -
  obtain w1 where ap: "append_all crc records w = (Inr (), w1)" and co: "commit crc pos w1 = (Inr off, w')"
    using assms(1) by (auto simp: append_batch_def and_then_Inr)
  have inv1: "writer_inv w1" and b1: "beyond w w1" using append_all_effect [OF ap assms(2)] by simp_all
  note fr = append_all_frames [OF ap assms(2,3)] and ce = commit_effect [OF co inv1]
  show "writer_inv w'" "flushed_offset w' = off" "write_offset w' = off" "\<not> dirty w'" "last_position w' = Some pos"
    by (fact ce)+
  show "beyond w w'" using beyond_trans [OF b1] commit_beyond [OF co inv1] by blast
  show "holds_frames crc w' (fs @ data_frames records @ [commit_frame pos])" if "holds_frames crc w fs"
    using ce(6) fr that by (metis append_assoc)
  show "zero_tail w'" if "zero_tail w" using ce(7) fr that by blast
qed

lemma holds_frames_image:
  assumes "holds_frames crc w fs" and "writer_inv w" and "flushed_offset w = write_offset w"
    and "crash_image w img"
  obtains rest where "drop (start_offset w) (take (size w) img) = concat (map (frame_bytes crc) fs) @ rest"
    and "write_offset w = start_offset w + frames_len fs"
proof -
  have sl: "bslice (start_offset w) (write_offset w) img = concat (map (frame_bytes crc) fs)"
    using assms slice_cong_take [of "write_offset w" img "content w" "write_offset w" "start_offset w"]
    by (simp add: holds_frames_def crash_image_def)
  have "length (bslice (start_offset w) (write_offset w) img) = write_offset w - start_offset w"
    using assms(2,4) by (auto simp: writer_inv_def crash_image_def)
  then have "write_offset w = start_offset w + frames_len fs"
    using sl assms(2) by (simp add: writer_inv_def)
  moreover have "drop (start_offset w) img = concat (map (frame_bytes crc) fs) @ drop (write_offset w) img"
    using drop_split_slice [of "start_offset w" "write_offset w" img] sl assms(2) by (simp add: writer_inv_def)
  ultimately show thesis using that assms(4) by (simp add: crash_image_def)
qed

subsection \<open>Properties\<close>

text \<open>
  What recovery does on any file, torn or not: the bytes from the start offset split into a maximal
  run of valid frames and a rest that starts no valid frame, and the recovered end is the end of the last
  commit marker of that run (with the position it carries), or the start offset when the run holds none.
  So nothing after the last valid marker, and nothing behind a torn record, is ever adopted.
\<close>
theorem recover_committed_prefix:
  "\<exists>fs rest. drop start (take sz file) = concat (map (frame_bytes crc) fs) @ rest \<and>
     frame_at crc rest = None \<and>
     ((\<forall>f \<in> set fs. \<not> is_commit f) \<and>
        recover crc file sz start = \<lparr>committed_offset = start, rec_last_position = None\<rparr> \<or>
      (\<exists>us c vs. fs = us @ c # vs \<and> is_commit c \<and> (\<forall>f \<in> set vs. \<not> is_commit f) \<and>
        recover crc file sz start =
          \<lparr>committed_offset = start + length (concat (map (frame_bytes crc) (us @ [c]))),
           rec_last_position = Some (commit_pos c)\<rparr>))"
proof -
  obtain fs rest where fs: "drop start (take sz file) = concat (map (frame_bytes crc) fs) @ rest"
    "frame_at crc rest = None"
    "recover crc file sz start = rec_frames start \<lparr>committed_offset = start, rec_last_position = None\<rparr> fs"
    using recover_from_sound unfolding recover_def by blast
  show ?thesis
  proof (cases rule: rec_frames_split [of fs])
    case 1
    then show ?thesis
      using fs by (intro exI [of _ fs] exI [of _ rest]) (auto simp: rec_frames_no_commit list_all_iff)
  next
    case (2 us c vs)
    then have "\<exists>us c vs. fs = us @ c # vs \<and> is_commit c \<and> (\<forall>f \<in> set vs. \<not> is_commit f) \<and>
        recover crc file sz start =
          \<lparr>committed_offset = start + length (concat (map (frame_bytes crc) (us @ [c]))),
           rec_last_position = Some (commit_pos c)\<rparr>"
      using fs(3) by (intro exI [of _ us] exI [of _ c] exI [of _ vs])
        (simp add: rec_frames_last_commit list_all_iff)
    then show ?thesis using fs(1,2) by blast
  qed
qed

text \<open>One committed record, then a record without a marker.\<close>
definition demo_file :: bytes where
  "demo_file = frame_bytes crc_demo (Frame False [7]) @ frame_bytes crc_demo (commit_frame 1)
                 @ frame_bytes crc_demo (Frame False [8]) @ replicate 9 0"

theorem recover_committed_prefix_witness:
  "\<exists>fs rest. drop 0 (take 64 demo_file) = concat (map (frame_bytes crc_demo) fs) @ rest \<and>
     frame_at crc_demo rest = None \<and>
     recover crc_demo demo_file 64 0 = \<lparr>committed_offset = 26, rec_last_position = Some 1\<rparr>"
proof -
  have "recover crc_demo demo_file 64 0 = \<lparr>committed_offset = 26, rec_last_position = Some 1\<rparr>"
    by code_simp
  then show ?thesis using recover_committed_prefix [of 0 64 demo_file crc_demo] by blast
qed

text \<open>
  C12. An acknowledged batch is durable: when \<open>append_batch\<close> returns, every file a crash can leave behind
  (any bytes at all beyond the flushed offset) recovers to at least the batch's end, recovery passing over
  it with the batch's position as the last one seen; and if nothing was written after it, to exactly it.
\<close>
theorem acked_batch_survives_crash:
  assumes "writer_inv w" and "holds_frames crc w fs" and "list_all (rec_ok crc) records"
    and "pos \<le> U64_MAX"
    and "append_batch crc records pos w = (Inr off, w')"
    and "crash_image w' img"
  shows "recover crc img (size w') (start_offset w')
           = recover_from crc img (size w') off \<lparr>committed_offset = off, rec_last_position = Some pos\<rparr> \<and>
         off \<le> committed_offset (recover crc img (size w') (start_offset w')) \<and>
         (list_all (\<lambda>b. b = 0) (take 8 (drop off img)) \<longrightarrow>
            recover crc img (size w') (start_offset w') = \<lparr>committed_offset = off, rec_last_position = Some pos\<rparr>)"
proof -
  note ce = append_batch_effect [OF assms(5,1,3)]
  let ?fs = "fs @ data_frames records @ [commit_frame pos]"
  have h': "holds_frames crc w' ?fs" by (rule ce(7) [OF assms(2)])
  obtain rest where img: "drop (start_offset w') (take (size w') img) = concat (map (frame_bytes crc) ?fs) @ rest"
    and off: "write_offset w' = start_offset w' + frames_len ?fs"
    using holds_frames_image [OF h' ce(1) _ assms(6)] ce(3,4) by metis
  have ok: "list_all (frame_ok crc) ?fs" using h' by (simp only: holds_frames_def)
  have end_st: "rec_frames (start_offset w') st ?fs = \<lparr>committed_offset = off, rec_last_position = Some pos\<rparr>" for st
    using off ce(4) assms(4) by (simp add: rec_frames_append add.assoc)
  have rec: "recover crc img (size w') (start_offset w')
           = recover_from crc img (size w') off \<lparr>committed_offset = off, rec_last_position = Some pos\<rparr>"
    unfolding recover_def using recover_from_frames [OF img ok] off ce(4) end_st by metis
  moreover have "off \<le> committed_offset (recover_from crc img (size w') off
      \<lparr>committed_offset = off, rec_last_position = Some pos\<rparr>)"
    using recover_from_mono [of "\<lparr>committed_offset = off, rec_last_position = Some pos\<rparr>" off] by simp
  moreover have "frame_at crc (drop off (take (size w') img)) = None"
    if "list_all (\<lambda>b. b = 0) (take 8 (drop off img))"
    using that assms(6) by (intro frame_at_zeros) (simp add: crash_image_def)
  ultimately show ?thesis using recover_from_stop by metis
qed

text \<open>An empty 64-byte segment, to run the operations on.\<close>
definition demo_writer :: "nat option list \<Rightarrow> Writer" where
  "demo_writer fs =
     \<lparr>content = replicate 64 0, cursor = 0, size = 64, start_offset = 0, write_offset = 0,
      flushed_offset = 0, dirty = False, max_record = 16, last_position = None, faults = fs\<rparr>"

lemma demo_writer_create: "Writer_create 64 0 (replicate 5 None @ fs) = Inr (demo_writer fs)"
  by (simp add: Writer_create_def demo_writer_def default_max_record_def record_hard_limit_def
      RECORD_HEAD_SIZE_8 COMMIT_MARKER_PAYLOAD_9 MAX_RECORD_LEN_val list_ex_iff)

lemma demo_writer_inv: "writer_inv (demo_writer fs)" "holds_frames crc (demo_writer fs) []"
  by (simp_all add: writer_inv_def demo_writer_def holds_frames_def RECORD_HEAD_SIZE_8 MAX_RECORD_LEN_val)

theorem acked_batch_survives_crash_witness:
  "\<exists>w'. append_batch crc_demo [([], [7]), ([], [8])] 2 (demo_writer []) = (Inr 35, w') \<and>
     35 \<le> committed_offset (recover crc_demo (take 35 (content w') @ replicate 29 0xFF) 64 0)"
proof -
  have run: "append_batch crc_demo [([], [7]), ([], [8])] 2 (demo_writer [])
             = (Inr 35, snd (append_batch crc_demo [([], [7]), ([], [8])] 2 (demo_writer [])))"
    (is "_ = (Inr 35, ?w')") by code_simp
  have "list_all (rec_ok crc_demo) [([], [7]), ([], [8])]" by (simp add: rec_ok_def)
  moreover have "crash_image ?w' (take 35 (content ?w') @ replicate 29 0xFF)" by code_simp
  moreover have "(2::nat) \<le> U64_MAX" by simp
  ultimately have "35 \<le> committed_offset
      (recover crc_demo (take 35 (content ?w') @ replicate 29 0xFF) (size ?w') (start_offset ?w'))"
    using acked_batch_survives_crash [OF demo_writer_inv(1) demo_writer_inv(2) _ _ run] by blast
  moreover have "size ?w' = 64" "start_offset ?w' = 0" by code_simp+
  ultimately show ?thesis using run by auto
qed

text \<open>
  A failed batch leaves no trace after the rewind: when \<open>append_batch\<close> fails after at least one record
  went in and the caller's \<open>rewind_to\<close> the batch's first byte succeeds, the writer is back in a state that
  satisfies its invariant, at the same write and flushed offsets, holding exactly the frames it held before.
\<close>
theorem failed_batch_rolls_back:
  assumes "writer_inv w" and "holds_frames crc w fs"
    and "append_batch crc records pos w = (Inl e, w')"
    and "write_offset w < write_offset w'"
    and "rewind_to (write_offset w) w' = (Inr (), w'')"
  shows "writer_inv w'' \<and> write_offset w'' = write_offset w \<and> flushed_offset w'' = flushed_offset w \<and>
         holds_frames crc w'' fs \<and> take (write_offset w) (content w'') = take (write_offset w) (content w)"
proof -
  have b: "beyond w w'" "flushed_offset w' = flushed_offset w"
    using append_batch_fail [OF assms(3,1)] by simp_all
  have w'': "cursor w'' = write_offset w" "write_offset w'' = write_offset w" "content w'' = content w'"
    "size w'' = size w'" "start_offset w'' = start_offset w'" "flushed_offset w'' = flushed_offset w'"
    "max_record w'' = max_record w'" "dirty w'' \<longleftrightarrow> flushed_offset w' < write_offset w"
    using assms(4,5)
    by (auto simp: rewind_to_def seek_to_def pop_fault_def split: option.splits)
  have tk: "take (write_offset w) (content w'') = take (write_offset w) (content w)"
    using b(1) w'' by (simp add: beyond_def)
  moreover have "writer_inv w''"
    using b assms(1) w'' unfolding writer_inv_def beyond_def by auto
  moreover have "holds_frames crc w'' fs"
    using assms(2) b(1) w'' slice_cong_take [OF tk, of "write_offset w" "start_offset w"]
    by (simp add: holds_frames_def beyond_def)
  ultimately show ?thesis using w'' b(2) by simp
qed

text \<open>The second record's checksum write fails: the first record was already counted.\<close>
theorem failed_batch_rolls_back_witness:
  "\<exists>w' w''. append_batch crc_demo [([], [7]), ([], [8])] 2
             (demo_writer [None, None, None, None, None, Some 2]) = (Inl WIo, w') \<and>
     rewind_to 0 w' = (Inr (), w'') \<and> writer_inv w'' \<and> write_offset w'' = 0"
proof -
  let ?w = "demo_writer [None, None, None, None, None, Some 2]"
  let ?r = "append_batch crc_demo [([], [7]), ([], [8])] 2 ?w"
  have run: "?r = (Inl WIo, snd ?r)" by code_simp
  have rew: "rewind_to (write_offset ?w) (snd ?r) = (Inr (), snd (rewind_to (write_offset ?w) (snd ?r)))"
    by code_simp
  have "write_offset ?w < write_offset (snd ?r)" by code_simp
  from failed_batch_rolls_back [OF demo_writer_inv(1) demo_writer_inv(2) run this rew]
  have "writer_inv (snd (rewind_to (write_offset ?w) (snd ?r)))"
    and "write_offset (snd (rewind_to (write_offset ?w) (snd ?r))) = 0"
    by (simp_all add: demo_writer_def)
  moreover have "write_offset ?w = 0" by (simp add: demo_writer_def)
  ultimately show ?thesis using run rew by metis
qed

text \<open>
  \<open>set_len\<close> truncates without moving the file cursor: after truncating to an earlier commit point, the
  next batch is accepted, synced and acknowledged at the offset it believes it writes to, but its bytes land
  after the old end, and recovery stops at the truncation point.
\<close>
theorem set_len_loses_next_batch:
  "\<exists>w1 w2 w3. append_batch crc_demo [([], [7])] 1 (demo_writer []) = (Inr 26, w1) \<and>
     append crc_demo [] [8] w1 = (Inr (26, 9), w2) \<and> fst (set_len 26 w2) = Inr () \<and>
     append_batch crc_demo [] 2 (snd (set_len 26 w2)) = (Inr 43, w3) \<and> flushed_offset w3 = 43 \<and>
     recover crc_demo (content w3) 64 0 = \<lparr>committed_offset = 26, rec_last_position = Some 1\<rparr>"
proof -
  let ?r1 = "append_batch crc_demo [([], [7])] 1 (demo_writer [])"
  let ?r2 = "append crc_demo [] [8] (snd ?r1)"
  let ?r3 = "append_batch crc_demo [] 2 (snd (set_len 26 (snd ?r2)))"
  have "?r1 = (Inr 26, snd ?r1)" "?r2 = (Inr (26, 9), snd ?r2)" "fst (set_len 26 (snd ?r2)) = Inr ()"
    "?r3 = (Inr 43, snd ?r3)" "flushed_offset (snd ?r3) = 43"
    "recover crc_demo (content (snd ?r3)) 64 0 = \<lparr>committed_offset = 26, rec_last_position = Some 1\<rparr>"
    by code_simp+
  then show ?thesis by metis
qed

end
