(* ===== verification/SegReader.thy ===== *)
theory SegReader
  imports Framing
begin

text \<open>
  The segment reader (\<open>crates/seglog/src/read.rs\<close>). The file and the flushed offset are shared with the
  writer, so they are arguments of every operation; the reader's own state is its read-ahead buffer.
  The optimistic, fallback and allocating paths of a random read, and the buffered sequential path, are
  modelled as written; the lemmas show that all of them compute the pure parser of \<open>Framing\<close> on the
  flushed prefix of the file, as long as the read-ahead buffer is a copy of the file (\<open>ra_fresh\<close>).
  Positioned reads inside the file succeed in the model; reads past its end fail.
\<close>

subsection \<open>Definitions\<close>

definition PAGE_SIZE :: nat where "PAGE_SIZE = 4096"
definition OPTIMISTIC_DATA_SIZE :: nat where "OPTIMISTIC_DATA_SIZE = 2048"
definition FALLBACK_BUF_SIZE :: nat where "FALLBACK_BUF_SIZE = PAGE_SIZE"
definition READ_AHEAD_SIZE :: nat where "READ_AHEAD_SIZE = 64 * 1024"

record Record =
  rec_header :: bytes
  rec_data :: bytes
  rec_offset :: nat
  rec_len :: nat

datatype ReadHint = Random | Sequential

datatype RecordKind = KData nat | KControl nat | KEnd

text \<open>The read-ahead buffer; \<open>ra_buf\<close> is its valid part, so \<open>valid_len\<close> is its length.\<close>
record ReadAheadBuf =
  ra_buf :: bytes
  ra_offset :: nat

definition ReadAheadBuf_new :: ReadAheadBuf where
  "ReadAheadBuf_new = \<lparr>ra_buf = [], ra_offset = 0\<rparr>"

definition ra_overlaps :: "nat \<Rightarrow> nat \<Rightarrow> ReadAheadBuf \<Rightarrow> bool" where
  "ra_overlaps offset len ra =
     (if ra_buf ra = [] then False
      else offset < ra_offset ra + length (ra_buf ra) \<and> ra_offset ra < offset + len)"

definition ra_invalidate :: "ReadAheadBuf \<Rightarrow> ReadAheadBuf" where
  "ra_invalidate ra = ra\<lparr>ra_buf := []\<rparr>"

definition ra_fill :: "bytes \<Rightarrow> nat \<Rightarrow> nat \<Rightarrow> ReadAheadBuf \<Rightarrow> ReadAheadBuf" where
  "ra_fill file offset len ra =
     (let end_offset = offset + len;
          start = offset - offset mod READ_AHEAD_SIZE;
          want = end_offset - start;
          required_size = (max want READ_AHEAD_SIZE + PAGE_SIZE - 1) div PAGE_SIZE * PAGE_SIZE
      in \<lparr>ra_buf = bslice start (start + required_size) file, ra_offset = start\<rparr>)"

definition ra_holds :: "nat \<Rightarrow> nat \<Rightarrow> ReadAheadBuf \<Rightarrow> bool" where
  "ra_holds offset len ra \<longleftrightarrow> ra_offset ra \<le> offset \<and> offset + len \<le> ra_offset ra + length (ra_buf ra)"

definition ra_slice :: "nat \<Rightarrow> nat \<Rightarrow> ReadAheadBuf \<Rightarrow> bytes" where
  "ra_slice offset len ra = bslice (offset - ra_offset ra) (offset - ra_offset ra + len) (ra_buf ra)"

definition ra_read :: "bytes \<Rightarrow> nat \<Rightarrow> nat \<Rightarrow> ReadAheadBuf \<Rightarrow> (ReadError + bytes) \<times> ReadAheadBuf" where
  "ra_read file offset len ra =
     (if ra_holds offset len ra then (Inr (ra_slice offset len ra), ra)
      else
        let ra = ra_fill file offset len ra
        in if \<not> ra_holds offset len ra then (Inl ReadIo, ra)
           else (Inr (ra_slice offset len ra), ra))"

definition peek ::
  "bytes \<Rightarrow> nat \<Rightarrow> nat \<Rightarrow> ReadAheadBuf \<Rightarrow> (ReadError + RecordKind) \<times> ReadAheadBuf" where
  "peek file flushed offset ra =
     (if offset + RECORD_HEAD_SIZE > flushed then (Inr KEnd, ra)
      else case ra_read file offset RECORD_HEAD_SIZE ra of
        (Inl e, ra) \<Rightarrow> (Inl e, ra)
      | (Inr header, ra) \<Rightarrow>
          if is_truncation_marker header then (Inr KEnd, ra)
          else
            let raw = u32_of_le (take LEN_SIZE header)
            in if has_unknown_flags raw then (Inl (Corrupt offset), ra)
               else
                 let total_len = RECORD_HEAD_SIZE + unat (raw AND LENGTH_MASK)
                 in if offset + total_len > flushed then (Inr KEnd, ra)
                    else if raw AND CONTROL_FLAG \<noteq> 0 then (Inr (KControl total_len), ra)
                    else (Inr (KData total_len), ra))"

text \<open>The common end of every read path: split the payload, check the checksum, classify.\<close>
definition finish_record ::
  "crc_fun \<Rightarrow> nat \<Rightarrow> bytes \<Rightarrow> 32 word \<Rightarrow> bool \<Rightarrow> bytes \<Rightarrow> nat \<Rightarrow> ReadError + Record" where
  "finish_record crc H length_bytes crc_field is_control payload offset =
     (let header_len = if is_control then 0 else H
      in if length payload < header_len then Inl ReadPanic
         else
           let header = take header_len payload; data = drop header_len payload
           in if crc_field \<noteq> calculate_crc32c crc length_bytes header data then Inl (Crc32cMismatch offset)
              else if is_control then Inl (ControlRecord offset (RECORD_HEAD_SIZE + length payload))
              else Inr \<lparr>rec_header = header, rec_data = data, rec_offset = offset,
                        rec_len = RECORD_HEAD_SIZE + length payload\<rparr>)"

definition read_record_sequential ::
  "crc_fun \<Rightarrow> nat \<Rightarrow> bytes \<Rightarrow> nat \<Rightarrow> nat \<Rightarrow> ReadAheadBuf \<Rightarrow> (ReadError + Record) \<times> ReadAheadBuf" where
  "read_record_sequential crc H file offset flushed ra =
     (case ra_read file offset RECORD_HEAD_SIZE ra of
        (Inl e, ra) \<Rightarrow> (Inl e, ra)
      | (Inr head, ra) \<Rightarrow>
          if is_truncation_marker (take RECORD_HEAD_SIZE head) then (Inl (TruncationMarker offset), ra)
          else
            let length_bytes = take LEN_SIZE head;
                raw = u32_of_le length_bytes
            in if has_unknown_flags raw then (Inl (Corrupt offset), ra)
               else
                 let is_control = raw AND CONTROL_FLAG \<noteq> 0;
                     payload_len = unat (raw AND LENGTH_MASK);
                     crc_field = u32_of_le (bslice LEN_SIZE (LEN_SIZE + CRC32C_SIZE) head);
                     payload_offset = offset + RECORD_HEAD_SIZE
                 in if payload_offset + payload_len > flushed
                    then (Inl (OutOfBounds offset (RECORD_HEAD_SIZE + payload_len) flushed), ra)
                    else case ra_read file payload_offset payload_len ra of
                      (Inl e, ra) \<Rightarrow> (Inl e, ra)
                    | (Inr payload, ra) \<Rightarrow>
                        (finish_record crc H length_bytes crc_field is_control payload offset, ra))"

definition file_read_exact_at :: "bytes \<Rightarrow> nat \<Rightarrow> nat \<Rightarrow> ReadError + bytes" where
  "file_read_exact_at file n off =
     (if off + n \<le> length file then Inr (bslice off (off + n) file) else Inl ReadIo)"

definition read_record_random ::
  "crc_fun \<Rightarrow> nat \<Rightarrow> bytes \<Rightarrow> nat \<Rightarrow> nat \<Rightarrow> ReadError + Record" where
  "read_record_random crc H file offset flushed =
     (let optimistic_read_len = min (RECORD_HEAD_SIZE + OPTIMISTIC_DATA_SIZE) (flushed - offset)
      in case file_read_exact_at file optimistic_read_len offset of
        Inl e \<Rightarrow> Inl e
      | Inr optimistic_buf \<Rightarrow>
          let head = take RECORD_HEAD_SIZE optimistic_buf
          in if is_truncation_marker head then Inl (TruncationMarker offset)
             else
               let length_bytes = take LEN_SIZE head;
                   raw = u32_of_le length_bytes
               in if has_unknown_flags raw then Inl (Corrupt offset)
                  else
                    let is_control = raw AND CONTROL_FLAG \<noteq> 0;
                        payload_len = unat (raw AND LENGTH_MASK);
                        crc_field = u32_of_le (bslice LEN_SIZE (LEN_SIZE + CRC32C_SIZE) head);
                        payload_offset = offset + RECORD_HEAD_SIZE
                    in if payload_offset + payload_len > flushed
                       then Inl (OutOfBounds offset (RECORD_HEAD_SIZE + payload_len) flushed)
                       else if payload_len \<le> OPTIMISTIC_DATA_SIZE
                               \<and> optimistic_read_len \<ge> RECORD_HEAD_SIZE + payload_len
                       then finish_record crc H length_bytes crc_field is_control
                              (bslice RECORD_HEAD_SIZE (RECORD_HEAD_SIZE + payload_len) optimistic_buf) offset
                       else case file_read_exact_at file payload_len payload_offset of
                              Inl e \<Rightarrow> Inl e
                            | Inr payload \<Rightarrow>
                                finish_record crc H length_bytes crc_field is_control payload offset)"

definition read_record ::
  "crc_fun \<Rightarrow> nat \<Rightarrow> bytes \<Rightarrow> nat \<Rightarrow> nat \<Rightarrow> ReadHint \<Rightarrow> ReadAheadBuf \<Rightarrow> (ReadError + Record) \<times> ReadAheadBuf" where
  "read_record crc H file flushed offset hint ra =
     (if offset + RECORD_HEAD_SIZE > flushed
      then (Inl (OutOfBounds offset RECORD_HEAD_SIZE flushed), ra)
      else case hint of
             Sequential \<Rightarrow> read_record_sequential crc H file offset flushed ra
           | Random \<Rightarrow> (read_record_random crc H file offset flushed, ra))"

definition read_bytes :: "bytes \<Rightarrow> nat \<Rightarrow> nat \<Rightarrow> nat \<Rightarrow> ReadError + bytes" where
  "read_bytes file flushed offset n =
     (case checked_add U64_MAX offset n of
        None \<Rightarrow> Inl ReadIo
      | Some end_off \<Rightarrow>
          if end_off > flushed then Inl (OutOfBounds offset n flushed)
          else file_read_exact_at file n offset)"

text \<open>
  \<open>replace_header_with\<close>: the closure \<open>f\<close> is an argument; the result carries the file and buffer
  after the positioned write.
\<close>
definition replace_header_with ::
  "crc_fun \<Rightarrow> nat \<Rightarrow> nat \<Rightarrow> nat \<Rightarrow> (Record \<Rightarrow> bytes option) \<Rightarrow> bytes \<times> ReadAheadBuf
     \<Rightarrow> (ReadError + bool) \<times> (bytes \<times> ReadAheadBuf)" where
  "replace_header_with crc H flushed offset f st =
     (case st of (file, ra) \<Rightarrow>
      case read_record crc H file flushed offset Random ra of
        (Inl e, ra) \<Rightarrow> (Inl e, (file, ra))
      | (Inr r, ra) \<Rightarrow>
          (case f r of
             None \<Rightarrow> (Inr False, (file, ra))
           | Some new_header \<Rightarrow>
               let payload_len = rec_len r - RECORD_HEAD_SIZE;
                   length_bytes = le_bytes 4 payload_len;
                   new_crc = calculate_crc32c crc length_bytes new_header (rec_data r);
                   write_buf = u32_le new_crc @ new_header;
                   ra = (if ra_overlaps offset (RECORD_HEAD_SIZE + payload_len) ra
                         then ra_invalidate ra else ra)
               in (Inr True, (overwrite (offset + LEN_SIZE) write_buf file, ra))))"

definition control_len_at ::
  "crc_fun \<Rightarrow> bytes \<Rightarrow> nat \<Rightarrow> nat \<Rightarrow> ReadAheadBuf \<Rightarrow> nat option \<times> ReadAheadBuf" where
  "control_len_at crc file flushed offset ra =
     (if offset + RECORD_HEAD_SIZE > flushed then (None, ra)
      else case ra_read file offset RECORD_HEAD_SIZE ra of
        (Inl _, ra) \<Rightarrow> (None, ra)
      | (Inr hdr, ra) \<Rightarrow>
          if is_truncation_marker hdr then (None, ra)
          else
            let raw = u32_of_le (take LEN_SIZE hdr);
                crc_field = u32_of_le (bslice LEN_SIZE RECORD_HEAD_SIZE hdr)
            in if raw AND CONTROL_FLAG = 0 \<or> has_unknown_flags raw then (None, ra)
               else
                 let payload_len = unat (raw AND LENGTH_MASK)
                 in if offset + (RECORD_HEAD_SIZE + payload_len) > flushed then (None, ra)
                    else case ra_read file (offset + RECORD_HEAD_SIZE) payload_len ra of
                      (Inl _, ra) \<Rightarrow> (None, ra)
                    | (Inr payload, ra) \<Rightarrow>
                        if calculate_crc32c crc (u32_le raw) [] payload \<noteq> crc_field then (None, ra)
                        else (Some (RECORD_HEAD_SIZE + payload_len), ra))"

lemma control_len_at_progress:
  "control_len_at crc file flushed offset ra = (Some n, ra') \<Longrightarrow> 0 < n \<and> offset + n \<le> flushed"
  by (auto simp: control_len_at_def Let_def split: if_splits prod.splits sum.splits)

text \<open>The \<open>while let\<close> loop of \<open>next_record\<close> that skips control records.\<close>
function skip_controls ::
  "crc_fun \<Rightarrow> bytes \<Rightarrow> nat \<Rightarrow> nat \<Rightarrow> ReadAheadBuf \<Rightarrow> nat \<times> ReadAheadBuf" where
  "skip_controls crc file flushed offset ra =
     (case control_len_at crc file flushed offset ra of
        (None, ra) \<Rightarrow> (offset, ra)
      | (Some n, ra) \<Rightarrow> skip_controls crc file flushed (offset + n) ra)"
  by pat_completeness auto
termination
  by (relation "measure (\<lambda>(crc, file, flushed, offset, ra). flushed - offset)")
    (auto dest!: control_len_at_progress [OF sym])

declare skip_controls.simps [simp del]

text \<open>\<open>Iter::next_record\<close>: the result, the iterator's next offset and the buffer.\<close>
definition next_record ::
  "crc_fun \<Rightarrow> nat \<Rightarrow> bytes \<Rightarrow> nat \<Rightarrow> nat \<Rightarrow> ReadAheadBuf
     \<Rightarrow> (ReadError + Record option) \<times> nat \<times> ReadAheadBuf" where
  "next_record crc H file flushed offset ra =
     (case skip_controls crc file flushed offset ra of
        (offset, ra) \<Rightarrow>
          (case read_record crc H file flushed offset Sequential ra of
             (Inr r, ra) \<Rightarrow> (Inr (Some r), offset + rec_len r, ra)
           | (Inl (OutOfBounds _ _ _), ra) \<Rightarrow> (Inr None, offset, ra)
           | (Inl (TruncationMarker _), ra) \<Rightarrow> (Inr None, offset, ra)
           | (Inl e, ra) \<Rightarrow> (Inl e, offset, ra)))"

lemma finish_record_Inr:
  "finish_record crc H lb cf ctl payload off = Inr r \<Longrightarrow> rec_offset r = off \<and> RECORD_HEAD_SIZE \<le> rec_len r"
  by (auto simp: finish_record_def Let_def split: if_splits)

lemma read_record_bounds:
  "read_record crc H file flushed off hint ra = (Inr r, ra') \<Longrightarrow>
   rec_offset r = off \<and> RECORD_HEAD_SIZE \<le> rec_len r \<and> off + RECORD_HEAD_SIZE \<le> flushed"
  by (auto simp: read_record_def read_record_sequential_def read_record_random_def Let_def
      dest: finish_record_Inr split: if_splits ReadHint.splits prod.splits sum.splits)

lemma skip_controls_mono: "skip_controls crc file flushed off ra = (off', ra') \<Longrightarrow> off \<le> off'"
proof (induction crc "file" flushed off ra rule: skip_controls.induct)
  case (1 crc "file" flushed off ra)
  then show ?case
    by (subst (asm) (2) skip_controls.simps) (force split: prod.splits option.splits)
qed

lemma next_record_progress:
  assumes "next_record crc H file flushed off ra = (Inr (Some r), off', ra')"
  shows "off' = rec_offset r + rec_len r \<and> off \<le> rec_offset r \<and> 0 < rec_len r \<and> rec_offset r < flushed"
proof -
  obtain off1 ra1 where sk: "skip_controls crc file flushed off ra = (off1, ra1)" by fastforce
  then have rd: "read_record crc H file flushed off1 Sequential ra1 = (Inr r, ra')" and off': "off' = off1 + rec_len r"
    using assms by (auto simp: next_record_def split: prod.splits sum.splits ReadError.splits)
  show ?thesis
    using read_record_bounds [OF rd] skip_controls_mono [OF sk] off' RECORD_HEAD_SIZE_8 by auto
qed

subsection \<open>The read-ahead buffer as a copy of the file\<close>

definition ra_fresh :: "bytes \<Rightarrow> ReadAheadBuf \<Rightarrow> bool" where
  "ra_fresh file ra \<longleftrightarrow>
     ra_buf ra = bslice (ra_offset ra) (ra_offset ra + length (ra_buf ra)) file"

lemma ra_fresh_new [simp]: "ra_fresh file ReadAheadBuf_new"
  by (simp add: ra_fresh_def ReadAheadBuf_new_def)

lemma bslice_clip: "bslice a (a + length (bslice a b xs)) xs = bslice a b xs"
  by (simp add: bslice_def min_def)

lemma ra_fill_fresh: "ra_fresh file (ra_fill file off len ra)"
  unfolding ra_fresh_def ra_fill_def Let_def
  by (simp only: ReadAheadBuf.select_convs bslice_clip)

lemma bslice_bslice:
  "b' \<le> b - a \<Longrightarrow> bslice a' b' (bslice a b xs) = bslice (a + a') (a + b') xs"
  by (simp add: bslice_def drop_take add.commute min_def)

lemma ra_slice_fresh:
  assumes "ra_fresh file ra" and "ra_holds off len ra"
  shows "ra_slice off len ra = bslice off (off + len) file"
proof -
  have "off - ra_offset ra + len \<le> length (ra_buf ra)" using assms(2) by (auto simp: ra_holds_def)
  then have "ra_slice off len ra = bslice (ra_offset ra + (off - ra_offset ra))
               (ra_offset ra + (off - ra_offset ra + len)) file"
    using assms(1) bslice_bslice [of "off - ra_offset ra + len" "ra_offset ra + length (ra_buf ra)" "ra_offset ra"]
    unfolding ra_slice_def ra_fresh_def by (metis add_diff_cancel_left')
  then show ?thesis using assms(2) by (simp add: ra_holds_def)
qed

lemma round_up_page: "m \<le> (m + PAGE_SIZE - 1) div PAGE_SIZE * PAGE_SIZE"
  by (simp add: PAGE_SIZE_def)

lemma ra_fill_holds:
  assumes "off + len \<le> length file"
  shows "ra_holds off len (ra_fill file off len ra)"
proof -
  let ?s = "off - off mod READ_AHEAD_SIZE"
  let ?r = "(max (off + len - ?s) READ_AHEAD_SIZE + PAGE_SIZE - 1) div PAGE_SIZE * PAGE_SIZE"
  have r: "off + len - ?s \<le> ?r" by (rule order_trans [OF max.cobounded1 round_up_page])
  have s: "?s \<le> off" by simp
  have "off + len - ?s \<le> min ?r (length file - ?s)"
    by (rule min.boundedI [OF r diff_le_mono [OF assms]])
  then have "off + len \<le> ?s + length (bslice ?s (?s + ?r) file)"
    unfolding length_slice diff_add_inverse le_diff_conv by (simp only: add.commute)
  then show ?thesis
    using s unfolding ra_holds_def ra_fill_def Let_def by simp
qed

lemma ra_read_fresh:
  assumes "ra_fresh file ra" and "off + len \<le> length file"
  shows "\<exists>ra'. ra_read file off len ra = (Inr (bslice off (off + len) file), ra') \<and> ra_fresh file ra'"
proof (cases "ra_holds off len ra")
  case True
  then show ?thesis using assms(1) by (simp add: ra_read_def ra_slice_fresh)
next
  case False
  then show ?thesis
    using ra_slice_fresh [OF ra_fill_fresh ra_fill_holds [OF assms(2)]] ra_fill_holds [OF assms(2), of ra]
    by (simp add: ra_read_def Let_def ra_fill_fresh)
qed

subsection \<open>All read paths compute the parser\<close>

definition to_record :: "nat \<Rightarrow> ReadError + (bytes \<times> bytes \<times> nat) \<Rightarrow> ReadError + Record" where
  "to_record off r =
     (case r of
        Inl e \<Rightarrow> Inl e
      | Inr (h, d, n) \<Rightarrow> Inr \<lparr>rec_header = h, rec_data = d, rec_offset = off, rec_len = n\<rparr>)"

text \<open>The parser on the flushed prefix, with its header fields read from the file.\<close>
lemma parse_flushed:
  assumes "off + 8 \<le> flushed" and "flushed \<le> length file"
  shows "to_record off (parse_record_parts crc H (take flushed file) off) =
     (let head = bslice off (off + 8) file; raw = u32_of_le (take 4 head); n = unat (raw AND LENGTH_MASK)
      in if is_truncation_marker head then Inl (TruncationMarker off)
         else if has_unknown_flags raw then Inl (Corrupt off)
         else if off + 8 + n > flushed then Inl (OutOfBounds off (8 + n) flushed)
         else finish_record crc H (take 4 head) (u32_of_le (bslice 4 8 head)) (raw AND CONTROL_FLAG \<noteq> 0)
                (bslice (off + 8) (off + 8 + n) file) off)"
proof -
  have l: "off + 8 \<le> length (take flushed file)" using assms by simp
  define b where "b = drop off (take flushed file)"
  have head: "bslice off (off + 8) file = take 8 b"
    using assms by (simp add: b_def bslice_def drop_take min_def)
  have h4: "take 4 (take 8 b) = take 4 b" and h8: "bslice 4 8 (take 8 b) = bslice 4 8 b"
    by (simp_all add: slice_take)
  define raw where "raw = u32_of_le (take 4 b)"
  define n where "n = unat (raw AND LENGTH_MASK)"
  have g: "8 + n > length b \<longleftrightarrow> off + 8 + n > flushed" using assms by (auto simp: b_def)
  have lf: "length (take flushed file) = flushed" using assms by simp
  have pl: "bslice (off + 8) (off + 8 + n) file = bslice 8 (8 + n) b" "length (bslice 8 (8 + n) b) = n"
    if "\<not> off + 8 + n > flushed"
    using that assms by (auto simp: b_def bslice_def drop_take min_def add.commute)
  show ?thesis
    unfolding parse_record_parts_drop [OF l] head h4 h8 Let_def lf b_def [symmetric] raw_def [symmetric]
      n_def [symmetric] g
    using pl
    by (auto simp: to_record_def finish_record_def Let_def calculate_crc32c_def RECORD_HEAD_SIZE_8
        simp del: length_slice)
qed

lemma read_sequential_parse:
  assumes "ra_fresh file ra" and "off + 8 \<le> flushed" and "flushed \<le> length file"
  shows "\<exists>ra'. read_record_sequential crc H file off flushed ra
            = (to_record off (parse_record_parts crc H (take flushed file) off), ra') \<and> ra_fresh file ra'"
proof -
  obtain ra1 where ra1: "ra_read file off 8 ra = (Inr (bslice off (off + 8) file), ra1)" "ra_fresh file ra1"
    using ra_read_fresh [OF assms(1), of off 8] assms by auto
  define head where "head = bslice off (off + 8) file"
  define n where "n = unat (u32_of_le (take 4 head) AND LENGTH_MASK)"
  have hl: "take 8 head = head" by (simp add: head_def)
  show ?thesis
  proof (cases "off + 8 + n > flushed")
    case True
    then show ?thesis
      using ra1 unfolding parse_flushed [OF assms(2,3)]
      by (auto simp: read_record_sequential_def RECORD_HEAD_SIZE_8 LEN_SIZE_def CRC32C_SIZE_def Let_def
          head_def [symmetric] hl n_def [symmetric])
  next
    case False
    then have "off + 8 + n \<le> length file" using assms by simp
    from ra_read_fresh [OF ra1(2) this] obtain ra2 where
      ra2: "ra_read file (off + 8) n ra1 = (Inr (bslice (off + 8) (off + 8 + n) file), ra2)" "ra_fresh file ra2"
      by blast
    show ?thesis
      using ra1 ra2 False unfolding parse_flushed [OF assms(2,3)]
      by (auto simp: read_record_sequential_def RECORD_HEAD_SIZE_8 LEN_SIZE_def CRC32C_SIZE_def Let_def
          head_def [symmetric] hl n_def [symmetric])
  qed
qed

lemma read_random_parse:
  assumes "off + 8 \<le> flushed" and "flushed \<le> length file"
  shows "read_record_random crc H file off flushed
         = to_record off (parse_record_parts crc H (take flushed file) off)"
proof -
  define m where "m = min (8 + 2048) (flushed - off)"
  define head where "head = bslice off (off + 8) file"
  define n where "n = unat (u32_of_le (take 4 head) AND LENGTH_MASK)"
  have m: "8 \<le> m" "off + m \<le> length file" using assms by (auto simp: m_def)
  have hd: "take 8 (bslice off (off + m) file) = head"
    using m by (simp add: head_def bslice_def min_def)
  have pl: "bslice 8 (8 + n) (bslice off (off + m) file) = bslice (off + 8) (off + 8 + n) file"
    if "8 + n \<le> m"
    using that bslice_bslice [of "8 + n" "off + m" off 8 "file"] by (simp add: add.assoc)
  show ?thesis
    unfolding parse_flushed [OF assms]
    using m pl assms(2)
    by (auto simp: read_record_random_def RECORD_HEAD_SIZE_8 LEN_SIZE_def CRC32C_SIZE_def
        OPTIMISTIC_DATA_SIZE_def Let_def file_read_exact_at_def m_def [symmetric, simplified] hd
        head_def [symmetric] n_def [symmetric])
qed

lemma frame_at_flushed:
  assumes "off + 8 \<le> flushed" and "flushed \<le> length file"
  shows "frame_at crc (drop off (take flushed file)) =
     (let head = bslice off (off + 8) file; raw = u32_of_le (take 4 head); n = unat (raw AND LENGTH_MASK);
          p = bslice (off + 8) (off + 8 + n) file
      in if is_truncation_marker head \<or> has_unknown_flags raw \<or> off + 8 + n > flushed \<or>
            crc (take 4 head @ p) \<noteq> u32_of_le (bslice 4 8 head)
         then None else Some (Frame (raw AND CONTROL_FLAG \<noteq> 0) p))"
proof -
  define b where "b = drop off (take flushed file)"
  have head: "bslice off (off + 8) file = take 8 b"
    using assms by (simp add: b_def bslice_def drop_take min_def)
  have h4: "take 4 (take 8 b) = take 4 b" and h8: "bslice 4 8 (take 8 b) = bslice 4 8 b"
    by (simp_all add: slice_take)
  define raw where "raw = u32_of_le (take 4 b)"
  define n where "n = unat (raw AND LENGTH_MASK)"
  have g: "8 + n > length b \<longleftrightarrow> off + 8 + n > flushed" and l8: "\<not> length b < 8" using assms by (auto simp: b_def)
  have pl: "bslice (off + 8) (off + 8 + n) file = bslice 8 (8 + n) b" if "\<not> off + 8 + n > flushed"
    using that by (auto simp: b_def bslice_def drop_take min_def add.commute)
  show ?thesis
    unfolding frame_at_def head h4 h8 Let_def RECORD_HEAD_SIZE_8 b_def [symmetric] raw_def [symmetric]
      n_def [symmetric] g
    using pl l8 by auto
qed

lemma control_len_at_frame:
  assumes "ra_fresh file ra" and "flushed \<le> length file"
  shows "\<exists>ra'. control_len_at crc file flushed off ra =
           (case frame_at crc (drop off (take flushed file)) of
              Some f \<Rightarrow> if is_ctl f then Some (frame_len f) else None
            | None \<Rightarrow> None, ra') \<and> ra_fresh file ra'"
proof (cases "off + 8 \<le> flushed")
  case False
  then have "length (drop off (take flushed file)) < 8" by auto
  then show ?thesis
    using assms False by (simp add: control_len_at_def RECORD_HEAD_SIZE_8 frame_at_def)
next
  case True
  obtain ra1 where ra1: "ra_read file off 8 ra = (Inr (bslice off (off + 8) file), ra1)" "ra_fresh file ra1"
    using ra_read_fresh [OF assms(1), of off 8] True assms(2) by auto
  define head where "head = bslice off (off + 8) file"
  define raw where "raw = u32_of_le (take 4 head)"
  define n where "n = unat (raw AND LENGTH_MASK)"
  have "length (take 4 head) = 4" using True assms(2) by (simp add: head_def)
  then have rl: "u32_le raw = take 4 head" by (simp add: raw_def u32_le_u32_of_le)
  note fr = frame_at_flushed [OF True assms(2), of crc, unfolded Let_def head_def [symmetric] raw_def [symmetric] n_def [symmetric]]
  show ?thesis
  proof (cases "off + 8 + n > flushed")
    case big: True
    then show ?thesis
      using ra1 True unfolding fr
      by (auto simp: control_len_at_def RECORD_HEAD_SIZE_8 LEN_SIZE_def Let_def head_def [symmetric]
          raw_def [symmetric] n_def [symmetric] add.assoc)
  next
    case fit: False
    then have "off + 8 + n \<le> length file" using assms(2) by simp
    from ra_read_fresh [OF ra1(2) this] obtain ra2 where
      ra2: "ra_read file (off + 8) n ra1 = (Inr (bslice (off + 8) (off + 8 + n) file), ra2)" "ra_fresh file ra2"
      by blast
    have len: "length (bslice (off + 8) (off + (8 + n)) file) = n" using fit assms(2) by simp
    show ?thesis
      using ra1 ra2 True fit unfolding fr
      by (auto simp: control_len_at_def RECORD_HEAD_SIZE_8 LEN_SIZE_def Let_def head_def [symmetric]
          raw_def [symmetric] n_def [symmetric] add.assoc calculate_crc32c_def rl frame_len_def len
          simp del: length_slice)
  qed
qed

lemma read_record_parse:
  assumes "ra_fresh file ra" and "flushed \<le> length file"
  shows "\<exists>ra'. read_record crc H file flushed off hint ra
            = (to_record off (parse_record_parts crc H (take flushed file) off), ra') \<and> ra_fresh file ra'"
proof (cases "off + 8 \<le> flushed")
  case True
  then show ?thesis
    using read_sequential_parse [OF assms(1) True assms(2)] read_random_parse [OF True assms(2)] assms(1)
    by (cases hint) (simp_all add: read_record_def RECORD_HEAD_SIZE_8)
next
  case False
  then show ?thesis
    using assms by (simp add: read_record_def RECORD_HEAD_SIZE_8 parse_record_parts_def to_record_def)
qed

subsection \<open>Properties\<close>

text \<open>
  One framing for every read path: with the flushed offset inside the file and a read-ahead buffer
  that copies the file, \<open>read_record\<close> returns, under either hint and for every payload size, exactly what
  the pure parser returns on the flushed prefix of the file (the same record, or the same error), and the
  buffer stays a copy. So the optimistic, fallback, allocating and buffered paths cannot disagree.
\<close>
theorem read_record_is_parse:
  assumes "ra_fresh file ra" and "flushed \<le> length file"
  shows "\<exists>ra'. read_record crc H file flushed off hint ra
            = (to_record off (parse_record_parts crc H (take flushed file) off), ra') \<and> ra_fresh file ra'"
  using assms by (rule read_record_parse)

theorem read_record_is_parse_witness:
  "\<exists>ra'. read_record crc_demo 1 (frame_bytes crc_demo (Frame False [5, 6]) @ replicate 10 0) 10 0 Sequential
       ReadAheadBuf_new = (Inr \<lparr>rec_header = [5], rec_data = [6], rec_offset = 0, rec_len = 10\<rparr>, ra')"
proof -
  let ?file = "frame_bytes crc_demo (Frame False [5, 6]) @ replicate 10 0"
  have "to_record 0 (parse_record_parts crc_demo 1 (take 10 ?file) 0)
        = Inr \<lparr>rec_header = [5], rec_data = [6], rec_offset = 0, rec_len = 10\<rparr>"
    by code_simp
  moreover have "10 \<le> length ?file" by code_simp
  ultimately show ?thesis
    using read_record_is_parse [OF ra_fresh_new [of ?file], of 10 crc_demo 1 0 Sequential] by auto
qed

lemma read_record_Inr:
  assumes "ra_fresh file ra" and "flushed \<le> length file"
    and "read_record crc H file flushed off hint ra = (Inr r, ra')"
  shows "ra_fresh file ra'" and "frame_at crc (drop off (take flushed file)) = Some (Frame False (rec_header r @ rec_data r))"
    and "length (rec_header r) = H" and "rec_len r = RECORD_HEAD_SIZE + H + length (rec_data r)"
    and "off + rec_len r \<le> flushed" and "rec_offset r = off"
proof -
  have p: "to_record off (parse_record_parts crc H (take flushed file) off) = Inr r" and fr: "ra_fresh file ra'"
    using read_record_parse [OF assms(1,2), of crc H off hint] assms(3) by auto
  show "ra_fresh file ra'" by (rule fr)
  from p have pr: "parse_record_parts crc H (take flushed file) off = Inr (rec_header r, rec_data r, rec_len r)"
    and off: "rec_offset r = off"
    by (auto simp: to_record_def split: sum.splits)
  note q = parse_record_parts_Inr [OF pr]
  show "frame_at crc (drop off (take flushed file)) = Some (Frame False (rec_header r @ rec_data r))"
    and "length (rec_header r) = H" and "rec_len r = RECORD_HEAD_SIZE + H + length (rec_data r)"
    and "off + rec_len r \<le> flushed" and "rec_offset r = off"
    using q off by simp_all
qed

lemma ra_fresh_overwrite:
  assumes "ra_fresh file ra" and "off + length bs \<le> length file" and "off0 \<le> off" and "off + length bs \<le> off0 + n"
  shows "ra_fresh (overwrite off bs file) (if ra_overlaps off0 n ra then ra_invalidate ra else ra)"
proof (cases "ra_buf ra = [] \<or> ra_overlaps off0 n ra")
  case True
  then show ?thesis by (auto simp: ra_fresh_def ra_invalidate_def ra_overlaps_def)
next
  case False
  then have "ra_offset ra + length (ra_buf ra) \<le> off \<or> off + length bs \<le> ra_offset ra"
    using assms by (auto simp: ra_overlaps_def)
  then show ?thesis
    using False assms(1,2) slice_overwrite_before [of "ra_offset ra + length (ra_buf ra)" off "file" "ra_offset ra" bs]
      slice_overwrite_after [of off bs "ra_offset ra" "file" "ra_offset ra + length (ra_buf ra)"]
    by (auto simp: ra_fresh_def)
qed

lemma frame_bytes_data_split:
  assumes "length (h @ d) \<le> MAX_RECORD_LEN" and "length h' = length h"
  shows "frame_bytes crc (Frame False (h' @ d)) =
         overwrite 4 (u32_le (crc (le_bytes 4 (length (h @ d)) @ h' @ d)) @ h') (frame_bytes crc (Frame False (h @ d)))"
  using assms frame_bytes_data [of "h @ d" crc] frame_bytes_data [of "h' @ d" crc]
  by (simp add: overwrite_def)

lemma frame_at_replaced:
  assumes "frame_at crc (drop off (take flushed file)) = Some (Frame False (h @ d))"
    and "length h' = length h" and "flushed \<le> length file"
  shows "frame_at crc (drop off (take flushed
           (overwrite (off + 4) (u32_le (crc (le_bytes 4 (length (h @ d)) @ h' @ d)) @ h') file)))
         = Some (Frame False (h' @ d))"
proof -
  let ?wb = "u32_le (crc (le_bytes 4 (length (h @ d)) @ h' @ d)) @ h'"
  let ?b = "drop off (take flushed file)" and ?f = "Frame False (h @ d)"
  note fr = frame_at_SomeD [OF assms(1)]
  have fit: "off + 8 + length h + length d \<le> flushed"
    using fr(3) assms(3) by (simp add: frame_len_def RECORD_HEAD_SIZE_8)
  have small: "length (h @ d) \<le> MAX_RECORD_LEN" using fr(2) by (simp add: frame_ok_def)
  have "drop off (take flushed (overwrite (off + 4) ?wb file)) = overwrite 4 ?wb ?b"
    using fit assms(2,3) by (subst drop_take_overwrite) auto
  also have "\<dots> = overwrite 4 ?wb (frame_bytes crc ?f @ drop (frame_len ?f) ?b)"
    using fr(1) by (rule arg_cong)
  also have "\<dots> = overwrite 4 ?wb (frame_bytes crc ?f) @ drop (frame_len ?f) ?b"
    using assms(2) by (simp add: overwrite_def frame_len_def RECORD_HEAD_SIZE_8)
  also have "overwrite 4 ?wb (frame_bytes crc ?f) = frame_bytes crc (Frame False (h' @ d))"
    using frame_bytes_data_split [OF small assms(2), of crc] by simp
  finally have "drop off (take flushed (overwrite (off + 4) ?wb file))
                = frame_bytes crc (Frame False (h' @ d)) @ drop (frame_len ?f) ?b" .
  moreover have "frame_ok crc (Frame False (h' @ d))" using fr(2) assms(2) by (auto simp: frame_ok_def)
  ultimately show ?thesis by (simp add: frame_at_frame_bytes)
qed

text \<open>
  Replacing a record's header in place keeps the record valid: if the record at the offset reads back
  and the closure returns a header of the right size, then after \<open>replace_header_with\<close> the same offset reads
  back as the new header with the untouched data, every byte before the checksum and from the data on is
  unchanged, and the read-ahead buffer never holds a stale copy.
\<close>
theorem replace_header_reads_back:
  assumes "ra_fresh file ra" and "flushed \<le> length file"
    and "read_record crc H file flushed off Random ra = (Inr r, ra1)"
    and "f r = Some new_header" and "length new_header = H"
    and "replace_header_with crc H flushed off f (file, ra) = (res, (file', ra'))"
  shows "res = Inr True \<and> ra_fresh file' ra' \<and> length file' = length file \<and>
         take (off + LEN_SIZE) file' = take (off + LEN_SIZE) file \<and>
         drop (off + RECORD_HEAD_SIZE + H) file' = drop (off + RECORD_HEAD_SIZE + H) file \<and>
         (\<exists>ra''. read_record crc H file' flushed off hint ra' =
            (Inr (r\<lparr>rec_header := new_header\<rparr>), ra''))"
proof -
  note rd = read_record_Inr [OF assms(1,2,3)]
  let ?h = "rec_header r" and ?d = "rec_data r"
  let ?wb = "u32_le (crc (le_bytes 4 (length (?h @ ?d)) @ new_header @ ?d)) @ new_header"
  have file': "file' = overwrite (off + 4) ?wb file"
    and ra': "ra' = (if ra_overlaps off (rec_len r) ra1 then ra_invalidate ra1 else ra1)"
    and res: "res = Inr True"
    using assms(3,4,6) rd(3,4) by (auto simp: replace_header_with_def Let_def calculate_crc32c_def LEN_SIZE_def add.assoc)
  have lw: "off + 4 + length ?wb = off + RECORD_HEAD_SIZE + H" using assms(5) by (simp add: RECORD_HEAD_SIZE_8)
  have fit: "off + RECORD_HEAD_SIZE + H \<le> length file" using rd(4,5) assms(2) by simp
  have fresh: "ra_fresh file' ra'"
    unfolding file' ra' by (rule ra_fresh_overwrite [OF rd(1)]) (use lw fit rd(4) in auto)
  have len: "length file' = length file" using lw fit by (simp add: file')
  have "frame_at crc (drop off (take flushed file')) = Some (Frame False (new_header @ ?d))"
    unfolding file' using rd assms(2,5) by (intro frame_at_replaced) auto
  then have "to_record off (parse_record_parts crc H (take flushed file') off) = Inr (r\<lparr>rec_header := new_header\<rparr>)"
    using parse_record_parts_frame [of crc off "take flushed file'"] rd(3,4,6) assms(5)
    by (simp add: to_record_def frame_len_def)
  then have "\<exists>ra''. read_record crc H file' flushed off hint ra' = (Inr (r\<lparr>rec_header := new_header\<rparr>), ra'')"
    using read_record_parse [OF fresh, of flushed crc H off hint] assms(2) len by auto
  moreover have "take (off + LEN_SIZE) file' = take (off + LEN_SIZE) file"
    using fit by (simp add: file' LEN_SIZE_def take_overwrite RECORD_HEAD_SIZE_8)
  moreover have "drop (off + RECORD_HEAD_SIZE + H) file' = drop (off + RECORD_HEAD_SIZE + H) file"
    using lw fit unfolding file' by (intro drop_overwrite) auto
  ultimately show ?thesis using res fresh len by blast
qed

theorem replace_header_reads_back_witness:
  "\<exists>r ra1 file' ra'. let file = frame_bytes crc_demo (Frame False [5, 6]) @ replicate 10 0 in
     read_record crc_demo 1 file 10 0 Random ReadAheadBuf_new = (Inr r, ra1) \<and>
     replace_header_with crc_demo 1 10 0 (\<lambda>_. Some [9]) (file, ReadAheadBuf_new) = (Inr True, (file', ra')) \<and>
     (\<exists>ra''. read_record crc_demo 1 file' 10 0 Sequential ra' = (Inr (r\<lparr>rec_header := [9]\<rparr>), ra''))"
proof -
  let ?file = "frame_bytes crc_demo (Frame False [5, 6]) @ replicate 10 0"
  let ?r = "\<lparr>rec_header = [5], rec_data = [6], rec_offset = 0, rec_len = 10\<rparr>"
  have rd: "read_record crc_demo 1 ?file 10 0 Random ReadAheadBuf_new = (Inr ?r, ReadAheadBuf_new)"
    by code_simp
  obtain res file' ra' where
    rp: "replace_header_with crc_demo 1 10 0 (\<lambda>_. Some [9]) (?file, ReadAheadBuf_new) = (res, (file', ra'))"
    by (metis surj_pair)
  have "10 \<le> length ?file" by code_simp
  from replace_header_reads_back [OF ra_fresh_new this rd _ _ rp, of "[9]" Sequential] show ?thesis
    using rd rp unfolding Let_def by auto
qed

end
