(* ===== verification/SegmentSet.thy ===== *)
theory SegmentSet
  imports LogHeader SegWriter SegReader
begin

text \<open>
  The segment set (\<open>crates/tephra/src/log/set.rs\<close>): configuration, segment file names, opening with
  recovery and contiguity checks, appending batches with rollover, point reads and segment lookup.

  A \<open>Segment\<close> carries the file it names: for a sealed segment the file no longer changes, for the active
  one \<open>share\<close> refreshes the file and the shared flushed offset from the writer after every operation on
  it. A directory is the list of its file names and contents, and a path is the file's name. I/O
  outcomes of writing, syncing and creating come from the writer's fault schedule; listing, deleting and
  reading files succeed. The two \<open>expect\<close>s on \<open>u32\<close> offsets are the error \<open>LogPanic\<close>.
\<close>

subsection \<open>Configuration\<close>

definition FIRST_POSITION :: nat where "FIRST_POSITION = 1"
definition NAME_DIGITS :: nat where "NAME_DIGITS = 20"
definition RECORD_OVERHEAD :: nat where "RECORD_OVERHEAD = RECORD_HEAD_SIZE"
definition BATCH_OVERHEAD :: nat where "BATCH_OVERHEAD = RECORD_HEAD_SIZE + COMMIT_MARKER_PAYLOAD"

record SegmentConfig =
  segment_size :: nat
  max_record_len :: nat
  header_size :: nat

datatype InvalidReason =
    SizeBelowHeader nat nat
  | SizeAboveU32 nat
  | MaxRecordBelowHead nat
  | MaxRecordAboveUsable nat nat

datatype LogError =
    InvalidConfig InvalidReason
  | LogIo string
  | LogHeaderError string HeaderError
  | BasePositionMismatch string Position Position
  | UnwrittenNonLast string
  | NonContiguous string Position Position
  | PositionMismatch string Position Position
  | RecordTooLarge nat nat
  | BatchTooLarge nat nat
  | EmptyBatch
  | EmptyRecord
  | NotFound Position
  | LogWrite string WriteError
  | LogRead string ReadError
  | LogPanic

definition SegmentConfig_new :: "nat \<Rightarrow> SegmentConfig" where
  "SegmentConfig_new sz =
     \<lparr>segment_size = sz, max_record_len = sz div 4, header_size = SEGMENT_HEADER_SIZE\<rparr>"

definition SegmentConfig_validate :: "SegmentConfig \<Rightarrow> LogError + unit" where
  "SegmentConfig_validate c =
     (if segment_size c \<le> header_size c
      then Inl (InvalidConfig (SizeBelowHeader (segment_size c) (header_size c)))
      else if segment_size c > U32_MAX then Inl (InvalidConfig (SizeAboveU32 (segment_size c)))
      else if max_record_len c < RECORD_HEAD_SIZE
      then Inl (InvalidConfig (MaxRecordBelowHead (max_record_len c)))
      else
        let usable = segment_size c - header_size c;
            need = max_record_len c + RECORD_HEAD_SIZE + COMMIT_MARKER_PAYLOAD
        in if need > usable then Inl (InvalidConfig (MaxRecordAboveUsable need usable)) else Inr ())"

subsection \<open>Segment file names\<close>

definition digit_char :: "nat \<Rightarrow> char" where
  "digit_char d = char_of (48 + d)"

fun decimal :: "nat \<Rightarrow> string" where
  "decimal n = (if n < 10 then [digit_char n] else decimal (n div 10) @ [digit_char (n mod 10)])"

declare decimal.simps [simp del]

definition segment_file_name :: "Position \<Rightarrow> string" where
  "segment_file_name base =
     (let d = decimal base in replicate (NAME_DIGITS - length d) (digit_char 0) @ d @ ''.log'')"

definition is_ascii_digit :: "char \<Rightarrow> bool" where
  "is_ascii_digit c \<longleftrightarrow> 48 \<le> (of_char c :: nat) \<and> (of_char c :: nat) \<le> 57"

definition digits_value :: "string \<Rightarrow> nat" where
  "digits_value s = foldl (\<lambda>n c. 10 * n + (of_char c - 48)) 0 s"

definition strip_suffix :: "string \<Rightarrow> string \<Rightarrow> string option" where
  "strip_suffix suf s = (if suffix suf s then Some (take (length s - length suf) s) else None)"

definition parse_base_position :: "string \<Rightarrow> Position option" where
  "parse_base_position name =
     (case strip_suffix ''.log'' name of
        None \<Rightarrow> None
      | Some stem \<Rightarrow>
          if length stem \<noteq> NAME_DIGITS \<or> \<not> list_all is_ascii_digit stem then None
          else if digits_value stem \<le> U64_MAX then Some (digits_value stem) else None)"

subsection \<open>Segments and the set\<close>

record Segment =
  seg_base :: Position
  seg_path :: string
  seg_flushed :: "nat option"
  offsets :: "nat list"
  seg_file :: bytes

record SegmentSet =
  config :: SegmentConfig
  sealed :: "Segment list"
  active :: Segment
  active_writer :: Writer
  next_position :: Position
  dir_names :: "string list"

text \<open>A record read back out of the log.\<close>
record LogRecord =
  position :: Position
  rdata :: bytes

definition event_count :: "Segment \<Rightarrow> nat" where
  "event_count seg = length (offsets seg)"

definition seg_data_offset :: "Segment \<Rightarrow> nat \<Rightarrow> nat option" where
  "seg_data_offset seg local = (if local < length (offsets seg) then Some (offsets seg ! local) else None)"

text \<open>The flushed offset a reader opened on the segment uses.\<close>
definition reader_flushed :: "Segment \<Rightarrow> nat" where
  "reader_flushed seg = (case seg_flushed seg of Some f \<Rightarrow> f | None \<Rightarrow> length (seg_file seg))"

definition read_at_local :: "crc_fun \<Rightarrow> Segment \<Rightarrow> nat \<Rightarrow> LogError + LogRecord option" where
  "read_at_local crc seg local =
     (case seg_data_offset seg local of
        None \<Rightarrow> Inr None
      | Some off \<Rightarrow>
          (case fst (read_record crc 0 (seg_file seg) (reader_flushed seg) off Random ReadAheadBuf_new) of
             Inl e \<Rightarrow> Inl (LogRead (seg_path seg) e)
           | Inr r \<Rightarrow> Inr (Some \<lparr>position = seg_base seg + local, rdata = rec_data r\<rparr>)))"

text \<open>The active segment shares its file and flushed offset with the writer.\<close>
definition share :: "Writer \<Rightarrow> Segment \<Rightarrow> Segment" where
  "share w seg = seg\<lparr>seg_file := content w, seg_flushed := Some (flushed_offset w)\<rparr>"

definition configure_writer :: "SegmentConfig \<Rightarrow> Writer \<Rightarrow> Writer" where
  "configure_writer c w = set_max_record (max_record_len c) w"

text \<open>
  \<open>create_segment\<close>: the result, whether a file of that name now exists, and the rest of the schedule.
  The schedule's first five entries are those of \<open>Writer::create\<close>, then the header write and its sync.
\<close>
definition create_segment ::
  "crc_fun \<Rightarrow> nat \<Rightarrow> SegmentConfig \<Rightarrow> Position \<Rightarrow> string list \<Rightarrow> nat option list
     \<Rightarrow> (LogError + (Writer \<times> Segment)) \<times> string list" where
  "create_segment crc now c base names fs =
     (let path = segment_file_name base
      in if path \<in> set names then (Inl (LogWrite path WIo), names)
         else case Writer_create (segment_size c) (header_size c) fs of
           Inl e \<Rightarrow>
             (Inl (LogWrite path e),
              if segment_size c \<le> header_size c \<or> (case fs of Some _ # _ \<Rightarrow> True | _ \<Rightarrow> False)
              then names else path # names)
         | Inr w \<Rightarrow>
             let w = configure_writer c w;
                 header = SegmentHeader_to_bytes crc (SegmentHeader_new now base)
             in (case write_all_at header 0 w of
                   (Inl _, _) \<Rightarrow> (Inl (LogIo path), path # names)
                 | (Inr _, w) \<Rightarrow>
                     (case file_op w of
                        (Inl _, _) \<Rightarrow> (Inl (LogIo path), path # names)
                      | (Inr _, w) \<Rightarrow>
                          (Inr (w, share w \<lparr>seg_base = base, seg_path = path,
                                            seg_flushed = Some (flushed_offset w), offsets = [],
                                            seg_file = content w\<rparr>),
                           path # names))))"

definition rollover :: "crc_fun \<Rightarrow> nat \<Rightarrow> SegmentSet \<Rightarrow> (LogError + unit) \<times> SegmentSet" where
  "rollover crc now S =
     (case sync (active_writer S) of
        (Inl e, w) \<Rightarrow>
          (Inl (LogWrite (seg_path (active S)) e), S\<lparr>active_writer := w, active := share w (active S)\<rparr>)
      | (Inr _, w) \<Rightarrow>
          let S = S\<lparr>active_writer := w, active := share w (active S)\<rparr>
          in (case create_segment crc now (config S) (next_position S) (dir_names S) (faults w) of
                (Inl e, names) \<Rightarrow>
                  (Inl e, S\<lparr>dir_names := names, active_writer := w\<lparr>faults := drop 7 (faults w)\<rparr>\<rparr>)
              | (Inr (writer, new_active), names) \<Rightarrow>
                  (Inr (), S\<lparr>sealed := sealed S @ [active S], active := new_active,
                            active_writer := writer, dir_names := names\<rparr>)))"

text \<open>The record checks of \<open>append_batch\<close>, in order.\<close>
fun check_records :: "SegmentConfig \<Rightarrow> bytes list \<Rightarrow> LogError + unit" where
  "check_records c [] = Inr ()"
| "check_records c (r # rs) =
     (if r = [] then Inl EmptyRecord
      else let record_len = RECORD_HEAD_SIZE + length r
           in if record_len > max_record_len c then Inl (RecordTooLarge record_len (max_record_len c))
              else check_records c rs)"

text \<open>The appending closure of \<open>append_batch\<close>: the offsets of the records written.\<close>
fun append_records ::
  "crc_fun \<Rightarrow> string \<Rightarrow> bytes list \<Rightarrow> Writer \<Rightarrow> (LogError + nat list) \<times> Writer" where
  "append_records crc path [] w = (Inr [], w)"
| "append_records crc path (r # rs) w =
     (case append crc [] r w of
        (Inl e, w) \<Rightarrow> (Inl (LogWrite path e), w)
      | (Inr (off, _), w) \<Rightarrow>
          if off > U32_MAX then (Inl LogPanic, w)
          else (case append_records crc path rs w of
                  (Inl e, w) \<Rightarrow> (Inl e, w)
                | (Inr offs, w) \<Rightarrow> (Inr (off # offs), w)))"

definition write_batch ::
  "crc_fun \<Rightarrow> string \<Rightarrow> bytes list \<Rightarrow> Position \<Rightarrow> Writer \<Rightarrow> (LogError + nat list) \<times> Writer" where
  "write_batch crc path records last_pos w =
     (case append_records crc path records w of
        (Inl e, w) \<Rightarrow> (Inl e, w)
      | (Inr offs, w) \<Rightarrow>
          (case commit crc last_pos w of
             (Inl e, w) \<Rightarrow> (Inl (LogWrite path e), w)
           | (Inr _, w) \<Rightarrow> (Inr offs, w)))"

definition batch_total :: "bytes list \<Rightarrow> nat" where
  "batch_total records =
     sum_list (map (\<lambda>r. RECORD_HEAD_SIZE + length r) records) + RECORD_HEAD_SIZE + COMMIT_MARKER_PAYLOAD"

text \<open>Steps 4 to 6 of \<open>append_batch\<close>, after any rollover.\<close>
definition append_active ::
  "crc_fun \<Rightarrow> bytes list \<Rightarrow> SegmentSet \<Rightarrow> (LogError + (Position \<times> Position)) \<times> SegmentSet" where
  "append_active crc records S =
     (let first = next_position S;
          last_pos = first + length records - 1;
          rewind = write_offset (active_writer S);
          path = seg_path (active S)
      in case write_batch crc path records last_pos (active_writer S) of
           (Inl err, w) \<Rightarrow>
             (case rewind_to rewind w of
                (Inl e, w) \<Rightarrow> (Inl (LogWrite path e), S\<lparr>active_writer := w, active := share w (active S)\<rparr>)
              | (Inr _, w) \<Rightarrow> (Inl err, S\<lparr>active_writer := w, active := share w (active S)\<rparr>))
         | (Inr new_offsets, w) \<Rightarrow>
             (Inr (first, last_pos),
              S\<lparr>active_writer := w,
                active := share w ((active S)\<lparr>offsets := offsets (active S) @ new_offsets\<rparr>),
                next_position := last_pos + 1\<rparr>))"

definition set_append_batch ::
  "crc_fun \<Rightarrow> nat \<Rightarrow> bytes list \<Rightarrow> SegmentSet \<Rightarrow> (LogError + (Position \<times> Position)) \<times> SegmentSet" where
  "set_append_batch crc now records S =
     (if records = [] then (Inl EmptyBatch, S)
      else case check_records (config S) records of
        Inl e \<Rightarrow> (Inl e, S)
      | Inr _ \<Rightarrow>
          let total_size = batch_total records;
              capacity = segment_size (config S) - header_size (config S)
          in if total_size > capacity then (Inl (BatchTooLarge total_size capacity), S)
             else if total_size > remaining_bytes (active_writer S)
             then (case rollover crc now S of
                     (Inl e, S) \<Rightarrow> (Inl e, S)
                   | (Inr _, S) \<Rightarrow> append_active crc records S)
             else append_active crc records S)"

subsection \<open>Segment lookup\<close>

text \<open>
  A \<open>SegmentSource\<close>: the header size and the segments in logical order, sealed ones first and the active
  one last, so the segment count of the trait (the index of the active one) is the list's length minus 1.
\<close>
record SegmentSource =
  src_header_size :: nat
  src_segments :: "Segment list"

definition segment_count :: "SegmentSource \<Rightarrow> nat" where
  "segment_count src = length (src_segments src) - 1"

definition segment_at :: "SegmentSource \<Rightarrow> nat \<Rightarrow> Segment option" where
  "segment_at src idx = (if idx < length (src_segments src) then Some (src_segments src ! idx) else None)"

definition set_source :: "SegmentSet \<Rightarrow> SegmentSource" where
  "set_source S = \<lparr>src_header_size = header_size (config S), src_segments = sealed S @ [active S]\<rparr>"

text \<open>The binary search of \<open>locate\<close>; \<open>None\<close> inside is the \<open>?\<close> on a missing segment.\<close>
function locate_search ::
  "(nat \<Rightarrow> Segment option) \<Rightarrow> Position \<Rightarrow> nat \<Rightarrow> nat \<Rightarrow> nat option \<Rightarrow> nat option option" where
  "locate_search at pos lo hi found =
     (if lo < hi
      then let mid = lo + (hi - lo) div 2
           in case at mid of
                None \<Rightarrow> None
              | Some seg \<Rightarrow>
                  if seg_base seg \<le> pos then locate_search at pos (mid + 1) hi (Some mid)
                  else locate_search at pos lo mid found
      else Some found)"
  by pat_completeness auto
termination by (relation "measure (\<lambda>(at, pos, lo, hi, found). hi - lo)") auto

declare locate_search.simps [simp del]

definition locate ::
  "nat \<Rightarrow> (nat \<Rightarrow> Segment option) \<Rightarrow> Position \<Rightarrow> (nat \<times> Segment) option" where
  "locate cnt at pos =
     (if pos = Position_ZERO then None
      else
        let active_idx = cnt
        in case (case at active_idx of
                   Some act \<Rightarrow> if pos \<ge> seg_base act then Some (active_idx, act) else None
                 | None \<Rightarrow> None) of
             Some r \<Rightarrow> Some r
           | None \<Rightarrow>
               (case locate_search at pos 0 active_idx None of
                  None \<Rightarrow> None
                | Some None \<Rightarrow> None
                | Some (Some idx) \<Rightarrow> map_option (\<lambda>seg. (idx, seg)) (at idx)))"

definition src_locate :: "SegmentSource \<Rightarrow> Position \<Rightarrow> (nat \<times> Segment) option" where
  "src_locate src pos = locate (segment_count src) (segment_at src) pos"

definition segment_for :: "SegmentSet \<Rightarrow> Position \<Rightarrow> Segment option" where
  "segment_for S pos =
     (if pos \<ge> next_position S then None else map_option snd (src_locate (set_source S) pos))"

definition set_read_at :: "crc_fun \<Rightarrow> SegmentSet \<Rightarrow> Position \<Rightarrow> LogError + LogRecord" where
  "set_read_at crc S pos =
     (case segment_for S pos of
        None \<Rightarrow> Inl (NotFound pos)
      | Some seg \<Rightarrow>
          (case seg_data_offset seg (pos - seg_base seg) of
             None \<Rightarrow> Inl (NotFound pos)
           | Some off \<Rightarrow>
               (case fst (read_record crc 0 (seg_file seg) (reader_flushed seg) off Random ReadAheadBuf_new) of
                  Inl e \<Rightarrow> Inl (LogRead (seg_path seg) e)
                | Inr r \<Rightarrow> Inr \<lparr>position = pos, rdata = rec_data r\<rparr>)))"

definition set_last_position :: "SegmentSet \<Rightarrow> Position" where
  "set_last_position S = next_position S - 1"

definition segment_capacity :: "SegmentSet \<Rightarrow> nat" where
  "segment_capacity S = segment_size (config S) - header_size (config S)"

subsection \<open>Opening\<close>

text \<open>The loop of \<open>scan_offsets\<close>.\<close>
function scan_offsets_from ::
  "crc_fun \<Rightarrow> string \<Rightarrow> bytes \<Rightarrow> nat \<Rightarrow> nat \<Rightarrow> ReadAheadBuf \<Rightarrow> LogError + nat list" where
  "scan_offsets_from crc path file flushed offset ra =
     (case next_record crc 0 file flushed offset ra of
        (Inl e, _) \<Rightarrow> Inl (LogRead path e)
      | (Inr None, _) \<Rightarrow> Inr []
      | (Inr (Some r), offset', ra') \<Rightarrow>
          if rec_offset r > U32_MAX then Inl LogPanic
          else (case scan_offsets_from crc path file flushed offset' ra' of
                  Inl e \<Rightarrow> Inl e
                | Inr offs \<Rightarrow> Inr (rec_offset r # offs)))"
  by pat_completeness auto
termination
  by (relation "measure (\<lambda>(crc, path, file, flushed, offset, ra). flushed - offset)")
    (auto dest!: next_record_progress [OF sym])

declare scan_offsets_from.simps [simp del]

definition scan_offsets :: "crc_fun \<Rightarrow> string \<Rightarrow> bytes \<Rightarrow> nat option \<Rightarrow> nat \<Rightarrow> LogError + nat list" where
  "scan_offsets crc path file flushed hdr =
     scan_offsets_from crc path file (case flushed of Some f \<Rightarrow> f | None \<Rightarrow> length file) hdr ReadAheadBuf_new"

text \<open>\<open>read_header\<close>: the first 64 bytes, or \<open>None\<close> for a shorter file.\<close>
definition read_header :: "bytes \<Rightarrow> bytes option" where
  "read_header file = (if SEGMENT_HEADER_SIZE \<le> length file then Some (take SEGMENT_HEADER_SIZE file) else None)"

text \<open>Classifying one directory entry: \<open>Inr True\<close> is an unwritten segment.\<close>
definition classify_segment :: "crc_fun \<Rightarrow> Position \<Rightarrow> string \<times> bytes \<Rightarrow> LogError + bool" where
  "classify_segment crc name_base entry =
     (case entry of (path, file) \<Rightarrow>
      case read_header file of
        None \<Rightarrow> Inr True
      | Some b \<Rightarrow>
          (case SegmentHeader_from_bytes crc b of
             Inr header \<Rightarrow>
               if base_position header \<noteq> name_base
               then Inl (BasePositionMismatch path (base_position header) name_base)
               else Inr False
           | Inl Unwritten \<Rightarrow> Inr True
           | Inl e \<Rightarrow> Inl (LogHeaderError path e)))"

fun classify_all ::
  "crc_fun \<Rightarrow> (Position \<times> string \<times> bytes) list \<Rightarrow> LogError + (bool \<times> Position \<times> string \<times> bytes) list" where
  "classify_all crc [] = Inr []"
| "classify_all crc ((base, entry) # es) =
     (case classify_segment crc base entry of
        Inl e \<Rightarrow> Inl e
      | Inr u \<Rightarrow> (case classify_all crc es of Inl e \<Rightarrow> Inl e | Inr us \<Rightarrow> Inr ((u, base, entry) # us)))"

text \<open>
  Keeping the written segments: an unwritten one is dropped (deleted) when no written one follows it,
  and is an error otherwise.
\<close>
fun keep_written ::
  "(bool \<times> Position \<times> string \<times> bytes) list \<Rightarrow> LogError + (Position \<times> string \<times> bytes) list" where
  "keep_written [] = Inr []"
| "keep_written ((u, base, path, file) # es) =
     (if \<not> u
      then (case keep_written es of Inl e \<Rightarrow> Inl e | Inr vs \<Rightarrow> Inr ((base, path, file) # vs))
      else if list_all fst es then Inr []
      else Inl (UnwrittenNonLast path))"

text \<open>The loop over the sealed entries: their segments and the next expected base.\<close>
fun open_sealed ::
  "crc_fun \<Rightarrow> nat \<Rightarrow> Position \<Rightarrow> (Position \<times> string \<times> bytes) list \<Rightarrow> LogError + (Segment list \<times> Position)" where
  "open_sealed crc hdr expected [] = Inr ([], expected)"
| "open_sealed crc hdr expected ((base, path, file) # es) =
     (if base \<noteq> expected then Inl (NonContiguous path base expected)
      else case scan_offsets crc path file None hdr of
        Inl e \<Rightarrow> Inl e
      | Inr offs \<Rightarrow>
          (case open_sealed crc hdr (base + length offs) es of
             Inl e \<Rightarrow> Inl e
           | Inr (segs, nxt) \<Rightarrow>
               Inr (\<lparr>seg_base = base, seg_path = path, seg_flushed = None, offsets = offs,
                     seg_file = file\<rparr> # segs, nxt)))"

definition open_active ::
  "crc_fun \<Rightarrow> SegmentConfig \<Rightarrow> Segment list \<Rightarrow> Position \<Rightarrow> Position \<times> string \<times> bytes \<Rightarrow> string list
     \<Rightarrow> nat option list \<Rightarrow> LogError + SegmentSet" where
  "open_active crc c segs expected entry names fs =
     (case entry of (base, path, file) \<Rightarrow>
      if base \<noteq> expected then Inl (NonContiguous path base expected)
      else case Writer_open crc file (segment_size c) (header_size c) fs of
        Inl e \<Rightarrow> Inl (LogWrite path e)
      | Inr w \<Rightarrow>
          let w = configure_writer c w
          in (case scan_offsets crc path file (Some (flushed_offset w)) (header_size c) of
                Inl e \<Rightarrow> Inl e
              | Inr offs \<Rightarrow>
                  let cnt = length offs
                  in (case last_position w of
                        Some highest \<Rightarrow>
                          if highest + 1 \<noteq> base + cnt
                          then Inl (PositionMismatch path highest (base + cnt - 1))
                          else Inr \<lparr>config = c, sealed = segs,
                                    active = share w \<lparr>seg_base = base, seg_path = path,
                                               seg_flushed = Some (flushed_offset w),
                                               offsets = offs, seg_file = file\<rparr>,
                                    active_writer = w, next_position = base + cnt, dir_names = names\<rparr>
                      | None \<Rightarrow> Inr \<lparr>config = c, sealed = segs,
                                    active = share w \<lparr>seg_base = base, seg_path = path,
                                               seg_flushed = Some (flushed_offset w),
                                               offsets = offs, seg_file = file\<rparr>,
                                    active_writer = w, next_position = base + cnt, dir_names = names\<rparr>)))"

text \<open>
  \<open>SegmentSet::open\<close> on a directory listing. Entries are sorted by base; names that are not segment
  names are ignored.
\<close>
definition segment_entries :: "(string \<times> bytes) list \<Rightarrow> (Position \<times> string \<times> bytes) list" where
  "segment_entries files =
     sort_key fst (List.map_filter (\<lambda>(path, file). map_option (\<lambda>b. (b, path, file)) (parse_base_position path)) files)"

definition SegmentSet_open ::
  "crc_fun \<Rightarrow> nat \<Rightarrow> SegmentConfig \<Rightarrow> (string \<times> bytes) list \<Rightarrow> nat option list \<Rightarrow> LogError + SegmentSet" where
  "SegmentSet_open crc now c files fs =
     (case SegmentConfig_validate c of
        Inl e \<Rightarrow> Inl e
      | Inr _ \<Rightarrow>
          (case classify_all crc (segment_entries files) of
             Inl e \<Rightarrow> Inl e
           | Inr entries \<Rightarrow>
               (case keep_written entries of
                  Inl e \<Rightarrow> Inl e
                | Inr valid \<Rightarrow>
                    if valid = []
                    then (case create_segment crc now c FIRST_POSITION
                                 (filter (\<lambda>p. p \<notin> (fst \<circ> snd \<circ> snd) ` set entries) (map fst files)) fs of
                            (Inl e, _) \<Rightarrow> Inl e
                          | (Inr (w, act), names) \<Rightarrow>
                              Inr \<lparr>config = c, sealed = [], active = act, active_writer = w,
                                   next_position = FIRST_POSITION, dir_names = names\<rparr>)
                    else
                      (case open_sealed crc (header_size c) FIRST_POSITION (butlast valid) of
                         Inl e \<Rightarrow> Inl e
                       | Inr (segs, expected) \<Rightarrow>
                           open_active crc c segs expected (last valid)
                             (filter (\<lambda>p. p \<notin> (fst \<circ> snd \<circ> snd) ` {x \<in> set entries. fst x}) (map fst files))
                             fs))))"

subsection \<open>File names\<close>

lemma of_char_digit: "d < 10 \<Longrightarrow> (of_char (digit_char d) :: nat) = 48 + d"
  by (simp add: digit_char_def)

lemma is_digit_digit_char: "d < 10 \<Longrightarrow> is_ascii_digit (digit_char d)"
  by (simp add: is_ascii_digit_def of_char_digit)

lemma decimal_digits: "list_all is_ascii_digit (decimal n)"
proof (induction n rule: decimal.induct)
  case (1 n)
  then show ?case by (subst decimal.simps) (simp add: is_digit_digit_char)
qed

lemma digits_value_snoc: "digits_value (s @ [c]) = 10 * digits_value s + (of_char c - 48)"
  by (simp add: digits_value_def)

lemma digits_value_decimal: "digits_value (decimal n) = n"
proof (induction n rule: decimal.induct)
  case (1 n)
  show ?case
  proof (cases "n < 10")
    case True
    then show ?thesis by (subst decimal.simps) (simp add: digits_value_def of_char_digit)
  next
    case False
    then show ?thesis
      using 1 by (subst decimal.simps) (simp add: digits_value_snoc of_char_digit)
  qed
qed

lemma digits_value_zeros: "digits_value (replicate k (digit_char 0) @ s) = digits_value s"
proof -
  have "foldl (\<lambda>n c. 10 * n + (of_char c - 48)) 0 (replicate k (digit_char 0)) = (0 :: nat)"
    by (induction k) (simp_all add: of_char_digit)
  then show ?thesis by (simp add: digits_value_def)
qed

lemma length_decimal: "n < 10 ^ k \<Longrightarrow> 0 < k \<Longrightarrow> length (decimal n) \<le> k"
proof (induction n arbitrary: k rule: decimal.induct)
  case (1 n)
  show ?case
  proof (cases "n < 10")
    case True
    then show ?thesis using 1 by (subst decimal.simps) simp
  next
    case False
    then obtain j where k: "k = Suc j" and j: "0 < j"
      using 1(2,3) by (cases k; cases "k = 1") auto
    have "n div 10 < 10 ^ j" using 1(2) by (simp add: k less_mult_imp_div_less)
    then show ?thesis using 1(1) [OF False _ j] False by (subst decimal.simps) (simp add: k)
  qed
qed

lemma parse_segment_file_name:
  assumes "base \<le> U64_MAX"
  shows "parse_base_position (segment_file_name base) = Some base"
proof -
  let ?d = "decimal base"
  let ?stem = "replicate (NAME_DIGITS - length ?d) (digit_char 0) @ ?d"
  have "length ?d \<le> 20" using assms by (intro length_decimal) simp_all
  then have len: "length ?stem = NAME_DIGITS" by (simp add: NAME_DIGITS_def)
  have "strip_suffix ''.log'' (segment_file_name base) = Some ?stem"
    by (simp add: strip_suffix_def segment_file_name_def Let_def suffix_def)
  moreover have "list_all is_ascii_digit ?stem"
    using decimal_digits is_digit_digit_char [of 0] by (auto simp: list_all_iff)
  moreover have "digits_value ?stem = base"
    by (simp add: digits_value_zeros digits_value_decimal)
  ultimately show ?thesis using assms len by (simp add: parse_base_position_def)
qed

subsection \<open>Segment lookup as an interface\<close>

text \<open>The segment that owns a position: the last one whose base is not above it.\<close>
definition owns :: "(nat \<Rightarrow> Segment option) \<Rightarrow> nat \<Rightarrow> Segment \<Rightarrow> Position \<Rightarrow> bool" where
  "owns at i s pos \<longleftrightarrow>
     at i = Some s \<and> seg_base s \<le> pos \<and> (\<forall>j t. i < j \<longrightarrow> at j = Some t \<longrightarrow> pos < seg_base t)"

text \<open>
  What \<open>locate\<close> relies on: segments exist exactly at the indices up to the active one, and their base
  positions ascend.
\<close>
locale segment_source =
  fixes inv :: "'s \<Rightarrow> bool" and cnt :: "'s \<Rightarrow> nat" and at :: "'s \<Rightarrow> nat \<Rightarrow> Segment option"
  assumes at_iff: "inv s \<Longrightarrow> at s i \<noteq> None \<longleftrightarrow> i \<le> cnt s"
    and bases: "\<lbrakk>inv s; at s i = Some a; at s j = Some b; i \<le> j\<rbrakk> \<Longrightarrow> seg_base a \<le> seg_base b"
begin

lemma owns_unique: "\<lbrakk>owns (at src) i s pos; owns (at src) j t pos\<rbrakk> \<Longrightarrow> i = j \<and> s = t"
  unfolding owns_def by (metis leD linorder_neqE_nat option.inject)

lemma search_correct:
  assumes src: "inv src" and "hi \<le> cnt src" and "lo \<le> hi" and "found = (if lo = 0 then None else Some (lo - 1))"
    and "\<And>k s. \<lbrakk>k < lo; at src k = Some s\<rbrakk> \<Longrightarrow> seg_base s \<le> pos"
    and "\<And>k s. \<lbrakk>hi \<le> k; k < cnt src; at src k = Some s\<rbrakk> \<Longrightarrow> pos < seg_base s"
  shows "\<exists>m \<le> cnt src. locate_search (at src) pos lo hi found = Some (if m = 0 then None else Some (m - 1)) \<and>
           (\<forall>k s. k < m \<longrightarrow> at src k = Some s \<longrightarrow> seg_base s \<le> pos) \<and>
           (\<forall>k s. m \<le> k \<longrightarrow> k < cnt src \<longrightarrow> at src k = Some s \<longrightarrow> pos < seg_base s)"
  using assms(2-)
proof (induction "hi - lo" arbitrary: lo hi found rule: less_induct)
  case less
  show ?case
  proof (cases "lo < hi")
    case False
    then have "locate_search (at src) pos lo hi found = Some (if lo = 0 then None else Some (lo - 1))"
      using less.prems by (simp add: locate_search.simps)
    then show ?thesis using False less.prems by (intro exI [of _ lo]) auto
  next
    case True
    define mid where "mid = lo + (hi - lo) div 2"
    have mid: "lo \<le> mid" "mid < hi" using True by (auto simp: mid_def)
    obtain seg where seg: "at src mid = Some seg" using at_iff [OF src, of mid] mid less.prems(1) by auto
    show ?thesis
    proof (cases "seg_base seg \<le> pos")
      case le: True
      have "locate_search (at src) pos lo hi found = locate_search (at src) pos (mid + 1) hi (Some mid)"
        using True seg le by (subst locate_search.simps) (simp add: mid_def [symmetric])
      moreover have "seg_base s \<le> pos" if "k < mid + 1" "at src k = Some s" for k s
        using bases [OF src that(2) seg] that(1) le by simp
      ultimately show ?thesis
        using less.hyps [of hi "mid + 1" "Some mid"] mid less.prems(1,5) by simp
    next
      case gt: False
      have "locate_search (at src) pos lo hi found = locate_search (at src) pos lo mid found"
        using True seg gt by (subst locate_search.simps) (simp add: mid_def [symmetric])
      moreover have "pos < seg_base s" if "mid \<le> k" "at src k = Some s" for k s
        using bases [OF src seg that(2)] that(1) gt by simp
      ultimately show ?thesis
        using less.hyps [of mid lo found] mid less.prems(1,3,4) by simp
    qed
  qed
qed

lemma locate_correct:
  assumes src: "inv src"
  shows "locate (cnt src) (at src) pos = Some (i, s) \<longleftrightarrow> pos \<noteq> 0 \<and> owns (at src) i s pos"
proof (cases "pos = 0")
  case True
  then show ?thesis by (simp add: locate_def Position_ZERO_def)
next
  case nz: False
  obtain act where act: "at src (cnt src) = Some act" using at_iff [OF src, of "cnt src"] by auto
  show ?thesis
  proof (cases "seg_base act \<le> pos")
    case True
    have "owns (at src) (cnt src) act pos"
      unfolding owns_def using act True at_iff [OF src] by (metis leD option.distinct(1))
    then show ?thesis using nz act True owns_unique by (auto simp: locate_def Position_ZERO_def)
  next
    case False
    obtain m where m: "m \<le> cnt src"
      "locate_search (at src) pos 0 (cnt src) None = Some (if m = 0 then None else Some (m - 1))"
      "\<forall>k s. k < m \<longrightarrow> at src k = Some s \<longrightarrow> seg_base s \<le> pos"
      "\<forall>k s. m \<le> k \<longrightarrow> k < cnt src \<longrightarrow> at src k = Some s \<longrightarrow> pos < seg_base s"
      using search_correct [OF src, of "cnt src" 0 None pos] by auto
    have above: "pos < seg_base s" if "m \<le> k" "at src k = Some s" for k s
      using m(4) that False act at_iff [OF src, of k] by (cases "k = cnt src") auto
    have val: "locate (cnt src) (at src) pos = (if m = 0 then None else map_option (\<lambda>seg. (m - 1, seg)) (at src (m - 1)))"
      using nz act False m(2) by (simp add: locate_def Position_ZERO_def)
    show ?thesis
    proof (cases m)
      case 0
      then show ?thesis using val above by (fastforce simp: owns_def)
    next
      case (Suc k)
      then obtain s' where s': "at src k = Some s'" using at_iff [OF src, of k] m(1) by auto
      then have "owns (at src) k s' pos" unfolding owns_def using Suc m(3) above by (metis Suc_leI lessI)
      then show ?thesis using val Suc s' nz owns_unique by auto
    qed
  qed
qed

end

subsection \<open>The log a segment set holds\<close>

text \<open>The positions of the data frames in a run of frames, and their payloads.\<close>
fun data_offsets :: "nat \<Rightarrow> frame list \<Rightarrow> nat list" where
  "data_offsets cur [] = []"
| "data_offsets cur (f # fs) =
     (if is_ctl f then data_offsets (cur + frame_len f) fs
      else cur # data_offsets (cur + frame_len f) fs)"

definition payloads :: "frame list \<Rightarrow> bytes list" where
  "payloads fs = map frame_payload (filter (\<lambda>f. \<not> is_ctl f) fs)"

text \<open>The payload of the record at an offset of a file.\<close>
definition payload_at :: "bytes \<Rightarrow> nat \<Rightarrow> bytes" where
  "payload_at file off =
     (let n = unat (u32_of_le (bslice off (off + 4) file) AND LENGTH_MASK)
      in bslice (off + RECORD_HEAD_SIZE) (off + RECORD_HEAD_SIZE + n) file)"

definition seg_records :: "Segment \<Rightarrow> bytes list" where
  "seg_records seg = map (payload_at (seg_file seg)) (offsets seg)"

text \<open>The abstraction: the log as the list of its records, position \<open>p\<close> at index \<open>p - 1\<close>.\<close>
definition log_of :: "SegmentSet \<Rightarrow> bytes list" where
  "log_of S = concat (map seg_records (sealed S @ [active S]))"

text \<open>A segment whose readable part is a run of valid frames, followed by zeros.\<close>
definition seg_holds :: "crc_fun \<Rightarrow> nat \<Rightarrow> Segment \<Rightarrow> frame list \<Rightarrow> bool" where
  "seg_holds crc hdr seg fs \<longleftrightarrow>
     hdr \<le> reader_flushed seg \<and> reader_flushed seg \<le> length (seg_file seg) \<and>
     reader_flushed seg \<le> U32_MAX \<and>
     (\<exists>rest. drop hdr (take (reader_flushed seg) (seg_file seg)) = concat (map (frame_bytes crc) fs) @ rest \<and>
             list_all (\<lambda>b. b = 0) rest) \<and>
     list_all (frame_ok crc) fs \<and> offsets seg = data_offsets hdr fs"

text \<open>Consecutive segments tile the positions from \<open>p\<close> to \<open>q\<close> (exclusive).\<close>
fun contiguous :: "Position \<Rightarrow> Segment list \<Rightarrow> Position \<Rightarrow> bool" where
  "contiguous p [] q \<longleftrightarrow> p = q"
| "contiguous p (s # ss) q \<longleftrightarrow> seg_base s = p \<and> contiguous (p + event_count s) ss q"

text \<open>
  A validated configuration whose records the length field can carry and whose header fits its space;
  \<open>SegmentConfig_new\<close> gives such a one (\<open>wf_config_new\<close> below).
\<close>
definition wf_config :: "SegmentConfig \<Rightarrow> bool" where
  "wf_config c \<longleftrightarrow>
     SegmentConfig_validate c = Inr () \<and> max_record_len c \<le> RECORD_HEAD_SIZE + MAX_RECORD_LEN \<and>
     SEGMENT_HEADER_SIZE \<le> header_size c"

text \<open>The invariant of a segment set between operations.\<close>
definition set_inv :: "crc_fun \<Rightarrow> SegmentSet \<Rightarrow> bool" where
  "set_inv crc S \<longleftrightarrow>
     wf_config (config S) \<and> writer_inv (active_writer S) \<and>
     flushed_offset (active_writer S) = write_offset (active_writer S) \<and>
     size (active_writer S) = segment_size (config S) \<and>
     start_offset (active_writer S) = header_size (config S) \<and>
     max_record (active_writer S) = max_record_len (config S) \<and>
     active S = share (active_writer S) (active S) \<and>
     (\<exists>fs. holds_frames crc (active_writer S) fs \<and> offsets (active S) = data_offsets (header_size (config S)) fs) \<and>
     (\<forall>seg \<in> set (sealed S). \<exists>fs. seg_holds crc (header_size (config S)) seg fs) \<and>
     contiguous FIRST_POSITION (sealed S @ [active S]) (next_position S)"

subsection \<open>Facts about frames at offsets\<close>

lemma data_offsets_append:
  "data_offsets cur (fs @ gs) = data_offsets cur fs @ data_offsets (cur + frames_len fs) gs"
  by (induction fs arbitrary: cur) (simp_all add: add.assoc)

lemma length_data_offsets [simp]: "length (data_offsets cur fs) = length (payloads fs)"
  by (induction fs arbitrary: cur) (simp_all add: payloads_def)

lemma payloads_simps [simp]:
  "payloads [] = []" "payloads (f # fs) = (if is_ctl f then payloads fs else frame_payload f # payloads fs)"
  "payloads (fs @ gs) = payloads fs @ payloads gs"
  by (simp_all add: payloads_def)

lemma data_offsets_frame:
  assumes "drop cur F = concat (map (frame_bytes crc) fs) @ rest" and "list_all (frame_ok crc) fs"
    and "i < length (payloads fs)"
  shows "frame_at crc (drop (data_offsets cur fs ! i) F) = Some (Frame False (payloads fs ! i))"
  using assms
proof (induction fs arbitrary: cur i)
  case (Cons f fs)
  have at: "frame_at crc (drop cur F) = Some f"
    using Cons.prems(1,2) by (simp add: frame_at_frame_bytes)
  have "drop (cur + frame_len f) F = drop (frame_len f) (drop cur F)" by (simp add: add.commute)
  also have "\<dots> = concat (map (frame_bytes crc) fs) @ rest" using Cons.prems(1) by simp
  finally have IH: "i < length (payloads fs) \<Longrightarrow>
      frame_at crc (drop (data_offsets (cur + frame_len f) fs ! i) F) = Some (Frame False (payloads fs ! i))" for i
    using Cons.IH Cons.prems(2) by simp
  show ?case
  proof (cases "is_ctl f")
    case True
    then show ?thesis using IH Cons.prems(3) by simp
  next
    case False
    then have "f = Frame False (frame_payload f)" by (cases f) simp
    then show ?thesis using IH Cons.prems(3) False at by (cases i) simp_all
  qed
qed simp

lemma payload_at_frame:
  assumes "frame_at crc (drop off (take e file)) = Some f"
  shows "payload_at file off = frame_payload f"
proof -
  let ?b = "drop off (take e file)"
  let ?n = "unat (u32_of_le (take 4 ?b) AND LENGTH_MASK)"
  have fit: "8 + ?n \<le> length ?b" and f: "frame_payload f = bslice 8 (8 + ?n) ?b"
    using assms unfolding frame_at_iff Let_def by auto
  have e: "off + 8 + ?n \<le> e" using fit by auto
  have h: "bslice off (off + 4) file = take 4 ?b"
    using e by (simp add: bslice_def drop_take min_def)
  have "bslice (off + 8) (off + 8 + ?n) file = bslice 8 (8 + ?n) ?b"
    using e by (simp add: bslice_def drop_take min_def add.commute)
  then show ?thesis unfolding payload_at_def Let_def RECORD_HEAD_SIZE_8 h f by simp
qed

lemma seg_holds_frame:
  assumes "seg_holds crc hdr seg fs" and "i < length (offsets seg)"
  shows "frame_at crc (drop (offsets seg ! i) (take (reader_flushed seg) (seg_file seg)))
         = Some (Frame False (payloads fs ! i))"
  using assms data_offsets_frame by (auto simp: seg_holds_def)

lemma seg_holds_records:
  assumes "seg_holds crc hdr seg fs"
  shows "seg_records seg = payloads fs"
proof (rule nth_equalityI)
  show "length (seg_records seg) = length (payloads fs)"
    using assms by (simp add: seg_records_def seg_holds_def)
next
  fix i assume "i < length (seg_records seg)"
  then show "seg_records seg ! i = payloads fs ! i"
    using payload_at_frame [OF seg_holds_frame [OF assms, of i]] by (simp add: seg_records_def)
qed

lemma seg_read:
  assumes "seg_holds crc hdr seg fs" and "i < length (offsets seg)"
  obtains r where
    "fst (read_record crc 0 (seg_file seg) (reader_flushed seg) (offsets seg ! i) hint ReadAheadBuf_new) = Inr r"
    and "rec_data r = seg_records seg ! i"
proof -
  have fl: "reader_flushed seg \<le> length (seg_file seg)" using assms(1) by (simp add: seg_holds_def)
  have "parse_record_parts crc 0 (take (reader_flushed seg) (seg_file seg)) (offsets seg ! i)
        = Inr ([], payloads fs ! i, frame_len (Frame False (payloads fs ! i)))"
    using parse_record_parts_frame [OF seg_holds_frame [OF assms]] by simp
  then show thesis
    using that read_record_parse [OF ra_fresh_new fl, of crc 0 "offsets seg ! i" hint]
      seg_holds_records [OF assms(1)]
    by (auto simp: to_record_def)
qed

lemma share_simps [simp]:
  "seg_base (share w seg) = seg_base seg" "offsets (share w seg) = offsets seg"
  "seg_file (share w seg) = content w" "reader_flushed (share w seg) = flushed_offset w"
  "event_count (share w seg) = event_count seg" "seg_path (share w seg) = seg_path seg"
  by (simp_all add: share_def reader_flushed_def event_count_def)

lemma share_holds:
  assumes "writer_inv w" and "flushed_offset w = write_offset w" and "holds_frames crc w fs"
    and "offsets seg = data_offsets (start_offset w) fs" and "size w \<le> U32_MAX"
  shows "seg_holds crc (start_offset w) (share w seg) fs"
  using assms
  by (auto simp: seg_holds_def writer_inv_def holds_frames_def bslice_def drop_take)

lemma wf_config_sizes:
  "wf_config c \<Longrightarrow> header_size c < segment_size c \<and> segment_size c \<le> U32_MAX \<and>
     max_record_len c + RECORD_HEAD_SIZE + COMMIT_MARKER_PAYLOAD \<le> segment_size c - header_size c"
  by (auto simp: wf_config_def SegmentConfig_validate_def Let_def split: if_splits)

lemma set_inv_segments:
  assumes "set_inv crc S" and "seg \<in> set (sealed S @ [active S])"
  obtains fs where "seg_holds crc (header_size (config S)) seg fs"
proof (cases "seg \<in> set (sealed S)")
  case True
  then show thesis using assms(1) that by (auto simp: set_inv_def)
next
  case False
  then have seg: "seg = share (active_writer S) (active S)" using assms by (auto simp: set_inv_def)
  obtain fs where "holds_frames crc (active_writer S) fs"
    "offsets (active S) = data_offsets (header_size (config S)) fs"
    using assms(1) by (auto simp: set_inv_def)
  then have "seg_holds crc (start_offset (active_writer S)) (share (active_writer S) (active S)) fs"
    using assms(1) wf_config_sizes [of "config S"]
    by (intro share_holds) (auto simp: set_inv_def writer_inv_def)
  then show thesis using assms(1) that seg by (auto simp: set_inv_def)
qed

subsection \<open>Contiguous segments\<close>

lemma contiguous_end: "contiguous p segs q \<Longrightarrow> q = p + sum_list (map event_count segs)"
proof (induction segs arbitrary: p)
  case (Cons s ss)
  from Cons.prems have "contiguous (p + event_count s) ss q" by simp
  from Cons.IH [OF this] show ?case by simp
qed simp

lemma contiguous_append:
  "contiguous p (as @ bs) q \<longleftrightarrow>
     contiguous p as (p + sum_list (map event_count as)) \<and> contiguous (p + sum_list (map event_count as)) bs q"
  by (induction as arbitrary: p) (auto simp: add.assoc)

lemma contiguous_base:
  "\<lbrakk>contiguous p segs q; i < length segs\<rbrakk> \<Longrightarrow>
   seg_base (segs ! i) = p + sum_list (map event_count (take i segs))"
proof (induction segs arbitrary: p i)
  case (Cons s ss)
  then show ?case by (cases i) (auto simp: add.assoc)
qed simp

lemma sum_take_mono:
  fixes f :: "'a \<Rightarrow> nat"
  assumes "i \<le> j"
  shows "sum_list (map f (take i xs)) \<le> sum_list (map f (take j xs))"
proof -
  have "take j xs = take i xs @ take (j - i) (drop i xs)" using assms by (metis le_add_diff_inverse take_add)
  then show ?thesis by simp
qed

text \<open>A source whose segments tile the positions from the first one.\<close>
definition tiled :: "SegmentSource \<Rightarrow> Position \<Rightarrow> bool" where
  "tiled src q \<longleftrightarrow> src_segments src \<noteq> [] \<and> contiguous FIRST_POSITION (src_segments src) q"

interpretation source: segment_source "\<lambda>src. \<exists>q. tiled src q" segment_count segment_at
proof
  fix src i assume "\<exists>q. tiled src q"
  then show "(segment_at src i \<noteq> None) = (i \<le> segment_count src)"
    by (cases "src_segments src") (auto simp: tiled_def segment_at_def segment_count_def)
next
  fix src i a j b
  assume "\<exists>q. tiled src q" and a: "segment_at src i = Some a" and b: "segment_at src j = Some b" and "i \<le> j"
  then obtain q where c: "contiguous FIRST_POSITION (src_segments src) q" by (auto simp: tiled_def)
  from a b have "i < length (src_segments src)" "a = src_segments src ! i"
    "j < length (src_segments src)" "b = src_segments src ! j"
    by (auto simp: segment_at_def split: if_splits)
  then show "seg_base a \<le> seg_base b"
    using contiguous_base [OF c] sum_take_mono [OF \<open>i \<le> j\<close>, of event_count] by simp
qed

lemma contiguous_find:
  "\<lbrakk>contiguous p segs q; p \<le> pos; pos < q\<rbrakk> \<Longrightarrow>
   \<exists>i < length segs. seg_base (segs ! i) \<le> pos \<and> pos < seg_base (segs ! i) + event_count (segs ! i)"
proof (induction segs arbitrary: p)
  case (Cons s ss)
  show ?case
  proof (cases "pos < p + event_count s")
    case True
    then show ?thesis using Cons.prems by (intro exI [of _ 0]) auto
  next
    case False
    then obtain i where "i < length ss" "seg_base (ss ! i) \<le> pos"
      "pos < seg_base (ss ! i) + event_count (ss ! i)"
      using Cons.IH [of "p + event_count s"] Cons.prems by auto
    then show ?thesis by (intro exI [of _ "Suc i"]) simp
  qed
qed simp

text \<open>In a tiled source every assigned position has exactly one owner, which holds its record.\<close>
lemma tiled_owner:
  assumes "tiled src q" and "1 \<le> pos" and "pos < q"
  obtains i s where "i < length (src_segments src)" and "s = src_segments src ! i"
    and "src_locate src pos = Some (i, s)" and "seg_base s \<le> pos" and "pos - seg_base s < event_count s"
    and "pos - 1 = sum_list (map event_count (take i (src_segments src))) + (pos - seg_base s)"
proof -
  let ?segs = "src_segments src"
  have c: "contiguous FIRST_POSITION ?segs q" using assms(1) by (simp add: tiled_def)
  obtain i where i: "i < length ?segs" "seg_base (?segs ! i) \<le> pos"
    "pos < seg_base (?segs ! i) + event_count (?segs ! i)"
    using contiguous_find [OF c, of pos] assms(2,3) by (auto simp: FIRST_POSITION_def)
  have "pos < seg_base t" if j: "i < j" "segment_at src j = Some t" for j t
  proof -
    have jl: "j < length ?segs" "t = ?segs ! j" using j(2) by (auto simp: segment_at_def split: if_splits)
    have "sum_list (map event_count (take (Suc i) ?segs)) \<le> sum_list (map event_count (take j ?segs))"
      using j(1) by (intro sum_take_mono) simp
    moreover have "sum_list (map event_count (take (Suc i) ?segs))
        = sum_list (map event_count (take i ?segs)) + event_count (?segs ! i)"
      using i(1) by (simp add: take_Suc_conv_app_nth)
    ultimately show ?thesis using contiguous_base [OF c] i jl by simp
  qed
  then have "owns (segment_at src) i (?segs ! i) pos"
    using i by (auto simp: owns_def segment_at_def)
  then have "src_locate src pos = Some (i, ?segs ! i)"
    using source.locate_correct [of src pos i "?segs ! i"] assms(1,2) by (auto simp: src_locate_def)
  moreover have "pos - 1 = sum_list (map event_count (take i ?segs)) + (pos - seg_base (?segs ! i))"
    using contiguous_base [OF c i(1)] i(2) by (simp add: FIRST_POSITION_def)
  ultimately show thesis using that [of i "?segs ! i"] i by auto
qed

lemma nth_concat_segments:
  assumes "i < length segs" and "k < length (f (segs ! i))"
  shows "concat (map f segs) ! (sum_list (map (length \<circ> f) (take i segs)) + k) = f (segs ! i) ! k"
  using assms
proof (induction segs arbitrary: i)
  case (Cons s ss)
  then show ?case by (cases i) (simp_all add: nth_append add.assoc)
qed simp

lemma length_seg_records [simp]: "length (seg_records seg) = event_count seg"
  by (simp add: seg_records_def event_count_def)

lemma set_inv_tiled: "set_inv crc S \<Longrightarrow> tiled (set_source S) (next_position S)"
  by (simp add: set_inv_def tiled_def set_source_def)

lemma length_log_of: "set_inv crc S \<Longrightarrow> next_position S = length (log_of S) + 1"
  using contiguous_end [of FIRST_POSITION "sealed S @ [active S]" "next_position S"]
  by (simp add: set_inv_def log_of_def FIRST_POSITION_def length_concat comp_def)

subsection \<open>Appending\<close>

lemma append_records_append_all:
  "\<lbrakk>append_records crc path rs w = (r, w'); writer_inv w; size w \<le> U32_MAX\<rbrakk> \<Longrightarrow>
   (case r of
      Inr offs \<Rightarrow> append_all crc (map (Pair []) rs) w = (Inr (), w') \<and>
                  offs = data_offsets (write_offset w) (map (Frame False) rs)
    | Inl e \<Rightarrow> \<exists>e'. append_all crc (map (Pair []) rs) w = (Inl e', w'))"
proof (induction rs arbitrary: w r w')
  case (Cons d rs)
  obtain r1 w1 where ap: "append crc [] d w = (r1, w1)" by fastforce
  from ap Cons.prems(2) show ?case
  proof (cases rule: append_cases)
    case ok
    obtain r2 w2 where rec: "append_records crc path rs w1 = (r2, w2)" by fastforce
    have inv1: "writer_inv w1" and sz: "size w1 \<le> U32_MAX"
      using append_effect [OF ap Cons.prems(2)] ok Cons.prems(3) by (auto simp: beyond_def)
    have le: "\<not> write_offset w > U32_MAX" using ok(5) Cons.prems(3) by simp
    note IH = Cons.IH [OF rec inv1 sz]
    have cons: "append_all crc (map (Pair []) (d # rs)) w = append_all crc (map (Pair []) rs) w1"
      by (simp add: ap ok(1))
    show ?thesis
    proof (cases r2)
      case (Inl e)
      then have "r = Inl e" "w' = w2" using Cons.prems(1) ap ok(1) rec le by auto
      then show ?thesis using IH Inl cons by simp
    next
      case (Inr offs)
      then have "r = Inr (write_offset w # offs)" "w' = w2" using Cons.prems(1) ap ok(1) rec le by auto
      then show ?thesis using IH Inr cons ok(3) by simp
    qed
  qed (use Cons.prems(1) ap in auto)
qed simp

lemma write_batch_append_batch:
  assumes "write_batch crc path rs pos w = (r, w')" and "writer_inv w" and "size w \<le> U32_MAX"
  shows "case r of
           Inr offs \<Rightarrow> (\<exists>off. append_batch crc (map (Pair []) rs) pos w = (Inr off, w')) \<and>
                       offs = data_offsets (write_offset w) (map (Frame False) rs)
         | Inl e \<Rightarrow> \<exists>e'. append_batch crc (map (Pair []) rs) pos w = (Inl e', w')"
proof -
  obtain r1 w1 where rec: "append_records crc path rs w = (r1, w1)" by fastforce
  note ar = append_records_append_all [OF rec assms(2,3)]
  show ?thesis
  proof (cases r1)
    case (Inl e)
    then show ?thesis using assms(1) rec ar by (auto simp: write_batch_def append_batch_def)
  next
    case (Inr offs)
    obtain r2 w2 where "commit crc pos w1 = (r2, w2)" by fastforce
    then show ?thesis
      using assms(1) rec ar Inr by (cases r2) (auto simp: write_batch_def append_batch_def)
  qed
qed

lemma data_frames_plain [simp]: "data_frames (map (Pair []) rs) = map (Frame False) rs"
  by (simp add: data_frames_def comp_def)

lemma rec_ok_plain: "[] \<notin> set rs \<Longrightarrow> list_all (rec_ok crc) (map (Pair []) rs)"
  by (auto simp: rec_ok_def list_all_iff)

lemma payloads_data [simp]: "payloads (map (Frame False) rs) = rs"
  by (induction rs) simp_all

lemma is_ctl_commit [simp]: "is_ctl (commit_frame pos)"
  by (simp add: commit_frame_def)

lemma holds_frames_offset:
  "\<lbrakk>holds_frames crc w fs; writer_inv w\<rbrakk> \<Longrightarrow> write_offset w = start_offset w + frames_len fs"
proof -
  assume h: "holds_frames crc w fs" and i: "writer_inv w"
  have "length (bslice (start_offset w) (write_offset w) (content w)) = frames_len fs"
    using h by (simp only: holds_frames_def length_concat_frames)
  then show ?thesis using i by (auto simp: writer_inv_def)
qed

lemma set_inv_active:
  assumes "set_inv crc S"
  obtains fs where "holds_frames crc (active_writer S) fs"
    and "offsets (active S) = data_offsets (header_size (config S)) fs"
    and "seg_records (active S) = payloads fs"
proof -
  obtain fs where fs: "holds_frames crc (active_writer S) fs"
    "offsets (active S) = data_offsets (header_size (config S)) fs"
    using assms by (auto simp: set_inv_def)
  have "seg_holds crc (start_offset (active_writer S)) (share (active_writer S) (active S)) fs"
    using assms fs wf_config_sizes [of "config S"] by (intro share_holds) (auto simp: set_inv_def)
  then have "seg_records (active S) = payloads fs"
    using seg_holds_records assms by (metis set_inv_def)
  then show thesis using that fs by blast
qed

text \<open>Replacing the active segment's writer and offsets, everything else unchanged.\<close>
lemma set_inv_update:
  assumes "set_inv crc S" and "writer_inv w" and "flushed_offset w = write_offset w"
    and "size w = size (active_writer S)" and "start_offset w = start_offset (active_writer S)"
    and "max_record w = max_record (active_writer S)"
    and "holds_frames crc w fs" and "offsets seg = data_offsets (header_size (config S)) fs"
    and "seg_base seg = seg_base (active S)"
    and "S' = S\<lparr>active_writer := w, active := share w seg,
               next_position := seg_base (active S) + length (payloads fs)\<rparr>"
  shows "set_inv crc S'"
    and "log_of S' = concat (map seg_records (sealed S)) @ payloads fs"
proof -
  have sh: "share w (share w seg) = share w seg" by (simp add: share_def)
  have cont: "contiguous FIRST_POSITION (sealed S @ [share w seg]) (seg_base (active S) + length (payloads fs))"
    using assms(1,8,9) by (simp add: set_inv_def contiguous_append event_count_def)
  show "set_inv crc S'"
    using assms(1-8) sh cont unfolding assms(10) set_inv_def by auto
  have "seg_holds crc (start_offset w) (share w seg) fs"
    using assms wf_config_sizes [of "config S"] by (intro share_holds) (auto simp: set_inv_def)
  then show "log_of S' = concat (map seg_records (sealed S)) @ payloads fs"
    by (simp add: log_of_def assms(10) seg_holds_records)
qed

lemma append_active_ok:
  assumes "set_inv crc S" and "[] \<notin> set rs" and "rs \<noteq> []"
    and "append_active crc rs S = (Inr (first, lst), S')"
  shows "set_inv crc S' \<and> log_of S' = log_of S @ rs \<and> first = next_position S \<and>
         lst = first + length rs - 1 \<and> next_position S' = first + length rs \<and>
         sealed S' = sealed S \<and> config S' = config S \<and> dir_names S' = dir_names S \<and>
         seg_base (active S') = seg_base (active S)"
proof -
  let ?w = "active_writer S" and ?lst = "next_position S + length rs - 1"
  obtain r w' where wb: "write_batch crc (seg_path (active S)) rs ?lst ?w = (r, w')" by fastforce
  then obtain offs where r: "r = Inr offs" and fl: "first = next_position S" "lst = ?lst"
    and S': "S' = S\<lparr>active_writer := w', active := share w' ((active S)\<lparr>offsets := offsets (active S) @ offs\<rparr>),
                next_position := ?lst + 1\<rparr>"
    using assms(4) by (auto simp: append_active_def Let_def split: sum.splits prod.splits)
  have inv: "writer_inv ?w" and sz: "size ?w \<le> U32_MAX"
    using assms(1) wf_config_sizes [of "config S"] by (auto simp: set_inv_def)
  obtain off where ab: "append_batch crc (map (Pair []) rs) ?lst ?w = (Inr off, w')"
    and offs: "offs = data_offsets (write_offset ?w) (map (Frame False) rs)"
    using write_batch_append_batch [OF wb inv sz] r by auto
  note eff = append_batch_effect [OF ab inv rec_ok_plain [OF assms(2)]]
  obtain fs where fs: "holds_frames crc ?w fs" "offsets (active S) = data_offsets (header_size (config S)) fs"
    "seg_records (active S) = payloads fs"
    using set_inv_active [OF assms(1)] by blast
  let ?fs = "fs @ map (Frame False) rs @ [commit_frame ?lst]"
  have hf: "holds_frames crc w' ?fs" using eff(7) [OF fs(1)] by simp
  have of: "offsets (active S) @ offs = data_offsets (header_size (config S)) ?fs"
    using fs(2) offs holds_frames_offset [OF fs(1) inv] assms(1)
    by (simp add: data_offsets_append set_inv_def)
  have np: "?lst + 1 = seg_base (active S) + length (payloads ?fs)"
    using assms(1,3) fs(2) by (simp add: set_inv_def contiguous_append event_count_def)
  have "S' = S\<lparr>active_writer := w', active := share w' ((active S)\<lparr>offsets := offsets (active S) @ offs\<rparr>),
              next_position := seg_base (active S) + length (payloads ?fs)\<rparr>"
    unfolding S' np ..
  note upd = set_inv_update [OF assms(1) eff(1) _ _ _ _ hf _ _ this]
  have "set_inv crc S'"
    by (rule upd(1)) (use eff(2,3,4) of in \<open>simp_all add: beyond_def\<close>)
  moreover have "log_of S' = concat (map seg_records (sealed S)) @ payloads ?fs"
    by (rule upd(2)) (use eff(2,3,4) of in \<open>simp_all add: beyond_def\<close>)
  ultimately show ?thesis
    using fl assms(3) fs(3) S' by (simp add: log_of_def)
qed

lemma rewind_to_content:
  "rewind_to off w = (r, w') \<Longrightarrow>
   content w' = content w \<and> size w' = size w \<and> start_offset w' = start_offset w \<and>
   flushed_offset w' = flushed_offset w \<and> max_record w' = max_record w"
  by (auto simp: rewind_to_def seek_to_def pop_fault_def split: if_splits option.splits)

text \<open>
  A failed batch: the log is as before, and so is the invariant unless an I/O error left the file cursor
  or the write offset away from the batch's first byte.
\<close>
lemma append_active_fail:
  assumes "set_inv crc S" and "append_active crc rs S = (Inl e, S')"
  shows "log_of S' = log_of S \<and> next_position S' = next_position S \<and> sealed S' = sealed S \<and>
         config S' = config S \<and> offsets (active S') = offsets (active S) \<and>
         seg_base (active S') = seg_base (active S) \<and>
         (\<exists>fs. seg_holds crc (header_size (config S)) (active S') fs) \<and>
         (cursor (active_writer S') = write_offset (active_writer S) \<and>
          write_offset (active_writer S') = write_offset (active_writer S) \<longrightarrow> set_inv crc S')"
proof -
  let ?w = "active_writer S" and ?lst = "next_position S + length rs - 1"
  obtain r w1 where wb: "write_batch crc (seg_path (active S)) rs ?lst ?w = (r, w1)" by fastforce
  obtain r2 w' where rw: "rewind_to (write_offset ?w) w1 = (r2, w')" by fastforce
  obtain e1 where r: "r = Inl e1" and S': "S' = S\<lparr>active_writer := w', active := share w' (active S)\<rparr>"
    using assms(2) wb rw by (auto simp: append_active_def Let_def split: sum.splits)
  have inv: "writer_inv ?w" and sz: "size ?w \<le> U32_MAX" and fw: "flushed_offset ?w = write_offset ?w"
    using assms(1) wf_config_sizes [of "config S"] by (auto simp: set_inv_def)
  obtain e2 where ab: "append_batch crc (map (Pair []) rs) ?lst ?w = (Inl e2, w1)"
    using write_batch_append_batch [OF wb inv sz] r by auto
  have b: "beyond ?w w1" "flushed_offset w1 = flushed_offset ?w" using append_batch_fail [OF ab inv] by auto
  note rc = rewind_to_content [OF rw]
  obtain fs where fs: "holds_frames crc ?w fs" "offsets (active S) = data_offsets (header_size (config S)) fs"
    "seg_records (active S) = payloads fs"
    using set_inv_active [OF assms(1)] by blast
  have tk: "take (write_offset ?w) (content w') = take (write_offset ?w) (content ?w)"
    using b(1) rc by (simp add: beyond_def)
  have sl: "bslice (start_offset ?w) (write_offset ?w) (content w') = concat (map (frame_bytes crc) fs)"
    using slice_cong_take [OF tk, of "write_offset ?w"] fs(1) by (simp add: holds_frames_def)
  have len: "length (content w') = length (content ?w)" using b(1) rc by (simp add: beyond_def)
  have "seg_holds crc (header_size (config S)) (share w' (active S)) fs"
    using sl len fs rc b(2) fw inv sz assms(1)
    by (auto simp: seg_holds_def holds_frames_def writer_inv_def set_inv_def bslice_def drop_take)
  moreover from this have recs: "seg_records (share w' (active S)) = payloads fs" by (rule seg_holds_records)
  moreover have "set_inv crc S'" if cur: "cursor w' = write_offset ?w" "write_offset w' = write_offset ?w"
  proof -
    have "writer_inv w'" using inv b rc cur fw len by (auto simp: writer_inv_def beyond_def)
    moreover have "holds_frames crc w' fs" using fs(1) sl rc b(1) cur by (simp add: holds_frames_def beyond_def)
    moreover have "S' = S\<lparr>active_writer := w', active := share w' (active S),
        next_position := seg_base (active S) + length (payloads fs)\<rparr>"
      using assms(1) fs(2) by (simp add: S' set_inv_def contiguous_append event_count_def)
    ultimately show ?thesis
      using set_inv_update(1) [OF assms(1), of w' fs "active S" S'] b rc fs(2) fw cur
      by (simp add: beyond_def)
  qed
  ultimately show ?thesis using recs fs(3) by (auto simp: S' log_of_def)
qed

subsection \<open>Rolling over\<close>

lemma set_max_record_simps [simp]:
  "content (set_max_record m w) = content w" "cursor (set_max_record m w) = cursor w"
  "size (set_max_record m w) = size w" "start_offset (set_max_record m w) = start_offset w"
  "write_offset (set_max_record m w) = write_offset w" "flushed_offset (set_max_record m w) = flushed_offset w"
  "dirty (set_max_record m w) = dirty w" "faults (set_max_record m w) = faults w"
  "max_record (set_max_record m w) = min m (record_hard_limit (size w) (start_offset w))"
  "last_position (set_max_record m w) = last_position w"
  by (simp_all add: set_max_record_def)

lemma wf_config_hard_limit:
  "wf_config c \<Longrightarrow> min (max_record_len c) (record_hard_limit (segment_size c) (header_size c)) = max_record_len c"
  using wf_config_sizes [of c] by (auto simp: record_hard_limit_def)

lemma create_segment_ok:
  assumes "create_segment crc now c base names fs = (Inr (w, seg), names')" and "wf_config c"
  shows "writer_inv w" and "flushed_offset w = write_offset w" and "size w = segment_size c"
    and "start_offset w = header_size c" and "max_record w = max_record_len c"
    and "holds_frames crc w []" and "offsets seg = []" and "seg_base seg = base" and "seg = share w seg"
    and "seg_path seg = segment_file_name base" and "names' = segment_file_name base # names"
    and "content w = overwrite 0 (SegmentHeader_to_bytes crc (SegmentHeader_new now base)) (replicate (segment_size c) 0)"
proof -
  note sizes = wf_config_sizes [OF assms(2)]
  let ?b = "SegmentHeader_to_bytes crc (SegmentHeader_new now base)"
  from assms(1) sizes obtain fs' where
    w: "w = \<lparr>content = overwrite 0 ?b (replicate (segment_size c) 0), cursor = header_size c, size = segment_size c,
            start_offset = header_size c, write_offset = header_size c, flushed_offset = header_size c,
            dirty = False, max_record = max_record_len c, last_position = None, faults = fs'\<rparr>"
    and seg: "seg = share w \<lparr>seg_base = base, seg_path = segment_file_name base,
                seg_flushed = Some (flushed_offset w), offsets = [], seg_file = content w\<rparr>"
    and nm: "names' = segment_file_name base # names"
    using wf_config_hard_limit [OF assms(2)]
    by (auto simp: create_segment_def Let_def Writer_create_def configure_writer_def set_max_record_def
        write_all_at_def file_op_def pop_fault_def split: if_splits option.splits)
  have "64 \<le> segment_size c" using assms(2) sizes by (simp add: wf_config_def SEGMENT_HEADER_SIZE_def)
  then have len: "length (overwrite 0 ?b (replicate (segment_size c) 0)) = segment_size c" by simp
  show "writer_inv w"
    using sizes len assms(2) by (simp add: w writer_inv_def wf_config_def)
  show "holds_frames crc w []" by (simp add: w holds_frames_def)
  show "seg = share w seg" by (simp add: seg share_def)
  show "flushed_offset w = write_offset w" "size w = segment_size c" "start_offset w = header_size c"
    "max_record w = max_record_len c" "offsets seg = []" "seg_base seg = base"
    "seg_path seg = segment_file_name base" "names' = segment_file_name base # names"
    "content w = overwrite 0 ?b (replicate (segment_size c) 0)"
    by (simp_all add: w seg nm)
qed

lemma sync_flushed:
  assumes "sync w = (Inr off, w')" and "writer_inv w" and "flushed_offset w = write_offset w"
  obtains fs where "w' = w\<lparr>dirty := dirty w', faults := fs\<rparr>"
  using assms(1)
proof (cases rule: sync_cases)
  case clean
  then show thesis using that [of "faults w"] by simp
next
  case (ok fs)
  then show thesis using that [of fs] assms(3) by simp
qed simp

lemma writer_inv_dirty_faults:
  "writer_inv w \<Longrightarrow> flushed_offset w = write_offset w \<Longrightarrow> writer_inv (w\<lparr>dirty := d, faults := fs\<rparr>)"
  "holds_frames crc (w\<lparr>dirty := d, faults := fs\<rparr>) gs \<longleftrightarrow> holds_frames crc w gs"
  "share (w\<lparr>dirty := d, faults := fs\<rparr>) seg = share w seg"
  by (auto simp: writer_inv_def holds_frames_def share_def)

lemma set_inv_dirty_faults:
  assumes "set_inv crc S"
  shows "set_inv crc (S\<lparr>active_writer := (active_writer S)\<lparr>dirty := d, faults := fs\<rparr>, active := active S, dir_names := names\<rparr>)"
    and "log_of (S\<lparr>active_writer := (active_writer S)\<lparr>dirty := d, faults := fs\<rparr>, active := active S, dir_names := names\<rparr>)
         = log_of S"
  using assms by (auto simp: set_inv_def writer_inv_dirty_faults log_of_def)

lemma rollover_ok:
  assumes "set_inv crc S" and "rollover crc now S = (Inr (), S')"
  shows "set_inv crc S' \<and> log_of S' = log_of S \<and> next_position S' = next_position S \<and> config S' = config S \<and>
         sealed S' = sealed S @ [active S] \<and> seg_base (active S') = next_position S \<and>
         remaining_bytes (active_writer S') = segment_capacity S'"
proof -
  obtain off w where sy: "sync (active_writer S) = (Inr off, w)"
    using assms(2) by (auto simp: rollover_def split: prod.splits sum.splits)
  obtain fs where w: "w = (active_writer S)\<lparr>dirty := dirty w, faults := fs\<rparr>"
    using sync_flushed [OF sy] assms(1) by (auto simp: set_inv_def)
  have act: "share w (active S) = active S"
    using assms(1) writer_inv_dirty_faults(3) w by (metis set_inv_def)
  obtain w' seg names where cs:
    "create_segment crc now (config S) (next_position S) (dir_names S) (faults w) = (Inr (w', seg), names)"
    and S': "S' = S\<lparr>active_writer := w', active := seg, sealed := sealed S @ [active S], dir_names := names\<rparr>"
    using assms(2) sy act by (auto simp: rollover_def Let_def split: prod.splits sum.splits)
  have wf: "wf_config (config S)" using assms(1) by (simp add: set_inv_def)
  note c = create_segment_ok [OF cs wf]
  have "\<exists>fs. seg_holds crc (header_size (config S)) s fs" if "s \<in> set (sealed S @ [active S])" for s
    using set_inv_segments [OF assms(1) that] by blast
  moreover have "contiguous FIRST_POSITION ((sealed S @ [active S]) @ [seg]) (next_position S)"
    using assms(1) contiguous_end [of FIRST_POSITION "sealed S @ [active S]" "next_position S"] c(7,8)
    unfolding contiguous_append [of _ "sealed S @ [active S]"] by (simp add: set_inv_def event_count_def)
  ultimately have "set_inv crc S'"
    using wf c(1-6) c(9) c(7) unfolding S' set_inv_def by (auto intro!: exI [of _ "[]"])
  moreover have "seg_records seg = []" using c(7) by (simp add: seg_records_def)
  moreover have "write_offset w' = header_size (config S)"
    using holds_frames_offset [OF c(6) c(1)] c(4) by simp
  ultimately show ?thesis using c by (simp add: S' log_of_def remaining_bytes_def segment_capacity_def)
qed

lemma rollover_fail:
  assumes "set_inv crc S" and "rollover crc now S = (Inl e, S')"
  shows "set_inv crc S' \<and> log_of S' = log_of S \<and> next_position S' = next_position S \<and>
         sealed S' = sealed S \<and> active S' = active S \<and> config S' = config S"
proof -
  obtain r w where sy: "sync (active_writer S) = (r, w)" by fastforce
  have fw: "flushed_offset (active_writer S) = write_offset (active_writer S)" and inv: "writer_inv (active_writer S)"
    and act: "active S = share (active_writer S) (active S)"
    using assms(1) by (auto simp: set_inv_def)
  obtain d fs where w: "w = (active_writer S)\<lparr>dirty := d, faults := fs\<rparr>"
  proof (cases r)
    case (Inr off)
    then show thesis using sync_flushed [OF sy [unfolded Inr] inv fw] that by blast
  next
    case (Inl e')
    from sy have "\<exists>fs. w = (active_writer S)\<lparr>faults := fs\<rparr>"
      by (cases rule: sync_cases) (use Inl in auto)
    then obtain fs where "w = (active_writer S)\<lparr>dirty := dirty (active_writer S), faults := fs\<rparr>" by auto
    then show thesis by (rule that)
  qed
  have sh: "share w (active S) = active S" using act writer_inv_dirty_faults(3) w by metis
  have "\<exists>names fs'. S' = S\<lparr>active_writer := (active_writer S)\<lparr>dirty := d, faults := fs'\<rparr>,
                          active := active S, dir_names := names\<rparr>"
  proof (cases r)
    case (Inl e')
    then show ?thesis
      using assms(2) sy w sh by (intro exI [of _ "dir_names S"] exI [of _ fs]) (auto simp: rollover_def)
  next
    case (Inr off)
    then obtain names where "S' = S\<lparr>active_writer := w, active := active S, dir_names := names,
        active_writer := w\<lparr>faults := drop 7 (faults w)\<rparr>\<rparr>"
      using assms(2) sy sh by (auto simp: rollover_def Let_def split: prod.splits sum.splits)
    then show ?thesis using w by (intro exI [of _ names] exI [of _ "drop 7 fs"]) simp
  qed
  then show ?thesis using set_inv_dirty_faults [OF assms(1)] by auto
qed

subsection \<open>Without I/O errors every acceptable batch is accepted\<close>

definition no_faults :: "Writer \<Rightarrow> bool" where
  "no_faults w \<longleftrightarrow> list_all (\<lambda>f. f = None) (faults w)"

lemma no_faults_pop: "no_faults v \<Longrightarrow> next_fault v = None \<and> no_faults (pop_fault v)"
  by (cases "faults v") (auto simp: no_faults_def next_fault_def pop_fault_def)

lemma sync_total: "no_faults v \<Longrightarrow> \<exists>off w'. sync v = (Inr off, w') \<and> no_faults w'"
  using no_faults_pop [of v] no_faults_pop [of "pop_fault v"]
  by (simp add: sync_def file_op_def no_faults_def)

lemma append_total:
  assumes "no_faults w" and "RECORD_HEAD_SIZE + length d \<le> max_record w"
    and "write_offset w + RECORD_HEAD_SIZE + length d \<le> size w"
  shows "\<exists>w'. append crc [] d w = (Inr (write_offset w, RECORD_HEAD_SIZE + length d), w') \<and> no_faults w' \<and>
           max_record w' = max_record w \<and> size w' = size w \<and>
           write_offset w' = write_offset w + RECORD_HEAD_SIZE + length d"
proof -
  let ?lb = "le_bytes 4 (length d)"
  let ?ps = "[?lb, u32_le (calculate_crc32c crc ?lb [] d), [], d]"
  let ?w = "w\<lparr>dirty := True\<rparr>"
  have keep: "write_parts ps v = (Inr (), v') \<Longrightarrow>
      max_record v' = max_record v \<and> size v' = size v \<and> write_offset v' = write_offset v" for ps v v'
  proof (induction ps arbitrary: v)
    case (Cons b bs)
    then show ?case
      by (auto simp: and_then_Inr write_all_def pop_fault_def split: option.splits)
  qed simp
  obtain w1 where w1: "write_parts ?ps ?w = (Inr (), w1)" "list_all (\<lambda>f. f = None) (faults w1)"
    using write_parts_ok [of ?w ?ps] assms(1) by (auto simp: no_faults_def)
  have "append crc [] d w = and_then (write_parts ?ps ?w)
          (\<lambda>_ v. (Inr (write_offset w, RECORD_HEAD_SIZE + length d),
                  v\<lparr>write_offset := write_offset v + (RECORD_HEAD_SIZE + length d)\<rparr>))"
    using assms(2,3) by (simp add: append_def Let_def and_then_assoc add.assoc)
  then show ?thesis using w1 keep [OF w1(1)] by (simp add: no_faults_def add.assoc)
qed

lemma append_records_total:
  "\<lbrakk>no_faults w; \<forall>d \<in> set rs. RECORD_HEAD_SIZE + length d \<le> max_record w;
    write_offset w + sum_list (map (\<lambda>d. RECORD_HEAD_SIZE + length d) rs) \<le> size w; size w \<le> U32_MAX\<rbrakk> \<Longrightarrow>
   \<exists>offs w'. append_records crc path rs w = (Inr offs, w') \<and> no_faults w' \<and> size w' = size w \<and>
     write_offset w' = write_offset w + sum_list (map (\<lambda>d. RECORD_HEAD_SIZE + length d) rs)"
proof (induction rs arbitrary: w)
  case (Cons d rs)
  obtain w1 where w1: "append crc [] d w = (Inr (write_offset w, RECORD_HEAD_SIZE + length d), w1)" "no_faults w1"
    "max_record w1 = max_record w" "size w1 = size w"
    "write_offset w1 = write_offset w + RECORD_HEAD_SIZE + length d"
    using append_total [of w d crc] Cons.prems by auto
  obtain offs w2 where "append_records crc path rs w1 = (Inr offs, w2)" "no_faults w2" "size w2 = size w1"
    "write_offset w2 = write_offset w1 + sum_list (map (\<lambda>d. RECORD_HEAD_SIZE + length d) rs)"
    using Cons.IH [of w1] w1 Cons.prems by auto
  then show ?case using w1 Cons.prems by (simp add: add.assoc)
qed simp

lemma commit_total:
  assumes "no_faults w" and "write_offset w + RECORD_HEAD_SIZE + COMMIT_MARKER_PAYLOAD \<le> size w"
  shows "\<exists>off w'. commit crc pos w = (Inr off, w') \<and> no_faults w'"
proof -
  let ?lb = "u32_le (of_nat COMMIT_MARKER_PAYLOAD OR CONTROL_FLAG)"
  let ?pl = "BATCH_COMMIT # le_bytes 8 pos"
  let ?ps = "[?lb, u32_le (calculate_crc32c crc ?lb [] ?pl), ?pl]"
  obtain w1 where w1: "write_parts ?ps (w\<lparr>dirty := True\<rparr>) = (Inr (), w1)" "list_all (\<lambda>f. f = None) (faults w1)"
    using write_parts_ok [of "w\<lparr>dirty := True\<rparr>" ?ps] assms(1) by (auto simp: no_faults_def)
  have m: "write_commit_marker crc pos w =
      and_then (write_parts ?ps (w\<lparr>dirty := True\<rparr>))
        (\<lambda>_ v. (Inr (), v\<lparr>write_offset := write_offset v + (RECORD_HEAD_SIZE + COMMIT_MARKER_PAYLOAD)\<rparr>))"
    using assms(2) by (simp add: write_commit_marker_def Let_def and_then_assoc add.assoc)
  have "no_faults (w1\<lparr>write_offset := n, last_position := p\<rparr>)" for n p using w1(2) by (simp add: no_faults_def)
  from sync_total [OF this] show ?thesis using m w1 by (simp add: commit_def)
qed

lemma check_records_ok:
  "check_records c rs = Inr u \<longleftrightarrow> [] \<notin> set rs \<and> (\<forall>r \<in> set rs. RECORD_HEAD_SIZE + length r \<le> max_record_len c)"
  by (induction rs) (auto simp: Let_def)

lemma append_active_total:
  assumes "set_inv crc S" and "no_faults (active_writer S)"
    and "check_records (config S) rs = Inr u" and "batch_total rs \<le> remaining_bytes (active_writer S)"
  shows "\<exists>S'. append_active crc rs S = (Inr (next_position S, next_position S + length rs - 1), S') \<and>
           no_faults (active_writer S')"
proof -
  let ?w = "active_writer S" and ?sum = "sum_list (map (\<lambda>d. RECORD_HEAD_SIZE + length d) rs)"
  have inv: "writer_inv ?w" and sz: "size ?w \<le> U32_MAX" and mr: "max_record ?w = max_record_len (config S)"
    using assms(1) wf_config_sizes [of "config S"] by (auto simp: set_inv_def)
  have fit: "write_offset ?w + ?sum + RECORD_HEAD_SIZE + COMMIT_MARKER_PAYLOAD \<le> size ?w"
    using assms(4) inv by (auto simp: batch_total_def remaining_bytes_def writer_inv_def RECORD_HEAD_SIZE_8)
  obtain offs w1 where w1: "append_records crc (seg_path (active S)) rs ?w = (Inr offs, w1)" "no_faults w1"
    "size w1 = size ?w" "write_offset w1 = write_offset ?w + ?sum"
    using append_records_total [of ?w rs crc "seg_path (active S)"] assms(2,3) mr fit sz
    by (auto simp: check_records_ok)
  obtain off w2 where w2: "commit crc (next_position S + length rs - 1) w1 = (Inr off, w2)" "no_faults w2"
    using commit_total [of w1 crc "next_position S + length rs - 1"] w1 fit by auto
  show ?thesis using w1 w2 by (simp add: append_active_def Let_def write_batch_def)
qed

lemma rollover_total:
  assumes "set_inv crc S" and "no_faults (active_writer S)"
    and "segment_file_name (next_position S) \<notin> set (dir_names S)"
  shows "\<exists>S'. rollover crc now S = (Inr (), S') \<and> no_faults (active_writer S')"
proof -
  obtain off w where sy: "sync (active_writer S) = (Inr off, w)" "no_faults w"
    using sync_total [OF assms(2)] by blast
  have wf: "header_size (config S) < segment_size (config S)"
    using assms(1) wf_config_sizes by (simp add: set_inv_def)
  have nf: "\<not> list_ex (\<lambda>f. f \<noteq> None) (take 5 (faults w))" and nd: "list_all (\<lambda>f. f = None) (drop 5 (faults w))"
    using sy(2) by (auto simp: no_faults_def list_all_iff list_ex_iff dest: in_set_takeD in_set_dropD)
  have "\<exists>w' seg names. create_segment crc now (config S) (next_position S) (dir_names S) (faults w)
          = (Inr (w', seg), names) \<and> no_faults w'"
    using assms(3) wf nf nd
    by (cases "drop 5 (faults w)"; cases "tl (drop 5 (faults w))")
      (auto simp: create_segment_def Let_def Writer_create_def configure_writer_def set_max_record_def
        write_all_at_def file_op_def next_fault_def pop_fault_def no_faults_def)
  then show ?thesis using sy by (auto simp: rollover_def Let_def)
qed

lemma set_append_batch_cases:
  assumes "set_append_batch crc now rs S = (r, S')"
  obtains (rejected) e where "r = Inl e" "S' = S"
      "rs = [] \<or> check_records (config S) rs = Inl e \<or> batch_total rs > segment_capacity S"
    | (direct) "append_active crc rs S = (r, S')" "rs \<noteq> []" "check_records (config S) rs = Inr ()"
      "batch_total rs \<le> segment_capacity S" "batch_total rs \<le> remaining_bytes (active_writer S)"
    | (no_roll) e where "r = Inl e" "rollover crc now S = (Inl e, S')" "rs \<noteq> []"
      "check_records (config S) rs = Inr ()" "batch_total rs \<le> segment_capacity S"
      "batch_total rs > remaining_bytes (active_writer S)"
    | (rolled) S1 where "rollover crc now S = (Inr (), S1)" "append_active crc rs S1 = (r, S')" "rs \<noteq> []"
      "check_records (config S) rs = Inr ()" "batch_total rs \<le> segment_capacity S"
  using assms unfolding set_append_batch_def segment_capacity_def [symmetric]
  by (auto simp: Let_def split: if_splits sum.splits prod.splits)

subsection \<open>Properties\<close>

text \<open>
  Segment file names: formatting a base position and parsing the name back gives the position, for every
  64-bit position, so distinct segments have distinct names and a directory listing recovers every base.
\<close>
theorem segment_name_roundtrip:
  assumes "base \<le> U64_MAX"
  shows "parse_base_position (segment_file_name base) = Some base"
  using assms by (rule parse_segment_file_name)

theorem segment_name_roundtrip_witness:
  "segment_file_name 42 = ''00000000000000000042.log'' \<and>
   parse_base_position ''00000000000000000042.log'' = Some 42"
proof -
  have "segment_file_name 42 = ''00000000000000000042.log''" by code_simp
  then show ?thesis using segment_name_roundtrip [of 42] by simp
qed

text \<open>A fresh set on an empty directory, with segments of 128 bytes.\<close>
definition demo_set :: SegmentSet where
  "demo_set = (case SegmentSet_open crc_demo 0 (SegmentConfig_new 128) [] [] of Inr S \<Rightarrow> S)"

lemma wf_config_new:
  assumes "128 \<le> sz" and "sz \<le> U32_MAX"
  shows "wf_config (SegmentConfig_new sz)"
proof -
  have "sz div 4 + 17 \<le> sz - 64" "8 \<le> sz div 4" "sz div 4 \<le> 1073741823" using assms by linarith+
  then show ?thesis
    using assms by (simp add: wf_config_def SegmentConfig_validate_def SegmentConfig_new_def SEGMENT_HEADER_SIZE_def
        RECORD_HEAD_SIZE_8 COMMIT_MARKER_PAYLOAD_9 MAX_RECORD_LEN_val Let_def)
qed

text \<open>Its file: the header of segment 1, then \<open>body\<close>.\<close>
definition demo_content :: "bytes \<Rightarrow> bytes" where
  "demo_content body =
     [69, 86, 84, 83, 0, 0, 0, 0, 0, 0, 0, 0, 0, 0, 1, 0, 0, 0, 0, 0, 0, 0, 0, 0, 0, 0, 0, 0, 0, 0, 0, 0,
      0, 0, 0, 0, 0, 0, 0, 0, 0, 0, 0, 0, 0, 0, 0, 0, 0, 0, 0, 0, 0, 0, 0, 0, 0, 0, 0, 0, 68, 1, 0, 0] @ body"

lemma demo_set_eq [code]:
  "demo_set =
     \<lparr>config = SegmentConfig_new 128, sealed = [],
      active = \<lparr>seg_base = 1, seg_path = ''00000000000000000001.log'', seg_flushed = Some 64, offsets = [],
                seg_file = demo_content (replicate 64 0)\<rparr>,
      active_writer = \<lparr>content = demo_content (replicate 64 0), cursor = 64, size = 128, start_offset = 64,
                       write_offset = 64, flushed_offset = 64, dirty = False, max_record = 32,
                       last_position = None, faults = []\<rparr>,
      next_position = 1, dir_names = [''00000000000000000001.log'']\<rparr>"
  by code_simp

text \<open>Opening an empty directory gives a set that satisfies the invariant and holds the empty log.\<close>
lemma open_empty:
  assumes "wf_config c" and "list_all (\<lambda>f. f = None) fs"
  shows "\<exists>S. SegmentSet_open crc now c [] fs = Inr S \<and> set_inv crc S \<and> log_of S = [] \<and>
           no_faults (active_writer S) \<and> config S = c \<and> dir_names S = [segment_file_name 1]"
proof -
  have nf: "\<not> list_ex (\<lambda>f. f \<noteq> None) (take 5 fs)" and nd: "list_all (\<lambda>f. f = None) (drop 5 fs)"
    using assms(2) by (auto simp: list_all_iff list_ex_iff dest: in_set_takeD in_set_dropD)
  obtain w seg names where cs: "create_segment crc now c FIRST_POSITION [] fs = (Inr (w, seg), names)"
    and nw: "no_faults w"
    using wf_config_sizes [OF assms(1)] nf nd
    by (cases "drop 5 fs"; cases "tl (drop 5 fs)")
      (auto simp: create_segment_def Let_def Writer_create_def configure_writer_def set_max_record_def
        write_all_at_def file_op_def next_fault_def pop_fault_def no_faults_def)
  note c = create_segment_ok [OF cs assms(1)]
  let ?S = "\<lparr>config = c, sealed = [], active = seg, active_writer = w, next_position = FIRST_POSITION, dir_names = names\<rparr>"
  have "SegmentSet_open crc now c [] fs = Inr ?S"
    using assms(1) cs by (simp add: SegmentSet_open_def segment_entries_def List.map_filter_simps wf_config_def comp_def)
  moreover have "set_inv crc ?S"
    using assms(1) c by (auto simp: set_inv_def event_count_def intro!: exI [of _ "[]"])
  moreover have "log_of ?S = []" using c(7) by (simp add: log_of_def seg_records_def)
  ultimately show ?thesis using nw c(11) by (auto simp: FIRST_POSITION_def)
qed

lemma demo_set_facts:
  "set_inv crc_demo demo_set" "log_of demo_set = []" "no_faults (active_writer demo_set)"
  "dir_names demo_set = [segment_file_name 1]" "config demo_set = SegmentConfig_new 128"
proof -
  have "wf_config (SegmentConfig_new 128)" by (rule wf_config_new) simp_all
  from open_empty [OF this, of "[]" crc_demo 0] show
    "set_inv crc_demo demo_set" "log_of demo_set = []" "no_faults (active_writer demo_set)"
    "dir_names demo_set = [segment_file_name 1]" "config demo_set = SegmentConfig_new 128"
    by (auto simp: demo_set_def)
qed

lemma append_batch_log_cases:
  assumes "set_inv crc S" and "set_append_batch crc now records S = (r, S')"
  shows "case r of
           Inr (first, lst) \<Rightarrow>
             set_inv crc S' \<and> log_of S' = log_of S @ records \<and> records \<noteq> [] \<and>
             first = length (log_of S) + 1 \<and> lst = length (log_of S') \<and> next_position S' = lst + 1
         | Inl e \<Rightarrow> log_of S' = log_of S \<and> next_position S' = next_position S"
  using assms(2)
proof (cases rule: set_append_batch_cases)
  case direct
  show ?thesis
  proof (cases r)
    case (Inl e)
    then show ?thesis using append_active_fail [OF assms(1)] direct(1) by simp
  next
    case (Inr fl)
    obtain first lst where "fl = (first, lst)" by fastforce
    then show ?thesis
      using append_active_ok [OF assms(1) _ direct(2), of first lst S'] direct Inr length_log_of [OF assms(1)]
      by (auto simp: check_records_ok Suc_le_eq)
  qed
next
  case (rolled S1)
  note ro = rollover_ok [OF assms(1) rolled(1)]
  show ?thesis
  proof (cases r)
    case (Inl e)
    then show ?thesis using append_active_fail [of crc S1] rolled(2) ro by simp
  next
    case (Inr fl)
    obtain first lst where "fl = (first, lst)" by fastforce
    then show ?thesis
      using append_active_ok [of crc S1 records first lst S'] rolled Inr ro length_log_of [OF assms(1)]
      by (auto simp: check_records_ok Suc_le_eq)
  qed
next
  case (no_roll e)
  then show ?thesis using rollover_fail [OF assms(1)] by simp
qed simp

lemma append_batch_log:
  assumes "set_inv crc S" and "set_append_batch crc now records S = (Inr (first, lst), S')"
  shows "set_inv crc S'" and "log_of S' = log_of S @ records" and "records \<noteq> []"
    and "first = length (log_of S) + 1" and "lst = length (log_of S')" and "next_position S' = lst + 1"
  using append_batch_log_cases [OF assms] by auto

lemma append_batch_log_failed:
  assumes "set_inv crc S" and "set_append_batch crc now records S = (Inl e, S')"
  shows "log_of S' = log_of S" and "next_position S' = next_position S"
  using append_batch_log_cases [OF assms] by auto

text \<open>
  The segments after a batch, accepted or not: the same sealed segments and the same active base, or the old
  active segment sealed and a new one at the next position. Every segment still holds well-formed frames.
\<close>
lemma append_batch_shape:
  assumes "set_inv crc S" and "set_append_batch crc now records S = (r, S')"
  shows "config S' = config S \<and> (\<exists>fs. seg_holds crc (header_size (config S)) (active S') fs) \<and>
     (sealed S' = sealed S \<and> seg_base (active S') = seg_base (active S) \<or>
      sealed S' = sealed S @ [active S] \<and> seg_base (active S') = next_position S)"
proof -
  have inv: "set_inv crc T \<Longrightarrow> \<exists>fs. seg_holds crc (header_size (config T)) (active T) fs" for T
    using set_inv_segments [of crc T "active T"] by auto
  have act: "config S' = config T \<and> sealed S' = sealed T \<and> seg_base (active S') = seg_base (active T) \<and>
      (\<exists>fs. seg_holds crc (header_size (config T)) (active S') fs)"
    if T: "set_inv crc T" "append_active crc records T = (r, S')" "records \<noteq> []" "[] \<notin> set records" for T
  proof (cases r)
    case (Inl e)
    then show ?thesis using append_active_fail [OF T(1)] T(2) by blast
  next
    case (Inr fl)
    then obtain a b where "r = Inr (a, b)" by (cases fl) auto
    then show ?thesis using append_active_ok [OF T(1,4,3), of a b S'] inv [of S'] T(2) by auto
  qed
  show ?thesis using assms(2)
  proof (cases rule: set_append_batch_cases)
    case direct
    then show ?thesis using act [OF assms(1)] by (auto simp: check_records_ok)
  next
    case (rolled S1)
    then show ?thesis using act [of S1] rollover_ok [OF assms(1) rolled(1)] by (auto simp: check_records_ok)
  next
    case (no_roll e)
    then show ?thesis using rollover_fail [OF assms(1), of now e S'] inv [OF assms(1)] by simp
  qed (use inv [OF assms(1)] in simp)
qed

text \<open>The set a batch is written to (after any rollover), and its writer when the writing ends.\<close>
definition batch_target :: "crc_fun \<Rightarrow> nat \<Rightarrow> bytes list \<Rightarrow> SegmentSet \<Rightarrow> SegmentSet" where
  "batch_target crc now records S =
     (if batch_total records > remaining_bytes (active_writer S) then snd (rollover crc now S) else S)"

definition batch_writer :: "crc_fun \<Rightarrow> nat \<Rightarrow> bytes list \<Rightarrow> SegmentSet \<Rightarrow> Writer" where
  "batch_writer crc now records S =
     (let T = batch_target crc now records S
      in snd (write_batch crc (seg_path (active T)) records (next_position T + length records - 1) (active_writer T)))"

text \<open>
  Nothing was rewound after a failed write: no record was accounted yet, so \<open>rewind_to\<close> returns at once, or
  its seek fails too.
\<close>
definition rewind_skipped :: "crc_fun \<Rightarrow> nat \<Rightarrow> bytes list \<Rightarrow> SegmentSet \<Rightarrow> bool" where
  "rewind_skipped crc now records S \<longleftrightarrow>
     write_offset (batch_writer crc now records S) \<le> write_offset (active_writer (batch_target crc now records S)) \<or>
     next_fault (batch_writer crc now records S) \<noteq> None"

lemma append_active_rewound:
  assumes "set_inv crc S" and "append_active crc rs S = (Inl e, S')"
    and "w = snd (write_batch crc (seg_path (active S)) rs (next_position S + length rs - 1) (active_writer S))"
    and "write_offset (active_writer S) < write_offset w" and "next_fault w = None"
  shows "set_inv crc S'"
proof -
  have "rewind_to (write_offset (active_writer S)) w
      = (Inr (), (pop_fault w)\<lparr>cursor := write_offset (active_writer S), write_offset := write_offset (active_writer S),
          dirty := write_offset (active_writer S) > flushed_offset w\<rparr>)"
    using assms(4,5) by (simp add: rewind_to_def seek_to_def and_then_def pop_fault_def)
  then have "cursor (active_writer S') = write_offset (active_writer S) \<and>
      write_offset (active_writer S') = write_offset (active_writer S)"
    using assms(2,3) by (auto simp: append_active_def Let_def split: sum.splits prod.splits)
  then show ?thesis using append_active_fail [OF assms(1,2)] by blast
qed

text \<open>A failed batch keeps the invariant, so that later batches append where it would have, if it was rewound.\<close>
lemma append_batch_rewound:
  assumes "set_inv crc S" and "set_append_batch crc now records S = (Inl e, S')"
    and "\<not> rewind_skipped crc now records S"
  shows "set_inv crc S'"
proof -
  let ?w = "batch_writer crc now records S"
  have skip: "write_offset (active_writer (batch_target crc now records S)) < write_offset ?w" "next_fault ?w = None"
    using assms(3) by (auto simp: rewind_skipped_def)
  have act: "set_inv crc S'" if "append_active crc records S = (Inl e, S')"
    "\<not> remaining_bytes (active_writer S) < batch_total records"
  proof -
    have T: "batch_target crc now records S = S" using that(2) by (simp add: batch_target_def)
    show ?thesis
      by (rule append_active_rewound [OF assms(1) that(1), of ?w])
        (use skip in \<open>simp_all add: T batch_writer_def Let_def\<close>)
  qed
  show ?thesis using assms(2)
  proof (cases rule: set_append_batch_cases)
    case rejected
    then show ?thesis using assms(1) by simp
  next
    case direct
    then show ?thesis using act by simp
  next
    case (no_roll e')
    then show ?thesis using rollover_fail [OF assms(1)] by blast
  next
    case (rolled S1)
    show ?thesis
    proof (cases "batch_total records > remaining_bytes (active_writer S)")
      case True
      then have T: "batch_target crc now records S = S1" using rolled(1) by (simp add: batch_target_def)
      show ?thesis
        by (rule append_active_rewound [OF conjunct1 [OF rollover_ok [OF assms(1) rolled(1)]] rolled(2), of ?w])
          (use skip in \<open>simp_all add: T batch_writer_def Let_def\<close>)
    next
      case False
      then show ?thesis
        using act rolled(3-5) assms(2) by (simp add: set_append_batch_def Let_def segment_capacity_def)
    qed
  qed
qed

text \<open>
  C4. Appending refines appending to a list: whatever the fault schedule, a successful \<open>append_batch\<close> (with
  or without a rollover, over any number of segments) makes the log the old log followed by exactly the
  batch, assigns the batch the next consecutive positions and keeps the set's invariant. A failed one
  leaves the log and the next position as they were, and keeps the invariant too, so that the next batches
  are written where the failed one began: rejected, failing to roll over, or written in part and rewound.
  The exception is a failed write that is not rewound: nothing of the batch was accounted yet, so that
  \<open>rewind_to\<close> returns at once with the file cursor where the failed write left it, or its seek failed too.
\<close>
theorem append_batch_refines_log:
  assumes "set_inv crc S" and "set_append_batch crc now records S = (r, S')"
  shows "case r of
           Inr (first, lst) \<Rightarrow>
             set_inv crc S' \<and> log_of S' = log_of S @ records \<and> records \<noteq> [] \<and>
             first = length (log_of S) + 1 \<and> lst = length (log_of S') \<and> next_position S' = lst + 1
         | Inl e \<Rightarrow> log_of S' = log_of S \<and> next_position S' = next_position S \<and>
             (set_inv crc S' \<or> rewind_skipped crc now records S)"
  using append_batch_log_cases [OF assms] append_batch_rewound [OF assms(1), of now records _ S'] assms(2)
  by (auto split: sum.splits)

theorem append_batch_refines_log_witness:
  "\<exists>S'. set_append_batch crc_demo 0 [[7], [8, 9]] demo_set = (Inr (1, 2), S') \<and> log_of S' = [[7], [8, 9]]"
proof -
  have "fst (set_append_batch crc_demo 0 [[7], [8, 9]] demo_set) = Inr (1, 2)" by code_simp
  then obtain S' where run: "set_append_batch crc_demo 0 [[7], [8, 9]] demo_set = (Inr (1, 2), S')"
    by (metis prod.collapse)
  from append_batch_refines_log [OF demo_set_facts(1) run] show ?thesis
    using demo_set_facts(2) run by auto
qed

text \<open>
  Without I/O errors \<open>append_batch\<close> is total and exact: it rejects an empty batch, the first empty or
  over-long record, or a batch that cannot fit an empty segment, each with its own error and no effect;
  every other batch is accepted, rolling over first when it does not fit the active segment.
\<close>
theorem append_batch_total:
  assumes "set_inv crc S" and "no_faults (active_writer S)"
    and "segment_file_name (next_position S) \<notin> set (dir_names S)"
  shows "\<exists>S'. set_append_batch crc now records S =
           (if records = [] then Inl EmptyBatch
            else case check_records (config S) records of
              Inl e \<Rightarrow> Inl e
            | Inr _ \<Rightarrow>
                if batch_total records > segment_capacity S
                then Inl (BatchTooLarge (batch_total records) (segment_capacity S))
                else Inr (length (log_of S) + 1, length (log_of S) + length records), S') \<and>
         no_faults (active_writer S') \<and> set_inv crc S'"
proof -
  let ?run = "set_append_batch crc now records S"
  have n: "next_position S = length (log_of S) + 1" by (rule length_log_of [OF assms(1)])
  have keep: "config S1 = config S \<Longrightarrow> segment_capacity S1 = segment_capacity S" for S1
    by (simp add: segment_capacity_def)
  consider (bad) "records = []" | (rec) e where "records \<noteq> []" "check_records (config S) records = Inl e"
    | (big) "records \<noteq> []" "check_records (config S) records = Inr ()" "batch_total records > segment_capacity S"
    | (direct) "records \<noteq> []" "check_records (config S) records = Inr ()"
        "batch_total records \<le> segment_capacity S" "batch_total records \<le> remaining_bytes (active_writer S)"
    | (roll) "records \<noteq> []" "check_records (config S) records = Inr ()"
        "batch_total records \<le> segment_capacity S" "batch_total records > remaining_bytes (active_writer S)"
    by (cases "check_records (config S) records") (auto simp: not_less [symmetric])
  then show ?thesis
  proof cases
    case direct
    obtain S' where S': "append_active crc records S = (Inr (next_position S, next_position S + length records - 1), S')"
      "no_faults (active_writer S')"
      using append_active_total [OF assms(1,2) direct(2,4)] by blast
    have "set_inv crc S'"
      using append_active_ok [OF assms(1) _ direct(1) S'(1)] direct(2) by (simp add: check_records_ok)
    then show ?thesis using direct S' n by (simp add: set_append_batch_def segment_capacity_def)
  next
    case roll
    obtain S1 where S1: "rollover crc now S = (Inr (), S1)" "no_faults (active_writer S1)"
      using rollover_total [OF assms] by blast
    note ro = rollover_ok [OF assms(1) S1(1)]
    have chk: "check_records (config S1) records = Inr ()" using roll(2) ro by simp
    have inv1: "set_inv crc S1" and rem: "batch_total records \<le> remaining_bytes (active_writer S1)"
      using ro roll(3) keep [of S1] by simp_all
    obtain S' where S': "append_active crc records S1 = (Inr (next_position S1, next_position S1 + length records - 1), S')"
      "no_faults (active_writer S')"
      using append_active_total [OF inv1 S1(2) chk rem] by blast
    have "set_inv crc S'"
      using append_active_ok [of crc S1 records _ _ S'] S'(1) ro roll(1) chk by (simp add: check_records_ok)
    then show ?thesis using roll S1 S' ro n by (simp add: set_append_batch_def segment_capacity_def)
  qed (use assms in \<open>auto simp: set_append_batch_def segment_capacity_def\<close>)
qed

text \<open>The demonstration set after a first batch.\<close>
definition demo_set1 :: SegmentSet where
  "demo_set1 = snd (set_append_batch crc_demo 0 [[7], [8, 9]] demo_set)"

lemma demo_set1_eq [code]:
  "demo_set1 =
     (let f = demo_content ([1, 0, 0, 0, 9, 0, 0, 0, 7, 2, 0, 0, 0, 20, 0, 0, 0, 8, 9, 9, 0, 0, 64, 77, 0, 0, 0, 1,
                             2, 0, 0, 0, 0, 0, 0, 0] @ replicate 28 0)
      in \<lparr>config = SegmentConfig_new 128, sealed = [],
          active = \<lparr>seg_base = 1, seg_path = ''00000000000000000001.log'', seg_flushed = Some 100,
                    offsets = [64, 73], seg_file = f\<rparr>,
          active_writer = \<lparr>content = f, cursor = 100, size = 128, start_offset = 64,
                           write_offset = 100, flushed_offset = 100, dirty = False, max_record = 32,
                           last_position = Some 2, faults = []\<rparr>,
          next_position = 3, dir_names = [''00000000000000000001.log'']\<rparr>)"
  by code_simp

lemma demo_set1_facts:
  "set_inv crc_demo demo_set1" "log_of demo_set1 = [[7], [8, 9]]" "no_faults (active_writer demo_set1)"
  "next_position demo_set1 = 3"
proof -
  have "fst (set_append_batch crc_demo 0 [[7], [8, 9]] demo_set) = Inr (1, 2)" by code_simp
  then have run: "set_append_batch crc_demo 0 [[7], [8, 9]] demo_set = (Inr (1, 2), demo_set1)"
    by (metis prod.collapse demo_set1_def)
  have "set_append_batch crc_demo 0 [[7], [8, 9]] demo_set = append_active crc_demo [[7], [8, 9]] demo_set"
    by code_simp
  then have act: "append_active crc_demo [[7], [8, 9]] demo_set = (Inr (1, 2), demo_set1)" using run by simp
  note ok = append_active_ok [OF demo_set_facts(1) _ _ act]
  show "set_inv crc_demo demo_set1" "log_of demo_set1 = [[7], [8, 9]]" using ok demo_set_facts(2) by auto
  then show "next_position demo_set1 = 3" using length_log_of [of crc_demo demo_set1] by simp
  show "no_faults (active_writer demo_set1)" by code_simp
qed

theorem append_batch_total_witness:
  "\<exists>S'. set_append_batch crc_demo 0 [[5]] demo_set1 = (Inr (3, 3), S') \<and> set_inv crc_demo S' \<and>
        no_faults (active_writer S')"
proof -
  have "segment_file_name (next_position demo_set1) \<notin> set (dir_names demo_set1)" by code_simp
  moreover have "check_records (config demo_set1) [[5]] = Inr ()" by code_simp
  moreover have "batch_total [[5]] \<le> segment_capacity demo_set1" by code_simp
  ultimately show ?thesis
    using append_batch_total [OF demo_set1_facts(1,3), of 0 "[[5]]"] demo_set1_facts(2) by auto
qed

text \<open>
  Point reads are exact: \<open>read_at\<close> of a position that has been assigned finds its segment by binary
  search and returns the record appended at that position, byte for byte; every other position (zero,
  or past the end) is \<open>NotFound\<close>. No read of a consistent set fails with a read error.
\<close>
theorem read_at_exact:
  assumes "set_inv crc S"
  shows "set_read_at crc S pos =
           (if 1 \<le> pos \<and> pos \<le> length (log_of S)
            then Inr \<lparr>position = pos, rdata = log_of S ! (pos - 1)\<rparr> else Inl (NotFound pos))"
proof (cases "1 \<le> pos \<and> pos < next_position S")
  case True
  let ?segs = "src_segments (set_source S)"
  have segs: "?segs = sealed S @ [active S]" by (simp add: set_source_def)
  obtain i s where i: "i < length ?segs" "s = ?segs ! i" "src_locate (set_source S) pos = Some (i, s)"
    "pos - seg_base s < event_count s"
    "pos - 1 = sum_list (map event_count (take i ?segs)) + (pos - seg_base s)"
    using tiled_owner [OF set_inv_tiled [OF assms], of pos] True by metis
  have "s \<in> set (sealed S @ [active S])" using i(1,2) nth_mem segs by metis
  from set_inv_segments [OF assms this] obtain fs where h: "seg_holds crc (header_size (config S)) s fs" .
  have k: "pos - seg_base s < length (offsets s)" using i(4) by (simp add: event_count_def)
  obtain r where r: "fst (read_record crc 0 (seg_file s) (reader_flushed s) (offsets s ! (pos - seg_base s))
      Random ReadAheadBuf_new) = Inr r" "rec_data r = seg_records s ! (pos - seg_base s)"
    using seg_read [OF h k] by blast
  have "log_of S ! (pos - 1) = seg_records s ! (pos - seg_base s)"
    using nth_concat_segments [of i ?segs "pos - seg_base s" seg_records] i
    by (simp add: log_of_def comp_def segs)
  then show ?thesis
    using True i(3) k r length_log_of [OF assms]
    by (simp add: set_read_at_def segment_for_def seg_data_offset_def)
next
  case False
  then have "segment_for S pos = None"
    by (auto simp: segment_for_def src_locate_def locate_def Position_ZERO_def)
  then show ?thesis using False length_log_of [OF assms] by (auto simp: set_read_at_def)
qed

theorem read_at_exact_witness:
  "set_read_at crc_demo demo_set1 2 = Inr \<lparr>position = 2, rdata = [8, 9]\<rparr> \<and>
   set_read_at crc_demo demo_set1 3 = Inl (NotFound 3)"
  using read_at_exact [OF demo_set1_facts(1), of 2] read_at_exact [OF demo_set1_facts(1), of 3]
    demo_set1_facts(2)
  by simp

end
