(* ===== verification/Reopen.thy ===== *)
theory Reopen
  imports SegmentSet
begin

text \<open>
  Opening a log again (\<open>SegmentSet::open\<close>, \<open>crates/tephra/src/log/set.rs\<close>). The lemmas say what the offset
  scan computes on a run of frames, which directory a running set leaves behind (\<open>disk_inv\<close>, preserved by
  every successful batch that does not seal the remains of an interrupted one), and that opening such a
  directory after a crash, listed in any order and with the remains of an interrupted batch or rollover in
  it, gives back exactly the acknowledged log and a directory in the same order, so that crashes may repeat.
  The last part shows what happens when a segment with such remains is sealed.
\<close>

subsection \<open>The offset scan on frames\<close>

lemma next_record_control:
  assumes "ra_fresh file ra" and "flushed \<le> length file"
    and "frame_at crc (drop off (take flushed file)) = Some f" and "is_ctl f"
  obtains ra' where "ra_fresh file ra'"
    and "next_record crc H file flushed off ra = next_record crc H file flushed (off + frame_len f) ra'"
proof -
  obtain ra' where c: "control_len_at crc file flushed off ra = (Some (frame_len f), ra')" "ra_fresh file ra'"
    using control_len_at_frame [OF assms(1,2), of crc off] assms(3,4) by auto
  then have "skip_controls crc file flushed off ra = skip_controls crc file flushed (off + frame_len f) ra'"
    by (subst skip_controls.simps) simp
  then show thesis using that c(2) by (simp add: next_record_def)
qed

lemma skip_controls_stop:
  assumes "ra_fresh file ra" and "flushed \<le> length file"
    and "\<And>f. frame_at crc (drop off (take flushed file)) = Some f \<Longrightarrow> \<not> is_ctl f"
  obtains ra' where "skip_controls crc file flushed off ra = (off, ra')" and "ra_fresh file ra'"
proof -
  obtain ra' where "control_len_at crc file flushed off ra = (None, ra')" "ra_fresh file ra'"
    using control_len_at_frame [OF assms(1,2), of crc off] assms(3) by (auto split: option.splits)
  then show thesis using that by (simp add: skip_controls.simps)
qed

lemma next_record_data:
  assumes "ra_fresh file ra" and "flushed \<le> length file"
    and "frame_at crc (drop off (take flushed file)) = Some f" and "\<not> is_ctl f"
  obtains ra' where "ra_fresh file ra'"
    and "next_record crc 0 file flushed off ra =
          (Inr (Some \<lparr>rec_header = [], rec_data = frame_payload f, rec_offset = off, rec_len = frame_len f\<rparr>),
           off + frame_len f, ra')"
proof -
  obtain ra1 where s: "skip_controls crc file flushed off ra = (off, ra1)" "ra_fresh file ra1"
    using skip_controls_stop [OF assms(1,2), of crc off] assms(3,4) by auto
  from read_record_parse [OF s(2) assms(2), of crc 0 off Sequential] show thesis
    using that s(1) parse_record_parts_frame [OF assms(3), of 0] assms(4)
    by (auto simp: next_record_def to_record_def)
qed

lemma frame_at_zero_list: "list_all (\<lambda>b. b = 0) bs \<Longrightarrow> frame_at crc bs = None"
  by (intro frame_at_zeros) (auto simp: list_all_iff dest: in_set_takeD)

lemma next_record_end:
  assumes "ra_fresh file ra" and "flushed \<le> length file"
    and z: "list_all (\<lambda>b. b = 0) (drop off (take flushed file))"
  shows "fst (next_record crc H file flushed off ra) = Inr None"
proof -
  let ?b = "drop off (take flushed file)"
  obtain ra1 where s: "skip_controls crc file flushed off ra = (off, ra1)" "ra_fresh file ra1"
    using skip_controls_stop [OF assms(1,2), of crc off] frame_at_zero_list [OF z, of crc] by auto
  have p: "parse_record_parts crc H (take flushed file) off \<in>
      {Inl (OutOfBounds off RECORD_HEAD_SIZE (length (take flushed file))), Inl (TruncationMarker off)}"
  proof (cases "off + 8 \<le> length (take flushed file)")
    case True
    have "is_truncation_marker (take 8 ?b)"
      using z True by (auto simp: is_truncation_marker_def list_all_iff RECORD_HEAD_SIZE_8 dest: in_set_takeD)
    then show ?thesis unfolding parse_record_parts_drop [OF True] Let_def by simp
  next
    case False
    then show ?thesis
      by (simp only: parse_record_parts_def RECORD_HEAD_SIZE_8 not_le if_True insertI1)
  qed
  then show ?thesis
    using read_record_parse [OF s(2) assms(2), of crc H off Sequential] s(1)
    by (auto simp: next_record_def to_record_def)
qed

lemma scan_offsets_frames:
  assumes "ra_fresh file ra" and "flushed \<le> length file" and "flushed \<le> U32_MAX"
    and "drop cur (take flushed file) = concat (map (frame_bytes crc) fs) @ rest"
    and "list_all (frame_ok crc) fs" and "list_all (\<lambda>b. b = 0) rest"
  shows "scan_offsets_from crc path file flushed cur ra = Inr (data_offsets cur fs)"
  using assms(1,4,5)
proof (induction fs arbitrary: cur ra)
  case Nil
  then have "fst (next_record crc 0 file flushed cur ra) = Inr None"
    using next_record_end [OF Nil.prems(1) assms(2), of cur crc 0] assms(6) by simp
  then show ?case by (subst scan_offsets_from.simps) (auto split: prod.splits sum.splits)
next
  case (Cons f fs)
  have at: "frame_at crc (drop cur (take flushed file)) = Some f"
    using Cons.prems(2,3) by (simp add: frame_at_frame_bytes)
  have nx: "drop (cur + frame_len f) (take flushed file) = concat (map (frame_bytes crc) fs) @ rest"
    using arg_cong [OF Cons.prems(2), of "drop (frame_len f)"] by (simp add: add.commute)
  show ?case
  proof (cases "is_ctl f")
    case True
    obtain ra' where ra': "ra_fresh file ra'"
      "next_record crc 0 file flushed cur ra = next_record crc 0 file flushed (cur + frame_len f) ra'"
      using next_record_control [OF Cons.prems(1) assms(2) at True, of 0] by blast
    then have "scan_offsets_from crc path file flushed cur ra
        = scan_offsets_from crc path file flushed (cur + frame_len f) ra'"
      by (subst (1 2) scan_offsets_from.simps) simp
    then show ?thesis using Cons.IH [OF ra'(1) nx] Cons.prems(3) True by simp
  next
    case False
    have "frame_len f \<le> length (drop cur (take flushed file))" using frame_at_SomeD(3) [OF at] .
    then have "cur \<le> flushed" using RECORD_HEAD_SIZE_8 by (auto simp: frame_len_def)
    then have le: "\<not> cur > U32_MAX" using assms(3) by simp
    obtain ra' where ra': "ra_fresh file ra'" "next_record crc 0 file flushed cur ra =
          (Inr (Some \<lparr>rec_header = [], rec_data = frame_payload f, rec_offset = cur, rec_len = frame_len f\<rparr>),
           cur + frame_len f, ra')"
      using next_record_data [OF Cons.prems(1) assms(2) at False] by blast
    then show ?thesis
      using Cons.IH [OF ra'(1) nx] Cons.prems(3) False le
      by (subst scan_offsets_from.simps) simp
  qed
qed

lemma scan_offsets_zero_tail:
  assumes "length file \<le> U32_MAX" and "drop hdr file = concat (map (frame_bytes crc) fs) @ rest"
    and "list_all (frame_ok crc) fs" and "list_all (\<lambda>b. b = 0) rest"
  shows "scan_offsets crc path file None hdr = Inr (data_offsets hdr fs)"
  using scan_offsets_frames [OF ra_fresh_new order_refl assms(1), of hdr crc fs rest path] assms
  by (simp add: scan_offsets_def)

subsection \<open>The directory a running set leaves behind\<close>

text \<open>A segment file as it was created: named by its base, with its header.\<close>
definition on_disk :: "crc_fun \<Rightarrow> Segment \<Rightarrow> bool" where
  "on_disk crc seg \<longleftrightarrow>
     seg_path seg = segment_file_name (seg_base seg) \<and>
     SEGMENT_HEADER_SIZE \<le> length (seg_file seg) \<and> length (seg_file seg) \<le> U32_MAX \<and>
     (\<exists>now \<le> U64_MAX. take SEGMENT_HEADER_SIZE (seg_file seg)
                      = SegmentHeader_to_bytes crc (SegmentHeader_new now (seg_base seg)))"

text \<open>Nothing but the zeros of the allocation past the committed end.\<close>
definition zero_past :: "Segment \<Rightarrow> bool" where
  "zero_past seg \<longleftrightarrow> list_all (\<lambda>b. b = 0) (drop (reader_flushed seg) (seg_file seg))"

text \<open>The frames of the active segment end with the commit marker of the last assigned position.\<close>
definition committed_active :: "crc_fun \<Rightarrow> SegmentSet \<Rightarrow> bool" where
  "committed_active crc S \<longleftrightarrow>
     (\<exists>fs. holds_frames crc (active_writer S) fs \<and>
           offsets (active S) = data_offsets (header_size (config S)) fs \<and>
           (fs = [] \<or> (\<exists>gs. fs = gs @ [commit_frame (next_position S - 1)])))"

text \<open>
  The directory of a set. Past the committed end the sealed segments hold zeros; the active one may hold
  anything there, in particular the remains of the batch that an earlier crash interrupted.
\<close>
definition disk_inv :: "crc_fun \<Rightarrow> SegmentSet \<Rightarrow> bool" where
  "disk_inv crc S \<longleftrightarrow>
     set_inv crc S \<and> committed_active crc S \<and>
     (\<forall>seg \<in> set (sealed S @ [active S]). on_disk crc seg) \<and>
     (\<forall>seg \<in> set (sealed S). zero_past seg \<and> 0 < event_count seg) \<and>
     seg_path (active S) \<in> set (dir_names S)"

text \<open>
  The bytes past the end of the committed log after a crash: any number of whole records of a batch whose
  marker is missing, then a torn record or zeros.
\<close>
definition interrupted :: "crc_fun \<Rightarrow> bytes \<Rightarrow> bool" where
  "interrupted crc bs \<longleftrightarrow>
     (\<exists>gs rest. bs = concat (map (frame_bytes crc) gs) @ rest \<and> list_all (frame_ok crc) gs \<and>
                list_all (\<lambda>f. \<not> is_commit f) gs \<and> frame_at crc rest = None)"

text \<open>
  What an interrupted rollover leaves: nothing, or one segment file for the next position that is too short
  for a header or still all zeros there.
\<close>
definition rollover_remains :: "SegmentSet \<Rightarrow> (string \<times> bytes) list \<Rightarrow> bool" where
  "rollover_remains S extra \<longleftrightarrow>
     extra = [] \<or>
     0 < event_count (active S) \<and>
     (\<exists>z. extra = [(segment_file_name (next_position S), z)] \<and>
          (length z < SEGMENT_HEADER_SIZE \<or> list_all (\<lambda>b. b = 0) (take SEGMENT_HEADER_SIZE z)))"

text \<open>The segment files of a directory after a crash, listed in any order among other files.\<close>
definition crash_dir :: "crc_fun \<Rightarrow> SegmentSet \<Rightarrow> (string \<times> bytes) list \<Rightarrow> bool" where
  "crash_dir crc S files \<longleftrightarrow>
     (\<exists>img extra. crash_image (active_writer S) img \<and>
        interrupted crc (drop (write_offset (active_writer S)) img) \<and> rollover_remains S extra \<and>
        mset (filter (\<lambda>(path, _). parse_base_position path \<noteq> None) files) =
        mset (map (\<lambda>seg. (seg_path seg, seg_file seg)) (sealed S) @ [(seg_path (active S), img)] @ extra))"

text \<open>
  The active file after a crash in the middle of a batch: the bytes below \<open>k\<close> as the batch, run to its end,
  leaves them in \<open>Sb\<close>, and the rest as they were before it.
\<close>
definition torn_image :: "nat \<Rightarrow> SegmentSet \<Rightarrow> SegmentSet \<Rightarrow> bytes" where
  "torn_image k S Sb = take k (content (active_writer Sb)) @ drop k (content (active_writer S))"

text \<open>The segment files of a set, as a directory listing.\<close>
definition dir_of :: "SegmentSet \<Rightarrow> (string \<times> bytes) list" where
  "dir_of S = map (\<lambda>seg. (seg_path seg, seg_file seg)) (sealed S @ [active S])"

subsection \<open>Opening it\<close>

definition entry_of :: "Segment \<Rightarrow> Position \<times> string \<times> bytes" where
  "entry_of seg = (seg_base seg, seg_path seg, seg_file seg)"

lemma map_filter_filter: "List.map_filter f xs = List.map_filter f (filter (\<lambda>x. f x \<noteq> None) xs)"
  by (induction xs) (auto simp: List.map_filter_simps split: option.splits)

lemma sort_key_distinct:
  assumes "mset xs = mset ys" and "sorted (map f ys)" and "distinct (map f ys)"
  shows "sort_key f xs = ys"
proof (rule properties_for_sort_key)
  show "mset ys = mset xs" using assms(1) by simp
  show "sorted (map f ys)" by fact
  fix k assume k: "k \<in> set ys"
  have inj: "inj_on f (set ys)" using assms(3) by (simp add: distinct_map)
  have set: "set xs = set ys" using assms(1) by (metis set_mset_mset)
  have eq: "filter (\<lambda>x. f k = f x) zs = filter (\<lambda>x. x = k) zs" if "set zs = set ys" for zs
    using inj k that by (intro filter_cong) (auto dest: inj_onD)
  have "length (filter (\<lambda>x. x = k) zs) = count (mset zs) k" for zs
    by (induction zs) auto
  then have "length (filter (\<lambda>x. x = k) ys) = length (filter (\<lambda>x. x = k) xs)" using assms(1) by simp
  moreover have "filter (\<lambda>x. x = k) zs = replicate (length (filter (\<lambda>x. x = k) zs)) k" for zs
    by (induction zs) auto
  ultimately have "filter (\<lambda>x. x = k) ys = filter (\<lambda>x. x = k) xs" by metis
  then show "filter (\<lambda>x. f k = f x) ys = filter (\<lambda>x. f k = f x) xs" using eq [of ys] eq [of xs] set by simp
qed

lemma segment_entries_sorted:
  assumes "mset (filter (\<lambda>(path, _). parse_base_position path \<noteq> None) files) = mset (map snd es)"
    and "\<And>b path file. (b, path, file) \<in> set es \<Longrightarrow> parse_base_position path = Some b"
    and "sorted_wrt (<) (map fst es)"
  shows "segment_entries files = es"
proof -
  let ?f = "\<lambda>(path :: string, file :: bytes). map_option (\<lambda>b. (b, path, file)) (parse_base_position path)"
  have keep: "filter (\<lambda>x. ?f x \<noteq> None) files = filter (\<lambda>(path, _). parse_base_position path \<noteq> None) files"
    by (intro filter_cong) auto
  have mf: "mset (List.map_filter ?f xs) = image_mset (\<lambda>x. the (?f x)) (mset (filter (\<lambda>x. ?f x \<noteq> None) xs))" for xs
    by (induction xs) (auto simp: List.map_filter_simps split: option.splits)
  have "mset (List.map_filter ?f files) = image_mset (\<lambda>x. the (?f x)) (mset (map snd es))"
    unfolding mf keep assms(1) ..
  also have "\<dots> = mset (map (\<lambda>x. the (?f (snd x))) es)" by (simp add: multiset.map_comp comp_def)
  also have "map (\<lambda>x. the (?f (snd x))) es = es"
    using assms(2) by (intro map_idI) (auto split: prod.splits)
  finally have "mset (List.map_filter ?f files) = mset es" .
  then show ?thesis
    unfolding segment_entries_def using assms(3)
    by (intro sort_key_distinct) (simp_all add: strict_sorted_iff)
qed

lemma classify_all_map:
  assumes "\<And>b e. (b, e) \<in> set es \<Longrightarrow> classify_segment crc b e = Inr u"
    and "classify_all crc es' = Inr cs"
  shows "classify_all crc (es @ es') = Inr (map (Pair u) es @ cs)"
  using assms by (induction es) (auto split: prod.splits)

lemma keep_written_tail:
  assumes "list_all fst us"
  shows "keep_written (map (Pair False) vs @ us) = Inr vs"
proof (induction vs)
  case Nil
  then show ?case using assms by (cases us) auto
qed auto

lemma open_sealed_segments:
  assumes "contiguous p segs q"
    and "\<And>seg. seg \<in> set segs \<Longrightarrow> scan_offsets crc (seg_path seg) (seg_file seg) None hdr = Inr (offsets seg)"
  shows "open_sealed crc hdr p (map entry_of segs) = Inr (map (\<lambda>seg. seg\<lparr>seg_flushed := None\<rparr>) segs, q)"
  using assms
proof (induction segs arbitrary: p)
  case (Cons seg segs)
  then have "open_sealed crc hdr (p + event_count seg) (map entry_of segs)
      = Inr (map (\<lambda>seg. seg\<lparr>seg_flushed := None\<rparr>) segs, q)"
    by simp
  moreover have "seg_base seg = p" "scan_offsets crc (seg_path seg) (seg_file seg) None hdr = Inr (offsets seg)"
    using Cons.prems by simp_all
  moreover have "entry_of seg = (seg_base seg, seg_path seg, seg_file seg)" by (simp add: entry_of_def)
  ultimately show ?case by (cases seg) (simp add: event_count_def)
qed simp

lemma header_decodes:
  assumes "now \<le> U64_MAX" and "base \<le> U64_MAX"
  shows "SegmentHeader_from_bytes crc (SegmentHeader_to_bytes crc (SegmentHeader_new now base))
         = Inr (SegmentHeader_new now base)"
  using assms by (intro header_dec_enc) (simp add: wf_SegmentHeader_def SegmentHeader_new_def)

lemma on_disk_classify:
  assumes "on_disk crc seg" and "seg_base seg \<le> U64_MAX"
    and "take SEGMENT_HEADER_SIZE file = take SEGMENT_HEADER_SIZE (seg_file seg)"
    and "SEGMENT_HEADER_SIZE \<le> length file"
  shows "classify_segment crc (seg_base seg) (path, file) = Inr False"
  using assms header_decodes [of _ "seg_base seg" crc]
  by (auto simp: on_disk_def classify_segment_def read_header_def SegmentHeader_new_def)

lemma remains_classify:
  assumes "length z < SEGMENT_HEADER_SIZE \<or> list_all (\<lambda>b. b = 0) (take SEGMENT_HEADER_SIZE z)"
  shows "classify_segment crc b (path, z) = Inr True"
  using assms by (auto simp: classify_segment_def read_header_def SegmentHeader_from_bytes_def)

lemma seg_holds_unflushed:
  assumes "seg_holds crc hdr seg fs" and "on_disk crc seg \<and> zero_past seg"
  shows "seg_holds crc hdr (seg\<lparr>seg_flushed := None\<rparr>) fs"
    and "scan_offsets crc path (seg_file seg) None hdr = Inr (offsets seg)"
proof -
  let ?file = "seg_file seg" and ?fl = "reader_flushed seg"
  obtain rest where r: "drop hdr (take ?fl ?file) = concat (map (frame_bytes crc) fs) @ rest"
    "list_all (\<lambda>b. b = 0) rest"
    using assms(1) by (auto simp: seg_holds_def)
  have le: "hdr \<le> ?fl" "?fl \<le> length ?file" using assms(1) by (auto simp: seg_holds_def)
  have "drop hdr ?file = drop hdr (take ?fl ?file @ drop ?fl ?file)" by simp
  also have "\<dots> = concat (map (frame_bytes crc) fs) @ rest @ drop ?fl ?file"
    using le r(1) by (simp only: drop_append) simp
  finally have d: "drop hdr ?file = concat (map (frame_bytes crc) fs) @ (rest @ drop ?fl ?file)" by simp
  have z: "list_all (\<lambda>b. b = 0) (rest @ drop ?fl ?file)" using r(2) assms(2) by (simp add: zero_past_def)
  have len: "length ?file \<le> U32_MAX" using assms(2) by (simp add: on_disk_def)
  show "seg_holds crc hdr (seg\<lparr>seg_flushed := None\<rparr>) fs"
    using assms(1) d z len le unfolding seg_holds_def
    by (auto simp: reader_flushed_def)
  show "scan_offsets crc path ?file None hdr = Inr (offsets seg)"
    using scan_offsets_zero_tail [OF len d _ z] assms(1) by (simp add: seg_holds_def)
qed

text \<open>Recovery of the active segment's file ends exactly at the committed log.\<close>
lemma recover_crash_image:
  assumes "writer_inv w" and "flushed_offset w = write_offset w" and "holds_frames crc w fs"
    and "fs = [] \<or> (\<exists>gs. fs = gs @ [commit_frame pos])" and "pos \<le> U64_MAX"
    and "crash_image w img" and "interrupted crc (drop (write_offset w) img)"
  shows "recover crc img (size w) (start_offset w)
         = \<lparr>committed_offset = write_offset w, rec_last_position = (if fs = [] then None else Some pos)\<rparr>"
proof -
  let ?st = "\<lparr>committed_offset = start_offset w, rec_last_position = None\<rparr>"
  obtain rest where img: "drop (start_offset w) (take (size w) img) = concat (map (frame_bytes crc) fs) @ rest"
    and off: "write_offset w = start_offset w + frames_len fs"
    using holds_frames_image [OF assms(3,1,2,6)] .
  obtain gs r where gs: "drop (write_offset w) img = concat (map (frame_bytes crc) gs) @ r"
    "list_all (frame_ok crc) gs" "list_all (\<lambda>f. \<not> is_commit f) gs" "frame_at crc r = None"
    using assms(7) by (auto simp: interrupted_def)
  have full: "take (size w) img = img" using assms(6) by (simp add: crash_image_def)
  have "rest = drop (frames_len fs) (drop (start_offset w) (take (size w) img))" using img by simp
  also have "\<dots> = drop (write_offset w) img" using off full by (simp add: add.commute)
  finally have "drop (start_offset w) (take (size w) img) = concat (map (frame_bytes crc) (fs @ gs)) @ r"
    using img gs(1) by simp
  moreover have ok: "list_all (frame_ok crc) (fs @ gs)" using assms(3) gs(2) by (simp add: holds_frames_def)
  ultimately have "recover crc img (size w) (start_offset w)
      = recover_from crc img (size w) (start_offset w + frames_len (fs @ gs)) (rec_frames (start_offset w) ?st (fs @ gs))"
    unfolding recover_def by (rule recover_from_frames)
  moreover have "drop (start_offset w + frames_len (fs @ gs)) (take (size w) img) = r"
    using arg_cong [OF gs(1), of "drop (frames_len gs)"] off full by (simp add: add.commute add.left_commute)
  ultimately have "recover crc img (size w) (start_offset w) = rec_frames (start_offset w) ?st (fs @ gs)"
    using recover_from_stop gs(4) by metis
  also have "\<dots> = rec_frames (start_offset w) ?st fs" using gs(3) by (simp add: rec_frames_append rec_frames_no_commit)
  finally show ?thesis
    using assms(4,5) off by (auto simp: rec_frames_append)
qed

lemma crash_image_holds:
  assumes "crash_image w img" and "holds_frames crc w fs" and "writer_inv w" and "flushed_offset w = write_offset w"
    and "w' = \<lparr>content = img, cursor = write_offset w, size = size w, start_offset = start_offset w,
              write_offset = write_offset w, flushed_offset = write_offset w, dirty = False,
              max_record = max_record w, last_position = lp, faults = fl\<rparr>"
  shows "writer_inv w'" and "holds_frames crc w' fs"
  using assms slice_cong_take [of "write_offset w" img "content w" "write_offset w" "start_offset w"]
  by (auto simp: writer_inv_def crash_image_def holds_frames_def)

lemma reopen_active:
  assumes "set_inv crc S" and "committed_active crc S" and "next_position S \<le> U64_MAX"
    and "crash_image (active_writer S) img" and "interrupted crc (drop (write_offset (active_writer S)) img)"
    and "list_all (\<lambda>f. f = None) (take 2 fl)"
  obtains w fs where
    "open_active crc (config S) segs (seg_base (active S)) (seg_base (active S), seg_path (active S), img) names fl
     = Inr \<lparr>config = config S, sealed = segs,
            active = share w \<lparr>seg_base = seg_base (active S), seg_path = seg_path (active S),
                       seg_flushed = Some (flushed_offset w), offsets = offsets (active S), seg_file = img\<rparr>,
            active_writer = w, next_position = next_position S, dir_names = names\<rparr>"
    and "writer_inv w" and "flushed_offset w = write_offset w" and "holds_frames crc w fs"
    and "offsets (active S) = data_offsets (header_size (config S)) fs"
    and "size w = segment_size (config S)" and "start_offset w = header_size (config S)"
    and "max_record w = max_record_len (config S)" and "seg_records (active S) = payloads fs"
    and "fs = [] \<or> (\<exists>gs. fs = gs @ [commit_frame (next_position S - 1)])"
    and "content w = img" and "write_offset w = write_offset (active_writer S)"
proof -
  let ?c = "config S" and ?w = "active_writer S"
  have inv: "wf_config ?c" "writer_inv ?w" "flushed_offset ?w = write_offset ?w" "size ?w = segment_size ?c"
    "start_offset ?w = header_size ?c" "max_record ?w = max_record_len ?c" "active S = share ?w (active S)"
    "next_position S = seg_base (active S) + event_count (active S)"
    using assms(1) by (auto simp: set_inv_def contiguous_append)
  note sizes = wf_config_sizes [OF inv(1)]
  obtain fs where fs: "holds_frames crc ?w fs" "offsets (active S) = data_offsets (header_size ?c) fs"
    "fs = [] \<or> (\<exists>gs. fs = gs @ [commit_frame (next_position S - 1)])"
    using assms(2) by (auto simp: committed_active_def)
  have recs: "seg_records (active S) = payloads fs"
    using seg_holds_records [OF share_holds [OF inv(2,3) fs(1), of "active S"]] fs(2) inv(4,5,7) sizes by simp
  let ?lp = "if fs = [] then None else Some (next_position S - 1)"
  have rec: "recover crc img (segment_size ?c) (header_size ?c)
      = \<lparr>committed_offset = write_offset ?w, rec_last_position = ?lp\<rparr>"
    using recover_crash_image [OF inv(2,3) fs(1,3) _ assms(4,5)] assms(3) inv(4,5) by simp
  define w where "w = \<lparr>content = img, cursor = write_offset ?w, size = size ?w, start_offset = start_offset ?w,
      write_offset = write_offset ?w, flushed_offset = write_offset ?w, dirty = False,
      max_record = max_record ?w, last_position = ?lp, faults = drop 2 fl\<rparr>"
  have nf: "\<not> list_ex (\<lambda>f. f \<noteq> None) (take 2 fl)" using assms(6) by (auto simp: list_all_iff list_ex_iff)
  obtain w0 where w0: "Writer_open crc img (segment_size ?c) (header_size ?c) fl = Inr w0" "configure_writer ?c w0 = w"
    using sizes nf rec inv(4-6) wf_config_hard_limit [OF inv(1)]
    by (auto simp: Writer_open_def Let_def configure_writer_def set_max_record_def w_def)
  note holds = crash_image_holds [OF assms(4) fs(1) inv(2,3) w_def]
  have "drop (header_size ?c) (take (write_offset ?w) img) = concat (map (frame_bytes crc) fs) @ []"
    using holds(2) inv(5) by (simp add: holds_frames_def w_def bslice_def drop_take)
  then have scan: "scan_offsets crc (seg_path (active S)) img (Some (flushed_offset w)) (header_size ?c) = Inr (offsets (active S))"
    unfolding scan_offsets_def using holds(1) sizes inv(4) fs(1,2)
      scan_offsets_frames [OF ra_fresh_new, of "write_offset ?w" img "header_size ?c" crc fs "[]" "seg_path (active S)"]
    by (simp add: w_def writer_inv_def holds_frames_def)
  have last: "last_position w = ?lp" by (simp add: w_def)
  have np: "next_position S = seg_base (active S) + length (offsets (active S))"
    using inv(8) by (simp add: event_count_def)
  have nz: "next_position S - 1 + 1 = next_position S" if "fs \<noteq> []"
    using assms(1) length_log_of by simp
  show thesis
  proof (rule that [OF _ holds(1) _ holds(2) fs(2) _ _ _ recs fs(3)])
    show "open_active crc ?c segs (seg_base (active S)) (seg_base (active S), seg_path (active S), img) names fl
     = Inr \<lparr>config = ?c, sealed = segs,
            active = share w \<lparr>seg_base = seg_base (active S), seg_path = seg_path (active S),
                       seg_flushed = Some (flushed_offset w), offsets = offsets (active S), seg_file = img\<rparr>,
            active_writer = w, next_position = next_position S, dir_names = names\<rparr>"
      using w0 scan last np nz by (auto simp: open_active_def)
  qed (simp_all add: w_def inv)
qed

text \<open>The bases of a set's segments ascend strictly when no sealed segment is empty.\<close>
lemma bases_strict:
  assumes "contiguous p (segs @ [act]) q" and "\<forall>seg \<in> set segs. 0 < event_count seg"
  shows "sorted_wrt (<) (map seg_base (segs @ [act]))"
  using assms
proof (induction segs arbitrary: p)
  case (Cons s segs)
  have IH: "sorted_wrt (<) (map seg_base (segs @ [act]))"
    using Cons.IH [of "p + event_count s"] Cons.prems by simp
  have "seg_base s < seg_base t" if "t \<in> set (segs @ [act])" for t
  proof -
    from that obtain i where i: "i < length (segs @ [act])" "t = (segs @ [act]) ! i"
      unfolding in_set_conv_nth by auto
    have "contiguous (p + event_count s) (segs @ [act]) q" using Cons.prems(1) by simp
    from contiguous_base [OF this i(1)] have "p + event_count s \<le> seg_base t" by (simp add: i(2))
    moreover have "seg_base s = p" "0 < event_count s" using Cons.prems by simp_all
    ultimately show ?thesis by simp
  qed
  then show ?case using IH by simp
qed simp

lemma contiguous_bound:
  assumes "contiguous p segs q" and "seg \<in> set segs"
  shows "seg_base seg + event_count seg \<le> q"
  using assms
proof (induction segs arbitrary: p)
  case (Cons s segs)
  show ?case
  proof (cases "seg = s")
    case True
    have "contiguous (p + event_count s) segs q" using Cons.prems by simp
    from contiguous_end [OF this] show ?thesis using True Cons.prems by simp
  qed (use Cons in auto)
qed simp

lemma segment_paths:
  assumes "disk_inv crc S" and "next_position S \<le> U64_MAX" and "seg \<in> set (sealed S @ [active S])"
  shows "parse_base_position (seg_path seg) = Some (seg_base seg)"
proof -
  have "contiguous FIRST_POSITION (sealed S @ [active S]) (next_position S)"
    using assms(1) by (auto simp: disk_inv_def set_inv_def)
  from contiguous_bound [OF this assms(3)] have "seg_base seg \<le> U64_MAX" using assms(2) by simp
  moreover have "seg_path seg = segment_file_name (seg_base seg)"
    using assms(1,3) by (simp only: disk_inv_def on_disk_def)
  ultimately show ?thesis by (simp add: parse_segment_file_name)
qed

text \<open>The entries of a directory after a crash, in the order opening processes them.\<close>
lemma crash_dir_entries:
  assumes "disk_inv crc S" and "next_position S \<le> U64_MAX" and "rollover_remains S extra"
    and "mset (filter (\<lambda>(path, _). parse_base_position path \<noteq> None) files) =
        mset (map (\<lambda>seg. (seg_path seg, seg_file seg)) (sealed S) @ [(seg_path (active S), img)] @ extra)"
  shows "segment_entries files = map entry_of (sealed S) @ [(seg_base (active S), seg_path (active S), img)]
           @ map (Pair (next_position S)) extra"
proof (rule segment_entries_sorted)
  let ?segs = "sealed S @ [active S]"
  let ?es = "map entry_of (sealed S) @ [(seg_base (active S), seg_path (active S), img)]
           @ map (Pair (next_position S)) extra"
  have inv: "contiguous FIRST_POSITION ?segs (next_position S)" "\<forall>seg \<in> set (sealed S). 0 < event_count seg"
    "\<forall>seg \<in> set ?segs. on_disk crc seg"
    using assms(1) by (auto simp: disk_inv_def set_inv_def)
  show "mset (filter (\<lambda>(path, _). parse_base_position path \<noteq> None) files) = mset (map snd ?es)"
    unfolding assms(4) by (simp add: entry_of_def comp_def)
  note base = segment_paths [OF assms(1,2)]
  show "parse_base_position path = Some b" if "(b, path, file) \<in> set ?es" for b path "file"
    using that base assms(2,3) parse_segment_file_name [of "next_position S"]
    by (auto simp: entry_of_def rollover_remains_def)
  have "sorted_wrt (<) (map seg_base ?segs)" by (rule bases_strict [OF inv(1,2)])
  moreover have "seg_base seg < next_position S" if "extra \<noteq> []" "seg \<in> set ?segs" for seg
    using contiguous_bound [OF inv(1) that(2)] inv(2) assms(3) that by (auto simp: rollover_remains_def)
  moreover have "length extra \<le> 1" using assms(3) by (auto simp: rollover_remains_def)
  ultimately show "sorted_wrt (<) (map fst ?es)"
    by (cases extra) (auto simp: entry_of_def sorted_wrt_append comp_def)
qed

subsection \<open>Successful operations keep the directory in order\<close>

lemma append_active_sealed: "append_active crc rs S = (r, S') \<Longrightarrow> sealed S' = sealed S"
  by (auto simp: append_active_def Let_def split: sum.splits prod.splits)

text \<open>What a successful append does to the active writer.\<close>
lemma append_active_writes:
  assumes "set_inv crc S" and "[] \<notin> set rs" and "append_active crc rs S = (Inr (first, lst), S')"
  obtains w' offs where
    "S' = S\<lparr>active_writer := w', active := share w' ((active S)\<lparr>offsets := offsets (active S) @ offs\<rparr>),
            next_position := next_position S + length rs - 1 + 1\<rparr>"
    and "offs = data_offsets (write_offset (active_writer S)) (map (Frame False) rs)"
    and "beyond (active_writer S) w'" and "flushed_offset w' = write_offset w'"
    and "\<And>fs. holds_frames crc (active_writer S) fs \<Longrightarrow>
           holds_frames crc w' (fs @ map (Frame False) rs @ [commit_frame (next_position S + length rs - 1)])"
    and "zero_tail (active_writer S) \<Longrightarrow> zero_tail w'"
proof -
  let ?w = "active_writer S" and ?lst = "next_position S + length rs - 1"
  obtain r w' where wb: "write_batch crc (seg_path (active S)) rs ?lst ?w = (r, w')" by fastforce
  then obtain offs where r: "r = Inr offs"
    and S': "S' = S\<lparr>active_writer := w', active := share w' ((active S)\<lparr>offsets := offsets (active S) @ offs\<rparr>),
                next_position := ?lst + 1\<rparr>"
    using assms(3) by (auto simp: append_active_def Let_def split: sum.splits prod.splits)
  have inv: "writer_inv ?w" "size ?w \<le> U32_MAX"
    using assms(1) wf_config_sizes [of "config S"] by (auto simp: set_inv_def wf_config_def)
  obtain off where ab: "append_batch crc (map (Pair []) rs) ?lst ?w = (Inr off, w')"
    and offs: "offs = data_offsets (write_offset ?w) (map (Frame False) rs)"
    using write_batch_append_batch [OF wb inv(1,2)] r by auto
  note eff = append_batch_effect [OF ab inv(1) rec_ok_plain [OF assms(2)]]
  show thesis by (rule that [OF S' offs eff(2) _ _ eff(8)]) (use eff(3,4,7) in simp_all)
qed

text \<open>The active segment's file stays in order; no sealed segment is touched.\<close>
lemma append_active_file:
  assumes "set_inv crc S" and "[] \<notin> set rs" and "append_active crc rs S = (Inr (first, lst), S')"
    and "on_disk crc (active S)"
  shows "on_disk crc (active S')" and "zero_past (active S) \<Longrightarrow> zero_past (active S')"
    and "sealed S' = sealed S" and "dir_names S' = dir_names S" and "seg_path (active S') = seg_path (active S)"
    and "seg_base (active S') = seg_base (active S)"
proof -
  let ?w = "active_writer S"
  obtain w' offs where
    S': "S' = S\<lparr>active_writer := w', active := share w' ((active S)\<lparr>offsets := offsets (active S) @ offs\<rparr>),
                next_position := next_position S + length rs - 1 + 1\<rparr>"
    and b: "beyond ?w w'" and fl: "flushed_offset w' = write_offset w'"
    and zt: "zero_tail ?w \<Longrightarrow> zero_tail w'"
    using append_active_writes [OF assms(1-3)] by metis
  have inv: "writer_inv ?w" "start_offset ?w = header_size (config S)"
    "SEGMENT_HEADER_SIZE \<le> header_size (config S)" "active S = share ?w (active S)"
    "flushed_offset ?w = write_offset ?w"
    using assms(1) by (auto simp: set_inv_def wf_config_def)
  have fil: "seg_file (active S) = content ?w" "reader_flushed (active S) = write_offset ?w"
    using inv(4,5) by (metis share_simps)+
  have "SEGMENT_HEADER_SIZE \<le> write_offset ?w" using inv by (simp add: writer_inv_def)
  then have "take SEGMENT_HEADER_SIZE (content w') = take SEGMENT_HEADER_SIZE (content ?w)"
    using b unfolding beyond_def by (metis min.absorb1 take_take)
  moreover have "length (content w') = length (content ?w)" using b by (simp add: beyond_def)
  ultimately show "on_disk crc (active S')" using assms(4) fil by (simp add: on_disk_def S')
  show "zero_past (active S')" if "zero_past (active S)"
    using that zt fil fl by (simp add: zero_past_def zero_tail_def S')
  show "sealed S' = sealed S" "dir_names S' = dir_names S" "seg_path (active S') = seg_path (active S)"
    "seg_base (active S') = seg_base (active S)"
    by (simp_all add: S')
qed

lemma append_active_disk:
  assumes "disk_inv crc S" and "[] \<notin> set rs" and "rs \<noteq> []"
    and "append_active crc rs S = (Inr (first, lst), S')"
  shows "disk_inv crc S'"
proof -
  have S: "set_inv crc S" "on_disk crc (active S)" using assms(1) by (simp_all add: disk_inv_def)
  let ?fr = "map (Frame False) rs @ [commit_frame (next_position S + length rs - 1)]"
  obtain w' offs where
    S': "S' = S\<lparr>active_writer := w', active := share w' ((active S)\<lparr>offsets := offsets (active S) @ offs\<rparr>),
                next_position := next_position S + length rs - 1 + 1\<rparr>"
    and offs: "offs = data_offsets (write_offset (active_writer S)) (map (Frame False) rs)"
    and hf: "\<And>fs. holds_frames crc (active_writer S) fs \<Longrightarrow> holds_frames crc w' (fs @ ?fr)"
    using append_active_writes [OF S(1) assms(2,4)] by metis
  obtain fs where fs: "holds_frames crc (active_writer S) fs"
    "offsets (active S) = data_offsets (header_size (config S)) fs"
    using assms(1) by (auto simp: disk_inv_def committed_active_def)
  have "write_offset (active_writer S) = header_size (config S) + frames_len fs"
    using holds_frames_offset [OF fs(1)] S(1) by (simp add: set_inv_def)
  then have "committed_active crc S'"
    unfolding committed_active_def S' using hf [OF fs(1)] offs fs(2)
    by (intro exI [of _ "fs @ ?fr"]) (simp add: data_offsets_append)
  moreover have "set_inv crc S'" using append_active_ok [OF S(1) assms(2-4)] by simp
  moreover note append_active_file [OF S(1) assms(2,4) S(2)]
  ultimately show ?thesis using assms(1) by (simp add: disk_inv_def)
qed

lemma create_segment_disk:
  assumes "create_segment crc now c base names fl = (Inr (w, seg), names')" and "wf_config c" and "now \<le> U64_MAX"
  shows "on_disk crc seg" and "zero_past seg"
proof -
  note c = create_segment_ok [OF assms(1,2)]
  have sz: "64 \<le> segment_size c" "segment_size c \<le> U32_MAX" "64 \<le> header_size c"
    using assms(2) wf_config_sizes [OF assms(2)] by (auto simp: wf_config_def SEGMENT_HEADER_SIZE_def)
  have fil: "seg_file seg = content w" "reader_flushed seg = header_size c"
    using c(2,9) holds_frames_offset [OF c(6,1)] c(4) by (metis share_simps(3,4) add_0_right frames_len_simps(1))+
  show "on_disk crc seg"
    using c(8,10) assms(3) sz fil
    by (auto simp: on_disk_def c(12) overwrite_def SEGMENT_HEADER_SIZE_def)
  show "zero_past seg"
    using sz fil
    by (auto simp: zero_past_def c(12) overwrite_def SEGMENT_HEADER_SIZE_def list_all_iff dest: in_set_dropD)
qed

text \<open>A rollover seals a segment with events in it and starts a file in order.\<close>
lemma rollover_files:
  assumes "disk_inv crc S" and "now \<le> U64_MAX" and "rollover crc now S = (Inr (), S')"
  shows "0 < event_count (active S)" and "committed_active crc S'" and "on_disk crc (active S')"
    and "zero_past (active S')" and "seg_path (active S') \<in> set (dir_names S')"
proof -
  have S: "set_inv crc S" using assms(1) by (simp add: disk_inv_def)
  obtain off w where sy: "sync (active_writer S) = (Inr off, w)"
    using assms(3) by (auto simp: rollover_def split: prod.splits sum.splits)
  obtain w' seg names where cs:
    "create_segment crc now (config S) (next_position S) (dir_names S) (faults w) = (Inr (w', seg), names)"
    and S': "active_writer S' = w'" "active S' = seg" "dir_names S' = names"
    using assms(3) sy by (auto simp: rollover_def Let_def split: prod.splits sum.splits)
  have wf: "wf_config (config S)" using S by (simp add: set_inv_def)
  note c = create_segment_ok [OF cs wf]
  have fresh: "segment_file_name (next_position S) \<notin> set (dir_names S)"
    using cs by (auto simp: create_segment_def Let_def split: if_splits)
  show "0 < event_count (active S)"
  proof (rule ccontr)
    assume "\<not> 0 < event_count (active S)"
    then have "next_position S = seg_base (active S)" using S by (simp add: set_inv_def contiguous_append)
    moreover have "on_disk crc (active S)" "seg_path (active S) \<in> set (dir_names S)"
      using assms(1) by (simp_all add: disk_inv_def)
    ultimately show False using fresh by (simp add: on_disk_def)
  qed
  show "committed_active crc S'"
    using c(6,7) S' by (auto simp: committed_active_def intro!: exI [of _ "[]"])
  show "on_disk crc (active S')" "zero_past (active S')"
    using create_segment_disk [OF cs wf assms(2)] S' by simp_all
  show "seg_path (active S') \<in> set (dir_names S')" using S' c(10,11) by simp
qed

lemma rollover_disk:
  assumes "disk_inv crc S" and "now \<le> U64_MAX" and "rollover crc now S = (Inr (), S')" and "zero_past (active S)"
  shows "disk_inv crc S'"
proof -
  have "set_inv crc S" using assms(1) by (simp add: disk_inv_def)
  from rollover_ok [OF this assms(3)] rollover_files [OF assms(1-3)] show ?thesis
    using assms(1,4) by (auto simp: disk_inv_def)
qed

text \<open>
  Every successful batch keeps the directory in order, unless it seals a segment that still has the remains
  of an interrupted batch in it.
\<close>
lemma append_batch_disk:
  assumes "disk_inv crc S" and "now \<le> U64_MAX"
    and "set_append_batch crc now rs S = (Inr (first, lst), S')"
    and "zero_past (active S) \<or> sealed S' = sealed S"
  shows "disk_inv crc S'" and "zero_past (active S) \<Longrightarrow> zero_past (active S')"
proof -
  have S: "set_inv crc S" "on_disk crc (active S)" using assms(1) by (simp_all add: disk_inv_def)
  have "disk_inv crc S' \<and> (zero_past (active S) \<longrightarrow> zero_past (active S'))"
    using assms(3)
  proof (cases rule: set_append_batch_cases)
    case direct
    then show ?thesis
      using append_active_disk [OF assms(1)] append_active_file [OF S(1) _ _ S(2)] by (metis check_records_ok)
  next
    case (rolled S1)
    note ro = rollover_ok [OF S(1) rolled(1)] and rf = rollover_files [OF assms(1,2) rolled(1)]
    have ne: "[] \<notin> set rs" using rolled(4) by (auto simp: check_records_ok)
    note aa = append_active_file [OF _ ne rolled(2) rf(3)]
    have "zero_past (active S)" using assms(4) aa(3) ro by auto
    then show ?thesis
      using append_active_disk [OF rollover_disk [OF assms(1,2) rolled(1)] ne rolled(3,2)] aa(2) rf(4) ro by blast
  qed simp_all
  then show "disk_inv crc S'" and "zero_past (active S) \<Longrightarrow> zero_past (active S')" by blast+
qed

lemma classify_crash_dir:
  assumes "disk_inv crc S" and "next_position S \<le> U64_MAX" and "crash_image (active_writer S) img"
    and "rollover_remains S extra"
  shows "classify_all crc ((map entry_of (sealed S) @ [(seg_base (active S), seg_path (active S), img)])
           @ map (Pair (next_position S)) extra)
       = Inr (map (Pair False) (map entry_of (sealed S) @ [(seg_base (active S), seg_path (active S), img)])
           @ map (Pair True) (map (Pair (next_position S)) extra))"
proof (rule classify_all_map)
  let ?w = "active_writer S"
  have S: "set_inv crc S" "\<And>seg. seg \<in> set (sealed S @ [active S]) \<Longrightarrow> on_disk crc seg"
    using assms(1) by (auto simp: disk_inv_def)
  have cont: "contiguous FIRST_POSITION (sealed S @ [active S]) (next_position S)"
    and w: "writer_inv ?w" "flushed_offset ?w = write_offset ?w" "start_offset ?w = header_size (config S)"
      "SEGMENT_HEADER_SIZE \<le> header_size (config S)" "active S = share ?w (active S)"
    using S(1) by (auto simp: set_inv_def wf_config_def)
  have u64: "seg_base seg \<le> U64_MAX" if "seg \<in> set (sealed S @ [active S])" for seg
    using contiguous_bound [OF cont that] assms(2) by simp
  have le: "SEGMENT_HEADER_SIZE \<le> write_offset ?w" using w by (simp add: writer_inv_def)
  have "take SEGMENT_HEADER_SIZE img = take SEGMENT_HEADER_SIZE (seg_file (active S))"
    using le assms(3) w(2) share_simps(3) [of ?w "active S"] w(5) unfolding crash_image_def
    by (metis min.absorb1 take_take)
  moreover have "SEGMENT_HEADER_SIZE \<le> length img" using le assms(3) w(1) by (simp add: crash_image_def writer_inv_def)
  ultimately have act: "classify_segment crc (seg_base (active S)) (seg_path (active S), img) = Inr False"
    using on_disk_classify [OF S(2) u64] by simp
  have sealed: "classify_segment crc (seg_base seg) (seg_path seg, seg_file seg) = Inr False"
    if "seg \<in> set (sealed S)" for seg
    using on_disk_classify [OF S(2) u64, of seg] S(2) [of seg] that by (simp add: on_disk_def)
  show "classify_segment crc b e = Inr False"
    if "(b, e) \<in> set (map entry_of (sealed S) @ [(seg_base (active S), seg_path (active S), img)])" for b e
    using that act sealed by (auto simp: entry_of_def)
  show "classify_all crc (map (Pair (next_position S)) extra) = Inr (map (Pair True) (map (Pair (next_position S)) extra))"
    using assms(4) remains_classify by (auto simp: rollover_remains_def)
qed

lemma reopen_sealed:
  assumes "set_inv crc S" and "\<And>seg. seg \<in> set (sealed S) \<Longrightarrow> on_disk crc seg \<and> zero_past seg"
  shows "open_sealed crc (header_size (config S)) FIRST_POSITION (map entry_of (sealed S))
      = Inr (map (\<lambda>seg. seg\<lparr>seg_flushed := None\<rparr>) (sealed S), seg_base (active S))"
proof (rule open_sealed_segments)
  show "contiguous FIRST_POSITION (sealed S) (seg_base (active S))"
    using assms(1) by (auto simp: set_inv_def contiguous_append)
  fix seg assume seg: "seg \<in> set (sealed S)"
  then obtain fs where "seg_holds crc (header_size (config S)) seg fs" using assms(1) by (auto simp: set_inv_def)
  then show "scan_offsets crc (seg_path seg) (seg_file seg) None (header_size (config S)) = Inr (offsets seg)"
    using seg_holds_unflushed(2) assms(2) [OF seg] by blast
qed

text \<open>The set opening builds satisfies the invariant and holds the same log.\<close>
lemma reopened_inv:
  assumes "set_inv crc S" and "\<And>seg. seg \<in> set (sealed S) \<Longrightarrow> on_disk crc seg \<and> zero_past seg"
    and "writer_inv w" and "flushed_offset w = write_offset w" and "holds_frames crc w fs"
    and "offsets (active S) = data_offsets (header_size (config S)) fs"
    and "size w = segment_size (config S)" and "start_offset w = header_size (config S)"
    and "max_record w = max_record_len (config S)" and "seg_records (active S) = payloads fs"
    and "S' = \<lparr>config = config S, sealed = map (\<lambda>seg. seg\<lparr>seg_flushed := None\<rparr>) (sealed S),
            active = share w \<lparr>seg_base = seg_base (active S), seg_path = seg_path (active S),
                       seg_flushed = Some (flushed_offset w), offsets = offsets (active S), seg_file = img\<rparr>,
            active_writer = w, next_position = next_position S, dir_names = names\<rparr>"
  shows "set_inv crc S' \<and> log_of S' = log_of S"
proof -
  let ?un = "\<lambda>seg. seg\<lparr>seg_flushed := None\<rparr> :: Segment"
  let ?act = "share w \<lparr>seg_base = seg_base (active S), seg_path = seg_path (active S),
                       seg_flushed = Some (flushed_offset w), offsets = offsets (active S), seg_file = img\<rparr>"
  have wf: "wf_config (config S)" using assms(1) by (simp add: set_inv_def)
  have "contiguous p (map ?un segs @ [?act]) q = contiguous p (segs @ [active S]) q" for p segs q
    by (induction segs arbitrary: p) (simp_all add: event_count_def)
  then have "contiguous FIRST_POSITION (map ?un (sealed S) @ [?act]) (next_position S)"
    using assms(1) by (simp add: set_inv_def)
  moreover have "\<exists>gs. seg_holds crc (header_size (config S)) (?un seg) gs" if "seg \<in> set (sealed S)" for seg
    using assms(1) seg_holds_unflushed(1) assms(2) that by (metis set_inv_def)
  ultimately have "set_inv crc S'"
    using assms(3-9) wf by (auto simp: set_inv_def assms(11) share_def)
  moreover have "seg_records ?act = payloads fs"
    using seg_holds_records [OF share_holds [OF assms(3,4,5)]] assms(6,7,8) wf_config_sizes [OF wf] by simp
  moreover have "seg_records \<circ> ?un = seg_records" by (rule ext) (simp add: seg_records_def)
  ultimately show ?thesis using assms(10) by (simp add: log_of_def assms(11))
qed

text \<open>Its directory is in order again.\<close>
lemma reopened_disk:
  assumes "disk_inv crc S" and "set_inv crc S'" and "holds_frames crc w fs"
    and "offsets (active S) = data_offsets (header_size (config S)) fs"
    and "fs = [] \<or> (\<exists>gs. fs = gs @ [commit_frame (next_position S - 1)])"
    and "content w = img" and "crash_image (active_writer S) img" and "seg_path (active S) \<in> set names"
    and S': "S' = \<lparr>config = config S, sealed = map (\<lambda>seg. seg\<lparr>seg_flushed := None\<rparr>) (sealed S),
            active = share w \<lparr>seg_base = seg_base (active S), seg_path = seg_path (active S),
                       seg_flushed = Some (flushed_offset w), offsets = offsets (active S), seg_file = img\<rparr>,
            active_writer = w, next_position = next_position S, dir_names = names\<rparr>"
  shows "disk_inv crc S'"
proof -
  have D: "\<forall>seg \<in> set (sealed S @ [active S]). on_disk crc seg" "\<forall>seg \<in> set (sealed S). 0 < event_count seg"
    "set_inv crc S"
    using assms(1) by (auto simp: disk_inv_def)
  have w: "writer_inv (active_writer S)" "flushed_offset (active_writer S) = write_offset (active_writer S)"
    "start_offset (active_writer S) = header_size (config S)" "SEGMENT_HEADER_SIZE \<le> header_size (config S)"
    "seg_file (active S) = content (active_writer S)"
    using D(3) share_simps(3) by (auto simp: set_inv_def wf_config_def) (metis share_simps(3))
  have le: "SEGMENT_HEADER_SIZE \<le> flushed_offset (active_writer S)" using w by (simp add: writer_inv_def)
  have "take SEGMENT_HEADER_SIZE img = take SEGMENT_HEADER_SIZE (seg_file (active S))"
    using assms(7) le w(5) unfolding crash_image_def by (metis min.absorb1 take_take)
  moreover have "length img = length (seg_file (active S))"
    using assms(7) w(1,5) by (simp add: crash_image_def writer_inv_def)
  ultimately have "on_disk crc (active S')" using D(1) assms(6) by (simp add: on_disk_def S')
  moreover have "on_disk crc seg \<and> zero_past seg \<and> 0 < event_count seg" if "seg \<in> set (sealed S')" for seg
  proof -
    from that obtain s where s: "s \<in> set (sealed S)" "seg = s\<lparr>seg_flushed := None\<rparr>" by (auto simp: S')
    then have "on_disk crc s" "0 < event_count s" using D(1,2) by auto
    then show ?thesis by (simp add: s(2) on_disk_def zero_past_def event_count_def reader_flushed_def)
  qed
  moreover have "committed_active crc S'"
    unfolding committed_active_def using assms(3-5) by (intro exI [of _ fs]) (simp add: S')
  ultimately show ?thesis using assms(2,8) by (simp add: disk_inv_def S')
qed

text \<open>The set that opening a directory after a crash builds.\<close>
lemma crash_open:
  assumes "disk_inv crc S" and "next_position S \<le> U64_MAX" and "crash_image (active_writer S) img"
    and "interrupted crc (drop (write_offset (active_writer S)) img)" and "rollover_remains S extra"
    and dir: "mset (filter (\<lambda>(path, _). parse_base_position path \<noteq> None) files) =
        mset (map (\<lambda>seg. (seg_path seg, seg_file seg)) (sealed S) @ [(seg_path (active S), img)] @ extra)"
    and "list_all (\<lambda>f. f = None) (take 2 fl)"
  obtains S' where "SegmentSet_open crc now (config S) files fl = Inr S'" and "disk_inv crc S'"
    and "log_of S' = log_of S" and "next_position S' = next_position S" and "config S' = config S"
    and "seg_file (active S') = img" and "offsets (active S') = offsets (active S)"
    and "seg_base (active S') = seg_base (active S)"
    and "write_offset (active_writer S') = write_offset (active_writer S)"
proof -
  let ?c = "config S" and ?act = "active S"
  have S: "set_inv crc S" "committed_active crc S" "\<And>seg. seg \<in> set (sealed S) \<Longrightarrow> on_disk crc seg \<and> zero_past seg"
    "seg_path ?act = segment_file_name (seg_base ?act)"
    using assms(1) by (auto simp: disk_inv_def on_disk_def)
  have val: "SegmentConfig_validate ?c = Inr ()" using S(1) by (simp add: set_inv_def wf_config_def)
  let ?valid = "map entry_of (sealed S) @ [(seg_base ?act, seg_path ?act, img)]"
  let ?rest = "map (Pair (next_position S)) extra"
  have ents: "segment_entries files = ?valid @ ?rest" using crash_dir_entries [OF assms(1,2,5) dir] by simp
  note cls = classify_crash_dir [OF assms(1-3,5), folded ents]
  have keep: "keep_written (map (Pair False) ?valid @ map (Pair True) ?rest) = Inr ?valid"
    by (rule keep_written_tail) (simp add: list_all_iff)
  define names where "names = filter (\<lambda>p. p \<notin> (fst \<circ> snd \<circ> snd) `
      {x \<in> set (map (Pair False) ?valid @ map (Pair True) ?rest). fst x}) (map fst files)"
  have run: "SegmentSet_open crc now ?c files fl
      = open_active crc ?c (map (\<lambda>seg. seg\<lparr>seg_flushed := None\<rparr>) (sealed S)) (seg_base ?act)
          (seg_base ?act, seg_path ?act, img) names fl"
    unfolding SegmentSet_open_def val cls sum.case keep names_def
    using reopen_sealed [OF S(1,3)] by (simp add: butlast_append)
  have "(seg_path ?act, img) \<in># mset (filter (\<lambda>(path, _). parse_base_position path \<noteq> None) files)"
    unfolding dir by simp
  then have "seg_path ?act \<in> set (map fst files)" by (auto intro: image_eqI [rotated])
  moreover have "seg_path ?act \<noteq> p" if "(p, z) \<in> set extra" for p z
  proof
    assume "seg_path ?act = p"
    then have "segment_file_name (seg_base ?act) = segment_file_name (next_position S)" "0 < event_count ?act"
      using that assms(5) S(4) by (auto simp: rollover_remains_def)
    moreover have np: "next_position S = seg_base ?act + event_count ?act"
      using S(1) by (auto simp: set_inv_def contiguous_append)
    ultimately show False
      using parse_segment_file_name [of "seg_base ?act"] parse_segment_file_name [of "next_position S"] assms(2)
      by simp
  qed
  ultimately have act_name: "seg_path ?act \<in> set names" unfolding names_def by fastforce
  show thesis
  proof (rule reopen_active [OF S(1,2) assms(2-4,7),
        where segs = "map (\<lambda>seg. seg\<lparr>seg_flushed := None\<rparr>) (sealed S)" and names = names], goal_cases)
    case (1 w fs)
    note inv = reopened_inv [OF S(1,3) 1(2-9) refl]
    show ?case
      by (rule that [OF run [unfolded 1(1)] reopened_disk [OF assms(1) conjunct1 [OF inv] 1(4,5,10,11) assms(3) act_name refl]])
        (use inv 1(11,12) in simp_all)
  qed
qed

subsection \<open>Properties\<close>

text \<open>
  C3. Crash recovery of the whole log: take a set whose batches were all acknowledged and whose sealed
  segments hold zeros past their committed end (the active one may hold the remains of earlier crashes),
  a crash at any moment of a further batch or rollover (any bytes past the committed end that do not hold a
  complete committed batch, a file for the next segment of whose header nothing was written), and the
  directory listed in any order among unrelated files. Opening it succeeds, gives exactly the acknowledged
  log and the same next position, and restores the invariant, so that the next crash is covered too.
\<close>
theorem crash_reopen:
  assumes "disk_inv crc S" and "next_position S \<le> U64_MAX" and "crash_dir crc S files"
    and "list_all (\<lambda>f. f = None) (take 2 fl)"
  shows "\<exists>S'. SegmentSet_open crc now (config S) files fl = Inr S' \<and> set_inv crc S' \<and> disk_inv crc S' \<and>
           log_of S' = log_of S \<and> next_position S' = next_position S \<and> config S' = config S"
proof -
  obtain img extra where d: "crash_image (active_writer S) img"
    "interrupted crc (drop (write_offset (active_writer S)) img)" "rollover_remains S extra"
    "mset (filter (\<lambda>(path, _). parse_base_position path \<noteq> None) files) =
        mset (map (\<lambda>seg. (seg_path seg, seg_file seg)) (sealed S) @ [(seg_path (active S), img)] @ extra)"
    using assms(3) unfolding crash_dir_def by blast
  obtain S' where "SegmentSet_open crc now (config S) files fl = Inr S'" "disk_inv crc S'"
    "log_of S' = log_of S" "next_position S' = next_position S" "config S' = config S"
    using crash_open [OF assms(1,2) d assms(4), where now = now] .
  then show ?thesis by (auto simp: disk_inv_def)
qed

text \<open>Opening an empty directory gives a set whose directory is in order.\<close>
lemma open_empty_disk:
  assumes "wf_config c" and "now \<le> U64_MAX" and "list_all (\<lambda>f. f = None) fl"
    and "SegmentSet_open crc now c [] fl = Inr S"
  shows "disk_inv crc S" and "zero_past (active S)"
proof -
  obtain w seg names where cs: "create_segment crc now c FIRST_POSITION [] fl = (Inr (w, seg), names)"
    and S: "S = \<lparr>config = c, sealed = [], active = seg, active_writer = w, next_position = FIRST_POSITION,
                 dir_names = names\<rparr>"
    using assms(1,4)
    by (auto simp: SegmentSet_open_def segment_entries_def List.map_filter_simps wf_config_def comp_def
        split: prod.splits sum.splits)
  note c = create_segment_ok [OF cs assms(1)]
  have "set_inv crc S" using open_empty [OF assms(1,3), of crc now] assms(4) by auto
  moreover have "committed_active crc S"
    using c(6,7) by (auto simp: committed_active_def S intro!: exI [of _ "[]"])
  ultimately show "disk_inv crc S"
    using create_segment_disk [OF cs assms(1,2)] c(10,11) by (simp add: disk_inv_def S)
  show "zero_past (active S)" using create_segment_disk [OF cs assms(1,2)] by (simp add: S)
qed

lemma demo_set1_disk: "disk_inv crc_demo demo_set1" "zero_past (active demo_set1)"
proof -
  have wf: "wf_config (SegmentConfig_new 128)" by (rule wf_config_new) simp_all
  from open_empty [OF wf, of "[]" crc_demo 0] obtain S where
    S: "SegmentSet_open crc_demo 0 (SegmentConfig_new 128) [] [] = Inr S" by auto
  have "disk_inv crc_demo demo_set" "zero_past (active demo_set)"
    using open_empty_disk [OF wf _ _ S] by (simp_all add: demo_set_def S)
  moreover have "fst (set_append_batch crc_demo 0 [[7], [8, 9]] demo_set) = Inr (1, 2)" by code_simp
  ultimately show "disk_inv crc_demo demo_set1" "zero_past (active demo_set1)"
    using append_batch_disk [of crc_demo demo_set 0 "[[7], [8, 9]]" 1 2 demo_set1]
    by (simp_all add: demo_set1_def prod_eq_iff)
qed

text \<open>A crash while the next batch was being written: its record is on disk, its marker is not.\<close>
definition demo_next :: SegmentSet where
  "demo_next = snd (set_append_batch crc_demo 0 [[5]] demo_set1)"

definition demo_img :: bytes where
  "demo_img = torn_image 109 demo_set1 demo_next"

lemma demo_img_eq [code]:
  "demo_img = demo_content ([1, 0, 0, 0, 9, 0, 0, 0, 7, 2, 0, 0, 0, 20, 0, 0, 0, 8, 9, 9, 0, 0, 64, 77, 0, 0, 0, 1,
     2, 0, 0, 0, 0, 0, 0, 0, 1, 0, 0, 0, 7, 0, 0, 0, 5] @ replicate 19 0)"
  by code_simp

theorem crash_reopen_witness:
  "\<exists>S'. SegmentSet_open crc_demo 0 (SegmentConfig_new 128)
          [(''LOCK'', []), (segment_file_name 3, []), (segment_file_name 1, demo_img)] [] = Inr S' \<and>
        log_of S' = [[7], [8, 9]]"
proof -
  let ?w = "active_writer demo_set1"
  have "crash_image ?w demo_img" by code_simp
  moreover have "interrupted crc_demo (drop (write_offset ?w) demo_img)"
  proof -
    have "drop (write_offset ?w) demo_img = concat (map (frame_bytes crc_demo) [Frame False [5]])
        @ replicate 19 0" by code_simp
    moreover have "frame_at crc_demo (replicate 19 0) = None" by code_simp
    moreover have "list_all (frame_ok crc_demo) [Frame False [5]]" by (simp add: frame_ok_def MAX_RECORD_LEN_val)
    ultimately show ?thesis
      unfolding interrupted_def
      by (intro exI [of _ "[Frame False [5]]"] exI [of _ "replicate 19 0"]) (simp add: is_commit_def)
  qed
  moreover have "rollover_remains demo_set1 [(segment_file_name 3, [])]"
  proof -
    have "0 < event_count (active demo_set1)" by code_simp
    then show ?thesis using demo_set1_facts(4) by (simp add: rollover_remains_def SEGMENT_HEADER_SIZE_def)
  qed
  moreover have "sealed demo_set1 = []" "seg_path (active demo_set1) = segment_file_name 1" by code_simp+
  moreover have "parse_base_position ''LOCK'' = None" by code_simp
  ultimately have "crash_dir crc_demo demo_set1
      [(''LOCK'', []), (segment_file_name 3, []), (segment_file_name 1, demo_img)]"
    unfolding crash_dir_def
    by (intro exI [of _ demo_img] exI [of _ "[(segment_file_name 3, [])]"]) (simp add: parse_segment_file_name)
  moreover have "config demo_set1 = SegmentConfig_new 128" by code_simp
  ultimately show ?thesis
    using crash_reopen [OF demo_set1_disk(1), of _ "[]" 0] demo_set1_facts(2,4) by auto
qed

subsection \<open>Sealing the remains of an interrupted batch\<close>

lemma open_sealed_append:
  "open_sealed crc hdr p (xs @ ys) =
     (case open_sealed crc hdr p xs of
        Inl e \<Rightarrow> Inl e
      | Inr (segs, q) \<Rightarrow>
          (case open_sealed crc hdr q ys of Inl e \<Rightarrow> Inl e | Inr (segs', q') \<Rightarrow> Inr (segs @ segs', q')))"
proof (induction xs arbitrary: p)
  case (Cons x xs)
  obtain base path "file" where x: "x = (base, path, file)" by (cases x)
  show ?case
  proof (cases "base = p \<and> \<not> isl (scan_offsets crc path file None hdr)")
    case True
    then obtain offs where o: "base = p" "scan_offsets crc path file None hdr = Inr offs"
      by (cases "scan_offsets crc path file None hdr") auto
    show ?thesis using Cons.IH [of "p + length offs"] o x by (auto split: sum.splits prod.splits)
  qed (auto simp: x isl_def split: sum.splits)
qed (simp split: sum.splits)

text \<open>Opening the directory of a set whose files are all in order reads the segments in their order.\<close>
lemma open_dir_of:
  assumes "set_inv crc S" and "next_position S \<le> U64_MAX"
    and "\<forall>seg \<in> set (sealed S @ [active S]). on_disk crc seg" and "\<forall>seg \<in> set (sealed S). 0 < event_count seg"
    and "open_sealed crc (header_size (config S)) FIRST_POSITION (map entry_of (sealed S)) = Inr (segs, expected)"
  shows "\<exists>names. SegmentSet_open crc now (config S) (dir_of S) fl
      = open_active crc (config S) segs expected (entry_of (active S)) names fl"
proof -
  let ?segs = "sealed S @ [active S]"
  have cont: "contiguous FIRST_POSITION ?segs (next_position S)" and val: "SegmentConfig_validate (config S) = Inr ()"
    using assms(1) by (auto simp: set_inv_def wf_config_def)
  have u64: "seg_base seg \<le> U64_MAX" if "seg \<in> set ?segs" for seg
    using contiguous_bound [OF cont that] assms(2) by simp
  have name: "parse_base_position (seg_path seg) = Some (seg_base seg)" if "seg \<in> set ?segs" for seg
    using assms(3) that parse_segment_file_name [OF u64 [OF that]] by (metis on_disk_def)
  have "segment_entries (dir_of S) = map entry_of ?segs"
  proof (rule segment_entries_sorted)
    have "filter (\<lambda>(path, _). parse_base_position path \<noteq> None) (dir_of S) = dir_of S"
      using name by (intro filter_True) (auto simp: dir_of_def)
    then show "mset (filter (\<lambda>(path, _). parse_base_position path \<noteq> None) (dir_of S)) = mset (map snd (map entry_of ?segs))"
      by (simp add: dir_of_def entry_of_def comp_def)
    show "parse_base_position path = Some b" if "(b, path, file) \<in> set (map entry_of ?segs)" for b path "file"
      using that name by (auto simp: entry_of_def)
    show "sorted_wrt (<) (map fst (map entry_of ?segs))"
      using bases_strict [OF cont assms(4)] by (simp add: entry_of_def comp_def)
  qed
  moreover have "classify_all crc (map entry_of ?segs @ []) = Inr (map (Pair False) (map entry_of ?segs) @ [])"
  proof (rule classify_all_map)
    show "classify_segment crc b e = Inr False" if "(b, e) \<in> set (map entry_of ?segs)" for b e
    proof -
      from that obtain seg where seg: "seg \<in> set ?segs" "b = seg_base seg" "e = (seg_path seg, seg_file seg)"
        by (auto simp: entry_of_def)
      then have "on_disk crc seg" using assms(3) by blast
      from on_disk_classify [OF this u64 [OF seg(1)] refl] this show ?thesis by (simp add: seg on_disk_def)
    qed
  qed simp
  moreover have "keep_written (map (Pair False) (map entry_of ?segs) @ []) = Inr (map entry_of ?segs)"
    by (rule keep_written_tail) simp
  ultimately show ?thesis
    unfolding SegmentSet_open_def using val assms(5) by (auto simp add: butlast_append)
qed

lemma bslice_prefix:
  assumes "bslice a b xs = p @ q"
  shows "take (length p) (drop a xs) = p"
proof -
  have "drop a xs = (p @ q) @ drop (b - a) (drop a xs)"
    using assms append_take_drop_id [of "b - a" "drop a xs"] by (simp add: bslice_def)
  then show ?thesis by (metis append.assoc append_eq_conv_conj)
qed

text \<open>A crash that leaves the first records of a batch and nothing of the rest of it.\<close>
lemma torn_image_records:
  assumes "disk_inv crc S" and "zero_past (active S)" and "[] \<notin> set rs"
    and "append_active crc rs S = (Inr (first, lst), Sb)" and "holds_frames crc (active_writer S) fs"
    and k: "k = write_offset (active_writer S) + frames_len (map (Frame False) (take j rs))"
  shows "crash_image (active_writer S) (torn_image k S Sb)"
    and "drop (header_size (config S)) (torn_image k S Sb)
         = concat (map (frame_bytes crc) (fs @ map (Frame False) (take j rs))) @ drop k (content (active_writer S))"
    and "list_all (frame_ok crc) (map (Frame False) (take j rs))"
    and "list_all (\<lambda>b. b = 0) (drop k (content (active_writer S)))"
proof -
  let ?w = "active_writer S" and ?gs = "map (Frame False) (take j rs)"
  let ?hs = "map (Frame False) (drop j rs) @ [commit_frame (next_position S + length rs - 1)]"
  have S: "set_inv crc S" "writer_inv ?w" "flushed_offset ?w = write_offset ?w" "active S = share ?w (active S)"
    "start_offset ?w = header_size (config S)"
    using assms(1) by (auto simp: disk_inv_def set_inv_def)
  obtain w' where w': "active_writer Sb = w'" "beyond ?w w'"
    "holds_frames crc w' (fs @ map (Frame False) rs @ [commit_frame (next_position S + length rs - 1)])"
  proof (rule append_active_writes [OF S(1) assms(3,4)], goal_cases)
    case (1 w' offs)
    show ?thesis by (rule that [of w']) (use 1 assms(5) in simp_all)
  qed
  have "map (Frame False) rs = ?gs @ map (Frame False) (drop j rs)" by (simp flip: map_append)
  then have h: "holds_frames crc w' ((fs @ ?gs) @ ?hs)" using w'(3) by simp
  show "list_all (frame_ok crc) ?gs" using h by (simp add: holds_frames_def)
  have off: "write_offset ?w = header_size (config S) + frames_len fs"
    using holds_frames_offset [OF assms(5) S(2)] S(5) by simp
  have len: "length (content w') = size ?w" "length (content ?w) = size ?w" "start_offset w' = header_size (config S)"
    using w'(2) S by (simp_all add: beyond_def writer_inv_def)
  have bs: "bslice (header_size (config S)) (write_offset w') (content w')
      = concat (map (frame_bytes crc) (fs @ ?gs)) @ concat (map (frame_bytes crc) ?hs)"
    using h len(3) by (simp add: holds_frames_def)
  have kle: "k \<le> size ?w"
    using arg_cong [OF bs, of length] len off k S(2) by (auto simp: bslice_def writer_inv_def min_def simp del: map_map split: if_splits)
  have take_k: "take (frames_len (fs @ ?gs)) (drop (header_size (config S)) (content w'))
      = concat (map (frame_bytes crc) (fs @ ?gs))"
    using bslice_prefix [OF bs] by (simp del: map_map)
  have "take (write_offset ?w) (torn_image k S Sb) = take (write_offset ?w) (content ?w)"
    using w'(1,2) k kle len by (simp add: torn_image_def beyond_def min_def)
  then show "crash_image ?w (torn_image k S Sb)"
    using S(2,3) w'(1) kle len by (simp add: crash_image_def torn_image_def writer_inv_def)
  show "drop (header_size (config S)) (torn_image k S Sb)
      = concat (map (frame_bytes crc) (fs @ ?gs)) @ drop k (content ?w)"
    using take_k w'(1) off k kle len by (simp add: torn_image_def drop_take)
  have "seg_file (active S) = content ?w" "reader_flushed (active S) = write_offset ?w"
    using S(3,4) by (metis share_simps)+
  then show "list_all (\<lambda>b. b = 0) (drop k (content ?w))"
    using assms(2) k by (auto simp: zero_past_def list_all_iff) (metis add.commute drop_drop in_set_dropD)
qed

text \<open>A batch that seals a segment with whole records past its committed end makes the directory unopenable.\<close>
lemma sealed_remains_block:
  assumes "disk_inv crc S1" and "next_position S1 \<le> U64_MAX" and "now \<le> U64_MAX"
    and "set_append_batch crc now rs S1 = (Inr (p, q), S2)" and "sealed S2 \<noteq> sealed S1"
    and scan: "scan_offsets crc (seg_path (active S1)) (seg_file (active S1)) None (header_size (config S1)) = Inr offs"
    and more: "length offs = event_count (active S1) + j" and "0 < j" and "next_position S2 \<le> U64_MAX"
  shows "SegmentSet_open crc now' (config S1) (dir_of S2) fl
    = Inl (NonContiguous (segment_file_name (next_position S1)) (next_position S1) (next_position S1 + j))"
  using assms(4)
proof (cases rule: set_append_batch_cases)
  case direct
  then show ?thesis using append_active_sealed [OF direct(1)] assms(5) by simp
next
  case (rolled S3)
  have S1: "set_inv crc S1" "on_disk crc (active S1)" "\<And>seg. seg \<in> set (sealed S1) \<Longrightarrow> on_disk crc seg \<and> zero_past seg"
    "\<forall>seg \<in> set (sealed S1). 0 < event_count seg"
    using assms(1) by (auto simp: disk_inv_def)
  have ne: "[] \<notin> set rs" using rolled(4) by (auto simp: check_records_ok)
  note ro = rollover_ok [OF S1(1) rolled(1)] and rf = rollover_files [OF assms(1,3) rolled(1)]
  have S3: "set_inv crc S3" using ro by blast
  note aa = append_active_file [OF S3 ne rolled(2) rf(3)] and ok = append_active_ok [OF S3 ne rolled(3,2)]
  have S2: "sealed S2 = sealed S1 @ [active S1]" "seg_base (active S2) = next_position S1" "config S2 = config S1"
    "set_inv crc S2"
    using aa ro ok by auto
  have np: "next_position S1 = seg_base (active S1) + event_count (active S1)"
    using S1(1) by (auto simp: set_inv_def contiguous_append)
  obtain segs where os: "open_sealed crc (header_size (config S2)) FIRST_POSITION (map entry_of (sealed S2))
      = Inr (segs, next_position S1 + j)"
    using reopen_sealed [OF S1(1,3)] scan more np by (auto simp: S2 open_sealed_append entry_of_def)
  obtain names where "SegmentSet_open crc now' (config S2) (dir_of S2) fl
      = open_active crc (config S2) segs (next_position S1 + j) (entry_of (active S2)) names fl"
    using open_dir_of [OF S2(4) assms(9) _ _ os, where now = now' and fl = fl] S1 aa(1) rf(1) by (auto simp: S2)
  then show ?thesis using S2 assms(8) aa(1) by (simp add: open_active_def entry_of_def on_disk_def)
qed simp_all

text \<open>The set that opening such a directory gives, and what a scan of its active file to the end finds.\<close>
lemma torn_open:
  assumes "disk_inv crc S" and "zero_past (active S)"
    and "set_append_batch crc now rs S = (Inr r, Sb)" and "sealed Sb = sealed S"
    and "0 < j" and "j \<le> length rs" and "next_position Sb \<le> U64_MAX"
    and "k = write_offset (active_writer S) + frames_len (map (Frame False) (take j rs))"
    and "files = dir_of (S\<lparr>active := (active S)\<lparr>seg_file := torn_image k S Sb\<rparr>\<rparr>)"
  obtains S1 offs where "SegmentSet_open crc now1 (config S) files [] = Inr S1" and "disk_inv crc S1"
    and "log_of S1 = log_of S" and "next_position S1 = next_position S" and "config S1 = config S"
    and "scan_offsets crc (seg_path (active S1)) (seg_file (active S1)) None (header_size (config S1)) = Inr offs"
    and "length offs = event_count (active S1) + j" and "next_position S \<le> U64_MAX"
proof -
  let ?w = "active_writer S" and ?gs = "map (Frame False) (take j rs)" and ?img = "torn_image k S Sb"
  obtain first lst where r: "r = (first, lst)" by fastforce
  have S: "set_inv crc S" "start_offset ?w = header_size (config S)" "writer_inv ?w" "wf_config (config S)"
    "size ?w = segment_size (config S)"
    using assms(1) by (auto simp: disk_inv_def set_inv_def)
  obtain ok: "append_active crc rs S = (Inr (first, lst), Sb)" "[] \<notin> set rs"
  proof (cases rule: set_append_batch_cases [OF assms(3) [unfolded r]])
    case 2
    then show ?thesis using that by (auto simp: check_records_ok)
  next
    case (4 S1)
    show ?thesis using append_active_sealed [OF 4(2)] rollover_ok [OF S(1) 4(1)] assms(4) by simp
  qed simp_all
  obtain fs where fs: "holds_frames crc ?w fs" "offsets (active S) = data_offsets (header_size (config S)) fs"
    using assms(1) by (auto simp: disk_inv_def committed_active_def)
  note img = torn_image_records [OF assms(1,2) ok(2,1) fs(1) assms(8)]
  have off: "write_offset ?w = header_size (config S) + frames_len fs"
    using holds_frames_offset [OF fs(1) S(3)] S(2) by simp
  have "drop (write_offset ?w) ?img = concat (map (frame_bytes crc) ?gs) @ drop k (content ?w)"
    using arg_cong [OF img(2), of "drop (frames_len fs)"] off by (simp add: add.commute)
  then have int: "interrupted crc (drop (write_offset ?w) ?img)"
    unfolding interrupted_def using img(3,4) frame_at_zero_list
    by (intro exI [of _ ?gs] exI [of _ "drop k (content ?w)"]) (auto simp: list_all_iff is_commit_def)
  have np: "next_position S \<le> U64_MAX" using append_active_ok [OF S(1) ok(2) _ ok(1)] assms(5-7) by (cases rs) auto
  have dir: "mset (filter (\<lambda>(path, _). parse_base_position path \<noteq> None) files) =
      mset (map (\<lambda>seg. (seg_path seg, seg_file seg)) (sealed S) @ [(seg_path (active S), ?img)] @ [])"
    using segment_paths [OF assms(1) np] by (simp add: assms(9) dir_of_def)
  obtain S1 where S1: "SegmentSet_open crc now1 (config S) files [] = Inr S1" "disk_inv crc S1"
    "log_of S1 = log_of S" "next_position S1 = next_position S" "config S1 = config S"
    "seg_file (active S1) = ?img" "offsets (active S1) = offsets (active S)"
    using crash_open [OF assms(1) np img(1) int _ dir, where now = now1 and fl = "[]"] by (auto simp: rollover_remains_def)
  have "length ?img \<le> U32_MAX" using img(1) S(5) wf_config_sizes [OF S(4)] by (simp add: crash_image_def)
  then have scan: "scan_offsets crc path ?img None (header_size (config S)) = Inr (data_offsets (header_size (config S)) (fs @ ?gs))" for path
    using fs(1) img(2-4) by (intro scan_offsets_zero_tail) (auto simp: holds_frames_def)
  have cnt: "length (data_offsets (header_size (config S)) (fs @ ?gs)) = event_count (active S1) + j"
    using fs(2) S1(7) assms(6) by (simp add: event_count_def payloads_def comp_def)
  show thesis by (rule that [OF S1(1-5) _ cnt np]) (use scan S1 in simp)
qed

text \<open>
  C29. Sealing makes the remains of an interrupted batch count. Take a running set and a batch that fits the
  active segment and would succeed, and crash when the first \<open>j > 0\<close> records of it are on disk and nothing of
  the rest, the commit marker included. The directory opens, with exactly the acknowledged log; recovery
  leaves the records in place past the committed end. Every acknowledged batch that then rolls over makes
  the directory impossible to open: a sealed segment is scanned to the end of its file with no regard for
  commit markers, so the \<open>j\<close> records count and the next segment does not start where it should. The comments in
  the source say such bytes are discarded by recovery and that zeros follow the committed end of every
  sealed segment.
\<close>
theorem torn_batch_blocks_reopen:
  assumes "disk_inv crc S" and "zero_past (active S)"
    and "set_append_batch crc now rs S = (Inr r, Sb)" and "sealed Sb = sealed S"
    and "0 < j" and "j \<le> length rs" and "next_position Sb \<le> U64_MAX"
    and "k = write_offset (active_writer S) + frames_len (map (Frame False) (take j rs))"
    and "files = dir_of (S\<lparr>active := (active S)\<lparr>seg_file := torn_image k S Sb\<rparr>\<rparr>)"
  shows "\<exists>S1. SegmentSet_open crc now1 (config S) files [] = Inr S1 \<and> log_of S1 = log_of S \<and>
     (\<forall>rs2 now2 p q S2. set_append_batch crc now2 rs2 S1 = (Inr (p, q), S2) \<and> sealed S2 \<noteq> sealed S1 \<and>
          now2 \<le> U64_MAX \<and> next_position S2 \<le> U64_MAX \<longrightarrow>
        log_of S2 = log_of S @ rs2 \<and>
        (\<forall>now3 fl. SegmentSet_open crc now3 (config S) (dir_of S2) fl
           = Inl (NonContiguous (segment_file_name (next_position S)) (next_position S) (next_position S + j))))"
proof (rule torn_open [OF assms, of now1], goal_cases)
  case (1 S1 offs)
  have "log_of S2 = log_of S @ rs2 \<and> (\<forall>now3 fl. SegmentSet_open crc now3 (config S) (dir_of S2) fl
           = Inl (NonContiguous (segment_file_name (next_position S)) (next_position S) (next_position S + j)))"
    if run: "set_append_batch crc now2 rs2 S1 = (Inr (p, q), S2)" "sealed S2 \<noteq> sealed S1" "now2 \<le> U64_MAX"
      "next_position S2 \<le> U64_MAX" for rs2 now2 p q S2
  proof -
    have "log_of S2 = log_of S1 @ rs2" using append_batch_log_cases [OF _ run(1)] 1(2) by (simp add: disk_inv_def)
    moreover note sealed_remains_block [OF 1(2) _ run(3,1,2) 1(6,7) assms(5) run(4)]
    ultimately show ?thesis using 1 by simp
  qed
  then show ?case using 1 by blast
qed

definition demo_crashed :: SegmentSet where
  "demo_crashed =
     (case SegmentSet_open crc_demo 0 (SegmentConfig_new 128) [(segment_file_name 1, demo_img)] [] of Inr S \<Rightarrow> S)"

lemma demo_crashed_eq [code]:
  "demo_crashed = demo_set1\<lparr>active := (active demo_set1)\<lparr>seg_file := demo_img\<rparr>,
     active_writer := (active_writer demo_set1)\<lparr>content := demo_img\<rparr>\<rparr>"
  by code_simp

theorem torn_batch_blocks_reopen_witness:
  "\<exists>S1 S2. SegmentSet_open crc_demo 0 (SegmentConfig_new 128)
              [(segment_file_name 1, demo_img)] [] = Inr S1 \<and>
     set_append_batch crc_demo 0 [replicate 22 9] S1 = (Inr (3, 3), S2) \<and>
     SegmentSet_open crc_demo 0 (SegmentConfig_new 128) (dir_of S2) [] = Inl (NonContiguous (segment_file_name 3) 3 4)"
proof -
  let ?o = "SegmentSet_open crc_demo 0 (SegmentConfig_new 128) [(segment_file_name 1, demo_img)] []"
  have "fst (set_append_batch crc_demo 0 [[5]] demo_set1) = Inr (3, 3)" by code_simp
  then have b: "set_append_batch crc_demo 0 [[5]] demo_set1 = (Inr (3, 3), demo_next)"
    by (simp add: demo_next_def prod_eq_iff)
  have f: "sealed demo_next = sealed demo_set1" "next_position demo_next = 4" "config demo_set1 = SegmentConfig_new 128"
    "109 = write_offset (active_writer demo_set1) + frames_len (map (Frame False) (take 1 [[5]]))"
    "[(segment_file_name 1, demo_img)] = dir_of (demo_set1\<lparr>active := (active demo_set1)\<lparr>seg_file := demo_img\<rparr>\<rparr>)"
    "next_position demo_set1 = 3"
    by code_simp+
  have claim: "\<exists>S1. ?o = Inr S1 \<and> log_of S1 = log_of demo_set1 \<and>
     (\<forall>rs2 now2 p q S2. set_append_batch crc_demo now2 rs2 S1 = (Inr (p, q), S2) \<and> sealed S2 \<noteq> sealed S1 \<and>
          now2 \<le> U64_MAX \<and> next_position S2 \<le> U64_MAX \<longrightarrow>
        log_of S2 = log_of demo_set1 @ rs2 \<and>
        (\<forall>now3 fl. SegmentSet_open crc_demo now3 (SegmentConfig_new 128) (dir_of S2) fl
           = Inl (NonContiguous (segment_file_name 3) 3 (3 + 1))))"
    using torn_batch_blocks_reopen [OF demo_set1_disk b f(1) _ _ _ f(4) f(5) [unfolded demo_img_def], of 0] f(2,3,6) by (simp flip: demo_img_def)
  then have opened: "?o = Inr demo_crashed" by (auto simp: demo_crashed_def)
  let ?r = "set_append_batch crc_demo 0 [replicate 22 9] demo_crashed"
  have r: "fst ?r = Inr (3, 3)" by code_simp
  then obtain S2 where run: "?r = (Inr (3, 3), S2)" by (metis prod.collapse)
  have "sealed demo_crashed = []" "sealed (snd ?r) \<noteq> []" "next_position (snd ?r) = 4" by code_simp+
  then have S2: "sealed S2 \<noteq> sealed demo_crashed" "next_position S2 \<le> U64_MAX" by (simp_all add: run)
  obtain S1 where S1: "?o = Inr S1"
    "\<And>rs2 now2 p q S2. set_append_batch crc_demo now2 rs2 S1 = (Inr (p, q), S2) \<and> sealed S2 \<noteq> sealed S1 \<and>
          now2 \<le> U64_MAX \<and> next_position S2 \<le> U64_MAX \<Longrightarrow>
        SegmentSet_open crc_demo 0 (SegmentConfig_new 128) (dir_of S2) []
           = Inl (NonContiguous (segment_file_name 3) 3 (3 + 1))"
    using claim by blast
  moreover have "S1 = demo_crashed" using S1(1) opened by simp
  ultimately have "SegmentSet_open crc_demo 0 (SegmentConfig_new 128) (dir_of S2) []
      = Inl (NonContiguous (segment_file_name 3) 3 (3 + 1))"
    using run S2 by fastforce
  then show ?thesis using opened run by (intro exI [of _ demo_crashed] exI [of _ S2]) simp
qed

end
