(* ===== verification/Scan.thy ===== *)
theory Scan
  imports SegmentSet
begin

text \<open>
  The forward and the reverse scan of the log (\<open>Scan\<close> and \<open>ScanBack\<close>, \<open>crates/tephra/src/log/set.rs\<close>).
  A scan owns its \<open>SegmentSource\<close>; its reader is the segment it was opened on with its own read-ahead
  buffer. The lending iterators are state-passing functions \<open>scan_next\<close> and \<open>scan_back_next\<close>, and
  \<open>scan_items\<close>/\<open>scan_back_items\<close> drain them for a number of calls. The theorems say that on a source
  whose segments hold their records, the forward scan yields exactly the records of the requested range in
  position order and the reverse scan exactly the same ones in descending order, whatever the window size.
\<close>

subsection \<open>The forward scan\<close>

record Scan =
  sc_source :: SegmentSource
  sc_seg_idx :: nat
  sc_offset :: nat
  sc_position :: Position
  sc_upto :: Position
  sc_reader :: "(Segment \<times> ReadAheadBuf) option"
  sc_pending_err :: "LogError option"
  sc_done :: bool

definition Scan_empty :: "SegmentSource \<Rightarrow> Scan" where
  "Scan_empty src =
     \<lparr>sc_source = src, sc_seg_idx = 0, sc_offset = 0, sc_position = Position_ZERO, sc_upto = Position_ZERO,
      sc_reader = None, sc_pending_err = None, sc_done = True\<rparr>"

definition Scan_failed :: "SegmentSource \<Rightarrow> LogError \<Rightarrow> Scan" where
  "Scan_failed src err = (Scan_empty src)\<lparr>sc_pending_err := Some err, sc_done := False\<rparr>"

definition Scan_start :: "SegmentSource \<Rightarrow> Position \<Rightarrow> Position \<Rightarrow> Scan" where
  "Scan_start src first limit =
     (if first = Position_ZERO \<or> first > limit then Scan_empty src
      else case src_locate src first of
        None \<Rightarrow> Scan_failed src (NotFound first)
      | Some (seg_idx, segment) \<Rightarrow>
          (case seg_data_offset segment (first - seg_base segment) of
             None \<Rightarrow> Scan_failed src (NotFound first)
           | Some offset \<Rightarrow>
               \<lparr>sc_source = src, sc_seg_idx = seg_idx, sc_offset = offset, sc_position = first, sc_upto = limit,
                sc_reader = map_option (\<lambda>seg. (seg, ReadAheadBuf_new)) (segment_at src seg_idx),
                sc_pending_err = None, sc_done = False\<rparr>))"

text \<open>\<open>None\<close> is the result \<open>false\<close>: there is no further segment.\<close>
definition advance_segment :: "Scan \<Rightarrow> Scan option" where
  "advance_segment sc =
     (let next_idx = sc_seg_idx sc + 1
      in case segment_at (sc_source sc) next_idx of
           None \<Rightarrow> None
         | Some segment \<Rightarrow>
             Some (sc\<lparr>sc_reader := Some (segment, ReadAheadBuf_new),
                      sc_offset := src_header_size (sc_source sc), sc_seg_idx := next_idx\<rparr>))"

definition scan_segment_path :: "SegmentSource \<Rightarrow> nat \<Rightarrow> string" where
  "scan_segment_path src idx = (case segment_at src idx of Some seg \<Rightarrow> seg_path seg | None \<Rightarrow> [])"

lemma peek_control_progress:
  assumes "(Inr (KControl n), ra') = peek file flushed off ra"
  shows "0 < n \<and> off + n \<le> flushed"
  using assms by (auto simp: peek_def Let_def RECORD_HEAD_SIZE_8 split: if_splits prod.splits sum.splits)

text \<open>The measure of the positioning loop: first the segments left, then the bytes left in the current one.\<close>
definition scan_segments_left :: "Scan \<Rightarrow> nat" where
  "scan_segments_left sc =
     2 * (length (src_segments (sc_source sc)) - sc_seg_idx sc) + (if sc_reader sc = None then 0 else 1)"

definition scan_bytes_left :: "Scan \<Rightarrow> nat" where
  "scan_bytes_left sc =
     (case sc_reader sc of None \<Rightarrow> 0 | Some (seg, _) \<Rightarrow> reader_flushed seg - sc_offset sc)"

lemma advance_segment_progress:
  "Some sc' = advance_segment sc \<Longrightarrow> sc_reader sc = None \<Longrightarrow>
   scan_segments_left sc' < scan_segments_left sc \<and> sc_reader sc' \<noteq> None \<and> sc_source sc' = sc_source sc"
  by (auto simp: advance_segment_def scan_segments_left_def segment_at_def Let_def split: if_splits)

text \<open>
  \<open>position_at_data\<close>: one iteration peeks at the current segment; the loop first opens the next segment
  when no reader is open. The result is an error, the end (\<open>Inr None\<close>) or the framed length.
\<close>
function position_at_data :: "Scan \<Rightarrow> (LogError + nat option) \<times> Scan" where
  "position_at_data sc =
     (case sc_reader sc of
        None \<Rightarrow>
          (case advance_segment sc of
             None \<Rightarrow> (Inr None, sc)
           | Some sc' \<Rightarrow> position_at_data sc')
      | Some (seg, ra) \<Rightarrow>
          (case peek (seg_file seg) (reader_flushed seg) (sc_offset sc) ra of
             (Inl err, ra') \<Rightarrow>
               (Inl (LogRead (scan_segment_path (sc_source sc) (sc_seg_idx sc)) err),
                sc\<lparr>sc_reader := Some (seg, ra')\<rparr>)
           | (Inr (KData total_len), ra') \<Rightarrow> (Inr (Some total_len), sc\<lparr>sc_reader := Some (seg, ra')\<rparr>)
           | (Inr (KControl total_len), ra') \<Rightarrow>
               position_at_data (sc\<lparr>sc_reader := Some (seg, ra'), sc_offset := sc_offset sc + total_len\<rparr>)
           | (Inr KEnd, ra') \<Rightarrow> position_at_data (sc\<lparr>sc_reader := None\<rparr>)))"
  by pat_completeness auto
termination
proof (relation "measures [scan_segments_left, scan_bytes_left]", goal_cases)
  case (2 sc sc')
  then show ?case using advance_segment_progress [of sc' sc] by simp
next
  case 3
  then show ?case by (auto simp: scan_segments_left_def scan_bytes_left_def dest!: peek_control_progress)
qed (auto simp: scan_segments_left_def)

declare position_at_data.simps [simp del]

text \<open>\<open>Scan::next\<close>: the item (\<open>None\<close> is the end of the scan) and the scan after it.\<close>
definition scan_next :: "crc_fun \<Rightarrow> Scan \<Rightarrow> (LogError + LogRecord) option \<times> Scan" where
  "scan_next crc sc =
     (case sc_pending_err sc of
        Some err \<Rightarrow> (Some (Inl err), sc\<lparr>sc_pending_err := None, sc_done := True\<rparr>)
      | None \<Rightarrow>
          if sc_done sc then (None, sc)
          else if sc_position sc > sc_upto sc then (None, sc\<lparr>sc_done := True\<rparr>)
          else case position_at_data sc of
            (Inr None, sc) \<Rightarrow> (None, sc\<lparr>sc_done := True\<rparr>)
          | (Inl err, sc) \<Rightarrow> (Some (Inl err), sc\<lparr>sc_done := True\<rparr>)
          | (Inr (Some total_len), sc) \<Rightarrow>
              let pos = sc_position sc; offset = sc_offset sc
              in case (Position_next pos, sc_reader sc) of
                   (Some next_pos, Some (seg, ra)) \<Rightarrow>
                     let sc = sc\<lparr>sc_offset := offset + total_len, sc_position := next_pos\<rparr>
                     in
                     (case read_record crc 0 (seg_file seg) (reader_flushed seg) offset Sequential ra of
                        (Inr r, ra) \<Rightarrow>
                          (Some (Inr \<lparr>position = pos, rdata = rec_data r\<rparr>), sc\<lparr>sc_reader := Some (seg, ra)\<rparr>)
                      | (Inl err, ra) \<Rightarrow>
                          (Some (Inl (LogRead (scan_segment_path (sc_source sc) (sc_seg_idx sc)) err)),
                           sc\<lparr>sc_reader := Some (seg, ra), sc_done := True\<rparr>))
                 | _ \<Rightarrow> (Some (Inl LogPanic), sc))"

text \<open>The items of the first \<open>n\<close> calls, up to the end of the scan.\<close>
fun scan_items :: "crc_fun \<Rightarrow> nat \<Rightarrow> Scan \<Rightarrow> (LogError + LogRecord) list" where
  "scan_items crc 0 sc = []"
| "scan_items crc (Suc n) sc =
     (case scan_next crc sc of (None, _) \<Rightarrow> [] | (Some item, sc) \<Rightarrow> item # scan_items crc n sc)"

definition scan_at :: "SegmentSet \<Rightarrow> Position \<Rightarrow> Scan" where
  "scan_at S first = Scan_start (set_source S) first (set_last_position S)"

definition scan_from :: "SegmentSet \<Rightarrow> Position \<Rightarrow> Scan" where
  "scan_from S pos = scan_at S (max pos FIRST_POSITION)"

definition scan_after :: "SegmentSet \<Rightarrow> Position \<Rightarrow> Scan" where
  "scan_after S pos = scan_at S (min (pos + 1) U64_MAX)"

text \<open>Each item of a scan moves the position up to the limit, so the loops over a scan end.\<close>
lemma position_at_data_keeps:
  "sc_position (snd (position_at_data sc)) = sc_position sc \<and> sc_upto (snd (position_at_data sc)) = sc_upto sc"
proof (induction sc rule: position_at_data.induct)
  case (1 sc)
  show ?case
  proof (cases "sc_reader sc")
    case None
    then show ?thesis using 1(1) [OF None]
      by (subst (1 2) position_at_data.simps) (auto simp: advance_segment_def Let_def split: option.splits)
  next
    case (Some sr)
    obtain seg ra where sr: "sr = (seg, ra)" by fastforce
    obtain k ra' where k: "peek (seg_file seg) (reader_flushed seg) (sc_offset sc) ra = (k, ra')" by fastforce
    note ih = 1(2,3) [OF Some sr [symmetric] k [symmetric]]
    show ?thesis
    proof (cases k)
      case (Inr kind)
      then show ?thesis using ih Some sr k by (cases kind) (subst (1 2) position_at_data.simps, simp)+
    qed (subst (1 2) position_at_data.simps, simp add: Some sr k)
  qed
qed

lemma scan_next_progress:
  assumes "scan_next crc sc = (Some (Inr r), sc')"
  shows "sc_upto sc' = sc_upto sc \<and> sc_position sc \<le> sc_upto sc \<and> sc_position sc' = sc_position sc + 1"
  using assms position_at_data_keeps [of sc]
  by (auto simp: scan_next_def Let_def Position_next_def split: option.splits if_splits prod.splits sum.splits)

subsection \<open>The reverse scan\<close>

definition REVERSE_WINDOW_BYTES :: nat where "REVERSE_WINDOW_BYTES = 64 * 1024"

record ScanBack =
  sb_source :: SegmentSource
  sb_first :: Position
  sb_position :: Position
  sb_window_bytes :: nat
  sb_segment :: "Segment option"
  sb_seg_idx :: nat
  sb_seg_base :: Position
  sb_seg_count :: nat
  sb_reader :: "(Segment \<times> ReadAheadBuf) option"
  sb_flushed_len :: nat
  sb_window :: bytes
  sb_win_base_byte :: nat
  sb_win_lo_local :: "nat option"
  sb_pending_err :: "LogError option"
  sb_done :: bool

definition start_with_window :: "SegmentSource \<Rightarrow> Position \<Rightarrow> Position \<Rightarrow> nat \<Rightarrow> ScanBack" where
  "start_with_window src first limit window_bytes =
     (let first = max first FIRST_POSITION
      in \<lparr>sb_source = src, sb_first = first, sb_position = limit, sb_window_bytes = max window_bytes 1,
          sb_segment = None, sb_seg_idx = 0, sb_seg_base = Position_ZERO, sb_seg_count = 0, sb_reader = None,
          sb_flushed_len = 0, sb_window = [], sb_win_base_byte = 0, sb_win_lo_local = None,
          sb_pending_err = None, sb_done = (limit = Position_ZERO \<or> first > limit)\<rparr>)"

definition ScanBack_start :: "SegmentSource \<Rightarrow> Position \<Rightarrow> Position \<Rightarrow> ScanBack" where
  "ScanBack_start src first limit = start_with_window src first limit REVERSE_WINDOW_BYTES"

definition ensure_segment :: "ScanBack \<Rightarrow> ScanBack" where
  "ensure_segment sb =
     (if sb_reader sb \<noteq> None \<and> sb_position sb \<ge> sb_seg_base sb then sb
      else case src_locate (sb_source sb) (sb_position sb) of
        Some (idx, seg) \<Rightarrow>
          sb\<lparr>sb_flushed_len := reader_flushed seg, sb_seg_base := seg_base seg, sb_seg_count := event_count seg,
             sb_seg_idx := idx, sb_reader := Some (seg, ReadAheadBuf_new), sb_segment := Some seg,
             sb_win_lo_local := None\<rparr>
      | None \<Rightarrow> sb\<lparr>sb_done := True\<rparr>)"

text \<open>The loop that extends the window downward; \<open>None\<close> is the overflow of \<open>end - cand\<close>.\<close>
fun extend_window :: "Segment \<Rightarrow> nat \<Rightarrow> nat \<Rightarrow> nat \<Rightarrow> nat \<Rightarrow> nat \<Rightarrow> (nat \<times> nat) option" where
  "extend_window seg stop_local end_byte budget 0 lo_byte = Some (0, lo_byte)"
| "extend_window seg stop_local end_byte budget (Suc l) lo_byte =
     (if Suc l > stop_local
      then case seg_data_offset seg l of
             None \<Rightarrow> Some (Suc l, lo_byte)
           | Some cand \<Rightarrow>
               if cand > end_byte then None
               else if end_byte - cand > budget then Some (Suc l, lo_byte)
               else extend_window seg stop_local end_byte budget l cand
      else Some (Suc l, lo_byte))"

text \<open>The byte just past record \<open>h\<close>: the next record's offset, or for the last one its framed length.\<close>
definition window_end :: "ScanBack \<Rightarrow> Segment \<Rightarrow> nat \<Rightarrow> nat \<Rightarrow> (LogError + nat) \<times> ScanBack" where
  "window_end sb seg h head_off =
     (if h + 1 < sb_seg_count sb
      then (Inr (min (case seg_data_offset seg (h + 1) of Some off \<Rightarrow> off | None \<Rightarrow> sb_flushed_len sb)
                     (sb_flushed_len sb)), sb)
      else case sb_reader sb of
        None \<Rightarrow> (Inl LogPanic, sb)
      | Some (rseg, ra) \<Rightarrow>
          (case peek (seg_file rseg) (reader_flushed rseg) head_off ra of
             (Inl err, ra) \<Rightarrow>
               (Inl (LogRead (scan_segment_path (sb_source sb) (sb_seg_idx sb)) err),
                sb\<lparr>sb_reader := Some (rseg, ra)\<rparr>)
           | (Inr (KData total_len), ra) \<Rightarrow>
               (Inr (min (head_off + total_len) (sb_flushed_len sb)), sb\<lparr>sb_reader := Some (rseg, ra)\<rparr>)
           | (Inr _, ra) \<Rightarrow> (Inl (NotFound (sb_position sb)), sb\<lparr>sb_reader := Some (rseg, ra)\<rparr>)))"

text \<open>The lowest local number a window of the current segment may cover.\<close>
definition stop_local :: "ScanBack \<Rightarrow> nat" where
  "stop_local sb = (if sb_first sb > sb_seg_base sb then sb_first sb - sb_seg_base sb else 0)"

definition ensure_window :: "ScanBack \<Rightarrow> (LogError + unit) \<times> ScanBack" where
  "ensure_window sb =
     (let h = sb_position sb - sb_seg_base sb
      in if (case sb_win_lo_local sb of Some lo \<Rightarrow> h \<ge> lo | None \<Rightarrow> False) then (Inr (), sb)
         else case sb_segment sb of
           None \<Rightarrow> (Inl LogPanic, sb)
         | Some seg \<Rightarrow>
             (case seg_data_offset seg h of
                None \<Rightarrow> (Inl (NotFound (sb_position sb)), sb)
              | Some head_off \<Rightarrow>
                  (case window_end sb seg h head_off of
                     (Inl err, sb) \<Rightarrow> (Inl err, sb)
                   | (Inr end_byte, sb) \<Rightarrow>
                       (case extend_window seg (stop_local sb) end_byte (sb_window_bytes sb) h head_off of
                            None \<Rightarrow> (Inl LogPanic, sb)
                          | Some (lo, lo_byte) \<Rightarrow>
                              if lo_byte > end_byte then (Inl LogPanic, sb)
                              else case sb_reader sb of
                                None \<Rightarrow> (Inl LogPanic, sb)
                              | Some (rseg, _) \<Rightarrow>
                                  (case read_bytes (seg_file rseg) (reader_flushed rseg) lo_byte (end_byte - lo_byte) of
                                     Inl err \<Rightarrow>
                                       (Inl (LogRead (scan_segment_path (sb_source sb) (sb_seg_idx sb)) err), sb)
                                   | Inr w \<Rightarrow>
                                       (Inr (), sb\<lparr>sb_window := w, sb_win_base_byte := lo_byte,
                                                   sb_win_lo_local := Some lo\<rparr>))))))"

definition scan_back_next :: "crc_fun \<Rightarrow> ScanBack \<Rightarrow> (LogError + LogRecord) option \<times> ScanBack" where
  "scan_back_next crc sb =
     (case sb_pending_err sb of
        Some err \<Rightarrow> (Some (Inl err), sb\<lparr>sb_pending_err := None, sb_done := True\<rparr>)
      | None \<Rightarrow>
          if sb_done sb \<or> sb_position sb < sb_first sb then (None, sb\<lparr>sb_done := True\<rparr>)
          else
            let sb = ensure_segment sb
            in if sb_done sb then (None, sb)
               else case ensure_window sb of
                 (Inl err, sb) \<Rightarrow> (Some (Inl err), sb\<lparr>sb_done := True\<rparr>)
               | (Inr _, sb) \<Rightarrow>
                   let pos = sb_position sb; local = pos - sb_seg_base sb
                   in case sb_segment sb of
                        None \<Rightarrow> (Some (Inl LogPanic), sb)
                      | Some seg \<Rightarrow>
                          (case seg_data_offset seg local of
                             None \<Rightarrow> (Some (Inl (NotFound pos)), sb\<lparr>sb_done := True\<rparr>)
                           | Some byte \<Rightarrow>
                               if byte < sb_win_base_byte sb \<or> pos = 0 then (Some (Inl LogPanic), sb)
                               else
                                 let rel = byte - sb_win_base_byte sb; sb = sb\<lparr>sb_position := pos - 1\<rparr>
                                 in case parse_record_ref crc 0 (sb_window sb) rel of
                                      Inr (data, _) \<Rightarrow> (Some (Inr \<lparr>position = pos, rdata = data\<rparr>), sb)
                                    | Inl err \<Rightarrow>
                                        (Some (Inl (LogRead (scan_segment_path (sb_source sb) (sb_seg_idx sb)) err)),
                                         sb\<lparr>sb_done := True\<rparr>)))"

fun scan_back_items :: "crc_fun \<Rightarrow> nat \<Rightarrow> ScanBack \<Rightarrow> (LogError + LogRecord) list" where
  "scan_back_items crc 0 sb = []"
| "scan_back_items crc (Suc n) sb =
     (case scan_back_next crc sb of (None, _) \<Rightarrow> [] | (Some item, sb) \<Rightarrow> item # scan_back_items crc n sb)"

lemma ensure_segment_keeps:
  "sb_position (ensure_segment sb) = sb_position sb \<and> sb_first (ensure_segment sb) = sb_first sb"
  by (auto simp: ensure_segment_def split: option.splits)

lemma window_end_keeps:
  "window_end sb seg h off = (r, sb') \<Longrightarrow> sb_position sb' = sb_position sb \<and> sb_first sb' = sb_first sb"
  by (auto simp: window_end_def split: if_splits option.splits prod.splits sum.splits RecordKind.splits)

lemma ensure_window_keeps:
  "ensure_window sb = (r, sb') \<Longrightarrow> sb_position sb' = sb_position sb \<and> sb_first sb' = sb_first sb"
  by (auto simp: ensure_window_def Let_def dest!: window_end_keeps split: if_splits option.splits prod.splits sum.splits)

text \<open>Each item of a reverse scan moves the position down to the first one.\<close>
lemma scan_back_next_progress:
  assumes "scan_back_next crc sb = (Some (Inr r), sb')"
  shows "sb_first sb' = sb_first sb \<and> sb_first sb \<le> sb_position sb \<and> sb_position sb = sb_position sb' + 1"
  using assms ensure_segment_keeps [of sb]
  by (auto simp: scan_back_next_def Let_def dest!: ensure_window_keeps
      split: option.splits if_splits prod.splits sum.splits)

definition scan_back :: "SegmentSet \<Rightarrow> Position \<Rightarrow> Position \<Rightarrow> ScanBack" where
  "scan_back S first limit = ScanBack_start (set_source S) first (min limit (set_last_position S))"

subsection \<open>Peeking at frames\<close>

lemma frame_at_room:
  assumes "frame_at crc (drop off (take flushed file)) = Some f"
  shows "off + frame_len f \<le> flushed" and "off + 8 \<le> flushed"
proof -
  have "frame_len f \<le> length (drop off (take flushed file))" by (rule frame_at_SomeD(3) [OF assms])
  moreover have "8 \<le> frame_len f" by (simp add: frame_len_def RECORD_HEAD_SIZE_8)
  ultimately show "off + frame_len f \<le> flushed" "off + 8 \<le> flushed" by auto
qed

lemma peek_frame:
  assumes "ra_fresh file ra" and "flushed \<le> length file"
    and "frame_at crc (drop off (take flushed file)) = Some f"
  obtains ra' where "ra_fresh file ra'"
    and "peek file flushed off ra = (Inr (if is_ctl f then KControl (frame_len f) else KData (frame_len f)), ra')"
proof -
  note room = frame_at_room [OF assms(3)]
  obtain ra' where ra': "ra_read file off 8 ra = (Inr (bslice off (off + 8) file), ra')" "ra_fresh file ra'"
    using ra_read_fresh [OF assms(1), of off 8] room(2) assms(2) by auto
  let ?head = "bslice off (off + 8) file"
  let ?n = "unat (u32_of_le (take 4 ?head) AND LENGTH_MASK)"
  have f: "\<not> is_truncation_marker ?head" "\<not> has_unknown_flags (u32_of_le (take 4 ?head))" "off + 8 + ?n \<le> flushed"
    "f = Frame (u32_of_le (take 4 ?head) AND CONTROL_FLAG \<noteq> 0) (bslice (off + 8) (off + 8 + ?n) file)"
    using assms(3) unfolding frame_at_flushed [OF room(2) assms(2)] Let_def by (auto split: if_splits)
  have "length (bslice (off + 8) (off + 8 + ?n) file) = ?n" using f(3) assms(2) by simp
  then have "frame_len f = 8 + ?n" using f(4) by (simp add: frame_len_def RECORD_HEAD_SIZE_8)
  moreover have "is_ctl f \<longleftrightarrow> u32_of_le (take 4 ?head) AND CONTROL_FLAG \<noteq> 0" using f(4) by simp
  ultimately show thesis
    using that [OF ra'(2)] ra'(1) f(1-3) room(2)
    by (auto simp: peek_def RECORD_HEAD_SIZE_8 Let_def LEN_SIZE_def)
qed

lemma peek_zeros:
  assumes "ra_fresh file ra" and "flushed \<le> length file"
    and "list_all (\<lambda>b. b = 0) (drop off (take flushed file))"
  obtains ra' where "peek file flushed off ra = (Inr KEnd, ra')"
proof (cases "off + 8 \<le> flushed")
  case True
  obtain ra' where ra': "ra_read file off 8 ra = (Inr (bslice off (off + 8) file), ra')"
    using ra_read_fresh [OF assms(1), of off 8] True assms(2) by auto
  have "bslice off (off + 8) file = take 8 (drop off (take flushed file))"
    using True assms(2) by (simp add: bslice_def drop_take min_def)
  then have "is_truncation_marker (bslice off (off + 8) file)"
    using assms(3) True assms(2)
    by (auto simp: is_truncation_marker_def list_all_iff RECORD_HEAD_SIZE_8 dest: in_set_takeD)
  then show thesis using that ra' True by (simp add: peek_def RECORD_HEAD_SIZE_8)
next
  case False
  then show thesis using that by (simp add: peek_def RECORD_HEAD_SIZE_8)
qed

subsection \<open>Sources that hold a log\<close>

definition src_log :: "SegmentSource \<Rightarrow> bytes list" where
  "src_log src = concat (map seg_records (src_segments src))"

text \<open>Segments that tile the positions, each holding its records.\<close>
definition src_ok :: "crc_fun \<Rightarrow> SegmentSource \<Rightarrow> bool" where
  "src_ok crc src \<longleftrightarrow>
     tiled src (length (src_log src) + 1) \<and>
     (\<forall>seg \<in> set (src_segments src). \<exists>fs. seg_holds crc (src_header_size src) seg fs)"

lemma set_source_ok:
  assumes "set_inv crc S"
  shows "src_ok crc (set_source S)" and "src_log (set_source S) = log_of S"
proof -
  show l: "src_log (set_source S) = log_of S" by (simp add: src_log_def set_source_def log_of_def)
  show "src_ok crc (set_source S)"
    using set_inv_tiled [OF assms] length_log_of [OF assms] set_inv_segments [OF assms] l
    by (auto simp: src_ok_def set_source_def)
qed

lemma src_owner:
  assumes "src_ok crc src" and "1 \<le> pos" and "pos \<le> length (src_log src)"
  obtains i seg fs where "i < length (src_segments src)" and "seg = src_segments src ! i"
    and "src_locate src pos = Some (i, seg)" and "segment_at src i = Some seg" and "seg_base seg \<le> pos"
    and "pos - seg_base seg < length (offsets seg)" and "seg_holds crc (src_header_size src) seg fs"
    and "src_log src ! (pos - 1) = payloads fs ! (pos - seg_base seg)"
proof -
  have t: "tiled src (length (src_log src) + 1)" using assms(1) by (simp add: src_ok_def)
  have "pos < length (src_log src) + 1" using assms(3) by simp
  from tiled_owner [OF t assms(2) this] obtain i seg where i: "i < length (src_segments src)"
    "seg = src_segments src ! i" "src_locate src pos = Some (i, seg)" "seg_base seg \<le> pos"
    "pos - seg_base seg < event_count seg"
    "pos - 1 = sum_list (map event_count (take i (src_segments src))) + (pos - seg_base seg)"
    by metis
  have "seg \<in> set (src_segments src)" using i(1,2) by simp
  then obtain fs where fs: "seg_holds crc (src_header_size src) seg fs" using assms(1) by (auto simp: src_ok_def)
  have "src_log src ! (pos - 1) = seg_records seg ! (pos - seg_base seg)"
    using nth_concat_segments [of i "src_segments src" "pos - seg_base seg" seg_records] i
    by (simp add: src_log_def comp_def)
  then show thesis
    using that i fs seg_holds_records [OF fs] by (simp add: segment_at_def event_count_def)
qed

text \<open>Positions of consecutive segments.\<close>
lemma src_next_base:
  assumes "src_ok crc src" and "i < length (src_segments src)"
  shows "seg_base (src_segments src ! i) + event_count (src_segments src ! i) =
         (if Suc i < length (src_segments src) then seg_base (src_segments src ! Suc i)
          else length (src_log src) + 1)"
proof -
  let ?segs = "src_segments src"
  have c: "contiguous FIRST_POSITION ?segs (length (src_log src) + 1)"
    using assms(1) by (simp add: src_ok_def tiled_def)
  have s: "sum_list (map event_count (take (Suc i) ?segs))
      = sum_list (map event_count (take i ?segs)) + event_count (?segs ! i)"
    using assms(2) by (simp add: take_Suc_conv_app_nth)
  show ?thesis
  proof (cases "Suc i < length ?segs")
    case True
    then show ?thesis using contiguous_base [OF c] assms(2) s by simp
  next
    case False
    then have "take (Suc i) ?segs = ?segs" by simp
    then show ?thesis using contiguous_base [OF c assms(2)] contiguous_end [OF c] s False by simp
  qed
qed

subsection \<open>The forward scan is correct\<close>

text \<open>A scan whose reader stands between the frames \<open>us\<close> and \<open>vs\<close> of its segment.\<close>
definition scan_ready :: "crc_fun \<Rightarrow> Scan \<Rightarrow> Segment \<Rightarrow> frame list \<Rightarrow> frame list \<Rightarrow> ReadAheadBuf \<Rightarrow> bool" where
  "scan_ready crc sc seg us vs ra \<longleftrightarrow>
     sc_pending_err sc = None \<and> \<not> sc_done sc \<and> sc_reader sc = Some (seg, ra) \<and> ra_fresh (seg_file seg) ra \<and>
     segment_at (sc_source sc) (sc_seg_idx sc) = Some seg \<and>
     seg_holds crc (src_header_size (sc_source sc)) seg (us @ vs) \<and>
     sc_offset sc = src_header_size (sc_source sc) + frames_len us \<and>
     sc_position sc = seg_base seg + length (payloads us)"

text \<open>A scan that has just used up its segment.\<close>
definition scan_exhausted :: "Scan \<Rightarrow> bool" where
  "scan_exhausted sc \<longleftrightarrow>
     sc_pending_err sc = None \<and> \<not> sc_done sc \<and> sc_reader sc = None \<and>
     (\<exists>seg. segment_at (sc_source sc) (sc_seg_idx sc) = Some seg \<and>
            sc_position sc = seg_base seg + event_count seg)"

lemma seg_holds_split:
  assumes "seg_holds crc hdr seg (us @ vs)"
  obtains rest where "drop (hdr + frames_len us) (take (reader_flushed seg) (seg_file seg))
      = concat (map (frame_bytes crc) vs) @ rest" and "list_all (\<lambda>b. b = 0) rest"
    and "reader_flushed seg \<le> length (seg_file seg)" and "list_all (frame_ok crc) vs"
proof -
  obtain rest where r: "drop hdr (take (reader_flushed seg) (seg_file seg))
      = concat (map (frame_bytes crc) (us @ vs)) @ rest" "list_all (\<lambda>b. b = 0) rest"
    using assms by (auto simp: seg_holds_def)
  have "drop (hdr + frames_len us) (take (reader_flushed seg) (seg_file seg))
      = drop (frames_len us) (drop hdr (take (reader_flushed seg) (seg_file seg)))" by (simp add: add.commute)
  also have "\<dots> = concat (map (frame_bytes crc) vs) @ rest" unfolding r(1) by simp
  finally show thesis using that r(2) assms by (auto simp: seg_holds_def)
qed

lemma seg_holds_frame_next:
  assumes "seg_holds crc hdr seg (us @ f # vs)"
  shows "frame_at crc (drop (hdr + frames_len us) (take (reader_flushed seg) (seg_file seg))) = Some f"
  by (rule seg_holds_split [OF assms]) (simp add: frame_at_frame_bytes)

lemma advance_exhausted:
  assumes "src_ok crc (sc_source sc)" and "scan_exhausted sc" and "sc_position sc \<le> length (src_log (sc_source sc))"
  obtains sc' seg fs where "advance_segment sc = Some sc'" and "scan_ready crc sc' seg [] fs ReadAheadBuf_new"
    and "sc_position sc' = sc_position sc" and "sc_source sc' = sc_source sc" and "sc_upto sc' = sc_upto sc"
proof -
  let ?src = "sc_source sc" and ?i = "sc_seg_idx sc"
  obtain seg where i: "?i < length (src_segments ?src)" "sc_pending_err sc = None" "\<not> sc_done sc"
    "sc_position sc = seg_base (src_segments ?src ! ?i) + event_count (src_segments ?src ! ?i)"
    using assms(2) by (auto simp: scan_exhausted_def segment_at_def split: if_splits)
  have more: "Suc ?i < length (src_segments ?src)"
    using src_next_base [OF assms(1) i(1)] i(4) assms(3) by (auto split: if_splits)
  let ?seg = "src_segments ?src ! Suc ?i"
  have "?seg \<in> set (src_segments ?src)" using more by simp
  then obtain fs where fs: "seg_holds crc (src_header_size ?src) ?seg fs" using assms(1) by (auto simp: src_ok_def)
  let ?sc = "sc\<lparr>sc_reader := Some (?seg, ReadAheadBuf_new), sc_offset := src_header_size ?src, sc_seg_idx := Suc ?i\<rparr>"
  have "advance_segment sc = Some ?sc" using more by (simp add: advance_segment_def segment_at_def)
  moreover have "scan_ready crc ?sc ?seg [] fs ReadAheadBuf_new"
    using more fs i src_next_base [OF assms(1) i(1)] by (simp add: scan_ready_def segment_at_def)
  ultimately show thesis using that by simp
qed

lemma position_at_data_ok:
  assumes "src_ok crc (sc_source sc)" and "sc_position sc \<le> length (src_log (sc_source sc))"
    and "(\<exists>seg us vs ra. scan_ready crc sc seg us vs ra) \<or> scan_exhausted sc"
  shows "\<exists>sc' seg us f vs ra. position_at_data sc = (Inr (Some (frame_len f)), sc') \<and>
           scan_ready crc sc' seg us (f # vs) ra \<and> \<not> is_ctl f \<and> sc_position sc' = sc_position sc \<and>
           sc_source sc' = sc_source sc \<and> sc_upto sc' = sc_upto sc"
  using assms
proof (induction sc rule: position_at_data.induct)
  case (1 sc)
  from "1.prems"(3) show ?case
  proof
    assume ex: "scan_exhausted sc"
    from advance_exhausted [OF "1.prems"(1) ex "1.prems"(2)] obtain sc' seg fs where
      a: "advance_segment sc = Some sc'" "scan_ready crc sc' seg [] fs ReadAheadBuf_new"
      "sc_position sc' = sc_position sc" "sc_source sc' = sc_source sc" "sc_upto sc' = sc_upto sc" .
    have none: "sc_reader sc = None" using ex by (simp add: scan_exhausted_def)
    have "position_at_data sc = position_at_data sc'" using none a(1) by (subst position_at_data.simps) simp
    moreover have "\<exists>seg us vs ra. scan_ready crc sc' seg us vs ra" using a(2) by blast
    ultimately show ?thesis using "1.IH"(1) [OF none a(1)] "1.prems"(1,2) a(3-5) by simp
  next
    assume "\<exists>seg us vs ra. scan_ready crc sc seg us vs ra"
    then obtain seg us vs ra where r: "scan_ready crc sc seg us vs ra" by blast
    then have rd: "sc_reader sc = Some (seg, ra)" "ra_fresh (seg_file seg) ra"
      and h: "seg_holds crc (src_header_size (sc_source sc)) seg (us @ vs)"
      and off: "sc_offset sc = src_header_size (sc_source sc) + frames_len us"
      by (simp_all add: scan_ready_def)
    from seg_holds_split [OF h] obtain rest where
      sp: "drop (sc_offset sc) (take (reader_flushed seg) (seg_file seg)) = concat (map (frame_bytes crc) vs) @ rest"
        "list_all (\<lambda>b. b = 0) rest" "reader_flushed seg \<le> length (seg_file seg)"
      unfolding off by blast
    show ?thesis
    proof (cases vs)
      case Nil
      obtain ra' where pk: "peek (seg_file seg) (reader_flushed seg) (sc_offset sc) ra = (Inr KEnd, ra')"
        using peek_zeros [OF rd(2) sp(3), of "sc_offset sc"] sp(1,2) Nil by auto
      have "position_at_data sc = position_at_data (sc\<lparr>sc_reader := None\<rparr>)"
        using rd(1) pk by (subst position_at_data.simps) simp
      moreover have "scan_exhausted (sc\<lparr>sc_reader := None\<rparr>)"
        using r Nil h by (auto simp: scan_exhausted_def scan_ready_def event_count_def seg_holds_def)
      ultimately show ?thesis using "1.IH"(3) [OF rd(1) refl pk [symmetric] refl refl] "1.prems"(1,2) by simp
    next
      case (Cons f vs')
      have fr: "frame_at crc (drop (sc_offset sc) (take (reader_flushed seg) (seg_file seg))) = Some f"
        using seg_holds_frame_next h off Cons by metis
      obtain ra' where ra': "ra_fresh (seg_file seg) ra'"
        "peek (seg_file seg) (reader_flushed seg) (sc_offset sc) ra
         = (Inr (if is_ctl f then KControl (frame_len f) else KData (frame_len f)), ra')"
        using peek_frame [OF rd(2) sp(3) fr] by blast
      show ?thesis
      proof (cases "is_ctl f")
        case True
        let ?sc = "sc\<lparr>sc_reader := Some (seg, ra'), sc_offset := sc_offset sc + frame_len f\<rparr>"
        have "position_at_data sc = position_at_data ?sc"
          using rd(1) ra'(2) True by (subst position_at_data.simps) simp
        moreover have "scan_ready crc ?sc seg (us @ [f]) vs' ra'"
          using r Cons True ra'(1) by (simp add: scan_ready_def)
        ultimately show ?thesis
          using "1.IH"(2) [OF rd(1) refl ra'(2) [symmetric, unfolded if_P [OF True]] refl refl] "1.prems"(1,2)
          by (auto simp: True)
      next
        case False
        then have "position_at_data sc = (Inr (Some (frame_len f)), sc\<lparr>sc_reader := Some (seg, ra')\<rparr>)"
          using rd(1) ra'(2) by (subst position_at_data.simps) simp
        moreover have "scan_ready crc (sc\<lparr>sc_reader := Some (seg, ra')\<rparr>) seg us (f # vs') ra'"
          using r Cons ra'(1) by (simp add: scan_ready_def)
        ultimately show ?thesis using False by fastforce
      qed
    qed
  qed
qed

lemma src_log_nth:
  assumes "src_ok crc src" and "segment_at src i = Some seg" and "k < event_count seg"
  shows "src_log src ! (seg_base seg + k - 1) = seg_records seg ! k"
proof -
  have i: "i < length (src_segments src)" "seg = src_segments src ! i"
    using assms(2) by (auto simp: segment_at_def split: if_splits)
  have c: "contiguous FIRST_POSITION (src_segments src) (length (src_log src) + 1)"
    using assms(1) by (simp add: src_ok_def tiled_def)
  have "seg_base seg + k - 1 = sum_list (map event_count (take i (src_segments src))) + k"
    using contiguous_base [OF c i(1)] i(2) by (simp add: FIRST_POSITION_def)
  then show ?thesis
    using nth_concat_segments [of i "src_segments src" k seg_records] i assms(3)
    by (simp add: src_log_def comp_def)
qed

lemma scan_next_ok:
  assumes "src_ok crc (sc_source sc)" and "\<exists>seg us vs ra. scan_ready crc sc seg us vs ra"
    and "sc_position sc \<le> sc_upto sc" and "sc_upto sc \<le> length (src_log (sc_source sc))"
    and "sc_position sc < U64_MAX"
  obtains sc' where
    "scan_next crc sc = (Some (Inr \<lparr>position = sc_position sc, rdata = src_log (sc_source sc) ! (sc_position sc - 1)\<rparr>), sc')"
    and "\<exists>seg us vs ra. scan_ready crc sc' seg us vs ra" and "sc_position sc' = Suc (sc_position sc)"
    and "sc_source sc' = sc_source sc" and "sc_upto sc' = sc_upto sc"
proof -
  have le: "sc_position sc \<le> length (src_log (sc_source sc))" using assms(3,4) by simp
  obtain sc1 seg us f vs ra where p: "position_at_data sc = (Inr (Some (frame_len f)), sc1)"
    "scan_ready crc sc1 seg us (f # vs) ra" "\<not> is_ctl f" "sc_position sc1 = sc_position sc"
    "sc_source sc1 = sc_source sc" "sc_upto sc1 = sc_upto sc"
    using position_at_data_ok [OF assms(1) le] assms(2) by blast
  let ?off = "sc_offset sc1" and ?file = "seg_file seg" and ?fl = "reader_flushed seg"
  have rd: "sc_reader sc1 = Some (seg, ra)" "ra_fresh ?file ra" "segment_at (sc_source sc) (sc_seg_idx sc1) = Some seg"
    and h: "seg_holds crc (src_header_size (sc_source sc)) seg (us @ f # vs)"
    and off: "?off = src_header_size (sc_source sc) + frames_len us"
    and pos: "sc_position sc = seg_base seg + length (payloads us)"
    using p(2,4,5) by (simp_all add: scan_ready_def)
  have fl: "?fl \<le> length ?file" using h by (simp add: seg_holds_def)
  have fr: "frame_at crc (drop ?off (take ?fl ?file)) = Some f" using seg_holds_frame_next [OF h] off by simp
  obtain ra' where ra': "ra_fresh ?file ra'" "read_record crc 0 ?file ?fl ?off Sequential ra
      = (Inr \<lparr>rec_header = [], rec_data = frame_payload f, rec_offset = ?off, rec_len = frame_len f\<rparr>, ra')"
    using read_record_parse [OF rd(2) fl, of crc 0 ?off Sequential] parse_record_parts_frame [OF fr, of 0] p(3)
    by (auto simp: to_record_def)
  have k: "length (payloads us) < event_count seg" using h p(3) by (simp add: event_count_def seg_holds_def)
  have data: "src_log (sc_source sc) ! (sc_position sc - 1) = frame_payload f"
    using src_log_nth [OF assms(1) rd(3) k] seg_holds_records [OF h] pos p(3) by simp
  let ?sc = "sc1\<lparr>sc_offset := ?off + frame_len f, sc_position := Suc (sc_position sc), sc_reader := Some (seg, ra')\<rparr>"
  have go: "sc_pending_err sc = None" "\<not> sc_done sc" using assms(2) by (auto simp: scan_ready_def)
  have nx: "Position_next (sc_position sc) = Some (Suc (sc_position sc))"
    using assms(5) by (simp add: Position_next_def checked_add_def)
  have "scan_next crc sc = (Some (Inr \<lparr>position = sc_position sc, rdata = frame_payload f\<rparr>), ?sc)"
    using go assms(3) p(1,4) nx rd(1) ra'(2) by (simp add: scan_next_def Let_def)
  moreover have "scan_ready crc ?sc seg (us @ [f]) vs ra'"
    using p ra'(1) off pos by (simp add: scan_ready_def)
  ultimately show thesis using that [of ?sc] data p(5,6) by auto
qed

lemma scan_items_ready:
  assumes "src_ok crc (sc_source sc)" and "\<exists>seg us vs ra. scan_ready crc sc seg us vs ra"
    and "sc_upto sc \<le> length (src_log (sc_source sc))" and "sc_upto sc < U64_MAX"
  shows "scan_items crc n sc = take n (map (\<lambda>p. Inr \<lparr>position = p, rdata = src_log (sc_source sc) ! (p - 1)\<rparr>)
           [sc_position sc ..< Suc (sc_upto sc)])"
  using assms
proof (induction n arbitrary: sc)
  case (Suc n)
  show ?case
  proof (cases "sc_position sc \<le> sc_upto sc")
    case True
    have "sc_position sc < U64_MAX" using True Suc.prems(4) by simp
    from scan_next_ok [OF Suc.prems(1,2) True Suc.prems(3) this] obtain sc' where sc':
      "scan_next crc sc = (Some (Inr \<lparr>position = sc_position sc, rdata = src_log (sc_source sc) ! (sc_position sc - 1)\<rparr>), sc')"
      "\<exists>seg us vs ra. scan_ready crc sc' seg us vs ra" "sc_position sc' = Suc (sc_position sc)"
      "sc_source sc' = sc_source sc" "sc_upto sc' = sc_upto sc" .
    have "[sc_position sc ..< Suc (sc_upto sc)] = sc_position sc # [Suc (sc_position sc) ..< Suc (sc_upto sc)]"
      using True by (simp add: upt_rec)
    then show ?thesis using Suc.IH [of sc'] Suc.prems sc' by simp
  next
    case False
    have "sc_pending_err sc = None" "\<not> sc_done sc" using Suc.prems(2) by (auto simp: scan_ready_def)
    then show ?thesis using False by (simp add: scan_next_def)
  qed
qed simp

lemma data_offsets_split:
  "k < length (payloads fs) \<Longrightarrow>
   \<exists>us f vs. fs = us @ f # vs \<and> \<not> is_ctl f \<and> length (payloads us) = k \<and>
             data_offsets cur fs ! k = cur + frames_len us"
proof (induction fs arbitrary: cur k)
  case (Cons g fs)
  show ?case
  proof (cases "\<not> is_ctl g \<and> k = 0")
    case True
    then show ?thesis by (intro exI [of _ "[]"] exI [of _ g] exI [of _ fs]) simp
  next
    case False
    let ?k = "if is_ctl g then k else k - 1"
    have "?k < length (payloads fs)" using Cons.prems False by (auto split: if_splits)
    from Cons.IH [OF this, of "cur + frame_len g"] obtain us f vs where
      "fs = us @ f # vs" "\<not> is_ctl f" "length (payloads us) = ?k"
      "data_offsets (cur + frame_len g) fs ! ?k = cur + frame_len g + frames_len us" by blast
    then show ?thesis using False by (intro exI [of _ "g # us"] exI [of _ f] exI [of _ vs]) (auto simp: nth_Cons')
  qed
qed simp

text \<open>A scan of a source that holds a log yields exactly the records of the range, in order.\<close>
lemma scan_start_items:
  assumes "src_ok crc src" and "limit \<le> length (src_log src)" and "limit < U64_MAX"
  shows "scan_items crc n (Scan_start src first limit) =
         take n (map (\<lambda>p. Inr \<lparr>position = p, rdata = src_log src ! (p - 1)\<rparr>)
           (if first = 0 then [] else [first ..< Suc limit]))"
proof (cases "first = 0 \<or> first > limit")
  case True
  then show ?thesis by (cases n) (auto simp: Scan_start_def Scan_empty_def Position_ZERO_def scan_next_def)
next
  case False
  then have f: "1 \<le> first" "first \<le> length (src_log src)" using assms(2) by auto
  obtain i seg fs where o: "src_locate src first = Some (i, seg)" "segment_at src i = Some seg" "seg_base seg \<le> first"
    "first - seg_base seg < length (offsets seg)" "seg_holds crc (src_header_size src) seg fs"
    using src_owner [OF assms(1) f] by metis
  have of: "offsets seg = data_offsets (src_header_size src) fs" using o(5) by (simp add: seg_holds_def)
  then obtain us g vs where sp: "fs = us @ g # vs" "length (payloads us) = first - seg_base seg"
    "offsets seg ! (first - seg_base seg) = src_header_size src + frames_len us"
    using data_offsets_split [of "first - seg_base seg" fs "src_header_size src"] o(4) by auto
  let ?sc = "Scan_start src first limit"
  have sc: "?sc = \<lparr>sc_source = src, sc_seg_idx = i, sc_offset = src_header_size src + frames_len us,
      sc_position = first, sc_upto = limit, sc_reader = Some (seg, ReadAheadBuf_new),
      sc_pending_err = None, sc_done = False\<rparr>"
    using False o sp(3) by (simp add: Scan_start_def seg_data_offset_def Position_ZERO_def)
  have "scan_ready crc ?sc seg us (g # vs) ReadAheadBuf_new"
    using o sp(1,2) by (simp add: scan_ready_def sc)
  then show ?thesis using scan_items_ready [of crc ?sc n] assms False by (auto simp: sc)
qed

subsection \<open>The reverse scan is correct\<close>

text \<open>The byte just past the record with local number \<open>l\<close>.\<close>
definition rec_end :: "Segment \<Rightarrow> nat \<Rightarrow> nat" where
  "rec_end seg l = offsets seg ! l + frame_len (Frame False (seg_records seg ! l))"

lemma data_offsets_bounds:
  "l < length (payloads fs) \<Longrightarrow> cur \<le> data_offsets cur fs ! l"
  using data_offsets_split [of l fs cur] by auto

lemma data_offsets_next:
  "Suc l < length (payloads fs) \<Longrightarrow>
   data_offsets cur fs ! l + frame_len (Frame False (payloads fs ! l)) \<le> data_offsets cur fs ! Suc l"
proof (induction fs arbitrary: cur l)
  case (Cons f fs)
  show ?case
  proof (cases "is_ctl f")
    case True
    then show ?thesis using Cons by simp
  next
    case False
    then have f: "f = Frame False (frame_payload f)" by (cases f) simp
    show ?thesis
    proof (cases l)
      case 0
      have "cur + frame_len f \<le> data_offsets (cur + frame_len f) fs ! 0"
        using Cons.prems False 0 by (intro data_offsets_bounds) simp
      then show ?thesis using False 0 f by simp
    next
      case (Suc k)
      then show ?thesis using Cons.IH [of k] Cons.prems False by simp
    qed
  qed
qed simp

lemma rec_end_frame:
  assumes "seg_holds crc hdr seg fs" and "l < event_count seg"
  shows "frame_at crc (drop (offsets seg ! l) (take (reader_flushed seg) (seg_file seg)))
         = Some (Frame False (seg_records seg ! l))"
    and "rec_end seg l \<le> reader_flushed seg"
    and "Suc l < event_count seg \<Longrightarrow> rec_end seg l \<le> offsets seg ! Suc l"
proof -
  note recs = seg_holds_records [OF assms(1)]
  show fr: "frame_at crc (drop (offsets seg ! l) (take (reader_flushed seg) (seg_file seg)))
         = Some (Frame False (seg_records seg ! l))"
    using seg_holds_frame [OF assms(1), of l] assms(2) recs by (simp add: event_count_def)
  show "rec_end seg l \<le> reader_flushed seg" using frame_at_room(1) [OF fr] by (simp add: rec_end_def)
  show "rec_end seg l \<le> offsets seg ! Suc l" if "Suc l < event_count seg"
    using data_offsets_next [of l fs hdr] assms(1) that recs by (simp add: rec_end_def seg_holds_def event_count_def)
qed

lemma frame_at_prefix:
  assumes "frame_at crc (drop off (take fl file)) = Some f" and "off + frame_len f \<le> e" and "e \<le> fl"
  shows "frame_at crc (drop off (take e file)) = Some f"
proof -
  note d = frame_at_SomeD [OF assms(1)]
  have "drop off (take e file) = take (e - off) (drop off (take fl file))"
    using assms(3) by (simp add: drop_take min_def)
  also have "\<dots> = take (e - off) (frame_bytes crc f @ drop (frame_len f) (drop off (take fl file)))"
    using d(1) by simp
  also have "\<dots> = frame_bytes crc f @ take (e - off - frame_len f) (drop (frame_len f) (drop off (take fl file)))"
    using assms(2) by simp
  finally show ?thesis using frame_at_frame_bytes [OF d(2)] by simp
qed

text \<open>The window holds the records with local numbers \<open>lo\<close> to \<open>h\<close>.\<close>
definition window_ok :: "ScanBack \<Rightarrow> Segment \<Rightarrow> nat \<Rightarrow> nat \<Rightarrow> bool" where
  "window_ok sb seg lo h \<longleftrightarrow>
     sb_window sb = bslice (sb_win_base_byte sb) (sb_win_base_byte sb + length (sb_window sb)) (seg_file seg) \<and>
     sb_win_base_byte sb + length (sb_window sb) \<le> reader_flushed seg \<and>
     (\<forall>l. lo \<le> l \<longrightarrow> l \<le> h \<longrightarrow>
        sb_win_base_byte sb \<le> offsets seg ! l \<and> rec_end seg l \<le> sb_win_base_byte sb + length (sb_window sb))"

text \<open>A reverse scan with a segment open, standing at or below the segment's last record.\<close>
definition back_open :: "crc_fun \<Rightarrow> ScanBack \<Rightarrow> Segment \<Rightarrow> bool" where
  "back_open crc sb seg \<longleftrightarrow>
     (\<exists>ra. sb_reader sb = Some (seg, ra) \<and> ra_fresh (seg_file seg) ra) \<and> sb_segment sb = Some seg \<and>
     segment_at (sb_source sb) (sb_seg_idx sb) = Some seg \<and> sb_seg_base sb = seg_base seg \<and>
     sb_seg_count sb = event_count seg \<and> sb_flushed_len sb = reader_flushed seg \<and>
     (\<exists>fs. seg_holds crc (src_header_size (sb_source sb)) seg fs) \<and>
     sb_position sb < seg_base seg + event_count seg \<and>
     (\<forall>lo. sb_win_lo_local sb = Some lo \<longrightarrow> sb_position sb \<ge> seg_base seg \<longrightarrow>
        window_ok sb seg lo (sb_position sb - seg_base seg))"

definition back_inv :: "crc_fun \<Rightarrow> ScanBack \<Rightarrow> bool" where
  "back_inv crc sb \<longleftrightarrow>
     src_ok crc (sb_source sb) \<and> sb_pending_err sb = None \<and> 1 \<le> sb_first sb \<and>
     sb_position sb \<le> length (src_log (sb_source sb)) \<and>
     (sb_reader sb = None \<or> (\<exists>seg. back_open crc sb seg))"

lemma ensure_segment_ok:
  assumes "back_inv crc sb" and "sb_first sb \<le> sb_position sb" and "\<not> sb_done sb"
  obtains seg where "back_open crc (ensure_segment sb) seg" and "seg_base seg \<le> sb_position sb"
    and "\<not> sb_done (ensure_segment sb)" and "sb_position (ensure_segment sb) = sb_position sb"
    and "sb_source (ensure_segment sb) = sb_source sb" and "sb_first (ensure_segment sb) = sb_first sb"
    and "sb_pending_err (ensure_segment sb) = None"
proof (cases "sb_reader sb \<noteq> None \<and> sb_position sb \<ge> sb_seg_base sb")
  case True
  then obtain seg where "back_open crc sb seg" using assms(1) by (auto simp: back_inv_def)
  then show thesis
    using that [of seg] True assms(1,3) by (auto simp: ensure_segment_def back_open_def back_inv_def)
next
  case False
  have pos: "1 \<le> sb_position sb" "sb_position sb \<le> length (src_log (sb_source sb))" and ok: "src_ok crc (sb_source sb)"
    using assms(1,2) by (auto simp: back_inv_def)
  obtain i seg fs where o: "src_locate (sb_source sb) (sb_position sb) = Some (i, seg)"
    "segment_at (sb_source sb) i = Some seg" "seg_base seg \<le> sb_position sb"
    "sb_position sb - seg_base seg < length (offsets seg)"
    "seg_holds crc (src_header_size (sb_source sb)) seg fs"
    using src_owner [OF ok pos] by metis
  have "ensure_segment sb =
      sb\<lparr>sb_flushed_len := reader_flushed seg, sb_seg_base := seg_base seg, sb_seg_count := event_count seg,
         sb_seg_idx := i, sb_reader := Some (seg, ReadAheadBuf_new), sb_segment := Some seg, sb_win_lo_local := None\<rparr>"
    unfolding ensure_segment_def if_not_P [OF False] o(1) by simp
  moreover have "sb_position sb < seg_base seg + event_count seg" using o(3,4) by (auto simp: event_count_def)
  ultimately show thesis
    using that [of seg] o assms(1,3) by (auto simp: back_open_def back_inv_def)
qed

lemma extend_window_ok:
  assumes "seg_holds crc hdr seg fs" and "lo < event_count seg" and "lo_byte = offsets seg ! lo"
    and "lo_byte \<le> e"
  obtains lo' where "extend_window seg stop e budget lo lo_byte = Some (lo', offsets seg ! lo')"
    and "lo' \<le> lo" and "offsets seg ! lo' \<le> lo_byte"
  using assms
proof (induction lo arbitrary: lo_byte thesis)
  case 0
  show thesis by (rule "0.prems"(1) [of 0]) (use "0.prems"(4) in simp_all)
next
  case (Suc l)
  have l: "l < event_count seg" "seg_data_offset seg l = Some (offsets seg ! l)"
    using Suc.prems(3) by (simp_all add: seg_data_offset_def event_count_def)
  have "offsets seg ! l \<le> rec_end seg l" by (simp add: rec_end_def)
  then have less: "offsets seg ! l \<le> lo_byte"
    using rec_end_frame(3) [OF assms(1) l(1)] Suc.prems(3,4) by simp
  show thesis
  proof (cases "stop < Suc l \<and> \<not> budget < e - offsets seg ! l")
    case True
    have e: "offsets seg ! l \<le> e" using less Suc.prems(5) by simp
    from Suc.IH [OF _ assms(1) l(1) refl e] obtain lo' where
      "extend_window seg stop e budget l (offsets seg ! l) = Some (lo', offsets seg ! lo')" "lo' \<le> l"
      "offsets seg ! lo' \<le> offsets seg ! l" by blast
    then show thesis using Suc.prems(1) [of lo'] True l(2) less e by simp
  next
    case False
    have "extend_window seg stop e budget (Suc l) lo_byte = Some (Suc l, offsets seg ! Suc l)"
      using False Suc.prems(4,5) l(2) less by auto
    then show thesis using Suc.prems(1) [of "Suc l"] Suc.prems(4) by simp
  qed
qed

lemma rec_end_mono:
  assumes "seg_holds crc hdr seg fs" and "l \<le> h" and "h < event_count seg"
  shows "offsets seg ! l \<le> offsets seg ! h" and "rec_end seg l \<le> rec_end seg h"
proof -
  have step: "offsets seg ! k \<le> offsets seg ! Suc k \<and> rec_end seg k \<le> rec_end seg (Suc k)"
    if "Suc k < event_count seg" for k
    using rec_end_frame(3) [OF assms(1), of k] that by (auto simp: rec_end_def)
  show "offsets seg ! l \<le> offsets seg ! h"
    using assms(2,3) by (induction h rule: dec_induct) (use step Suc_lessD le_trans in blast)+
  show "rec_end seg l \<le> rec_end seg h"
    using assms(2,3) by (induction h rule: dec_induct) (use step Suc_lessD le_trans in blast)+
qed

lemma back_open_reader:
  "\<lbrakk>back_open crc sb seg; ra_fresh (seg_file seg) ra\<rbrakk> \<Longrightarrow> back_open crc (sb\<lparr>sb_reader := Some (seg, ra)\<rparr>) seg"
  by (simp add: back_open_def window_ok_def)

lemma window_end_ok:
  assumes "back_open crc sb seg" and "seg_base seg \<le> sb_position sb" and "h = sb_position sb - seg_base seg"
  obtains e ra where "window_end sb seg h (offsets seg ! h) = (Inr e, sb\<lparr>sb_reader := Some (seg, ra)\<rparr>)"
    and "ra_fresh (seg_file seg) ra" and "rec_end seg h \<le> e" and "e \<le> reader_flushed seg"
proof -
  obtain ra fs where b: "sb_reader sb = Some (seg, ra)" "ra_fresh (seg_file seg) ra"
    "seg_holds crc (src_header_size (sb_source sb)) seg fs" "sb_seg_count sb = event_count seg"
    "sb_flushed_len sb = reader_flushed seg"
    using assms(1) by (auto simp: back_open_def)
  have h: "h < event_count seg" using assms by (auto simp: back_open_def)
  note fr = rec_end_frame [OF b(3) h]
  have fl: "reader_flushed seg \<le> length (seg_file seg)" using b(3) by (simp add: seg_holds_def)
  show thesis
  proof (cases "Suc h < event_count seg")
    case True
    have "sb\<lparr>sb_reader := Some (seg, ra)\<rparr> = sb" using b(1) by simp
    then show thesis
      using that [of "min (offsets seg ! Suc h) (reader_flushed seg)" ra] b True fr(2,3)
      by (simp add: window_end_def seg_data_offset_def event_count_def)
  next
    case False
    obtain ra' where ra': "ra_fresh (seg_file seg) ra'"
      "peek (seg_file seg) (reader_flushed seg) (offsets seg ! h) ra
       = (Inr (KData (frame_len (Frame False (seg_records seg ! h)))), ra')"
      by (rule peek_frame [OF b(2) fl fr(1)]) simp
    have "window_end sb seg h (offsets seg ! h) = (Inr (min (rec_end seg h) (reader_flushed seg)), sb\<lparr>sb_reader := Some (seg, ra')\<rparr>)"
      using False b(1,4,5) ra'(2) by (simp add: window_end_def rec_end_def)
    then show thesis using that [OF _ ra'(1)] fr(2) by simp
  qed
qed

lemma ensure_window_ok:
  assumes "back_open crc sb seg" and "seg_base seg \<le> sb_position sb"
  obtains sb' lo where "ensure_window sb = (Inr (), sb')" and "back_open crc sb' seg"
    and "sb_win_lo_local sb' = Some lo" and "lo \<le> sb_position sb - seg_base seg"
    and "sb_position sb' = sb_position sb" and "sb_source sb' = sb_source sb" and "sb_first sb' = sb_first sb"
    and "sb_done sb' = sb_done sb" and "sb_pending_err sb' = sb_pending_err sb"
proof -
  define h where "h = sb_position sb - seg_base seg"
  have base: "sb_seg_base sb = seg_base seg" "sb_segment sb = Some seg" and h: "h < event_count seg"
    using assms by (auto simp: back_open_def h_def)
  show thesis
  proof (cases "\<exists>lo. sb_win_lo_local sb = Some lo \<and> lo \<le> h")
    case True
    then obtain lo where "sb_win_lo_local sb = Some lo" "lo \<le> h" by blast
    then show thesis
      using that [of sb lo] assms(1) base by (simp add: ensure_window_def h_def [symmetric])
  next
    case False
    then have no: "\<not> (case sb_win_lo_local sb of Some lo \<Rightarrow> h \<ge> lo | None \<Rightarrow> False)" by (auto split: option.splits)
    obtain e ra where we: "window_end sb seg h (offsets seg ! h) = (Inr e, sb\<lparr>sb_reader := Some (seg, ra)\<rparr>)"
      "ra_fresh (seg_file seg) ra" "rec_end seg h \<le> e" "e \<le> reader_flushed seg"
      using window_end_ok [OF assms h_def] by blast
    obtain fs where fs: "seg_holds crc (src_header_size (sb_source sb)) seg fs" using assms(1) by (auto simp: back_open_def)
    have off: "offsets seg ! h \<le> e" using we(3) by (simp add: rec_end_def)
    obtain lo where lo: "extend_window seg (stop_local sb) e (sb_window_bytes sb) h (offsets seg ! h) = Some (lo, offsets seg ! lo)"
      "lo \<le> h" "offsets seg ! lo \<le> offsets seg ! h"
      using extend_window_ok [OF fs h refl off] by blast
    have st: "stop_local (sb\<lparr>sb_reader := Some (seg, ra)\<rparr>) = stop_local sb" by (simp add: stop_local_def)
    have size: "reader_flushed seg \<le> length (seg_file seg)" "reader_flushed seg \<le> U32_MAX"
      using fs by (simp_all add: seg_holds_def)
    let ?w = "bslice (offsets seg ! lo) e (seg_file seg)"
    have rd: "read_bytes (seg_file seg) (reader_flushed seg) (offsets seg ! lo) (e - offsets seg ! lo) = Inr ?w"
      using lo(3) off we(4) size by (simp add: read_bytes_def file_read_exact_at_def checked_add_def)
    let ?sb = "sb\<lparr>sb_reader := Some (seg, ra), sb_window := ?w, sb_win_base_byte := offsets seg ! lo,
                  sb_win_lo_local := Some lo\<rparr>"
    have "ensure_window sb = (Inr (), ?sb)"
      using no base h we(1) lo(1) lo(3) off rd st
      by (simp add: ensure_window_def h_def [symmetric] seg_data_offset_def event_count_def Let_def)
    moreover have "window_ok ?sb seg lo h"
    proof -
      have len: "offsets seg ! lo + length ?w = e" using lo(3) off we(4) size(1) by simp
      have "offsets seg ! lo \<le> offsets seg ! l \<and> rec_end seg l \<le> e" if "lo \<le> l" "l \<le> h" for l
        using rec_end_mono(1) [OF fs that(1)] rec_end_mono(2) [OF fs that(2) h] that h we(3) by simp
      then show ?thesis unfolding window_ok_def using len we(4) by simp
    qed
    moreover have "back_open crc ?sb seg" if "window_ok ?sb seg lo h"
      using assms(1) we(2) that by (simp add: back_open_def h_def)
    ultimately show thesis using that [of ?sb lo] lo(2) by (simp add: h_def)
  qed
qed

lemma scan_back_next_ok:
  assumes "back_inv crc sb" and "sb_first sb \<le> sb_position sb" and "\<not> sb_done sb"
  obtains sb' where
    "scan_back_next crc sb = (Some (Inr \<lparr>position = sb_position sb, rdata = src_log (sb_source sb) ! (sb_position sb - 1)\<rparr>), sb')"
    and "back_inv crc sb'" and "\<not> sb_done sb'" and "sb_position sb' = sb_position sb - 1"
    and "sb_first sb' = sb_first sb" and "sb_source sb' = sb_source sb"
proof -
  let ?p = "sb_position sb"
  obtain seg where e: "back_open crc (ensure_segment sb) seg" "seg_base seg \<le> ?p"
    "\<not> sb_done (ensure_segment sb)" "sb_position (ensure_segment sb) = ?p"
    "sb_source (ensure_segment sb) = sb_source sb" "sb_first (ensure_segment sb) = sb_first sb"
    "sb_pending_err (ensure_segment sb) = None"
    using ensure_segment_ok [OF assms] by blast
  obtain sb1 lo where w: "ensure_window (ensure_segment sb) = (Inr (), sb1)" "back_open crc sb1 seg"
    "sb_win_lo_local sb1 = Some lo" "lo \<le> ?p - seg_base seg" "sb_position sb1 = ?p" "sb_source sb1 = sb_source sb"
    "sb_first sb1 = sb_first sb" "\<not> sb_done sb1" "sb_pending_err sb1 = None"
    using ensure_window_ok [OF e(1)] e by metis
  let ?l = "?p - seg_base seg" and ?sb = "sb1\<lparr>sb_position := ?p - 1\<rparr>"
  obtain fs where fs: "seg_holds crc (src_header_size (sb_source sb)) seg fs"
    and op: "sb_segment sb1 = Some seg" "segment_at (sb_source sb) (sb_seg_idx sb1) = Some seg"
      "sb_seg_base sb1 = seg_base seg" "window_ok sb1 seg lo ?l" "?l < event_count seg"
    using w(2,3,5,6) e(2) by (auto simp: back_open_def)
  let ?b = "sb_win_base_byte sb1" and ?n = "length (sb_window sb1)" and ?off = "offsets seg ! ?l"
  have win: "sb_window sb1 = bslice ?b (?b + ?n) (seg_file seg)" "?b + ?n \<le> reader_flushed seg" "?b \<le> ?off"
    "rec_end seg ?l \<le> ?b + ?n"
    using op(4) w(4) by (auto simp: window_ok_def)
  have "drop (?off - ?b) (sb_window sb1) = drop ?off (take (?b + ?n) (seg_file seg))"
    using win(3) by (subst win(1)) (simp add: bslice_def drop_take add.commute)
  then have fr: "frame_at crc (drop (?off - ?b) (sb_window sb1)) = Some (Frame False (seg_records seg ! ?l))"
    using frame_at_prefix [OF rec_end_frame(1) [OF fs op(5)]] win(2,4) by (simp add: rec_end_def)
  have pr: "parse_record_ref crc 0 (sb_window sb1) (?off - ?b) = Inr (seg_records seg ! ?l, frame_len (Frame False (seg_records seg ! ?l)))"
    using parse_record_parts_frame [OF fr, of 0] by (simp add: parse_record_ref_def)
  have data: "seg_records seg ! ?l = src_log (sb_source sb) ! (?p - 1)"
  proof -
    have "src_ok crc (sb_source sb)" using assms(1) by (simp add: back_inv_def)
    from src_log_nth [OF this op(2,5)] show ?thesis using e(2) by simp
  qed
  have "scan_back_next crc sb = (Some (Inr \<lparr>position = ?p, rdata = src_log (sb_source sb) ! (?p - 1)\<rparr>), ?sb)"
    using assms e(3) w(1,5) op win(3) pr data
    by (auto simp: scan_back_next_def Let_def back_inv_def seg_data_offset_def event_count_def)
  moreover have "back_open crc ?sb seg"
  proof -
    have "window_ok ?sb seg lo' (?p - 1 - seg_base seg)" if "sb_win_lo_local sb1 = Some lo'" for lo'
      using op(4) w(3) that by (auto simp: window_ok_def)
    then show ?thesis using w(2,5) by (auto simp: back_open_def)
  qed
  moreover from this have "back_inv crc ?sb"
    using assms(1) w(5-9) by (auto simp: back_inv_def)
  ultimately show thesis using that [of ?sb] w(5-9) by simp
qed

lemma scan_back_items_inv:
  assumes "back_inv crc sb" and "\<not> sb_done sb"
  shows "scan_back_items crc n sb = take n (map (\<lambda>p. Inr \<lparr>position = p, rdata = src_log (sb_source sb) ! (p - 1)\<rparr>)
           (rev [sb_first sb ..< Suc (sb_position sb)]))"
  using assms
proof (induction n arbitrary: sb)
  case (Suc n)
  have first: "1 \<le> sb_first sb" and pe: "sb_pending_err sb = None" using Suc.prems(1) by (simp_all add: back_inv_def)
  show ?case
  proof (cases "sb_first sb \<le> sb_position sb")
    case True
    obtain sb' where sb': "scan_back_next crc sb
        = (Some (Inr \<lparr>position = sb_position sb, rdata = src_log (sb_source sb) ! (sb_position sb - 1)\<rparr>), sb')"
      "back_inv crc sb'" "\<not> sb_done sb'" "sb_position sb' = sb_position sb - 1"
      "sb_first sb' = sb_first sb" "sb_source sb' = sb_source sb"
      using scan_back_next_ok [OF Suc.prems(1) True Suc.prems(2)] by blast
    have "Suc (sb_position sb - 1) = sb_position sb" using True first by simp
    then show ?thesis using Suc.IH [OF sb'(2,3)] sb' True by simp
  next
    case False
    then show ?thesis using pe by (simp add: scan_back_next_def)
  qed
qed simp

text \<open>A reverse scan yields exactly the records of the range, in descending order, for every window size.\<close>
lemma scan_back_start_items:
  assumes "src_ok crc src" and "limit \<le> length (src_log src)"
  shows "scan_back_items crc n (start_with_window src first limit window_bytes) =
         take n (map (\<lambda>p. Inr \<lparr>position = p, rdata = src_log src ! (p - 1)\<rparr>) (rev [max first 1 ..< Suc limit]))"
proof (cases "limit = 0 \<or> max first 1 > limit")
  case True
  then have "[max first 1 ..< Suc limit] = []" by auto
  then show ?thesis
    using True by (cases n) (auto simp: start_with_window_def Let_def scan_back_next_def Position_ZERO_def FIRST_POSITION_def)
next
  case False
  let ?sb = "start_with_window src first limit window_bytes"
  have "back_inv crc ?sb" "\<not> sb_done ?sb" "sb_first ?sb = max first 1" "sb_position ?sb = limit" "sb_source ?sb = src"
    using assms False by (auto simp: start_with_window_def Let_def back_inv_def FIRST_POSITION_def Position_ZERO_def)
  then show ?thesis using scan_back_items_inv [of crc ?sb n] by simp
qed

lemma scan_log_items:
  assumes "set_inv crc S" and "length (log_of S) < U64_MAX"
  shows "scan_items crc n (scan_from S pos) =
           take n (map (\<lambda>p. Inr \<lparr>position = p, rdata = log_of S ! (p - 1)\<rparr>) [max pos 1 ..< length (log_of S) + 1]) \<and>
         scan_items crc n (scan_after S pos) =
           take n (map (\<lambda>p. Inr \<lparr>position = p, rdata = log_of S ! (p - 1)\<rparr>) [pos + 1 ..< length (log_of S) + 1])"
proof -
  note src = set_source_ok [OF assms(1)]
  have last: "set_last_position S = length (log_of S)"
    using length_log_of [OF assms(1)] by (simp add: set_last_position_def)
  note items = scan_start_items [OF src(1), of "length (log_of S)", unfolded src(2), OF order_refl assms(2)]
  have "scan_items crc n (scan_from S pos) =
           take n (map (\<lambda>p. Inr \<lparr>position = p, rdata = log_of S ! (p - 1)\<rparr>) [max pos 1 ..< length (log_of S) + 1])"
    unfolding scan_from_def scan_at_def last items by (simp add: FIRST_POSITION_def)
  moreover have "scan_items crc n (scan_after S pos) =
           take n (map (\<lambda>p. Inr \<lparr>position = p, rdata = log_of S ! (p - 1)\<rparr>) [pos + 1 ..< length (log_of S) + 1])"
    unfolding scan_after_def scan_at_def last items using assms(2) by (auto simp: min_def)
  ultimately show ?thesis by blast
qed

subsection \<open>Properties\<close>

text \<open>
  Forward scans are exact: on a consistent log, \<open>scan_from\<close> yields every record at or after the given
  position (clamped up to the first one) and \<open>scan_after\<close> every record strictly after it, each once, in
  position order, across segment boundaries and over commit markers, and then ends; no call fails.
\<close>
theorem scan_yields_log:
  assumes "set_inv crc S" and "length (log_of S) < U64_MAX"
  shows "scan_items crc n (scan_from S pos) =
           take n (map (\<lambda>p. Inr \<lparr>position = p, rdata = log_of S ! (p - 1)\<rparr>) [max pos 1 ..< length (log_of S) + 1]) \<and>
         scan_items crc n (scan_after S pos) =
           take n (map (\<lambda>p. Inr \<lparr>position = p, rdata = log_of S ! (p - 1)\<rparr>) [pos + 1 ..< length (log_of S) + 1])"
  by (rule scan_log_items [OF assms])

theorem scan_yields_log_witness:
  "scan_items crc_demo 5 (scan_from demo_set1 0) =
     [Inr \<lparr>position = 1, rdata = [7]\<rparr>, Inr \<lparr>position = 2, rdata = [8, 9]\<rparr>] \<and>
   scan_items crc_demo 5 (scan_after demo_set1 1) = [Inr \<lparr>position = 2, rdata = [8, 9]\<rparr>]"
  using scan_yields_log [OF demo_set1_facts(1), of 5 0] scan_yields_log [OF demo_set1_facts(1), of 5 1]
    demo_set1_facts(2)
  by (simp add: upt_rec)

text \<open>
  Reverse scans are exact: for every window size, down to one byte, the windowed reverse scan yields
  every record of the requested range that exists, each once, in descending position order, and then ends;
  no call fails, so the reverse scan is the forward scan reversed.
\<close>
theorem scan_back_yields_log:
  assumes "set_inv crc S" and "limit \<le> length (log_of S)"
  shows "scan_back_items crc n (start_with_window (set_source S) first limit window_bytes) =
           take n (map (\<lambda>p. Inr \<lparr>position = p, rdata = log_of S ! (p - 1)\<rparr>) (rev [max first 1 ..< limit + 1])) \<and>
         scan_back_items crc n (scan_back S first pos) =
           take n (map (\<lambda>p. Inr \<lparr>position = p, rdata = log_of S ! (p - 1)\<rparr>)
             (rev [max first 1 ..< min pos (length (log_of S)) + 1]))"
proof -
  note src = set_source_ok [OF assms(1)]
  note items = scan_back_start_items [OF src(1), unfolded src(2)]
  have last: "set_last_position S = length (log_of S)"
    using length_log_of [OF assms(1)] by (simp add: set_last_position_def)
  have "scan_back_items crc n (start_with_window (set_source S) first limit window_bytes) =
           take n (map (\<lambda>p. Inr \<lparr>position = p, rdata = log_of S ! (p - 1)\<rparr>) (rev [max first 1 ..< limit + 1]))"
    using items [OF assms(2)] by simp
  moreover have "scan_back_items crc n (scan_back S first pos) =
           take n (map (\<lambda>p. Inr \<lparr>position = p, rdata = log_of S ! (p - 1)\<rparr>)
             (rev [max first 1 ..< min pos (length (log_of S)) + 1]))"
    unfolding scan_back_def ScanBack_start_def last using items [of "min pos (length (log_of S))"] by simp
  ultimately show ?thesis by blast
qed

theorem scan_back_yields_log_witness:
  "scan_back_items crc_demo 5 (start_with_window (set_source demo_set1) 0 2 1) =
     [Inr \<lparr>position = 2, rdata = [8, 9]\<rparr>, Inr \<lparr>position = 1, rdata = [7]\<rparr>]"
  using scan_back_yields_log [OF demo_set1_facts(1), of 2 5 0 1 0] demo_set1_facts(2) by (simp add: upt_rec)

end
