(* ===== verification/IndexHeader.thy ===== *)
theory IndexHeader
  imports Types Framing
begin

text \<open>
  The 64-byte header of an on-disk index segment (\<open>crates/tephra/src/index/header.rs\<close>): the range of
  positions, the offsets of the regions and the checksum of the body, protected by a checksum of its own.
  Decoding validates in the source's order: unwritten, checksum, magic, version, padding, layout.
\<close>

subsection \<open>Definitions\<close>

definition INDEX_HEADER_SIZE :: nat where "INDEX_HEADER_SIZE = 64"
definition TYPE_COLUMN_OFFSET :: nat where "TYPE_COLUMN_OFFSET = INDEX_HEADER_SIZE"
definition IX_OFF_MAGIC :: nat where "IX_OFF_MAGIC = 0"
definition IX_OFF_VERSION :: nat where "IX_OFF_VERSION = IX_OFF_MAGIC + 4"
definition IX_OFF_CREATED_AT :: nat where "IX_OFF_CREATED_AT = IX_OFF_VERSION + 2"
definition IX_OFF_BASE_POSITION :: nat where "IX_OFF_BASE_POSITION = IX_OFF_CREATED_AT + 8"
definition IX_OFF_EVENT_COUNT :: nat where "IX_OFF_EVENT_COUNT = IX_OFF_BASE_POSITION + 8"
definition IX_OFF_TYPECOL_OFF :: nat where "IX_OFF_TYPECOL_OFF = IX_OFF_EVENT_COUNT + 8"
definition IX_OFF_TYPEDICT_OFF :: nat where "IX_OFF_TYPEDICT_OFF = IX_OFF_TYPECOL_OFF + 4"
definition IX_OFF_POSTINGS_OFF :: nat where "IX_OFF_POSTINGS_OFF = IX_OFF_TYPEDICT_OFF + 4"
definition IX_OFF_FST_OFF :: nat where "IX_OFF_FST_OFF = IX_OFF_POSTINGS_OFF + 4"
definition IX_OFF_FST_LEN :: nat where "IX_OFF_FST_LEN = IX_OFF_FST_OFF + 4"
definition IX_OFF_BODY_CRC :: nat where "IX_OFF_BODY_CRC = IX_OFF_FST_LEN + 4"
definition IX_OFF_PADDING :: nat where "IX_OFF_PADDING = IX_OFF_BODY_CRC + 4"
definition IX_OFF_HEADER_CRC :: nat where "IX_OFF_HEADER_CRC = INDEX_HEADER_SIZE - 4"

lemmas ix_offsets =
  INDEX_HEADER_SIZE_def TYPE_COLUMN_OFFSET_def IX_OFF_MAGIC_def IX_OFF_VERSION_def IX_OFF_CREATED_AT_def
  IX_OFF_BASE_POSITION_def IX_OFF_EVENT_COUNT_def IX_OFF_TYPECOL_OFF_def IX_OFF_TYPEDICT_OFF_def
  IX_OFF_POSTINGS_OFF_def IX_OFF_FST_OFF_def IX_OFF_FST_LEN_def IX_OFF_BODY_CRC_def IX_OFF_PADDING_def
  IX_OFF_HEADER_CRC_def

record IndexSegmentHeader =
  ih_version :: nat
  ih_created_at_nanos :: nat
  ih_base_position :: Position
  ih_event_count :: nat
  typedict_off :: nat
  postings_off :: nat
  fst_off :: nat
  fst_len :: nat
  body_crc :: "32 word"

datatype LayoutDetail = TypeColumnOffset | TypeDictOffset | NotMonotone | FstOverflow

datatype IndexHeaderError =
    IxUnwritten
  | IxBadMagic "32 word" "32 word"
  | IxUnsupportedVersion nat nat
  | IxChecksumMismatch "32 word" "32 word"
  | IxDirtyPadding
  | BadSectionLayout LayoutDetail

text \<open>\<open>u32::from_le_bytes(*b"EVIX")\<close>.\<close>
definition IX_MAGIC_BYTES :: "32 word" where "IX_MAGIC_BYTES = u32_of_le [0x45, 0x56, 0x49, 0x58]"

definition IX_VERSION :: nat where "IX_VERSION = 0"

definition ih_max_position :: "IndexSegmentHeader \<Rightarrow> Position option" where
  "ih_max_position h = (if ih_event_count h > 0 then Some (ih_base_position h + ih_event_count h - 1) else None)"

text \<open>The byte ranges of the regions, as their two ends.\<close>
definition type_column_range :: "IndexSegmentHeader \<Rightarrow> nat \<times> nat" where
  "type_column_range h = (INDEX_HEADER_SIZE, typedict_off h)"

definition type_dict_range :: "IndexSegmentHeader \<Rightarrow> nat \<times> nat" where
  "type_dict_range h = (typedict_off h, postings_off h)"

definition postings_range :: "IndexSegmentHeader \<Rightarrow> nat \<times> nat" where
  "postings_range h = (postings_off h, fst_off h)"

definition fst_range :: "IndexSegmentHeader \<Rightarrow> nat \<times> nat" where
  "fst_range h = (fst_off h, fst_off h + fst_len h)"

definition segment_len :: "IndexSegmentHeader \<Rightarrow> nat" where
  "segment_len h = fst_off h + fst_len h"

definition IndexSegmentHeader_to_bytes :: "crc_fun \<Rightarrow> IndexSegmentHeader \<Rightarrow> bytes" where
  "IndexSegmentHeader_to_bytes crc h =
     (let b = replicate INDEX_HEADER_SIZE 0;
          b = overwrite IX_OFF_MAGIC (u32_le IX_MAGIC_BYTES) b;
          b = overwrite IX_OFF_VERSION (le_bytes 2 (ih_version h)) b;
          b = overwrite IX_OFF_CREATED_AT (le_bytes 8 (ih_created_at_nanos h)) b;
          b = overwrite IX_OFF_BASE_POSITION (le_bytes 8 (ih_base_position h)) b;
          b = overwrite IX_OFF_EVENT_COUNT (le_bytes 8 (ih_event_count h)) b;
          b = overwrite IX_OFF_TYPECOL_OFF (le_bytes 4 TYPE_COLUMN_OFFSET) b;
          b = overwrite IX_OFF_TYPEDICT_OFF (le_bytes 4 (typedict_off h)) b;
          b = overwrite IX_OFF_POSTINGS_OFF (le_bytes 4 (postings_off h)) b;
          b = overwrite IX_OFF_FST_OFF (le_bytes 4 (fst_off h)) b;
          b = overwrite IX_OFF_FST_LEN (le_bytes 4 (fst_len h)) b;
          b = overwrite IX_OFF_BODY_CRC (u32_le (body_crc h)) b
      in overwrite IX_OFF_HEADER_CRC (u32_le (crc (take IX_OFF_HEADER_CRC b))) b)"

definition ih_read_u64 :: "bytes \<Rightarrow> nat \<Rightarrow> nat" where
  "ih_read_u64 b off = of_le (bslice off (off + 8) b)"

definition ih_read_u32 :: "bytes \<Rightarrow> nat \<Rightarrow> nat" where
  "ih_read_u32 b off = of_le (bslice off (off + 4) b)"

text \<open>\<open>event_count.checked_mul(2).and_then(|cols| cols.checked_add(64))\<close>.\<close>
definition expected_typedict :: "nat \<Rightarrow> nat option" where
  "expected_typedict cnt = (if cnt * 2 > U64_MAX then None else checked_add U64_MAX (cnt * 2) INDEX_HEADER_SIZE)"

text \<open>The fields and the layout checks at the end of \<open>from_bytes\<close>.\<close>
definition ih_fields :: "bytes \<Rightarrow> nat \<Rightarrow> IndexHeaderError + IndexSegmentHeader" where
  "ih_fields b ver =
     (let cnt = ih_read_u64 b IX_OFF_EVENT_COUNT;
          typecol = ih_read_u32 b IX_OFF_TYPECOL_OFF;
          typedict = ih_read_u32 b IX_OFF_TYPEDICT_OFF;
          postings = ih_read_u32 b IX_OFF_POSTINGS_OFF;
          fo = ih_read_u32 b IX_OFF_FST_OFF;
          fl = ih_read_u32 b IX_OFF_FST_LEN
      in if typecol \<noteq> TYPE_COLUMN_OFFSET then Inl (BadSectionLayout TypeColumnOffset)
         else if expected_typedict cnt \<noteq> Some typedict then Inl (BadSectionLayout TypeDictOffset)
         else if \<not> (typedict \<le> postings \<and> postings \<le> fo) then Inl (BadSectionLayout NotMonotone)
         else if checked_add U32_MAX fo fl = None then Inl (BadSectionLayout FstOverflow)
         else Inr \<lparr>ih_version = ver, ih_created_at_nanos = ih_read_u64 b IX_OFF_CREATED_AT,
                   ih_base_position = ih_read_u64 b IX_OFF_BASE_POSITION, ih_event_count = cnt,
                   typedict_off = typedict, postings_off = postings, fst_off = fo, fst_len = fl,
                   body_crc = u32_of_le (bslice IX_OFF_BODY_CRC (IX_OFF_BODY_CRC + 4) b)\<rparr>)"

definition IndexSegmentHeader_from_bytes :: "crc_fun \<Rightarrow> bytes \<Rightarrow> IndexHeaderError + IndexSegmentHeader" where
  "IndexSegmentHeader_from_bytes crc b =
     (if list_all (\<lambda>x. x = 0) b then Inl IxUnwritten
      else
        let expected = u32_of_le (drop IX_OFF_HEADER_CRC b);
            computed = crc (take IX_OFF_HEADER_CRC b)
        in if expected \<noteq> computed then Inl (IxChecksumMismatch expected computed)
           else
             let magic = u32_of_le (bslice IX_OFF_MAGIC (IX_OFF_MAGIC + 4) b)
             in if magic \<noteq> IX_MAGIC_BYTES then Inl (IxBadMagic IX_MAGIC_BYTES magic)
                else
                  let ver = of_le (bslice IX_OFF_VERSION (IX_OFF_VERSION + 2) b)
                  in if ver > IX_VERSION then Inl (IxUnsupportedVersion ver IX_VERSION)
                     else if list_ex (\<lambda>x. x \<noteq> 0) (bslice IX_OFF_PADDING IX_OFF_HEADER_CRC b) then Inl IxDirtyPadding
                     else ih_fields b ver)"

definition wf_IndexSegmentHeader :: "IndexSegmentHeader \<Rightarrow> bool" where
  "wf_IndexSegmentHeader h \<longleftrightarrow>
     ih_version h = IX_VERSION \<and> ih_created_at_nanos h \<le> U64_MAX \<and> ih_base_position h \<le> U64_MAX \<and>
     typedict_off h = INDEX_HEADER_SIZE + 2 * ih_event_count h \<and> typedict_off h \<le> postings_off h \<and>
     postings_off h \<le> fst_off h \<and> fst_off h + fst_len h \<le> U32_MAX"

subsection \<open>Facts\<close>

text \<open>Filling a zeroed buffer field by field.\<close>
lemma overwrite_skip: "length a \<le> i \<Longrightarrow> overwrite i ys (a @ r) = a @ overwrite (i - length a) ys r"
  by (simp add: overwrite_def)

lemma overwrite_fill: "length ys \<le> n \<Longrightarrow> overwrite 0 ys (replicate n x) = ys @ replicate (n - length ys) x"
  by (simp add: overwrite_def)

lemma ix_header_shape:
  "IndexSegmentHeader_to_bytes crc h =
     (let b = u32_le IX_MAGIC_BYTES @ le_bytes 2 (ih_version h) @ le_bytes 8 (ih_created_at_nanos h)
                @ le_bytes 8 (ih_base_position h) @ le_bytes 8 (ih_event_count h) @ le_bytes 4 64
                @ le_bytes 4 (typedict_off h) @ le_bytes 4 (postings_off h) @ le_bytes 4 (fst_off h)
                @ le_bytes 4 (fst_len h) @ u32_le (body_crc h) @ replicate 6 0
      in b @ u32_le (crc b))"
  unfolding IndexSegmentHeader_to_bytes_def ix_offsets Let_def
  by (simp add: overwrite_skip overwrite_fill) (simp add: overwrite_def)

lemma length_ix_header [simp]: "length (IndexSegmentHeader_to_bytes crc h) = 64"
  by (simp add: ix_header_shape Let_def)

lemma ix_magic_bytes: "u32_le IX_MAGIC_BYTES = [0x45, 0x56, 0x49, 0x58]"
  by (simp add: IX_MAGIC_BYTES_def u32_le_u32_of_le)

lemma ix_header_dec_enc:
  assumes "wf_IndexSegmentHeader h"
  shows "IndexSegmentHeader_from_bytes crc (IndexSegmentHeader_to_bytes crc h) = Inr h"
proof -
  have "of_le (le_bytes 8 (ih_created_at_nanos h)) = ih_created_at_nanos h"
    "of_le (le_bytes 8 (ih_base_position h)) = ih_base_position h"
    "of_le (le_bytes 8 (ih_event_count h)) = ih_event_count h" "of_le (le_bytes 4 64) = 64"
    "of_le (le_bytes 4 (typedict_off h)) = typedict_off h" "of_le (le_bytes 4 (postings_off h)) = postings_off h"
    "of_le (le_bytes 4 (fst_off h)) = fst_off h" "of_le (le_bytes 4 (fst_len h)) = fst_len h"
    using assms by (simp_all add: wf_IndexSegmentHeader_def INDEX_HEADER_SIZE_def)
  moreover have "\<not> list_all (\<lambda>x. x = 0) (IndexSegmentHeader_to_bytes crc h)"
    by (simp add: ix_header_shape Let_def ix_magic_bytes)
  moreover have "expected_typedict (ih_event_count h) = Some (typedict_off h)"
    using assms by (simp add: expected_typedict_def checked_add_def wf_IndexSegmentHeader_def INDEX_HEADER_SIZE_def)
  ultimately show ?thesis
    using assms
    by (simp add: IndexSegmentHeader_from_bytes_def ih_fields_def ih_read_u64_def ih_read_u32_def ix_header_shape
        Let_def ix_offsets bslice_def wf_IndexSegmentHeader_def IX_VERSION_def list_ex_iff)
qed

lemma ix_header_enc_dec:
  assumes "length b = 64" and "IndexSegmentHeader_from_bytes crc b = Inr h"
  shows "wf_IndexSegmentHeader h \<and> IndexSegmentHeader_to_bytes crc h = b"
proof -
  have crc: "u32_of_le (drop 60 b) = crc (take 60 b)" and mg: "u32_of_le (bslice 0 4 b) = IX_MAGIC_BYTES"
    and ver: "of_le (bslice 4 6 b) = 0" and pad: "\<forall>x \<in> set (bslice 54 60 b). x = 0"
    and f: "ih_fields b 0 = Inr h"
    using assms(2)
    by (auto simp: IndexSegmentHeader_from_bytes_def Let_def ix_offsets IX_VERSION_def list_ex_iff split: if_splits)
  have h: "h = \<lparr>ih_version = 0, ih_created_at_nanos = of_le (bslice 6 14 b), ih_base_position = of_le (bslice 14 22 b),
      ih_event_count = of_le (bslice 22 30 b), typedict_off = of_le (bslice 34 38 b),
      postings_off = of_le (bslice 38 42 b), fst_off = of_le (bslice 42 46 b), fst_len = of_le (bslice 46 50 b),
      body_crc = u32_of_le (bslice 50 54 b)\<rparr>"
    and tc: "of_le (bslice 30 34 b) = 64" and lay: "expected_typedict (ih_event_count h) = Some (typedict_off h)"
    "typedict_off h \<le> postings_off h" "postings_off h \<le> fst_off h" "fst_off h + fst_len h \<le> U32_MAX"
    using f by (auto simp: ih_fields_def ih_read_u32_def ih_read_u64_def Let_def ix_offsets split: if_splits)
  have wf: "wf_IndexSegmentHeader h"
    using of_le_slice_bound [of 14 6 8 b] of_le_slice_bound [of 22 14 8 b] lay
    by (auto simp: wf_IndexSegmentHeader_def IX_VERSION_def expected_typedict_def INDEX_HEADER_SIZE_def h
        split: if_splits)
  have m: "u32_le IX_MAGIC_BYTES = bslice 0 4 b" using mg assms(1) by (simp add: u32_le_u32_of_le flip: mg)
  have v: "le_bytes 2 0 = bslice 4 6 b" using le_bytes_of_le [of "bslice 4 6 b" 2] ver assms(1) by simp
  have t: "le_bytes 4 64 = bslice 30 34 b" using le_bytes_of_le [of "bslice 30 34 b" 4] tc assms(1) by simp
  have fields: "le_bytes (y - x) (of_le (bslice x y b)) = bslice x y b" if "x \<le> y" "y \<le> 64" for x y
    using that assms(1) by (intro le_bytes_of_le) simp
  have bc: "u32_le (u32_of_le (bslice 50 54 b)) = bslice 50 54 b" using assms(1) by (intro u32_le_u32_of_le) simp
  have pd: "replicate 6 0 = bslice 54 60 b" using pad assms(1) by (intro replicate_eqI [symmetric]) auto
  have "bslice 0 4 b @ bslice 4 6 b @ bslice 6 14 b @ bslice 14 22 b @ bslice 22 30 b @ bslice 30 34 b @
      bslice 34 38 b @ bslice 38 42 b @ bslice 42 46 b @ bslice 46 50 b @ bslice 50 54 b @ bslice 54 60 b = take 60 b"
    by (simp add: slice_join) (simp add: bslice_def)
  moreover have "u32_le (crc (take 60 b)) = drop 60 b"
    unfolding crc [symmetric] using assms(1) by (intro u32_le_u32_of_le) simp
  ultimately have "IndexSegmentHeader_to_bytes crc h = b"
    unfolding ix_header_shape Let_def h
    using m v t bc pd fields [of 6 14] fields [of 14 22] fields [of 22 30] fields [of 34 38] fields [of 38 42]
      fields [of 42 46] fields [of 46 50] by simp
  then show ?thesis using wf by simp
qed

interpretation index_header: codec "IndexSegmentHeader_to_bytes crc" "IndexSegmentHeader_from_bytes crc"
  wf_IndexSegmentHeader "\<lambda>b. length b = 64" for crc
  by unfold_locales (simp_all add: ix_header_dec_enc ix_header_enc_dec)

subsection \<open>Properties\<close>

text \<open>
  The index header pins the layout of the file: a 64-byte block decodes to a header exactly when it is
  that header's encoding and the regions are in order, without gaps before the dictionary and below
  \<open>2 ^ 32\<close>; every other block is an error, so a region offset the reader trusts is never out of order.
\<close>
theorem index_header_codec:
  assumes "length b = 64"
  shows "IndexSegmentHeader_from_bytes crc b = Inr h \<longleftrightarrow>
         wf_IndexSegmentHeader h \<and> IndexSegmentHeader_to_bytes crc h = b"
  by (rule index_header.dec_iff [OF assms])

theorem index_header_codec_witness:
  "IndexSegmentHeader_from_bytes crc_demo (IndexSegmentHeader_to_bytes crc_demo
      \<lparr>ih_version = 0, ih_created_at_nanos = 7, ih_base_position = 123456789, ih_event_count = 3, typedict_off = 70,
       postings_off = 90, fst_off = 100, fst_len = 50, body_crc = 0\<rparr>) =
   Inr \<lparr>ih_version = 0, ih_created_at_nanos = 7, ih_base_position = 123456789, ih_event_count = 3, typedict_off = 70,
       postings_off = 90, fst_off = 100, fst_len = 50, body_crc = 0\<rparr>"
proof -
  let ?h = "\<lparr>ih_version = 0, ih_created_at_nanos = 7, ih_base_position = 123456789, ih_event_count = 3, typedict_off = 70,
       postings_off = 90, fst_off = 100, fst_len = 50, body_crc = 0\<rparr>"
  have "wf_IndexSegmentHeader ?h" by (simp add: wf_IndexSegmentHeader_def IX_VERSION_def INDEX_HEADER_SIZE_def)
  then show ?thesis using index_header_codec [of "IndexSegmentHeader_to_bytes crc_demo ?h" crc_demo ?h] by simp
qed

end
