(* ===== verification/AppendColumn.thy ===== *)
theory AppendColumn
  imports Types
begin

text \<open>
  The append-only columns of the active tail (\<open>crates/tephra/src/index/append.rs\<close>): the chunked vector whose
  chunks never move and the two-level posting slot. A chunk is the list of its slots; a reader's \<open>Snap\<close> is
  the number of chunks it captured, and it reads the slots of those chunks as they are when it reads, which is
  what sharing the chunks means. The operations are sequential: one writer call or one reader call at a time.

  \<open>append_vec\<close> is the interface the posting slots and the tail rely on; the chunked vector provides it.
\<close>

subsection \<open>The chunked vector\<close>

definition CHUNK :: nat where "CHUNK = 1024"
definition INLINE :: nat where "INLINE = 4"

lemma CHUNK_pos [simp]: "0 < CHUNK" by (simp add: CHUNK_def)

record 'a ChunkedVec =
  backbone :: "'a list list"
  cv_len :: nat

definition new_chunk :: "'a \<Rightarrow> 'a list" where
  "new_chunk d = replicate CHUNK d"

definition ChunkedVec_new :: "'a ChunkedVec" where
  "ChunkedVec_new = \<lparr>backbone = [], cv_len = 0\<rparr>"

text \<open>\<open>T::default()\<close> is the argument \<open>d\<close>.\<close>
definition cv_ensure :: "'a \<Rightarrow> nat \<Rightarrow> 'a ChunkedVec \<Rightarrow> 'a ChunkedVec" where
  "cv_ensure d i v =
     (let need = i div CHUNK + 1
      in if length (backbone v) \<ge> need then v
         else
           let target = max need (length (backbone v) * 2)
           in v\<lparr>backbone := backbone v @ replicate (target - length (backbone v)) (new_chunk d)\<rparr>)"

text \<open>Running a closure on the slot at an index that exists.\<close>
definition cv_with :: "nat \<Rightarrow> ('a \<Rightarrow> 'a) \<Rightarrow> 'a ChunkedVec \<Rightarrow> 'a ChunkedVec" where
  "cv_with i f v =
     v\<lparr>backbone := (backbone v)[i div CHUNK :=
                     (backbone v ! (i div CHUNK))[i mod CHUNK := f (backbone v ! (i div CHUNK) ! (i mod CHUNK))]]\<rparr>"

definition push_with :: "'a \<Rightarrow> ('a \<Rightarrow> 'a) \<Rightarrow> 'a ChunkedVec \<Rightarrow> nat \<times> 'a ChunkedVec" where
  "push_with d f v =
     (let i = cv_len v; v = cv_with i f (cv_ensure d i v) in (i, v\<lparr>cv_len := i + 1\<rparr>))"

text \<open>\<open>snapshot\<close>: the number of chunks captured; \<open>Snap::get\<close> reads the slot of a captured chunk.\<close>
definition cv_snapshot :: "'a ChunkedVec \<Rightarrow> nat" where
  "cv_snapshot v = length (backbone v)"

definition snap_get :: "nat \<Rightarrow> 'a ChunkedVec \<Rightarrow> nat \<Rightarrow> 'a option" where
  "snap_get chunks v i =
     (if i div CHUNK < chunks \<and> i div CHUNK < length (backbone v)
      then Some (backbone v ! (i div CHUNK) ! (i mod CHUNK)) else None)"

definition snap_covered :: "nat \<Rightarrow> nat" where
  "snap_covered chunks = chunks * CHUNK"

subsection \<open>The interface of an append-only vector\<close>

text \<open>
  \<open>abs v\<close> is the list of the elements appended so far. A reader may hold a cover \<open>c\<close> taken earlier
  (\<open>covers\<close>): below it reads never fail, and they see the current element.
\<close>
locale append_vec =
  fixes inv :: "'v \<Rightarrow> bool" and abs :: "'v \<Rightarrow> 'a list" and d :: 'a
    and empty :: 'v
    and push :: "('a \<Rightarrow> 'a) \<Rightarrow> 'v \<Rightarrow> nat \<times> 'v"
    and upd :: "nat \<Rightarrow> ('a \<Rightarrow> 'a) \<Rightarrow> 'v \<Rightarrow> 'v"
    and cover :: "'v \<Rightarrow> nat"
    and covered :: "nat \<Rightarrow> nat"
    and get :: "nat \<Rightarrow> 'v \<Rightarrow> nat \<Rightarrow> 'a option"
  assumes inv_empty: "inv empty" and abs_empty: "abs empty = []"
    and push_fst: "inv v \<Longrightarrow> fst (push f v) = length (abs v)"
    and push_abs: "inv v \<Longrightarrow> abs (snd (push f v)) = abs v @ [f d]"
    and push_inv: "inv v \<Longrightarrow> inv (snd (push f v))"
    and upd_abs: "\<lbrakk>inv v; i < length (abs v)\<rbrakk> \<Longrightarrow> abs (upd i f v) = (abs v)[i := f (abs v ! i)]"
    and upd_inv: "\<lbrakk>inv v; i < length (abs v)\<rbrakk> \<Longrightarrow> inv (upd i f v)"
    and covered_all: "inv v \<Longrightarrow> length (abs v) \<le> covered (cover v)"
    and cover_push: "inv v \<Longrightarrow> cover v \<le> cover (snd (push f v))"
    and cover_upd: "cover (upd i f v) = cover v"
    and get_below: "\<lbrakk>inv v; c \<le> cover v; i < covered c; i < length (abs v)\<rbrakk> \<Longrightarrow> get c v i = Some (abs v ! i)"
    and get_beyond: "covered c \<le> i \<Longrightarrow> get c v i = None"
begin

lemma push_obtain:
  assumes "inv v"
  obtains v' where "push f v = (length (abs v), v')" and "abs v' = abs v @ [f d]" and "inv v'" and "cover v \<le> cover v'"
  using push_fst [OF assms] push_abs [OF assms] push_inv [OF assms] cover_push [OF assms] by (metis prod.collapse)

lemma get_current: "\<lbrakk>inv v; i < length (abs v)\<rbrakk> \<Longrightarrow> get (cover v) v i = Some (abs v ! i)"
  using get_below [of v "cover v" i] covered_all [of v] by simp

lemma collect_current:
  assumes "inv v" and "n \<le> length (abs v)"
  shows "map (get (cover v) v) [0..<n] = map Some (take n (abs v))"
proof (rule nth_equalityI)
  fix i assume "i < length (map (get (cover v) v) [0..<n])"
  then show "map (get (cover v) v) [0..<n] ! i = map Some (take n (abs v)) ! i"
    using get_current [OF assms(1), of i] assms(2) by simp
qed (use assms(2) in simp)

end

subsection \<open>The chunked vector provides it\<close>

definition cv_abs :: "'a ChunkedVec \<Rightarrow> 'a list" where
  "cv_abs v = take (cv_len v) (concat (backbone v))"

text \<open>Whole chunks, room for every element, and untouched slots past the last one.\<close>
definition cv_inv :: "'a \<Rightarrow> 'a ChunkedVec \<Rightarrow> bool" where
  "cv_inv d v \<longleftrightarrow>
     (\<forall>c \<in> set (backbone v). length c = CHUNK) \<and> cv_len v \<le> length (backbone v) * CHUNK \<and>
     (\<forall>x \<in> set (drop (cv_len v) (concat (backbone v))). x = d)"

lemma length_concat_chunks:
  "\<forall>c \<in> set cs. length c = CHUNK \<Longrightarrow> length (concat cs) = length cs * CHUNK"
  by (induction cs) simp_all

lemma nth_concat_chunks:
  assumes "\<forall>c \<in> set cs. length c = CHUNK" and "i < length cs * CHUNK"
  shows "concat cs ! i = cs ! (i div CHUNK) ! (i mod CHUNK)"
  using assms
proof (induction cs arbitrary: i)
  case (Cons c cs)
  show ?case
  proof (cases "i < CHUNK")
    case True
    then show ?thesis using Cons.prems by (simp add: nth_append)
  next
    case False
    then have d: "i div CHUNK = Suc ((i - CHUNK) div CHUNK)" "i mod CHUNK = (i - CHUNK) mod CHUNK"
      by (simp_all add: le_div_geq le_mod_geq)
    show ?thesis using Cons.IH [of "i - CHUNK"] Cons.prems False by (simp add: nth_append d)
  qed
qed simp

lemma concat_update_chunk:
  assumes "\<forall>c \<in> set cs. length c = CHUNK" and "i < length cs * CHUNK"
  shows "concat (cs[i div CHUNK := (cs ! (i div CHUNK))[i mod CHUNK := x]]) = (concat cs)[i := x]"
  using assms
proof (induction cs arbitrary: i)
  case (Cons c cs)
  show ?case
  proof (cases "i < CHUNK")
    case True
    then show ?thesis using Cons.prems by (simp add: list_update_append)
  next
    case False
    then have d: "i div CHUNK = Suc ((i - CHUNK) div CHUNK)" "i mod CHUNK = (i - CHUNK) mod CHUNK"
      by (simp_all add: le_div_geq le_mod_geq)
    show ?thesis using Cons.IH [of "i - CHUNK"] Cons.prems False by (simp add: list_update_append d)
  qed
qed simp

lemma cv_ensure_ok:
  assumes "cv_inv d v"
  shows "cv_inv d (cv_ensure d i v)" and "cv_abs (cv_ensure d i v) = cv_abs v" and "cv_len (cv_ensure d i v) = cv_len v"
    and "i < length (backbone (cv_ensure d i v)) * CHUNK" and "cv_snapshot v \<le> cv_snapshot (cv_ensure d i v)"
proof -
  obtain k where k: "backbone (cv_ensure d i v) = backbone v @ replicate k (new_chunk d)"
    "cv_len (cv_ensure d i v) = cv_len v" "i div CHUNK < length (backbone v) + k"
  proof (cases "length (backbone v) \<ge> i div CHUNK + 1")
    case True
    then show thesis using that [of 0] by (simp add: cv_ensure_def)
  next
    case False
    then show thesis
      using that [of "max (i div CHUNK + 1) (length (backbone v) * 2) - length (backbone v)"]
      by (auto simp: cv_ensure_def Let_def)
  qed
  have len: "length (concat (backbone v)) = length (backbone v) * CHUNK"
    using assms by (intro length_concat_chunks) (simp add: cv_inv_def)
  show "cv_len (cv_ensure d i v) = cv_len v" by (rule k(2))
  show "cv_snapshot v \<le> cv_snapshot (cv_ensure d i v)" by (simp add: cv_snapshot_def k(1))
  show "i < length (backbone (cv_ensure d i v)) * CHUNK"
    using k(1,3) by (simp add: div_less_iff_less_mult)
  show "cv_abs (cv_ensure d i v) = cv_abs v"
    using assms len by (simp add: cv_abs_def k cv_inv_def)
  have "\<forall>x \<in> set (concat (replicate k (new_chunk d))). x = d" by (simp add: new_chunk_def)
  then show "cv_inv d (cv_ensure d i v)"
    using assms len unfolding cv_inv_def k(1,2)
    by (auto simp: new_chunk_def add_mult_distrib)
qed

lemma cv_with_backbone:
  assumes "cv_inv d v" and "i < length (backbone v) * CHUNK"
  shows "concat (backbone (cv_with i f v)) = (concat (backbone v))[i := f (concat (backbone v) ! i)]"
    and "\<forall>c \<in> set (backbone (cv_with i f v)). length c = CHUNK"
    and "length (backbone (cv_with i f v)) = length (backbone v)" and "cv_len (cv_with i f v) = cv_len v"
proof -
  have ch: "\<forall>c \<in> set (backbone v). length c = CHUNK" using assms(1) by (simp add: cv_inv_def)
  have i: "i div CHUNK < length (backbone v)" using assms(2) by (simp add: div_less_iff_less_mult)
  show "concat (backbone (cv_with i f v)) = (concat (backbone v))[i := f (concat (backbone v) ! i)]"
    using concat_update_chunk [OF ch assms(2)] nth_concat_chunks [OF ch assms(2)] by (simp add: cv_with_def)
  have "length (backbone v ! (i div CHUNK)) = CHUNK" using ch i by simp
  then show "\<forall>c \<in> set (backbone (cv_with i f v)). length c = CHUNK"
    using ch by (auto simp: cv_with_def dest!: subsetD [OF set_update_subset_insert])
  show "length (backbone (cv_with i f v)) = length (backbone v)" "cv_len (cv_with i f v) = cv_len v"
    by (simp_all add: cv_with_def)
qed

lemma length_cv_abs: "cv_inv d v \<Longrightarrow> length (cv_abs v) = cv_len v"
  by (simp add: cv_abs_def cv_inv_def length_concat_chunks)

lemma push_with_ok:
  assumes "cv_inv d v"
  shows "fst (push_with d f v) = cv_len v" and "cv_abs (snd (push_with d f v)) = cv_abs v @ [f d]"
    and "cv_inv d (snd (push_with d f v))" and "cv_snapshot v \<le> cv_snapshot (snd (push_with d f v))"
proof -
  let ?n = "cv_len v" and ?e = "cv_ensure d (cv_len v) v"
  note e = cv_ensure_ok [OF assms, of ?n]
  note w = cv_with_backbone [OF e(1,4), of f]
  let ?c = "concat (backbone ?e)"
  have len: "length ?c = length (backbone ?e) * CHUNK" using e(1) by (intro length_concat_chunks) (simp add: cv_inv_def)
  have n: "?n < length ?c" using e(4) len by simp
  have dflt: "?c ! ?n = d"
  proof -
    have "?c ! ?n \<in> set (drop ?n ?c)" using n by (auto simp: in_set_conv_nth intro!: exI [of _ 0])
    then show ?thesis using e(1,3) by (simp add: cv_inv_def)
  qed
  have p: "push_with d f v = (?n, (cv_with ?n f ?e)\<lparr>cv_len := ?n + 1\<rparr>)" by (simp add: push_with_def Let_def)
  show "fst (push_with d f v) = ?n" by (simp add: p)
  have "cv_abs (snd (push_with d f v)) = take (Suc ?n) (?c[?n := f d])" using w(1) dflt by (simp add: p cv_abs_def)
  also have "\<dots> = take ?n ?c @ [f d]" using n by (simp add: take_Suc_conv_app_nth)
  finally show "cv_abs (snd (push_with d f v)) = cv_abs v @ [f d]" using e(2,3) by (simp add: cv_abs_def)
  have "drop (Suc ?n) (?c[?n := f d]) = drop (Suc ?n) ?c" by simp
  moreover have "set (drop (Suc ?n) ?c) \<subseteq> set (drop ?n ?c)" by (intro set_drop_subset_set_drop) simp
  ultimately show "cv_inv d (snd (push_with d f v))"
    using w n len e(1,3) dflt unfolding cv_inv_def p by auto
  show "cv_snapshot v \<le> cv_snapshot (snd (push_with d f v))" using e(5) w(3) by (simp add: p cv_snapshot_def)
qed

lemma cv_with_ok:
  assumes "cv_inv d v" and "i < cv_len v"
  shows "cv_abs (cv_with i f v) = (cv_abs v)[i := f (cv_abs v ! i)]" and "cv_inv d (cv_with i f v)"
proof -
  have i: "i < length (backbone v) * CHUNK" using assms by (simp add: cv_inv_def)
  note w = cv_with_backbone [OF assms(1) i, of f]
  show "cv_abs (cv_with i f v) = (cv_abs v)[i := f (cv_abs v ! i)]"
    using w(1,4) assms(2) by (simp add: cv_abs_def take_update_swap)
  show "cv_inv d (cv_with i f v)" using assms w by (simp add: cv_inv_def)
qed

lemma snap_get_ok:
  assumes "cv_inv d v" and "c \<le> cv_snapshot v" and "i < snap_covered c" and "i < cv_len v"
  shows "snap_get c v i = Some (cv_abs v ! i)"
proof -
  have i: "i div CHUNK < c" using assms(3) by (simp add: snap_covered_def div_less_iff_less_mult)
  have ch: "\<forall>c \<in> set (backbone v). length c = CHUNK" using assms(1) by (simp add: cv_inv_def)
  have "i < length (backbone v) * CHUNK" using assms(1,4) by (simp add: cv_inv_def)
  from nth_concat_chunks [OF ch this] show ?thesis
    using i assms(2,4) by (simp add: snap_get_def cv_snapshot_def cv_abs_def)
qed

interpretation cv: append_vec "cv_inv d" cv_abs d ChunkedVec_new "push_with d" cv_with cv_snapshot snap_covered snap_get
  for d :: 'a
proof (unfold_locales, goal_cases)
  case 1
  show ?case by (simp add: cv_inv_def ChunkedVec_new_def)
next
  case 2
  show ?case by (simp add: cv_abs_def ChunkedVec_new_def)
next
  case (3 v f)
  then show ?case using push_with_ok(1) length_cv_abs by metis
next
  case (4 v f)
  then show ?case by (rule push_with_ok)
next
  case (5 v f)
  then show ?case by (rule push_with_ok)
next
  case (6 v i f)
  then show ?case using cv_with_ok(1) length_cv_abs by metis
next
  case (7 v i f)
  then show ?case using cv_with_ok(2) length_cv_abs by metis
next
  case (8 v)
  then show ?case by (simp add: length_cv_abs) (simp add: cv_inv_def snap_covered_def cv_snapshot_def)
next
  case (9 v f)
  then show ?case by (rule push_with_ok)
next
  case (10 i f v)
  show ?case by (simp add: cv_snapshot_def cv_with_def)
next
  case (11 v c i)
  then show ?case using snap_get_ok length_cv_abs by metis
next
  case (12 c i v)
  then have "c \<le> i div CHUNK" by (simp add: snap_covered_def less_eq_div_iff_mult_less_eq)
  then show ?case by (simp add: snap_get_def)
qed

subsection \<open>Posting slots\<close>

record PostingSlot =
  slot_len :: nat
  slot_inline :: "nat list"
  slot_spill :: "nat ChunkedVec option"

definition PostingSlot_default :: PostingSlot where
  "PostingSlot_default = \<lparr>slot_len = 0, slot_inline = replicate INLINE 0, slot_spill = None\<rparr>"

definition push_local :: "nat \<Rightarrow> PostingSlot \<Rightarrow> PostingSlot" where
  "push_local local slot =
     (let n = slot_len slot;
          slot = (if n < INLINE then slot\<lparr>slot_inline := (slot_inline slot)[n := local]\<rparr>
                  else
                    let spill = (case slot_spill slot of Some s \<Rightarrow> s | None \<Rightarrow> ChunkedVec_new)
                    in slot\<lparr>slot_spill := Some (snd (push_with 0 (\<lambda>_. local) spill))\<rparr>)
      in slot\<lparr>slot_len := n + 1\<rparr>)"

text \<open>The loop over the spill: element \<open>j\<close> of the \<open>m\<close> expected, stopping at the bound or at a missing slot.\<close>
function collect_spill :: "nat \<Rightarrow> nat ChunkedVec \<Rightarrow> nat \<Rightarrow> nat \<Rightarrow> nat \<Rightarrow> nat list" where
  "collect_spill chunks v limit j m =
     (if j < m
      then case snap_get chunks v j of
             None \<Rightarrow> []
           | Some local \<Rightarrow> if local \<ge> limit then [] else local # collect_spill chunks v limit (j + 1) m
      else [])"
  by pat_completeness auto
termination by (relation "measure (\<lambda>(chunks, v, limit, j, m). m - j)") auto

declare collect_spill.simps [simp del]

text \<open>\<open>collect_below\<close>: the locals below the bound, inline ones first; an inline hit on the bound returns.\<close>
definition collect_below :: "nat \<Rightarrow> PostingSlot \<Rightarrow> nat list" where
  "collect_below limit slot =
     (let n = slot_len slot; inl = take (min n INLINE) (slot_inline slot)
      in if list_ex (\<lambda>local. local \<ge> limit) inl then takeWhile (\<lambda>local. local < limit) inl
         else inl @ (if n > INLINE
                     then (case slot_spill slot of
                             None \<Rightarrow> []
                           | Some v \<Rightarrow> collect_spill (cv_snapshot v) v limit 0 (n - INLINE))
                     else []))"

text \<open>The postings a slot holds.\<close>
definition slot_abs :: "PostingSlot \<Rightarrow> nat list" where
  "slot_abs slot =
     take (slot_len slot) (slot_inline slot) @ (case slot_spill slot of None \<Rightarrow> [] | Some v \<Rightarrow> cv_abs v)"

definition slot_inv :: "PostingSlot \<Rightarrow> bool" where
  "slot_inv slot \<longleftrightarrow>
     length (slot_inline slot) = INLINE \<and>
     (case slot_spill slot of
        None \<Rightarrow> slot_len slot \<le> INLINE
      | Some v \<Rightarrow> INLINE < slot_len slot \<and> cv_inv 0 v \<and> cv_len v = slot_len slot - INLINE)"

lemma slot_default [simp]: "slot_inv PostingSlot_default" "slot_abs PostingSlot_default = []"
  by (simp_all add: slot_inv_def slot_abs_def PostingSlot_default_def)

lemma length_slot_abs: "slot_inv slot \<Longrightarrow> length (slot_abs slot) = slot_len slot"
  by (auto simp: slot_inv_def slot_abs_def length_cv_abs split: option.splits)

lemma push_local_ok:
  assumes "slot_inv slot"
  shows "slot_abs (push_local local slot) = slot_abs slot @ [local]" and "slot_inv (push_local local slot)"
proof -
  let ?n = "slot_len slot"
  have "slot_abs (push_local local slot) = slot_abs slot @ [local] \<and> slot_inv (push_local local slot)"
  proof (cases "?n < INLINE")
    case True
    then have "slot_spill slot = None" "length (slot_inline slot) = INLINE"
      using assms by (auto simp: slot_inv_def split: option.splits)
    then show ?thesis using True
      by (simp add: push_local_def Let_def slot_abs_def slot_inv_def take_Suc_conv_app_nth)
  next
    case False
    define spill where "spill = (case slot_spill slot of Some s \<Rightarrow> s | None \<Rightarrow> ChunkedVec_new)"
    have sp: "cv_inv 0 spill" "cv_len spill = ?n - INLINE" "length (slot_inline slot) = INLINE"
      "slot_abs slot = slot_inline slot @ cv_abs spill"
      using assms False cv.inv_empty [of 0]
      by (auto simp: spill_def slot_inv_def slot_abs_def ChunkedVec_new_def cv_abs_def split: option.splits)
    note p = push_with_ok [OF sp(1), of "\<lambda>_. local"]
    have "cv_len (snd (push_with 0 (\<lambda>_. local) spill)) = Suc (?n - INLINE)"
      by (simp add: push_with_def Let_def sp(2))
    then show ?thesis
      using False sp p(2,3)
      by (auto simp: push_local_def Let_def spill_def [symmetric] slot_abs_def slot_inv_def)
  qed
  then show "slot_abs (push_local local slot) = slot_abs slot @ [local]" "slot_inv (push_local local slot)" by auto
qed

lemma collect_spill_ok:
  assumes "cv_inv 0 v" and "m = cv_len v"
  shows "collect_spill (cv_snapshot v) v limit j m = takeWhile (\<lambda>x. x < limit) (drop j (cv_abs v))"
proof (induction "m - j" arbitrary: j)
  case 0
  then show ?case using length_cv_abs [OF assms(1)] assms(2) by (simp add: collect_spill.simps)
next
  case (Suc k)
  then have j: "j < length (cv_abs v)" using length_cv_abs [OF assms(1)] assms(2) by simp
  have "snap_get (cv_snapshot v) v j = Some (cv_abs v ! j)" by (rule cv.get_current [OF assms(1) j])
  moreover have "drop j (cv_abs v) = cv_abs v ! j # drop (Suc j) (cv_abs v)" using j by (simp add: Cons_nth_drop_Suc)
  ultimately show ?case using Suc.hyps(1) [of "Suc j"] Suc.hyps(2) by (subst collect_spill.simps) auto
qed

lemma takeWhile_append_if:
  "takeWhile P (xs @ ys) = (if list_ex (\<lambda>x. \<not> P x) xs then takeWhile P xs else xs @ takeWhile P ys)"
  by (induction xs) auto

lemma collect_below_ok:
  assumes "slot_inv slot"
  shows "collect_below limit slot = takeWhile (\<lambda>x. x < limit) (slot_abs slot)"
proof (cases "slot_spill slot")
  case None
  then have "slot_len slot \<le> INLINE" using assms by (simp add: slot_inv_def)
  then show ?thesis
    using None takeWhile_append_if [of "\<lambda>x. x < limit" "take (slot_len slot) (slot_inline slot)" "[]"]
    by (auto simp: collect_below_def slot_abs_def Let_def min_def not_less takeWhile_eq_all_conv [THEN iffD2, symmetric])
next
  case (Some v)
  then have v: "INLINE < slot_len slot" "cv_inv 0 v" "slot_len slot - INLINE = cv_len v"
    "length (slot_inline slot) = INLINE"
    using assms by (auto simp: slot_inv_def)
  show ?thesis
    using Some v collect_spill_ok [OF v(2,3), of limit 0]
      takeWhile_append_if [of "\<lambda>x. x < limit" "slot_inline slot" "cv_abs v"]
    by (auto simp: collect_below_def slot_abs_def Let_def min_def not_less)
qed

end
