(* ===== verification/Postings.thy ===== *)
theory Postings
  imports Types
begin

text \<open>
  The tiered posting-list encoding of the index (\<open>crates/tephra/src/index/postings.rs\<close>) and the unsigned
  LEB128 varint below it. Values of type \<open>u64\<close> are natural numbers with the shifts and masks of the
  source; the output buffer of an encoder is the bytes it appends. The tier that is never emitted and the
  impossible one are errors of their own (\<open>ReservedDenseTier\<close>, and \<open>PostingsPanic\<close> for \<open>unreachable!\<close>).
  Memory for the decoded vector is unbounded.
\<close>

unbundle bit_operations_syntax

subsection \<open>Varints\<close>

datatype PostingsError =
    VarintOverflow
  | VarintTruncated
  | OffsetOutOfBounds nat nat
  | PositionOverflow
  | ReservedDenseTier
  | PostingsPanic

function encode_varint :: "nat \<Rightarrow> bytes" where
  "encode_varint v =
     (let b = (of_nat (v AND 0x7f) :: 8 word); v' = drop_bit 7 v
      in if v' = 0 then [b] else (b OR 0x80) # encode_varint v')"
  by pat_completeness auto
termination by (relation "measure id") (auto simp: drop_bit_eq_div)

declare encode_varint.simps [simp del]

text \<open>The loop of \<open>decode_varint\<close> at byte \<open>i\<close>; the shift is \<open>7 * i\<close>.\<close>
fun decode_varint_from :: "nat \<Rightarrow> nat \<Rightarrow> bytes \<Rightarrow> PostingsError + (nat \<times> nat)" where
  "decode_varint_from i v [] = Inl VarintTruncated"
| "decode_varint_from i v (b # bs) =
     (if i = 9 \<and> b > 1 then Inl VarintOverflow
      else
        let v = v OR push_bit (7 * i) (unat (b AND 0x7f))
        in if b AND 0x80 = 0 then Inr (v, i + 1)
           else if i = 9 then Inl VarintOverflow
           else decode_varint_from (i + 1) v bs)"

definition decode_varint :: "bytes \<Rightarrow> PostingsError + (nat \<times> nat)" where
  "decode_varint bs = decode_varint_from 0 0 bs"

subsection \<open>Posting lists\<close>

definition TIER_SHIFT :: nat where "TIER_SHIFT = 62"
definition PAYLOAD_MASK :: nat where "PAYLOAD_MASK = push_bit TIER_SHIFT 1 - 1"
definition TIER_SINGLETON :: nat where "TIER_SINGLETON = 0"
definition TIER_SMALL :: nat where "TIER_SMALL = 1"
definition TIER_DENSE :: nat where "TIER_DENSE = 2"

lemmas tier_defs = TIER_SHIFT_def PAYLOAD_MASK_def TIER_SINGLETON_def TIER_SMALL_def TIER_DENSE_def

text \<open>The loop of \<open>encode_postings\<close>: element number, previous position, positions left.\<close>
fun encode_deltas :: "nat \<Rightarrow> nat \<Rightarrow> nat list \<Rightarrow> bytes" where
  "encode_deltas i prev [] = []"
| "encode_deltas i prev (pos # ps) =
     encode_varint (if i = 0 then pos else pos - prev) @ encode_deltas (i + 1) pos ps"

text \<open>The value for the term dictionary and the postings region after the call.\<close>
definition encode_postings :: "nat list \<Rightarrow> bytes \<Rightarrow> nat \<times> bytes" where
  "encode_postings postings region =
     (if length postings = 1 then (push_bit TIER_SHIFT TIER_SINGLETON OR postings ! 0, region)
      else
        let offset = length region
        in (push_bit TIER_SHIFT TIER_SMALL OR offset,
            region @ encode_varint (length postings) @ encode_deltas 0 0 postings))"

text \<open>The loop of \<open>decode_delta_block\<close>: deltas left to read, element number, last position.\<close>
fun decode_deltas :: "nat \<Rightarrow> nat \<Rightarrow> nat \<Rightarrow> bytes \<Rightarrow> PostingsError + nat list" where
  "decode_deltas 0 i pos cur = Inr []"
| "decode_deltas (Suc n) i pos cur =
     (case decode_varint cur of
        Inl e \<Rightarrow> Inl e
      | Inr (delta, consumed) \<Rightarrow>
          if delta > U32_MAX then Inl PositionOverflow
          else
            (case (if i = 0 then Some delta else checked_add U32_MAX pos delta) of
               None \<Rightarrow> Inl PositionOverflow
             | Some pos \<Rightarrow>
                 (case decode_deltas n (i + 1) pos (drop consumed cur) of
                    Inl e \<Rightarrow> Inl e
                  | Inr ps \<Rightarrow> Inr (pos # ps))))"

definition decode_delta_block :: "nat \<Rightarrow> bytes \<Rightarrow> PostingsError + nat list" where
  "decode_delta_block offset region =
     (if offset > length region then Inl (OffsetOutOfBounds offset (length region))
      else
        let cur = drop offset region
        in case decode_varint cur of
             Inl e \<Rightarrow> Inl e
           | Inr (cnt, consumed) \<Rightarrow> decode_deltas cnt 0 0 (drop consumed cur))"

definition decode_postings :: "nat \<Rightarrow> bytes \<Rightarrow> PostingsError + nat list" where
  "decode_postings v region =
     (let tier = drop_bit TIER_SHIFT v; payload = v AND PAYLOAD_MASK
      in if tier = TIER_SINGLETON then Inr [payload mod 2 ^ 32]
         else if tier = TIER_SMALL then decode_delta_block payload region
         else if tier = TIER_DENSE then Inl ReservedDenseTier
         else Inl PostingsPanic)"

definition posting_len :: "nat \<Rightarrow> bytes \<Rightarrow> PostingsError + nat" where
  "posting_len v region =
     (let tier = drop_bit TIER_SHIFT v; payload = v AND PAYLOAD_MASK
      in if tier = TIER_SINGLETON then Inr 1
         else if tier = TIER_SMALL
         then (if payload > length region then Inl (OffsetOutOfBounds payload (length region))
               else case decode_varint (drop payload region) of
                      Inl e \<Rightarrow> Inl e
                    | Inr (cnt, _) \<Rightarrow> if cnt > U32_MAX then Inl PositionOverflow else Inr cnt)
         else if tier = TIER_DENSE then Inl ReservedDenseTier
         else Inl PostingsPanic)"

subsection \<open>Varints round-trip\<close>

lemma or_push_bit_add:
  fixes v :: nat
  assumes "v < 2 ^ s"
  shows "v OR push_bit s k = v + k * 2 ^ s"
proof -
  have "take_bit s v = v" using assms by (simp add: take_bit_nat_eq_self_iff)
  then have "\<not> bit v n \<or> \<not> bit (push_bit s k) n" for n
    by (metis bit_push_bit_iff bit_take_bit_iff not_le)
  then have "v OR push_bit s k = v + push_bit s k"
    by (intro disjunctive_add_eq_or [symmetric] bit_eqI) (auto simp: bit_and_iff)
  then show ?thesis by (simp add: push_bit_eq_mult)
qed

lemma byte_split:
  fixes b :: "8 word"
  shows "unat (b AND 0x7f) = unat b mod 128" and "b AND 0x80 = 0 \<longleftrightarrow> unat b < 128"
    and "n < 128 \<Longrightarrow> unat (of_nat n OR 0x80 :: 8 word) = n + 128"
proof -
  have "b AND 0x7f = take_bit 7 b" by (simp add: take_bit_eq_mask mask_eq_exp_minus_1)
  then have "unat (b AND 0x7f) = take_bit 7 (unat b)" by (simp only: unsigned_take_bit_eq)
  then show "unat (b AND 0x7f) = unat b mod 128" by (simp add: take_bit_eq_mod)
  have "b AND 0x80 = 0 \<longleftrightarrow> \<not> bit b 7" using and_exp_eq_0_iff_not_bit [of b 7] by simp
  also have "bit b 7 \<longleftrightarrow> bit (unat b) 7" by (simp add: bit_unsigned_iff)
  also have "\<dots> \<longleftrightarrow> odd (unat b div 128)" by (simp add: bit_iff_odd)
  also have "\<dots> \<longleftrightarrow> \<not> unat b < 128"
  proof -
    have "unat b div 128 < 2" using unsigned_less [of b] by (simp add: less_mult_imp_div_less)
    then have "unat b div 128 = 0 \<or> unat b div 128 = 1" by linarith
    then show ?thesis by (auto simp: div_eq_0_iff)
  qed
  finally show "b AND 0x80 = 0 \<longleftrightarrow> unat b < 128" by simp
  show "unat (of_nat n OR 0x80 :: 8 word) = n + 128" if "n < 128"
    using that or_push_bit_add [of n 7 1] by (simp add: unsigned_or_eq unat_of_nat push_bit_eq_mult)
qed

lemma encode_varint_nat:
  "encode_varint v = (if v < 128 then [of_nat v] else (of_nat (v mod 128) OR 0x80) # encode_varint (v div 128))"
proof -
  have m: "v AND 127 = v mod 128" using take_bit_eq_mask [of 7 v] by (simp add: mask_eq_exp_minus_1 take_bit_eq_mod)
  have d: "drop_bit 7 v = v div 128" by (simp add: drop_bit_eq_div)
  show ?thesis by (subst encode_varint.simps) (simp add: Let_def m d div_eq_0_iff)
qed

lemma encode_varint_nonempty [simp]: "encode_varint v \<noteq> []"
  by (subst encode_varint_nat) simp

lemma decode_encode_from:
  assumes "val < 2 ^ (7 * i)" and "v * 2 ^ (7 * i) < 2 ^ 64" and "i \<le> 9"
  shows "decode_varint_from i val (encode_varint v @ rest)
         = Inr (val + v * 2 ^ (7 * i), i + length (encode_varint v))"
  using assms
proof (induction v arbitrary: i val rule: less_induct)
  case (less v)
  have last: "v < 2" if "i = 9" using less.prems(2) that by simp
  show ?case
  proof (cases "v < 128")
    case True
    have u: "unat (of_nat v :: 8 word) = v" using True by (simp add: unat_of_nat)
    have one: "\<not> (of_nat v :: 8 word) > 1" if "i = 9"
      using last [OF that] u by (simp add: word_less_nat_alt)
    have "unat ((of_nat v :: 8 word) AND 0x7f) = v" "(of_nat v :: 8 word) AND 0x80 = 0"
      using True by (simp_all add: byte_split u)
    then show ?thesis
      using True one or_push_bit_add [OF less.prems(1)] by (subst (1 2) encode_varint_nat) (auto simp: Let_def)
  next
    case False
    let ?b = "of_nat (v mod 128) OR 0x80 :: 8 word"
    have i: "i \<noteq> 9" using False last by auto
    have ub: "unat ?b = v mod 128 + 128" by (rule byte_split) simp
    have b: "unat (?b AND 0x7f) = v mod 128" "?b AND 0x80 \<noteq> 0"
      by (simp_all add: byte_split ub)
    have val: "val OR push_bit (7 * i) (v mod 128) = val + v mod 128 * 2 ^ (7 * i)"
      by (rule or_push_bit_add [OF less.prems(1)])
    have e: "(2::nat) ^ (7 * (i + 1)) = 128 * 2 ^ (7 * i)" by (simp add: power_add)
    have "v mod 128 * 2 ^ (7 * i) \<le> 127 * 2 ^ (7 * i)" by (intro mult_le_mono1) (use mod_less_divisor [of 128 v] in linarith)
    then have v1: "val + v mod 128 * 2 ^ (7 * i) < 2 ^ (7 * (i + 1))" using less.prems(1) unfolding e by linarith
    have "v div 128 * 128 * 2 ^ (7 * i) \<le> v * 2 ^ (7 * i)" by (intro mult_le_mono1) simp
    then have "v div 128 * 2 ^ (7 * (i + 1)) \<le> v * 2 ^ (7 * i)" unfolding e by (simp only: mult.assoc)
    then have v2: "v div 128 * 2 ^ (7 * (i + 1)) < 2 ^ 64" using less.prems(2) by linarith
    have "decode_varint_from (i + 1) (val + v mod 128 * 2 ^ (7 * i)) (encode_varint (v div 128) @ rest)
        = Inr (val + v mod 128 * 2 ^ (7 * i) + v div 128 * 2 ^ (7 * (i + 1)), i + 1 + length (encode_varint (v div 128)))"
      by (rule less.IH [OF _ v1 v2]) (use False i less.prems(3) in auto)
    moreover have "v mod 128 * 2 ^ (7 * i) + v div 128 * 2 ^ (7 * (i + 1)) = v * 2 ^ (7 * i)"
    proof -
      have "v * 2 ^ (7 * i) = (v mod 128 + 128 * (v div 128)) * 2 ^ (7 * i)" by simp
      then show ?thesis unfolding e by (simp only: add_mult_distrib mult.assoc mult.left_commute)
    qed
    ultimately show ?thesis
      using False i b val by (subst (1 2) encode_varint_nat) (simp add: Let_def add.assoc)
  qed
qed

lemma decode_encode_varint:
  "v \<le> U64_MAX \<Longrightarrow> decode_varint (encode_varint v @ rest) = Inr (v, length (encode_varint v))"
  unfolding decode_varint_def using decode_encode_from [of 0 0 v rest] by simp

subsection \<open>Posting lists round-trip\<close>

lemma decode_encode_deltas:
  assumes "i = 0 \<or> sorted_wrt (<) (prev # ps)" and "sorted_wrt (<) ps" and "\<forall>p \<in> set ps. p \<le> U32_MAX"
  shows "decode_deltas (length ps) i prev (encode_deltas i prev ps @ rest) = Inr ps"
  using assms
proof (induction ps arbitrary: i prev)
  case (Cons p ps)
  let ?d = "if i = 0 then p else p - prev"
  have d: "?d \<le> U32_MAX" "?d \<le> U64_MAX" "i \<noteq> 0 \<Longrightarrow> prev + ?d = p" "p \<le> U32_MAX"
    using Cons.prems by (auto split: if_splits)
  have IH: "decode_deltas (length ps) (i + 1) p (encode_deltas (i + 1) p ps @ rest) = Inr ps"
    using Cons.IH [of "i + 1" p] Cons.prems by simp
  have "decode_varint (encode_varint ?d @ encode_deltas (i + 1) p ps @ rest) = Inr (?d, length (encode_varint ?d))"
    by (rule decode_encode_varint) (rule d(2))
  then show ?case
    using IH d by (auto simp: checked_add_def)
qed simp

lemma small_value:
  assumes "off < 2 ^ 62"
  shows "drop_bit TIER_SHIFT (push_bit TIER_SHIFT TIER_SMALL OR off) = 1"
    and "(push_bit TIER_SHIFT TIER_SMALL OR off) AND PAYLOAD_MASK = off"
proof -
  have v: "push_bit TIER_SHIFT TIER_SMALL OR off = off + 2 ^ 62"
    using or_push_bit_add [OF assms, of 1] by (simp add: tier_defs or.commute)
  have m: "x AND PAYLOAD_MASK = x mod 2 ^ 62" for x
    using take_bit_eq_mask [of 62 x] by (simp add: tier_defs mask_eq_exp_minus_1 take_bit_eq_mod push_bit_eq_mult)
  show "drop_bit TIER_SHIFT (push_bit TIER_SHIFT TIER_SMALL OR off) = 1"
    unfolding v using assms by (simp add: TIER_SHIFT_def drop_bit_eq_div)
  show "(push_bit TIER_SHIFT TIER_SMALL OR off) AND PAYLOAD_MASK = off"
    unfolding v m using assms by simp
qed

lemma singleton_value:
  assumes "p \<le> U32_MAX"
  shows "drop_bit TIER_SHIFT (push_bit TIER_SHIFT TIER_SINGLETON OR p) = 0"
    and "((push_bit TIER_SHIFT TIER_SINGLETON OR p) AND PAYLOAD_MASK) mod 2 ^ 32 = p"
proof -
  have m: "p AND PAYLOAD_MASK = p mod 2 ^ 62"
    using take_bit_eq_mask [of 62 p] by (simp add: tier_defs mask_eq_exp_minus_1 take_bit_eq_mod push_bit_eq_mult)
  show "drop_bit TIER_SHIFT (push_bit TIER_SHIFT TIER_SINGLETON OR p) = 0"
    and "((push_bit TIER_SHIFT TIER_SINGLETON OR p) AND PAYLOAD_MASK) mod 2 ^ 32 = p"
    using assms m by (simp_all add: tier_defs drop_bit_eq_div)
qed

lemma encode_postings_region: "\<exists>block. snd (encode_postings ps region) = region @ block"
  by (auto simp: encode_postings_def Let_def)

lemma decode_encode_postings:
  assumes "sorted_wrt (<) ps" and "\<forall>p \<in> set ps. p \<le> U32_MAX" and "length ps \<le> U32_MAX"
    and "length region < 2 ^ 62" and "encode_postings ps region = (v, region')"
  shows "decode_postings v (region' @ rest) = Inr ps \<and> posting_len v (region' @ rest) = Inr (length ps)"
proof (cases "length ps = 1")
  case True
  then obtain p where ps: "ps = [p]" by (cases ps) auto
  have v: "v = push_bit TIER_SHIFT TIER_SINGLETON OR p" using assms(5) ps by (simp add: encode_postings_def)
  show ?thesis
    using singleton_value [of p] assms(2) unfolding ps v
    by (simp add: decode_postings_def posting_len_def Let_def TIER_SINGLETON_def)
next
  case False
  then have v: "v = push_bit TIER_SHIFT TIER_SMALL OR length region"
    and r: "region' = region @ encode_varint (length ps) @ encode_deltas 0 0 ps"
    using assms(5) by (simp_all add: encode_postings_def Let_def)
  have n: "decode_varint (encode_varint (length ps) @ encode_deltas 0 0 ps @ rest)
      = Inr (length ps, length (encode_varint (length ps)))"
    by (rule decode_encode_varint) (use assms(3) in simp)
  have "decode_deltas (length ps) 0 0 (encode_deltas 0 0 ps @ rest) = Inr ps"
    by (rule decode_encode_deltas) (use assms(1,2) in auto)
  then show ?thesis
    using small_value [OF assms(4)] n assms(3) unfolding v r
    by (simp add: decode_postings_def posting_len_def decode_delta_block_def Let_def TIER_SINGLETON_def TIER_SMALL_def)
qed

subsection \<open>Properties\<close>

text \<open>
  Posting lists round-trip through the tiered encoding: for every non-empty ascending list of 32-bit
  positions, appended to any region and followed by any later blocks, the value handed to the term
  dictionary decodes to the same list and its length is read without decoding it; the region is only ever
  extended, so values handed out earlier keep their meaning.
\<close>
theorem postings_roundtrip:
  assumes "ps \<noteq> []" and "sorted_wrt (<) ps" and "\<forall>p \<in> set ps. p \<le> U32_MAX" and "length ps \<le> U32_MAX"
    and "length region < 2 ^ 62"
  shows "\<exists>v block. encode_postings ps region = (v, region @ block) \<and>
           decode_postings v (region @ block @ rest) = Inr ps \<and>
           posting_len v (region @ block @ rest) = Inr (length ps)"
proof -
  obtain v region' where e: "encode_postings ps region = (v, region')" by fastforce
  moreover obtain block where "region' = region @ block" using encode_postings_region [of ps region] e by auto
  ultimately show ?thesis using decode_encode_postings [OF assms(2-5) e, of rest] by auto
qed

theorem postings_roundtrip_witness:
  "encode_postings [3, 5, 400] [9, 9] = (2 ^ 62 + 2, [9, 9, 3, 3, 2, 0x8B, 3]) \<and>
   decode_postings (2 ^ 62 + 2) [9, 9, 3, 3, 2, 0x8B, 3, 7] = Inr [3, 5, 400] \<and>
   posting_len (2 ^ 62 + 2) [9, 9, 3, 3, 2, 0x8B, 3, 7] = Inr 3"
proof -
  have "encode_postings [3, 5, 400] [9, 9] = (2 ^ 62 + 2, [9, 9, 3, 3, 2, 0x8B, 3])" by code_simp
  then show ?thesis using postings_roundtrip [of "[3, 5, 400]" "[9, 9]" "[7]"] by simp
qed

text \<open>
  Varints are self-delimiting: every 64-bit value, followed by anything, decodes to itself and consumes
  exactly its own bytes, at most ten of them; a run of ten continuation bytes is rejected as an overflow.
\<close>
theorem varint_roundtrip:
  assumes "v \<le> U64_MAX"
  shows "decode_varint (encode_varint v @ rest) = Inr (v, length (encode_varint v)) \<and>
         length (encode_varint v) \<le> 10 \<and>
         decode_varint (replicate 10 0xFF @ rest) = Inl VarintOverflow"
proof -
  have len: "length (encode_varint u) \<le> k" if "u < 128 ^ k" "0 < k" for u k
    using that
  proof (induction u arbitrary: k rule: less_induct)
    case (less u)
    show ?case
    proof (cases "u < 128")
      case True
      then show ?thesis using less.prems(2) by (subst encode_varint_nat) simp
    next
      case False
      then obtain j where j: "k = Suc j" "0 < j" using less.prems by (cases k; cases "k = 1") auto
      have "u div 128 < 128 ^ j" using less.prems(1) by (simp add: j less_mult_imp_div_less)
      then show ?thesis using less.IH [of "u div 128" j] False j by (subst encode_varint_nat) simp
    qed
  qed
  have "length (encode_varint v) \<le> 10" by (rule len) (use assms in simp_all)
  moreover have "decode_varint (replicate 10 0xFF @ rest) = Inl VarintOverflow"
  proof -
    have "decode_varint_from (9 - n) u (replicate (Suc n) 0xFF @ rest) = Inl VarintOverflow" if "n \<le> 9" for n u
      using that
    proof (induction n arbitrary: u)
      case (Suc n)
      have "Suc (9 - Suc n) = 9 - n" using Suc.prems by simp
      then show ?case using Suc.IH Suc.prems by (simp add: Let_def)
    qed simp
    from this [of 9 0] show ?thesis by (simp add: decode_varint_def numeral_eq_Suc)
  qed
  ultimately show ?thesis using decode_encode_varint [OF assms] by simp
qed

theorem varint_roundtrip_witness:
  "encode_varint U64_MAX = replicate 9 0xFF @ [1] \<and> decode_varint (replicate 9 0xFF @ [1, 42]) = Inr (U64_MAX, 10)"
proof -
  have "encode_varint U64_MAX = replicate 9 0xFF @ [1]" by code_simp
  then show ?thesis using varint_roundtrip [of U64_MAX "[42]"] by simp
qed

end
