(* ===== verification/IndexSearch.thy ===== *)
theory IndexSearch
  imports Query Postings
begin

text \<open>
  The index-driven query evaluator and the planner's cost model (\<open>crates/tephra/src/index/search.rs\<close>,
  \<open>crates/tephra/src/index/plan.rs\<close>) over the trait \<open>SegmentIndex\<close> (\<open>index/mod.rs\<close>). A value of the trait is
  the record of its methods; a decoding failure on a trusted index segment, a panic in the source, is the
  error of the result.

  The locale \<open>segment_index\<close> is the trait's contract: what a method returns for an index that represents a
  list of events. Inside it the evaluator is proved equal to filtering the events with the match predicate
  and the cost estimate is proved an upper bound; the active tail and the on-disk segment interpret it.
\<close>

subsection \<open>The trait\<close>

record SegmentIndex =
  ix_base :: Position
  ix_len :: nat
  ix_term_postings :: "str \<Rightarrow> PostingsError + nat list option"
  ix_term_len :: "str \<Rightarrow> PostingsError + nat option"
  ix_type_id :: "str \<Rightarrow> nat option"
  ix_type_at :: "nat \<Rightarrow> nat"

subsection \<open>The evaluator\<close>

text \<open>\<open>slice::binary_search(x).is_ok()\<close>, as a search of the half-open range from \<open>lo\<close> to \<open>hi\<close>.\<close>
function binary_search :: "nat list \<Rightarrow> nat \<Rightarrow> nat \<Rightarrow> nat \<Rightarrow> bool" where
  "binary_search xs x lo hi =
     (if lo < hi
      then let mid = lo + (hi - lo) div 2
           in if xs ! mid = x then True
              else if xs ! mid < x then binary_search xs x (mid + 1) hi
              else binary_search xs x lo mid
      else False)"
  by pat_completeness auto
termination by (relation "measure (\<lambda>(xs, x, lo, hi). hi - lo)") auto

declare binary_search.simps [simp del]

definition intersect :: "nat list list \<Rightarrow> nat list" where
  "intersect ll =
     (case sort_key length ll of
        [] \<Rightarrow> []
      | shortest # rest \<Rightarrow>
          filter (\<lambda>x. list_all (\<lambda>l. binary_search l x 0 (length l)) rest) shortest)"

text \<open>The loop that fetches one posting list per required tag; \<open>None\<close> is a tag no event carries.\<close>
fun gather_postings :: "SegmentIndex \<Rightarrow> Tag list \<Rightarrow> PostingsError + nat list list option" where
  "gather_postings ix [] = Inr (Some [])"
| "gather_postings ix (t # ts) =
     (case ix_term_postings ix (tag_str t) of
        Inl e \<Rightarrow> Inl e
      | Inr None \<Rightarrow> Inr None
      | Inr (Some l) \<Rightarrow>
          (case gather_postings ix ts of
             Inl e \<Rightarrow> Inl e
           | Inr None \<Rightarrow> Inr None
           | Inr (Some ls) \<Rightarrow> Inr (Some (l # ls))))"

text \<open>The resolved type constraint of an item (\<open>None\<close>: any type), and the filter it gives.\<close>
definition type_filter :: "SegmentIndex \<Rightarrow> QueryItem \<Rightarrow> nat list option" where
  "type_filter ix it =
     (if types it = [] then None else Some (List.map_filter (\<lambda>t. ix_type_id ix (type_str t)) (types it)))"

definition keep_local :: "SegmentIndex \<Rightarrow> QueryItem \<Rightarrow> nat \<Rightarrow> bool" where
  "keep_local ix it local =
     (case type_filter ix it of None \<Rightarrow> True | Some ids \<Rightarrow> ix_type_at ix local \<in> set ids)"

text \<open>The local positions \<open>item_locals\<close> appends for one item.\<close>
definition item_locals :: "SegmentIndex \<Rightarrow> QueryItem \<Rightarrow> PostingsError + nat list" where
  "item_locals ix it =
     (if type_filter ix it = Some [] then Inr []
      else if tags it = [] then Inr (filter (keep_local ix it) [0..<ix_len ix])
      else case gather_postings ix (tags it) of
        Inl e \<Rightarrow> Inl e
      | Inr None \<Rightarrow> Inr []
      | Inr (Some ll) \<Rightarrow> Inr (filter (keep_local ix it) (intersect ll)))"

fun all_item_locals :: "SegmentIndex \<Rightarrow> QueryItem list \<Rightarrow> PostingsError + nat list" where
  "all_item_locals ix [] = Inr []"
| "all_item_locals ix (it # its) =
     (case item_locals ix it of
        Inl e \<Rightarrow> Inl e
      | Inr ls \<Rightarrow> (case all_item_locals ix its of Inl e \<Rightarrow> Inl e | Inr ms \<Rightarrow> Inr (ls @ ms)))"

definition local_matches :: "SegmentIndex \<Rightarrow> Query \<Rightarrow> PostingsError + nat list" where
  "local_matches ix q =
     (case q of
        All \<Rightarrow> Inr [0..<ix_len ix]
      | Items its \<Rightarrow>
          (case all_item_locals ix its of
             Inl e \<Rightarrow> Inl e
           | Inr locals \<Rightarrow> Inr (remdups_adj (sort locals))))"

definition search :: "SegmentIndex \<Rightarrow> Query \<Rightarrow> Position \<Rightarrow> PostingsError + Position list" where
  "search ix q aft =
     (case local_matches ix q of
        Inl e \<Rightarrow> Inl e
      | Inr locals \<Rightarrow> Inr (filter (\<lambda>g. g > aft) (map (\<lambda>local. ix_base ix + local) locals)))"

definition search_back :: "SegmentIndex \<Rightarrow> Query \<Rightarrow> Position \<Rightarrow> PostingsError + Position list" where
  "search_back ix q bef =
     (case local_matches ix q of
        Inl e \<Rightarrow> Inl e
      | Inr locals \<Rightarrow> Inr (filter (\<lambda>g. g < bef) (map (\<lambda>local. ix_base ix + local) (rev locals))))"

subsection \<open>The cost model\<close>

datatype Access = Index | AccScan

text \<open>The loop of \<open>estimate_item\<close> over the tags.\<close>
fun smallest_term :: "SegmentIndex \<Rightarrow> Tag list \<Rightarrow> nat \<Rightarrow> PostingsError + nat option" where
  "smallest_term ix [] smallest = Inr (Some smallest)"
| "smallest_term ix (t # ts) smallest =
     (case ix_term_len ix (tag_str t) of
        Inl e \<Rightarrow> Inl e
      | Inr None \<Rightarrow> Inr None
      | Inr (Some len) \<Rightarrow> smallest_term ix ts (min smallest len))"

definition estimate_item :: "SegmentIndex \<Rightarrow> QueryItem \<Rightarrow> nat \<Rightarrow> PostingsError + nat" where
  "estimate_item ix it width =
     (if tags it = [] then Inr width
      else case smallest_term ix (tags it) U64_MAX of
        Inl e \<Rightarrow> Inl e
      | Inr None \<Rightarrow> Inr 0
      | Inr (Some smallest) \<Rightarrow> Inr (min smallest width))"

fun estimate_items :: "SegmentIndex \<Rightarrow> QueryItem list \<Rightarrow> nat \<Rightarrow> nat \<Rightarrow> PostingsError + nat" where
  "estimate_items ix [] width tot = Inr (min tot width)"
| "estimate_items ix (it # its) width tot =
     (case estimate_item ix it width of
        Inl e \<Rightarrow> Inl e
      | Inr n \<Rightarrow>
          let tot = saturating_add U64_MAX tot n
          in if tot \<ge> width then Inr width else estimate_items ix its width tot)"

definition estimate_matches :: "SegmentIndex \<Rightarrow> Query \<Rightarrow> nat \<Rightarrow> PostingsError + nat" where
  "estimate_matches ix q width =
     (case q of All \<Rightarrow> Inr width | Items its \<Rightarrow> estimate_items ix its width 0)"

definition choose_access :: "nat \<Rightarrow> nat \<Rightarrow> nat \<Rightarrow> Access" where
  "choose_access estimate width scan_bias =
     (if saturating_mul U64_MAX estimate scan_bias \<le> width then Index else AccScan)"

subsection \<open>Searching and intersecting sorted lists\<close>

lemma binary_search_range:
  assumes "sorted_wrt (<) xs" and "hi \<le> length xs"
  shows "binary_search xs x lo hi \<longleftrightarrow> (\<exists>i. lo \<le> i \<and> i < hi \<and> xs ! i = x)"
  using assms(2)
proof (induction "hi - lo" arbitrary: lo hi rule: less_induct)
  case less
  show ?case
  proof (cases "lo < hi")
    case True
    define mid where "mid = lo + (hi - lo) div 2"
    have mid: "lo \<le> mid" "mid < hi" using True by (auto simp: mid_def)
    have mono: "xs ! i < xs ! j" if "i < j" "j < hi" for i j
      using assms(1) that less.prems by (simp add: sorted_wrt_nth_less)
    consider "xs ! mid = x" | "xs ! mid < x" | "xs ! mid > x" by (rule linorder_cases)
    then show ?thesis
    proof cases
      case 1
      then show ?thesis using True mid by (subst binary_search.simps) (auto simp: mid_def [symmetric])
    next
      case 2
      have "binary_search xs x lo hi = binary_search xs x (mid + 1) hi"
        using True 2 by (subst binary_search.simps) (simp add: mid_def [symmetric])
      also have "\<dots> \<longleftrightarrow> (\<exists>i. mid + 1 \<le> i \<and> i < hi \<and> xs ! i = x)" using less mid by auto
      also have "\<dots> \<longleftrightarrow> (\<exists>i. lo \<le> i \<and> i < hi \<and> xs ! i = x)"
        using 2 mid mono by (metis Suc_eq_plus1 Suc_leI le_Suc_eq le_trans less_irrefl linorder_neqE_nat order.strict_trans)
      finally show ?thesis .
    next
      case 3
      have "binary_search xs x lo hi = binary_search xs x lo mid"
        using True 3 by (subst binary_search.simps) (simp add: mid_def [symmetric])
      also have "\<dots> \<longleftrightarrow> (\<exists>i. lo \<le> i \<and> i < mid \<and> xs ! i = x)" using less mid by auto
      also have "\<dots> \<longleftrightarrow> (\<exists>i. lo \<le> i \<and> i < hi \<and> xs ! i = x)"
        using 3 mid mono by (metis less_irrefl linorder_neqE_nat order.strict_trans)
      finally show ?thesis .
    qed
  qed (simp add: binary_search.simps)
qed

lemma binary_search_member: "sorted_wrt (<) xs \<Longrightarrow> binary_search xs x 0 (length xs) \<longleftrightarrow> x \<in> set xs"
  using binary_search_range [of xs "length xs" x 0] by (auto simp: in_set_conv_nth)

text \<open>Two strictly ascending lists with the same elements are equal.\<close>
lemma strict_sorted_equal:
  fixes xs ys :: "'a :: linorder list"
  assumes "sorted_wrt (<) xs" and "sorted_wrt (<) ys" and "set xs = set ys"
  shows "xs = ys"
  using assms by (intro sorted_distinct_set_unique) (simp_all add: strict_sorted_iff)

lemma intersect_spec:
  assumes "ll \<noteq> []" and "\<forall>l \<in> set ll. sorted_wrt (<) l"
  shows "sorted_wrt (<) (intersect ll)" and "set (intersect ll) = {x. \<forall>l \<in> set ll. x \<in> set l}"
proof -
  obtain s rest where sr: "sort_key length ll = s # rest"
    using assms(1) by (metis list.exhaust length_sort length_0_conv)
  have set: "set ll = insert s (set rest)" using arg_cong [OF sr, of set] by simp
  have "binary_search l x 0 (length l) \<longleftrightarrow> x \<in> set l" if "l \<in> set rest" for l x
    using binary_search_member assms(2) set that by simp
  then have i: "intersect ll = filter (\<lambda>x. \<forall>l \<in> set rest. x \<in> set l) s"
    by (simp add: intersect_def sr list_all_iff cong: ball_cong)
  show "sorted_wrt (<) (intersect ll)" unfolding i using assms(2) set by (intro sorted_wrt_filter) simp
  show "set (intersect ll) = {x. \<forall>l \<in> set ll. x \<in> set l}" unfolding i set by auto
qed

lemma sort_dedup:
  fixes xs :: "nat list"
  shows "sorted_wrt (<) (remdups_adj (sort xs)) \<and> set (remdups_adj (sort xs)) = set xs"
proof -
  have "sorted_wrt (<) (remdups_adj ys)" if "sorted ys" for ys :: "nat list"
    using that
  proof (induction ys rule: remdups_adj.induct)
    case (3 x y ys)
    have "z > x" if "x \<noteq> y" "z \<in> set (y # ys)" for z using 3(3) that by fastforce
    then show ?case using 3 by (auto simp del: remdups_adj.simps simp add: remdups_adj.simps(3))
  qed simp_all
  then show ?thesis by simp
qed

subsection \<open>The contract of a segment index\<close>

text \<open>The parts of an event a query looks at: its type and its tags.\<close>
type_synonym event_parts = "str \<times> str list"

definition carries :: "event_parts list \<Rightarrow> str \<Rightarrow> nat \<Rightarrow> bool" where
  "carries evs tag i \<longleftrightarrow> tag \<in> set (snd (evs ! i))"

definition matching :: "Query \<Rightarrow> event_parts list \<Rightarrow> nat list" where
  "matching q evs = filter (\<lambda>i. matches_parts q (fst (evs ! i)) (snd (evs ! i))) [0..<length evs]"

locale segment_index =
  fixes rep :: "'s \<Rightarrow> event_parts list \<Rightarrow> bool" and dict :: "'s \<Rightarrow> SegmentIndex"
  assumes len: "rep s evs \<Longrightarrow> ix_len (dict s) = length evs"
    and postings: "rep s evs \<Longrightarrow>
      (ix_term_postings (dict s) tag = Inr None \<and> (\<forall>i < length evs. \<not> carries evs tag i)) \<or>
      ix_term_postings (dict s) tag = Inr (Some (filter (carries evs tag) [0..<length evs]))"
    and term_len: "rep s evs \<Longrightarrow>
      (ix_term_len (dict s) tag = Inr None \<and> (\<forall>i < length evs. \<not> carries evs tag i)) \<or>
      (\<exists>n \<ge> length (filter (carries evs tag) [0..<length evs]). ix_term_len (dict s) tag = Inr (Some n))"
    and type_unknown: "\<lbrakk>rep s evs; ix_type_id (dict s) nm = None; ev \<in> set evs\<rbrakk> \<Longrightarrow> fst ev \<noteq> nm"
    and type_known: "\<lbrakk>rep s evs; ix_type_id (dict s) nm = Some k; i < length evs\<rbrakk> \<Longrightarrow>
      ix_type_at (dict s) i = k \<longleftrightarrow> fst (evs ! i) = nm"
begin

lemma gather_spec:
  assumes "rep s evs"
  shows "(gather_postings (dict s) ts = Inr None \<and> (\<forall>i < length evs. \<exists>t \<in> set ts. \<not> carries evs (tag_str t) i)) \<or>
         gather_postings (dict s) ts = Inr (Some (map (\<lambda>t. filter (carries evs (tag_str t)) [0..<length evs]) ts))"
proof (induction ts)
  case (Cons t ts)
  from postings [OF assms, of "tag_str t"] Cons show ?case by auto
qed simp

lemma types_spec:
  assumes "rep s evs" and "i < length evs" and "tys \<noteq> []"
  shows "ix_type_at (dict s) i \<in> set (List.map_filter (\<lambda>t. ix_type_id (dict s) (type_str t)) tys)
         \<longleftrightarrow> fst (evs ! i) \<in> type_str ` set tys"
proof
  assume "ix_type_at (dict s) i \<in> set (List.map_filter (\<lambda>t. ix_type_id (dict s) (type_str t)) tys)"
  then obtain t where "t \<in> set tys" "ix_type_id (dict s) (type_str t) = Some (ix_type_at (dict s) i)"
    by (auto simp: List.map_filter_def)
  then show "fst (evs ! i) \<in> type_str ` set tys" using type_known [OF assms(1) _ assms(2)] by auto
next
  assume "fst (evs ! i) \<in> type_str ` set tys"
  then obtain t where t: "t \<in> set tys" "fst (evs ! i) = type_str t" by auto
  have "evs ! i \<in> set evs" using assms(2) by simp
  then obtain k where k: "ix_type_id (dict s) (type_str t) = Some k"
    using type_unknown [OF assms(1), of "type_str t"] t(2) by (metis not_Some_eq)
  then have "ix_type_at (dict s) i = k" using type_known [OF assms(1) k assms(2)] t(2) by simp
  then show "ix_type_at (dict s) i \<in> set (List.map_filter (\<lambda>t. ix_type_id (dict s) (type_str t)) tys)"
    using t(1) k by (force simp: List.map_filter_def)
qed

lemma item_spec:
  assumes "rep s evs"
  obtains ls where "item_locals (dict s) it = Inr ls"
    and "set ls = {i. i < length evs \<and> item_matches_parts it (fst (evs ! i)) (snd (evs ! i))}"
proof -
  let ?n = "length evs" and ?ids = "List.map_filter (\<lambda>t. ix_type_id (dict s) (type_str t)) (types it)"
  let ?type_ok = "\<lambda>i. types it = [] \<or> fst (evs ! i) \<in> type_str ` set (types it)"
  let ?tags_ok = "\<lambda>i. \<forall>t \<in> set (tags it). carries evs (tag_str t) i"
  let ?keep = "keep_local (dict s) it"
  have keep: "?keep i \<longleftrightarrow> ?type_ok i" if "i < ?n" for i
    using types_spec [OF assms that, of "types it"] by (simp add: keep_local_def type_filter_def)
  have goal: "{i. i < ?n \<and> item_matches_parts it (fst (evs ! i)) (snd (evs ! i))} = {i. i < ?n \<and> ?type_ok i \<and> ?tags_ok i}"
    by (auto simp: item_matches_parts_def carries_def)
  consider (none) "types it \<noteq> []" "?ids = []" | (types) "types it = [] \<or> ?ids \<noteq> []" "tags it = []"
    | (tags) "types it = [] \<or> ?ids \<noteq> []" "tags it \<noteq> []" by blast
  then show thesis
  proof cases
    case none
    then have "\<not> ?type_ok i" if "i < ?n" for i using types_spec [OF assms that none(1)] by simp
    then show thesis using that [of "[]"] none goal by (auto simp: item_locals_def type_filter_def)
  next
    case types
    have "item_locals (dict s) it = Inr (filter ?keep [0..<?n])"
      using types len [OF assms] by (auto simp: item_locals_def type_filter_def)
    then show thesis using that keep types(2) goal by auto
  next
    case tags
    have run: "item_locals (dict s) it = (case gather_postings (dict s) (tags it) of Inl e \<Rightarrow> Inl e
        | Inr None \<Rightarrow> Inr [] | Inr (Some ll) \<Rightarrow> Inr (filter ?keep (intersect ll)))"
      using tags by (auto simp: item_locals_def type_filter_def)
    let ?ll = "map (\<lambda>t. filter (carries evs (tag_str t)) [0..<?n]) (tags it)"
    from gather_spec [OF assms, of "tags it"] show thesis
    proof
      assume "gather_postings (dict s) (tags it) = Inr None \<and> (\<forall>i < ?n. \<exists>t \<in> set (tags it). \<not> carries evs (tag_str t) i)"
      then show thesis using that [of "[]"] run goal by auto
    next
      assume g: "gather_postings (dict s) (tags it) = Inr (Some ?ll)"
      have ne: "?ll \<noteq> []" using tags(2) by simp
      have "set (intersect ?ll) = {x. \<forall>l \<in> set ?ll. x \<in> set l}"
        by (rule intersect_spec(2) [OF ne]) (auto intro: sorted_wrt_filter)
      also have "\<dots> = {i. i < ?n \<and> ?tags_ok i}" using tags(2) by (cases "tags it") auto
      finally have "set (filter ?keep (intersect ?ll)) = {i. i < ?n \<and> ?type_ok i \<and> ?tags_ok i}"
        using keep by auto
      then show thesis using that run g goal by simp
    qed
  qed
qed

lemma items_spec:
  assumes "rep s evs"
  shows "\<exists>ls. all_item_locals (dict s) its = Inr ls \<and>
           set ls = {i. i < length evs \<and> (\<exists>it \<in> set its. item_matches_parts it (fst (evs ! i)) (snd (evs ! i)))}"
proof (induction its)
  case (Cons it its)
  obtain ls where "item_locals (dict s) it = Inr ls"
    "set ls = {i. i < length evs \<and> item_matches_parts it (fst (evs ! i)) (snd (evs ! i))}"
    using item_spec [OF assms] by blast
  then show ?case using Cons by auto
qed simp

lemma local_matches_correct:
  assumes "rep s evs"
  shows "local_matches (dict s) q = Inr (matching q evs)"
proof (cases q)
  case All
  then show ?thesis using len [OF assms] by (simp add: local_matches_def matching_def)
next
  case (Items its)
  obtain ls where ls: "all_item_locals (dict s) its = Inr ls"
    "set ls = {i. i < length evs \<and> (\<exists>it \<in> set its. item_matches_parts it (fst (evs ! i)) (snd (evs ! i)))}"
    using items_spec [OF assms] by blast
  have "sorted_wrt (<) (matching q evs)" by (simp add: matching_def sorted_wrt_filter)
  moreover have "set (matching q evs) = set ls" unfolding ls(2) using Items by (auto simp: matching_def matches_parts_def)
  ultimately have "remdups_adj (sort ls) = matching q evs" using sort_dedup [of ls] strict_sorted_equal by metis
  then show ?thesis using Items ls(1) by (simp add: local_matches_def)
qed

lemma search_exact:
  assumes "rep s evs"
  shows "search (dict s) q aft = Inr (filter (\<lambda>g. g > aft) (map (\<lambda>i. ix_base (dict s) + i) (matching q evs)))"
    and "search_back (dict s) q bef = Inr (rev (filter (\<lambda>g. g < bef) (map (\<lambda>i. ix_base (dict s) + i) (matching q evs))))"
  using local_matches_correct [OF assms, of q] by (simp_all add: search_def search_back_def flip: rev_filter rev_map)

end

subsection \<open>The estimate is an upper bound\<close>

text \<open>The locals of a set \<open>W\<close> that match an item.\<close>
definition hits :: "event_parts list \<Rightarrow> nat set \<Rightarrow> QueryItem \<Rightarrow> nat set" where
  "hits evs W it = {i \<in> W. item_matches_parts it (fst (evs ! i)) (snd (evs ! i))}"

context segment_index
begin

lemma smallest_term_upper:
  assumes "rep s evs" and "X \<subseteq> {..<length evs}" and "\<forall>i \<in> X. \<forall>t \<in> set ts. carries evs (tag_str t) i"
    and "card X \<le> smallest"
  shows "\<exists>r. smallest_term (dict s) ts smallest = Inr r \<and> (case r of None \<Rightarrow> X = {} | Some m \<Rightarrow> card X \<le> m)"
  using assms(3,4)
proof (induction ts arbitrary: smallest)
  case (Cons t ts)
  let ?l = "filter (carries evs (tag_str t)) [0..<length evs]"
  have "X \<subseteq> set ?l" using assms(2) Cons.prems(1) by auto
  then have le: "card X \<le> length ?l" using card_mono [of "set ?l" X] card_length [of ?l] by simp
  from term_len [OF assms(1), of "tag_str t"] show ?case
  proof
    assume none: "ix_term_len (dict s) (tag_str t) = Inr None \<and> (\<forall>i < length evs. \<not> carries evs (tag_str t) i)"
    have "X = {}" using none assms(2) Cons.prems(1) by auto
    then show ?thesis using none by simp
  next
    assume "\<exists>n \<ge> length ?l. ix_term_len (dict s) (tag_str t) = Inr (Some n)"
    then obtain n where n: "length ?l \<le> n" "ix_term_len (dict s) (tag_str t) = Inr (Some n)" by blast
    then show ?thesis using Cons.IH [of "min smallest n"] Cons.prems le by simp
  qed
qed simp

lemma estimate_item_upper:
  assumes "rep s evs" and "W \<subseteq> {..<length evs}" and "card W \<le> width" and "width \<le> U64_MAX"
  shows "\<exists>n. estimate_item (dict s) it width = Inr n \<and> card (hits evs W it) \<le> n"
proof -
  have fin: "finite W" using assms(2) finite_subset by blast
  have sub: "hits evs W it \<subseteq> W" by (auto simp: hits_def)
  have le: "card (hits evs W it) \<le> width" using card_mono [OF fin sub] assms(3) by simp
  show ?thesis
  proof (cases "tags it = []")
    case True
    then show ?thesis using le by (simp add: estimate_item_def)
  next
    case False
    have c: "\<forall>i \<in> hits evs W it. \<forall>t \<in> set (tags it). carries evs (tag_str t) i"
      by (auto simp: hits_def item_matches_parts_def carries_def)
    have "hits evs W it \<subseteq> {..<length evs}" using sub assms(2) by blast
    then obtain r where "smallest_term (dict s) (tags it) U64_MAX = Inr r"
      "case r of None \<Rightarrow> hits evs W it = {} | Some m \<Rightarrow> card (hits evs W it) \<le> m"
      using smallest_term_upper [OF assms(1) _ c, of U64_MAX] le assms(4) by auto
    then show ?thesis using False le by (cases r) (auto simp: estimate_item_def)
  qed
qed

lemma estimate_items_upper:
  assumes "rep s evs" and "W \<subseteq> {..<length evs}" and "card W \<le> width" and "width \<le> U64_MAX"
  shows "\<exists>n. estimate_items (dict s) its width tot = Inr n \<and>
           min width (tot + card (\<Union>it \<in> set its. hits evs W it)) \<le> n"
proof (induction its arbitrary: tot)
  case (Cons it its)
  let ?rest = "\<Union>it \<in> set its. hits evs W it"
  obtain n where n: "estimate_item (dict s) it width = Inr n" "card (hits evs W it) \<le> n"
    using estimate_item_upper [OF assms] by blast
  have "card (hits evs W it \<union> ?rest) \<le> card (hits evs W it) + card ?rest" by (rule card_Un_le)
  then have u: "card (hits evs W it \<union> ?rest) \<le> n + card ?rest" using n(2) by simp
  show ?case
  proof (cases "saturating_add U64_MAX tot n \<ge> width")
    case True
    then show ?thesis using n(1) by (simp add: Let_def)
  next
    case False
    then have "saturating_add U64_MAX tot n = tot + n" using assms(4) by (auto simp: saturating_add_def min_def split: if_splits)
    then show ?thesis using Cons.IH [of "tot + n"] n(1) False u by (fastforce simp: Let_def)
  qed
qed simp

lemma estimate_upper:
  assumes "rep s evs" and "W \<subseteq> {..<length evs}" and "card W \<le> width" and "width \<le> U64_MAX"
  shows "\<exists>n. estimate_matches (dict s) q width = Inr n \<and> card (W \<inter> set (matching q evs)) \<le> n \<and> n \<le> width"
proof -
  have fin: "finite W" using assms(2) finite_subset by blast
  have cw: "card (W \<inter> set (matching q evs)) \<le> width" using card_mono [OF fin, of "W \<inter> set (matching q evs)"] assms(3) by simp
  have bound: "estimate_items (dict s) its width tot = Inr n \<Longrightarrow> n \<le> width" for its tot n
    by (induction its arbitrary: tot) (auto simp: Let_def split: sum.splits if_splits)
  show ?thesis
  proof (cases q)
    case All
    then show ?thesis using cw by (simp add: estimate_matches_def)
  next
    case (Items its)
    have "W \<inter> set (matching q evs) = (\<Union>it \<in> set its. hits evs W it)"
      using Items assms(2) by (auto simp: matching_def matches_parts_def hits_def)
    then show ?thesis
      using estimate_items_upper [OF assms, of its 0] Items cw bound by (auto simp: estimate_matches_def)
  qed
qed

end

end
