(* ===== verification/IndexTail.thy ===== *)
theory IndexTail
  imports AppendColumn IndexSearch
begin

text \<open>
  The active tail (\<open>crates/tephra/src/index/tail.rs\<close>): interning of tags and types, the dense type column,
  per-tag posting slots, and the watermark-bounded views readers take. An interner (a concurrent hash map in
  the source) is the list of its entries, newest first; a lookup is \<open>map_of\<close>. A view keeps what the source
  keeps: its bound and the chunks it captured. Its methods read the tail as it is when they are called, so
  the lemmas say that a view answers for the events below its bound however many more were fed since.
  The pure rebuild from the log (\<open>index/recovery.rs\<close>) is at the end.
\<close>

subsection \<open>The tail\<close>

type_synonym interner = "(str \<times> nat) list"

record ActiveTail =
  at_base :: Position
  type_column :: "nat ChunkedVec"
  at_postings :: "PostingSlot ChunkedVec"
  at_tags :: interner
  at_types :: interner
  at_unindexable :: bool

datatype TailError = TooManyTypes nat | TailPanic

definition ActiveTail_new :: "Position \<Rightarrow> ActiveTail" where
  "ActiveTail_new base =
     \<lparr>at_base = base, type_column = ChunkedVec_new, at_postings = ChunkedVec_new, at_tags = [], at_types = [],
      at_unindexable = False\<rparr>"

definition intern_tag :: "str \<Rightarrow> ActiveTail \<Rightarrow> nat \<times> ActiveTail" where
  "intern_tag tag t =
     (case map_of (at_tags t) tag of
        Some tid \<Rightarrow> (tid, t)
      | None \<Rightarrow>
          (case push_with PostingSlot_default (\<lambda>slot. slot) (at_postings t) of
             (tid, ps) \<Rightarrow> (tid, t\<lparr>at_postings := ps, at_tags := (tag, tid) # at_tags t\<rparr>)))"

definition intern_type :: "str \<Rightarrow> ActiveTail \<Rightarrow> TailError + (nat \<times> ActiveTail)" where
  "intern_type name t =
     (case map_of (at_types t) name of
        Some tid \<Rightarrow> Inr (tid, t)
      | None \<Rightarrow>
          let nxt = length (at_types t)
          in if nxt > U16_MAX then Inl (TooManyTypes (U16_MAX + 1))
             else Inr (nxt, t\<lparr>at_types := (name, nxt) # at_types t\<rparr>))"

text \<open>The loop over the tags of an event.\<close>
fun index_tags :: "str list \<Rightarrow> nat \<Rightarrow> ActiveTail \<Rightarrow> ActiveTail" where
  "index_tags [] local t = t"
| "index_tags (tag # ts) local t =
     (case intern_tag tag t of
        (term, t) \<Rightarrow> index_tags ts local (t\<lparr>at_postings := cv_with term (push_local local) (at_postings t)\<rparr>))"

definition tail_len :: "ActiveTail \<Rightarrow> nat" where
  "tail_len t = cv_len (type_column t)"

text \<open>\<open>ActiveTail::push\<close>; feeding out of order is the failed \<open>assert_eq!\<close>.\<close>
definition tail_push :: "Position \<Rightarrow> Event \<Rightarrow> ActiveTail \<Rightarrow> (TailError + unit) \<times> ActiveTail" where
  "tail_push pos e t =
     (let len = tail_len t
      in if pos \<noteq> at_base t + len then (Inl TailPanic, t)
         else case intern_type (event_type e) t of
           Inl err \<Rightarrow> (Inl err, t)
         | Inr (type_id, t) \<Rightarrow>
             let t = index_tags (event_tags e) len t
             in (Inr (), t\<lparr>type_column := snd (push_with 0 (\<lambda>_. type_id) (type_column t))\<rparr>))"

definition mark_unindexable :: "ActiveTail \<Rightarrow> ActiveTail" where
  "mark_unindexable t = t\<lparr>at_unindexable := True\<rparr>"

subsection \<open>Views\<close>

record ActiveView =
  av_base :: Position
  av_upto_len :: nat
  av_type_cover :: nat
  av_post_cover :: nat

definition visible_len :: "ActiveTail \<Rightarrow> Position \<Rightarrow> nat" where
  "visible_len t watermark =
     (if watermark \<ge> at_base t then min (watermark - at_base t + 1) U32_MAX else 0)"

definition make_view :: "ActiveTail \<Rightarrow> nat \<Rightarrow> ActiveView" where
  "make_view t upto_len =
     \<lparr>av_base = at_base t,
      av_upto_len = min upto_len (snap_covered (cv_snapshot (type_column t))),
      av_type_cover = cv_snapshot (type_column t), av_post_cover = cv_snapshot (at_postings t)\<rparr>"

definition tail_view :: "ActiveTail \<Rightarrow> Position \<Rightarrow> ActiveView" where
  "tail_view t watermark = make_view t (visible_len t watermark)"

definition view_full :: "ActiveTail \<Rightarrow> ActiveView" where
  "view_full t = make_view t (tail_len t)"

definition view_term_postings :: "ActiveTail \<Rightarrow> ActiveView \<Rightarrow> str \<Rightarrow> nat list option" where
  "view_term_postings t v tag =
     (case map_of (at_tags t) tag of
        None \<Rightarrow> None
      | Some term \<Rightarrow> map_option (collect_below (av_upto_len v)) (snap_get (av_post_cover v) (at_postings t) term))"

definition view_term_len :: "ActiveTail \<Rightarrow> ActiveView \<Rightarrow> str \<Rightarrow> nat option" where
  "view_term_len t v tag =
     (case map_of (at_tags t) tag of
        None \<Rightarrow> None
      | Some term \<Rightarrow>
          map_option (\<lambda>slot. min (slot_len slot) (av_upto_len v)) (snap_get (av_post_cover v) (at_postings t) term))"

definition view_type_at :: "ActiveTail \<Rightarrow> ActiveView \<Rightarrow> nat \<Rightarrow> nat" where
  "view_type_at t v local =
     (case snap_get (av_type_cover v) (type_column t) local of Some k \<Rightarrow> k | None \<Rightarrow> 0)"

text \<open>The trait's methods for a view, reading the tail \<open>t\<close> of the moment.\<close>
definition view_index :: "ActiveTail \<Rightarrow> ActiveView \<Rightarrow> SegmentIndex" where
  "view_index t v =
     \<lparr>ix_base = av_base v, ix_len = av_upto_len v,
      ix_term_postings = (\<lambda>tag. Inr (view_term_postings t v tag)),
      ix_term_len = (\<lambda>tag. Inr (view_term_len t v tag)),
      ix_type_id = map_of (at_types t), ix_type_at = view_type_at t v\<rparr>"

subsection \<open>What the sealer reads\<close>

definition tail_type_column :: "ActiveTail \<Rightarrow> nat list" where
  "tail_type_column t =
     map (\<lambda>i. case snap_get (cv_snapshot (type_column t)) (type_column t) i of Some k \<Rightarrow> k | None \<Rightarrow> 0)
       [0..<tail_len t]"

text \<open>The type names in id order: each entry is stored at its id in a vector of empty names.\<close>
definition tail_type_names :: "ActiveTail \<Rightarrow> str list" where
  "tail_type_names t =
     foldr (\<lambda>(name, tid) names. names[tid := name]) (at_types t) (replicate (length (at_types t)) [])"

definition terms_sorted_with_postings :: "ActiveTail \<Rightarrow> (str \<times> nat list) list" where
  "terms_sorted_with_postings t =
     sort_key fst (map (\<lambda>(tag, tid).
       (tag, case snap_get (cv_snapshot (at_postings t)) (at_postings t) tid of
               None \<Rightarrow> [] | Some slot \<Rightarrow> collect_below (tail_len t) slot)) (at_tags t))"

subsection \<open>Rebuilding from the log\<close>

record Rebuilder =
  rb_index :: ActiveTail
  rb_count :: nat
  rb_unindexable :: bool

definition Rebuilder_new :: "Position \<Rightarrow> Rebuilder" where
  "Rebuilder_new base = \<lparr>rb_index = ActiveTail_new base, rb_count = 0, rb_unindexable = False\<rparr>"

text \<open>\<open>feed\<close>: a rejected push latches; \<open>None\<close> is the panic of a push out of order.\<close>
definition Rebuilder_feed :: "Position \<Rightarrow> Event \<Rightarrow> Rebuilder \<Rightarrow> Rebuilder option" where
  "Rebuilder_feed pos e b =
     (let b = b\<lparr>rb_count := rb_count b + 1\<rparr>
      in if rb_unindexable b then Some b
         else case tail_push pos e (rb_index b) of
           (Inl TailPanic, _) \<Rightarrow> None
         | (Inl (TooManyTypes _), t) \<Rightarrow> Some (b\<lparr>rb_index := t, rb_unindexable := True\<rparr>)
         | (Inr _, t) \<Rightarrow> Some (b\<lparr>rb_index := t\<rparr>))"

fun rebuild_from :: "Rebuilder \<Rightarrow> (Position \<times> Event) list \<Rightarrow> Rebuilder option" where
  "rebuild_from b [] = Some b"
| "rebuild_from b ((pos, e) # rs) =
     (case Rebuilder_feed pos e b of None \<Rightarrow> None | Some b \<Rightarrow> rebuild_from b rs)"

definition rebuild :: "Position \<Rightarrow> (Position \<times> Event) list \<Rightarrow> Rebuilder option" where
  "rebuild base records = rebuild_from (Rebuilder_new base) records"


subsection \<open>Interners\<close>

text \<open>Ids are dense, in the order of insertion, and no name has two.\<close>
definition interner_ok :: "interner \<Rightarrow> bool" where
  "interner_ok m \<longleftrightarrow> distinct (map fst m) \<and> map snd m = rev [0..<length m]"

lemma interner_ok_Nil [simp]: "interner_ok []"
  by (simp add: interner_ok_def)

lemma interner_ok_insert:
  "\<lbrakk>interner_ok m; map_of m x = None\<rbrakk> \<Longrightarrow> interner_ok ((x, length m) # m)"
  by (simp add: interner_ok_def map_of_eq_None_iff)

lemma interner_ids: "interner_ok m \<Longrightarrow> snd ` set m = {..<length m}"
  unfolding interner_ok_def by (metis list.set_map set_rev set_upt lessThan_atLeast0)

lemma interner_bound: "\<lbrakk>interner_ok m; map_of m x = Some k\<rbrakk> \<Longrightarrow> k < length m"
  using interner_ids [of m] map_of_SomeD [of m x k] by force

lemma interner_inj:
  assumes "interner_ok m" and "map_of m x = Some k" and "map_of m y = Some k"
  shows "x = y"
proof -
  have "inj_on snd (set m)"
    using assms(1) unfolding interner_ok_def by (metis distinct_map distinct_rev distinct_upt)
  moreover have "(x, k) \<in> set m" "(y, k) \<in> set m" using assms(2,3) by (auto dest: map_of_SomeD)
  ultimately show ?thesis using inj_onD [of snd "set m" "(x, k)" "(y, k)"] by simp
qed

lemma interner_onto:
  assumes "interner_ok m" and "k < length m"
  shows "\<exists>x. map_of m x = Some k"
proof -
  obtain x where "(x, k) \<in> set m" using interner_ids [OF assms(1)] assms(2) by (metis imageE lessThan_iff prod.collapse)
  then have "map_of m x = Some k" using assms(1) by (simp add: interner_ok_def)
  then show ?thesis ..
qed

subsection \<open>The invariant of the tail\<close>

text \<open>What the posting slots hold: for each tag the list \<open>L\<close> gives for it.\<close>
definition posts_ok :: "ActiveTail \<Rightarrow> (str \<Rightarrow> nat list) \<Rightarrow> bool" where
  "posts_ok t L \<longleftrightarrow>
     cv_inv PostingSlot_default (at_postings t) \<and> interner_ok (at_tags t) \<and>
     length (cv_abs (at_postings t)) = length (at_tags t) \<and>
     (\<forall>tag. map_of (at_tags t) tag = None \<longrightarrow> L tag = []) \<and>
     (\<forall>tag term. map_of (at_tags t) tag = Some term \<longrightarrow>
        slot_inv (cv_abs (at_postings t) ! term) \<and> slot_abs (cv_abs (at_postings t) ! term) = L tag)"

definition types_ok :: "ActiveTail \<Rightarrow> str list \<Rightarrow> bool" where
  "types_ok t tys \<longleftrightarrow>
     cv_inv 0 (type_column t) \<and> interner_ok (at_types t) \<and> length (at_types t) \<le> U16_MAX + 1 \<and>
     list_all2 (\<lambda>k ty. map_of (at_types t) ty = Some k) (cv_abs (type_column t)) tys"

definition tail_inv :: "ActiveTail \<Rightarrow> event_parts list \<Rightarrow> bool" where
  "tail_inv t evs \<longleftrightarrow>
     types_ok t (map fst evs) \<and> fst ` set (at_types t) = fst ` set evs \<and>
     fst ` set (at_tags t) = (\<Union>ev \<in> set evs. set (snd ev)) \<and>
     posts_ok t (\<lambda>tag. filter (carries evs tag) [0..<length evs])"

text \<open>What feeding never changes: the base, the names interned, the chunks a reader may have captured.\<close>
definition tail_grows :: "ActiveTail \<Rightarrow> ActiveTail \<Rightarrow> bool" where
  "tail_grows t t' \<longleftrightarrow>
     at_base t' = at_base t \<and> map_of (at_tags t) \<subseteq>\<^sub>m map_of (at_tags t') \<and>
     cv_snapshot (type_column t) \<le> cv_snapshot (type_column t') \<and>
     cv_snapshot (at_postings t) \<le> cv_snapshot (at_postings t')"

lemma tail_grows_refl [simp]: "tail_grows t t"
  by (simp add: tail_grows_def)

lemma tail_grows_trans [trans]: "\<lbrakk>tail_grows t u; tail_grows u v\<rbrakk> \<Longrightarrow> tail_grows t v"
  unfolding tail_grows_def by (auto intro: map_le_trans)

lemma tail_new_inv: "tail_inv (ActiveTail_new base) []"
  by (simp add: tail_inv_def types_ok_def posts_ok_def ActiveTail_new_def cv.inv_empty cv.abs_empty)

lemma tail_inv_len: "tail_inv t evs \<Longrightarrow> tail_len t = length evs"
  by (auto simp: tail_inv_def types_ok_def tail_len_def length_cv_abs [symmetric] dest: list_all2_lengthD)

lemma intern_tag_ok:
  assumes "posts_ok t L" and "intern_tag tag t = (term, t')"
  shows "posts_ok t' L" and "map_of (at_tags t') tag = Some term" and "tail_grows t t'"
    and "type_column t' = type_column t" and "at_types t' = at_types t" and "at_unindexable t' = at_unindexable t"
    and "fst ` set (at_tags t') = insert tag (fst ` set (at_tags t))"
proof -
  have "posts_ok t' L \<and> map_of (at_tags t') tag = Some term \<and> tail_grows t t' \<and> type_column t' = type_column t
      \<and> at_types t' = at_types t \<and> at_unindexable t' = at_unindexable t
      \<and> fst ` set (at_tags t') = insert tag (fst ` set (at_tags t))"
  proof (cases "map_of (at_tags t) tag")
    case (Some k)
    moreover have "tag \<in> fst ` set (at_tags t)" using Some map_of_SomeD [of "at_tags t" tag k] by force
    ultimately show ?thesis using assms by (auto simp: intern_tag_def)
  next
    case None
    have inv: "cv_inv PostingSlot_default (at_postings t)" and m: "interner_ok (at_tags t)"
      and len: "length (cv_abs (at_postings t)) = length (at_tags t)"
      using assms(1) by (auto simp: posts_ok_def)
    obtain ps where p: "push_with PostingSlot_default (\<lambda>slot. slot) (at_postings t) = (length (at_tags t), ps)"
      using cv.push_fst [OF inv, of "\<lambda>slot. slot"] len by (metis prod.collapse)
    have t': "term = length (at_tags t)" "t' = t\<lparr>at_postings := ps, at_tags := (tag, length (at_tags t)) # at_tags t\<rparr>"
      using assms(2) None p by (auto simp: intern_tag_def)
    have abs: "cv_abs ps = cv_abs (at_postings t) @ [PostingSlot_default]"
      using cv.push_abs [OF inv, of "\<lambda>slot. slot"] p by simp
    have bound: "k < length (cv_abs (at_postings t))" if "map_of (at_tags t) x = Some k" for x k
      using interner_bound [OF m that] len by simp
    have "posts_ok t' L"
      using assms(1) None len cv.push_inv [OF inv, of "\<lambda>slot. slot"] p interner_ok_insert [OF m None] bound
      by (auto simp: posts_ok_def t' abs nth_append)
    moreover have "tail_grows t t'"
      using cv.cover_push [OF inv, of "\<lambda>slot. slot"] p None
      by (auto simp: tail_grows_def t' map_le_def dom_def)
    ultimately show ?thesis by (simp add: t')
  qed
  then show "posts_ok t' L" "map_of (at_tags t') tag = Some term" "tail_grows t t'"
    "type_column t' = type_column t" "at_types t' = at_types t" "at_unindexable t' = at_unindexable t"
    "fst ` set (at_tags t') = insert tag (fst ` set (at_tags t))" by auto
qed

lemma push_posting_ok:
  assumes "posts_ok t L" and "map_of (at_tags t) tag = Some term"
  shows "posts_ok (t\<lparr>at_postings := cv_with term (push_local local) (at_postings t)\<rparr>) (L(tag := L tag @ [local]))"
proof -
  have inv: "cv_inv PostingSlot_default (at_postings t)" and m: "interner_ok (at_tags t)"
    and len: "length (cv_abs (at_postings t)) = length (at_tags t)"
    using assms(1) by (auto simp: posts_ok_def)
  have i: "term < length (cv_abs (at_postings t))" using interner_bound [OF m assms(2)] len by simp
  have slot: "slot_inv (cv_abs (at_postings t) ! term)" "slot_abs (cv_abs (at_postings t) ! term) = L tag"
    using assms by (auto simp: posts_ok_def)
  have other: "k \<noteq> term" if "map_of (at_tags t) x = Some k" "x \<noteq> tag" for x k
    using interner_inj [OF m] assms(2) that by blast
  show ?thesis
    using assms cv.upd_inv [OF inv i] other push_local_ok [OF slot(1), of local] slot(2) i m len
    by (auto simp: posts_ok_def cv.upd_abs [OF inv i] nth_list_update)
qed

lemma index_tags_ok:
  assumes "posts_ok t L" and "distinct ts"
  shows "posts_ok (index_tags ts local t) (\<lambda>tag. if tag \<in> set ts then L tag @ [local] else L tag)"
    and "tail_grows t (index_tags ts local t)" and "type_column (index_tags ts local t) = type_column t"
    and "at_types (index_tags ts local t) = at_types t" and "at_unindexable (index_tags ts local t) = at_unindexable t"
    and "fst ` set (at_tags (index_tags ts local t)) = fst ` set (at_tags t) \<union> set ts"
proof -
  have "posts_ok (index_tags ts local t) (\<lambda>tag. if tag \<in> set ts then L tag @ [local] else L tag)
      \<and> tail_grows t (index_tags ts local t) \<and> type_column (index_tags ts local t) = type_column t
      \<and> at_types (index_tags ts local t) = at_types t \<and> at_unindexable (index_tags ts local t) = at_unindexable t
      \<and> fst ` set (at_tags (index_tags ts local t)) = fst ` set (at_tags t) \<union> set ts"
    using assms
  proof (induction ts arbitrary: t L)
    case (Cons tag ts)
    obtain k t1 where i: "intern_tag tag t = (k, t1)" by fastforce
    note i' = intern_tag_ok [OF Cons.prems(1) i]
    let ?t2 = "t1\<lparr>at_postings := cv_with k (push_local local) (at_postings t1)\<rparr>"
    have p2: "posts_ok ?t2 (L(tag := L tag @ [local]))" by (rule push_posting_ok [OF i'(1,2)])
    have g: "tail_grows t ?t2" using i'(3) by (simp add: tail_grows_def cv.cover_upd)
    have L: "(\<lambda>x. if x \<in> set (tag # ts) then L x @ [local] else L x) =
        (\<lambda>x. if x \<in> set ts then (L(tag := L tag @ [local])) x @ [local] else (L(tag := L tag @ [local])) x)"
      using Cons.prems(2) by auto
    have run: "index_tags (tag # ts) local t = index_tags ts local ?t2" by (simp add: i)
    show ?case unfolding run L
      using Cons.IH [OF p2] Cons.prems(2) tail_grows_trans [OF g] i'(4-7) by simp
  qed simp
  then show "posts_ok (index_tags ts local t) (\<lambda>tag. if tag \<in> set ts then L tag @ [local] else L tag)"
    "tail_grows t (index_tags ts local t)" "type_column (index_tags ts local t) = type_column t"
    "at_types (index_tags ts local t) = at_types t" "at_unindexable (index_tags ts local t) = at_unindexable t"
    "fst ` set (at_tags (index_tags ts local t)) = fst ` set (at_tags t) \<union> set ts" by auto
qed

lemma intern_type_ok:
  assumes "types_ok t tys"
  shows "case intern_type name t of
      Inl err \<Rightarrow> err = TooManyTypes (U16_MAX + 1) \<and> name \<notin> set tys \<and> length (at_types t) = U16_MAX + 1
    | Inr (k, t') \<Rightarrow> types_ok t' tys \<and> fst ` set (at_types t') = insert name (fst ` set (at_types t)) \<and> map_of (at_types t') name = Some k \<and>
        at_tags t' = at_tags t \<and> at_postings t' = at_postings t \<and> type_column t' = type_column t \<and>
        at_base t' = at_base t \<and> at_unindexable t' = at_unindexable t"
proof (cases "map_of (at_types t) name")
  case (Some k)
  moreover have "name \<in> fst ` set (at_types t)" using Some map_of_SomeD [of "at_types t" name k] by force
  ultimately show ?thesis using assms by (auto simp: intern_type_def)
next
  case None
  have all: "list_all2 (\<lambda>k ty. map_of (at_types t) ty = Some k) (cv_abs (type_column t)) tys"
    and m: "interner_ok (at_types t)" and le: "length (at_types t) \<le> U16_MAX + 1"
    using assms by (auto simp: types_ok_def)
  have ex: "\<exists>k. map_of (at_types t) ty = Some k" if "ty \<in> set tys" for ty
    using all that by (auto simp: list_all2_conv_all_nth in_set_conv_nth)
  have fresh: "name \<notin> set tys" using ex None by force
  have ext: "list_all2 (\<lambda>k ty. map_of ((name, n) # at_types t) ty = Some k) (cv_abs (type_column t)) tys" for n
    using all fresh by (auto simp: list_all2_conv_all_nth)
  show ?thesis
    using None le fresh assms interner_ok_insert [OF m None] ext [of "length (at_types t)"]
    by (auto simp: intern_type_def types_ok_def Let_def)
qed

lemma filter_carries_snoc:
  "filter (carries (evs @ [ev]) tag) [0..<length (evs @ [ev])] =
   (if tag \<in> set (snd ev) then filter (carries evs tag) [0..<length evs] @ [length evs]
    else filter (carries evs tag) [0..<length evs])"
proof -
  have "filter (carries (evs @ [ev]) tag) [0..<length evs] = filter (carries evs tag) [0..<length evs]"
    by (rule filter_cong) (simp_all add: carries_def nth_append)
  then show ?thesis by (simp add: carries_def)
qed

definition parts_of :: "Event \<Rightarrow> event_parts" where
  "parts_of e = (event_type e, event_tags e)"

text \<open>Every branch of \<open>push\<close> on a well-formed tail fed in order.\<close>
lemma tail_push_ok:
  assumes "tail_inv t evs" and "distinct (event_tags e)" and "pos = at_base t + length evs"
  shows "case tail_push pos e t of
      (Inl err, t') \<Rightarrow> err = TooManyTypes (U16_MAX + 1) \<and> t' = t \<and> length (at_types t) = U16_MAX + 1 \<and>
        event_type e \<notin> fst ` set evs
    | (Inr _, t') \<Rightarrow> tail_inv t' (evs @ [parts_of e]) \<and> tail_grows t t' \<and> at_unindexable t' = at_unindexable t"
proof -
  have ty: "types_ok t (map fst evs)" and po: "posts_ok t (\<lambda>tag. filter (carries evs tag) [0..<length evs])"
    using assms(1) by (auto simp: tail_inv_def)
  note it = intern_type_ok [OF ty, of "event_type e"]
  show ?thesis
  proof (cases "intern_type (event_type e) t")
    case (Inl err)
    then show ?thesis using it assms(3) tail_inv_len [OF assms(1)] by (simp add: tail_push_def Let_def)
  next
    case (Inr r)
    obtain k t1 where r: "r = (k, t1)" by fastforce
    have names: "fst ` set (at_types t1) = insert (event_type e) (fst ` set evs)"
      using it Inr r assms(1) by (auto simp: tail_inv_def)
    have t1: "types_ok t1 (map fst evs)" "map_of (at_types t1) (event_type e) = Some k" "at_tags t1 = at_tags t"
      "at_postings t1 = at_postings t" "type_column t1 = type_column t" "at_base t1 = at_base t"
      "at_unindexable t1 = at_unindexable t"
      using it Inr r by auto
    have po1: "posts_ok t1 (\<lambda>tag. filter (carries evs tag) [0..<length evs])"
      using po t1 by (simp add: posts_ok_def)
    let ?t2 = "index_tags (event_tags e) (length evs) t1"
    let ?t3 = "?t2\<lparr>type_column := snd (push_with 0 (\<lambda>_. k) (type_column ?t2))\<rparr>"
    note t2 = index_tags_ok [OF po1 assms(2), of "length evs"]
    have run: "tail_push pos e t = (Inr (), ?t3)"
      using Inr r assms(3) tail_inv_len [OF assms(1)] by (simp add: tail_push_def Let_def)
    have inv0: "cv_inv 0 (type_column t1)" using t1(1) by (simp add: types_ok_def)
    note pw = cv.push_abs [OF inv0, of "\<lambda>_. k"] cv.push_inv [OF inv0, of "\<lambda>_. k"] cv.cover_push [OF inv0, of "\<lambda>_. k"]
    have "types_ok ?t3 (map fst (evs @ [parts_of e]))"
      using t1(1,2) pw by (simp add: types_ok_def t2 parts_of_def list_all2_appendI)
    moreover have "posts_ok ?t3 (\<lambda>tag. filter (carries (evs @ [parts_of e]) tag) [0..<length (evs @ [parts_of e])])"
      using t2(1) unfolding filter_carries_snoc by (simp add: posts_ok_def parts_of_def)
    moreover have "tail_grows t ?t3" using t2(2) pw(3) t1 by (simp add: tail_grows_def t2)
    moreover have "fst ` set (at_tags ?t3) = (\<Union>ev \<in> set (evs @ [parts_of e]). set (snd ev))"
      using assms(1) by (auto simp: tail_inv_def t2 t1 parts_of_def)
    ultimately show ?thesis using names by (simp add: run tail_inv_def t2 t1 parts_of_def)
  qed
qed

subsection \<open>Views represent the events below their bound\<close>

text \<open>A view \<open>v\<close> read on the tail \<open>t\<close> represents \<open>evs\<close>.\<close>
definition view_rep :: "ActiveTail \<times> ActiveView \<Rightarrow> event_parts list \<Rightarrow> bool" where
  "view_rep s evs \<longleftrightarrow> (case s of (t, v) \<Rightarrow>
     \<exists>all. tail_inv t all \<and> av_upto_len v \<le> length all \<and> evs = take (av_upto_len v) all \<and>
       av_upto_len v \<le> snap_covered (av_type_cover v) \<and>
       av_type_cover v \<le> cv_snapshot (type_column t) \<and> av_post_cover v \<le> cv_snapshot (at_postings t) \<and>
       (\<forall>tag term. map_of (at_tags t) tag = Some term \<longrightarrow> snap_covered (av_post_cover v) \<le> term \<longrightarrow>
          (\<forall>i < av_upto_len v. \<not> carries all tag i)))"

lemma filter_carries_take:
  assumes "n \<le> length all"
  shows "filter (carries (take n all) tag) [0..<n] = takeWhile (\<lambda>i. i < n) (filter (carries all tag) [0..<length all])"
proof -
  have "[0..<length all] = [0..<n] @ [n..<length all]" using upt_add_eq_append [of 0 n "length all - n"] assms by simp
  then have "filter (carries all tag) [0..<length all] = filter (carries all tag) [0..<n] @ filter (carries all tag) [n..<length all]"
    by simp
  moreover have "takeWhile (\<lambda>i. i < n) (filter P [n..<m]) = []" for P m
  proof (cases "filter P [n..<m]")
    case (Cons x xs)
    then have "x \<in> set [n..<m]" by (metis filter_is_subset list.set_intros(1) subsetD)
    then show ?thesis using Cons by simp
  qed simp
  moreover have "filter (carries (take n all) tag) [0..<n] = filter (carries all tag) [0..<n]"
    by (rule filter_cong) (auto simp: carries_def)
  moreover have "takeWhile (\<lambda>i. i < n) (filter P [0..<n] @ ys) = filter P [0..<n] @ takeWhile (\<lambda>i. i < n) ys" for P ys
    by (rule takeWhile_append2) simp
  ultimately show ?thesis by simp
qed

lemma view_term_cases:
  assumes "view_rep (t, v) evs" and "map_of (at_tags t) tag = Some k"
  obtains slot where "snap_get (av_post_cover v) (at_postings t) k = Some slot" and "slot_inv slot"
      and "takeWhile (\<lambda>i. i < av_upto_len v) (slot_abs slot) = filter (carries evs tag) [0..<length evs]"
    | "snap_get (av_post_cover v) (at_postings t) k = None" and "\<forall>i < length evs. \<not> carries evs tag i"
proof -
  from assms(1) obtain all where a: "tail_inv t all" "av_upto_len v \<le> length all" "evs = take (av_upto_len v) all"
    "av_post_cover v \<le> cv_snapshot (at_postings t)"
    "\<forall>tag term. map_of (at_tags t) tag = Some term \<longrightarrow> snap_covered (av_post_cover v) \<le> term \<longrightarrow>
        (\<forall>i < av_upto_len v. \<not> carries all tag i)"
    unfolding view_rep_def by auto
  have po: "posts_ok t (\<lambda>tag. filter (carries all tag) [0..<length all])" using a(1) by (simp add: tail_inv_def)
  then have p: "cv_inv PostingSlot_default (at_postings t)" "interner_ok (at_tags t)"
    "length (cv_abs (at_postings t)) = length (at_tags t)" "slot_inv (cv_abs (at_postings t) ! k)"
    "slot_abs (cv_abs (at_postings t) ! k) = filter (carries all tag) [0..<length all]"
    using assms(2) unfolding posts_ok_def by auto
  show thesis
  proof (cases "snap_covered (av_post_cover v) \<le> k")
    case True
    have "snap_get (av_post_cover v) (at_postings t) k = None" by (rule cv.get_beyond [OF True])
    moreover have "\<forall>i < length evs. \<not> carries evs tag i"
      using a(3,5) assms(2) True by (auto simp: carries_def)
    ultimately show thesis by (rule that(2))
  next
    case False
    have "snap_get (av_post_cover v) (at_postings t) k = Some (cv_abs (at_postings t) ! k)"
      using cv.get_below [OF p(1) a(4), of k] False interner_bound [OF p(2) assms(2)] p(3) by simp
    then show thesis
      using that(1) p(4,5) filter_carries_take [OF a(2), of tag] a(2,3) by simp
  qed
qed

lemma view_unknown_tag:
  assumes "view_rep (t, v) evs" and "map_of (at_tags t) tag = None" and "i < length evs"
  shows "\<not> carries evs tag i"
proof -
  from assms(1) obtain all where a: "tail_inv t all" "evs = take (av_upto_len v) all"
    unfolding view_rep_def by auto
  have "filter (carries all tag) [0..<length all] = []"
    using a(1) assms(2) by (simp add: tail_inv_def posts_ok_def)
  then show ?thesis using assms(3) a(2) by (auto simp: filter_empty_conv carries_def)
qed

lemma view_types:
  assumes "view_rep (t, v) evs" and "i < length evs"
  shows "map_of (at_types t) (fst (evs ! i)) = Some (view_type_at t v i)"
proof -
  from assms(1) obtain all where a: "tail_inv t all" "av_upto_len v \<le> length all" "evs = take (av_upto_len v) all"
    "av_upto_len v \<le> snap_covered (av_type_cover v)" "av_type_cover v \<le> cv_snapshot (type_column t)"
    unfolding view_rep_def by auto
  have ty: "cv_inv 0 (type_column t)"
    "list_all2 (\<lambda>k ty. map_of (at_types t) ty = Some k) (cv_abs (type_column t)) (map fst all)"
    using a(1) by (auto simp: tail_inv_def types_ok_def)
  have i: "i < length (cv_abs (type_column t))" "i < snap_covered (av_type_cover v)"
    using list_all2_lengthD [OF ty(2)] assms(2) a(2,3,4) by auto
  have "snap_get (av_type_cover v) (type_column t) i = Some (cv_abs (type_column t) ! i)"
    by (rule cv.get_below [OF ty(1) a(5) i(2,1)])
  then show ?thesis
    using list_all2_nthD [OF ty(2) i(1)] assms(2) a(2,3) by (simp add: view_type_at_def)
qed

lemma view_type_inj:
  assumes "view_rep (t, v) evs" and "map_of (at_types t) x = Some k" and "map_of (at_types t) y = Some k"
  shows "x = y"
  using assms interner_inj [of "at_types t" x k y]
  by (auto simp: view_rep_def tail_inv_def types_ok_def)

interpretation view: segment_index view_rep "\<lambda>(t, v). view_index t v"
proof (unfold_locales, goal_cases)
  case (1 s evs)
  then show ?case by (auto simp: view_rep_def view_index_def)
next
  case (2 s evs tag)
  obtain t v where s: "s = (t, v)" by fastforce
  have r: "view_rep (t, v) evs" using 2 s by simp
  show ?case
  proof (cases "map_of (at_tags t) tag")
    case None
    then show ?thesis using view_unknown_tag [OF r None] by (simp add: s view_index_def view_term_postings_def)
  next
    case (Some k)
    from view_term_cases [OF r Some] show ?thesis
      by cases (simp_all add: s view_index_def view_term_postings_def Some collect_below_ok)
  qed
next
  case (3 s evs tag)
  obtain t v where s: "s = (t, v)" by fastforce
  have r: "view_rep (t, v) evs" using 3 s by simp
  show ?case
  proof (cases "map_of (at_tags t) tag")
    case None
    then show ?thesis using view_unknown_tag [OF r None] by (simp add: s view_index_def view_term_len_def)
  next
    case (Some k)
    from view_term_cases [OF r Some] show ?thesis
    proof cases
      case (1 slot)
      let ?l = "filter (carries evs tag) [0..<length evs]"
      have "length ?l \<le> slot_len slot"
        using length_takeWhile_le [of "\<lambda>i. i < av_upto_len v" "slot_abs slot"] 1 length_slot_abs [OF 1(2)] by simp
      moreover have "length ?l \<le> av_upto_len v"
        using length_filter_le [of "carries evs tag" "[0..<length evs]"] r by (auto simp: view_rep_def)
      ultimately show ?thesis using 1(1) by (simp add: s view_index_def view_term_len_def Some)
    qed (simp add: s view_index_def view_term_len_def Some)
  qed
next
  case (4 s evs nm ev)
  obtain t v where s: "s = (t, v)" by fastforce
  from 4(3) obtain i where "i < length evs" "ev = evs ! i" by (auto simp: in_set_conv_nth)
  then show ?case using view_types [of t v evs i] 4 s by (auto simp: view_index_def)
next
  case (5 s evs nm k i)
  obtain t v where s: "s = (t, v)" by fastforce
  have r: "view_rep (t, v) evs" and k: "map_of (at_types t) nm = Some k" using 5 s by (auto simp: view_index_def)
  show ?case
    using view_types [OF r 5(3)] view_type_inj [OF r k, of "fst (evs ! i)"] k by (auto simp: s view_index_def)
qed

text \<open>A view taken of a tail represents the events below its bound on every later tail.\<close>
lemma view_rep_later:
  assumes "tail_inv t all" and "tail_inv t' (all @ rest)" and "tail_grows t t'" and "n \<le> length all"
  shows "view_rep (t', make_view t n) (take n all)" and "av_upto_len (make_view t n) = n"
proof -
  have c: "length all \<le> snap_covered (cv_snapshot (type_column t))"
    "length (at_tags t) \<le> snap_covered (cv_snapshot (at_postings t))"
    using assms(1) cv.covered_all [of 0 "type_column t"] cv.covered_all [of PostingSlot_default "at_postings t"]
      tail_inv_len [OF assms(1)]
    by (auto simp: tail_inv_def types_ok_def posts_ok_def tail_len_def length_cv_abs)
  show n: "av_upto_len (make_view t n) = n" using c(1) assms(4) by (simp add: make_view_def)
  have "\<not> carries (all @ rest) tag i"
    if k: "map_of (at_tags t') tag = Some k" "snap_covered (cv_snapshot (at_postings t)) \<le> k" and i: "i < n" for tag k i
  proof (cases "map_of (at_tags t) tag")
    case None
    then have "filter (carries all tag) [0..<length all] = []" using assms(1) by (simp add: tail_inv_def posts_ok_def)
    then show ?thesis using i assms(4) by (auto simp: filter_empty_conv carries_def nth_append)
  next
    case (Some k')
    then have "k' = k" using assms(3) k(1) by (auto simp: tail_grows_def map_le_def dom_def)
    then show ?thesis
      using Some interner_bound [of "at_tags t" tag k'] assms(1) k(2) c(2) by (auto simp: tail_inv_def posts_ok_def)
  qed
  then show "view_rep (t', make_view t n) (take n all)"
    using assms c unfolding view_rep_def case_prod_conv
    by (intro exI [of _ "all @ rest"]) (auto simp: n make_view_def tail_grows_def)
qed

subsection \<open>Feeding a sequence of events\<close>

fun push_events :: "Event list \<Rightarrow> ActiveTail \<Rightarrow> ActiveTail option" where
  "push_events [] t = Some t"
| "push_events (e # es) t =
     (case tail_push (at_base t + tail_len t) e t of
        (Inl _, _) \<Rightarrow> None
      | (Inr _, t) \<Rightarrow> push_events es t)"

lemma wf_Event_tags: "wf_Event e \<Longrightarrow> distinct (event_tags e)"
  unfolding wf_Event_def by (auto dest: event_tags_sorted simp: strict_sorted_iff)

lemma push_events_ok:
  assumes "tail_inv t evs" and "\<forall>e \<in> set es. wf_Event e" and "push_events es t = Some t'"
  shows "tail_inv t' (evs @ map parts_of es) \<and> tail_grows t t' \<and> at_unindexable t' = at_unindexable t"
  using assms
proof (induction es arbitrary: t evs)
  case (Cons e es)
  obtain r u where p: "tail_push (at_base t + tail_len t) e t = (r, u)" by fastforce
  note ok = tail_push_ok [OF Cons.prems(1) wf_Event_tags, of e "at_base t + tail_len t"]
  obtain x where r: "r = Inr x" using Cons.prems(3) p by (cases r) auto
  have u: "tail_inv u (evs @ [parts_of e])" "tail_grows t u" "at_unindexable u = at_unindexable t"
    using ok Cons.prems(2) p r tail_inv_len [OF Cons.prems(1)] by auto
  have "push_events es u = Some t'" using Cons.prems(3) p r by simp
  then show ?case using Cons.IH [OF u(1)] Cons.prems(2) u(2,3) tail_grows_trans by auto
qed simp

lemma tail_inv_types_card:
  assumes "tail_inv t evs"
  shows "length (at_types t) = card (fst ` set evs)"
proof -
  have "distinct (map fst (at_types t))" using assms by (simp add: tail_inv_def types_ok_def interner_ok_def)
  from distinct_card [OF this] show ?thesis using assms by (simp add: tail_inv_def)
qed

text \<open>A push is only ever rejected for its type.\<close>
lemma push_events_total:
  assumes "tail_inv t evs" and "\<forall>e \<in> set es. wf_Event e"
    and "card (fst ` set evs \<union> event_type ` set es) \<le> U16_MAX + 1"
  shows "\<exists>t'. push_events es t = Some t'"
  using assms
proof (induction es arbitrary: t evs)
  case (Cons e es)
  obtain r u where p: "tail_push (at_base t + tail_len t) e t = (r, u)" by fastforce
  note ok = tail_push_ok [OF Cons.prems(1) wf_Event_tags, of e "at_base t + tail_len t"]
  show ?case
  proof (cases r)
    case (Inl err)
    have "length (at_types t) = U16_MAX + 1" "event_type e \<notin> fst ` set evs"
      using ok Cons.prems(2) p Inl tail_inv_len [OF Cons.prems(1)] by auto
    then have "card (insert (event_type e) (fst ` set evs)) = U16_MAX + 2"
      using tail_inv_types_card [OF Cons.prems(1)] by simp
    moreover have "card (insert (event_type e) (fst ` set evs)) \<le> card (fst ` set evs \<union> event_type ` set (e # es))"
      by (intro card_mono) auto
    ultimately show ?thesis using Cons.prems(3) by simp
  next
    case (Inr x)
    have u: "tail_inv u (evs @ [parts_of e])"
      using ok Cons.prems(2) p Inr tail_inv_len [OF Cons.prems(1)] by auto
    show ?thesis using Cons.IH [OF u] Cons.prems(2,3) p Inr by (simp add: parts_of_def)
  qed
qed simp

text \<open>Matches of a query among the events of a range of positions, in terms of the match predicate.\<close>
lemma matching_positions:
  assumes "wf_Query q" and "\<forall>e \<in> set es. wf_Event e" and "n \<le> length es"
  shows "map (\<lambda>i. base + i) (matching q (take n (map parts_of es))) =
         filter (\<lambda>p. Query_matches q (es ! (p - base))) [base..<base + n]"
proof -
  have m: "matches_parts q (event_type (es ! i)) (event_tags (es ! i)) = Query_matches q (es ! i)" if "i < n" for i
    using Query_matches_spec [OF assms(1), of "buf (es ! i)" "es ! i"] assms(2,3) that by (simp add: wf_Event_def)
  have "matching q (take n (map parts_of es)) = filter (\<lambda>i. Query_matches q (es ! i)) [0..<n]"
    using m assms(3) unfolding matching_def by (intro filter_cong) (simp_all add: parts_of_def)
  moreover have "[base..<base + n] = map (\<lambda>i. base + i) [0..<n]" using map_add_upt [of base n] by (simp add: add.commute)
  ultimately show ?thesis by (simp add: filter_map comp_def)
qed

text \<open>What the rebuilder holds after the events \<open>es\<close>: all of them indexed, or the latch and the first ones.\<close>
definition rebuilt :: "Position \<Rightarrow> Event list \<Rightarrow> Rebuilder \<Rightarrow> bool" where
  "rebuilt base es b \<longleftrightarrow>
     rb_count b = length es \<and> at_base (rb_index b) = base \<and>
     (rb_unindexable b \<longleftrightarrow> U16_MAX + 1 < card (event_type ` set es)) \<and>
     (\<not> rb_unindexable b \<longrightarrow> tail_inv (rb_index b) (map parts_of es))"

lemma image_fst_parts: "fst ` set (map parts_of es) = event_type ` set es"
  by (auto simp: parts_of_def image_iff)

lemma rebuilder_feed_ok:
  assumes "rebuilt base es b" and "wf_Event e"
  shows "\<exists>b'. Rebuilder_feed (base + length es) e b = Some b' \<and> rebuilt base (es @ [e]) b'"
proof (cases "rb_unindexable b")
  case True
  have "card (event_type ` set es) \<le> card (event_type ` set (es @ [e]))" by (intro card_mono) auto
  then show ?thesis using True assms(1) by (auto simp: Rebuilder_feed_def rebuilt_def Let_def)
next
  case False
  have inv: "tail_inv (rb_index b) (map parts_of es)" and base: "at_base (rb_index b) = base"
    and small: "card (event_type ` set es) \<le> U16_MAX + 1" and cnt: "rb_count b = length es"
    using assms(1) False by (auto simp: rebuilt_def not_less)
  obtain r t' where p: "tail_push (base + length es) e (rb_index b) = (r, t')" by fastforce
  note ok = tail_push_ok [OF inv wf_Event_tags [OF assms(2)], of "base + length es"]
  show ?thesis
  proof (cases r)
    case (Inl err)
    then have e: "err = TooManyTypes (U16_MAX + 1)" "t' = rb_index b" "length (at_types (rb_index b)) = U16_MAX + 1"
      "event_type e \<notin> event_type ` set es"
      using ok p base image_fst_parts [of es] by auto
    then have "card (event_type ` set (es @ [e])) = U16_MAX + 2"
      using tail_inv_types_card [OF inv] image_fst_parts [of es] by simp
    then show ?thesis
      using p Inl e False cnt base by (simp add: Rebuilder_feed_def rebuilt_def Let_def)
  next
    case (Inr u)
    then have t': "tail_inv t' (map parts_of (es @ [e]))" "tail_grows (rb_index b) t'" using ok p base by auto
    have "length (at_types t') \<le> U16_MAX + 1" using t'(1) by (simp add: tail_inv_def types_ok_def)
    then have "card (event_type ` set (es @ [e])) \<le> U16_MAX + 1"
      using tail_inv_types_card [OF t'(1)] image_fst_parts [of "es @ [e]"] by simp
    then show ?thesis
      using p Inr t' False cnt base by (simp add: Rebuilder_feed_def rebuilt_def Let_def tail_grows_def)
  qed
qed

lemma rebuild_from_ok:
  assumes "rebuilt base es0 b" and "\<forall>e \<in> set es. wf_Event e"
  shows "\<exists>b'. rebuild_from b (zip [base + length es0..<base + length es0 + length es] es) = Some b' \<and>
           rebuilt base (es0 @ es) b'"
  using assms
proof (induction es arbitrary: b es0)
  case (Cons e es)
  obtain b' where b': "Rebuilder_feed (base + length es0) e b = Some b'" "rebuilt base (es0 @ [e]) b'"
    using rebuilder_feed_ok [OF Cons.prems(1), of e] Cons.prems(2) by auto
  then show ?case using Cons.IH [OF b'(2)] Cons.prems(2) by (simp add: upt_conv_Cons del: upt_Suc)
qed simp

lemma rebuilt_new: "rebuilt base [] (Rebuilder_new base)"
  by (simp add: rebuilt_def Rebuilder_new_def tail_new_inv) (simp add: ActiveTail_new_def)

subsection \<open>Properties\<close>

text \<open>
  A watermark-bounded view of the active tail answers exactly for the events at or before its
  watermark, whatever the writer pushed after the view was taken: \<open>search\<close> over the view, evaluated on the
  later tail, gives in ascending order the positions up to the watermark and after \<open>aft\<close> whose event the
  match predicate accepts, and \<open>search_back\<close> those before \<open>bef\<close> in descending order.
\<close>
theorem view_search_exact:
  assumes "wf_Query q" and "\<forall>e \<in> set (es @ later). wf_Event e"
    and "push_events es (ActiveTail_new base) = Some t" and "push_events later t = Some t'"
    and "base \<le> w + 1" and "w < base + length es" and "length es \<le> U32_MAX"
  shows "search (view_index t' (tail_view t w)) q aft =
           Inr (filter (\<lambda>p. aft < p \<and> Query_matches q (es ! (p - base))) [base..<w + 1]) \<and>
         search_back (view_index t' (tail_view t w)) q bef =
           Inr (rev (filter (\<lambda>p. p < bef \<and> Query_matches q (es ! (p - base))) [base..<w + 1]))"
proof -
  have t: "tail_inv t (map parts_of es)" "tail_grows (ActiveTail_new base) t"
    using push_events_ok [OF tail_new_inv _ assms(3)] assms(2) by auto
  have t': "tail_inv t' (map parts_of es @ map parts_of later)" "tail_grows t t'"
    using push_events_ok [OF t(1) _ assms(4)] assms(2) by auto
  have base: "at_base t = base" using t(2) by (simp add: tail_grows_def ActiveTail_new_def)
  have n: "visible_len t w = w + 1 - base" using assms(5-7) base by (auto simp: visible_len_def)
  have le: "w + 1 - base \<le> length es" using assms(6) by simp
  have rep: "view_rep (t', tail_view t w) (take (w + 1 - base) (map parts_of es))"
    using view_rep_later(1) [OF t(1) t'(1,2), of "w + 1 - base"] le by (simp add: tail_view_def n)
  have b: "ix_base (view_index t' (tail_view t w)) = base"
    by (simp add: view_index_def tail_view_def make_view_def base)
  note m = matching_positions [OF assms(1) _ le, of base]
  show ?thesis
    using view.search_exact [OF rep, of q] m assms(2,5) b by (simp add: ac_simps)
qed

lemma card_event_types: "card (event_type ` set es) \<le> length es"
  by (metis card_length length_map list.set_map)

definition demo_event :: "byte \<Rightarrow> byte \<Rightarrow> Event" where
  "demo_event ty tag = \<lparr>buf = [1, 0, 1, 0, 1, 0, ty, tag, 9], data_offset = 8\<rparr>"

lemma demo_events_wf: "\<forall>e \<in> set [demo_event 0x41 0x61, demo_event 0x42 0x62, demo_event 0x41 0x62]. wf_Event e"
  by code_simp

theorem view_search_exact_witness:
  "\<exists>t t'. push_events [demo_event 0x41 0x61, demo_event 0x42 0x62] (ActiveTail_new 5) = Some t \<and>
     push_events [demo_event 0x41 0x62] t = Some t' \<and>
     search (view_index t' (tail_view t 6)) (Items [\<lparr>types = [], tags = [Tag [0x62]]\<rparr>]) 0 = Inr [6]"
proof -
  let ?es = "[demo_event 0x41 0x61, demo_event 0x42 0x62]" and ?later = "[demo_event 0x41 0x62]"
  let ?q = "Items [\<lparr>types = [], tags = [Tag [0x62]]\<rparr>]"
  have wf: "\<forall>e \<in> set (?es @ ?later). wf_Event e" using demo_events_wf by simp
  have "card (event_type ` set (?es @ ?later)) \<le> length (?es @ ?later)" by (rule card_event_types)
  then obtain t0 where t0: "push_events (?es @ ?later) (ActiveTail_new 5) = Some t0"
    using push_events_total [OF tail_new_inv wf, of 5] by auto
  obtain t where t: "push_events ?es (ActiveTail_new 5) = Some t" "push_events ?later t = Some t0"
    using t0 by (auto split: prod.splits sum.splits)
  have "wf_Query ?q" by code_simp
  moreover have "filter (\<lambda>p. 0 < p \<and> Query_matches ?q (?es ! (p - 5))) [5..<6 + 1] = [6]" by code_simp
  ultimately show ?thesis
    using view_search_exact [OF _ wf t, of ?q 6 0] t by simp
qed

text \<open>
  The planner's estimate over a view never undercounts: for a window of the view's positions and a width
  that covers it, \<open>estimate_matches\<close> returns a number that is at most the width and at least the number of
  matching positions in the window.
\<close>
theorem view_estimate_upper:
  assumes "wf_Query q" and "\<forall>e \<in> set es. wf_Event e" and "push_events es (ActiveTail_new base) = Some t"
    and "base \<le> w + 1" and "w < base + length es" and "length es \<le> U32_MAX"
    and "W \<subseteq> {base..w}" and "card W \<le> width" and "width \<le> U64_MAX"
  shows "\<exists>n. estimate_matches (view_index t (tail_view t w)) q width = Inr n \<and> n \<le> width \<and>
           card {p \<in> W. Query_matches q (es ! (p - base))} \<le> n"
proof -
  have t: "tail_inv t (map parts_of es)" "tail_grows (ActiveTail_new base) t"
    using push_events_ok [OF tail_new_inv assms(2,3)] by auto
  have base: "at_base t = base" using t(2) by (simp add: tail_grows_def ActiveTail_new_def)
  have n: "visible_len t w = w + 1 - base" using assms(4-6) base by (auto simp: visible_len_def)
  let ?n = "w + 1 - base" and ?W = "(\<lambda>p. p - base) ` W"
  let ?evs = "take ?n (map parts_of es)"
  have le: "?n \<le> length es" using assms(5) by simp
  have rep: "view_rep (t, tail_view t w) ?evs"
    using view_rep_later(1) [OF t(1), of t "[]" ?n] t(1) le by (simp add: tail_view_def n)
  have inj: "inj_on (\<lambda>p. p - base) W"
    by (intro inj_onI) (metis assms(7) atLeastAtMost_iff eq_diff_iff subsetD)
  have "p - base < ?n" if "p \<in> W" for p
    using subsetD [OF assms(7) that] by auto
  then have sub: "?W \<subseteq> {..<length ?evs}" using le by auto
  have "?W \<inter> set (matching q ?evs) = (\<lambda>p. p - base) ` {p \<in> W. Query_matches q (es ! (p - base))}"
  proof -
    have "p - base \<in> set (matching q ?evs) \<longleftrightarrow> Query_matches q (es ! (p - base))" if "p \<in> W" for p
      using matching_positions [OF assms(1,2) le, of base, THEN arg_cong [of _ _ "\<lambda>l. p \<in> set l"]] assms(7) that
      by (force simp: image_iff)
    then show ?thesis by blast
  qed
  moreover have "card ((\<lambda>p. p - base) ` {p \<in> W. Query_matches q (es ! (p - base))}) =
      card {p \<in> W. Query_matches q (es ! (p - base))}"
    using inj by (intro card_image) (auto simp: inj_on_def)
  ultimately show ?thesis
    using view.estimate_upper [OF rep sub, of width q] assms(8,9) card_image [OF inj] by auto
qed

theorem view_estimate_upper_witness:
  "\<exists>t n. push_events [demo_event 0x41 0x61, demo_event 0x42 0x62] (ActiveTail_new 5) = Some t \<and>
     estimate_matches (view_index t (tail_view t 6)) (Items [\<lparr>types = [], tags = [Tag [0x62]]\<rparr>]) 2 = Inr n \<and> n \<le> 2"
proof -
  let ?es = "[demo_event 0x41 0x61, demo_event 0x42 0x62]"
  let ?q = "Items [\<lparr>types = [], tags = [Tag [0x62]]\<rparr>]"
  have wf: "\<forall>e \<in> set ?es. wf_Event e" using demo_events_wf by simp
  have "card (event_type ` set ?es) \<le> length ?es" by (rule card_event_types)
  then obtain t where t: "push_events ?es (ActiveTail_new 5) = Some t"
    using push_events_total [OF tail_new_inv wf, of 5] by auto
  have "wf_Query ?q" by code_simp
  moreover have "{5..6} \<subseteq> {5..6 :: nat}" "card {5..6 :: nat} \<le> 2" by simp_all
  ultimately show ?thesis
    using view_estimate_upper [OF _ wf t, of ?q 6 "{5..6}" 2] t by auto
qed

text \<open>
  Rebuilding the index from the log never fails and is exact: feeding the events of a range in
  position order counts all of them, latches \<open>unindexable\<close> exactly when they carry more distinct types than
  the \<open>u16\<close> column can number, and otherwise gives an index whose search returns the matching positions.
\<close>
theorem rebuild_exact:
  assumes "wf_Query q" and "\<forall>e \<in> set es. wf_Event e"
  shows "\<exists>r. rebuild base (zip [base..<base + length es] es) = Some r \<and> rb_count r = length es \<and>
     (rb_unindexable r \<longleftrightarrow> U16_MAX + 1 < card (event_type ` set es)) \<and>
     (\<not> rb_unindexable r \<longrightarrow>
        search (view_index (rb_index r) (view_full (rb_index r))) q aft =
          Inr (filter (\<lambda>p. aft < p \<and> Query_matches q (es ! (p - base))) [base..<base + length es]))"
proof -
  obtain r where r: "rebuild base (zip [base..<base + length es] es) = Some r" "rebuilt base es r"
    using rebuild_from_ok [OF rebuilt_new assms(2), of base] by (auto simp: rebuild_def)
  have "search (view_index (rb_index r) (view_full (rb_index r))) q aft =
      Inr (filter (\<lambda>p. aft < p \<and> Query_matches q (es ! (p - base))) [base..<base + length es])"
    if "\<not> rb_unindexable r"
  proof -
    have t: "tail_inv (rb_index r) (map parts_of es)" and base: "at_base (rb_index r) = base"
      using r(2) that by (auto simp: rebuilt_def)
    have rep: "view_rep (rb_index r, view_full (rb_index r)) (take (length es) (map parts_of es))"
      using view_rep_later(1) [OF t, of "rb_index r" "[]" "length es"] t tail_inv_len [OF t] by (simp add: view_full_def)
    have b: "ix_base (view_index (rb_index r) (view_full (rb_index r))) = base"
      by (simp add: view_index_def view_full_def make_view_def base)
    show ?thesis
      using view.search_exact(1) [OF rep, of q aft] matching_positions [OF assms order_refl, of base] b
      by (simp add: conj_commute)
  qed
  then show ?thesis using r by (auto simp: rebuilt_def)
qed

theorem rebuild_exact_witness:
  "\<exists>r. rebuild 5 (zip [5..<7] [demo_event 0x41 0x61, demo_event 0x42 0x62]) = Some r \<and> \<not> rb_unindexable r \<and>
     search (view_index (rb_index r) (view_full (rb_index r))) (Items [\<lparr>types = [EventType [0x42]], tags = []\<rparr>]) 0 = Inr [6]"
proof -
  let ?es = "[demo_event 0x41 0x61, demo_event 0x42 0x62]"
  let ?q = "Items [\<lparr>types = [EventType [0x42]], tags = []\<rparr>]"
  have wf: "\<forall>e \<in> set ?es. wf_Event e" using demo_events_wf by simp
  have "card (event_type ` set ?es) \<le> length ?es" by (rule card_event_types)
  moreover have "wf_Query ?q" by code_simp
  moreover have "filter (\<lambda>p. 0 < p \<and> Query_matches ?q (?es ! (p - 5))) [5..<5 + length ?es] = [6]" by code_simp
  moreover have "5 + length ?es = 7" by simp
  ultimately show ?thesis
    using rebuild_exact [OF _ wf, of ?q 5 0] by force
qed

end
