(* ===== verification/IndexSegment.thy ===== *)
theory IndexSegment
  imports IndexHeader IndexTail
begin

text \<open>
  The on-disk index segment (\<open>crates/tephra/src/index/segment.rs\<close>): encoding a tail into header, type column,
  type dictionary, postings and term dictionary, opening the bytes again, and the trait's methods over them.

  The term dictionary is the third-party \<open>fst\<close> crate, and the record \<open>fst_crate\<close> of its three operations is a
  parameter: \<open>build\<close> from key-value pairs (\<open>None\<close>: a key out of order), \<open>opn\<close> (\<open>None\<close>: rejected bytes) and
  \<open>get\<close>. \<open>fst_ok\<close> names what the code relies on, the crate's documented contract: a map built from pairs
  in strictly ascending key order opens and looks up exactly those pairs. \<open>fst_demo\<close> is a concrete instance.
\<close>

subsection \<open>The term dictionary\<close>

record 'm fst_crate =
  fst_build :: "(str \<times> nat) list \<Rightarrow> bytes option"
  fst_open :: "bytes \<Rightarrow> 'm option"
  fst_get :: "'m \<Rightarrow> str \<Rightarrow> nat option"

definition fst_ok :: "'m fst_crate \<Rightarrow> bool" where
  "fst_ok F \<longleftrightarrow>
     (\<forall>kvs. sorted_wrt (<) (map fst kvs) \<and> (\<forall>(k, v) \<in> set kvs. length k \<le> U16_MAX \<and> v \<le> U64_MAX) \<longrightarrow>
        (\<exists>b m. fst_build F kvs = Some b \<and> fst_open F b = Some m \<and> fst_get F m = map_of kvs))"

subsection \<open>Encoding\<close>

definition fit_u16 :: "nat \<Rightarrow> nat option" where
  "fit_u16 v = (if v \<le> U16_MAX then Some v else None)"

definition fit_u32 :: "nat \<Rightarrow> nat option" where
  "fit_u32 v = (if v \<le> U32_MAX then Some v else None)"

text \<open>The loop over the type names; \<open>None\<close> is the panic of \<open>fit_u16\<close>.\<close>
fun encode_type_dict :: "str list \<Rightarrow> bytes option" where
  "encode_type_dict [] = Some []"
| "encode_type_dict (name # names) =
     (case fit_u16 (length name) of
        None \<Rightarrow> None
      | Some len \<Rightarrow> map_option (\<lambda>rest. le_bytes 2 len @ name @ rest) (encode_type_dict names))"

text \<open>The loop over the terms: the pairs fed to the builder and the postings region.\<close>
fun encode_terms :: "(str \<times> nat list) list \<Rightarrow> bytes \<Rightarrow> (str \<times> nat) list \<times> bytes" where
  "encode_terms [] region = ([], region)"
| "encode_terms ((tag, postings) # terms) region =
     (case encode_postings postings region of
        (v, region) \<Rightarrow> (case encode_terms terms region of (kvs, region) \<Rightarrow> ((tag, v) # kvs, region)))"

text \<open>\<open>None\<close> is a panic: a name, an offset or the term dictionary that does not fit its width.\<close>
definition encode_at :: "crc_fun \<Rightarrow> 'm fst_crate \<Rightarrow> ActiveTail \<Rightarrow> nat \<Rightarrow> bytes option" where
  "encode_at crc F t now =
     (let type_col = concat (map (le_bytes 2) (tail_type_column t))
      in case encode_type_dict (tail_type_names t) of None \<Rightarrow> None | Some type_dict \<Rightarrow>
         (case encode_terms (terms_sorted_with_postings t) [] of (kvs, region) \<Rightarrow>
         (case fst_build F kvs of None \<Rightarrow> None | Some fst_bytes \<Rightarrow>
         (case fit_u32 (INDEX_HEADER_SIZE + length type_col) of None \<Rightarrow> None | Some td \<Rightarrow>
         (case fit_u32 (td + length type_dict) of None \<Rightarrow> None | Some po \<Rightarrow>
         (case fit_u32 (po + length region) of None \<Rightarrow> None | Some fo \<Rightarrow>
         (case fit_u32 (length fst_bytes) of None \<Rightarrow> None | Some fl \<Rightarrow>
          let body = type_col @ type_dict @ region @ fst_bytes;
              header = \<lparr>ih_version = IX_VERSION, ih_created_at_nanos = now, ih_base_position = at_base t,
                        ih_event_count = tail_len t, typedict_off = td, postings_off = po, fst_off = fo,
                        fst_len = fl, body_crc = crc body\<rparr>
          in Some (IndexSegmentHeader_to_bytes crc header @ body))))))))"

subsection \<open>Opening\<close>

datatype IndexSegmentError =
    IxTooShort nat
  | IxHeader IndexHeaderError
  | IxLengthMismatch nat nat
  | BodyChecksumMismatch "32 word" "32 word"
  | TruncatedLength
  | NamePastDictionary
  | NameNotUtf8
  | IxFst

record 'm IndexSegment =
  is_header :: IndexSegmentHeader
  is_data :: bytes
  is_map :: 'm
  type_names :: "str list"

definition take_u16 :: "bytes \<Rightarrow> IndexSegmentError + (nat \<times> bytes)" where
  "take_u16 b = (if length b < 2 then Inl TruncatedLength else Inr (of_le (take 2 b), drop 2 b))"

function parse_type_dict :: "bytes \<Rightarrow> IndexSegmentError + str list" where
  "parse_type_dict b =
     (if b = [] then Inr []
      else case take_u16 b of
        Inl e \<Rightarrow> Inl e
      | Inr (len, b) \<Rightarrow>
          if length b < len then Inl NamePastDictionary
          else if \<not> utf8_valid (take len b) then Inl NameNotUtf8
          else case parse_type_dict (drop len b) of
            Inl e \<Rightarrow> Inl e
          | Inr names \<Rightarrow> Inr (take len b # names))"
  by pat_completeness auto
termination by (relation "measure length") (auto simp: take_u16_def split: if_splits)

declare parse_type_dict.simps [simp del]

text \<open>The bytes of a region.\<close>
definition region_of :: "nat \<times> nat \<Rightarrow> bytes \<Rightarrow> bytes" where
  "region_of r b = bslice (fst r) (snd r) b"

definition IndexSegment_from_bytes :: "crc_fun \<Rightarrow> 'm fst_crate \<Rightarrow> bytes \<Rightarrow> IndexSegmentError + 'm IndexSegment" where
  "IndexSegment_from_bytes crc F b =
     (if length b < INDEX_HEADER_SIZE then Inl (IxTooShort (length b))
      else case IndexSegmentHeader_from_bytes crc (take INDEX_HEADER_SIZE b) of
        Inl e \<Rightarrow> Inl (IxHeader e)
      | Inr h \<Rightarrow>
          if segment_len h \<noteq> length b then Inl (IxLengthMismatch (segment_len h) (length b))
          else
            let computed = crc (drop INDEX_HEADER_SIZE b)
            in if computed \<noteq> body_crc h then Inl (BodyChecksumMismatch (body_crc h) computed)
               else case parse_type_dict (region_of (type_dict_range h) b) of
                 Inl e \<Rightarrow> Inl e
               | Inr names \<Rightarrow>
                   (case fst_open F (region_of (fst_range h) b) of
                      None \<Rightarrow> Inl IxFst
                    | Some m \<Rightarrow> Inr \<lparr>is_header = h, is_data = b, is_map = m, type_names = names\<rparr>))"

subsection \<open>The trait's methods\<close>

text \<open>\<open>Iterator::position\<close>.\<close>
fun iter_position :: "('a \<Rightarrow> bool) \<Rightarrow> 'a list \<Rightarrow> nat option" where
  "iter_position P [] = None"
| "iter_position P (x # xs) = (if P x then Some 0 else map_option Suc (iter_position P xs))"

definition postings_region :: "'m IndexSegment \<Rightarrow> bytes" where
  "postings_region seg = region_of (postings_range (is_header seg)) (is_data seg)"

definition seg_term_postings :: "'m fst_crate \<Rightarrow> 'm IndexSegment \<Rightarrow> str \<Rightarrow> PostingsError + nat list option" where
  "seg_term_postings F seg tag =
     (case fst_get F (is_map seg) tag of
        None \<Rightarrow> Inr None
      | Some v \<Rightarrow> (case decode_postings v (postings_region seg) of Inl e \<Rightarrow> Inl e | Inr ps \<Rightarrow> Inr (Some ps)))"

definition seg_term_len :: "'m fst_crate \<Rightarrow> 'm IndexSegment \<Rightarrow> str \<Rightarrow> PostingsError + nat option" where
  "seg_term_len F seg tag =
     (case fst_get F (is_map seg) tag of
        None \<Rightarrow> Inr None
      | Some v \<Rightarrow> (case posting_len v (postings_region seg) of Inl e \<Rightarrow> Inl e | Inr n \<Rightarrow> Inr (Some n)))"

definition seg_type_id :: "'m IndexSegment \<Rightarrow> str \<Rightarrow> nat option" where
  "seg_type_id seg name = map_option (\<lambda>i. i mod 2 ^ 16) (iter_position (\<lambda>n. n = name) (type_names seg))"

definition seg_type_at :: "'m IndexSegment \<Rightarrow> nat \<Rightarrow> nat" where
  "seg_type_at seg local =
     (let start = fst (type_column_range (is_header seg)) + local * 2 in of_le (bslice start (start + 2) (is_data seg)))"

definition seg_index :: "'m fst_crate \<Rightarrow> 'm IndexSegment \<Rightarrow> SegmentIndex" where
  "seg_index F seg =
     \<lparr>ix_base = ih_base_position (is_header seg), ix_len = ih_event_count (is_header seg) mod 2 ^ 32,
      ix_term_postings = seg_term_postings F seg, ix_term_len = seg_term_len F seg,
      ix_type_id = seg_type_id seg, ix_type_at = seg_type_at seg\<rparr>"

subsection \<open>What the sealer reads of a tail\<close>

lemma foldr_place_length [simp]:
  "length (foldr (\<lambda>(name, tid) names. names[tid := name]) m init) = length init"
  by (induction m) auto

lemma foldr_place:
  assumes "distinct (map snd m)" and "(name, tid) \<in> set m" and "tid < length init"
  shows "foldr (\<lambda>(name, tid) names. names[tid := name]) m init ! tid = name"
  using assms
proof (induction m)
  case (Cons a m)
  obtain n k where a: "a = (n, k)" by fastforce
  show ?case
  proof (cases "(name, tid) \<in> set m")
    case True
    then have "k \<noteq> tid" using Cons.prems(1) a by force
    then show ?thesis using Cons True a by simp
  next
    case False
    then show ?thesis using Cons.prems a by simp
  qed
qed simp

lemma type_names_nth:
  assumes "interner_ok (at_types t)" and "k < length (at_types t)"
  shows "map_of (at_types t) (tail_type_names t ! k) = Some k"
proof -
  obtain x where x: "map_of (at_types t) x = Some k" using interner_onto [OF assms] by blast
  have "distinct (map snd (at_types t))" using assms(1) by (simp add: interner_ok_def)
  then have "tail_type_names t ! k = x"
    unfolding tail_type_names_def using assms(2) map_of_SomeD [OF x] by (intro foldr_place) auto
  then show ?thesis using x by simp
qed

lemma length_type_names [simp]: "length (tail_type_names t) = length (at_types t)"
  by (simp add: tail_type_names_def)

lemma distinct_type_names: "interner_ok (at_types t) \<Longrightarrow> distinct (tail_type_names t)"
  unfolding distinct_conv_nth using type_names_nth by (metis length_type_names option.inject)

lemma tail_type_column_ok:
  assumes "cv_inv 0 (type_column t)"
  shows "tail_type_column t = cv_abs (type_column t)"
proof (rule nth_equalityI)
  show "length (tail_type_column t) = length (cv_abs (type_column t))"
    using length_cv_abs [OF assms] by (simp add: tail_type_column_def tail_len_def)
next
  fix i assume "i < length (tail_type_column t)"
  then have i: "i < tail_len t" "i < length (cv_abs (type_column t))"
    using length_cv_abs [OF assms] by (simp_all add: tail_type_column_def tail_len_def)
  then show "tail_type_column t ! i = cv_abs (type_column t) ! i"
    using cv.get_current [OF assms i(2)] by (simp add: tail_type_column_def)
qed

definition tag_postings :: "event_parts list \<Rightarrow> str \<Rightarrow> nat list" where
  "tag_postings evs tag = filter (carries evs tag) [0..<length evs]"

lemma terms_value:
  assumes "tail_inv t evs" and "map_of (at_tags t) tag = Some k"
  shows "(case snap_get (cv_snapshot (at_postings t)) (at_postings t) k of
            None \<Rightarrow> [] | Some slot \<Rightarrow> collect_below (tail_len t) slot) = tag_postings evs tag"
proof -
  have p: "cv_inv PostingSlot_default (at_postings t)" "interner_ok (at_tags t)"
    "length (cv_abs (at_postings t)) = length (at_tags t)" "slot_inv (cv_abs (at_postings t) ! k)"
    "slot_abs (cv_abs (at_postings t) ! k) = filter (carries evs tag) [0..<length evs]"
    using assms by (auto simp: tail_inv_def posts_ok_def)
  have "snap_get (cv_snapshot (at_postings t)) (at_postings t) k = Some (cv_abs (at_postings t) ! k)"
    using cv.get_current [OF p(1)] interner_bound [OF p(2) assms(2)] p(3) by simp
  moreover have "takeWhile (\<lambda>i. i < length evs) (filter (carries evs tag) [0..<length evs]) = tag_postings evs tag"
    by (simp add: tag_postings_def takeWhile_eq_all_conv)
  ultimately show ?thesis using collect_below_ok [OF p(4)] p(5) tail_inv_len [OF assms(1)] by simp
qed

lemma distinct_map_sort_key: "distinct (map g xs) \<Longrightarrow> distinct (map g (sort_key f xs))"
  by (simp add: distinct_map)

lemma terms_ok:
  assumes "tail_inv t evs"
  shows "sorted_wrt (<) (map fst (terms_sorted_with_postings t))"
    and "set (terms_sorted_with_postings t) = (\<lambda>tag. (tag, tag_postings evs tag)) ` (\<Union>ev \<in> set evs. set (snd ev))"
proof -
  let ?f = "\<lambda>(tag, tid). (tag, case snap_get (cv_snapshot (at_postings t)) (at_postings t) tid of
      None \<Rightarrow> [] | Some slot \<Rightarrow> collect_below (tail_len t) slot)"
  have m: "interner_ok (at_tags t)" and keys: "fst ` set (at_tags t) = (\<Union>ev \<in> set evs. set (snd ev))"
    using assms by (auto simp: tail_inv_def posts_ok_def)
  have terms: "terms_sorted_with_postings t = sort_key fst (map ?f (at_tags t))"
    by (simp add: terms_sorted_with_postings_def)
  have "map fst (map ?f (at_tags t)) = map fst (at_tags t)" by (simp add: case_prod_beta)
  then have "distinct (map fst (map ?f (at_tags t)))" using m by (simp only: interner_ok_def)
  then have "distinct (map fst (sort_key fst (map ?f (at_tags t))))"
    by (rule distinct_map_sort_key)
  then show "sorted_wrt (<) (map fst (terms_sorted_with_postings t))"
    unfolding terms by (simp only: strict_sorted_iff sorted_sort_key simp_thms)
  have "?f x = (fst x, tag_postings evs (fst x))" if x: "x \<in> set (at_tags t)" for x
  proof -
    have "map_of (at_tags t) (fst x) = Some (snd x)" using x m by (simp add: interner_ok_def)
    from terms_value [OF assms this] show ?thesis by (simp add: case_prod_beta)
  qed
  then show "set (terms_sorted_with_postings t) = (\<lambda>tag. (tag, tag_postings evs tag)) ` (\<Union>ev \<in> set evs. set (snd ev))"
    unfolding terms keys [symmetric] by (simp add: image_image cong: image_cong)
qed

lemma terms_keys: "tail_inv t evs \<Longrightarrow> fst ` set (terms_sorted_with_postings t) = (\<Union>ev \<in> set evs. set (snd ev))"
  by (simp add: terms_ok(2) image_image)

subsection \<open>The regions round-trip\<close>

definition term_coded :: "bytes \<Rightarrow> str \<times> nat list \<Rightarrow> str \<times> nat \<Rightarrow> bool" where
  "term_coded region tp kv \<longleftrightarrow>
     fst kv = fst tp \<and> snd kv \<le> U64_MAX \<and>
     (\<forall>rest. decode_postings (snd kv) (region @ rest) = Inr (snd tp) \<and>
             posting_len (snd kv) (region @ rest) = Inr (length (snd tp)))"

lemma encode_postings_value:
  assumes "encode_postings ps region = (v, region')" and "\<forall>p \<in> set ps. p \<le> U32_MAX" and "length region < 2 ^ 62"
  shows "v \<le> U64_MAX"
proof (cases "length ps = 1")
  case True
  then obtain p where "ps = [p]" by (cases ps) auto
  then show ?thesis using assms(1,2) by (auto simp: encode_postings_def tier_defs)
next
  case False
  then have "v = length region + 2 ^ 62"
    using assms(1) or_push_bit_add [OF assms(3), of 1] by (simp add: encode_postings_def Let_def tier_defs or.commute)
  then show ?thesis using assms(3) by simp
qed

lemma encode_terms_ok:
  assumes "encode_terms terms region = (kvs, region')" and "length region' < 2 ^ 62"
    and "\<forall>(tag, ps) \<in> set terms. sorted_wrt (<) ps \<and> (\<forall>p \<in> set ps. p \<le> U32_MAX) \<and> length ps \<le> U32_MAX"
  shows "(\<exists>block. region' = region @ block) \<and> list_all2 (term_coded region') terms kvs"
  using assms
proof (induction terms region arbitrary: kvs rule: encode_terms.induct)
  case (2 tag ps terms region)
  obtain v r1 where e: "encode_postings ps region = (v, r1)" by fastforce
  obtain kvs' where k: "encode_terms terms r1 = (kvs', region')" "kvs = (tag, v) # kvs'"
    using 2(2) e by (auto split: prod.splits)
  obtain b1 where b1: "r1 = region @ b1" using encode_postings_region [of ps region] e by auto
  have IH: "(\<exists>block. region' = r1 @ block) \<and> list_all2 (term_coded region') terms kvs'"
    using 2(1) [OF e [symmetric] k(1) 2(3)] 2(4) by auto
  then obtain b2 where b2: "region' = r1 @ b2" by blast
  have len: "length region < 2 ^ 62" using 2(3) b1 b2 by simp
  have "term_coded region' (tag, ps) (tag, v)"
    using decode_encode_postings [OF _ _ _ len e] encode_postings_value [OF e _ len] 2(4)
    by (auto simp: term_coded_def b2)
  then show ?case using IH k(2) b1 b2 by simp
qed simp

lemma type_dict_roundtrip:
  assumes "\<forall>n \<in> set names. length n \<le> U16_MAX \<and> utf8_valid n"
  shows "\<exists>b. encode_type_dict names = Some b \<and> parse_type_dict b = Inr names"
  using assms
proof (induction names)
  case Nil
  then show ?case by (simp add: parse_type_dict.simps)
next
  case (Cons n names)
  then obtain b where b: "encode_type_dict names = Some b" "parse_type_dict b = Inr names" by auto
  have "parse_type_dict (le_bytes 2 (length n) @ n @ b) = Inr (n # names)"
    using Cons.prems b(2) by (subst parse_type_dict.simps) (simp add: take_u16_def flip: length_0_conv)
  then show ?case using b(1) Cons.prems by (simp add: fit_u16_def)
qed

lemma iter_position_distinct:
  assumes "distinct xs" and "i < length xs"
  shows "iter_position (\<lambda>n. n = xs ! i) xs = Some i"
  using assms
proof (induction xs arbitrary: i)
  case (Cons x xs)
  show ?case
  proof (cases i)
    case (Suc j)
    then have "xs ! j \<in> set xs" using Cons.prems(2) by simp
    then have "x \<noteq> xs ! j" using Cons.prems(1) by auto
    then show ?thesis using Cons Suc by simp
  qed simp
qed simp

lemma iter_position_None: "iter_position P xs = None \<longleftrightarrow> (\<forall>x \<in> set xs. \<not> P x)"
  by (induction xs) auto

lemma iter_position_Some: "iter_position P xs = Some i \<Longrightarrow> i < length xs \<and> P (xs ! i)"
  by (induction xs arbitrary: i) (auto split: if_splits)

subsection \<open>A sealed segment represents its events\<close>

definition seg_rep :: "'m fst_crate \<times> 'm IndexSegment \<Rightarrow> event_parts list \<Rightarrow> bool" where
  "seg_rep s evs \<longleftrightarrow> (case s of (F, seg) \<Rightarrow>
     ih_event_count (is_header seg) = length evs \<and> length evs \<le> U32_MAX \<and>
     (\<forall>tag. fst_get F (is_map seg) tag = None \<longrightarrow> (\<forall>ev \<in> set evs. tag \<notin> set (snd ev))) \<and>
     (\<forall>tag v. fst_get F (is_map seg) tag = Some v \<longrightarrow>
        decode_postings v (postings_region seg) = Inr (tag_postings evs tag) \<and>
        posting_len v (postings_region seg) = Inr (length (tag_postings evs tag))) \<and>
     distinct (type_names seg) \<and> length (type_names seg) \<le> U16_MAX + 1 \<and>
     (\<forall>i < length evs. seg_type_at seg i < length (type_names seg) \<and>
        type_names seg ! seg_type_at seg i = fst (evs ! i)))"

interpretation seg: segment_index seg_rep "\<lambda>(F, s). seg_index F s"
proof (unfold_locales, goal_cases)
  case (1 s evs)
  then show ?case by (auto simp: seg_rep_def seg_index_def)
next
  case (2 s evs tag)
  obtain F sg where s: "s = (F, sg)" by fastforce
  show ?case
    using 2 by (cases "fst_get F (is_map sg) tag")
      (auto simp: s seg_rep_def seg_index_def seg_term_postings_def carries_def tag_postings_def)
next
  case (3 s evs tag)
  obtain F sg where s: "s = (F, sg)" by fastforce
  show ?case
    using 3 by (cases "fst_get F (is_map sg) tag")
      (auto simp: s seg_rep_def seg_index_def seg_term_len_def carries_def tag_postings_def)
next
  case (4 s evs nm ev)
  obtain F sg where s: "s = (F, sg)" by fastforce
  from 4(3) obtain i where i: "i < length evs" "ev = evs ! i" by (auto simp: in_set_conv_nth)
  have ty: "seg_type_at sg i < length (type_names sg)" "type_names sg ! seg_type_at sg i = fst (evs ! i)"
    using 4(1) i s by (auto simp: seg_rep_def)
  have "fst ev \<in> set (type_names sg)" using nth_mem [OF ty(1)] ty(2) i(2) by simp
  then show ?case using 4(2) by (auto simp: s seg_rep_def seg_index_def seg_type_id_def iter_position_None)
next
  case (5 s evs nm k i)
  obtain F sg where s: "s = (F, sg)" by fastforce
  obtain j where j: "iter_position (\<lambda>n. n = nm) (type_names sg) = Some j" "k = j mod 2 ^ 16"
    using 5(2) s by (auto simp: seg_index_def seg_type_id_def)
  have jn: "j < length (type_names sg)" "type_names sg ! j = nm" using iter_position_Some [OF j(1)] by auto
  have "k = j" using j(2) jn(1) 5(1) s by (simp add: seg_rep_def)
  then show ?case
    using 5(1,3) jn nth_eq_iff_index_eq [of "type_names sg" j "seg_type_at sg i"]
    by (auto simp: s seg_rep_def seg_index_def)
qed

text \<open>The number of bytes of the file \<open>encode_at\<close> writes.\<close>
definition index_size :: "'m fst_crate \<Rightarrow> ActiveTail \<Rightarrow> nat" where
  "index_size F t =
     INDEX_HEADER_SIZE + 2 * tail_len t + sum_list (map (\<lambda>n. 2 + length n) (tail_type_names t)) +
     (case encode_terms (terms_sorted_with_postings t) [] of
        (kvs, region) \<Rightarrow> length region + (case fst_build F kvs of None \<Rightarrow> 0 | Some b \<Rightarrow> length b))"

definition names_ok :: "event_parts list \<Rightarrow> bool" where
  "names_ok evs \<longleftrightarrow> (\<forall>ev \<in> set evs. wf_name (fst ev) \<and> (\<forall>tag \<in> set (snd ev). wf_name tag))"

lemma names_ok_events: "\<forall>e \<in> set es. wf_Event e \<Longrightarrow> names_ok (map parts_of es)"
  using from_bytes_wf by (auto simp: names_ok_def parts_of_def wf_Event_def wf_Tags_def list_all_iff)

lemma length_type_dict:
  "encode_type_dict names = Some b \<Longrightarrow> length b = sum_list (map (\<lambda>n. 2 + length n) names)"
  by (induction names arbitrary: b) (auto simp: fit_u16_def split: if_splits)

lemma names_from_events:
  assumes "tail_inv t evs" and "n \<in> set (tail_type_names t)"
  shows "n \<in> fst ` set evs"
proof -
  obtain k where "k < length (at_types t)" "n = tail_type_names t ! k" using assms(2) by (auto simp: in_set_conv_nth)
  then have "map_of (at_types t) n = Some k"
    using type_names_nth [of t k] assms(1) by (simp add: tail_inv_def types_ok_def)
  then have "n \<in> fst ` set (at_types t)" by (metis domI dom_map_of_conv_image_fst)
  then show ?thesis using assms(1) unfolding tail_inv_def by blast
qed

lemma fst_ok_build:
  assumes "fst_ok F" and "sorted_wrt (<) (map fst kvs)" and "\<forall>(k, v) \<in> set kvs. length k \<le> U16_MAX \<and> v \<le> U64_MAX"
  shows "\<exists>b m. fst_build F kvs = Some b \<and> fst_open F b = Some m \<and> fst_get F m = map_of kvs"
  using assms(1) unfolding fst_ok_def by (rule allE [of _ kvs]) (use assms(2,3) in simp)

text \<open>The parts of the file, and what the sealer relies on for each.\<close>
lemma index_parts:
  assumes "fst_ok F" and "tail_inv t evs" and "names_ok evs" and "length evs \<le> U32_MAX" and "index_size F t \<le> U32_MAX"
  obtains dict kvs region fb m where "encode_type_dict (tail_type_names t) = Some dict"
    and "parse_type_dict dict = Inr (tail_type_names t)"
    and "encode_terms (terms_sorted_with_postings t) [] = (kvs, region)" and "fst_build F kvs = Some fb"
    and "fst_open F fb = Some m" and "fst_get F m = map_of kvs"
    and "list_all2 (term_coded region) (terms_sorted_with_postings t) kvs"
    and "index_size F t = 64 + 2 * length evs + length dict + length region + length fb"
proof -
  let ?terms = "terms_sorted_with_postings t"
  obtain kvs region where e: "encode_terms ?terms [] = (kvs, region)" by fastforce
  have small: "length region < 2 ^ 62" using assms(5) e by (simp add: index_size_def)
  have "sorted_wrt (<) ps \<and> (\<forall>p \<in> set ps. p \<le> U32_MAX) \<and> length ps \<le> U32_MAX" if "(tag, ps) \<in> set ?terms" for tag ps
  proof -
    have ps: "ps = filter (carries evs tag) [0..<length evs]" using terms_ok(2) [OF assms(2)] that by (auto simp: tag_postings_def)
    have "length ps \<le> length evs" using length_filter_le [of "carries evs tag" "[0..<length evs]"] by (simp add: ps)
    then show ?thesis using assms(4) by (auto simp: ps intro: sorted_wrt_filter)
  qed
  then have tc: "list_all2 (term_coded region) ?terms kvs" using encode_terms_ok [OF e small] by auto
  then have keys: "map fst kvs = map fst ?terms"
    by (induction rule: list_all2_induct) (auto simp: term_coded_def)
  have fits: "\<forall>(k, v) \<in> set kvs. length k \<le> U16_MAX \<and> v \<le> U64_MAX"
  proof -
    have short: "length tag \<le> U16_MAX" if "tag \<in> fst ` set ?terms" for tag
      using that assms(3) unfolding terms_keys [OF assms(2)]
      by (auto simp: names_ok_def wf_name_def MAX_NAME_LEN_def)
    have "length (fst kv) \<le> U16_MAX" if "kv \<in> set kvs" for kv
      using short [of "fst kv"] that keys by (metis imageI list.set_map)
    moreover have "snd kv \<le> U64_MAX" if "kv \<in> set kvs" for kv
      using tc that by (auto simp: list_all2_conv_all_nth in_set_conv_nth term_coded_def)
    ultimately show ?thesis by auto
  qed
  have "sorted_wrt (<) (map fst kvs)" using terms_ok(1) [OF assms(2)] keys by simp
  from fst_ok_build [OF assms(1) this fits]
  obtain fb m where f: "fst_build F kvs = Some fb" "fst_open F fb = Some m" "fst_get F m = map_of kvs" by blast
  have "length n \<le> U16_MAX \<and> utf8_valid n" if n: "n \<in> set (tail_type_names t)" for n
    using names_from_events [OF assms(2) n] assms(3) by (auto simp: names_ok_def wf_name_def MAX_NAME_LEN_def)
  then obtain dict where d: "encode_type_dict (tail_type_names t) = Some dict"
    "parse_type_dict dict = Inr (tail_type_names t)"
    using type_dict_roundtrip by blast
  show thesis
    using that [OF d e f tc] length_type_dict [OF d(1)] e f(1) tail_inv_len [OF assms(2)]
    by (simp add: index_size_def INDEX_HEADER_SIZE_def)
qed

lemma term_coded_lookup:
  assumes "list_all2 (term_coded region) terms kvs" and "distinct (map fst terms)"
  shows "map_of kvs tag = Some v \<Longrightarrow> \<exists>ps. (tag, ps) \<in> set terms \<and> term_coded region (tag, ps) (tag, v)"
    and "map_of kvs tag = None \<Longrightarrow> tag \<notin> fst ` set terms"
proof -
  have keys: "map fst kvs = map fst terms"
    using assms(1) by (induction rule: list_all2_induct) (auto simp: term_coded_def)
  show "\<exists>ps. (tag, ps) \<in> set terms \<and> term_coded region (tag, ps) (tag, v)" if get: "map_of kvs tag = Some v"
  proof -
    obtain i where i: "i < length kvs" "kvs ! i = (tag, v)"
      using map_of_SomeD [OF get] by (auto simp: in_set_conv_nth)
    have c: "term_coded region (terms ! i) (tag, v)" and l: "i < length terms"
      using list_all2_nthD2 [OF assms(1) i(1)] i list_all2_lengthD [OF assms(1)] by auto
    have "terms ! i = (tag, snd (terms ! i))" using c by (cases "terms ! i") (simp add: term_coded_def)
    then show ?thesis using c l nth_mem [OF l] by (intro exI [of _ "snd (terms ! i)"]) simp
  qed
  show "tag \<notin> fst ` set terms" if "map_of kvs tag = None"
    using that keys by (metis list.set_map map_of_eq_None_iff)
qed

lemma sealed_ok:
  assumes "fst_ok F" and "tail_inv t evs" and "names_ok evs" and "length evs \<le> U32_MAX"
    and "index_size F t \<le> U32_MAX" and "now \<le> U64_MAX" and "at_base t \<le> U64_MAX"
  obtains b sg where "encode_at crc F t now = Some b" and "IndexSegment_from_bytes crc F b = Inr sg"
    and "seg_rep (F, sg) evs" and "ih_base_position (is_header sg) = at_base t"
proof -
  obtain dict kvs region fb m where p: "encode_type_dict (tail_type_names t) = Some dict"
    "parse_type_dict dict = Inr (tail_type_names t)"
    "encode_terms (terms_sorted_with_postings t) [] = (kvs, region)" "fst_build F kvs = Some fb"
    "fst_open F fb = Some m" "fst_get F m = map_of kvs"
    "list_all2 (term_coded region) (terms_sorted_with_postings t) kvs"
    "index_size F t = 64 + 2 * length evs + length dict + length region + length fb"
    using index_parts [OF assms(1-5)] by blast
  have ty: "cv_inv 0 (type_column t)" "interner_ok (at_types t)" "length (at_types t) \<le> U16_MAX + 1"
    "list_all2 (\<lambda>k ty. map_of (at_types t) ty = Some k) (cv_abs (type_column t)) (map fst evs)"
    using assms(2) by (auto simp: tail_inv_def types_ok_def)
  define col where "col = concat (map (le_bytes 2) (cv_abs (type_column t)))"
  define n where "n = length evs"
  have len: "length (cv_abs (type_column t)) = n" using list_all2_lengthD [OF ty(4)] by (simp add: n_def)
  have clen: "length col = 2 * n"
    using length_concat_le_bytes [of 2 "\<lambda>x. x" "cv_abs (type_column t)"] len by (simp add: comp_def col_def)
  define body where "body = col @ dict @ region @ fb"
  define h where "h = \<lparr>ih_version = IX_VERSION, ih_created_at_nanos = now, ih_base_position = at_base t, ih_event_count = n,
     typedict_off = 64 + 2 * n, postings_off = 64 + 2 * n + length dict,
     fst_off = 64 + 2 * n + length dict + length region, fst_len = length fb, body_crc = crc body\<rparr>"
  define b where "b = IndexSegmentHeader_to_bytes crc h @ body"
  define sg where "sg = \<lparr>is_header = h, is_data = b, is_map = m, type_names = tail_type_names t\<rparr>"
  have fits: "64 + 2 * n + length dict + length region + length fb \<le> U32_MAX" using p(8) assms(5) by (simp add: n_def)
  have enc: "encode_at crc F t now = Some b"
    using fits p(1,3,4) tail_inv_len [OF assms(2)] unfolding b_def h_def body_def col_def
    by (simp add: encode_at_def tail_type_column_ok [OF ty(1)] clen [unfolded col_def] fit_u32_def
        INDEX_HEADER_SIZE_def Let_def n_def)
  have wf: "wf_IndexSegmentHeader h"
    using fits assms(6,7) by (simp add: wf_IndexSegmentHeader_def INDEX_HEADER_SIZE_def h_def)
  have hd: "IndexSegmentHeader_from_bytes crc (take 64 b) = Inr h" and body: "drop 64 b = body"
    using ix_header_dec_enc [OF wf, of crc] by (simp_all add: b_def)
  have slice: "bslice (64 + x) (64 + y) b = bslice x y body" for x y by (simp add: bslice_def b_def)
  have regs: "region_of (type_dict_range h) b = dict" "region_of (postings_range h) b = region" "region_of (fst_range h) b = fb"
    using clen slice [of "2 * n" "2 * n + length dict"]
      slice [of "2 * n + length dict" "2 * n + length dict + length region"]
      slice [of "2 * n + length dict + length region" "2 * n + length dict + length region + length fb"]
    by (simp_all add: region_of_def type_dict_range_def postings_range_def fst_range_def h_def body_def bslice_def add.assoc)
  have slen: "segment_len h = length b" by (simp add: segment_len_def b_def body_def clen h_def)
  have "body_crc h = crc body" "64 \<le> length b" by (simp_all add: h_def b_def)
  then have dec: "IndexSegment_from_bytes crc F b = Inr sg"
    using hd regs slen body p(2,5)
    by (simp add: IndexSegment_from_bytes_def INDEX_HEADER_SIZE_def sg_def Let_def)
  have kb: "cv_abs (type_column t) ! i < length (at_types t)" if "i < n" for i
    using list_all2_nthD [OF ty(4), of i] that len interner_bound [OF ty(2)] by (simp add: n_def)
  have at: "seg_type_at sg i = cv_abs (type_column t) ! i" if "i < n" for i
  proof -
    have "\<forall>k \<in> set (cv_abs (type_column t)). k < 65536" using kb ty(3) len by (fastforce simp: in_set_conv_nth)
    from read_u16_table [OF _ this, of i "dict @ region @ fb"]
    have "read_u16 body (2 * i) = cv_abs (type_column t) ! i" using that len by (simp add: body_def col_def)
    then show ?thesis
      using slice [of "2 * i" "2 * i + 2"]
      by (simp add: seg_type_at_def sg_def type_column_range_def INDEX_HEADER_SIZE_def read_u16_def Let_def mult.commute add.assoc)
  qed
  have "tail_type_names t ! (cv_abs (type_column t) ! i) = fst (evs ! i)" if "i < n" for i
    using list_all2_nthD [OF ty(4), of i] that len type_names_nth [OF ty(2) kb [OF that]] interner_inj [OF ty(2)]
    by (simp add: n_def)
  then have types: "\<forall>i < length evs. seg_type_at sg i < length (type_names sg) \<and>
        type_names sg ! seg_type_at sg i = fst (evs ! i)"
    using at kb by (simp add: n_def sg_def)
  have strict: "sorted_wrt (<) (map fst (terms_sorted_with_postings t))" by (rule terms_ok [OF assms(2)])
  then have dist: "distinct (map fst (terms_sorted_with_postings t))" by (simp add: strict_sorted_iff)
  note look = term_coded_lookup [OF p(7) dist]
  have pr: "postings_region sg = region" by (simp add: postings_region_def sg_def regs)
  have "decode_postings v region = Inr (tag_postings evs tag) \<and> posting_len v region = Inr (length (tag_postings evs tag))"
    if get: "map_of kvs tag = Some v" for tag v
  proof -
    from look(1) [OF get] obtain ps where ps: "(tag, ps) \<in> set (terms_sorted_with_postings t)" "term_coded region (tag, ps) (tag, v)" by blast
    have "ps = tag_postings evs tag" using ps(1) terms_ok(2) [OF assms(2)] by auto
    then show ?thesis using ps(2) by (auto simp: term_coded_def dest: spec [of _ "[]"])
  qed
  moreover have "\<forall>ev \<in> set evs. tag \<notin> set (snd ev)" if "map_of kvs tag = None" for tag
    using look(2) [OF that] unfolding terms_keys [OF assms(2)] by blast
  ultimately have "seg_rep (F, sg) evs"
    unfolding seg_rep_def case_prod_conv pr
    using types assms(4) distinct_type_names [OF ty(2)] ty(3) p(6) by (auto simp: sg_def h_def n_def)
  then show thesis using that [OF enc dec] by (simp add: sg_def h_def)
qed

subsection \<open>A concrete term dictionary\<close>

text \<open>Pairs laid out one after the other; strictly ascending keys only.\<close>
fun demo_build :: "(str \<times> nat) list \<Rightarrow> bytes" where
  "demo_build [] = []"
| "demo_build ((k, v) # kvs) = le_bytes 2 (length k) @ k @ le_bytes 8 v @ demo_build kvs"

function demo_open :: "bytes \<Rightarrow> (str \<times> nat) list option" where
  "demo_open b =
     (if b = [] then Some []
      else
        let n = of_le (take 2 b)
        in if length b < 10 + n then None
           else map_option (\<lambda>kvs. (take n (drop 2 b), of_le (take 8 (drop (2 + n) b))) # kvs) (demo_open (drop (10 + n) b)))"
  by pat_completeness auto
termination by (relation "measure length") auto

declare demo_open.simps [simp del]

definition fst_demo :: "(str \<times> nat) list fst_crate" where
  "fst_demo = \<lparr>fst_build = (\<lambda>kvs. if sorted_wrt (<) (map fst kvs) then Some (demo_build kvs) else None),
               fst_open = demo_open, fst_get = map_of\<rparr>"

lemma fst_demo_ok: "fst_ok fst_demo"
proof -
  have "demo_open (demo_build kvs) = Some kvs" if "\<forall>(k, v) \<in> set kvs. length k \<le> U16_MAX \<and> v \<le> U64_MAX" for kvs
    using that
  proof (induction kvs)
    case Nil
    then show ?case by (simp add: demo_open.simps)
  next
    case (Cons kv kvs)
    obtain k v where kv: "kv = (k, v)" by fastforce
    have IH: "demo_open (demo_build kvs) = Some kvs" using Cons by simp
    have "of_le (take 2 (demo_build (kv # kvs))) = length k" using Cons.prems by (simp add: kv)
    then show ?case
      using Cons.prems IH by (subst demo_open.simps) (simp add: kv Let_def flip: length_0_conv)
  qed
  then show ?thesis by (simp add: fst_ok_def fst_demo_def)
qed

subsection \<open>Properties\<close>

text \<open>The terms a tail seals are determined by the events it indexes.\<close>
lemma terms_unique:
  assumes "tail_inv t evs" and "sorted_wrt (<) ks" and "set ks = (\<Union>ev \<in> set evs. set (snd ev))"
  shows "terms_sorted_with_postings t = map (\<lambda>tag. (tag, tag_postings evs tag)) ks"
proof -
  let ?l = "terms_sorted_with_postings t"
  have "map fst ?l = ks"
    using strict_sorted_equal [OF terms_ok(1) [OF assms(1)] assms(2)] terms_keys [OF assms(1)] assms(3) by simp
  moreover have "x = (fst x, tag_postings evs (fst x))" if "x \<in> set ?l" for x
    using that unfolding terms_ok(2) [OF assms(1)] by auto
  then have "?l = map (\<lambda>tag. (tag, tag_postings evs tag)) (map fst ?l)"
    by (simp add: map_idI)
  ultimately show ?thesis by simp
qed

text \<open>
  C30. A sealed index segment survives its trip through the file and answers exactly: for every term
  dictionary that keeps its contract and every tail fed from well-formed events, whose encoding fits the
  32-bit offsets, \<open>encode_at\<close> succeeds, \<open>from_bytes\<close> accepts the bytes, the header names the segment's base
  and count, and search over the opened segment returns the matching positions in both directions.
\<close>
theorem sealed_search_exact:
  assumes "fst_ok F" and "wf_Query q" and "\<forall>e \<in> set es. wf_Event e"
    and "push_events es (ActiveTail_new base) = Some t" and "length es \<le> U32_MAX" and "index_size F t \<le> U32_MAX"
    and "now \<le> U64_MAX" and "base \<le> U64_MAX"
  shows "\<exists>b sg. encode_at crc F t now = Some b \<and> IndexSegment_from_bytes crc F b = Inr sg \<and>
     ih_base_position (is_header sg) = base \<and> ih_event_count (is_header sg) = length es \<and>
     search (seg_index F sg) q aft =
       Inr (filter (\<lambda>p. aft < p \<and> Query_matches q (es ! (p - base))) [base..<base + length es]) \<and>
     search_back (seg_index F sg) q bef =
       Inr (rev (filter (\<lambda>p. p < bef \<and> Query_matches q (es ! (p - base))) [base..<base + length es]))"
proof -
  have t: "tail_inv t (map parts_of es)" "at_base t = base"
    using push_events_ok [OF tail_new_inv assms(3,4)] by (auto simp: tail_grows_def ActiveTail_new_def)
  obtain b sg where b: "encode_at crc F t now = Some b" "IndexSegment_from_bytes crc F b = Inr sg"
    "seg_rep (F, sg) (map parts_of es)" "ih_base_position (is_header sg) = base"
    using sealed_ok [OF assms(1) t(1) names_ok_events [OF assms(3)] _ assms(6,7), of crc] assms(5,8) t(2) by auto
  have base: "ix_base (seg_index F sg) = base" by (simp add: seg_index_def b(4))
  have "ih_event_count (is_header sg) = length es" using b(3) by (simp add: seg_rep_def)
  then show ?thesis
    using b(1,2,4) seg.search_exact [OF b(3), of q] matching_positions [OF assms(2,3) order_refl, of base] base
    by (simp add: conj_commute)
qed

theorem sealed_search_exact_witness:
  "\<exists>t b sg. push_events [demo_event 0x41 0x61, demo_event 0x42 0x62] (ActiveTail_new 5) = Some t \<and>
     encode_at crc_demo fst_demo t 9 = Some b \<and> IndexSegment_from_bytes crc_demo fst_demo b = Inr sg \<and>
     search (seg_index fst_demo sg) (Items [\<lparr>types = [], tags = [Tag [0x62]]\<rparr>]) 0 = Inr [6]"
proof -
  let ?es = "[demo_event 0x41 0x61, demo_event 0x42 0x62]" and ?evs = "[([0x41], [[0x61]]), ([0x42], [[0x62 :: byte]])]"
  let ?q = "Items [\<lparr>types = [], tags = [Tag [0x62]]\<rparr>]"
  have wf: "\<forall>e \<in> set ?es. wf_Event e" using demo_events_wf by simp
  have "card (event_type ` set ?es) \<le> length ?es" by (rule card_event_types)
  then obtain t where t: "push_events ?es (ActiveTail_new 5) = Some t"
    using push_events_total [OF tail_new_inv wf, of 5] by auto
  have "map parts_of ?es = ?evs" by code_simp
  then have inv: "tail_inv t ?evs" using push_events_ok [OF tail_new_inv wf t] by simp
  have "terms_sorted_with_postings t = map (\<lambda>tag. (tag, tag_postings ?evs tag)) [[0x61], [0x62]]"
    by (rule terms_unique [OF inv]) (simp_all add: insert_commute)
  also have "\<dots> = [([0x61], [0]), ([0x62], [1])]" by code_simp
  finally have terms: "terms_sorted_with_postings t = [([0x61], [0]), ([0x62], [1])]" .
  have enc: "encode_terms [([0x61], [0]), ([0x62], [1])] [] = ([([0x61], 0), ([0x62], 1)], [])" by code_simp
  have fb: "fst_build fst_demo [([0x61], 0), ([0x62], 1)] = Some (demo_build [([0x61], 0), ([0x62], 1)])"
    by (simp add: fst_demo_def)
  have "length n = 1" if "n \<in> set (tail_type_names t)" for n using names_from_events [OF inv that] by auto
  then have "sum_list (map (\<lambda>n. 2 + length n) (tail_type_names t)) = 3 * length (at_types t)"
    by (simp add: sum_list_triv cong: map_cong)
  also have "length (at_types t) \<le> 2" using tail_inv_types_card [OF inv] by (simp add: card_insert_if)
  finally have "index_size fst_demo t \<le> U32_MAX"
    unfolding index_size_def terms enc case_prod_conv fb using tail_inv_len [OF inv] by (simp add: INDEX_HEADER_SIZE_def)
  moreover have "wf_Query ?q" by code_simp
  moreover have "filter (\<lambda>p. 0 < p \<and> Query_matches ?q (?es ! (p - 5))) [5..<5 + length ?es] = [6]" by code_simp
  ultimately show ?thesis
    using sealed_search_exact [OF fst_demo_ok _ wf t, of ?q 9 crc_demo 0 0] t by auto
qed

end
