(* ===== verification/IndexSet.thy ===== *)
theory IndexSet
  imports Scan IndexSegment
begin

text \<open>
  The index set (\<open>crates/tephra/src/index/set.rs\<close>): one sealed index per sealed log segment and the tail over
  the active one; opening with validation and rebuild, feeding, sealing on rollover, and the two queries the
  writer asks.

  The directory \<open>index/\<close> is a map from file names to what reading them gives (\<open>FileRead\<close>); a write that fails
  leaves what \<open>fs_write_fault\<close> says in the file, so a torn write is any content. Creating the directory and
  syncing it are not modelled. The clock is the argument \<open>now\<close>. A panic (a just-encoded segment that does not
  validate, feeding out of order, a decoding failure in a trusted segment) is \<open>IndexPanic\<close> or \<open>None\<close>.
\<close>

subsection \<open>Files\<close>

datatype FileRead = Missing | Unreadable | Content bytes

record IndexFs =
  fs_files :: "string \<Rightarrow> FileRead"
  fs_write_fault :: "string \<Rightarrow> FileRead option"

definition write_segment_file :: "string \<Rightarrow> bytes \<Rightarrow> IndexFs \<Rightarrow> bool \<times> IndexFs" where
  "write_segment_file path b fs =
     (case fs_write_fault fs path of
        None \<Rightarrow> (True, fs\<lparr>fs_files := (fs_files fs)(path := Content b)\<rparr>)
      | Some left \<Rightarrow> (False, fs\<lparr>fs_files := (fs_files fs)(path := left)\<rparr>))"

definition index_file_name :: "Position \<Rightarrow> string" where
  "index_file_name base =
     (let d = decimal base in replicate (NAME_DIGITS - length d) (digit_char 0) @ d @ ''.idx'')"

subsection \<open>The set\<close>

datatype IndexError =
    IndexIo string
  | IndexLog LogError
  | IndexCorrupt DecodeError
  | Unindexable Position Position
  | IndexPanic

record 'm SealedIndex =
  six_base :: Position
  six_count :: nat
  six_seg :: "'m IndexSegment option"

record 'm IndexSet =
  ix_fs :: IndexFs
  ix_sealed :: "'m SealedIndex list"
  ix_active :: ActiveTail
  active_base :: Position
  active_span :: nat
  active_unindexable :: bool

definition six_max_position :: "'m SealedIndex \<Rightarrow> nat option" where
  "six_max_position s = (if six_count s > 0 then Some (six_base s + six_count s - 1) else None)"

definition load_valid ::
  "crc_fun \<Rightarrow> 'm fst_crate \<Rightarrow> IndexFs \<Rightarrow> string \<Rightarrow> Position \<Rightarrow> nat \<Rightarrow> IndexError + 'm IndexSegment option" where
  "load_valid crc F fs path base cnt =
     (case fs_files fs path of
        Missing \<Rightarrow> Inr None
      | Unreadable \<Rightarrow> Inl (IndexIo path)
      | Content b \<Rightarrow>
          (case IndexSegment_from_bytes crc F b of
             Inl _ \<Rightarrow> Inr None
           | Inr sg \<Rightarrow>
               if ih_base_position (is_header sg) = base \<and> ih_event_count (is_header sg) = cnt
               then Inr (Some sg) else Inr None))"

text \<open>The loop of \<open>rebuild_range\<close>, with the number of records still to read.\<close>
fun rebuild_loop :: "crc_fun \<Rightarrow> nat \<Rightarrow> Scan \<Rightarrow> Rebuilder \<Rightarrow> IndexError + Rebuilder" where
  "rebuild_loop crc 0 sc b = Inr b"
| "rebuild_loop crc (Suc n) sc b =
     (case scan_next crc sc of
        (None, _) \<Rightarrow> Inr b
      | (Some (Inl e), _) \<Rightarrow> Inl (IndexLog e)
      | (Some (Inr r), sc) \<Rightarrow>
          (case EventRef_from_bytes (rdata r) of
             Inl e \<Rightarrow> Inl (IndexCorrupt e)
           | Inr ev \<Rightarrow>
               (case Rebuilder_feed (position r) ev b of
                  None \<Rightarrow> Inl IndexPanic
                | Some b \<Rightarrow> rebuild_loop crc n sc b)))"

definition rebuild_range :: "crc_fun \<Rightarrow> SegmentSet \<Rightarrow> Position \<Rightarrow> nat \<Rightarrow> IndexError + Rebuilder" where
  "rebuild_range crc S base cnt = rebuild_loop crc cnt (scan_from S base) (Rebuilder_new base)"

definition build_and_seal ::
  "crc_fun \<Rightarrow> 'm fst_crate \<Rightarrow> nat \<Rightarrow> SegmentSet \<Rightarrow> IndexFs \<Rightarrow> Position \<Rightarrow> nat
     \<Rightarrow> (IndexError + 'm SealedIndex) \<times> IndexFs" where
  "build_and_seal crc F now S fs base cnt =
     (case rebuild_range crc S base cnt of
        Inl e \<Rightarrow> (Inl e, fs)
      | Inr rb \<Rightarrow>
          if rb_unindexable rb then (Inr \<lparr>six_base = base, six_count = cnt, six_seg = None\<rparr>, fs)
          else case encode_at crc F (rb_index rb) now of
            None \<Rightarrow> (Inl IndexPanic, fs)
          | Some b \<Rightarrow>
              (case write_segment_file (index_file_name base) b fs of
                 (_, fs) \<Rightarrow>
                   (case IndexSegment_from_bytes crc F b of
                      Inl _ \<Rightarrow> (Inl IndexPanic, fs)
                    | Inr sg \<Rightarrow> (Inr \<lparr>six_base = base, six_count = cnt, six_seg = Some sg\<rparr>, fs))))"

text \<open>The sealed log segments as pairs of base and count.\<close>
definition sealed_segments :: "SegmentSet \<Rightarrow> (Position \<times> nat) list" where
  "sealed_segments S = map (\<lambda>seg. (seg_base seg, event_count seg)) (sealed S)"

fun open_sealed_indexes ::
  "crc_fun \<Rightarrow> 'm fst_crate \<Rightarrow> nat \<Rightarrow> SegmentSet \<Rightarrow> (Position \<times> nat) list \<Rightarrow> IndexFs
     \<Rightarrow> (IndexError + 'm SealedIndex list) \<times> IndexFs" where
  "open_sealed_indexes crc F now S [] fs = (Inr [], fs)"
| "open_sealed_indexes crc F now S ((base, cnt) # rest) fs =
     (case (case load_valid crc F fs (index_file_name base) base cnt of
              Inl e \<Rightarrow> (Inl e, fs)
            | Inr (Some sg) \<Rightarrow> (Inr \<lparr>six_base = base, six_count = cnt, six_seg = Some sg\<rparr>, fs)
            | Inr None \<Rightarrow> build_and_seal crc F now S fs base cnt) of
        (Inl e, fs) \<Rightarrow> (Inl e, fs)
      | (Inr entry, fs) \<Rightarrow>
          (case open_sealed_indexes crc F now S rest fs of
             (Inl e, fs) \<Rightarrow> (Inl e, fs)
           | (Inr entries, fs) \<Rightarrow> (Inr (entry # entries), fs)))"

definition IndexSet_open ::
  "crc_fun \<Rightarrow> 'm fst_crate \<Rightarrow> nat \<Rightarrow> SegmentSet \<Rightarrow> IndexFs \<Rightarrow> IndexError + 'm IndexSet" where
  "IndexSet_open crc F now S fs =
     (case open_sealed_indexes crc F now S (sealed_segments S) fs of
        (Inl e, _) \<Rightarrow> Inl e
      | (Inr entries, fs) \<Rightarrow>
          let base = seg_base (active S); cnt = next_position S - base
          in case rebuild_range crc S base cnt of
               Inl e \<Rightarrow> Inl e
             | Inr rb \<Rightarrow>
                 Inr \<lparr>ix_fs = fs, ix_sealed = entries, ix_active = rb_index rb, active_base = base,
                      active_span = rb_count rb, active_unindexable = rb_unindexable rb\<rparr>)"

text \<open>\<open>push\<close>; \<open>None\<close> is the panic of feeding out of order.\<close>
definition IndexSet_push :: "Position \<Rightarrow> Event \<Rightarrow> 'm IndexSet \<Rightarrow> 'm IndexSet option" where
  "IndexSet_push pos e ix =
     (let ix = ix\<lparr>active_span := active_span ix + 1\<rparr>
      in if active_unindexable ix then Some ix
         else case tail_push pos e (ix_active ix) of
           (Inr _, t) \<Rightarrow> Some (ix\<lparr>ix_active := t\<rparr>)
         | (Inl (TooManyTypes _), t) \<Rightarrow>
             Some (ix\<lparr>active_unindexable := True, ix_active := mark_unindexable t\<rparr>)
         | (Inl TailPanic, _) \<Rightarrow> None)"

text \<open>The index over the active segment once sealed, and the files after writing it.\<close>
definition seal_tail :: "crc_fun \<Rightarrow> 'm fst_crate \<Rightarrow> nat \<Rightarrow> 'm IndexSet \<Rightarrow> ('m IndexSegment option \<times> IndexFs) option" where
  "seal_tail crc F now ix =
     (if active_unindexable ix then Some (None, ix_fs ix)
      else case encode_at crc F (ix_active ix) now of
        None \<Rightarrow> None
      | Some b \<Rightarrow>
          (case IndexSegment_from_bytes crc F b of
             Inl _ \<Rightarrow> None
           | Inr sg \<Rightarrow>
               Some (Some sg, snd (write_segment_file (index_file_name (active_base ix)) b (ix_fs ix)))))"

definition seal_active :: "crc_fun \<Rightarrow> 'm fst_crate \<Rightarrow> nat \<Rightarrow> Position \<Rightarrow> 'm IndexSet \<Rightarrow> 'm IndexSet option" where
  "seal_active crc F now new_base ix =
     map_option (\<lambda>(sg, fs).
       \<lparr>ix_fs = fs,
        ix_sealed = ix_sealed ix @ [\<lparr>six_base = active_base ix, six_count = active_span ix, six_seg = sg\<rparr>],
        ix_active = ActiveTail_new new_base, active_base = new_base, active_span = 0, active_unindexable = False\<rparr>)
       (seal_tail crc F now ix)"

subsection \<open>Queries\<close>

datatype 'm Touched = TouchedSeg "'m IndexSegment" | TouchedActive ActiveTail

fun plan_sealed :: "Position \<Rightarrow> 'm SealedIndex list \<Rightarrow> IndexError + 'm Touched list" where
  "plan_sealed aft [] = Inr []"
| "plan_sealed aft (entry # entries) =
     (case six_max_position entry of
        None \<Rightarrow> plan_sealed aft entries
      | Some mx \<Rightarrow>
          if mx \<le> aft then plan_sealed aft entries
          else (case six_seg entry of
                  None \<Rightarrow> Inl (Unindexable (six_base entry) mx)
                | Some sg \<Rightarrow>
                    (case plan_sealed aft entries of Inl e \<Rightarrow> Inl e | Inr plan \<Rightarrow> Inr (TouchedSeg sg # plan))))"

definition plan_touched :: "'m IndexSet \<Rightarrow> Position \<Rightarrow> IndexError + 'm Touched list" where
  "plan_touched ix aft =
     (case plan_sealed aft (ix_sealed ix) of
        Inl e \<Rightarrow> Inl e
      | Inr plan \<Rightarrow>
          if active_span ix > 0
          then
            let mx = active_base ix + active_span ix - 1
            in if mx > aft
               then (if active_unindexable ix then Inl (Unindexable (active_base ix) mx)
                     else Inr (plan @ [TouchedActive (ix_active ix)]))
               else Inr plan
          else Inr plan)"

definition search_touched :: "'m fst_crate \<Rightarrow> Query \<Rightarrow> Position \<Rightarrow> 'm Touched \<Rightarrow> IndexError + Position list" where
  "search_touched F q aft touched =
     (case search (case touched of TouchedSeg sg \<Rightarrow> seg_index F sg | TouchedActive t \<Rightarrow> view_index t (view_full t)) q aft of
        Inl _ \<Rightarrow> Inl IndexPanic
      | Inr ps \<Rightarrow> Inr ps)"

fun search_plan :: "'m fst_crate \<Rightarrow> Query \<Rightarrow> Position \<Rightarrow> 'm Touched list \<Rightarrow> IndexError + Position list" where
  "search_plan F q aft [] = Inr []"
| "search_plan F q aft (t # ts) =
     (case search_touched F q aft t of
        Inl e \<Rightarrow> Inl e
      | Inr ps \<Rightarrow> (case search_plan F q aft ts of Inl e \<Rightarrow> Inl e | Inr rest \<Rightarrow> Inr (ps @ rest)))"

definition search_all :: "'m fst_crate \<Rightarrow> 'm IndexSet \<Rightarrow> Query \<Rightarrow> Position \<Rightarrow> IndexError + Position list" where
  "search_all F ix q aft =
     (case plan_touched ix aft of Inl e \<Rightarrow> Inl e | Inr plan \<Rightarrow> search_plan F q aft plan)"

fun find_in_plan :: "'m fst_crate \<Rightarrow> Query \<Rightarrow> Position \<Rightarrow> 'm Touched list \<Rightarrow> IndexError + Position option" where
  "find_in_plan F q aft [] = Inr None"
| "find_in_plan F q aft (t # ts) =
     (case search_touched F q aft t of
        Inl e \<Rightarrow> Inl e
      | Inr [] \<Rightarrow> find_in_plan F q aft ts
      | Inr (p # _) \<Rightarrow> Inr (Some p))"

definition find_match :: "'m fst_crate \<Rightarrow> 'm IndexSet \<Rightarrow> Query \<Rightarrow> Position \<Rightarrow> IndexError + Position option" where
  "find_match F ix q aft =
     (case plan_touched ix aft of Inl e \<Rightarrow> Inl e | Inr plan \<Rightarrow> find_in_plan F q aft plan)"

subsection \<open>What an index set represents\<close>

text \<open>The events of a range of positions; position \<open>p\<close> holds event number \<open>p - 1\<close>.\<close>
definition range_events :: "Event list \<Rightarrow> Position \<Rightarrow> nat \<Rightarrow> Event list" where
  "range_events es base n = take n (drop (base - 1) es)"

definition entry_ok :: "'m fst_crate \<Rightarrow> Event list \<Rightarrow> 'm SealedIndex \<Rightarrow> bool" where
  "entry_ok F es s \<longleftrightarrow>
     (case six_seg s of
        None \<Rightarrow> True
      | Some sg \<Rightarrow> ih_base_position (is_header sg) = six_base s \<and>
                  seg_rep (F, sg) (map parts_of (range_events es (six_base s) (six_count s))))"

fun index_tiles :: "Position \<Rightarrow> 'm SealedIndex list \<Rightarrow> Position \<Rightarrow> bool" where
  "index_tiles b [] e \<longleftrightarrow> b = e"
| "index_tiles b (s # ss) e \<longleftrightarrow> six_base s = b \<and> index_tiles (b + six_count s) ss e"

text \<open>The set covers the log's events: sealed ranges tile the positions, the tail holds the rest.\<close>
definition index_inv :: "'m fst_crate \<Rightarrow> 'm IndexSet \<Rightarrow> Event list \<Rightarrow> bool" where
  "index_inv F ix es \<longleftrightarrow>
     index_tiles 1 (ix_sealed ix) (active_base ix) \<and> (\<forall>s \<in> set (ix_sealed ix). entry_ok F es s) \<and>
     active_base ix + active_span ix = length es + 1 \<and> at_base (ix_active ix) = active_base ix \<and>
     (\<not> active_unindexable ix \<longrightarrow> tail_inv (ix_active ix) (map parts_of (drop (active_base ix - 1) es)))"

text \<open>Some range the query would touch has no index.\<close>
definition degraded :: "'m IndexSet \<Rightarrow> Position \<Rightarrow> bool" where
  "degraded ix aft \<longleftrightarrow>
     (\<exists>s \<in> set (ix_sealed ix). six_seg s = None \<and> six_count s > 0 \<and> aft < six_base s + six_count s - 1) \<or>
     (active_unindexable ix \<and> active_span ix > 0 \<and> aft < active_base ix + active_span ix - 1)"

definition matches_after :: "Query \<Rightarrow> Event list \<Rightarrow> Position \<Rightarrow> Position \<Rightarrow> bool" where
  "matches_after q es aft p \<longleftrightarrow> aft < p \<and> Query_matches q (es ! (p - 1))"

lemma index_tiles_le: "index_tiles b ss e \<Longrightarrow> b \<le> e"
  by (induction ss arbitrary: b) fastforce+

lemma index_tiles_range:
  "\<lbrakk>index_tiles b ss e; s \<in> set ss\<rbrakk> \<Longrightarrow> b \<le> six_base s \<and> six_base s + six_count s \<le> e"
proof (induction ss arbitrary: b)
  case (Cons a ss)
  then show ?case using index_tiles_le [of "b + six_count a" ss e] by fastforce
qed simp

lemma index_tiles_snoc: "index_tiles b (ss @ [s]) e \<longleftrightarrow> index_tiles b ss (six_base s) \<and> e = six_base s + six_count s"
  by (induction ss arbitrary: b) auto

lemma range_matches:
  assumes "wf_Query q" and "\<forall>e \<in> set es. wf_Event e" and "1 \<le> base" and "base - 1 + n \<le> length es"
  shows "filter (\<lambda>g. aft < g) (map (\<lambda>i. base + i) (matching q (map parts_of (range_events es base n)))) =
         filter (matches_after q es aft) [base..<base + n]"
proof -
  let ?r = "range_events es base n"
  have len: "length ?r = n" using assms(4) by (simp add: range_events_def)
  have "set ?r \<subseteq> set es" unfolding range_events_def by (meson set_drop_subset set_take_subset subset_trans)
  then have wf: "\<forall>e \<in> set ?r. wf_Event e" using assms(2) by blast
  have m: "map (\<lambda>i. base + i) (matching q (map parts_of ?r)) =
      filter (\<lambda>p. Query_matches q (?r ! (p - base))) [base..<base + n]"
    using matching_positions [OF assms(1) wf order_refl, of base] len by simp
  have "?r ! (p - base) = es ! (p - 1)" if "p \<in> set [base..<base + n]" for p
  proof -
    have "p - base < n" "base - 1 \<le> length es" "base - 1 + (p - base) = p - 1" using that assms(3,4) by auto
    then show ?thesis by (simp add: range_events_def)
  qed
  then show ?thesis
    unfolding m filter_filter by (intro filter_cong) (auto simp: matches_after_def)
qed

lemma search_sealed:
  assumes "wf_Query q" and "\<forall>e \<in> set es. wf_Event e" and "entry_ok F es s" and "six_seg s = Some sg"
    and "1 \<le> six_base s" and "six_base s - 1 + six_count s \<le> length es"
  shows "search_touched F q aft (TouchedSeg sg) =
         Inr (filter (matches_after q es aft) [six_base s..<six_base s + six_count s])"
proof -
  have rep: "seg_rep (F, sg) (map parts_of (range_events es (six_base s) (six_count s)))"
    and base: "ix_base (seg_index F sg) = six_base s"
    using assms(3,4) by (simp_all add: entry_ok_def seg_index_def)
  show ?thesis
    using seg.search_exact(1) [OF rep, of q aft] base range_matches [OF assms(1,2,5,6), of aft]
    by (simp add: search_touched_def)
qed

lemma search_active:
  assumes "wf_Query q" and "\<forall>e \<in> set es. wf_Event e" and "tail_inv t (map parts_of (drop (at_base t - 1) es))"
    and "1 \<le> at_base t" and "at_base t \<le> length es + 1"
  shows "search_touched F q aft (TouchedActive t) =
         Inr (filter (matches_after q es aft) [at_base t..<length es + 1])"
proof -
  let ?n = "length es + 1 - at_base t"
  have r: "range_events es (at_base t) ?n = drop (at_base t - 1) es" using assms(4) by (simp add: range_events_def)
  have l: "length (drop (at_base t - 1) es) = ?n" using assms(4) by simp
  have rep: "view_rep (t, view_full t) (take ?n (map parts_of (drop (at_base t - 1) es)))"
    using view_rep_later(1) [OF assms(3), of t "[]" ?n] assms(3) tail_inv_len [OF assms(3)] l by (simp add: view_full_def)
  have "ix_base (view_index t (view_full t)) = at_base t" by (simp add: view_index_def view_full_def make_view_def)
  then show ?thesis
    using view.search_exact(1) [OF rep, of q aft] range_matches [OF assms(1,2,4), of ?n aft] assms(4,5) r l
    by (simp add: search_touched_def)
qed

lemma filter_after_empty: "e \<le> aft + 1 \<Longrightarrow> filter (matches_after q es aft) [b..<e] = []"
  by (auto simp: filter_empty_conv matches_after_def)

lemma plan_sealed_ok:
  assumes "wf_Query q" and "\<forall>e \<in> set es. wf_Event e" and "\<forall>s \<in> set ss. entry_ok F es s"
    and "index_tiles b ss e" and "1 \<le> b" and "e \<le> length es + 1"
  shows "if \<exists>s \<in> set ss. six_seg s = None \<and> six_count s > 0 \<and> aft < six_base s + six_count s - 1
         then \<exists>f l. plan_sealed aft ss = Inl (Unindexable f l)
         else \<exists>plan. plan_sealed aft ss = Inr plan \<and>
                search_plan F q aft plan = Inr (filter (matches_after q es aft) [b..<e])"
  using assms(3-5)
proof (induction ss arbitrary: b)
  case (Cons s ss)
  have t: "six_base s = b" "index_tiles (b + six_count s) ss e" using Cons.prems(2) by auto
  have le: "b + six_count s \<le> e" by (rule index_tiles_le [OF t(2)])
  note IH = Cons.IH [OF _ t(2)]
  have split: "[b..<e] = [b..<b + six_count s] @ [b + six_count s..<e]"
    using upt_add_eq_append [of b "b + six_count s" "e - (b + six_count s)"] le by simp
  show ?case
  proof (cases "six_count s = 0 \<or> six_base s + six_count s - 1 \<le> aft")
    case True
    then have "plan_sealed aft (s # ss) = plan_sealed aft ss" by (auto simp: six_max_position_def)
    moreover have "filter (matches_after q es aft) [b..<b + six_count s] = []"
      using True t(1) by (cases "six_count s = 0") (auto intro!: filter_after_empty)
    ultimately show ?thesis using IH Cons.prems True split by (auto split: if_splits)
  next
    case False
    show ?thesis
    proof (cases "six_seg s")
      case None
      then show ?thesis using False by (auto simp: six_max_position_def)
    next
      case (Some sg)
      have "search_touched F q aft (TouchedSeg sg) = Inr (filter (matches_after q es aft) [b..<b + six_count s])"
        using search_sealed [OF assms(1,2) _ Some, of F aft] Cons.prems t(1) le assms(6) by auto
      then show ?thesis using IH Cons.prems False Some split by (auto simp: six_max_position_def split: if_splits)
    qed
  qed
qed simp

lemma search_plan_append:
  "search_plan F q aft (p1 @ p2) =
     (case search_plan F q aft p1 of Inl e \<Rightarrow> Inl e
      | Inr xs \<Rightarrow> (case search_plan F q aft p2 of Inl e \<Rightarrow> Inl e | Inr ys \<Rightarrow> Inr (xs @ ys)))"
  by (induction p1) (auto split: sum.splits)

lemma find_in_plan_hd:
  "search_plan F q aft plan = Inr ps \<Longrightarrow>
   find_in_plan F q aft plan = Inr (case ps of [] \<Rightarrow> None | p # _ \<Rightarrow> Some p)"
  by (induction plan arbitrary: ps) (auto split: sum.splits list.splits)

lemma find_filter: "List.find P xs = (case filter P xs of [] \<Rightarrow> None | x # _ \<Rightarrow> Some x)"
  by (induction xs) auto

lemma plan_touched_ok:
  assumes "index_inv F ix es" and "wf_Query q" and "\<forall>e \<in> set es. wf_Event e"
  shows "if degraded ix aft then \<exists>f l. plan_touched ix aft = Inl (Unindexable f l)
         else \<exists>plan. plan_touched ix aft = Inr plan \<and>
                search_plan F q aft plan = Inr (filter (matches_after q es aft) [1..<length es + 1])"
proof -
  let ?b = "active_base ix"
  have inv: "index_tiles 1 (ix_sealed ix) ?b" "\<forall>s \<in> set (ix_sealed ix). entry_ok F es s"
    "?b + active_span ix = length es + 1" "at_base (ix_active ix) = ?b"
    "\<not> active_unindexable ix \<Longrightarrow> tail_inv (ix_active ix) (map parts_of (drop (?b - 1) es))"
    using assms(1) by (auto simp: index_inv_def)
  have b: "1 \<le> ?b" "?b \<le> length es + 1" using index_tiles_le [OF inv(1)] inv(3) by auto
  note sealed = plan_sealed_ok [OF assms(2,3) inv(2,1) order_refl b(2), of aft]
  have split: "[1..<length es + 1] = [1..<?b] @ [?b..<length es + 1]"
    using upt_add_eq_append [of 1 ?b "length es + 1 - ?b"] b by simp
  show ?thesis
  proof (cases "\<exists>s \<in> set (ix_sealed ix). six_seg s = None \<and> six_count s > 0 \<and> aft < six_base s + six_count s - 1")
    case True
    then show ?thesis using sealed by (auto simp: degraded_def plan_touched_def)
  next
    case False
    then obtain plan where plan: "plan_sealed aft (ix_sealed ix) = Inr plan"
      "search_plan F q aft plan = Inr (filter (matches_after q es aft) [1..<?b])"
      using sealed by (simp only: if_False) blast
    show ?thesis
    proof (cases "active_span ix > 0 \<and> aft < ?b + active_span ix - 1")
      case touched: True
      show ?thesis
      proof (cases "active_unindexable ix")
        case True
        then show ?thesis using touched plan by (auto simp: degraded_def plan_touched_def Let_def)
      next
        case ok: False
        have "search_touched F q aft (TouchedActive (ix_active ix)) =
            Inr (filter (matches_after q es aft) [?b..<length es + 1])"
          using search_active [OF assms(2,3), of "ix_active ix" F aft] inv(4,5) ok b by simp
        then show ?thesis
          using plan touched ok False split
          by (auto simp: degraded_def plan_touched_def Let_def search_plan_append)
      qed
    next
      case untouched: False
      have "filter (matches_after q es aft) [?b..<length es + 1] = []"
      proof (cases "active_span ix = 0")
        case True
        then show ?thesis using inv(3) by simp
      next
        case False
        then have "length es + 1 \<le> aft + 1" using untouched inv(3) by auto
        then show ?thesis by (rule filter_after_empty)
      qed
      then show ?thesis using plan untouched False split by (auto simp: degraded_def plan_touched_def Let_def)
    qed
  qed
qed

subsection \<open>Feeding and sealing keep it\<close>

lemma range_events_snoc:
  "base - 1 + n \<le> length es \<Longrightarrow> range_events (es @ [e]) base n = range_events es base n"
  by (simp add: range_events_def)

lemma entry_ok_snoc:
  assumes "entry_ok F es s" and "six_base s - 1 + six_count s \<le> length es"
  shows "entry_ok F (es @ [e]) s"
  using assms range_events_snoc [OF assms(2)] by (simp add: entry_ok_def split: option.splits)

lemma index_inv_bounds:
  assumes "index_inv F ix es"
  shows "1 \<le> active_base ix" and "active_base ix \<le> length es + 1" and "active_span ix = length es + 1 - active_base ix"
    and "s \<in> set (ix_sealed ix) \<Longrightarrow> six_base s - 1 + six_count s \<le> length es"
  using assms index_tiles_le [of 1 "ix_sealed ix" "active_base ix"]
    index_tiles_range [of 1 "ix_sealed ix" "active_base ix" s]
  by (auto simp: index_inv_def)

lemma index_push_ok:
  assumes "index_inv F ix es" and "wf_Event e"
  shows "\<exists>ix'. IndexSet_push (length es + 1) e ix = Some ix' \<and> index_inv F ix' (es @ [e]) \<and>
     (active_unindexable ix \<longrightarrow> active_unindexable ix') \<and> ix_sealed ix' = ix_sealed ix"
proof -
  note b = index_inv_bounds [OF assms(1)]
  have base: "at_base (ix_active ix) = active_base ix" using assms(1) by (simp add: index_inv_def)
  have sealed: "\<forall>s \<in> set (ix_sealed ix). entry_ok F (es @ [e]) s"
    using assms(1) b(4) entry_ok_snoc [of F es _ e] by (auto simp: index_inv_def)
  show ?thesis
  proof (cases "active_unindexable ix")
    case True
    then show ?thesis using assms(1) sealed by (simp add: IndexSet_push_def index_inv_def Let_def)
  next
    case False
    let ?evs = "map parts_of (drop (active_base ix - 1) es)"
    have inv: "tail_inv (ix_active ix) ?evs" using assms(1) False by (simp add: index_inv_def)
    have pos: "length es + 1 = at_base (ix_active ix) + length ?evs" using b(1,2) base by simp
    note ok = tail_push_ok [OF inv wf_Event_tags [OF assms(2)] pos]
    obtain r t' where p: "tail_push (length es + 1) e (ix_active ix) = (r, t')" by fastforce
    have snoc: "?evs @ [parts_of e] = map parts_of (drop (active_base ix - 1) (es @ [e]))" using b(2) by simp
    show ?thesis
    proof (cases r)
      case (Inl err)
      then have "err = TooManyTypes (U16_MAX + 1)" "t' = ix_active ix" using ok p by auto
      then show ?thesis
        using p Inl False assms(1) sealed
        by (simp add: IndexSet_push_def index_inv_def Let_def mark_unindexable_def)
    next
      case (Inr u)
      then have "tail_inv t' (?evs @ [parts_of e])" "at_base t' = active_base ix"
        using ok p base by (auto simp: tail_grows_def)
      then show ?thesis
        using p Inr False assms(1) sealed snoc by (simp add: IndexSet_push_def index_inv_def Let_def)
    qed
  qed
qed

text \<open>Whether every index over these events fits the offsets of the format.\<close>
definition sealable :: "'m fst_crate \<Rightarrow> Event list \<Rightarrow> bool" where
  "sealable F es \<longleftrightarrow> length es \<le> U32_MAX \<and> (\<forall>t. tail_inv t (map parts_of es) \<longrightarrow> index_size F t \<le> U32_MAX)"

lemma seal_active_ok:
  assumes "index_inv F ix es" and "fst_ok F" and "\<forall>e \<in> set es. wf_Event e" and "now \<le> U64_MAX"
    and "length es < U64_MAX" and "sealable F (drop (active_base ix - 1) es)"
  shows "\<exists>ix'. seal_active crc F now (length es + 1) ix = Some ix' \<and> index_inv F ix' es \<and>
     active_base ix' = length es + 1 \<and> \<not> active_unindexable ix'"
proof -
  note b = index_inv_bounds [OF assms(1)]
  have i: "index_tiles 1 (ix_sealed ix) (active_base ix)" "\<forall>s \<in> set (ix_sealed ix). entry_ok F es s"
    "at_base (ix_active ix) = active_base ix"
    using assms(1) by (auto simp: index_inv_def)
  have rng: "range_events es (active_base ix) (active_span ix) = drop (active_base ix - 1) es"
    using b(1,3) by (simp add: range_events_def)
  have keep: "index_inv F \<lparr>ix_fs = fs, ix_sealed = ix_sealed ix @ [\<lparr>six_base = active_base ix, six_count = active_span ix, six_seg = sg\<rparr>],
      ix_active = ActiveTail_new (length es + 1), active_base = length es + 1, active_span = 0, active_unindexable = False\<rparr> es"
    if "entry_ok F es \<lparr>six_base = active_base ix, six_count = active_span ix, six_seg = sg\<rparr>" for sg fs
    using that i b(2,3) tail_new_inv
    by (simp add: index_inv_def index_tiles_snoc) (simp add: ActiveTail_new_def)
  show ?thesis
  proof (cases "active_unindexable ix")
    case True
    then show ?thesis using keep [of None] by (simp add: seal_active_def seal_tail_def entry_ok_def)
  next
    case False
    let ?es = "drop (active_base ix - 1) es"
    have inv: "tail_inv (ix_active ix) (map parts_of ?es)" using assms(1) False by (simp add: index_inv_def)
    have wf: "\<forall>e \<in> set ?es. wf_Event e" using assms(3) by (meson in_set_dropD)
    have "length (map parts_of ?es) \<le> U32_MAX" "index_size F (ix_active ix) \<le> U32_MAX"
      using assms(6) inv by (auto simp: sealable_def)
    moreover have "at_base (ix_active ix) \<le> U64_MAX" using i(3) b(2) assms(5) by simp
    ultimately obtain bs sg where s: "encode_at crc F (ix_active ix) now = Some bs"
      "IndexSegment_from_bytes crc F bs = Inr sg" "seg_rep (F, sg) (map parts_of ?es)"
      "ih_base_position (is_header sg) = active_base ix"
      using sealed_ok [OF assms(2) inv names_ok_events [OF wf] _ _ assms(4), of crc] i(3) by metis
    then have "entry_ok F es \<lparr>six_base = active_base ix, six_count = active_span ix, six_seg = Some sg\<rparr>"
      by (simp add: entry_ok_def rng)
    then show ?thesis using keep s(1,2) False by (simp add: seal_active_def seal_tail_def)
  qed
qed

subsection \<open>Opening\<close>

lemma scan_next_of_items:
  assumes "\<And>k. scan_items crc k sc = take k xs"
  shows "case xs of [] \<Rightarrow> fst (scan_next crc sc) = None
    | x # xs' \<Rightarrow> fst (scan_next crc sc) = Some x \<and> (\<forall>k. scan_items crc k (snd (scan_next crc sc)) = take k xs')"
proof -
  have step: "scan_items crc (Suc k) sc =
      (case scan_next crc sc of (None, _) \<Rightarrow> [] | (Some item, sc) \<Rightarrow> item # scan_items crc k sc)" for k by simp
  obtain r sc' where n: "scan_next crc sc = (r, sc')" by fastforce
  show ?thesis
  proof (cases xs)
    case Nil
    then show ?thesis using step [of 0] assms [of 1] n by (cases r) auto
  next
    case (Cons x xs')
    have "r = Some x" using step [of 0] assms [of 1] n Cons by (cases r) auto
    moreover have "scan_items crc k sc' = take k xs'" for k
      using step [of k] assms [of "Suc k"] n Cons \<open>r = Some x\<close> by simp
    ultimately show ?thesis using Cons n by simp
  qed
qed

text \<open>The log holds the events.\<close>
definition log_holds :: "crc_fun \<times> SegmentSet \<Rightarrow> Event list \<Rightarrow> bool" where
  "log_holds = (\<lambda>(crc, S) es. set_inv crc S \<and> log_of S = map buf es \<and> length es < U64_MAX)"

lemma scan_event_items:
  assumes "log_holds (crc, S) es"
  shows "scan_items crc k (scan_from S pos) =
           take k (map (\<lambda>p. Inr \<lparr>position = p, rdata = buf (es ! (p - 1))\<rparr>) [max pos 1..<length es + 1])"
    and "scan_items crc k (scan_after S pos) =
           take k (map (\<lambda>p. Inr \<lparr>position = p, rdata = buf (es ! (p - 1))\<rparr>) [pos + 1..<length es + 1])"
proof -
  have S: "set_inv crc S" "log_of S = map buf es" "length (log_of S) < U64_MAX"
    using assms by (auto simp: log_holds_def)
  have eq: "map (\<lambda>p. Inr \<lparr>position = p, rdata = map buf es ! (p - 1)\<rparr> :: LogError + LogRecord) [lo..<length es + 1] =
      map (\<lambda>p. Inr \<lparr>position = p, rdata = buf (es ! (p - 1))\<rparr>) [lo..<length es + 1]" if "1 \<le> lo" for lo
    using that by (intro map_cong [OF refl]) auto
  note items = scan_log_items [OF S(1,3), of k pos, unfolded S(2) length_map]
  show "scan_items crc k (scan_from S pos) =
      take k (map (\<lambda>p. Inr \<lparr>position = p, rdata = buf (es ! (p - 1))\<rparr>) [max pos 1..<length es + 1])"
    using conjunct1 [OF items] eq [of "max pos 1"] by (simp only: max.cobounded2)
  show "scan_items crc k (scan_after S pos) =
      take k (map (\<lambda>p. Inr \<lparr>position = p, rdata = buf (es ! (p - 1))\<rparr>) [pos + 1..<length es + 1])"
    using conjunct2 [OF items] eq [of "pos + 1"] by (simp only: le_add2)
qed

lemma rebuild_loop_ok:
  assumes "\<And>k. scan_items crc k sc = take k (map (\<lambda>(p, e). Inr \<lparr>position = p, rdata = buf e\<rparr>) rs)"
    and "\<forall>(p, e) \<in> set rs. wf_Event e" and "n \<le> length rs" and "rebuild_from b (take n rs) = Some b'"
  shows "rebuild_loop crc n sc b = Inr b'"
  using assms
proof (induction n arbitrary: sc b rs)
  case (Suc n)
  obtain p e rs' where rs: "rs = (p, e) # rs'" using Suc.prems(3) by (cases rs) auto
  obtain sc' where n: "scan_next crc sc = (Some (Inr \<lparr>position = p, rdata = buf e\<rparr>), sc')"
    "\<And>k. scan_items crc k sc' = take k (map (\<lambda>(p, e). Inr \<lparr>position = p, rdata = buf e\<rparr>) rs')"
    using scan_next_of_items [OF Suc.prems(1)] rs by (cases "scan_next crc sc") auto
  have "EventRef_from_bytes (buf e) = Inr e" using Suc.prems(2) rs by (simp add: wf_Event_def)
  moreover obtain b1 where "Rebuilder_feed p e b = Some b1" "rebuild_from b1 (take n rs') = Some b'"
    using Suc.prems(4) rs by (auto split: option.splits)
  ultimately show ?case using n(1) Suc.IH [OF n(2)] Suc.prems(2,3) rs by simp
qed simp

lemma rebuild_range_ok:
  assumes "set_inv crc S" and "log_of S = map buf es" and "\<forall>e \<in> set es. wf_Event e" and "length es < U64_MAX"
    and "1 \<le> base" and "base - 1 + n \<le> length es"
  shows "\<exists>b. rebuild_range crc S base n = Inr b \<and> rebuilt base (range_events es base n) b"
proof -
  define rs where "rs = zip [base..<length es + 1] (drop (base - 1) es)"
  have len: "length rs = length es + 1 - base" using assms(5) by (auto simp: rs_def)
  have wf: "\<forall>(p, e) \<in> set rs. wf_Event e" using assms(3) by (auto simp: rs_def dest: set_zip_rightD in_set_dropD)
  have rec: "map (\<lambda>p. Inr \<lparr>position = p, rdata = log_of S ! (p - 1)\<rparr>) [base..<length es + 1] =
      map (\<lambda>(p, e). Inr \<lparr>position = p, rdata = buf e\<rparr>) rs"
    using assms(5) by (intro nth_equalityI) (auto simp: rs_def assms(2) simp del: upt_Suc)
  have items: "scan_items crc k (scan_from S base) = take k (map (\<lambda>(p, e). Inr \<lparr>position = p, rdata = buf e\<rparr>) rs)" for k
  proof -
    have "max base 1 = base" "length (log_of S) = length es" using assms(2,5) by simp_all
    then show ?thesis using scan_log_items [OF assms(1), of k base] assms(4) unfolding rec [symmetric] by metis
  qed
  have "take n rs = zip (take n [base..<length es + 1]) (range_events es base n)"
    by (simp only: rs_def take_zip range_events_def)
  also have "take n [base..<length es + 1] = [base..<base + n]"
    using assms(5,6) by (intro take_upt) simp
  finally have tk: "take n rs = zip [base..<base + n] (range_events es base n)" .
  have lr: "length (range_events es base n) = n" using assms(6) by (simp add: range_events_def)
  have "\<forall>e \<in> set (range_events es base n). wf_Event e"
    using assms(3) by (auto simp: range_events_def dest!: in_set_takeD in_set_dropD)
  then obtain b where b: "rebuild_from (Rebuilder_new base) (take n rs) = Some b" "rebuilt base (range_events es base n) b"
    using rebuild_from_ok [OF rebuilt_new, of "range_events es base n" base] by (auto simp: tk lr)
  have "n \<le> length rs" using len assms(5,6) by simp
  from rebuild_loop_ok [OF items wf this b(1)] show ?thesis using b(2) by (auto simp: rebuild_range_def)
qed

text \<open>
  What is in an index file, or may be left in it by a failed write: nothing, bytes that are rejected, or an
  index of the events of the range its header names.
\<close>
definition honest_file :: "crc_fun \<Rightarrow> 'm fst_crate \<Rightarrow> Event list \<Rightarrow> Position \<times> nat \<Rightarrow> FileRead \<Rightarrow> bool" where
  "honest_file crc F es r f \<longleftrightarrow>
     f \<noteq> Unreadable \<and>
     (\<forall>b sg. f = Content b \<and> IndexSegment_from_bytes crc F b = Inr sg \<and>
        ih_base_position (is_header sg) = fst r \<and> ih_event_count (is_header sg) = snd r \<longrightarrow>
        seg_rep (F, sg) (map parts_of (range_events es (fst r) (snd r))))"

definition files_honest ::
  "crc_fun \<Rightarrow> 'm fst_crate \<Rightarrow> Event list \<Rightarrow> (Position \<times> nat) list \<Rightarrow> IndexFs \<Rightarrow> bool" where
  "files_honest crc F es ranges fs \<longleftrightarrow>
     (\<forall>r \<in> set ranges. honest_file crc F es r (fs_files fs (index_file_name (fst r))) \<and>
        (\<forall>left. fs_write_fault fs (index_file_name (fst r)) = Some left \<longrightarrow> honest_file crc F es r left))"

definition range_sealed :: "'m fst_crate \<Rightarrow> Event list \<Rightarrow> Position \<times> nat \<Rightarrow> 'm SealedIndex \<Rightarrow> bool" where
  "range_sealed F es r s \<longleftrightarrow>
     six_base s = fst r \<and> six_count s = snd r \<and> entry_ok F es s \<and>
     (six_seg s = None \<longrightarrow> U16_MAX + 1 < card (event_type ` set (range_events es (fst r) (snd r))))"

lemma load_valid_ok:
  assumes "honest_file crc F es r (fs_files fs (index_file_name (fst r)))"
  shows "(load_valid crc F fs (index_file_name (fst r)) (fst r) (snd r) = Inr None) \<or>
    (\<exists>sg. load_valid crc F fs (index_file_name (fst r)) (fst r) (snd r) = Inr (Some sg) \<and>
       range_sealed F es r \<lparr>six_base = fst r, six_count = snd r, six_seg = Some sg\<rparr>)"
  using assms
  by (auto simp: load_valid_def honest_file_def range_sealed_def entry_ok_def split: FileRead.splits sum.splits)

lemma build_and_seal_ok:
  assumes "set_inv crc S" and "log_of S = map buf es" and "\<forall>e \<in> set es. wf_Event e" and "length es < U64_MAX"
    and "1 \<le> fst r" and "fst r - 1 + snd r \<le> length es" and "fst_ok F" and "now \<le> U64_MAX"
    and "sealable F (range_events es (fst r) (snd r))" and "files_honest crc F es ranges fs" and "r \<in> set ranges"
  shows "\<exists>s fs'. build_and_seal crc F now S fs (fst r) (snd r) = (Inr s, fs') \<and> range_sealed F es r s \<and>
     files_honest crc F es ranges fs'"
proof -
  let ?es = "range_events es (fst r) (snd r)"
  obtain b where b: "rebuild_range crc S (fst r) (snd r) = Inr b" "rebuilt (fst r) ?es b"
    using rebuild_range_ok [OF assms(1-6)] by blast
  show ?thesis
  proof (cases "rb_unindexable b")
    case True
    then show ?thesis
      using b assms(10) by (auto simp: build_and_seal_def range_sealed_def entry_ok_def rebuilt_def)
  next
    case False
    have inv: "tail_inv (rb_index b) (map parts_of ?es)" "at_base (rb_index b) = fst r"
      using b(2) False by (auto simp: rebuilt_def)
    have wf: "\<forall>e \<in> set ?es. wf_Event e"
      using assms(3) by (auto simp: range_events_def dest!: in_set_takeD in_set_dropD)
    have lr: "length ?es = snd r" using assms(6) by (simp add: range_events_def)
    have "length (map parts_of ?es) \<le> U32_MAX" "index_size F (rb_index b) \<le> U32_MAX"
      using assms(9) inv(1) by (auto simp: sealable_def)
    moreover have "at_base (rb_index b) \<le> U64_MAX" using inv(2) assms(4,6) by simp
    ultimately obtain bs sg where s: "encode_at crc F (rb_index b) now = Some bs"
      "IndexSegment_from_bytes crc F bs = Inr sg" "seg_rep (F, sg) (map parts_of ?es)"
      "ih_base_position (is_header sg) = fst r"
      using sealed_ok [OF assms(7) inv(1) names_ok_events [OF wf] _ _ assms(8), of crc] inv(2) by metis
    have cnt: "ih_event_count (is_header sg) = snd r" using s(3) lr by (simp add: seg_rep_def)
    have "honest_file crc F es r' (Content bs)" for r'
      using s(2-4) cnt by (auto simp: honest_file_def)
    then have "files_honest crc F es ranges (snd (write_segment_file (index_file_name (fst r)) bs fs))"
      using assms(10) by (auto simp: files_honest_def write_segment_file_def split: option.splits)
    then show ?thesis
      using b(1) False s cnt
      by (auto simp: build_and_seal_def range_sealed_def entry_ok_def split: prod.splits)
  qed
qed

lemma open_sealed_indexes_ok:
  assumes "set_inv crc S" and "log_of S = map buf es" and "\<forall>e \<in> set es. wf_Event e" and "length es < U64_MAX"
    and "fst_ok F" and "now \<le> U64_MAX"
    and "\<forall>r \<in> set todo. 1 \<le> fst r \<and> fst r - 1 + snd r \<le> length es \<and> sealable F (range_events es (fst r) (snd r))"
    and "files_honest crc F es ranges fs" and "set todo \<subseteq> set ranges"
  shows "\<exists>ss fs'. open_sealed_indexes crc F now S todo fs = (Inr ss, fs') \<and> list_all2 (range_sealed F es) todo ss"
  using assms(7-9)
proof (induction todo arbitrary: fs)
  case (Cons r todo)
  obtain base cnt where r: "r = (base, cnt)" by fastforce
  have hon: "honest_file crc F es r (fs_files fs (index_file_name (fst r)))"
    using Cons.prems(2,3) by (auto simp: files_honest_def)
  have rest: "\<forall>r \<in> set todo. 1 \<le> fst r \<and> fst r - 1 + snd r \<le> length es \<and> sealable F (range_events es (fst r) (snd r))"
    and sub: "set todo \<subseteq> set ranges"
    using Cons.prems(1,3) by auto
  from load_valid_ok [OF hon] show ?case
  proof
    assume l: "load_valid crc F fs (index_file_name (fst r)) (fst r) (snd r) = Inr None"
    obtain s fs' where s: "build_and_seal crc F now S fs (fst r) (snd r) = (Inr s, fs')" "range_sealed F es r s"
      "files_honest crc F es ranges fs'"
      using build_and_seal_ok [OF assms(1-4) _ _ assms(5,6) _ Cons.prems(2), of r] Cons.prems(1,3) by auto
    from Cons.IH [OF rest s(3) sub] show ?thesis using s(1,2) l r by auto
  next
    assume "\<exists>sg. load_valid crc F fs (index_file_name (fst r)) (fst r) (snd r) = Inr (Some sg) \<and>
       range_sealed F es r \<lparr>six_base = fst r, six_count = snd r, six_seg = Some sg\<rparr>"
    with Cons.IH [OF rest Cons.prems(2) sub] show ?thesis using r by auto
  qed
qed simp

lemma sealed_ranges:
  assumes "set_inv crc S"
  shows "contiguous 1 (sealed S) (seg_base (active S))" and "seg_base (active S) \<le> next_position S"
  using assms contiguous_end [of _ "[active S]" "next_position S"]
  by (auto simp: set_inv_def contiguous_append FIRST_POSITION_def)

lemma contiguous_ranges:
  "\<lbrakk>contiguous p segs q; (base, cnt) \<in> set (map (\<lambda>seg. (seg_base seg, event_count seg)) segs)\<rbrakk> \<Longrightarrow>
   p \<le> base \<and> base + cnt \<le> q"
proof (induction segs arbitrary: p)
  case (Cons s segs)
  then show ?case using contiguous_end [of "p + event_count s" segs q] by fastforce
qed simp

lemma tiles_of_contiguous:
  "\<lbrakk>contiguous p segs q; list_all2 (range_sealed F es) (map (\<lambda>seg. (seg_base seg, event_count seg)) segs) ss\<rbrakk> \<Longrightarrow>
   index_tiles p ss q"
  by (induction segs arbitrary: p ss) (auto simp: list_all2_Cons1 range_sealed_def)

lemma index_open_ok:
  assumes "set_inv crc S" and "log_of S = map buf es" and "\<forall>e \<in> set es. wf_Event e" and "length es < U64_MAX"
    and "fst_ok F" and "now \<le> U64_MAX" and "files_honest crc F es (sealed_segments S) fs"
    and "\<forall>r \<in> set (sealed_segments S). sealable F (range_events es (fst r) (snd r))"
  shows "\<exists>ix. IndexSet_open crc F now S fs = Inr ix \<and> index_inv F ix es \<and>
     active_base ix = seg_base (active S) \<and>
     map (\<lambda>s. (six_base s, six_count s)) (ix_sealed ix) = sealed_segments S \<and>
     (\<forall>s \<in> set (ix_sealed ix). six_seg s = None \<longrightarrow>
        U16_MAX + 1 < card (event_type ` set (range_events es (six_base s) (six_count s)))) \<and>
     (active_unindexable ix \<longleftrightarrow> U16_MAX + 1 < card (event_type ` set (drop (seg_base (active S) - 1) es)))"
proof -
  note c = sealed_ranges [OF assms(1)]
  let ?base = "seg_base (active S)"
  have np: "next_position S = length es + 1" using length_log_of [OF assms(1)] assms(2) by simp
  have base: "1 \<le> ?base" using contiguous_end [OF c(1)] by simp
  have todo: "\<forall>r \<in> set (sealed_segments S). 1 \<le> fst r \<and> fst r - 1 + snd r \<le> length es \<and>
      sealable F (range_events es (fst r) (snd r))"
    using contiguous_ranges [OF c(1)] c(2) np assms(8) by (fastforce simp: sealed_segments_def)
  obtain ss fs' where ss: "open_sealed_indexes crc F now S (sealed_segments S) fs = (Inr ss, fs')"
    "list_all2 (range_sealed F es) (sealed_segments S) ss"
    using open_sealed_indexes_ok [OF assms(1-6) todo assms(7) order_refl] by blast
  have cnt: "next_position S - ?base = length es + 1 - ?base" using np by simp
  obtain b where b: "rebuild_range crc S ?base (length es + 1 - ?base) = Inr b"
    "rebuilt ?base (range_events es ?base (length es + 1 - ?base)) b"
    using rebuild_range_ok [OF assms(1-4) base, of "length es + 1 - ?base"] c(2) np base by auto
  have rng: "range_events es ?base (length es + 1 - ?base) = drop (?base - 1) es" using base by (simp add: range_events_def)
  have b2: "rebuilt ?base (drop (?base - 1) es) b" using b(2) unfolding rng .
  let ?ix = "\<lparr>ix_fs = fs', ix_sealed = ss, ix_active = rb_index b, active_base = ?base, active_span = rb_count b,
    active_unindexable = rb_unindexable b\<rparr>"
  have run: "IndexSet_open crc F now S fs = Inr ?ix" using ss(1) b(1) cnt by (simp add: IndexSet_open_def Let_def)
  have entries: "\<exists>r \<in> set (sealed_segments S). range_sealed F es r s" if "s \<in> set ss" for s
    using ss(2) that by (metis in_set_conv_nth list_all2_conv_all_nth)
  have "index_tiles 1 ss ?base" using tiles_of_contiguous [OF c(1)] ss(2) by (simp add: sealed_segments_def)
  moreover have "\<forall>s \<in> set ss. entry_ok F es s" using entries by (auto simp: range_sealed_def)
  moreover have "?base + rb_count b = length es + 1" "at_base (rb_index b) = ?base"
    using b2 c(2) np base by (auto simp: rebuilt_def)
  ultimately have "index_inv F ?ix es" using b2 by (auto simp: index_inv_def rebuilt_def)
  moreover have "\<forall>s \<in> set ss. six_seg s = None \<longrightarrow>
      U16_MAX + 1 < card (event_type ` set (range_events es (six_base s) (six_count s)))"
    using entries by (fastforce simp: range_sealed_def)
  moreover have "map (\<lambda>s. (six_base s, six_count s)) ss = sealed_segments S"
    using ss(2) by (induction rule: list_all2_induct) (auto simp: range_sealed_def)
  ultimately show ?thesis using run b2 by (auto simp: rebuilt_def)
qed

text \<open>An index that is degraded past a bound has a range past it with more types than a column can number.\<close>
lemma not_degraded_if_few:
  assumes "index_inv F ix es" and "active_base ix = base"
    and "map (\<lambda>s. (six_base s, six_count s)) (ix_sealed ix) = rs"
    and "\<forall>s \<in> set (ix_sealed ix). six_seg s = None \<longrightarrow>
        U16_MAX + 1 < card (event_type ` set (range_events es (six_base s) (six_count s)))"
    and "active_unindexable ix \<longleftrightarrow> U16_MAX + 1 < card (event_type ` set (drop (base - 1) es))"
    and few: "\<forall>r \<in> set (rs @ [(base, length es + 1 - base)]). aft < fst r + snd r - 1 \<longrightarrow>
        card (event_type ` set (range_events es (fst r) (snd r))) \<le> U16_MAX + 1"
  shows "\<not> degraded ix aft"
proof
  assume "degraded ix aft"
  then consider s where "s \<in> set (ix_sealed ix)" "six_seg s = None" "aft < six_base s + six_count s - 1"
    | "active_unindexable ix" "aft < active_base ix + active_span ix - 1"
    by (auto simp: degraded_def)
  then show False
  proof cases
    case 1
    have "(six_base s, six_count s) \<in> set rs" using 1(1) assms(3) by force
    then show False using few assms(4) 1 by fastforce
  next
    case 2
    have "range_events es base (length es + 1 - base) = drop (base - 1) es"
      using assms(1,2) by (auto simp: range_events_def index_inv_def)
    then show False using few assms(1,2,5) 2 by (auto simp: index_inv_def)
  qed
qed

lemma find_match_exact:
  assumes "index_inv F ix es" and "wf_Query q" and "\<forall>e \<in> set es. wf_Event e" and "\<not> degraded ix aft"
  shows "find_match F ix q aft = Inr (List.find (\<lambda>p. aft < p \<and> Query_matches q (es ! (p - 1))) [1..<length es + 1])"
proof -
  obtain plan where p: "plan_touched ix aft = Inr plan"
    "search_plan F q aft plan = Inr (filter (matches_after q es aft) [1..<length es + 1])"
    using plan_touched_ok [OF assms(1-3), of aft] assms(4) by (simp only: if_False) blast
  have m: "matches_after q es aft = (\<lambda>p. aft < p \<and> Query_matches q (es ! (p - 1)))"
    by (simp add: matches_after_def fun_eq_iff)
  show ?thesis using p(1) find_in_plan_hd [OF p(2)] by (simp add: find_match_def m find_filter)
qed

subsection \<open>Properties\<close>

text \<open>
  C22. A query over the whole index is exact or refused, never short: for an index set that covers the log's
  events, \<open>search_all\<close> returns every matching position after the bound in ascending order and \<open>find_match\<close> the
  first of them; when a range the query touches has no index, both return the \<open>Unindexable\<close> error instead.
\<close>
theorem index_answers:
  assumes "index_inv F ix es" and "wf_Query q" and "\<forall>e \<in> set es. wf_Event e"
  shows "if degraded ix aft
         then \<exists>f l. search_all F ix q aft = Inl (Unindexable f l) \<and> find_match F ix q aft = Inl (Unindexable f l)
         else search_all F ix q aft =
                Inr (filter (\<lambda>p. aft < p \<and> Query_matches q (es ! (p - 1))) [1..<length es + 1]) \<and>
              find_match F ix q aft =
                Inr (List.find (\<lambda>p. aft < p \<and> Query_matches q (es ! (p - 1))) [1..<length es + 1])"
proof (cases "degraded ix aft")
  case True
  then show ?thesis using plan_touched_ok [OF assms, of aft] by (auto simp: search_all_def find_match_def)
next
  case False
  then obtain plan where p: "plan_touched ix aft = Inr plan"
    "search_plan F q aft plan = Inr (filter (matches_after q es aft) [1..<length es + 1])"
    using plan_touched_ok [OF assms, of aft] by (simp only: if_False) blast
  have m: "matches_after q es aft = (\<lambda>p. aft < p \<and> Query_matches q (es ! (p - 1)))"
    by (simp add: matches_after_def fun_eq_iff)
  show ?thesis
    using False p find_in_plan_hd [OF p(2)]
    by (simp add: search_all_def find_match_def m find_filter)
qed

definition demo_events :: "Event list" where
  "demo_events = [demo_event 0x41 0x61, demo_event 0x42 0x62]"

lemma demo_events_facts:
  "\<forall>e \<in> set demo_events. wf_Event e" "card (event_type ` set demo_events) \<le> U16_MAX + 1"
  using demo_events_wf card_event_types [of demo_events] by (auto simp: demo_events_def)

lemma demo_tail: "\<exists>t. tail_inv t (map parts_of demo_events) \<and> at_base t = 1"
proof -
  obtain t where t: "push_events demo_events (ActiveTail_new 1) = Some t"
    using push_events_total [OF tail_new_inv demo_events_facts(1), of 1] demo_events_facts(2) by auto
  show ?thesis
    using push_events_ok [OF tail_new_inv demo_events_facts(1) t] by (auto simp: tail_grows_def ActiveTail_new_def)
qed

text \<open>A store over the two demonstration events: the log and its index.\<close>
lemma demo_store:
  obtains S ix where "set_append_batch crc_demo 0 (map buf demo_events) demo_set = (Inr (1, 2), S)"
    and "log_holds (crc_demo, S) demo_events" and "index_inv fst_demo ix demo_events" and "\<not> active_unindexable ix"
    and "ix_sealed ix = []" and "active_base ix = 1" and "sealed S = []" and "seg_base (active S) = 1"
proof -
  let ?run = "set_append_batch crc_demo 0 (map buf demo_events) demo_set"
  have "fst ?run = Inr (1, 2)" by code_simp
  then obtain S where run: "?run = (Inr (1, 2), S)" by (metis prod.collapse)
  have "sealed (snd ?run) = []" "seg_base (active (snd ?run)) = 1" by code_simp+
  then have seg: "sealed S = []" "seg_base (active S) = 1" using run by simp_all
  have S: "log_holds (crc_demo, S) demo_events"
    using append_batch_log [OF demo_set_facts(1) run] demo_set_facts(2) by (auto simp: log_holds_def demo_events_def)
  obtain t where t: "tail_inv t (map parts_of demo_events)" "at_base t = 1" using demo_tail by blast
  let ?ix = "\<lparr>ix_fs = \<lparr>fs_files = \<lambda>_. Missing, fs_write_fault = \<lambda>_. None\<rparr>, ix_sealed = [],
    ix_active = t, active_base = 1, active_span = 2, active_unindexable = False\<rparr>"
  have "index_inv fst_demo ?ix demo_events" using t by (simp add: index_inv_def demo_events_def)
  then show thesis using that [OF run S, of ?ix] seg by simp
qed

lemma sealable_Nil: "sealable fst_demo []"
proof -
  have "index_size fst_demo t \<le> U32_MAX" if t: "tail_inv t []" for t
  proof -
    have "terms_sorted_with_postings t = []" using terms_unique [OF t, of "[]"] by simp
    moreover have "tail_type_names t = []" using tail_inv_types_card [OF t] by (simp flip: length_0_conv)
    ultimately show ?thesis using tail_inv_len [OF t] by (simp add: index_size_def fst_demo_def INDEX_HEADER_SIZE_def)
  qed
  then show ?thesis by (simp add: sealable_def)
qed

theorem index_answers_witness:
  "\<exists>ix. index_inv fst_demo ix demo_events \<and>
     find_match fst_demo ix (Items [\<lparr>types = [], tags = [Tag [0x62]]\<rparr>]) 0 = Inr (Some 2)"
proof -
  let ?q = "Items [\<lparr>types = [], tags = [Tag [0x62]]\<rparr>]"
  obtain t where t: "tail_inv t (map parts_of demo_events)" "at_base t = 1" using demo_tail by blast
  define ix where "ix = \<lparr>ix_fs = \<lparr>fs_files = \<lambda>_. Missing, fs_write_fault = \<lambda>_. None\<rparr>, ix_sealed = ([] :: (str \<times> nat) list SealedIndex list),
    ix_active = t, active_base = 1, active_span = 2, active_unindexable = False\<rparr>"
  have inv: "index_inv fst_demo ix demo_events" using t by (simp add: index_inv_def demo_events_def ix_def)
  have q: "wf_Query ?q" by code_simp
  have f: "List.find (\<lambda>p. 0 < p \<and> Query_matches ?q (demo_events ! (p - 1))) [1..<length demo_events + 1] = Some 2"
    by code_simp
  have "\<not> degraded ix 0" by (simp add: degraded_def ix_def)
  then have "find_match fst_demo ix ?q 0 = Inr (Some 2)"
    using index_answers [OF inv q demo_events_facts(1), of 0] unfolding f by simp
  with inv show ?thesis by blast
qed

text \<open>
  C21. Opening the index never fails on a consistent log and gives a covering index: for every content of
  the index files that is missing, rejected or an honest index of its range, and whatever failed writes leave
  behind, \<open>IndexSet::open\<close> succeeds with one entry per sealed segment. A sealed segment is left without an
  index only when its own range carries more distinct types than the column can number, and the tail is
  given up exactly when the active range does; so \<open>find_match\<close> over the opened index returns the first
  matching log position after the bound whenever the ranges that reach past the bound are within that limit.
\<close>
theorem index_open_exact:
  assumes "set_inv crc S" and "log_of S = map buf es" and "\<forall>e \<in> set es. wf_Event e" and "length es < U64_MAX"
    and "fst_ok F" and "now \<le> U64_MAX" and "files_honest crc F es (sealed_segments S) fs"
    and "\<forall>r \<in> set (sealed_segments S). sealable F (range_events es (fst r) (snd r))"
  shows "\<exists>ix. IndexSet_open crc F now S fs = Inr ix \<and> index_inv F ix es \<and>
     map (\<lambda>s. (six_base s, six_count s)) (ix_sealed ix) = sealed_segments S \<and>
     (\<forall>s \<in> set (ix_sealed ix). six_seg s = None \<longrightarrow>
        U16_MAX + 1 < card (event_type ` set (range_events es (six_base s) (six_count s)))) \<and>
     active_base ix = seg_base (active S) \<and>
     (active_unindexable ix \<longleftrightarrow> U16_MAX + 1 < card (event_type ` set (drop (seg_base (active S) - 1) es))) \<and>
     (\<forall>q aft. wf_Query q \<and>
        (\<forall>r \<in> set (sealed_segments S @ [(seg_base (active S), length es + 1 - seg_base (active S))]).
           aft < fst r + snd r - 1 \<longrightarrow> card (event_type ` set (range_events es (fst r) (snd r))) \<le> U16_MAX + 1) \<longrightarrow>
        find_match F ix q aft =
          Inr (List.find (\<lambda>p. aft < p \<and> Query_matches q (es ! (p - 1))) [1..<length es + 1]))"
proof -
  let ?base = "seg_base (active S)"
  obtain ix where ix: "IndexSet_open crc F now S fs = Inr ix" "index_inv F ix es" "active_base ix = ?base"
    "map (\<lambda>s. (six_base s, six_count s)) (ix_sealed ix) = sealed_segments S"
    "\<forall>s \<in> set (ix_sealed ix). six_seg s = None \<longrightarrow>
        U16_MAX + 1 < card (event_type ` set (range_events es (six_base s) (six_count s)))"
    "active_unindexable ix \<longleftrightarrow> U16_MAX + 1 < card (event_type ` set (drop (?base - 1) es))"
    using index_open_ok [OF assms] by blast
  have "find_match F ix q aft = Inr (List.find (\<lambda>p. aft < p \<and> Query_matches q (es ! (p - 1))) [1..<length es + 1])"
    if few: "\<forall>r \<in> set (sealed_segments S @ [(?base, length es + 1 - ?base)]).
        aft < fst r + snd r - 1 \<longrightarrow> card (event_type ` set (range_events es (fst r) (snd r))) \<le> U16_MAX + 1"
      and q: "wf_Query q" for q aft
    by (rule find_match_exact [OF ix(2) q assms(3) not_degraded_if_few [OF ix(2-6) few]])
  then show ?thesis using ix by blast
qed

theorem index_open_exact_witness:
  "\<exists>S ix. set_append_batch crc_demo 0 (map buf demo_events) demo_set = (Inr (1, 2), S) \<and>
     IndexSet_open crc_demo fst_demo 9 S \<lparr>fs_files = \<lambda>_. Missing, fs_write_fault = \<lambda>_. None\<rparr> = Inr ix \<and>
     find_match fst_demo ix (Items [\<lparr>types = [], tags = [Tag [0x62]]\<rparr>]) 0 = Inr (Some 2)"
proof -
  let ?q = "Items [\<lparr>types = [], tags = [Tag [0x62]]\<rparr>]" and ?fs = "\<lparr>fs_files = \<lambda>_. Missing, fs_write_fault = \<lambda>_. None\<rparr>"
  have "fst (set_append_batch crc_demo 0 (map buf demo_events) demo_set) = Inr (1, 2)" by code_simp
  then obtain S where run: "set_append_batch crc_demo 0 (map buf demo_events) demo_set = (Inr (1, 2), S)"
    by (metis prod.collapse)
  have "sealed (snd (set_append_batch crc_demo 0 (map buf demo_events) demo_set)) = []" by code_simp
  then have sealed: "sealed_segments S = []" using run by (simp add: sealed_segments_def)
  have S: "set_inv crc_demo S" "log_of S = map buf demo_events"
    using append_batch_log [OF demo_set_facts(1) run] demo_set_facts(2) by auto
  have q: "wf_Query ?q" by code_simp
  have found: "List.find (\<lambda>p. 0 < p \<and> Query_matches ?q (demo_events ! (p - 1))) [1..<length demo_events + 1] = Some 2"
    by code_simp
  have few: "card (event_type ` set (range_events demo_events b n)) \<le> U16_MAX + 1" for b n
    by (rule order_trans [OF card_event_types]) (simp add: range_events_def demo_events_def)
  have len: "length demo_events < U64_MAX" by (simp add: demo_events_def)
  have files: "files_honest crc_demo fst_demo demo_events (sealed_segments S) ?fs" and none: "\<forall>r \<in> set (sealed_segments S). sealable fst_demo (range_events demo_events (fst r) (snd r))"
    using sealed by (simp_all add: files_honest_def)
  from index_open_exact [OF S demo_events_facts(1) len fst_demo_ok _ files none, of 9]
  obtain ix where "IndexSet_open crc_demo fst_demo 9 S ?fs = Inr ix" "find_match fst_demo ix ?q 0 = Inr (Some 2)"
    using q found few by fastforce
  then show ?thesis using run by blast
qed

text \<open>
  The index follows the log: feeding the next committed event keeps the set covering the log, never
  panics and never un-latches a degraded segment, and sealing at a rollover (with any outcome of writing the
  file) keeps it covering the same events with a fresh tail at the next position.
\<close>
theorem index_follows_log:
  assumes "index_inv F ix es" and "fst_ok F" and "\<forall>e \<in> set es. wf_Event e" and "wf_Event e" and "now \<le> U64_MAX"
    and "length es < U64_MAX" and "sealable F (drop (active_base ix - 1) es)"
  shows "(\<exists>ix'. IndexSet_push (length es + 1) e ix = Some ix' \<and> index_inv F ix' (es @ [e]) \<and>
            (active_unindexable ix \<longrightarrow> active_unindexable ix')) \<and>
         (\<exists>ix'. seal_active crc F now (length es + 1) ix = Some ix' \<and> index_inv F ix' es \<and>
            active_base ix' = length es + 1 \<and> \<not> active_unindexable ix')"
  using index_push_ok [OF assms(1,4)] seal_active_ok [OF assms(1-3,5-7)] by blast

theorem index_follows_log_witness:
  "\<exists>ix. index_inv fst_demo ix [] \<and>
     (\<exists>ix'. IndexSet_push 1 (demo_event 0x41 0x61) ix = Some ix' \<and> index_inv fst_demo ix' [demo_event 0x41 0x61]) \<and>
     (\<exists>ix'. seal_active crc_demo fst_demo 0 1 ix = Some ix' \<and> index_inv fst_demo ix' [])"
proof -
  let ?ix = "\<lparr>ix_fs = \<lparr>fs_files = \<lambda>_. Missing, fs_write_fault = \<lambda>_. None\<rparr>, ix_sealed = [], ix_active = ActiveTail_new 1,
    active_base = 1, active_span = 0, active_unindexable = False\<rparr>"
  have inv: "index_inv fst_demo ?ix []" by (simp add: index_inv_def tail_new_inv) (simp add: ActiveTail_new_def)
  have "sealable fst_demo (drop (active_base ?ix - 1) [])" using sealable_Nil by simp
  from index_follows_log [OF inv fst_demo_ok _ _ _ _ this, of "demo_event 0x41 0x61" 0 crc_demo]
  show ?thesis using inv demo_events_wf by force
qed

end
