(* ===== verification/Tips.thy ===== *)
theory Tips
  imports IndexSet "HOL-Library.AList"
begin

text \<open>
  Tag tips (\<open>crates/tephra/src/writer/tips.rs\<close>): the lossy map of the highest position seen per tag that
  fast-rejects append conditions, and the complete map of one drain window. The hash maps are association
  lists with distinct keys; \<open>map_of\<close> is the lookup and the length of the list the number of entries.

  \<open>tips_sound\<close> is what the writer relies on: a tag never occurs above what the map says of it.
\<close>

subsection \<open>Durable tips\<close>

definition DEFAULT_MAX_ENTRIES :: nat where "DEFAULT_MAX_ENTRIES = 2 ^ 20"

datatype Verdict = DefinitelyNoMatch | Unknown

record TagTips =
  max_pos :: "(str \<times> Position) list"
  window_floor :: Position
  window :: nat
  max_entries :: nat

record StagedTips =
  tag_positions :: "(str \<times> Position) list"

definition TagTips_new :: "Position \<Rightarrow> nat \<Rightarrow> TagTips" where
  "TagTips_new floor win =
     \<lparr>max_pos = [], window_floor = floor, window = win, max_entries = DEFAULT_MAX_ENTRIES\<rparr>"

text \<open>\<open>entry(tag).and_modify(keep the max).or_insert(pos)\<close>.\<close>
definition record_max :: "str \<Rightarrow> Position \<Rightarrow> (str \<times> Position) list \<Rightarrow> (str \<times> Position) list" where
  "record_max tag pos m =
     (case map_of m tag of
        None \<Rightarrow> (tag, pos) # m
      | Some p \<Rightarrow> if pos > p then AList.update tag pos m else m)"

definition max_for :: "TagTips \<Rightarrow> str \<Rightarrow> Position" where
  "max_for t tag = (case map_of (max_pos t) tag of Some p \<Rightarrow> p | None \<Rightarrow> window_floor t)"

definition item_unknown :: "TagTips \<Rightarrow> QueryItem \<Rightarrow> Position \<Rightarrow> bool" where
  "item_unknown t it aft \<longleftrightarrow> (if tags it = [] then True else list_all (\<lambda>tag. max_for t (tag_str tag) > aft) (tags it))"

definition may_match :: "TagTips \<Rightarrow> Query \<Rightarrow> Position \<Rightarrow> Verdict" where
  "may_match t q aft =
     (case q of
        All \<Rightarrow> Unknown
      | Items its \<Rightarrow> if list_ex (\<lambda>it. item_unknown t it aft) its then Unknown else DefinitelyNoMatch)"

definition evict_if_needed :: "Position \<Rightarrow> TagTips \<Rightarrow> TagTips" where
  "evict_if_needed next_pos t =
     (if length (max_pos t) \<le> max_entries t then t
      else
        let target = next_pos - window t;
            new_floor = max (window_floor t) target
        in t\<lparr>window_floor := new_floor, max_pos := filter (\<lambda>(_, p). p > new_floor) (max_pos t)\<rparr>)"

definition absorb :: "StagedTips \<Rightarrow> Position \<Rightarrow> TagTips \<Rightarrow> TagTips" where
  "absorb st next_pos t =
     evict_if_needed next_pos (t\<lparr>max_pos := fold (\<lambda>(tag, p). record_max tag p) (tag_positions st) (max_pos t)\<rparr>)"

subsection \<open>Staged tips\<close>

definition StagedTips_new :: StagedTips where "StagedTips_new = \<lparr>tag_positions = []\<rparr>"

definition staged_record :: "str \<Rightarrow> Position \<Rightarrow> StagedTips \<Rightarrow> StagedTips" where
  "staged_record tag pos st = st\<lparr>tag_positions := record_max tag pos (tag_positions st)\<rparr>"

definition staged_is_empty :: "StagedTips \<Rightarrow> bool" where
  "staged_is_empty st \<longleftrightarrow> tag_positions st = []"

definition staged_contains :: "StagedTips \<Rightarrow> str \<Rightarrow> bool" where
  "staged_contains st tag \<longleftrightarrow> map_of (tag_positions st) tag \<noteq> None"

definition may_conflict :: "StagedTips \<Rightarrow> Query \<Rightarrow> bool" where
  "may_conflict st q \<longleftrightarrow>
     (if staged_is_empty st then False
      else case q of
        All \<Rightarrow> True
      | Items its \<Rightarrow> list_ex (\<lambda>it. list_all (\<lambda>tag. staged_contains st (tag_str tag)) (tags it)) its)"

subsection \<open>Soundness of the durable tips\<close>

lemma map_of_record_max:
  "map_of (record_max tag pos m) x =
     (if x = tag then Some (case map_of m tag of None \<Rightarrow> pos | Some p \<Rightarrow> max pos p) else map_of m x)"
  by (auto simp: record_max_def update_conv' split: option.splits)

text \<open>A tag occurs at a position of the log.\<close>
definition tag_at :: "Event list \<Rightarrow> str \<Rightarrow> Position \<Rightarrow> bool" where
  "tag_at es tag p \<longleftrightarrow> 1 \<le> p \<and> p \<le> length es \<and> tag \<in> set (event_tags (es ! (p - 1)))"

definition tips_sound :: "TagTips \<Rightarrow> Event list \<Rightarrow> bool" where
  "tips_sound t es \<longleftrightarrow> distinct (map fst (max_pos t)) \<and> (\<forall>tag p. tag_at es tag p \<longrightarrow> p \<le> max_for t tag)"

text \<open>The staged map knows exactly the tags of the staged events, at positions past the log.\<close>
definition staged_ok :: "StagedTips \<Rightarrow> nat \<Rightarrow> Event list \<Rightarrow> bool" where
  "staged_ok st n evs \<longleftrightarrow>
     distinct (map fst (tag_positions st)) \<and>
     (\<forall>tag. staged_contains st tag \<longleftrightarrow> (\<exists>e \<in> set evs. tag \<in> set (event_tags e))) \<and>
     (\<forall>tag p. map_of (tag_positions st) tag = Some p \<longrightarrow> n < p) \<and>
     (\<forall>tag i. i < length evs \<and> tag \<in> set (event_tags (evs ! i)) \<longrightarrow>
        (\<exists>p. map_of (tag_positions st) tag = Some p \<and> n + i + 1 \<le> p))"

lemma distinct_record_max: "distinct (map fst m) \<Longrightarrow> distinct (map fst (record_max tag pos m))"
  by (auto simp: record_max_def map_of_eq_None_iff distinct_update split: option.splits)

lemma tips_new_sound: "tips_sound (TagTips_new (length es + 1) win) es"
  by (auto simp: tips_sound_def TagTips_new_def max_for_def tag_at_def)

lemma map_of_fold_record_max:
  assumes "distinct (map fst ps)"
  shows "map_of (fold (\<lambda>(tag, p). record_max tag p) ps m) x =
     (case map_of ps x of
        None \<Rightarrow> map_of m x
      | Some p \<Rightarrow> Some (case map_of m x of None \<Rightarrow> p | Some p' \<Rightarrow> max p p'))"
  using assms
proof (induction ps arbitrary: m)
  case (Cons a ps)
  obtain tag p where a: "a = (tag, p)" by fastforce
  have "map_of ps tag = None" using Cons.prems a by (simp add: map_of_eq_None_iff)
  then show ?case using Cons a by (auto simp: map_of_record_max split: option.splits)
qed simp

lemma distinct_fold_record_max:
  "distinct (map fst m) \<Longrightarrow> distinct (map fst (fold (\<lambda>(tag, p). record_max tag p) ps m))"
  by (induction ps arbitrary: m) (auto simp: distinct_record_max)

lemma evict_sound:
  assumes "tips_sound t es"
  shows "tips_sound (evict_if_needed next_pos t) es"
proof -
  have d: "distinct (map fst (max_pos t))" using assms by (simp add: tips_sound_def)
  have f: "distinct (map fst (filter P (max_pos t)))" for P
    using d by (simp add: distinct_map_filter)
  have "max_for t tag \<le> max_for (t\<lparr>window_floor := fl, max_pos := filter (\<lambda>(_, p). p > fl) (max_pos t)\<rparr>) tag"
    if "window_floor t \<le> fl" for fl tag
  proof (cases "map_of (max_pos t) tag")
    case None
    then have "map_of (filter (\<lambda>(_, p). p > fl) (max_pos t)) tag = None"
      by (auto simp: map_of_eq_None_iff)
    then show ?thesis using None that by (simp add: max_for_def)
  next
    case (Some p)
    then have m: "(tag, p) \<in> set (max_pos t)" by (rule map_of_SomeD)
    show ?thesis
    proof (cases "p > fl")
      case True
      then have "map_of (filter (\<lambda>(_, p). p > fl) (max_pos t)) tag = Some p"
        using m by (intro map_of_is_SomeI f) auto
      then show ?thesis using Some by (simp add: max_for_def)
    next
      case False
      have "map_of (filter (\<lambda>(_, p). p > fl) (max_pos t)) tag = None"
        using m False d by (auto simp: map_of_eq_None_iff dest: eq_key_imp_eq_value)
      then show ?thesis using Some False by (simp add: max_for_def)
    qed
  qed
  then have "p \<le> max_for (t\<lparr>window_floor := fl, max_pos := filter (\<lambda>(_, p). p > fl) (max_pos t)\<rparr>) tag"
    if "tag_at es tag p" "window_floor t \<le> fl" for tag p fl
    using assms that order_trans unfolding tips_sound_def by blast
  then show ?thesis using assms f by (auto simp: evict_if_needed_def tips_sound_def Let_def)
qed

lemma absorb_sound:
  assumes "tips_sound t es" and "staged_ok st (length es) evs"
  shows "tips_sound (absorb st next_pos t) (es @ evs)"
proof -
  let ?t = "t\<lparr>max_pos := fold (\<lambda>(tag, p). record_max tag p) (tag_positions st) (max_pos t)\<rparr>"
  have d: "distinct (map fst (tag_positions st))" using assms(2) by (simp add: staged_ok_def)
  note look = map_of_fold_record_max [OF d, of "max_pos t"]
  have "p \<le> max_for ?t tag" if p: "tag_at (es @ evs) tag p" for tag p
  proof (cases "p \<le> length es")
    case True
    then have old: "tag_at es tag p" using p by (auto simp: tag_at_def nth_append split: if_splits)
    show ?thesis
    proof (cases "map_of (tag_positions st) tag")
      case None
      then have "max_for ?t tag = max_for t tag" by (simp add: max_for_def look split: option.splits)
      then show ?thesis using assms(1) old by (simp add: tips_sound_def)
    next
      case (Some q)
      then have "length es < q" using assms(2) by (auto simp: staged_ok_def)
      then show ?thesis using True Some by (auto simp: max_for_def look split: option.splits)
    qed
  next
    case False
    then have i: "p - 1 - length es < length evs" "tag \<in> set (event_tags (evs ! (p - 1 - length es)))"
      using p by (auto simp: tag_at_def nth_append split: if_splits)
    then obtain q where "map_of (tag_positions st) tag = Some q" "length es + (p - 1 - length es) + 1 \<le> q"
      using assms(2) unfolding staged_ok_def by blast
    then show ?thesis using False by (auto simp: max_for_def look split: option.splits)
  qed
  moreover have "distinct (map fst (max_pos ?t))"
    using assms(1) by (simp add: tips_sound_def distinct_fold_record_max)
  ultimately have "tips_sound ?t (es @ evs)" by (simp add: tips_sound_def)
  then show ?thesis unfolding absorb_def by (rule evict_sound)
qed

text \<open>No false negatives: a rejected query matches no later event.\<close>
lemma may_match_sound:
  assumes "tips_sound t es" and "wf_Query q" and "\<forall>e \<in> set es. wf_Event e"
    and "may_match t q aft = DefinitelyNoMatch" and "aft < p" and "1 \<le> p" and "p \<le> length es"
  shows "\<not> Query_matches q (es ! (p - 1))"
proof
  assume m: "Query_matches q (es ! (p - 1))"
  let ?e = "es ! (p - 1)"
  have "?e \<in> set es" using assms(6,7) by (intro nth_mem) simp
  then have wf: "EventRef_from_bytes (buf ?e) = Inr ?e" using assms(3) by (simp add: wf_Event_def)
  have parts: "matches_parts q (event_type ?e) (event_tags ?e)" using m Query_matches_spec [OF assms(2) wf] by simp
  obtain its where q: "q = Items its" "\<forall>it \<in> set its. \<not> item_unknown t it aft"
    using assms(4) by (auto simp: may_match_def list_ex_iff split: Query.splits if_splits)
  then obtain it where it: "it \<in> set its" "item_matches_parts it (event_type ?e) (event_tags ?e)"
    using parts by (auto simp: matches_parts_def)
  then obtain tag where tag: "tag \<in> set (tags it)" "max_for t (tag_str tag) \<le> aft"
    using q(2) by (auto simp: item_unknown_def list_all_iff not_less split: if_splits)
  have "tag_str tag \<in> set (event_tags ?e)" using it(2) tag(1) by (auto simp: item_matches_parts_def)
  then have "p \<le> max_for t (tag_str tag)" using assms(1,6,7) by (auto simp: tips_sound_def tag_at_def)
  then show False using tag(2) assms(5) by simp
qed

subsection \<open>Soundness of the staged tips\<close>

lemma staged_new_ok: "staged_ok StagedTips_new n []"
  by (simp add: staged_ok_def StagedTips_new_def staged_contains_def)

text \<open>Recording the tags of the next event.\<close>
lemma staged_record_ok:
  assumes "staged_ok st n evs"
  shows "staged_ok (fold (\<lambda>tag. staged_record tag (n + length evs + 1)) (event_tags e) st) n (evs @ [e])"
proof -
  define pos where "pos = n + length evs + 1"
  have npos: "n < pos" by (simp add: pos_def)
  have look: "map_of (tag_positions (fold (\<lambda>tag. staged_record tag pos) ts s)) x =
      (if x \<in> set ts then Some (case map_of (tag_positions s) x of None \<Rightarrow> pos | Some q \<Rightarrow> max pos q)
       else map_of (tag_positions s) x)" for ts s x
    by (induction ts arbitrary: s) (auto simp: staged_record_def map_of_record_max split: option.splits)
  have dist: "distinct (map fst (tag_positions s)) \<Longrightarrow>
      distinct (map fst (tag_positions (fold (\<lambda>tag. staged_record tag pos) ts s)))" for ts s
    by (induction ts arbitrary: s) (auto simp: staged_record_def distinct_record_max)
  let ?st = "fold (\<lambda>tag. staged_record tag pos) (event_tags e) st"
  have "staged_contains ?st tag \<longleftrightarrow> (\<exists>e' \<in> set (evs @ [e]). tag \<in> set (event_tags e'))" for tag
    using assms by (auto simp: staged_ok_def staged_contains_def look)
  moreover have "n < p" if "map_of (tag_positions ?st) tag = Some p" for tag p
    using assms that npos by (cases "map_of (tag_positions st) tag") (auto simp: staged_ok_def look split: if_splits)
  moreover have "\<exists>p. map_of (tag_positions ?st) tag = Some p \<and> n + i + 1 \<le> p"
    if i: "i < length (evs @ [e])" "tag \<in> set (event_tags ((evs @ [e]) ! i))" for tag i
  proof (cases "i < length evs")
    case True
    then have "tag \<in> set (event_tags (evs ! i))" using i(2) by (simp add: nth_append)
    with True obtain q where "map_of (tag_positions st) tag = Some q" "n + i + 1 \<le> q"
      using assms unfolding staged_ok_def by blast
    then show ?thesis by (auto simp: look)
  next
    case False
    then have "n + i + 1 = pos" "tag \<in> set (event_tags e)" using i by (auto simp: nth_append less_Suc_eq pos_def)
    then show ?thesis by (cases "map_of (tag_positions st) tag") (auto simp: look)
  qed
  moreover have "distinct (map fst (tag_positions ?st))" using assms dist by (simp add: staged_ok_def)
  ultimately show ?thesis unfolding staged_ok_def pos_def [symmetric] by blast
qed

text \<open>
  The staged map has no false negatives once some staged event carries a tag; with only untagged events
  staged it is empty and reports no conflict at all.
\<close>
lemma may_conflict_sound:
  assumes "staged_ok st n evs" and "wf_Query q" and "\<forall>e \<in> set evs. wf_Event e"
    and "\<exists>e \<in> set evs. event_tags e \<noteq> []" and "\<not> may_conflict st q" and "e \<in> set evs"
  shows "\<not> Query_matches q e"
proof
  assume m: "Query_matches q e"
  obtain e' where "e' \<in> set evs" "event_tags e' \<noteq> []" using assms(4) by blast
  then obtain tag where "e' \<in> set evs" "tag \<in> set (event_tags e')" using list.set_sel(1) by blast
  then have "staged_contains st tag" using assms(1) by (auto simp: staged_ok_def)
  then have ne: "\<not> staged_is_empty st" by (auto simp: staged_is_empty_def staged_contains_def)
  have wf: "EventRef_from_bytes (buf e) = Inr e" using assms(3,6) by (simp add: wf_Event_def)
  have parts: "matches_parts q (event_type e) (event_tags e)" using m Query_matches_spec [OF assms(2) wf] by simp
  obtain its where q: "q = Items its" using assms(5) ne by (cases q) (auto simp: may_conflict_def)
  then obtain it where it: "it \<in> set its" "item_matches_parts it (event_type e) (event_tags e)"
    using parts by (auto simp: matches_parts_def)
  have "list_all (\<lambda>tag. staged_contains st (tag_str tag)) (tags it)"
    using it(2) assms(1,6) by (auto simp: item_matches_parts_def list_all_iff staged_ok_def)
  then show False using assms(5) ne q it(1) by (auto simp: may_conflict_def list_ex_iff)
qed

subsection \<open>Properties\<close>

text \<open>
  C20. The fast reject never lies: whatever was evicted, tips that were sound for the log stay sound after
  absorbing a committed window, and when they answer \<open>DefinitelyNoMatch\<close> no event of the grown log after the
  bound matches the query.
\<close>
theorem tips_no_false_negative:
  assumes "tips_sound t es" and "staged_ok st (length es) evs" and "wf_Query q" and "\<forall>e \<in> set (es @ evs). wf_Event e"
    and "may_match (absorb st next_pos t) q aft = DefinitelyNoMatch"
  shows "tips_sound (absorb st next_pos t) (es @ evs) \<and>
         (\<forall>p. aft < p \<and> 1 \<le> p \<and> p \<le> length (es @ evs) \<longrightarrow> \<not> Query_matches q ((es @ evs) ! (p - 1)))"
  using absorb_sound [OF assms(1,2)] may_match_sound [OF _ assms(3,4,5)] by blast

theorem tips_no_false_negative_witness:
  "may_match (absorb StagedTips_new 3 (TagTips_new 3 10)) (Items [\<lparr>types = [], tags = [Tag [0x62]]\<rparr>]) 3 = DefinitelyNoMatch \<and>
   tips_sound (absorb StagedTips_new 3 (TagTips_new 3 10)) (demo_events @ [])"
proof -
  let ?q = "Items [\<lparr>types = [], tags = [Tag [0x62]]\<rparr>]"
  have "length demo_events + 1 = 3" by (simp add: demo_events_def)
  then have "tips_sound (TagTips_new 3 10) demo_events" using tips_new_sound [of demo_events 10] by metis
  moreover have "wf_Query ?q" by code_simp
  moreover have "may_match (absorb StagedTips_new 3 (TagTips_new 3 10)) ?q 3 = DefinitelyNoMatch" by code_simp
  ultimately show ?thesis
    using tips_no_false_negative [of "TagTips_new 3 10" demo_events StagedTips_new "[]" ?q 3 3] staged_new_ok
      demo_events_facts(1) by simp
qed

end
