(* ===== verification/Condition.thy ===== *)
theory Condition
  imports Tips
begin

text \<open>
  Append conditions (\<open>crates/tephra/src/writer/condition.rs\<close>): the boundary and the existence clause, each
  settled by the staged tips, then the durable tips, then the index, with the scan of the log as the fallback,
  the escape hatch and the cross-check. The error type is the writer's (\<open>crates/tephra/src/writer/mod.rs\<close>); the
  panic of a failed debug assertion or of a violated internal expectation is \<open>AppendPanic\<close>.

  The three sources of durable answers (tips, index, scan) share one contract, the locale \<open>match_oracle\<close>:
  an answer, when one is given, is the first matching position of the log after the bound.
\<close>

subsection \<open>Errors\<close>

datatype ConflictClause = Boundary | Existence

datatype ConflictSite = Durable Position | SameBatch

datatype AppendError =
    Conflict ConflictClause ConflictSite
  | AfterBeyondTip Position Position
  | AppendEmpty
  | TooLarge nat
  | AppendLog LogError
  | AppendCorrupt DecodeError
  | Shutdown
  | AppendPanic

subsection \<open>The scan oracle\<close>

function scan_loop :: "crc_fun \<Rightarrow> Query \<Rightarrow> Scan \<Rightarrow> AppendError + Position option" where
  "scan_loop crc q sc =
     (case scan_next crc sc of
        (None, _) \<Rightarrow> Inr None
      | (Some (Inl err), _) \<Rightarrow> Inl (AppendLog err)
      | (Some (Inr r), sc) \<Rightarrow>
          (case EventRef_from_bytes (rdata r) of
             Inl err \<Rightarrow> Inl (AppendCorrupt err)
           | Inr event \<Rightarrow> if Query_matches q event then Inr (Some (position r)) else scan_loop crc q sc))"
  by pat_completeness auto
termination
  by (relation "measure (\<lambda>(crc, q, sc). sc_upto sc + 1 - sc_position sc)")
    (auto dest!: scan_next_progress [OF sym])

declare scan_loop.simps [simp del]

definition scan_for_match :: "crc_fun \<Rightarrow> SegmentSet \<Rightarrow> Query \<Rightarrow> Position \<Rightarrow> AppendError + Position option" where
  "scan_for_match crc S q aft = scan_loop crc q (scan_after S aft)"

text \<open>\<open>dbg\<close> is whether debug assertions are compiled in.\<close>
definition verified_against_scan ::
  "bool \<Rightarrow> crc_fun \<Rightarrow> Position option \<Rightarrow> SegmentSet \<Rightarrow> Query \<Rightarrow> Position \<Rightarrow> AppendError + Position option" where
  "verified_against_scan dbg crc fast S q aft =
     (case scan_for_match crc S q aft of
        Inl err \<Rightarrow> Inl err
      | Inr scanned \<Rightarrow> if fast \<noteq> scanned \<and> dbg then Inl AppendPanic else Inr scanned)"

subsection \<open>Evaluating a condition\<close>

record 'm EvalCtx =
  main :: TagTips
  staged :: StagedTips
  index :: "'m IndexSet"
  ctx_set :: SegmentSet
  verify :: bool
  force_scan :: bool

text \<open>\<open>Ok(found.map(ConflictSite::Durable))\<close> after the \<open>?\<close>.\<close>
definition durable :: "AppendError + Position option \<Rightarrow> AppendError + ConflictSite option" where
  "durable r = (case r of Inl e \<Rightarrow> Inl e | Inr found \<Rightarrow> Inr (map_option Durable found))"

definition evaluate_clause ::
  "bool \<Rightarrow> crc_fun \<Rightarrow> 'm fst_crate \<Rightarrow> 'm EvalCtx \<Rightarrow> Query \<Rightarrow> Position \<Rightarrow> AppendError + ConflictSite option" where
  "evaluate_clause dbg crc F ctx q aft =
     (if may_conflict (staged ctx) q then Inr (Some SameBatch)
      else case may_match (main ctx) q aft of
        DefinitelyNoMatch \<Rightarrow>
          if verify ctx then durable (verified_against_scan dbg crc None (ctx_set ctx) q aft) else Inr None
      | Unknown \<Rightarrow>
          if force_scan ctx then durable (scan_for_match crc (ctx_set ctx) q aft)
          else case find_match F (index ctx) q aft of
            Inr found \<Rightarrow>
              if verify ctx then durable (verified_against_scan dbg crc found (ctx_set ctx) q aft)
              else durable (Inr found)
          | Inl IndexPanic \<Rightarrow> Inl AppendPanic
          | Inl _ \<Rightarrow> durable (scan_for_match crc (ctx_set ctx) q aft))"

fun evaluate_clauses ::
  "bool \<Rightarrow> crc_fun \<Rightarrow> 'm fst_crate \<Rightarrow> 'm EvalCtx \<Rightarrow> (ConflictClause \<times> Query \<times> Position) list
     \<Rightarrow> AppendError + (ConflictClause \<times> ConflictSite) option" where
  "evaluate_clauses dbg crc F ctx [] = Inr None"
| "evaluate_clauses dbg crc F ctx ((clause, q, aft) # clauses) =
     (case evaluate_clause dbg crc F ctx q aft of
        Inl err \<Rightarrow> Inl err
      | Inr (Some at) \<Rightarrow> Inr (Some (clause, at))
      | Inr None \<Rightarrow> evaluate_clauses dbg crc F ctx clauses)"

definition evaluate ::
  "bool \<Rightarrow> crc_fun \<Rightarrow> 'm fst_crate \<Rightarrow> AppendCondition \<Rightarrow> TagTips \<Rightarrow> StagedTips \<Rightarrow> 'm IndexSet \<Rightarrow> SegmentSet
     \<Rightarrow> bool \<Rightarrow> bool \<Rightarrow> AppendError + (ConflictClause \<times> ConflictSite) option" where
  "evaluate dbg crc F cond mn st ix S vfy fscan =
     (let ctx = \<lparr>main = mn, staged = st, index = ix, ctx_set = S, verify = vfy, force_scan = fscan\<rparr>;
          clauses = (Boundary, fail_if_events_match cond, after cond) #
            (case fail_if_exists cond of None \<Rightarrow> [] | Some q \<Rightarrow> [(Existence, q, Position_ZERO)])
      in evaluate_clauses dbg crc F ctx clauses)"

subsection \<open>The contract of the durable sources\<close>

text \<open>The first position after the bound whose event matches.\<close>
definition first_match :: "Query \<Rightarrow> Event list \<Rightarrow> Position \<Rightarrow> Position option" where
  "first_match q es aft = List.find (matches_after q es aft) [1..<length es + 1]"

lemma first_match_None:
  "first_match q es aft = None \<longleftrightarrow> (\<forall>p. aft < p \<and> 1 \<le> p \<and> p \<le> length es \<longrightarrow> \<not> Query_matches q (es ! (p - 1)))"
  by (auto simp: first_match_def find_None_iff matches_after_def)

text \<open>
  An oracle over states that represent a log: a given answer is the first match. \<open>rep\<close> is the invariant of the
  state, \<open>ask\<close> the operation; declining to answer is \<open>Inl\<close>.
\<close>
locale match_oracle =
  fixes rep :: "'s \<Rightarrow> Event list \<Rightarrow> bool"
    and ask :: "'s \<Rightarrow> Query \<Rightarrow> Position \<Rightarrow> 'e + Position option"
  assumes answer: "rep s es \<Longrightarrow> wf_Query q \<Longrightarrow> \<forall>e \<in> set es. wf_Event e \<Longrightarrow> ask s q aft = Inr x \<Longrightarrow> x = first_match q es aft"
begin

lemma none_safe:
  assumes "rep s es" and "wf_Query q" and "\<forall>e \<in> set es. wf_Event e" and "ask s q aft = Inr None"
    and "aft < p" and "1 \<le> p" and "p \<le> length es"
  shows "\<not> Query_matches q (es ! (p - 1))"
  using answer [OF assms(1-4)] first_match_None [of q es aft] assms(5-7) by auto

end

text \<open>The durable tips as an oracle: they only ever answer \<open>None\<close>.\<close>
definition ask_tips :: "TagTips \<Rightarrow> Query \<Rightarrow> Position \<Rightarrow> unit + Position option" where
  "ask_tips t q aft = (case may_match t q aft of DefinitelyNoMatch \<Rightarrow> Inr None | Unknown \<Rightarrow> Inl ())"

interpretation tips: match_oracle tips_sound ask_tips
proof
  fix s es q aft x
  assume a: "tips_sound s es" "wf_Query q" "\<forall>e \<in> set es. wf_Event e" "ask_tips s q aft = Inr x"
  then have "may_match s q aft = DefinitelyNoMatch" "x = None" by (auto simp: ask_tips_def split: Verdict.splits)
  then show "x = first_match q es aft" using may_match_sound [OF a(1-3)] first_match_None [of q es aft] by simp
qed

lemma find_match_cases:
  assumes "index_inv F ix es" and "wf_Query q" and "\<forall>e \<in> set es. wf_Event e"
  shows "find_match F ix q aft = Inr (first_match q es aft) \<or> (\<exists>f l. find_match F ix q aft = Inl (Unindexable f l))"
proof (cases "degraded ix aft")
  case True
  then show ?thesis using plan_touched_ok [OF assms, of aft] by (auto simp: find_match_def)
next
  case False
  then obtain plan where p: "plan_touched ix aft = Inr plan"
    "search_plan F q aft plan = Inr (filter (matches_after q es aft) [1..<length es + 1])"
    using plan_touched_ok [OF assms, of aft] by (simp only: if_False) blast
  then have "find_match F ix q aft = Inr (first_match q es aft)"
    using find_in_plan_hd [OF p(2)] by (simp add: find_match_def first_match_def find_filter)
  then show ?thesis ..
qed

interpretation idx: match_oracle "\<lambda>(F, ix) es. index_inv F ix es" "\<lambda>(F, ix). find_match F ix"
proof (unfold_locales, clarify)
  fix F :: "'a fst_crate" and ix es q aft x
  assume a: "index_inv F ix es" "wf_Query q" "\<forall>e \<in> set es. wf_Event e" "find_match F ix q aft = Inr x"
  then show "x = first_match q es aft" using find_match_cases [OF a(1-3), of aft] by auto
qed

lemma scan_loop_ok:
  assumes "\<And>k. scan_items crc k sc = take k (map (\<lambda>p. Inr \<lparr>position = p, rdata = buf (es ! (p - 1))\<rparr>) ps)"
    and "\<forall>p \<in> set ps. wf_Event (es ! (p - 1))"
  shows "scan_loop crc q sc = Inr (List.find (\<lambda>p. Query_matches q (es ! (p - 1))) ps)"
  using assms
proof (induction ps arbitrary: sc)
  case Nil
  then have "fst (scan_next crc sc) = None" using scan_next_of_items [of crc sc "[]"] by simp
  then show ?case by (subst scan_loop.simps) (auto split: prod.splits)
next
  case (Cons p ps)
  obtain sc' where n: "scan_next crc sc = (Some (Inr \<lparr>position = p, rdata = buf (es ! (p - 1))\<rparr>), sc')"
    and rest: "\<And>k. scan_items crc k sc' = take k (map (\<lambda>p. Inr \<lparr>position = p, rdata = buf (es ! (p - 1))\<rparr>) ps)"
    using scan_next_of_items [OF Cons.prems(1)] by (cases "scan_next crc sc") auto
  have "EventRef_from_bytes (buf (es ! (p - 1))) = Inr (es ! (p - 1))" using Cons.prems(2) by (simp add: wf_Event_def)
  then show ?case using Cons.IH [OF rest] Cons.prems(2) n by (subst scan_loop.simps) simp
qed

lemma find_upt_after:
  "List.find P [aft + 1..<n] = List.find (\<lambda>p. aft < p \<and> P p) [1..<n]"
proof (cases "aft + 1 \<le> n")
  case True
  then have "[1..<n] = [1..<aft + 1] @ [aft + 1..<n]" using upt_add_eq_append [of 1 "aft + 1" "n - (aft + 1)"] by simp
  moreover have "List.find (\<lambda>p. aft < p \<and> P p) (xs @ ys) = List.find P ys"
    if "\<forall>x \<in> set xs. x \<le> aft" "\<forall>y \<in> set ys. aft < y" for xs ys
    using that by (induction xs) (auto intro: find_cong)
  ultimately show ?thesis by (simp del: upt_Suc)
next
  case False
  then have "[aft + 1..<n] = []" "List.find (\<lambda>p. aft < p \<and> P p) [1..<n] = None" by (auto simp: find_None_iff)
  then show ?thesis by (simp only: find.simps)
qed

lemma scan_for_match_ok:
  assumes "log_holds (crc, S) es" and "\<forall>e \<in> set es. wf_Event e"
  shows "scan_for_match crc S q aft = Inr (first_match q es aft)"
proof -
  have "\<forall>p \<in> set [aft + 1..<length es + 1]. wf_Event (es ! (p - 1))" using assms(2) by auto
  from scan_loop_ok [OF scan_event_items(2) [OF assms(1)] this, of q] show ?thesis
    by (simp only: scan_for_match_def first_match_def matches_after_def [abs_def] find_upt_after)
qed

interpretation scan: match_oracle log_holds "\<lambda>(crc, S). scan_for_match crc S"
  by unfold_locales (auto simp: scan_for_match_ok)

subsection \<open>Exactness\<close>

text \<open>What the writer keeps between requests: tips, index and log all describe the same events.\<close>
definition ctx_ok :: "crc_fun \<Rightarrow> 'm fst_crate \<Rightarrow> 'm EvalCtx \<Rightarrow> Event list \<Rightarrow> bool" where
  "ctx_ok crc F ctx es \<longleftrightarrow>
     tips_sound (main ctx) es \<and> index_inv F (index ctx) es \<and> log_holds (crc, ctx_set ctx) es \<and> (\<forall>e \<in> set es. wf_Event e)"

text \<open>The specification of a clause: the staged verdict, else the first durable match.\<close>
definition clause_spec :: "StagedTips \<Rightarrow> Query \<Rightarrow> Event list \<Rightarrow> Position \<Rightarrow> ConflictSite option" where
  "clause_spec st q es aft = (if may_conflict st q then Some SameBatch else map_option Durable (first_match q es aft))"

definition condition_spec :: "StagedTips \<Rightarrow> AppendCondition \<Rightarrow> Event list \<Rightarrow> (ConflictClause \<times> ConflictSite) option" where
  "condition_spec st cond es =
     (case clause_spec st (fail_if_events_match cond) es (after cond) of
        Some at \<Rightarrow> Some (Boundary, at)
      | None \<Rightarrow>
          (case fail_if_exists cond of
             None \<Rightarrow> None
           | Some q \<Rightarrow> map_option (Pair Existence) (clause_spec st q es 0)))"

definition wf_condition :: "AppendCondition \<Rightarrow> bool" where
  "wf_condition cond \<longleftrightarrow> wf_Query (fail_if_events_match cond) \<and>
     (case fail_if_exists cond of None \<Rightarrow> True | Some q \<Rightarrow> wf_Query q)"

lemma evaluate_clause_ok:
  assumes "ctx_ok crc F ctx es" and "wf_Query q"
  shows "evaluate_clause dbg crc F ctx q aft = Inr (clause_spec (staged ctx) q es aft)"
proof -
  have c: "tips_sound (main ctx) es" "index_inv F (index ctx) es" "log_holds (crc, ctx_set ctx) es" "\<forall>e \<in> set es. wf_Event e"
    using assms(1) by (auto simp: ctx_ok_def)
  note scan = scan_for_match_ok [OF c(3,4), of q aft]
  have vfy: "verified_against_scan dbg crc (first_match q es aft) (ctx_set ctx) q aft = Inr (first_match q es aft)"
    by (simp add: verified_against_scan_def scan)
  have tips: "first_match q es aft = None" if "may_match (main ctx) q aft = DefinitelyNoMatch"
    using tips.answer [OF c(1) assms(2) c(4), of aft None] that by (simp add: ask_tips_def)
  from find_match_cases [OF c(2) assms(2) c(4), of aft] show ?thesis
    using vfy tips scan
    by (auto simp: evaluate_clause_def clause_spec_def durable_def split: Verdict.splits)
qed

lemma evaluate_ok:
  assumes "ctx_ok crc F \<lparr>main = mn, staged = st, index = ix, ctx_set = S, verify = vfy, force_scan = fscan\<rparr> es"
    and "wf_condition cond"
  shows "evaluate dbg crc F cond mn st ix S vfy fscan = Inr (condition_spec st cond es)"
  using assms(2) evaluate_clause_ok [OF assms(1)]
  by (auto simp: evaluate_def condition_spec_def wf_condition_def Let_def Position_ZERO_def
      split: option.splits)

subsection \<open>Properties\<close>

text \<open>
  C13. The condition verdict is exact: with tips, index and log describing the same events, \<open>evaluate\<close> returns
  no error and its verdict is the specification's, a staged conflict or the first matching event of the log
  after the bound, the boundary clause before the existence clause. It is the same verdict with or without
  the cross-check, with or without the forced scan, for degraded and evicted fast paths, and the debug
  assertion of the cross-check never fires.
\<close>
theorem condition_exact:
  assumes "tips_sound mn es" and "index_inv F ix es" and "log_holds (crc, S) es" and "\<forall>e \<in> set es. wf_Event e"
    and "wf_condition cond"
  shows "evaluate dbg crc F cond mn st ix S vfy fscan = Inr (condition_spec st cond es)"
  using assms(1-4) by (intro evaluate_ok assms(5)) (simp add: ctx_ok_def)

theorem condition_exact_witness:
  "\<exists>S ix. set_append_batch crc_demo 0 (map buf demo_events) demo_set = (Inr (1, 2), S) \<and>
     evaluate True crc_demo fst_demo
       \<lparr>fail_if_events_match = Items [\<lparr>types = [], tags = [Tag [0x62]]\<rparr>], after = 1, fail_if_exists = None\<rparr>
       (TagTips_new 3 10) StagedTips_new ix S True False = Inr (Some (Boundary, Durable 2))"
proof -
  let ?cond = "\<lparr>fail_if_events_match = Items [\<lparr>types = [], tags = [Tag [0x62]]\<rparr>], after = 1, fail_if_exists = None\<rparr>"
  obtain S ix where d: "set_append_batch crc_demo 0 (map buf demo_events) demo_set = (Inr (1, 2), S)"
    "log_holds (crc_demo, S) demo_events" "index_inv fst_demo ix demo_events"
    by (rule demo_store)
  have "length demo_events + 1 = 3" by (simp add: demo_events_def)
  then have tips: "tips_sound (TagTips_new 3 10) demo_events" using tips_new_sound [of demo_events 10] by metis
  have "wf_condition ?cond" "condition_spec StagedTips_new ?cond demo_events = Some (Boundary, Durable 2)" by code_simp+
  then show ?thesis using condition_exact [OF tips d(3,2) demo_events_facts(1)] d(1) by metis
qed

end
