(* ===== verification/ReadPath.thy ===== *)
theory ReadPath
  imports IndexSet
begin

text \<open>
  Off-thread reads (\<open>crates/tephra/src/read/mod.rs\<close>): the published snapshot, the planner and the lending
  iterator \<open>Reads\<close> in both directions.

  A \<open>Snapshot\<close> is what its \<open>Arc\<close>s show at the moment of the read: the active segment and the active tail are
  shared with the writer, so a snapshot captured earlier shows their later contents (the coordinator's
  \<open>live\<close> view). The trait \<open>RecordScan\<close> with its two implementations is a datatype with \<open>scan_next_record\<close>. The
  buffers the iterator lends from and the cached reader's file handle carry no state of their own: a cached
  reader is its segment. An unexpected panic is \<open>ReadPanic\<close>.
\<close>

subsection \<open>Snapshots\<close>

record ReadConfig =
  scan_bias :: nat

definition ReadConfig_default :: ReadConfig where "ReadConfig_default = \<lparr>scan_bias = 4\<rparr>"

record 'm Snapshot =
  sn_header_size :: nat
  sealed_log :: "Segment list"
  sealed_index :: "'m IndexSegment option list"
  active_log :: Segment
  active_index :: ActiveTail

definition sealed_index_arcs :: "'m IndexSet \<Rightarrow> 'm IndexSegment option list" where
  "sealed_index_arcs ix = map six_seg (ix_sealed ix)"

definition capture :: "SegmentSet \<Rightarrow> 'm IndexSet \<Rightarrow> 'm Snapshot" where
  "capture S ix =
     (let arcs = sealed_index_arcs ix
      in \<lparr>sn_header_size = header_size (config S), sealed_log = sealed S,
          sealed_index = map (\<lambda>i. if i < length arcs then arcs ! i else None) [0..<length (sealed S)],
          active_log = active S, active_index = ix_active ix\<rparr>)"

definition snap_source :: "'m Snapshot \<Rightarrow> SegmentSource" where
  "snap_source sn = \<lparr>src_header_size = sn_header_size sn, src_segments = sealed_log sn @ [active_log sn]\<rparr>"

subsection \<open>Errors and scans\<close>

datatype ReadsError = ReadLog LogError | ReadCorrupt DecodeError | Aborted | ReadPanic

record Sequenced =
  sq_position :: Position
  sq_event :: Event

datatype RecordScan = FwdScan Scan | BackScan ScanBack

definition scan_next_record :: "crc_fun \<Rightarrow> RecordScan \<Rightarrow> (LogError + LogRecord) option \<times> RecordScan" where
  "scan_next_record crc rs =
     (case rs of
        FwdScan sc \<Rightarrow> (case scan_next crc sc of (item, sc) \<Rightarrow> (item, FwdScan sc))
      | BackScan sb \<Rightarrow> (case scan_back_next crc sb of (item, sb) \<Rightarrow> (item, BackScan sb)))"

text \<open>A bound on the records a scan still yields: the measure of the loops over it.\<close>
definition records_left :: "RecordScan \<Rightarrow> nat" where
  "records_left rs =
     (case rs of FwdScan sc \<Rightarrow> sc_upto sc + 1 - sc_position sc | BackScan sb \<Rightarrow> sb_position sb + 1 - sb_first sb)"

lemma scan_next_record_progress:
  "scan_next_record crc rs = (Some (Inr r), rs') \<Longrightarrow> records_left rs' < records_left rs"
  by (auto simp: scan_next_record_def records_left_def dest!: scan_next_progress scan_back_next_progress
      split: RecordScan.splits prod.splits)

definition decode_record :: "LogError + LogRecord \<Rightarrow> ReadsError + Sequenced" where
  "decode_record item =
     (case item of
        Inr r \<Rightarrow>
          (case EventRef_from_bytes (rdata r) of
             Inr event \<Rightarrow> Inr \<lparr>sq_position = position r, sq_event = event\<rparr>
           | Inl err \<Rightarrow> Inl (ReadCorrupt err))
      | Inl err \<Rightarrow> Inl (ReadLog err))"

function next_filtered :: "crc_fun \<Rightarrow> Query \<Rightarrow> RecordScan \<Rightarrow> (ReadsError + Sequenced) option \<times> RecordScan" where
  "next_filtered crc q rs =
     (case scan_next_record crc rs of
        (None, rs) \<Rightarrow> (None, rs)
      | (Some (Inl err), rs) \<Rightarrow> (Some (Inl (ReadLog err)), rs)
      | (Some (Inr r), rs) \<Rightarrow>
          (case EventRef_from_bytes (rdata r) of
             Inl err \<Rightarrow> (Some (Inl (ReadCorrupt err)), rs)
           | Inr event \<Rightarrow>
               if Query_matches q event then (Some (Inr \<lparr>sq_position = position r, sq_event = event\<rparr>), rs)
               else next_filtered crc q rs))"
  by pat_completeness auto
termination
  by (relation "measure (\<lambda>(crc, q, rs). records_left rs)") (auto dest: scan_next_record_progress [OF sym])

declare next_filtered.simps [simp del]

subsection \<open>Gathering positions\<close>

text \<open>Whether the gathered list has reached the cap.\<close>
definition capped :: "nat option \<Rightarrow> Position list \<Rightarrow> bool" where
  "capped cap out \<longleftrightarrow> (case cap of Some k \<Rightarrow> length out \<ge> k | None \<Rightarrow> False)"

definition truncate_to :: "nat option \<Rightarrow> Position list \<Rightarrow> Position list" where
  "truncate_to cap out = (case cap of Some k \<Rightarrow> take k out | None \<Rightarrow> out)"

definition extend_capped :: "Position list \<Rightarrow> Position list \<Rightarrow> nat option \<Rightarrow> Position list" where
  "extend_capped out iter cap =
     (case cap of Some k \<Rightarrow> out @ take (k - length out) iter | None \<Rightarrow> out @ iter)"

function scan_positions_matching ::
  "crc_fun \<Rightarrow> Query \<Rightarrow> nat option \<Rightarrow> RecordScan \<Rightarrow> Position list \<Rightarrow> ReadsError + Position list" where
  "scan_positions_matching crc q cap rs out =
     (case scan_next_record crc rs of
        (None, _) \<Rightarrow> Inr out
      | (Some (Inl err), _) \<Rightarrow> Inl (ReadLog err)
      | (Some (Inr r), rs) \<Rightarrow>
          (case EventRef_from_bytes (rdata r) of
             Inl err \<Rightarrow> Inl (ReadCorrupt err)
           | Inr event \<Rightarrow>
               if Query_matches q event
               then (let out = out @ [position r]
                     in if capped cap out then Inr out else scan_positions_matching crc q cap rs out)
               else scan_positions_matching crc q cap rs out))"
  by pat_completeness auto
termination
  by (relation "measure (\<lambda>(crc, q, cap, rs, out). records_left rs)") (auto dest: scan_next_record_progress [OF sym])

declare scan_positions_matching.simps [simp del]

definition first_after :: "Position \<Rightarrow> Position \<Rightarrow> Position" where
  "first_after aft base = max aft (base - 1) + 1"

definition scan_positions_into ::
  "crc_fun \<Rightarrow> 'm Snapshot \<Rightarrow> Query \<Rightarrow> Position \<Rightarrow> Position \<Rightarrow> Position list \<Rightarrow> nat option \<Rightarrow> ReadsError + Position list" where
  "scan_positions_into crc sn q first upper out cap =
     (if capped cap out then Inr out
      else scan_positions_matching crc q cap (FwdScan (Scan_start (snap_source sn) first upper)) out)"

definition scan_positions_back_into ::
  "crc_fun \<Rightarrow> 'm Snapshot \<Rightarrow> Query \<Rightarrow> Position \<Rightarrow> Position \<Rightarrow> Position list \<Rightarrow> nat option \<Rightarrow> ReadsError + Position list" where
  "scan_positions_back_into crc sn q first upper out cap =
     (if capped cap out then Inr out
      else scan_positions_matching crc q cap (BackScan (ScanBack_start (snap_source sn) first upper)) out)"

text \<open>The positions a trusted index gives; a posting list that fails to decode panics.\<close>
definition trusted :: "PostingsError + 'a \<Rightarrow> ReadsError + 'a" where
  "trusted r = (case r of Inl _ \<Rightarrow> Inl ReadPanic | Inr x \<Rightarrow> Inr x)"

definition plan_active ::
  "crc_fun \<Rightarrow> 'm Snapshot \<Rightarrow> Query \<Rightarrow> Position \<Rightarrow> Position \<Rightarrow> nat option \<Rightarrow> Position list \<Rightarrow> ReadsError + Position list" where
  "plan_active crc sn q aft wm cap out =
     (case (if wm \<ge> seg_base (active_log sn)
            then (if at_unindexable (active_index sn)
                  then scan_positions_into crc sn q (first_after aft (seg_base (active_log sn))) wm out cap
                  else case trusted (search (view_index (active_index sn) (tail_view (active_index sn) wm)) q aft) of
                    Inl err \<Rightarrow> Inl err
                  | Inr ps \<Rightarrow> Inr (extend_capped out ps cap))
            else Inr out) of
        Inl err \<Rightarrow> Inl err
      | Inr out \<Rightarrow> Inr (truncate_to cap out))"

fun plan_segments ::
  "crc_fun \<Rightarrow> 'm fst_crate \<Rightarrow> 'm Snapshot \<Rightarrow> Query \<Rightarrow> Position \<Rightarrow> Position \<Rightarrow> nat option
     \<Rightarrow> (Segment \<times> 'm IndexSegment option) list \<Rightarrow> Position list \<Rightarrow> ReadsError + Position list" where
  "plan_segments crc F sn q aft wm cap [] out = plan_active crc sn q aft wm cap out"
| "plan_segments crc F sn q aft wm cap ((seg, index) # rest) out =
     (let base = seg_base seg; cnt = event_count seg; effective_max = min (base + cnt - 1) wm
      in if cnt = 0 \<or> effective_max \<le> aft then plan_segments crc F sn q aft wm cap rest out
         else case (case index of
                Some sg \<Rightarrow>
                  (case trusted (search (seg_index F sg) q aft) of
                     Inl err \<Rightarrow> Inl err
                   | Inr ps \<Rightarrow> Inr (extend_capped out (takeWhile (\<lambda>p. p \<le> wm) ps) cap))
              | None \<Rightarrow> scan_positions_into crc sn q (first_after aft base) effective_max out cap) of
           Inl err \<Rightarrow> Inl err
         | Inr out \<Rightarrow>
             if capped cap out then Inr (truncate_to cap out)
             else plan_segments crc F sn q aft wm cap rest out)"

definition plan_positions ::
  "crc_fun \<Rightarrow> 'm fst_crate \<Rightarrow> 'm Snapshot \<Rightarrow> Query \<Rightarrow> Position \<Rightarrow> Position \<Rightarrow> nat option \<Rightarrow> ReadsError + Position list" where
  "plan_positions crc F sn q aft wm limit =
     plan_segments crc F sn q aft wm limit (zip (sealed_log sn) (sealed_index sn)) []"

fun plan_segments_back ::
  "crc_fun \<Rightarrow> 'm fst_crate \<Rightarrow> 'm Snapshot \<Rightarrow> Query \<Rightarrow> Position \<Rightarrow> nat option
     \<Rightarrow> (Segment \<times> 'm IndexSegment option) list \<Rightarrow> Position list \<Rightarrow> ReadsError + Position list" where
  "plan_segments_back crc F sn q wm cap [] out = Inr (truncate_to cap out)"
| "plan_segments_back crc F sn q wm cap ((seg, index) # rest) out =
     (let base = seg_base seg; cnt = event_count seg; effective_max = min (base + cnt - 1) wm
      in if cnt = 0 \<or> base > wm then plan_segments_back crc F sn q wm cap rest out
         else case (case index of
                Some sg \<Rightarrow>
                  (case trusted (search_back (seg_index F sg) q (min (effective_max + 1) U64_MAX)) of
                     Inl err \<Rightarrow> Inl err
                   | Inr ps \<Rightarrow> Inr (extend_capped out ps cap))
              | None \<Rightarrow> scan_positions_back_into crc sn q base effective_max out cap) of
           Inl err \<Rightarrow> Inl err
         | Inr out \<Rightarrow>
             if capped cap out then Inr (truncate_to cap out)
             else plan_segments_back crc F sn q wm cap rest out)"

definition plan_positions_back ::
  "crc_fun \<Rightarrow> 'm fst_crate \<Rightarrow> 'm Snapshot \<Rightarrow> Query \<Rightarrow> Position \<Rightarrow> nat option \<Rightarrow> ReadsError + Position list" where
  "plan_positions_back crc F sn q upper limit =
     (let segments = rev (zip (sealed_log sn) (sealed_index sn))
      in if upper \<ge> seg_base (active_log sn)
         then case (if at_unindexable (active_index sn)
                    then scan_positions_back_into crc sn q (seg_base (active_log sn)) upper [] limit
                    else case trusted (search_back (view_index (active_index sn) (tail_view (active_index sn) upper)) q
                                         (min (upper + 1) U64_MAX)) of
                      Inl err \<Rightarrow> Inl err
                    | Inr ps \<Rightarrow> Inr (extend_capped [] ps limit)) of
             Inl err \<Rightarrow> Inl err
           | Inr out \<Rightarrow>
               if capped limit out then Inr (truncate_to limit out)
               else plan_segments_back crc F sn q upper limit segments out
         else plan_segments_back crc F sn q upper limit segments [])"

subsection \<open>The planner\<close>

definition segment_width :: "Position \<Rightarrow> Position \<Rightarrow> nat \<Rightarrow> nat" where
  "segment_width aft base effective_max = effective_max + 1 - first_after aft base"

fun estimate_sealed ::
  "'m fst_crate \<Rightarrow> Query \<Rightarrow> Position \<Rightarrow> Position \<Rightarrow> (Segment \<times> 'm IndexSegment option) list \<Rightarrow> nat \<times> nat
     \<Rightarrow> ReadsError + nat \<times> nat" where
  "estimate_sealed F q aft wm [] ew = Inr ew"
| "estimate_sealed F q aft wm ((seg, index) # rest) (estimate, width) =
     (let base = seg_base seg; cnt = event_count seg; effective_max = min (base + cnt - 1) wm
      in if cnt = 0 \<or> effective_max \<le> aft then estimate_sealed F q aft wm rest (estimate, width)
         else
           let seg_width = segment_width aft base effective_max
           in case (case index of
                Some sg \<Rightarrow> trusted (estimate_matches (seg_index F sg) q seg_width)
              | None \<Rightarrow> Inr seg_width) of
                Inl err \<Rightarrow> Inl err
              | Inr n \<Rightarrow> estimate_sealed F q aft wm rest (estimate + n, width + seg_width))"

definition estimate_read ::
  "'m fst_crate \<Rightarrow> 'm Snapshot \<Rightarrow> Query \<Rightarrow> Position \<Rightarrow> Position \<Rightarrow> ReadsError + nat \<times> nat" where
  "estimate_read F sn q aft wm =
     (case estimate_sealed F q aft wm (zip (sealed_log sn) (sealed_index sn)) (0, 0) of
        Inl err \<Rightarrow> Inl err
      | Inr (estimate, width) \<Rightarrow>
          if wm \<ge> seg_base (active_log sn)
          then
            let seg_width = segment_width aft (seg_base (active_log sn)) wm
            in case (if at_unindexable (active_index sn) then Inr seg_width
                     else trusted (estimate_matches (view_index (active_index sn) (tail_view (active_index sn) wm)) q seg_width)) of
                 Inl err \<Rightarrow> Inl err
               | Inr n \<Rightarrow> Inr (min (estimate + n) (width + seg_width), width + seg_width)
          else Inr (min estimate width, width))"

subsection \<open>The iterator\<close>

datatype Direction = Forward | Backward

datatype 'm Mode =
    ModeScan Scan
  | ModeScanFiltered Scan Query
  | ModeScanBack ScanBack
  | ModeScanBackFiltered ScanBack Query
  | ModeIndexed "'m Snapshot" "Position list" "(nat \<times> Segment) option"
  | ModeDone

record 'm Reads =
  rd_watermark :: Position
  rd_pending_err :: "ReadsError option"
  rd_remaining :: "nat option"
  rd_hit_limit :: bool
  rd_mode :: "'m Mode"

definition is_exhausted :: "'m Reads \<Rightarrow> bool" where
  "is_exhausted r \<longleftrightarrow> \<not> rd_hit_limit r"

definition reads_of :: "Position \<Rightarrow> nat option \<Rightarrow> ReadsError + 'm Mode \<Rightarrow> 'm Reads" where
  "reads_of wm limit planned =
     (case planned of
        Inr mode \<Rightarrow>
          \<lparr>rd_watermark = wm, rd_pending_err = None, rd_remaining = limit, rd_hit_limit = False, rd_mode = mode\<rparr>
      | Inl err \<Rightarrow>
          \<lparr>rd_watermark = wm, rd_pending_err = Some err, rd_remaining = limit, rd_hit_limit = False, rd_mode = ModeDone\<rparr>)"

text \<open>The streaming modes of a broad query.\<close>
definition scan_mode :: "Direction \<Rightarrow> 'm Snapshot \<Rightarrow> Query \<Rightarrow> Position \<Rightarrow> Position \<Rightarrow> ReadsError + 'm Mode" where
  "scan_mode direction sn q aft upper =
     (case Position_next aft of
        None \<Rightarrow> Inl ReadPanic
      | Some first \<Rightarrow>
          Inr (case direction of
             Forward \<Rightarrow>
               (let scan = Scan_start (snap_source sn) first upper
                in if q = All then ModeScan scan else ModeScanFiltered scan q)
           | Backward \<Rightarrow>
               (let scan = ScanBack_start (snap_source sn) first upper
                in if q = All then ModeScanBack scan else ModeScanBackFiltered scan q)))"

text \<open>\<open>plan_directional\<close>; a panic of the planner is a pending \<open>ReadPanic\<close>.\<close>
definition plan_directional ::
  "crc_fun \<Rightarrow> 'm fst_crate \<Rightarrow> Direction \<Rightarrow> 'm Snapshot \<Rightarrow> Query \<Rightarrow> Position \<Rightarrow> Position \<Rightarrow> Position \<Rightarrow> ReadConfig
     \<Rightarrow> nat option \<Rightarrow> 'm Reads" where
  "plan_directional crc F direction sn q aft upper wm cfg limit =
     (if aft \<ge> upper \<or> limit = Some 0 then reads_of wm limit (Inr ModeDone)
      else case estimate_read F sn q aft upper of
        Inl err \<Rightarrow> reads_of wm limit (Inl err)
      | Inr (estimate, width) \<Rightarrow>
          (case choose_access estimate width (scan_bias cfg) of
             AccScan \<Rightarrow> reads_of wm limit (scan_mode direction sn q aft upper)
           | Index \<Rightarrow>
               (case (case direction of
                        Forward \<Rightarrow> plan_positions crc F sn q aft upper limit
                      | Backward \<Rightarrow> plan_positions_back crc F sn q upper limit) of
                  Inr positions \<Rightarrow> reads_of wm limit (Inr (ModeIndexed sn positions None))
                | Inl err \<Rightarrow> reads_of wm limit (Inl err))))"

definition Reads_plan ::
  "crc_fun \<Rightarrow> 'm fst_crate \<Rightarrow> 'm Snapshot \<Rightarrow> Query \<Rightarrow> Position \<Rightarrow> Position \<Rightarrow> ReadConfig \<Rightarrow> nat option \<Rightarrow> 'm Reads" where
  "Reads_plan crc F sn q aft wm cfg limit = plan_directional crc F Forward sn q aft wm wm cfg limit"

definition Reads_plan_back ::
  "crc_fun \<Rightarrow> 'm fst_crate \<Rightarrow> 'm Snapshot \<Rightarrow> Query \<Rightarrow> Position \<Rightarrow> Position \<Rightarrow> ReadConfig \<Rightarrow> nat option \<Rightarrow> 'm Reads" where
  "Reads_plan_back crc F sn q upper wm cfg limit = plan_directional crc F Backward sn q Position_ZERO upper wm cfg limit"

text \<open>Fetching one planned position, with the cached reader (its segment) before and after.\<close>
definition fetch_indexed ::
  "crc_fun \<Rightarrow> 'm Snapshot \<Rightarrow> Position \<Rightarrow> (nat \<times> Segment) option \<Rightarrow> (ReadsError + Sequenced) \<times> (nat \<times> Segment) option" where
  "fetch_indexed crc sn pos reader =
     (case src_locate (snap_source sn) pos of
        None \<Rightarrow> (Inl (ReadLog (NotFound pos)), reader)
      | Some (seg_idx, _) \<Rightarrow>
          (case (if map_option fst reader \<noteq> Some seg_idx
                 then map_option (Pair seg_idx) (segment_at (snap_source sn) seg_idx) else reader) of
             None \<Rightarrow> (Inl ReadPanic, reader)
           | Some (idx, segment) \<Rightarrow>
               (if pos < seg_base segment then Inl ReadPanic
                else case read_at_local crc segment (pos - seg_base segment) of
                  Inr (Some r) \<Rightarrow>
                    (case EventRef_from_bytes (rdata r) of
                       Inr event \<Rightarrow> Inr \<lparr>sq_position = pos, sq_event = event\<rparr>
                     | Inl err \<Rightarrow> Inl (ReadCorrupt err))
                | Inr None \<Rightarrow> Inl (ReadLog (NotFound pos))
                | Inl err \<Rightarrow> Inl (ReadLog err),
                Some (idx, segment))))"

text \<open>The next item of a mode and the mode after it.\<close>
definition mode_next :: "crc_fun \<Rightarrow> 'm Mode \<Rightarrow> (ReadsError + Sequenced) option \<times> 'm Mode" where
  "mode_next crc mode =
     (case mode of
        ModeDone \<Rightarrow> (None, ModeDone)
      | ModeScan sc \<Rightarrow> (case scan_next crc sc of (item, sc) \<Rightarrow> (map_option decode_record item, ModeScan sc))
      | ModeScanBack sb \<Rightarrow> (case scan_back_next crc sb of (item, sb) \<Rightarrow> (map_option decode_record item, ModeScanBack sb))
      | ModeScanFiltered sc q \<Rightarrow>
          (case next_filtered crc q (FwdScan sc) of
             (item, FwdScan sc) \<Rightarrow> (item, ModeScanFiltered sc q)
           | (item, BackScan sb) \<Rightarrow> (item, ModeScanBackFiltered sb q))
      | ModeScanBackFiltered sb q \<Rightarrow>
          (case next_filtered crc q (BackScan sb) of
             (item, FwdScan sc) \<Rightarrow> (item, ModeScanFiltered sc q)
           | (item, BackScan sb) \<Rightarrow> (item, ModeScanBackFiltered sb q))
      | ModeIndexed sn [] reader \<Rightarrow> (None, mode)
      | ModeIndexed sn (pos # positions) reader \<Rightarrow>
          (case fetch_indexed crc sn pos reader of (item, reader) \<Rightarrow> (Some item, ModeIndexed sn positions reader)))"

definition Reads_next :: "crc_fun \<Rightarrow> 'm Reads \<Rightarrow> (ReadsError + Sequenced) option \<times> 'm Reads" where
  "Reads_next crc r =
     (case rd_pending_err r of
        Some err \<Rightarrow> (Some (Inl err), r\<lparr>rd_pending_err := None, rd_mode := ModeDone\<rparr>)
      | None \<Rightarrow>
          if rd_remaining r = Some 0 then (None, r\<lparr>rd_hit_limit := True, rd_mode := ModeDone\<rparr>)
          else
            case mode_next crc (rd_mode r) of
              (item, mode) \<Rightarrow>
                (item, r\<lparr>rd_remaining := map_option (\<lambda>n. n - 1) (rd_remaining r), rd_mode := mode\<rparr>))"

definition mode_left :: "'m Mode \<Rightarrow> nat" where
  "mode_left mode =
     (case mode of
        ModeScan sc \<Rightarrow> records_left (FwdScan sc) | ModeScanFiltered sc _ \<Rightarrow> records_left (FwdScan sc)
      | ModeScanBack sb \<Rightarrow> records_left (BackScan sb) | ModeScanBackFiltered sb _ \<Rightarrow> records_left (BackScan sb)
      | ModeIndexed _ positions _ \<Rightarrow> length positions | ModeDone \<Rightarrow> 0)"

lemma next_filtered_progress:
  "next_filtered crc q rs = (Some (Inr s), rs') \<Longrightarrow> records_left rs' < records_left rs"
proof (induction crc q rs rule: next_filtered.induct)
  case (1 crc q rs)
  show ?case
  proof (cases "\<exists>r rs1. scan_next_record crc rs = (Some (Inr r), rs1)")
    case True
    then obtain r rs1 where n: "scan_next_record crc rs = (Some (Inr r), rs1)" by blast
    from 1(2) n show ?thesis
      using 1(1) [OF n [symmetric]] scan_next_record_progress [OF n]
      by (subst (asm) next_filtered.simps) (fastforce split: sum.splits if_splits)
  next
    case False
    then show ?thesis using 1(2) by (subst (asm) next_filtered.simps) (auto split: prod.splits option.splits sum.splits)
  qed
qed

lemma mode_next_progress:
  "mode_next crc mode = (Some (Inr s), mode') \<Longrightarrow> mode_left mode' < mode_left mode"
  using scan_next_record_progress [of crc "FwdScan sc" for sc] scan_next_record_progress [of crc "BackScan sb" for sb]
  by (cases mode)
    (fastforce simp: mode_next_def mode_left_def scan_next_record_def decode_record_def
      dest: next_filtered_progress split: prod.splits RecordScan.splits list.splits sum.splits)+

text \<open>\<open>collect_owned\<close>: drains the read, stopping at the first error.\<close>
function collect_from :: "crc_fun \<Rightarrow> 'm Reads \<Rightarrow> (Position \<times> Event) list \<Rightarrow> ReadsError + (Position \<times> Event) list" where
  "collect_from crc r out =
     (case Reads_next crc r of
        (None, _) \<Rightarrow> Inr out
      | (Some (Inl err), _) \<Rightarrow> Inl err
      | (Some (Inr s), r) \<Rightarrow> collect_from crc r (out @ [(sq_position s, sq_event s)]))"
  by pat_completeness auto
termination
  by (relation "measure (\<lambda>(crc, r, out). mode_left (rd_mode r))")
    (auto simp: Reads_next_def dest!: mode_next_progress split: option.splits if_splits prod.splits)

declare collect_from.simps [simp del]

definition collect_owned :: "crc_fun \<Rightarrow> 'm Reads \<Rightarrow> ReadsError + (Position \<times> Event) list" where
  "collect_owned crc r = collect_from crc r []"

subsection \<open>Draining an iterator\<close>

text \<open>Calling \<open>nxt\<close> from a state yields exactly these items and then ends.\<close>
inductive drains :: "('s \<Rightarrow> ('e + 'a) option \<times> 's) \<Rightarrow> 's \<Rightarrow> 'a list \<Rightarrow> bool" for nxt where
  drains_end: "nxt s = (None, s') \<Longrightarrow> drains nxt s []"
| drains_item: "\<lbrakk>nxt s = (Some (Inr a), s'); drains nxt s' xs\<rbrakk> \<Longrightarrow> drains nxt s (a # xs)"

inductive_cases drains_NilE: "drains nxt s []"
inductive_cases drains_ConsE: "drains nxt s (x # xs)"

lemma drains_endI: "fst (nxt s) = None \<Longrightarrow> drains nxt s []"
  by (metis drains_end prod.collapse)

lemma drains_same: "nxt s = nxt s' \<Longrightarrow> drains nxt s' xs \<Longrightarrow> drains nxt s xs"
  by (erule drains.cases) (auto intro: drains.intros)

definition event_record :: "Event list \<Rightarrow> Position \<Rightarrow> LogRecord" where
  "event_record es p = \<lparr>position = p, rdata = buf (es ! (p - 1))\<rparr>"

definition sequenced :: "Event list \<Rightarrow> Position \<Rightarrow> Sequenced" where
  "sequenced es p = \<lparr>sq_position = p, sq_event = es ! (p - 1)\<rparr>"

lemma scan_items_drain:
  assumes "\<And>k. scan_items crc k sc = take k (map Inr xs)"
  shows "drains (scan_next crc) sc xs"
  using assms
proof (induction xs arbitrary: sc)
  case Nil
  then show ?case using scan_next_of_items [of crc sc "[]"] by (cases "scan_next crc sc") (auto intro: drains_end)
next
  case (Cons x xs)
  obtain sc' where n: "scan_next crc sc = (Some (Inr x), sc')" "\<And>k. scan_items crc k sc' = take k (map Inr xs)"
    using scan_next_of_items [OF Cons.prems] by (cases "scan_next crc sc") auto
  then show ?case using Cons.IH by (auto intro: drains_item)
qed

lemma scan_back_items_drain:
  assumes "\<And>k. scan_back_items crc k sb = take k (map Inr xs)"
  shows "drains (scan_back_next crc) sb xs"
  using assms
proof (induction xs arbitrary: sb)
  case Nil
  have "scan_back_items crc (Suc 0) sb = []" by (simp only: Nil take_Nil list.map)
  then show ?case by (cases "scan_back_next crc sb") (auto intro: drains_end split: option.splits)
next
  case (Cons x xs)
  obtain r sb' where n: "scan_back_next crc sb = (r, sb')" by fastforce
  have "scan_back_items crc (Suc k) sb = Inr x # take k (map Inr xs)" for k using Cons.prems [of "Suc k"] by simp
  then have c: "(case r of None \<Rightarrow> [] | Some item \<Rightarrow> item # scan_back_items crc k sb') = Inr x # take k (map Inr xs)" for k
    using n by simp
  then have "r = Some (Inr x)" using c [of 0] by (cases r) auto
  moreover from this c have "scan_back_items crc k sb' = take k (map Inr xs)" for k by simp
  ultimately show ?case using n Cons.IH by (auto intro: drains_item)
qed

lemma drains_forward: "drains (scan_next crc) sc xs \<Longrightarrow> drains (scan_next_record crc) (FwdScan sc) xs"
  by (induction rule: drains.induct) (auto intro: drains.intros simp: scan_next_record_def)

lemma drains_backward: "drains (scan_back_next crc) sb xs \<Longrightarrow> drains (scan_next_record crc) (BackScan sb) xs"
  by (induction rule: drains.induct) (auto intro: drains.intros simp: scan_next_record_def)

lemma drains_filtered:
  assumes "drains (scan_next_record crc) rs (map (event_record es) ps)" and "\<forall>p \<in> set ps. wf_Event (es ! (p - 1))"
  shows "drains (next_filtered crc q) rs (map (sequenced es) (filter (\<lambda>p. Query_matches q (es ! (p - 1))) ps))"
  using assms
proof (induction ps arbitrary: rs)
  case Nil
  then obtain rs' where "scan_next_record crc rs = (None, rs')" by (auto elim: drains_NilE)
  then have "next_filtered crc q rs = (None, rs')" by (subst next_filtered.simps) simp
  then show ?case by (auto intro: drains_end)
next
  case (Cons p ps)
  then obtain rs' where n: "scan_next_record crc rs = (Some (Inr (event_record es p)), rs')"
    "drains (scan_next_record crc) rs' (map (event_record es) ps)"
    by (auto elim: drains_ConsE)
  have d: "EventRef_from_bytes (buf (es ! (p - 1))) = Inr (es ! (p - 1))" using Cons.prems(2) by (simp add: wf_Event_def)
  have step: "next_filtered crc q rs =
      (if Query_matches q (es ! (p - 1)) then (Some (Inr (sequenced es p)), rs') else next_filtered crc q rs')"
    using n(1) d by (subst next_filtered.simps) (simp add: event_record_def sequenced_def)
  show ?case
    using Cons.IH [OF n(2)] Cons.prems(2) step
    by (cases "Query_matches q (es ! (p - 1))") (auto intro: drains_item drains_same)
qed

lemma extend_capped_truncate: "\<not> capped cap out \<Longrightarrow> extend_capped out xs cap = truncate_to cap (out @ xs)"
  by (auto simp: extend_capped_def capped_def truncate_to_def split: option.splits)

lemma truncate_all: "\<not> capped cap xs \<Longrightarrow> truncate_to cap xs = xs"
  by (auto simp: capped_def truncate_to_def split: option.splits)

lemma truncate_append: "capped cap xs \<Longrightarrow> truncate_to cap (xs @ ys) = truncate_to cap xs"
  by (auto simp: capped_def truncate_to_def split: option.splits)

lemma capped_truncate: "cap \<noteq> Some 0 \<Longrightarrow> capped cap (truncate_to cap xs) \<longleftrightarrow> capped cap xs"
  by (auto simp: capped_def truncate_to_def split: option.splits)

lemma truncate_idem [simp]: "truncate_to cap (truncate_to cap xs) = truncate_to cap xs"
  by (auto simp: truncate_to_def split: option.splits)

lemma scan_positions_drain:
  assumes "drains (scan_next_record crc) rs (map (event_record es) ps)" and "\<forall>p \<in> set ps. wf_Event (es ! (p - 1))"
    and "\<not> capped cap out"
  shows "scan_positions_matching crc q cap rs out =
         Inr (truncate_to cap (out @ filter (\<lambda>p. Query_matches q (es ! (p - 1))) ps))"
  using assms
proof (induction ps arbitrary: rs out)
  case Nil
  then obtain rs' where "scan_next_record crc rs = (None, rs')" by (auto elim: drains_NilE)
  then show ?case using Nil.prems(3) by (subst scan_positions_matching.simps) (simp add: truncate_all)
next
  case (Cons p ps)
  then obtain rs' where n: "scan_next_record crc rs = (Some (Inr (event_record es p)), rs')"
    "drains (scan_next_record crc) rs' (map (event_record es) ps)"
    by (auto elim: drains_ConsE)
  have d: "EventRef_from_bytes (buf (es ! (p - 1))) = Inr (es ! (p - 1))" using Cons.prems(2) by (simp add: wf_Event_def)
  have wf: "\<forall>p \<in> set ps. wf_Event (es ! (p - 1))" using Cons.prems(2) by simp
  have eq: "capped cap (out @ [p]) \<Longrightarrow> truncate_to cap (out @ p # filter P ps) = out @ [p]" for P
    using Cons.prems(3) by (auto simp: capped_def truncate_to_def take_Cons' split: option.splits)
  show ?case
    using Cons.IH [OF n(2) wf] n(1) d Cons.prems(3) eq
    by (subst scan_positions_matching.simps) (simp add: event_record_def Let_def)
qed

subsection \<open>What a snapshot shows\<close>

definition index_shows :: "'m fst_crate \<Rightarrow> Event list \<Rightarrow> Segment \<Rightarrow> 'm IndexSegment option \<Rightarrow> bool" where
  "index_shows F es seg index \<longleftrightarrow>
     (case index of
        None \<Rightarrow> True
      | Some sg \<Rightarrow> ih_base_position (is_header sg) = seg_base seg \<and>
                  seg_rep (F, sg) (map parts_of (range_events es (seg_base seg) (event_count seg))))"

text \<open>
  A snapshot shows the events \<open>es\<close>: its segments hold them, each sealed index covers its segment or is absent,
  and the active tail covers the active segment unless it is marked unindexable.
\<close>
definition snap_ok :: "crc_fun \<Rightarrow> 'm fst_crate \<Rightarrow> 'm Snapshot \<Rightarrow> Event list \<Rightarrow> bool" where
  "snap_ok crc F sn es \<longleftrightarrow>
     src_ok crc (snap_source sn) \<and> src_log (snap_source sn) = map buf es \<and> (\<forall>e \<in> set es. wf_Event e) \<and>
     length es < U64_MAX \<and> list_all2 (index_shows F es) (sealed_log sn) (sealed_index sn) \<and>
     at_base (active_index sn) = seg_base (active_log sn) \<and>
     (\<not> at_unindexable (active_index sn) \<longrightarrow>
        tail_inv (active_index sn) (map parts_of (drop (seg_base (active_log sn) - 1) es)))"

text \<open>A segment's records fit a 32-bit count.\<close>
lemma seg_holds_count:
  assumes "seg_holds crc hdr seg fs"
  shows "event_count seg \<le> U32_MAX"
proof -
  have "length (data_offsets cur fs) \<le> frames_len fs" for cur
    by (induction fs arbitrary: cur) (fastforce simp: frame_len_def RECORD_HEAD_SIZE_8 intro: order_trans)+
  moreover obtain rest where "drop hdr (take (reader_flushed seg) (seg_file seg)) = concat (map (frame_bytes crc) fs) @ rest"
    using assms by (auto simp: seg_holds_def)
  then have "frames_len fs \<le> length (drop hdr (take (reader_flushed seg) (seg_file seg)))" by simp
  ultimately show ?thesis
    using assms by (auto simp: seg_holds_def event_count_def intro: order_trans)
qed

text \<open>A position a read of \<open>(aft, wm]\<close> returns.\<close>
definition hit :: "Query \<Rightarrow> Event list \<Rightarrow> Position \<Rightarrow> Position \<Rightarrow> Position \<Rightarrow> bool" where
  "hit q es aft wm p \<longleftrightarrow> aft < p \<and> p \<le> wm \<and> Query_matches q (es ! (p - 1))"

lemma filter_upt_eq:
  assumes "\<And>x. a \<le> x \<and> x < b \<and> P x \<longleftrightarrow> c \<le> x \<and> x < d \<and> Q x"
  shows "filter P [a..<b] = filter Q [c..<d]"
proof (rule strict_sorted_equal)
  show "set (filter P [a..<b]) = set (filter Q [c..<d])" using assms by auto
qed (simp_all add: sorted_wrt_filter)

lemma filter_hit_split: "\<lbrakk>a \<le> b; b \<le> e\<rbrakk> \<Longrightarrow> filter P [a..<e] = filter P [a..<b] @ filter P [b..<e]" for b :: nat
  using upt_add_eq_append [of a b "e - b"] by simp

lemma takeWhile_filter_upt: "takeWhile (\<lambda>p. p \<le> wm) (filter P [a..<b]) = filter (\<lambda>p. P p \<and> p \<le> wm) [a..<b]"
proof -
  have "sorted xs \<Longrightarrow> takeWhile (\<lambda>p. p \<le> wm) xs = filter (\<lambda>p. p \<le> wm) xs" for xs :: "nat list"
    by (induction xs) (fastforce intro!: sym [of "filter _ _" "[]"] simp: filter_empty_conv)+
  then show ?thesis by (simp add: sorted_wrt_filter conj_commute)
qed

lemma snap_ok_parts:
  assumes "snap_ok crc F sn es"
  shows "src_ok crc (snap_source sn)" and "src_log (snap_source sn) = map buf es" and "\<forall>e \<in> set es. wf_Event e"
    and "length es < U64_MAX" and "contiguous 1 (sealed_log sn) (seg_base (active_log sn))"
    and "1 \<le> seg_base (active_log sn)" and "seg_base (active_log sn) + event_count (active_log sn) = length es + 1"
    and "length (sealed_index sn) = length (sealed_log sn)"
    and "(seg, index) \<in> set (zip (sealed_log sn) (sealed_index sn)) \<Longrightarrow> index_shows F es seg index"
    and "length es + 1 - seg_base (active_log sn) \<le> U32_MAX"
proof -
  show p: "src_ok crc (snap_source sn)" "src_log (snap_source sn) = map buf es" "\<forall>e \<in> set es. wf_Event e" "length es < U64_MAX"
    using assms by (auto simp: snap_ok_def)
  have "contiguous 1 (sealed_log sn @ [active_log sn]) (length es + 1)"
    using p(1,2) by (simp add: src_ok_def tiled_def snap_source_def FIRST_POSITION_def)
  then show c: "contiguous 1 (sealed_log sn) (seg_base (active_log sn))"
    and n: "seg_base (active_log sn) + event_count (active_log sn) = length es + 1"
    by (auto simp: contiguous_append)
  obtain fs where "seg_holds crc (sn_header_size sn) (active_log sn) fs"
    using p(1) by (auto simp: src_ok_def snap_source_def)
  then show "length es + 1 - seg_base (active_log sn) \<le> U32_MAX" using seg_holds_count n by fastforce
  show "1 \<le> seg_base (active_log sn)" using contiguous_end [OF c] by simp
  show "length (sealed_index sn) = length (sealed_log sn)"
    and "(seg, index) \<in> set (zip (sealed_log sn) (sealed_index sn)) \<Longrightarrow> index_shows F es seg index"
    using assms by (auto simp: snap_ok_def list_all2_iff)
qed

lemma event_records:
  assumes "\<forall>p \<in> set ps. 1 \<le> p \<and> p \<le> length es"
  shows "map (\<lambda>p. Inr \<lparr>position = p, rdata = map buf es ! (p - 1)\<rparr>) ps = map Inr (map (event_record es) ps)"
  using assms by (auto simp: event_record_def)

lemma snap_scan:
  assumes "snap_ok crc F sn es" and "wm \<le> length es" and "1 \<le> first"
  shows "drains (scan_next crc) (Scan_start (snap_source sn) first wm) (map (event_record es) [first..<wm + 1])"
proof (rule scan_items_drain)
  fix k
  note p = snap_ok_parts [OF assms(1)]
  have "scan_items crc k (Scan_start (snap_source sn) first wm) =
      take k (map (\<lambda>p. Inr \<lparr>position = p, rdata = map buf es ! (p - 1)\<rparr>) [first..<Suc wm])"
    using scan_start_items [OF p(1), of wm k first] p(2,4) assms(2,3) by simp
  also have "\<dots> = take k (map Inr (map (event_record es) [first..<wm + 1]))"
    using assms(2,3) by (subst event_records) auto
  finally show "scan_items crc k (Scan_start (snap_source sn) first wm) = take k (map Inr (map (event_record es) [first..<wm + 1]))" .
qed

lemma snap_scan_back:
  assumes "snap_ok crc F sn es" and "wm \<le> length es" and "1 \<le> first"
  shows "drains (scan_back_next crc) (ScanBack_start (snap_source sn) first wm) (map (event_record es) (rev [first..<wm + 1]))"
proof (rule scan_back_items_drain)
  fix k
  note p = snap_ok_parts [OF assms(1)]
  have "max first 1 = first" using assms(3) by simp
  then have "scan_back_items crc k (ScanBack_start (snap_source sn) first wm) =
      take k (map (\<lambda>p. Inr \<lparr>position = p, rdata = map buf es ! (p - 1)\<rparr>) (rev [first..<Suc wm]))"
    using scan_back_start_items [OF p(1), of wm k first REVERSE_WINDOW_BYTES] p(2) assms(2)
    by (simp add: ScanBack_start_def)
  also have "\<dots> = take k (map Inr (map (event_record es) (rev [first..<wm + 1])))"
    using assms(2,3) by (subst event_records) auto
  finally show "scan_back_items crc k (ScanBack_start (snap_source sn) first wm) =
      take k (map Inr (map (event_record es) (rev [first..<wm + 1])))" .
qed

subsection \<open>Gathering is exact\<close>

text \<open>The sealed index of a segment and the view of the active tail, searched in both directions.\<close>
lemma sealed_search:
  assumes "index_shows F es seg (Some sg)" and "wf_Query q" and "\<forall>e \<in> set es. wf_Event e" and "1 \<le> seg_base seg"
    and "seg_base seg - 1 + event_count seg \<le> length es"
  shows "search (seg_index F sg) q aft = Inr (filter (matches_after q es aft) [seg_base seg..<seg_base seg + event_count seg])"
    and "search_back (seg_index F sg) q bef =
         Inr (rev (filter (\<lambda>p. p < bef \<and> Query_matches q (es ! (p - 1))) [seg_base seg..<seg_base seg + event_count seg]))"
proof -
  have rep: "seg_rep (F, sg) (map parts_of (range_events es (seg_base seg) (event_count seg)))"
    and base: "ix_base (seg_index F sg) = seg_base seg"
    using assms(1) by (simp_all add: index_shows_def seg_index_def)
  note s = seg.search_exact [OF rep, of q, unfolded prod.case base]
  note r = range_matches [OF assms(2-5)]
  show "search (seg_index F sg) q aft = Inr (filter (matches_after q es aft) [seg_base seg..<seg_base seg + event_count seg])"
    using s(1) r by simp
  have "map (\<lambda>i. seg_base seg + i) (matching q (map parts_of (range_events es (seg_base seg) (event_count seg)))) =
      filter (matches_after q es 0) [seg_base seg..<seg_base seg + event_count seg]"
    using r [of 0] assms(4) by (simp add: filter_map comp_def)
  then show "search_back (seg_index F sg) q bef =
      Inr (rev (filter (\<lambda>p. p < bef \<and> Query_matches q (es ! (p - 1))) [seg_base seg..<seg_base seg + event_count seg]))"
    using s(2) [of bef] assms(4) by (auto simp: matches_after_def intro!: filter_cong)
qed

lemma active_rep:
  assumes "snap_ok crc F sn es" and "\<not> at_unindexable (active_index sn)"
    and "seg_base (active_log sn) \<le> wm" and "wm \<le> length es"
  shows "view_rep (active_index sn, tail_view (active_index sn) wm)
           (map parts_of (range_events es (seg_base (active_log sn)) (wm + 1 - seg_base (active_log sn))))"
proof -
  let ?t = "active_index sn" and ?b = "seg_base (active_log sn)"
  note p = snap_ok_parts [OF assms(1)]
  have inv: "tail_inv ?t (map parts_of (drop (?b - 1) es))" "length es + 1 - ?b \<le> U32_MAX" "at_base ?t = ?b"
    using assms(1,2) p(10) by (auto simp: snap_ok_def)
  have n: "visible_len ?t wm = wm + 1 - ?b" "wm + 1 - ?b \<le> length (map parts_of (drop (?b - 1) es))"
    using assms(3,4) inv(2,3) p(6) by (auto simp: visible_len_def)
  show ?thesis
    using view_rep_later(1) [OF inv(1) _ tail_grows_refl n(2), of "[]"] inv(1) n(1)
    by (simp add: tail_view_def range_events_def take_map)
qed

lemma active_search:
  assumes "snap_ok crc F sn es" and "wf_Query q" and "\<not> at_unindexable (active_index sn)"
    and "seg_base (active_log sn) \<le> wm" and "wm \<le> length es"
  shows "search (view_index (active_index sn) (tail_view (active_index sn) wm)) q aft =
         Inr (filter (matches_after q es aft) [seg_base (active_log sn)..<wm + 1])"
    and "search_back (view_index (active_index sn) (tail_view (active_index sn) wm)) q bef =
         Inr (rev (filter (\<lambda>p. p < bef \<and> Query_matches q (es ! (p - 1))) [seg_base (active_log sn)..<wm + 1]))"
proof -
  let ?t = "active_index sn" and ?b = "seg_base (active_log sn)"
  define n where "n = wm + 1 - ?b"
  note p = snap_ok_parts [OF assms(1)]
  have n: "?b - 1 + n \<le> length es" "?b + n = wm + 1" using assms(4,5) p(6) by (auto simp: n_def)
  have rep: "view_rep (?t, tail_view ?t wm) (map parts_of (range_events es ?b n))"
    unfolding n_def by (rule active_rep [OF assms(1,3-5)])
  have base: "ix_base (view_index ?t (tail_view ?t wm)) = ?b"
    using assms(1) by (simp add: view_index_def tail_view_def make_view_def snap_ok_def)
  note s = view.search_exact [OF rep, of q, unfolded prod.case base]
  note r = range_matches [OF assms(2) p(3,6) n(1), unfolded n(2)]
  show "search (view_index ?t (tail_view ?t wm)) q aft = Inr (filter (matches_after q es aft) [?b..<wm + 1])"
    using s(1) r by simp
  have "map (\<lambda>i. ?b + i) (matching q (map parts_of (range_events es ?b n))) = filter (matches_after q es 0) [?b..<wm + 1]"
    using r [of 0] p(6) by (simp add: filter_map comp_def)
  then show "search_back (view_index ?t (tail_view ?t wm)) q bef =
      Inr (rev (filter (\<lambda>p. p < bef \<and> Query_matches q (es ! (p - 1))) [?b..<wm + 1]))"
    using s(2) [of bef] p(6) by (auto simp: matches_after_def simp del: upt_Suc intro!: filter_cong)
qed

lemma scan_into_ok:
  assumes "snap_ok crc F sn es" and "wm \<le> length es" and "1 \<le> first" and "\<not> capped cap out"
  shows "scan_positions_into crc sn q first wm out cap =
         Inr (truncate_to cap (out @ filter (\<lambda>p. Query_matches q (es ! (p - 1))) [first..<wm + 1]))"
    and "scan_positions_back_into crc sn q first wm out cap =
         Inr (truncate_to cap (out @ filter (\<lambda>p. Query_matches q (es ! (p - 1))) (rev [first..<wm + 1])))"
proof -
  have wf: "\<forall>p \<in> set [first..<wm + 1]. wf_Event (es ! (p - 1))"
    using snap_ok_parts(3) [OF assms(1)] assms(2,3) by auto
  show "scan_positions_into crc sn q first wm out cap =
         Inr (truncate_to cap (out @ filter (\<lambda>p. Query_matches q (es ! (p - 1))) [first..<wm + 1]))"
    using scan_positions_drain [OF drains_forward [OF snap_scan [OF assms(1-3)]] wf assms(4)] assms(4)
    by (simp add: scan_positions_into_def)
  show "scan_positions_back_into crc sn q first wm out cap =
         Inr (truncate_to cap (out @ filter (\<lambda>p. Query_matches q (es ! (p - 1))) (rev [first..<wm + 1])))"
    using scan_positions_drain [OF drains_backward [OF snap_scan_back [OF assms(1-3)]] _ assms(4)] wf assms(4)
    by (simp add: scan_positions_back_into_def)
qed

text \<open>One more segment under the cap: the shape of both gathering loops.\<close>
lemma gather_step:
  assumes "\<not> capped cap out" and "cap \<noteq> Some 0" and "all = out @ c @ rest"
    and "\<not> capped cap (out @ c) \<Longrightarrow> k (out @ c) = Inr (truncate_to cap all)"
  shows "(if capped cap (truncate_to cap (out @ c)) then Inr (truncate_to cap (truncate_to cap (out @ c)))
          else k (truncate_to cap (out @ c))) = Inr (truncate_to cap all)"
  using assms capped_truncate [OF assms(2), of "out @ c"] truncate_append [of cap "out @ c" rest]
    truncate_all [of cap "out @ c"]
  by auto

lemma filter_hit_index: "filter (\<lambda>p. matches_after q es aft p \<and> p \<le> wm) [a..<b] = filter (hit q es aft wm) [a..<b]"
  by (rule filter_cong) (auto simp: matches_after_def hit_def)

lemma filter_hit_scan:
  assumes "1 \<le> base"
  shows "filter (\<lambda>p. Query_matches q (es ! (p - 1))) [first_after aft base..<min (base + cnt - 1) wm + 1] =
         filter (hit q es aft wm) [base..<base + cnt]"
  using assms by (intro filter_upt_eq) (auto simp: first_after_def hit_def)

lemma plan_active_ok:
  assumes "snap_ok crc F sn es" and "wf_Query q" and "wm \<le> length es"
    and "\<not> capped cap (filter (hit q es aft wm) [1..<seg_base (active_log sn)])"
  shows "plan_active crc sn q aft wm cap (filter (hit q es aft wm) [1..<seg_base (active_log sn)]) =
         Inr (truncate_to cap (filter (hit q es aft wm) [1..<length es + 1]))"
proof -
  let ?b = "seg_base (active_log sn)" and ?h = "hit q es aft wm"
  note p = snap_ok_parts [OF assms(1)]
  have all: "filter ?h [1..<length es + 1] = filter ?h [1..<?b] @ filter ?h [?b..<wm + 1]"
  proof -
    have "filter ?h [?b..<length es + 1] = filter ?h [?b..<wm + 1]"
      using assms(3) by (intro filter_upt_eq) (auto simp: hit_def)
    then show ?thesis using filter_hit_split [of 1 ?b "length es + 1" ?h] p(6,7) by simp
  qed
  show ?thesis
  proof (cases "?b \<le> wm")
    case True
    have c: "filter (matches_after q es aft) [?b..<wm + 1] = filter ?h [?b..<wm + 1]"
      by (rule filter_cong) (auto simp: matches_after_def hit_def)
    have f: "filter (\<lambda>p. Query_matches q (es ! (p - 1))) [first_after aft ?b..<wm + 1] = filter ?h [?b..<wm + 1]"
      using p(6) by (intro filter_upt_eq) (auto simp: first_after_def hit_def)
    have "1 \<le> first_after aft ?b" by (simp add: first_after_def)
    note scan = scan_into_ok(1) [OF assms(1,3) this assms(4), of q, unfolded f]
    show ?thesis
      using True scan active_search(1) [OF assms(1,2) _ True assms(3), of aft, unfolded c] all
        extend_capped_truncate [OF assms(4), of "filter ?h [?b..<wm + 1]"]
      by (simp add: plan_active_def trusted_def del: upt_Suc)
  next
    case False
    then have "filter ?h [?b..<wm + 1] = []" by (simp add: filter_empty_conv)
    then show ?thesis using False all by (simp add: plan_active_def del: upt_Suc)
  qed
qed

lemma plan_segments_ok:
  assumes "snap_ok crc F sn es" and "wf_Query q" and "wm \<le> length es" and "cap \<noteq> Some 0"
    and "contiguous b (map fst rest) (seg_base (active_log sn))" and "1 \<le> b"
    and "set rest \<subseteq> set (zip (sealed_log sn) (sealed_index sn))"
    and "\<not> capped cap (filter (hit q es aft wm) [1..<b])"
  shows "plan_segments crc F sn q aft wm cap rest (filter (hit q es aft wm) [1..<b]) =
         Inr (truncate_to cap (filter (hit q es aft wm) [1..<length es + 1]))"
  using assms(5-8)
proof (induction rest arbitrary: b)
  case Nil
  then show ?case using plan_active_ok [OF assms(1-3)] by simp
next
  case (Cons x rest)
  obtain seg index where x: "x = (seg, index)" by fastforce
  let ?h = "hit q es aft wm" and ?n = "event_count seg"
  note p = snap_ok_parts [OF assms(1)]
  have b: "seg_base seg = b" "contiguous (b + ?n) (map fst rest) (seg_base (active_log sn))"
    using Cons.prems(1) x by auto
  have shows_it: "index_shows F es seg index" using p(9) [of seg index] Cons.prems(3) x by auto
  have le: "b - 1 + ?n \<le> length es" using contiguous_end [OF b(2)] p(7) Cons.prems(2) by linarith
  have split: "filter ?h [1..<b + ?n] = filter ?h [1..<b] @ filter ?h [b..<b + ?n]"
    using Cons.prems(2) by (intro filter_hit_split) auto
  have all: "filter ?h [1..<length es + 1] = filter ?h [1..<b] @ filter ?h [b..<b + ?n] @ filter ?h [b + ?n..<length es + 1]"
    using filter_hit_split [of 1 "b + ?n" "length es + 1" ?h] split le Cons.prems(2) by simp
  have IH: "\<not> capped cap (filter ?h [1..<b + ?n]) \<Longrightarrow>
      plan_segments crc F sn q aft wm cap rest (filter ?h [1..<b + ?n]) = Inr (truncate_to cap (filter ?h [1..<length es + 1]))"
    using Cons.IH [OF b(2)] Cons.prems(2,3) by auto
  note step = gather_step [OF Cons.prems(4) assms(4) all, of "plan_segments crc F sn q aft wm cap rest", OF IH [unfolded split]]
  show ?case
  proof (cases "?n = 0 \<or> min (b + ?n - 1) wm \<le> aft")
    case True
    then have "filter ?h [b..<b + ?n] = []" by (auto simp: filter_empty_conv hit_def)
    then show ?thesis using True IH split Cons.prems(4) x b(1) by (simp add: Let_def del: upt_Suc)
  next
    case False
    have gathered: "(case index of
          Some sg \<Rightarrow> (case trusted (search (seg_index F sg) q aft) of Inl err \<Rightarrow> Inl err
            | Inr ps \<Rightarrow> Inr (extend_capped (filter ?h [1..<b]) (takeWhile (\<lambda>p. p \<le> wm) ps) cap))
        | None \<Rightarrow> scan_positions_into crc sn q (first_after aft b) (min (b + ?n - 1) wm) (filter ?h [1..<b]) cap) =
        Inr (truncate_to cap (filter ?h [1..<b] @ filter ?h [b..<b + ?n]))"
    proof (cases index)
      case None
      have "1 \<le> first_after aft b" "min (b + ?n - 1) wm \<le> length es" using assms(3) by (simp_all add: first_after_def)
      from scan_into_ok(1) [OF assms(1) this(2,1) Cons.prems(4), of q] show ?thesis
        using None by (simp add: filter_hit_scan [OF Cons.prems(2), simplified])
    next
      case (Some sg)
      then show ?thesis
        using sealed_search(1) [OF shows_it [unfolded Some] assms(2) p(3), of aft] b(1) Cons.prems(2) le
          extend_capped_truncate [OF Cons.prems(4)]
        by (simp add: trusted_def takeWhile_filter_upt filter_hit_index)
    qed
    show ?thesis
      unfolding x plan_segments.simps Let_def b(1) by (simp only: False if_False gathered sum.case) (rule step)
  qed
qed

lemma plan_positions_ok:
  assumes "snap_ok crc F sn es" and "wf_Query q" and "wm \<le> length es" and "limit \<noteq> Some 0"
  shows "plan_positions crc F sn q aft wm limit = Inr (truncate_to limit (filter (hit q es aft wm) [1..<length es + 1]))"
proof -
  note p = snap_ok_parts [OF assms(1)]
  have "map fst (zip (sealed_log sn) (sealed_index sn)) = sealed_log sn" using p(8) by simp
  moreover have "\<not> capped limit (filter (hit q es aft wm) [1..<1])" using assms(4) by (auto simp: capped_def split: option.splits)
  ultimately show ?thesis
    using plan_segments_ok [OF assms, of 1 "zip (sealed_log sn) (sealed_index sn)" aft] p(5) by (simp add: plan_positions_def)
qed

text \<open>Downward: the positions gathered so far are those above the segments still to visit.\<close>
lemma plan_segments_back_ok:
  assumes "snap_ok crc F sn es" and "wf_Query q" and "wm \<le> length es" and "cap \<noteq> Some 0"
    and "contiguous 1 (map fst (rev rest)) e" and "e \<le> length es + 1"
    and "set rest \<subseteq> set (zip (sealed_log sn) (sealed_index sn))"
    and "\<not> capped cap (rev (filter (hit q es 0 wm) [e..<length es + 1]))"
  shows "plan_segments_back crc F sn q wm cap rest (rev (filter (hit q es 0 wm) [e..<length es + 1])) =
         Inr (truncate_to cap (rev (filter (hit q es 0 wm) [1..<length es + 1])))"
  using assms(5-8)
proof (induction rest arbitrary: e)
  case Nil
  then show ?case by simp
next
  case (Cons x rest)
  obtain seg index where x: "x = (seg, index)" by fastforce
  let ?h = "hit q es 0 wm" and ?n = "event_count seg" and ?b = "seg_base seg"
  let ?out = "rev (filter ?h [e..<length es + 1])" and ?c = "rev (filter ?h [?b..<?b + ?n])"
  note p = snap_ok_parts [OF assms(1)]
  have b: "contiguous 1 (map fst (rev rest)) ?b" "e = ?b + ?n"
    using Cons.prems(1) x by (auto simp: contiguous_append)
  have b1: "1 \<le> ?b" using contiguous_end [OF b(1)] by simp
  have shows_it: "index_shows F es seg index" using p(9) [of seg index] Cons.prems(3) x by auto
  have le: "?b - 1 + ?n \<le> length es" using b(2) b1 Cons.prems(2) by linarith
  have split: "rev (filter ?h [?b..<length es + 1]) = ?out @ ?c"
    using filter_hit_split [of ?b e "length es + 1" ?h] b(2) Cons.prems(2) by (simp del: upt_Suc)
  have all: "rev (filter ?h [1..<length es + 1]) = ?out @ ?c @ rev (filter ?h [1..<?b])"
    using filter_hit_split [of 1 ?b "length es + 1" ?h] split b1 b(2) Cons.prems(2) by (simp del: upt_Suc)
  have IH: "\<not> capped cap (?out @ ?c) \<Longrightarrow>
      plan_segments_back crc F sn q wm cap rest (?out @ ?c) = Inr (truncate_to cap (rev (filter ?h [1..<length es + 1])))"
    using Cons.IH [OF b(1)] Cons.prems(2,3) b(2) split by auto
  note step = gather_step [OF Cons.prems(4) assms(4) all, of "plan_segments_back crc F sn q wm cap rest", OF IH]
  show ?case
  proof (cases "?n = 0 \<or> wm < ?b")
    case True
    then have "?c = []" by (auto simp: filter_empty_conv hit_def)
    then show ?thesis using True IH Cons.prems(4) x by (simp add: Let_def del: upt_Suc)
  next
    case False
    let ?m = "min (?b + ?n - 1) wm"
    have m: "?m \<le> length es" using assms(3) by simp
    have eq: "filter (\<lambda>p. Query_matches q (es ! (p - 1))) [?b..<?m + 1] = filter ?h [?b..<?b + ?n]"
      using b1 False by (intro filter_upt_eq) (auto simp: hit_def)
    have gathered: "(case index of
          Some sg \<Rightarrow> (case trusted (search_back (seg_index F sg) q (min (?m + 1) U64_MAX)) of Inl err \<Rightarrow> Inl err
            | Inr ps \<Rightarrow> Inr (extend_capped ?out ps cap))
        | None \<Rightarrow> scan_positions_back_into crc sn q ?b ?m ?out cap) = Inr (truncate_to cap (?out @ ?c))"
    proof (cases index)
      case None
      then show ?thesis
        using scan_into_ok(2) [OF assms(1) m b1 Cons.prems(4), of q] eq by (simp flip: rev_filter del: upt_Suc)
    next
      case (Some sg)
      have "min (?m + 1) U64_MAX = ?m + 1" using m p(4) by simp
      moreover have "filter (\<lambda>p. p < ?m + 1 \<and> Query_matches q (es ! (p - 1))) [?b..<?b + ?n] = filter ?h [?b..<?b + ?n]"
        using b1 by (intro filter_upt_eq) (auto simp: hit_def)
      ultimately show ?thesis
        using Some sealed_search(2) [OF shows_it [unfolded Some] assms(2) p(3) b1 le, of "?m + 1"]
          extend_capped_truncate [OF Cons.prems(4)]
        by (simp add: trusted_def del: upt_Suc)
    qed
    show ?thesis
      unfolding x plan_segments_back.simps Let_def by (simp only: False if_False gathered sum.case) (rule step)
  qed
qed

lemma plan_positions_back_ok:
  assumes "snap_ok crc F sn es" and "wf_Query q" and "wm \<le> length es" and "limit \<noteq> Some 0"
  shows "plan_positions_back crc F sn q wm limit =
         Inr (truncate_to limit (rev (filter (hit q es 0 wm) [1..<length es + 1])))"
proof -
  let ?b = "seg_base (active_log sn)" and ?h = "hit q es 0 wm" and ?segs = "rev (zip (sealed_log sn) (sealed_index sn))"
  let ?c = "rev (filter ?h [?b..<length es + 1])"
  note p = snap_ok_parts [OF assms(1)]
  have "map fst (rev ?segs) = sealed_log sn" using p(8) by simp
  then have c: "contiguous 1 (map fst (rev ?segs)) ?b" using p(5) by simp
  have b: "?b \<le> length es + 1" using p(7) by simp
  have all: "rev (filter ?h [1..<length es + 1]) = [] @ ?c @ rev (filter ?h [1..<?b])"
    using filter_hit_split [of 1 ?b "length es + 1" ?h] p(6) b by (simp del: upt_Suc)
  have nil: "\<not> capped limit []" using assms(4) by (auto simp: capped_def split: option.splits)
  note segs = plan_segments_back_ok [OF assms c b]
  have k: "\<not> capped limit ([] @ ?c) \<Longrightarrow> plan_segments_back crc F sn q wm limit ?segs ([] @ ?c) =
      Inr (truncate_to limit (rev (filter ?h [1..<length es + 1])))"
    using segs by (simp del: upt_Suc)
  note step = gather_step [OF nil assms(4) all, of "plan_segments_back crc F sn q wm limit ?segs", OF k,
      unfolded append_Nil truncate_idem]
  have eq: "filter (\<lambda>p. Query_matches q (es ! (p - 1))) [?b..<wm + 1] = filter ?h [?b..<length es + 1]"
    using p(6) assms(3) by (intro filter_upt_eq) (auto simp: hit_def)
  show ?thesis
  proof (cases "?b \<le> wm")
    case True
    have scan: "scan_positions_back_into crc sn q ?b wm [] limit = Inr (truncate_to limit ([] @ ?c))"
      using scan_into_ok(2) [OF assms(1,3) p(6) nil, of q] eq by (simp flip: rev_filter del: upt_Suc)
    have "filter (\<lambda>p. p < wm + 1 \<and> Query_matches q (es ! (p - 1))) [?b..<wm + 1] = filter ?h [?b..<length es + 1]"
      using p(6) assms(3) by (intro filter_upt_eq) (auto simp: hit_def)
    moreover have "min (wm + 1) U64_MAX = wm + 1" using assms(3) p(4) by simp
    ultimately have view: "\<not> at_unindexable (active_index sn) \<Longrightarrow>
        search_back (view_index (active_index sn) (tail_view (active_index sn) wm)) q (min (wm + 1) U64_MAX) = Inr ?c"
      using active_search(2) [OF assms(1,2) _ True assms(3), of "wm + 1"] by simp
    show ?thesis
      using True scan view step extend_capped_truncate [OF nil, of ?c]
      by (cases "capped limit (truncate_to limit ?c)")
        (simp_all add: plan_positions_back_def Let_def trusted_def del: upt_Suc)
  next
    case False
    then have "?c = []" by (auto simp: filter_empty_conv hit_def)
    then show ?thesis using False segs nil by (simp add: plan_positions_back_def Let_def del: upt_Suc)
  qed
qed

subsection \<open>The planner never fails\<close>

lemma estimate_sealed_total:
  assumes "\<forall>(seg, index) \<in> set segs. index_shows F es seg index" and "wm < U64_MAX"
  shows "\<exists>ew. estimate_sealed F q aft wm segs ew0 = Inr ew"
  using assms(1)
proof (induction segs arbitrary: ew0)
  case (Cons x segs)
  obtain seg index estimate width where x: "x = (seg, index)" "ew0 = (estimate, width)" by fastforce
  let ?w = "segment_width aft (seg_base seg) (min (seg_base seg + event_count seg - 1) wm)"
  have w: "?w \<le> U64_MAX" using assms(2) by (simp add: segment_width_def)
  obtain n where "(case index of Some sg \<Rightarrow> trusted (estimate_matches (seg_index F sg) q ?w) | None \<Rightarrow> Inr ?w) = Inr n"
  proof (cases index)
    case (Some sg)
    then have rep: "seg_rep (F, sg) (map parts_of (range_events es (seg_base seg) (event_count seg)))"
      using Cons.prems x by (auto simp: index_shows_def)
    obtain n where "estimate_matches (seg_index F sg) q ?w = Inr n"
      using seg.estimate_upper [OF rep, of "{}" ?w q] w by auto
    then show ?thesis using that Some by (simp add: trusted_def)
  qed simp
  moreover have "\<exists>ew. estimate_sealed F q aft wm segs ew1 = Inr ew" for ew1 using Cons by simp
  ultimately show ?case unfolding x estimate_sealed.simps Let_def by (auto simp only: sum.case split: if_split)
qed simp

lemma estimate_read_total:
  assumes "snap_ok crc F sn es" and "wm \<le> length es"
  shows "\<exists>estimate width. estimate_read F sn q aft wm = Inr (estimate, width)"
proof -
  note p = snap_ok_parts [OF assms(1)]
  have wm: "wm < U64_MAX" using p(4) assms(2) by simp
  obtain e w where s: "estimate_sealed F q aft wm (zip (sealed_log sn) (sealed_index sn)) (0, 0) = Inr (e, w)"
    using estimate_sealed_total [of "zip (sealed_log sn) (sealed_index sn)" F es wm q aft "(0, 0)"] p(9) wm by fastforce
  show ?thesis
  proof (cases "seg_base (active_log sn) \<le> wm \<and> \<not> at_unindexable (active_index sn)")
    case True
    let ?w = "segment_width aft (seg_base (active_log sn)) wm"
    have "?w \<le> U64_MAX" using wm by (simp add: segment_width_def)
    then obtain n where "estimate_matches (view_index (active_index sn) (tail_view (active_index sn) wm)) q ?w = Inr n"
      using view.estimate_upper [OF active_rep [OF assms(1) _ _ assms(2)], of "{}" ?w q] True by auto
    then show ?thesis using s by (simp add: estimate_read_def Let_def trusted_def)
  qed (auto simp: estimate_read_def Let_def s)
qed

subsection \<open>The iterator is exact\<close>

lemma fetch_indexed_ok:
  assumes "snap_ok crc F sn es" and "1 \<le> p" and "p \<le> length es"
    and "\<forall>i seg. reader = Some (i, seg) \<longrightarrow> segment_at (snap_source sn) i = Some seg"
  shows "\<exists>reader'. fetch_indexed crc sn p reader = (Inr (sequenced es p), reader') \<and>
     (\<forall>i seg. reader' = Some (i, seg) \<longrightarrow> segment_at (snap_source sn) i = Some seg)"
proof -
  note sn = snap_ok_parts [OF assms(1)]
  have len: "p \<le> length (src_log (snap_source sn))" using assms(3) sn(2) by simp
  obtain i seg fs where o: "src_locate (snap_source sn) p = Some (i, seg)" "segment_at (snap_source sn) i = Some seg"
    "seg_base seg \<le> p" "p - seg_base seg < length (offsets seg)"
    "seg_holds crc (src_header_size (snap_source sn)) seg fs"
    "src_log (snap_source sn) ! (p - 1) = payloads fs ! (p - seg_base seg)"
    using src_owner [OF sn(1) assms(2) len] by metis
  obtain r where r: "fst (read_record crc 0 (seg_file seg) (reader_flushed seg) (offsets seg ! (p - seg_base seg))
      Random ReadAheadBuf_new) = Inr r" "rec_data r = seg_records seg ! (p - seg_base seg)"
    using seg_read [OF o(5,4)] by blast
  have "rec_data r = buf (es ! (p - 1))"
    using r(2) seg_holds_records [OF o(5)] o(6) sn(2) assms(2,3) by simp
  then have read: "read_at_local crc seg (p - seg_base seg) = Inr (Some \<lparr>position = p, rdata = buf (es ! (p - 1))\<rparr>)"
    using r(1) o(3,4) by (simp add: read_at_local_def seg_data_offset_def)
  have "wf_Event (es ! (p - 1))" using sn(3) assms(2,3) by auto
  then have dec: "EventRef_from_bytes (buf (es ! (p - 1))) = Inr (es ! (p - 1))" by (simp add: wf_Event_def)
  have "(if map_option fst reader \<noteq> Some i then map_option (Pair i) (segment_at (snap_source sn) i) else reader) = Some (i, seg)"
    using assms(4) o(2) by (cases reader) auto
  then have "fetch_indexed crc sn p reader = (Inr (sequenced es p), Some (i, seg))"
    using o(1,3) read dec by (simp add: fetch_indexed_def sequenced_def)
  then show ?thesis using o(2) by auto
qed

lemma indexed_drain:
  assumes "snap_ok crc F sn es" and "\<forall>p \<in> set ps. 1 \<le> p \<and> p \<le> length es"
    and "\<forall>i seg. reader = Some (i, seg) \<longrightarrow> segment_at (snap_source sn) i = Some seg"
  shows "drains (mode_next crc) (ModeIndexed sn ps reader) (map (sequenced es) ps)"
  using assms(2,3)
proof (induction ps arbitrary: reader)
  case Nil
  then show ?case by (auto intro: drains_end simp: mode_next_def)
next
  case (Cons p ps)
  then obtain reader' where f: "fetch_indexed crc sn p reader = (Inr (sequenced es p), reader')"
    "\<forall>i seg. reader' = Some (i, seg) \<longrightarrow> segment_at (snap_source sn) i = Some seg"
    using fetch_indexed_ok [OF assms(1), of p reader] by auto
  then show ?case using Cons.IH [of reader'] Cons.prems(1) by (auto intro!: drains_item simp: mode_next_def)
qed

lemma decode_event_record: "wf_Event (es ! (p - 1)) \<Longrightarrow> decode_record (Inr (event_record es p)) = Inr (sequenced es p)"
  by (simp add: decode_record_def event_record_def sequenced_def wf_Event_def)

lemma scan_mode_drain:
  assumes "drains (scan_next crc) sc (map (event_record es) ps)" and "\<forall>p \<in> set ps. wf_Event (es ! (p - 1))"
  shows "drains (mode_next crc) (ModeScan sc) (map (sequenced es) ps)"
  using assms
proof (induction ps arbitrary: sc)
  case Nil
  then obtain s' where "scan_next crc sc = (None, s')" by (auto elim: drains_NilE)
  then have "mode_next crc (ModeScan sc) = (None, ModeScan s')" by (simp add: mode_next_def)
  then show ?case by (auto intro: drains_end)
next
  case (Cons p ps)
  then show ?case by (auto elim!: drains_ConsE intro!: drains_item simp: mode_next_def decode_event_record)
qed

lemma scan_back_mode_drain:
  assumes "drains (scan_back_next crc) sb (map (event_record es) ps)" and "\<forall>p \<in> set ps. wf_Event (es ! (p - 1))"
  shows "drains (mode_next crc) (ModeScanBack sb) (map (sequenced es) ps)"
  using assms
proof (induction ps arbitrary: sb)
  case Nil
  then obtain s' where "scan_back_next crc sb = (None, s')" by (auto elim: drains_NilE)
  then have "mode_next crc (ModeScanBack sb) = (None, ModeScanBack s')" by (simp add: mode_next_def)
  then show ?case by (auto intro: drains_end)
next
  case (Cons p ps)
  then show ?case by (auto elim!: drains_ConsE intro!: drains_item simp: mode_next_def decode_event_record)
qed

definition filtered_mode :: "Query \<Rightarrow> RecordScan \<Rightarrow> 'm Mode" where
  "filtered_mode q rs = (case rs of FwdScan sc \<Rightarrow> ModeScanFiltered sc q | BackScan sb \<Rightarrow> ModeScanBackFiltered sb q)"

lemma filtered_mode_drain:
  "drains (next_filtered crc q) rs xs \<Longrightarrow> drains (mode_next crc) (filtered_mode q rs) xs"
proof (induction rule: drains.induct)
  case (drains_end rs rs')
  then have "mode_next crc (filtered_mode q rs) = (None, filtered_mode q rs')"
    by (auto simp: mode_next_def filtered_mode_def split: RecordScan.splits)
  then show ?case by (rule drains.drains_end)
next
  case (drains_item rs a rs' xs)
  then have "mode_next crc (filtered_mode q rs) = (Some (Inr a), filtered_mode q rs')"
    by (auto simp: mode_next_def filtered_mode_def split: RecordScan.splits)
  then show ?case using drains_item.IH by (rule drains.drains_item)
qed

lemma reads_drain:
  assumes "drains (mode_next crc) mode xs"
  shows "drains (Reads_next crc)
           \<lparr>rd_watermark = wm, rd_pending_err = None, rd_remaining = limit, rd_hit_limit = False, rd_mode = mode\<rparr>
           (case limit of Some k \<Rightarrow> take k xs | None \<Rightarrow> xs)"
  using assms
proof (induction xs arbitrary: mode limit rule: list.induct)
  case Nil
  then obtain mode' where "mode_next crc mode = (None, mode')" by (auto elim: drains_NilE)
  then have "fst (Reads_next crc \<lparr>rd_watermark = wm, rd_pending_err = None, rd_remaining = limit, rd_hit_limit = False,
      rd_mode = mode\<rparr>) = None"
    by (simp add: Reads_next_def)
  then show ?case by (cases limit) (auto intro: drains_endI)
next
  case (Cons x xs)
  then obtain mode' where n: "mode_next crc mode = (Some (Inr x), mode')" "drains (mode_next crc) mode' xs"
    by (auto elim: drains_ConsE)
  show ?case
  proof (cases "limit = Some 0")
    case True
    then show ?thesis by (auto intro!: drains_endI simp: Reads_next_def)
  next
    case False
    let ?r = "\<lparr>rd_watermark = wm, rd_pending_err = None, rd_remaining = limit, rd_hit_limit = False, rd_mode = mode\<rparr>"
    let ?r' = "?r\<lparr>rd_remaining := map_option (\<lambda>n. n - 1) limit, rd_mode := mode'\<rparr>"
    have step: "Reads_next crc ?r = (Some (Inr x), ?r')" using False n(1) by (simp add: Reads_next_def)
    have "(case limit of Some k \<Rightarrow> take k (x # xs) | None \<Rightarrow> x # xs) =
        x # (case map_option (\<lambda>n. n - 1) limit of Some k \<Rightarrow> take k xs | None \<Rightarrow> xs)"
      using False by (cases limit) (auto simp: take_Cons')
    moreover have "drains (Reads_next crc) ?r' (case map_option (\<lambda>n. n - 1) limit of Some k \<Rightarrow> take k xs | None \<Rightarrow> xs)"
      using Cons.IH [OF n(2), of "map_option (\<lambda>n. n - 1) limit"] by simp
    ultimately show ?thesis using drains_item [of "Reads_next crc", OF step] by (simp only:)
  qed
qed

lemma collect_drain:
  assumes "drains (Reads_next crc) r xs"
  shows "collect_from crc r out = Inr (out @ map (\<lambda>s. (sq_position s, sq_event s)) xs)"
  using assms
proof (induction arbitrary: out rule: drains.induct)
  case (drains_end r r')
  then show ?case by (subst collect_from.simps) simp
next
  case (drains_item r a r' xs)
  then show ?case by (subst collect_from.simps) simp
qed

text \<open>The positions a read returns: the hits in the read's direction, cut to the limit.\<close>
definition read_positions :: "Direction \<Rightarrow> Query \<Rightarrow> Event list \<Rightarrow> Position \<Rightarrow> Position \<Rightarrow> nat option \<Rightarrow> Position list" where
  "read_positions direction q es aft wm limit =
     truncate_to limit
       (let ps = filter (\<lambda>p. Query_matches q (es ! (p - 1))) [aft + 1..<wm + 1]
        in case direction of Forward \<Rightarrow> ps | Backward \<Rightarrow> rev ps)"

lemma hits_between:
  "wm \<le> length es \<Longrightarrow>
   filter (hit q es aft wm) [1..<length es + 1] = filter (\<lambda>p. Query_matches q (es ! (p - 1))) [aft + 1..<wm + 1]"
  by (intro filter_upt_eq) (auto simp: hit_def)

lemma plan_drain:
  assumes "snap_ok crc F sn es" and "wf_Query q" and "up \<le> length es" and "direction = Backward \<Longrightarrow> aft = 0"
  shows "drains (Reads_next crc) (plan_directional crc F direction sn q aft up wm cfg limit)
           (map (sequenced es) (read_positions direction q es aft up limit))"
proof (cases "aft \<ge> up \<or> limit = Some 0")
  case True
  then have "read_positions direction q es aft up limit = []"
    by (auto simp: read_positions_def truncate_to_def split: Direction.splits option.splits)
  moreover have "drains (mode_next crc) ModeDone ([] :: Sequenced list)" by (auto intro: drains_end simp: mode_next_def)
  ultimately show ?thesis
    using reads_drain [of crc ModeDone "[]" wm limit] True
    by (cases limit) (auto simp: plan_directional_def reads_of_def)
next
  case False
  note p = snap_ok_parts [OF assms(1)]
  let ?m = "\<lambda>p. Query_matches q (es ! (p - 1))" and ?ps = "[aft + 1..<up + 1]"
  let ?dir = "\<lambda>ps. case direction of Forward \<Rightarrow> ps | Backward \<Rightarrow> rev ps"
  obtain e w where est: "estimate_read F sn q aft up = Inr (e, w)" using estimate_read_total [OF assms(1,3)] by blast
  have goal: "drains (Reads_next crc) (reads_of wm limit (Inr mode)) (map (sequenced es) (truncate_to limit (?dir (filter ?m ?ps))))"
    if "drains (mode_next crc) mode (map (sequenced es) (?dir (filter ?m ?ps)))" for mode
    using reads_drain [OF that, of wm limit]
    by (cases limit) (simp_all add: reads_of_def truncate_to_def take_map del: upt_Suc)
  have rp: "read_positions direction q es aft up limit = truncate_to limit (?dir (filter ?m ?ps))"
    unfolding read_positions_def Let_def by (rule refl)
  show ?thesis
  proof (cases "choose_access e w (scan_bias cfg)")
    case AccScan
    have nx: "Position_next aft = Some (aft + 1)" using False assms(3) p(4) by (simp add: Position_next_def)
    have wf: "\<forall>p \<in> set (?dir ?ps). wf_Event (es ! (p - 1))"
      using p(3) assms(3) by (auto split: Direction.splits)
    obtain mode where m: "scan_mode direction sn q aft up = Inr mode"
      "drains (mode_next crc) mode (map (sequenced es) (?dir (filter ?m ?ps)))"
    proof (cases direction)
      case Forward
      let ?sc = "Scan_start (snap_source sn) (aft + 1) up"
      have d: "drains (scan_next crc) ?sc (map (event_record es) ?ps)" by (rule snap_scan [OF assms(1,3)]) simp
      show thesis
      proof (cases "q = All")
        case True
        then have "filter ?m ?ps = ?ps" by (simp add: Query_matches_def)
        then show thesis
          using that [of "ModeScan ?sc"] True Forward nx scan_mode_drain [OF d] wf by (simp add: scan_mode_def del: upt_Suc)
      next
        case nall: False
        then show thesis
          using that [of "ModeScanFiltered ?sc q"] Forward nx wf
            filtered_mode_drain [OF drains_filtered [OF drains_forward [OF d]], of q]
          by (simp add: scan_mode_def filtered_mode_def del: upt_Suc)
      qed
    next
      case Backward
      let ?sb = "ScanBack_start (snap_source sn) (aft + 1) up"
      have d: "drains (scan_back_next crc) ?sb (map (event_record es) (rev ?ps))" by (rule snap_scan_back [OF assms(1,3)]) simp
      show thesis
      proof (cases "q = All")
        case True
        then have "filter ?m ?ps = ?ps" by (simp add: Query_matches_def)
        then show thesis
          using that [of "ModeScanBack ?sb"] True Backward nx scan_back_mode_drain [OF d] wf
          by (simp add: scan_mode_def del: upt_Suc)
      next
        case nall: False
        then show thesis
          using that [of "ModeScanBackFiltered ?sb q"] Backward nx wf
            filtered_mode_drain [OF drains_filtered [OF drains_backward [OF d]], of q]
          by (simp add: scan_mode_def filtered_mode_def rev_filter del: upt_Suc)
      qed
    qed
    show ?thesis using False est AccScan m(1) goal [OF m(2)] rp by (simp add: plan_directional_def)
  next
    case Index
    let ?qs = "truncate_to limit (?dir (filter ?m ?ps))"
    have "limit \<noteq> Some 0" using False by simp
    note f = plan_positions_ok [OF assms(1-3) this, of aft, unfolded hits_between [OF assms(3)]]
    note b = plan_positions_back_ok [OF assms(1-3) \<open>limit \<noteq> Some 0\<close>, unfolded hits_between [OF assms(3)]]
    have planned: "(case direction of Forward \<Rightarrow> plan_positions crc F sn q aft up limit
        | Backward \<Rightarrow> plan_positions_back crc F sn q up limit) = Inr ?qs"
      using f b assms(4) by (cases direction) (simp_all del: upt_Suc)
    have "set ?qs \<subseteq> set ?ps" by (auto simp: truncate_to_def split: option.splits Direction.splits dest: in_set_takeD)
    then have "\<forall>p \<in> set ?qs. 1 \<le> p \<and> p \<le> length es" using assms(3) by auto
    then have "drains (mode_next crc) (ModeIndexed sn ?qs None) (map (sequenced es) ?qs)"
      by (intro indexed_drain [OF assms(1)]) simp_all
    from reads_drain [OF this, of wm limit]
    have "drains (Reads_next crc) (reads_of wm limit (Inr (ModeIndexed sn ?qs None))) (map (sequenced es) ?qs)"
      by (cases limit) (simp_all add: reads_of_def truncate_to_def take_map del: upt_Suc)
    then show ?thesis using False est Index planned rp by (simp add: plan_directional_def del: upt_Suc)
  qed
qed

subsection \<open>Capturing\<close>

text \<open>Index and log seal together: the sealed indexes cover the sealed segments one for one.\<close>
definition aligned :: "SegmentSet \<Rightarrow> 'm IndexSet \<Rightarrow> bool" where
  "aligned S ix \<longleftrightarrow>
     map (\<lambda>s. (six_base s, six_count s)) (ix_sealed ix) = sealed_segments S \<and> active_base ix = seg_base (active S)"

lemma capture_ok:
  assumes "log_holds (crc, S) es" and "\<forall>e \<in> set es. wf_Event e" and "index_inv F ix es" and "aligned S ix"
    and "active_unindexable ix \<Longrightarrow> at_unindexable (ix_active ix)"
  shows "snap_ok crc F (capture S ix) es"
proof -
  have S: "set_inv crc S" "log_of S = map buf es" "length es < U64_MAX" using assms(1) by (auto simp: log_holds_def)
  have src: "snap_source (capture S ix) = set_source S" by (simp add: snap_source_def capture_def set_source_def Let_def)
  have al: "map (\<lambda>s. (six_base s, six_count s)) (ix_sealed ix) = map (\<lambda>seg. (seg_base seg, event_count seg)) (sealed S)"
    using assms(4) by (simp add: aligned_def sealed_segments_def)
  then have len: "length (ix_sealed ix) = length (sealed S)" by (metis length_map)
  have "index_shows F es (sealed S ! i) (six_seg (ix_sealed ix ! i))" if i: "i < length (sealed S)" for i
  proof -
    have "entry_ok F es (ix_sealed ix ! i)" using assms(3) i len by (simp add: index_inv_def)
    moreover have "six_base (ix_sealed ix ! i) = seg_base (sealed S ! i)" "six_count (ix_sealed ix ! i) = event_count (sealed S ! i)"
      using arg_cong [OF al, of "\<lambda>xs. xs ! i"] i len by auto
    ultimately show ?thesis by (simp add: index_shows_def entry_ok_def split: option.splits)
  qed
  then have "list_all2 (index_shows F es) (sealed S) (sealed_index (capture S ix))"
    using len by (auto simp: list_all2_conv_all_nth capture_def Let_def sealed_index_arcs_def)
  then show ?thesis
    using S set_source_ok [OF S(1)] assms(2,3,5) assms(4)
    by (auto simp: snap_ok_def src index_inv_def aligned_def) (simp_all add: capture_def Let_def)
qed

subsection \<open>Properties\<close>

text \<open>
  C7. A forward read is exact: over a snapshot that shows the log, for every bound, watermark, limit and
  scan bias, draining \<open>Reads::plan\<close> succeeds and gives the matching events of \<open>(after, watermark]\<close> in
  ascending order, cut to the limit. The cost model only picks the path (streaming, filtered or indexed, with
  the scan of unindexable segments), never the answer, and a snapshot newer than the pinned watermark shows
  nothing past it.
\<close>
theorem read_exact:
  assumes "snap_ok crc F sn es" and "wf_Query q" and "wm \<le> length es"
  shows "collect_owned crc (Reads_plan crc F sn q aft wm cfg limit) =
           Inr (map (\<lambda>p. (p, es ! (p - 1)))
             (truncate_to limit (filter (\<lambda>p. Query_matches q (es ! (p - 1))) [aft + 1..<wm + 1])))"
  using collect_drain [OF plan_drain [OF assms, of Forward aft wm cfg limit], of "[]"]
  by (simp add: collect_owned_def Reads_plan_def read_positions_def sequenced_def comp_def del: upt_Suc)

lemma demo_snapshot:
  obtains S ix where "set_append_batch crc_demo 0 (map buf demo_events) demo_set = (Inr (1, 2), S)"
    and "snap_ok crc_demo fst_demo (capture S ix) demo_events"
proof (rule demo_store)
  fix S ix
  assume s: "set_append_batch crc_demo 0 (map buf demo_events) demo_set = (Inr (1, 2), S)" "log_holds (crc_demo, S) demo_events"
    "index_inv fst_demo ix demo_events" "\<not> active_unindexable ix" "ix_sealed ix = []" "active_base ix = 1"
    "sealed S = []" "seg_base (active S) = 1"
  have "aligned S ix" using s by (simp add: aligned_def sealed_segments_def)
  then show thesis using that [OF s(1), of ix] capture_ok [OF s(2) demo_events_facts(1) s(3)] s(4) by simp
qed

theorem read_exact_witness:
  "\<exists>S ix. set_append_batch crc_demo 0 (map buf demo_events) demo_set = (Inr (1, 2), S) \<and>
     collect_owned crc_demo
       (Reads_plan crc_demo fst_demo (capture S ix) (Items [\<lparr>types = [], tags = [Tag [0x62]]\<rparr>]) 0 2 ReadConfig_default (Some 5)) =
     Inr [(2, demo_event 0x42 0x62)]"
proof (rule demo_snapshot)
  fix S and ix :: "(str \<times> nat) list IndexSet"
  let ?q = "Items [\<lparr>types = [], tags = [Tag [0x62]]\<rparr>]"
  assume s: "set_append_batch crc_demo 0 (map buf demo_events) demo_set = (Inr (1, 2), S)"
    "snap_ok crc_demo fst_demo (capture S ix) demo_events"
  have ev: "wf_Query ?q" "map (\<lambda>p. (p, demo_events ! (p - 1)))
      (truncate_to (Some 5) (filter (\<lambda>p. Query_matches ?q (demo_events ! (p - 1))) [0 + 1..<2 + 1])) = [(2, demo_event 0x42 0x62)]"
    by code_simp+
  have "2 \<le> length demo_events" by (simp add: demo_events_def)
  from read_exact [OF s(2) ev(1) this, of 0 ReadConfig_default "Some 5"] show ?thesis
    unfolding ev(2) using s(1) by blast
qed

text \<open>
  A backward read is the forward read in descending order: draining \<open>Reads::plan_back\<close> gives the matching
  events at or below its upper bound, newest first, cut to the limit from the top, whichever path runs.
\<close>
theorem read_back_exact:
  assumes "snap_ok crc F sn es" and "wf_Query q" and "up \<le> length es"
  shows "collect_owned crc (Reads_plan_back crc F sn q up wm cfg limit) =
           Inr (map (\<lambda>p. (p, es ! (p - 1)))
             (truncate_to limit (rev (filter (\<lambda>p. Query_matches q (es ! (p - 1))) [1..<up + 1]))))"
  using collect_drain [OF plan_drain [OF assms, of Backward 0 wm cfg limit], of "[]"]
  by (simp add: collect_owned_def Reads_plan_back_def read_positions_def sequenced_def comp_def Position_ZERO_def del: upt_Suc)

theorem read_back_exact_witness:
  "\<exists>S ix. set_append_batch crc_demo 0 (map buf demo_events) demo_set = (Inr (1, 2), S) \<and>
     collect_owned crc_demo (Reads_plan_back crc_demo fst_demo (capture S ix) All 2 2 ReadConfig_default (Some 1)) =
     Inr [(2, demo_event 0x42 0x62)]"
proof (rule demo_snapshot)
  fix S and ix :: "(str \<times> nat) list IndexSet"
  assume s: "set_append_batch crc_demo 0 (map buf demo_events) demo_set = (Inr (1, 2), S)"
    "snap_ok crc_demo fst_demo (capture S ix) demo_events"
  have ev: "wf_Query All" "map (\<lambda>p. (p, demo_events ! (p - 1)))
      (truncate_to (Some 1) (rev (filter (\<lambda>p. Query_matches All (demo_events ! (p - 1))) [1..<2 + 1]))) = [(2, demo_event 0x42 0x62)]"
    by code_simp+
  have "2 \<le> length demo_events" by (simp add: demo_events_def)
  from read_back_exact [OF s(2) ev(1) this, of 2 ReadConfig_default "Some 1"] show ?thesis
    unfolding ev(2) using s(1) by blast
qed

end
