(* ===== verification/Subscribe.thy ===== *)
theory Subscribe
  imports ReadPath
begin

text \<open>
  The shared read state and subscriptions (\<open>ReadCore\<close> and \<open>ReadHandle\<close> of \<open>crates/tephra/src/read/mod.rs\<close>,
  \<open>crates/tephra/src/read/subscribe.rs\<close>).

  \<open>ReadCore\<close> is the published snapshot, the watermark, the closed flag and the subscriber count. What another
  thread publishes between two steps of a subscriber is an argument: \<open>poll_batch\<close> takes the core it loads, and
  a blocking wait takes the cores it sees on each pass of its loop, with whether that pass follows a timed-out
  wait; \<open>None\<close> means it is still parked when the passes run out. The wakeup protocol itself (the writer's
  store, gate and notify against the subscribers' register, check and park) is the step relation \<open>notify_step\<close>
  with one step per atomic action; all four accesses of the gate are \<open>SeqCst\<close> in the source, so interleaving is
  the right semantics for them.
\<close>

subsection \<open>The shared read state\<close>

record 'm ReadCore =
  rc_segments :: "'m Snapshot"
  rc_watermark :: Position
  rc_closed :: bool
  rc_subscribers :: nat

definition ReadCore_new :: "SegmentSet \<Rightarrow> 'm IndexSet \<Rightarrow> 'm ReadCore" where
  "ReadCore_new S ix =
     \<lparr>rc_segments = capture S ix, rc_watermark = set_last_position S, rc_closed = False, rc_subscribers = 0\<rparr>"

definition publish_segments :: "'m Snapshot \<Rightarrow> 'm ReadCore \<Rightarrow> 'm ReadCore" where
  "publish_segments sn c = c\<lparr>rc_segments := sn\<rparr>"

definition publish_watermark :: "Position \<Rightarrow> 'm ReadCore \<Rightarrow> 'm ReadCore" where
  "publish_watermark tip c = c\<lparr>rc_watermark := tip\<rparr>"

definition core_head :: "'m ReadCore \<Rightarrow> Position" where
  "core_head c = rc_watermark c"

definition core_load :: "'m ReadCore \<Rightarrow> Position \<times> 'm Snapshot" where
  "core_load c = (rc_watermark c, rc_segments c)"

definition core_close :: "'m ReadCore \<Rightarrow> 'm ReadCore" where
  "core_close c = c\<lparr>rc_closed := True\<rparr>"

definition register_subscriber :: "'m ReadCore \<Rightarrow> 'm ReadCore" where
  "register_subscriber c = c\<lparr>rc_subscribers := rc_subscribers c + 1\<rparr>"

definition deregister_subscriber :: "'m ReadCore \<Rightarrow> 'm ReadCore" where
  "deregister_subscriber c = c\<lparr>rc_subscribers := rc_subscribers c - 1\<rparr>"

datatype WaitOutcome = Advanced | TimedOut | Closed

text \<open>The passes of \<open>wait_past\<close>: the core read under the lock, and whether the pass follows a timed-out wait.\<close>
fun wait_past :: "Position \<Rightarrow> ('m ReadCore \<times> bool) list \<Rightarrow> WaitOutcome option" where
  "wait_past cur [] = None"
| "wait_past cur ((c, timed_out) # passes) =
     (if rc_closed c then Some Closed
      else if rc_watermark c > cur then Some Advanced
      else if timed_out then Some TimedOut
      else wait_past cur passes)"

subsection \<open>Read handles\<close>

definition handle_read ::
  "crc_fun \<Rightarrow> 'm fst_crate \<Rightarrow> 'm ReadCore \<Rightarrow> ReadConfig \<Rightarrow> Query \<Rightarrow> Position \<Rightarrow> nat option \<Rightarrow> 'm Reads" where
  "handle_read crc F c cfg q aft limit =
     (case core_load c of (wm, sn) \<Rightarrow> Reads_plan crc F sn q aft wm cfg limit)"

definition handle_read_back ::
  "crc_fun \<Rightarrow> 'm fst_crate \<Rightarrow> 'm ReadCore \<Rightarrow> ReadConfig \<Rightarrow> Query \<Rightarrow> Position \<Rightarrow> nat option \<Rightarrow> 'm Reads" where
  "handle_read_back crc F c cfg q bef limit =
     (case core_load c of (wm, sn) \<Rightarrow> Reads_plan_back crc F sn q (min (bef - 1) wm) wm cfg limit)"

subsection \<open>Subscriptions\<close>

definition DEFAULT_MAX_BATCH_EVENTS :: nat where "DEFAULT_MAX_BATCH_EVENTS = 1024"

record Subscription =
  sub_config :: ReadConfig
  sub_query :: Query
  sub_cursor :: Position
  max_batch_events :: nat

text \<open>The new subscription and the core with the subscriber registered.\<close>
definition Subscription_new ::
  "'m ReadCore \<Rightarrow> ReadConfig \<Rightarrow> Query \<Rightarrow> Position \<Rightarrow> Subscription \<times> 'm ReadCore" where
  "Subscription_new c cfg q aft =
     (\<lparr>sub_config = cfg, sub_query = q, sub_cursor = aft, max_batch_events = DEFAULT_MAX_BATCH_EVENTS\<rparr>,
      register_subscriber c)"

definition with_max_batch_events :: "nat \<Rightarrow> Subscription \<Rightarrow> Subscription" where
  "with_max_batch_events n sub = sub\<lparr>max_batch_events := max n 1\<rparr>"

text \<open>The loop of \<open>poll_batch\<close>: the events read and, when the read ended, the drained read.\<close>
function poll_loop ::
  "crc_fun \<Rightarrow> nat \<Rightarrow> 'm Reads \<Rightarrow> (Position \<times> Event) list \<Rightarrow> ReadsError + ((Position \<times> Event) list \<times> 'm Reads option)" where
  "poll_loop crc cap r out =
     (case Reads_next crc r of
        (None, r) \<Rightarrow> Inr (out, Some r)
      | (Some (Inl err), _) \<Rightarrow> Inl err
      | (Some (Inr s), r) \<Rightarrow>
          (let out = out @ [(sq_position s, sq_event s)]
           in if length out \<ge> cap then Inr (out, None) else poll_loop crc cap r out))"
  by pat_completeness auto
termination
  by (relation "measure (\<lambda>(crc, cap, r, out). mode_left (rd_mode r))")
    (auto simp: Reads_next_def dest!: mode_next_progress split: option.splits if_splits prod.splits)

declare poll_loop.simps [simp del]

definition poll_batch ::
  "crc_fun \<Rightarrow> 'm fst_crate \<Rightarrow> 'm ReadCore \<Rightarrow> Subscription \<Rightarrow> (ReadsError + (Position \<times> Event) list) \<times> Subscription" where
  "poll_batch crc F c sub =
     (case core_load c of
        (wm, sn) \<Rightarrow>
          if sub_cursor sub \<ge> wm then (Inr [], sub)
          else
            (case poll_loop crc (max_batch_events sub)
                    (Reads_plan crc F sn (sub_query sub) (sub_cursor sub) wm (sub_config sub) None) [] of
               Inl err \<Rightarrow> (Inl err, sub)
             | Inr (out, None) \<Rightarrow> (Inr out, sub\<lparr>sub_cursor := fst (last out)\<rparr>)
             | Inr (out, Some r) \<Rightarrow>
                 (Inr out,
                  if is_exhausted r then sub\<lparr>sub_cursor := wm\<rparr>
                  else if out \<noteq> [] then sub\<lparr>sub_cursor := fst (last out)\<rparr> else sub)))"

text \<open>\<open>wait\<close>: whether the watermark advanced; \<open>None\<close> while still parked.\<close>
definition sub_wait :: "Subscription \<Rightarrow> 'm ReadCore list \<Rightarrow> bool option" where
  "sub_wait sub cores = map_option (\<lambda>w. w = Advanced) (wait_past (sub_cursor sub) (map (\<lambda>c. (c, False)) cores))"

text \<open>What one turn of \<open>next_batch\<close> sees: the core it polls, the cores of the wait, the core of the last poll.\<close>
record 'm Round =
  poll_core :: "'m ReadCore"
  wait_cores :: "'m ReadCore list"
  close_core :: "'m ReadCore"

text \<open>\<open>next_batch\<close>: \<open>None\<close> while still blocked when the rounds run out; inside it the end of the stream or a batch.\<close>
fun next_batch ::
  "crc_fun \<Rightarrow> 'm fst_crate \<Rightarrow> 'm Round list \<Rightarrow> Subscription
     \<Rightarrow> ((ReadsError + (Position \<times> Event) list) option \<times> Subscription) option" where
  "next_batch crc F [] sub = None"
| "next_batch crc F (r # rounds) sub =
     (case poll_batch crc F (poll_core r) sub of
        (Inl err, sub) \<Rightarrow> Some (Some (Inl err), sub)
      | (Inr batch, sub) \<Rightarrow>
          if batch \<noteq> [] then Some (Some (Inr batch), sub)
          else
            (case sub_wait sub (wait_cores r) of
               None \<Rightarrow> None
             | Some True \<Rightarrow> next_batch crc F rounds sub
             | Some False \<Rightarrow>
                 (case poll_batch crc F (close_core r) sub of
                    (Inl err, sub) \<Rightarrow> Some (Some (Inl err), sub)
                  | (Inr batch, sub) \<Rightarrow> Some (if batch \<noteq> [] then Some (Inr batch) else None, sub))))"

subsection \<open>Polling is exact\<close>

text \<open>The published state covers its watermark: every event up to it is in the snapshot.\<close>
definition core_shows :: "crc_fun \<Rightarrow> 'm fst_crate \<Rightarrow> 'm ReadCore \<Rightarrow> Event list \<Rightarrow> bool" where
  "core_shows crc F c es \<longleftrightarrow> snap_ok crc F (rc_segments c) es \<and> rc_watermark c \<le> length es"

definition found :: "Query \<Rightarrow> Event list \<Rightarrow> Position \<Rightarrow> Position \<Rightarrow> (Position \<times> Event) list" where
  "found q es a b = map (\<lambda>p. (p, es ! (p - 1))) (filter (\<lambda>p. Query_matches q (es ! (p - 1))) [a + 1..<b + 1])"

lemma found_split: "\<lbrakk>a \<le> b; b \<le> c\<rbrakk> \<Longrightarrow> found q es a c = found q es a b @ found q es b c"
  unfolding found_def map_append [symmetric] by (subst filter_hit_split [of "a + 1" "b + 1" "c + 1"]) simp_all

lemma found_prefix:
  assumes "take (length es) es' = es" and "b \<le> length es"
  shows "found q es' a b = found q es a b"
proof -
  have "es' ! (p - 1) = es ! (p - 1)" if "p \<in> set [a + 1..<b + 1]" for p
  proof -
    have "p - 1 < length es" using that assms(2) by auto
    then show ?thesis using nth_take [of "p - 1" "length es" es'] assms(1) by simp
  qed
  then show ?thesis unfolding found_def by (intro map_cong filter_cong) (auto simp del: upt_Suc)
qed

text \<open>The items up to the last of the first \<open>k\<close> are those \<open>k\<close>.\<close>
lemma filter_upt_take:
  assumes "xs = filter P [a..<b]" and "0 < k" and "k \<le> length xs"
  shows "filter P [a..<last (take k xs) + 1] = take k xs"
proof -
  let ?l = "last (take k xs)"
  have s: "sorted_wrt (<) xs" using assms(1) by (simp add: sorted_wrt_filter)
  have l: "?l = xs ! (k - 1)" using assms(2,3) by (subst last_conv_nth) (auto simp: min_def)
  have ord: "i < j \<Longrightarrow> j < length xs \<Longrightarrow> xs ! i < xs ! j" for i j using s by (simp add: sorted_wrt_iff_nth_less)
  have "filter (\<lambda>x. x \<le> ?l) (take k xs) = take k xs"
  proof (rule filter_True, rule ballI)
    fix x assume "x \<in> set (take k xs)"
    then obtain i where "i < k" "i < length xs" "x = xs ! i" by (auto simp: in_set_conv_nth)
    moreover from this have "i < k - 1 \<or> i = k - 1" by linarith
    moreover have "k - 1 < length xs" using assms(2,3) by linarith
    ultimately show "x \<le> ?l" using ord [of i "k - 1"] l by auto
  qed
  moreover have "filter (\<lambda>x. x \<le> ?l) (drop k xs) = []"
  proof (rule filter_False, rule ballI)
    fix x assume "x \<in> set (drop k xs)"
    then obtain i where "i < length (drop k xs)" "x = drop k xs ! i" using in_set_conv_nth by metis
    then have "k + i < length xs" "x = xs ! (k + i)" by auto
    moreover have "k - 1 < k + i" using assms(2) by linarith
    ultimately show "\<not> x \<le> ?l" using ord [of "k - 1" "k + i"] l by simp
  qed
  ultimately have "filter (\<lambda>x. x \<le> ?l) (take k xs @ drop k xs) = take k xs" by (simp only: filter_append append_Nil2)
  then have "filter (\<lambda>x. x \<le> ?l) xs = take k xs" by (simp only: append_take_drop_id)
  moreover have "filter (\<lambda>x. x \<le> ?l) (filter P [a..<b]) = filter P [a..<?l + 1]"
  proof -
    have "?l \<in> set xs" using l assms(2,3) by simp
    then have "?l < b" using assms(1) by simp
    then show ?thesis unfolding filter_filter by (intro filter_upt_eq) auto
  qed
  ultimately show ?thesis using assms(1) by simp
qed

definition unlimited :: "'m Reads \<Rightarrow> bool" where
  "unlimited r \<longleftrightarrow> rd_remaining r = None \<and> \<not> rd_hit_limit r"

lemma unlimited_next: "unlimited r \<Longrightarrow> unlimited (snd (Reads_next crc r))"
  by (auto simp: unlimited_def Reads_next_def split: option.splits prod.splits)

lemma poll_loop_drain:
  assumes "drains (Reads_next crc) r xs" and "unlimited r" and "length out < cap"
  shows "if length out + length xs < cap
         then \<exists>r'. poll_loop crc cap r out = Inr (out @ map (\<lambda>s. (sq_position s, sq_event s)) xs, Some r') \<and> is_exhausted r'
         else poll_loop crc cap r out = Inr (out @ map (\<lambda>s. (sq_position s, sq_event s)) (take (cap - length out) xs), None)"
  using assms
proof (induction arbitrary: out rule: drains.induct)
  case (drains_end r r')
  then show ?case using unlimited_next [of r crc] by (subst (1 2) poll_loop.simps) (auto simp: unlimited_def is_exhausted_def)
next
  case (drains_item r a r' xs)
  have u: "unlimited r'" using unlimited_next [OF drains_item.prems(1), of crc] drains_item.hyps(1) by simp
  let ?out = "out @ [(sq_position a, sq_event a)]"
  show ?case
  proof (cases "length ?out \<ge> cap")
    case True
    then have "cap - length out = 1" using drains_item.prems(2) by simp
    then show ?thesis using True drains_item.hyps(1) drains_item.prems(2)
      by (subst (1 2) poll_loop.simps) (auto simp: Let_def take_Cons')
  next
    case False
    have step: "poll_loop crc cap r out = poll_loop crc cap r' ?out"
      using False drains_item.hyps(1) by (subst poll_loop.simps) (simp add: Let_def)
    have "take (cap - length out) (a # xs) = a # take (cap - length ?out) xs"
      using False by (simp add: take_Cons')
    then show ?thesis using drains_item.IH [OF u, of ?out] False by (auto simp: step)
  qed
qed

lemma poll_batch_ok:
  assumes "core_shows crc F c es" and "wf_Query (sub_query sub)" and "1 \<le> max_batch_events sub"
  obtains cur where "poll_batch crc F c sub = (Inr (found (sub_query sub) es (sub_cursor sub) cur), sub\<lparr>sub_cursor := cur\<rparr>)"
    and "sub_cursor sub \<le> cur" and "cur \<le> max (sub_cursor sub) (rc_watermark c)"
    and "length (found (sub_query sub) es (sub_cursor sub) cur) \<le> max_batch_events sub"
    and "found (sub_query sub) es (sub_cursor sub) cur = [] \<Longrightarrow> rc_watermark c \<le> cur"
proof (cases "sub_cursor sub \<ge> rc_watermark c")
  case True
  then show thesis using that [of "sub_cursor sub"] by (simp add: poll_batch_def core_load_def found_def)
next
  case False
  let ?a = "sub_cursor sub" and ?wm = "rc_watermark c" and ?q = "sub_query sub" and ?k = "max_batch_events sub"
  let ?r = "Reads_plan crc F (rc_segments c) ?q ?a ?wm (sub_config sub) None"
  define xs where "xs = filter (\<lambda>p. Query_matches ?q (es ! (p - 1))) [?a + 1..<?wm + 1]"
  have sn: "snap_ok crc F (rc_segments c) es" "?wm \<le> length es" using assms(1) by (auto simp: core_shows_def)
  have d: "drains (Reads_next crc) ?r (map (sequenced es) xs)"
    using plan_drain [OF sn(1) assms(2) sn(2), of Forward ?a ?wm "sub_config sub" None]
    by (simp add: Reads_plan_def read_positions_def truncate_to_def xs_def del: upt_Suc)
  have u: "unlimited ?r"
    by (auto simp: unlimited_def Reads_plan_def plan_directional_def reads_of_def split: sum.splits prod.splits Access.splits)
  have ev: "map (\<lambda>s. (sq_position s, sq_event s)) (map (sequenced es) ps) = map (\<lambda>p. (p, es ! (p - 1))) ps" for ps
    by (simp add: sequenced_def comp_def)
  note loop = poll_loop_drain [OF d u, of "[]" ?k]
  show thesis
  proof (cases "length xs < ?k")
    case True
    have f: "found ?q es ?a ?wm = map (\<lambda>p. (p, es ! (p - 1))) xs" by (simp only: found_def xs_def)
    from True obtain r' where "poll_loop crc ?k ?r [] = Inr (found ?q es ?a ?wm, Some r')" "is_exhausted r'"
      using loop by (auto simp: f sequenced_def comp_def)
    then show thesis
      using that [of ?wm] False True by (simp add: poll_batch_def core_load_def f)
  next
    case cap: False
    let ?l = "last (take ?k xs)"
    have t: "filter (\<lambda>p. Query_matches ?q (es ! (p - 1))) [?a + 1..<?l + 1] = take ?k xs"
      using filter_upt_take [OF xs_def, of ?k] assms(3) cap by simp
    then have f: "found ?q es ?a ?l = map (\<lambda>p. (p, es ! (p - 1))) (take ?k xs)" by (simp add: found_def)
    have ne: "take ?k xs \<noteq> []" using assms(3) cap by auto
    have "?l \<in> set (take ?k xs)" by (rule last_in_set [OF ne])
    then have "?l \<in> set xs" by (rule in_set_takeD)
    moreover have "set xs \<subseteq> {?a + 1..<?wm + 1}" by (auto simp: xs_def)
    ultimately have l: "?a \<le> ?l" "?l \<le> ?wm" by auto
    have "poll_loop crc ?k ?r [] = Inr (found ?q es ?a ?l, None)"
      using loop assms(3) cap by (simp add: f take_map sequenced_def comp_def)
    moreover have "fst (last (found ?q es ?a ?l)) = ?l" using ne by (simp add: f last_map)
    moreover have "found ?q es ?a ?l \<noteq> []" using ne f by simp
    ultimately show thesis
      using that [of ?l] False l f by (simp add: poll_batch_def core_load_def)
  qed
qed

text \<open>Polling a sequence of published states, with all batches together.\<close>
fun polls ::
  "crc_fun \<Rightarrow> 'm fst_crate \<Rightarrow> 'm ReadCore list \<Rightarrow> Subscription \<Rightarrow> (ReadsError + (Position \<times> Event) list) \<times> Subscription" where
  "polls crc F [] sub = (Inr [], sub)"
| "polls crc F (c # cs) sub =
     (case poll_batch crc F c sub of
        (Inl err, sub) \<Rightarrow> (Inl err, sub)
      | (Inr batch, sub) \<Rightarrow>
          (case polls crc F cs sub of
             (Inl err, sub) \<Rightarrow> (Inl err, sub)
           | (Inr rest, sub) \<Rightarrow> (Inr (batch @ rest), sub)))"

text \<open>One poll in terms of the final log, of which the core shows a prefix.\<close>
lemma poll_batch_log:
  assumes "core_shows crc F c (take n es)" and "wf_Query (sub_query sub)" and "1 \<le> max_batch_events sub"
  obtains cur where "poll_batch crc F c sub = (Inr (found (sub_query sub) es (sub_cursor sub) cur), sub\<lparr>sub_cursor := cur\<rparr>)"
    and "sub_cursor sub \<le> cur" and "sub_cursor sub < rc_watermark c \<Longrightarrow> sub_cursor sub < cur"
    and "found (sub_query sub) es (sub_cursor sub) cur = [] \<Longrightarrow> rc_watermark c \<le> cur"
    and "cur \<le> max (sub_cursor sub) (rc_watermark c)"
    and "length (found (sub_query sub) es (sub_cursor sub) cur) \<le> max_batch_events sub"
proof -
  let ?q = "sub_query sub" and ?a = "sub_cursor sub"
  obtain cur where p: "poll_batch crc F c sub = (Inr (found ?q (take n es) ?a cur), sub\<lparr>sub_cursor := cur\<rparr>)"
    "?a \<le> cur" "cur \<le> max ?a (rc_watermark c)" "length (found ?q (take n es) ?a cur) \<le> max_batch_events sub"
    "found ?q (take n es) ?a cur = [] \<Longrightarrow> rc_watermark c \<le> cur"
    using poll_batch_ok [OF assms] by metis
  have wm: "rc_watermark c \<le> length (take n es)" using assms(1) by (simp add: core_shows_def)
  have eq: "found ?q es ?a cur = found ?q (take n es) ?a cur"
  proof (cases "cur \<le> length (take n es)")
    case True
    have "take (length (take n es)) es = take n es" by (metis append_eq_conv_conj append_take_drop_id)
    from found_prefix [OF this True] show ?thesis .
  next
    case False
    then have "cur = ?a" using p(2,3) wm by auto
    then show ?thesis by (simp add: found_def)
  qed
  have "?a < cur" if "?a < rc_watermark c"
    using that p(2,5) by (cases "cur = ?a") (auto simp: found_def)
  then show thesis using that [of cur] p unfolding eq by blast
qed

lemma polls_ok:
  assumes "\<forall>c \<in> set cs. \<exists>n. core_shows crc F c (take n es)" and "wf_Query (sub_query sub)" and "1 \<le> max_batch_events sub"
  shows "\<exists>cur. polls crc F cs sub = (Inr (found (sub_query sub) es (sub_cursor sub) cur), sub\<lparr>sub_cursor := cur\<rparr>) \<and>
     sub_cursor sub \<le> cur \<and> ((\<forall>c \<in> set cs. w \<le> rc_watermark c) \<and> w \<le> sub_cursor sub + length cs \<longrightarrow> w \<le> cur)"
  using assms
proof (induction cs arbitrary: sub)
  case Nil
  show ?case by (rule exI [of _ "sub_cursor sub"]) (simp add: found_def)
next
  case (Cons c cs)
  let ?q = "sub_query sub" and ?a = "sub_cursor sub"
  obtain n where "core_shows crc F c (take n es)" using Cons.prems(1) by auto
  from poll_batch_log [OF this Cons.prems(2,3)] obtain b where
    b: "poll_batch crc F c sub = (Inr (found ?q es ?a b), sub\<lparr>sub_cursor := b\<rparr>)" "?a \<le> b"
      "?a < rc_watermark c \<Longrightarrow> ?a < b"
    by metis
  obtain cur where cur: "polls crc F cs (sub\<lparr>sub_cursor := b\<rparr>) = (Inr (found ?q es b cur), sub\<lparr>sub_cursor := cur\<rparr>)"
    "b \<le> cur" "(\<forall>c \<in> set cs. w \<le> rc_watermark c) \<and> w \<le> b + length cs \<longrightarrow> w \<le> cur"
    using Cons.IH [of "sub\<lparr>sub_cursor := b\<rparr>"] Cons.prems by auto
  have "w \<le> cur" if "\<forall>c \<in> set (c # cs). w \<le> rc_watermark c" "w \<le> ?a + length (c # cs)"
  proof (cases "w \<le> ?a")
    case False
    then have "?a < b" using that(1) b(3) by auto
    then show ?thesis using that cur(3) by auto
  qed (use b(2) cur(2) in simp)
  then show ?case using b cur found_split [OF b(2) cur(2), of ?q es] by (intro exI [of _ cur]) auto
qed

text \<open>What a turn of \<open>next_batch\<close> may see: states that each show a prefix of the log.\<close>
definition round_ok :: "crc_fun \<Rightarrow> 'm fst_crate \<Rightarrow> Event list \<Rightarrow> 'm Round \<Rightarrow> bool" where
  "round_ok crc F es r \<longleftrightarrow>
     (\<exists>n. core_shows crc F (poll_core r) (take n es)) \<and> (\<exists>n. core_shows crc F (close_core r) (take n es))"

definition batch_spec ::
  "Query \<Rightarrow> Event list \<Rightarrow> 'm Round list \<Rightarrow> Position \<Rightarrow> Position \<Rightarrow> (ReadsError + (Position \<times> Event) list) option \<Rightarrow> bool" where
  "batch_spec q es rounds a b out \<longleftrightarrow>
     (case out of
        Some (Inr batch) \<Rightarrow> batch = found q es a b \<and> batch \<noteq> []
      | Some (Inl _) \<Rightarrow> False
      | None \<Rightarrow> found q es a b = [] \<and>
          (\<exists>r \<in> set rounds. rc_watermark (close_core r) \<le> b \<and> (\<exists>c \<in> set (wait_cores r). rc_closed c)))"

lemma sub_wait_closed: "sub_wait sub cores = Some False \<Longrightarrow> \<exists>c \<in> set cores. rc_closed c"
  by (induction cores) (auto simp: sub_wait_def split: if_splits)

lemma next_batch_ok:
  assumes "\<forall>r \<in> set rounds. round_ok crc F es r" and "wf_Query (sub_query sub)" and "1 \<le> max_batch_events sub"
    and "next_batch crc F rounds sub = Some (out, sub')"
  shows "\<exists>cur. sub' = sub\<lparr>sub_cursor := cur\<rparr> \<and> sub_cursor sub \<le> cur \<and>
     batch_spec (sub_query sub) es rounds (sub_cursor sub) cur out"
  using assms
proof (induction rounds arbitrary: sub)
  case (Cons r rounds)
  let ?q = "sub_query sub" and ?a = "sub_cursor sub"
  obtain n m where r: "core_shows crc F (poll_core r) (take n es)" "core_shows crc F (close_core r) (take m es)"
    using Cons.prems(1) by (auto simp: round_ok_def)
  obtain b where b: "poll_batch crc F (poll_core r) sub = (Inr (found ?q es ?a b), sub\<lparr>sub_cursor := b\<rparr>)" "?a \<le> b"
    using poll_batch_log [OF r(1) Cons.prems(2,3)] by metis
  show ?case
  proof (cases "found ?q es ?a b = []")
    case False
    then show ?thesis using Cons.prems(4) b by (auto simp: batch_spec_def intro!: exI [of _ b])
  next
    case True
    let ?sub = "sub\<lparr>sub_cursor := b\<rparr>"
    have e: "found ?q es ?a x = found ?q es b x" if "b \<le> x" for x using found_split [OF b(2) that] True by simp
    obtain w where w: "sub_wait ?sub (wait_cores r) = Some w"
      using Cons.prems(4) b(1) True by (auto split: option.splits)
    show ?thesis
    proof (cases w)
      case adv: True
      have "next_batch crc F rounds ?sub = Some (out, sub')" using Cons.prems(4) b(1) True w adv by simp
      from Cons.IH [OF _ _ _ this] Cons.prems(1-3) obtain cur where "sub' = ?sub\<lparr>sub_cursor := cur\<rparr>" "b \<le> cur"
        "batch_spec ?q es rounds b cur out"
        by auto
      then show ?thesis using e [of cur] b(2)
        by (intro exI [of _ cur]) (auto simp: batch_spec_def split: option.splits sum.splits)
    next
      case clos: False
      obtain d where d: "poll_batch crc F (close_core r) ?sub = (Inr (found ?q es b d), ?sub\<lparr>sub_cursor := d\<rparr>)" "b \<le> d"
        "found ?q es b d = [] \<Longrightarrow> rc_watermark (close_core r) \<le> d"
        using poll_batch_log [OF r(2), of ?sub] Cons.prems(2,3) by auto
      have c: "\<exists>c \<in> set (wait_cores r). rc_closed c" using sub_wait_closed w clos by auto
      have run: "(out, sub') = (if found ?q es b d \<noteq> [] then Some (Inr (found ?q es b d)) else None, ?sub\<lparr>sub_cursor := d\<rparr>)"
        using Cons.prems(4) b(1) True w clos d(1) by simp
      then show ?thesis using e [OF d(2)] b(2) d(2,3) c by (intro exI [of _ d]) (auto simp: batch_spec_def split: if_splits)
    qed
  qed
qed simp

subsection \<open>The wakeup protocol\<close>

text \<open>
  The program counters. The writer stores the watermark (\<open>publish_watermark\<close>), reads the subscriber count
  (the gate of \<open>wake\<close>), takes the lock and notifies; at shutdown it stores \<open>closed\<close>, takes the lock and notifies.
  A subscriber registers, takes the lock (\<open>wait_past\<close>), reads \<open>closed\<close>, reads the watermark, and parks, which
  releases the lock; a notified (or spuriously woken) one takes the lock again. One whose bounded wait timed out
  takes it too, reads \<open>closed\<close> and the watermark once more, and returns whatever they say.
\<close>
datatype WriterPc = WIdle | WStored | WNotify | WHolding | WClosing | WClosingHolding | WClosed

datatype SubPc = SNew | SIdle | SLocked | SOpen | SChecked | SParked | SWoken | STimedOut | STimedLocked | STimedOpen | SDropped

datatype Holder = ByWriter | BySub nat

record Notify =
  nt_watermark :: Position
  nt_closed :: bool
  nt_subscribers :: nat
  nt_lock :: "Holder option"
  nt_writer :: WriterPc
  nt_pc :: "nat \<Rightarrow> SubPc"
  nt_cursor :: "nat \<Rightarrow> Position"

definition notify_all :: "Notify \<Rightarrow> Notify" where
  "notify_all s = s\<lparr>nt_pc := (\<lambda>i. if nt_pc s i = SParked then SWoken else nt_pc s i), nt_lock := None\<rparr>"

definition set_pc :: "nat \<Rightarrow> SubPc \<Rightarrow> Notify \<Rightarrow> Notify" where
  "set_pc i pc s = s\<lparr>nt_pc := (nt_pc s)(i := pc)\<rparr>"

inductive notify_step :: "Notify \<Rightarrow> Notify \<Rightarrow> bool" where
  publish: "\<lbrakk>nt_writer s = WIdle; nt_watermark s < tip\<rbrakk> \<Longrightarrow> notify_step s (s\<lparr>nt_watermark := tip, nt_writer := WStored\<rparr>)"
| gate_skip: "\<lbrakk>nt_writer s = WStored; nt_subscribers s = 0\<rbrakk> \<Longrightarrow> notify_step s (s\<lparr>nt_writer := WIdle\<rparr>)"
| gate_pass: "\<lbrakk>nt_writer s = WStored; nt_subscribers s \<noteq> 0\<rbrakk> \<Longrightarrow> notify_step s (s\<lparr>nt_writer := WNotify\<rparr>)"
| wake_lock: "\<lbrakk>nt_writer s = WNotify; nt_lock s = None\<rbrakk> \<Longrightarrow> notify_step s (s\<lparr>nt_writer := WHolding, nt_lock := Some ByWriter\<rparr>)"
| wake_notify: "nt_writer s = WHolding \<Longrightarrow> notify_step s ((notify_all s)\<lparr>nt_writer := WIdle\<rparr>)"
| close_store: "nt_writer s = WIdle \<Longrightarrow> notify_step s (s\<lparr>nt_closed := True, nt_writer := WClosing\<rparr>)"
| close_lock: "\<lbrakk>nt_writer s = WClosing; nt_lock s = None\<rbrakk> \<Longrightarrow> notify_step s (s\<lparr>nt_writer := WClosingHolding, nt_lock := Some ByWriter\<rparr>)"
| close_notify: "nt_writer s = WClosingHolding \<Longrightarrow> notify_step s ((notify_all s)\<lparr>nt_writer := WClosed\<rparr>)"
| sub_register: "nt_pc s i = SNew \<Longrightarrow> notify_step s ((set_pc i SIdle s)\<lparr>nt_subscribers := nt_subscribers s + 1, nt_cursor := (nt_cursor s)(i := cur)\<rparr>)"
| sub_poll: "\<lbrakk>nt_pc s i = SIdle; nt_cursor s i \<le> cur; cur \<le> nt_watermark s\<rbrakk> \<Longrightarrow> notify_step s (s\<lparr>nt_cursor := (nt_cursor s)(i := cur)\<rparr>)"
| wait_lock: "\<lbrakk>nt_pc s i = SIdle \<or> nt_pc s i = SWoken; nt_lock s = None\<rbrakk> \<Longrightarrow> notify_step s ((set_pc i SLocked s)\<lparr>nt_lock := Some (BySub i)\<rparr>)"
| wait_closed: "\<lbrakk>nt_pc s i = SLocked; nt_closed s\<rbrakk> \<Longrightarrow> notify_step s ((set_pc i SIdle s)\<lparr>nt_lock := None\<rparr>)"
| wait_open: "\<lbrakk>nt_pc s i = SLocked; \<not> nt_closed s\<rbrakk> \<Longrightarrow> notify_step s (set_pc i SOpen s)"
| wait_advanced: "\<lbrakk>nt_pc s i = SOpen; nt_watermark s > nt_cursor s i\<rbrakk> \<Longrightarrow> notify_step s ((set_pc i SIdle s)\<lparr>nt_lock := None\<rparr>)"
| wait_behind: "\<lbrakk>nt_pc s i = SOpen; nt_watermark s \<le> nt_cursor s i\<rbrakk> \<Longrightarrow> notify_step s (set_pc i SChecked s)"
| wait_park: "nt_pc s i = SChecked \<Longrightarrow> notify_step s ((set_pc i SParked s)\<lparr>nt_lock := None\<rparr>)"
| wait_spurious: "nt_pc s i = SParked \<Longrightarrow> notify_step s (set_pc i SWoken s)"
| wait_timeout: "nt_pc s i = SParked \<Longrightarrow> notify_step s (set_pc i STimedOut s)"
| timed_lock: "\<lbrakk>nt_pc s i = STimedOut; nt_lock s = None\<rbrakk> \<Longrightarrow> notify_step s ((set_pc i STimedLocked s)\<lparr>nt_lock := Some (BySub i)\<rparr>)"
| timed_closed: "\<lbrakk>nt_pc s i = STimedLocked; nt_closed s\<rbrakk> \<Longrightarrow> notify_step s ((set_pc i SIdle s)\<lparr>nt_lock := None\<rparr>)"
| timed_open: "\<lbrakk>nt_pc s i = STimedLocked; \<not> nt_closed s\<rbrakk> \<Longrightarrow> notify_step s (set_pc i STimedOpen s)"
| timed_return: "nt_pc s i = STimedOpen \<Longrightarrow> notify_step s ((set_pc i SIdle s)\<lparr>nt_lock := None\<rparr>)"
| sub_drop: "nt_pc s i = SIdle \<Longrightarrow> notify_step s ((set_pc i SDropped s)\<lparr>nt_subscribers := nt_subscribers s - 1\<rparr>)"

definition notify_init :: "Position \<Rightarrow> Notify" where
  "notify_init wm =
     \<lparr>nt_watermark = wm, nt_closed = False, nt_subscribers = 0, nt_lock = None, nt_writer = WIdle,
      nt_pc = \<lambda>_. SNew, nt_cursor = \<lambda>_. 0\<rparr>"

text \<open>Subscribers between registering and dropping.\<close>
definition live_subs :: "Notify \<Rightarrow> nat set" where
  "live_subs s = {i. nt_pc s i \<noteq> SNew \<and> nt_pc s i \<noteq> SDropped}"

definition inside :: "SubPc \<Rightarrow> bool" where
  "inside pc \<longleftrightarrow> pc = SLocked \<or> pc = SOpen \<or> pc = SChecked \<or> pc = STimedLocked \<or> pc = STimedOpen"

text \<open>The writer still owes a notification for a stored watermark or for closing.\<close>
definition owes_wake :: "WriterPc \<Rightarrow> bool" where
  "owes_wake w \<longleftrightarrow> w = WStored \<or> w = WNotify \<or> w = WHolding"

definition owes_close :: "WriterPc \<Rightarrow> bool" where
  "owes_close w \<longleftrightarrow> w = WClosing \<or> w = WClosingHolding"

definition notify_inv :: "Notify \<Rightarrow> bool" where
  "notify_inv s \<longleftrightarrow>
     finite (live_subs s) \<and> nt_subscribers s = card (live_subs s) \<and>
     (\<forall>i. inside (nt_pc s i) \<longleftrightarrow> nt_lock s = Some (BySub i)) \<and>
     (nt_writer s = WHolding \<or> nt_writer s = WClosingHolding \<longleftrightarrow> nt_lock s = Some ByWriter) \<and>
     (nt_closed s \<longleftrightarrow> owes_close (nt_writer s) \<or> nt_writer s = WClosed) \<and>
     (\<forall>i. nt_pc s i = SChecked \<or> nt_pc s i = SParked \<longrightarrow> nt_watermark s \<le> nt_cursor s i \<or> owes_wake (nt_writer s)) \<and>
     (\<forall>i. nt_pc s i = SOpen \<or> nt_pc s i = SChecked \<or> nt_pc s i = SParked \<longrightarrow> \<not> nt_closed s \<or> owes_close (nt_writer s))"

lemma live_subs_pc:
  "live_subs (set_pc i pc s) = (if pc = SNew \<or> pc = SDropped then live_subs s - {i} else insert i (live_subs s))"
  by (auto simp: live_subs_def set_pc_def)

lemma live_subs_update [simp]:
  "live_subs (s\<lparr>nt_watermark := wm\<rparr>) = live_subs s" "live_subs (s\<lparr>nt_closed := c\<rparr>) = live_subs s"
  "live_subs (s\<lparr>nt_subscribers := n\<rparr>) = live_subs s" "live_subs (s\<lparr>nt_lock := l\<rparr>) = live_subs s"
  "live_subs (s\<lparr>nt_writer := w\<rparr>) = live_subs s" "live_subs (s\<lparr>nt_cursor := cs\<rparr>) = live_subs s"
  "live_subs (notify_all s) = live_subs s"
  by (auto simp: live_subs_def notify_all_def)

lemma notify_all_simps [simp]:
  "nt_watermark (notify_all s) = nt_watermark s" "nt_closed (notify_all s) = nt_closed s"
  "nt_subscribers (notify_all s) = nt_subscribers s" "nt_lock (notify_all s) = None" "nt_writer (notify_all s) = nt_writer s"
  "nt_pc (notify_all s) i = (if nt_pc s i = SParked then SWoken else nt_pc s i)" "nt_cursor (notify_all s) = nt_cursor s"
  by (simp_all add: notify_all_def)

lemma set_pc_simps [simp]:
  "nt_watermark (set_pc i pc s) = nt_watermark s" "nt_closed (set_pc i pc s) = nt_closed s"
  "nt_subscribers (set_pc i pc s) = nt_subscribers s" "nt_lock (set_pc i pc s) = nt_lock s" "nt_writer (set_pc i pc s) = nt_writer s"
  "nt_pc (set_pc i pc s) = (nt_pc s)(i := pc)" "nt_cursor (set_pc i pc s) = nt_cursor s"
  by (simp_all add: set_pc_def)

lemma live_subs_mem: "i \<in> live_subs s \<longleftrightarrow> nt_pc s i \<noteq> SNew \<and> nt_pc s i \<noteq> SDropped"
  by (simp add: live_subs_def)

lemma inside_simps [simp]:
  "\<not> inside SNew" "\<not> inside SIdle" "inside SLocked" "inside SOpen" "inside SChecked" "\<not> inside SParked" "\<not> inside SWoken"
  "\<not> inside STimedOut" "inside STimedLocked" "inside STimedOpen" "\<not> inside SDropped"
  by (simp_all add: inside_def)

lemma notify_inv_lock: "notify_inv s \<Longrightarrow> nt_lock s = Some (BySub i) \<longleftrightarrow> inside (nt_pc s i)"
  by (simp add: notify_inv_def)

lemma set_pc_lock: "nt_lock s = l \<Longrightarrow> (set_pc i pc s)\<lparr>nt_lock := l\<rparr> = set_pc i pc s"
  by (cases s) (auto simp: set_pc_def)

text \<open>A live subscriber moves to another counter, taking or releasing the lock as the counter says.\<close>
lemma notify_inv_move:
  assumes "notify_inv s" and "i \<in> live_subs s" and "pc \<noteq> SNew" and "pc \<noteq> SDropped"
    and "if inside pc then l = Some (BySub i) \<and> (inside (nt_pc s i) \<or> nt_lock s = None)
         else if inside (nt_pc s i) then l = None else l = nt_lock s"
    and "pc = SChecked \<or> pc = SParked \<Longrightarrow> nt_watermark s \<le> nt_cursor s i \<or> owes_wake (nt_writer s)"
    and "pc = SOpen \<or> pc = SChecked \<or> pc = SParked \<Longrightarrow> \<not> nt_closed s \<or> owes_close (nt_writer s)"
  shows "notify_inv ((set_pc i pc s)\<lparr>nt_lock := l\<rparr>)"
proof -
  let ?s = "(set_pc i pc s)\<lparr>nt_lock := l\<rparr>"
  have inv: "finite (live_subs s)" "nt_subscribers s = card (live_subs s)"
    "\<And>j. inside (nt_pc s j) \<longleftrightarrow> nt_lock s = Some (BySub j)"
    "nt_writer s = WHolding \<or> nt_writer s = WClosingHolding \<longleftrightarrow> nt_lock s = Some ByWriter"
    "nt_closed s \<longleftrightarrow> owes_close (nt_writer s) \<or> nt_writer s = WClosed"
    "\<And>j. nt_pc s j = SChecked \<or> nt_pc s j = SParked \<Longrightarrow> nt_watermark s \<le> nt_cursor s j \<or> owes_wake (nt_writer s)"
    "\<And>j. nt_pc s j = SOpen \<or> nt_pc s j = SChecked \<or> nt_pc s j = SParked \<Longrightarrow> \<not> nt_closed s \<or> owes_close (nt_writer s)"
    using assms(1) unfolding notify_inv_def by blast+
  have live: "live_subs ?s = live_subs s" using assms(2-4) by (simp add: live_subs_pc insert_absorb)
  have "inside (nt_pc ?s j) \<longleftrightarrow> nt_lock ?s = Some (BySub j)" for j
    using inv(3) [of j] inv(3) [of i] assms(5) by (cases "j = i") (auto split: if_splits)
  moreover have "nt_writer ?s = WHolding \<or> nt_writer ?s = WClosingHolding \<longleftrightarrow> nt_lock ?s = Some ByWriter"
    using inv(3) [of i] inv(4) assms(5) by (auto split: if_splits)
  moreover have "nt_watermark ?s \<le> nt_cursor ?s j \<or> owes_wake (nt_writer ?s)" if "nt_pc ?s j = SChecked \<or> nt_pc ?s j = SParked" for j
    using inv(6) [of j] assms(6) that by (cases "j = i") auto
  moreover have "\<not> nt_closed ?s \<or> owes_close (nt_writer ?s)"
    if "nt_pc ?s j = SOpen \<or> nt_pc ?s j = SChecked \<or> nt_pc ?s j = SParked" for j
    using inv(7) [of j] assms(7) that by (cases "j = i") auto
  moreover have "nt_subscribers ?s = card (live_subs s)" "nt_closed ?s \<longleftrightarrow> owes_close (nt_writer ?s) \<or> nt_writer ?s = WClosed"
    using inv(2,5) by simp_all
  ultimately show ?thesis unfolding notify_inv_def live using inv(1) by blast
qed

lemma notify_step_inv:
  assumes "notify_step s s'" and "notify_inv s"
  shows "notify_inv s'"
  using assms
proof (induction rule: notify_step.induct)
  case (gate_skip s)
  then have "live_subs s = {}" by (auto simp: notify_inv_def)
  then have "nt_pc s i \<noteq> SChecked \<and> nt_pc s i \<noteq> SParked" for i using live_subs_mem [of i s] by auto
  then show ?case using gate_skip by (auto simp: notify_inv_def owes_wake_def owes_close_def)
next
  case (wake_notify s)
  then have "\<not> inside (nt_pc s i)" for i using notify_inv_lock [of s i] by (auto simp: notify_inv_def)
  then have "nt_pc s i \<noteq> SOpen" "nt_pc s i \<noteq> SChecked" for i using inside_simps by metis+
  then show ?case using wake_notify by (auto simp: notify_inv_def owes_wake_def owes_close_def)
next
  case (close_notify s)
  then have "\<not> inside (nt_pc s i)" for i using notify_inv_lock [of s i] by (auto simp: notify_inv_def)
  then have "nt_pc s i \<noteq> SOpen" "nt_pc s i \<noteq> SChecked" for i using inside_simps by metis+
  then show ?case using close_notify by (auto simp: notify_inv_def owes_wake_def owes_close_def)
next
  case (sub_register s i cur)
  then have "i \<notin> live_subs s" "nt_lock s \<noteq> Some (BySub i)" using notify_inv_lock [of s i] by (auto simp: live_subs_mem)
  then show ?case using sub_register by (auto simp: notify_inv_def live_subs_pc)
next
  case (sub_drop s i)
  then have "i \<in> live_subs s" "nt_lock s \<noteq> Some (BySub i)" using notify_inv_lock [of s i] by (auto simp: live_subs_mem)
  then show ?case using sub_drop by (auto simp: notify_inv_def live_subs_pc)
next
  case (wait_lock s i)
  then show ?case by (intro notify_inv_move) (auto simp: live_subs_mem)
next
  case (wait_closed s i)
  then show ?case by (intro notify_inv_move) (auto simp: live_subs_mem)
next
  case (wait_open s i)
  then have "notify_inv ((set_pc i SOpen s)\<lparr>nt_lock := Some (BySub i)\<rparr>)"
    by (intro notify_inv_move) (auto simp: live_subs_mem)
  then show ?case using notify_inv_lock [OF wait_open(3), of i] wait_open(1) by (simp add: set_pc_lock)
next
  case (wait_advanced s i)
  then show ?case by (intro notify_inv_move) (auto simp: live_subs_mem)
next
  case (wait_behind s i)
  then have "\<not> nt_closed s \<or> owes_close (nt_writer s)" unfolding notify_inv_def by blast
  with wait_behind have "notify_inv ((set_pc i SChecked s)\<lparr>nt_lock := Some (BySub i)\<rparr>)"
    by (intro notify_inv_move) (auto simp: live_subs_mem)
  then show ?case using notify_inv_lock [OF wait_behind(3), of i] wait_behind(1) by (simp add: set_pc_lock)
next
  case (wait_park s i)
  then have "\<not> nt_closed s \<or> owes_close (nt_writer s)" "nt_watermark s \<le> nt_cursor s i \<or> owes_wake (nt_writer s)"
    unfolding notify_inv_def by blast+
  with wait_park show ?case by (intro notify_inv_move) (auto simp: live_subs_mem)
next
  case (wait_spurious s i)
  then have "notify_inv ((set_pc i SWoken s)\<lparr>nt_lock := nt_lock s\<rparr>)"
    by (intro notify_inv_move) (auto simp: live_subs_mem)
  then show ?case by (simp add: set_pc_lock)
next
  case (wait_timeout s i)
  then have "notify_inv ((set_pc i STimedOut s)\<lparr>nt_lock := nt_lock s\<rparr>)"
    by (intro notify_inv_move) (auto simp: live_subs_mem)
  then show ?case by (simp add: set_pc_lock)
next
  case (timed_lock s i)
  then show ?case by (intro notify_inv_move) (auto simp: live_subs_mem)
next
  case (timed_closed s i)
  then show ?case by (intro notify_inv_move) (auto simp: live_subs_mem)
next
  case (timed_open s i)
  then have "notify_inv ((set_pc i STimedOpen s)\<lparr>nt_lock := Some (BySub i)\<rparr>)"
    by (intro notify_inv_move) (auto simp: live_subs_mem)
  then show ?case using notify_inv_lock [OF timed_open(3), of i] timed_open(1) by (simp add: set_pc_lock)
next
  case (timed_return s i)
  then show ?case by (intro notify_inv_move) (auto simp: live_subs_mem)
qed (auto simp: notify_inv_def owes_wake_def owes_close_def)

lemma notify_init_inv: "notify_inv (notify_init wm)"
  by (simp add: notify_inv_def notify_init_def live_subs_def owes_close_def)

lemma notify_reachable_inv: "notify_step\<^sup>*\<^sup>* (notify_init wm) s \<Longrightarrow> notify_inv s"
  by (induction rule: rtranclp_induct) (auto simp: notify_init_inv dest: notify_step_inv)

subsection \<open>Properties\<close>

text \<open>
  C6. A subscription delivers every matching event exactly once, in order, without gap or duplicate: polled
  against any sequence of published states, each showing some prefix of the log, the batches together are
  exactly the matching events between the first and the last cursor, no poll fails, and after as many polls as
  there are positions up to a watermark all states had reached, everything up to it has been delivered.
\<close>
theorem subscription_exactly_once:
  assumes "\<forall>c \<in> set cs. \<exists>n. core_shows crc F c (take n es)" and "wf_Query (sub_query sub)" and "1 \<le> max_batch_events sub"
    and "\<forall>c \<in> set cs. w \<le> rc_watermark c"
  shows "\<exists>cur. polls crc F cs sub =
       (Inr (map (\<lambda>p. (p, es ! (p - 1)))
          (filter (\<lambda>p. Query_matches (sub_query sub) (es ! (p - 1))) [sub_cursor sub + 1..<cur + 1])),
        sub\<lparr>sub_cursor := cur\<rparr>) \<and>
     sub_cursor sub \<le> cur \<and> (w \<le> sub_cursor sub + length cs \<longrightarrow> w \<le> cur)"
  using polls_ok [OF assms(1-3), of w] assms(4) unfolding found_def by blast

theorem subscription_exactly_once_witness:
  "\<exists>S ix sub. set_append_batch crc_demo 0 (map buf demo_events) demo_set = (Inr (1, 2), S) \<and>
     polls crc_demo fst_demo
       (replicate 2 \<lparr>rc_segments = capture S ix, rc_watermark = 2, rc_closed = False, rc_subscribers = 1\<rparr>)
       \<lparr>sub_config = ReadConfig_default, sub_query = All, sub_cursor = 0, max_batch_events = 1\<rparr> =
     (Inr [(1, demo_event 0x41 0x61), (2, demo_event 0x42 0x62)], sub) \<and> sub_cursor sub = 2"
proof (rule demo_snapshot)
  fix S and ix :: "(str \<times> nat) list IndexSet"
  assume s: "set_append_batch crc_demo 0 (map buf demo_events) demo_set = (Inr (1, 2), S)"
    "snap_ok crc_demo fst_demo (capture S ix) demo_events"
  define c where "c = \<lparr>rc_segments = capture S ix, rc_watermark = 2, rc_closed = False, rc_subscribers = 1\<rparr>"
  define sub where "sub = \<lparr>sub_config = ReadConfig_default, sub_query = All, sub_cursor = 0, max_batch_events = 1\<rparr>"
  have len: "length demo_events = 2" by (simp add: demo_events_def)
  have shows_c: "core_shows crc_demo fst_demo c (take 2 demo_events)"
    using s(2) len by (simp add: core_shows_def c_def)
  have q: "wf_Query (sub_query sub)" "1 \<le> max_batch_events sub" "sub_cursor sub = 0" "sub_query sub = All"
    by (simp_all add: sub_def wf_Query_def)
  have "\<forall>c' \<in> set (replicate 2 c). \<exists>n. core_shows crc_demo fst_demo c' (take n demo_events)"
    "\<forall>c' \<in> set (replicate 2 c). 2 \<le> rc_watermark c'"
    using shows_c by (auto simp: c_def)
  from subscription_exactly_once [OF this(1) q(1,2) this(2)] obtain cur where
    cur: "polls crc_demo fst_demo (replicate 2 c) sub =
       (Inr (map (\<lambda>p. (p, demo_events ! (p - 1)))
          (filter (\<lambda>p. Query_matches All (demo_events ! (p - 1))) [0 + 1..<cur + 1])), sub\<lparr>sub_cursor := cur\<rparr>)"
      "2 \<le> 0 + length (replicate 2 c) \<longrightarrow> 2 \<le> cur"
    unfolding q(3,4) by blast
  have "cur \<le> 2"
  proof (rule ccontr)
    assume "\<not> cur \<le> 2"
    obtain a where a: "poll_batch crc_demo fst_demo c sub = (Inr (found All demo_events 0 a), sub\<lparr>sub_cursor := a\<rparr>)" "a \<le> 2"
      using poll_batch_log [OF shows_c q(1,2)] q(3,4) by (auto simp: c_def)
    obtain b where b: "poll_batch crc_demo fst_demo c (sub\<lparr>sub_cursor := a\<rparr>) =
        (Inr (found All demo_events a b), sub\<lparr>sub_cursor := b\<rparr>)" "b \<le> max a 2"
      using poll_batch_log [OF shows_c, of "sub\<lparr>sub_cursor := a\<rparr>"] q(1,2,4) by (auto simp: c_def)
    have "snd (polls crc_demo fst_demo (replicate 2 c) sub) = sub\<lparr>sub_cursor := b\<rparr>"
      using a(1) b(1) by (simp add: numeral_2_eq_2)
    then have "sub\<lparr>sub_cursor := cur\<rparr> = sub\<lparr>sub_cursor := b\<rparr>" using cur(1) by simp
    then have "cur = b" by (metis Subscription.select_convs(3) Subscription.surjective Subscription.update_convs(3))
    then show False using a(2) b(2) \<open>\<not> cur \<le> 2\<close> by simp
  qed
  then have c2: "cur = 2" using cur(2) by simp
  have "map (\<lambda>p. (p, demo_events ! (p - 1))) (filter (\<lambda>p. Query_matches All (demo_events ! (p - 1))) [0 + 1..<2 + 1]) =
      [(1, demo_event 0x41 0x61), (2, demo_event 0x42 0x62)]" by code_simp
  then have "polls crc_demo fst_demo (replicate 2 c) sub =
      (Inr [(1, demo_event 0x41 0x61), (2, demo_event 0x42 0x62)], sub\<lparr>sub_cursor := 2\<rparr>)"
    using cur(1) unfolding c2 by (simp only:)
  moreover have "sub_cursor (sub\<lparr>sub_cursor := 2\<rparr>) = 2" by simp
  ultimately show ?thesis using s(1) unfolding c_def sub_def by blast
qed

text \<open>
  C23. The blocking form loses nothing at shutdown: whatever \<open>next_batch\<close> sees while it polls and waits, a batch it
  returns is exactly the matching events between the old and the new cursor, it returns no error, and it ends
  the stream only after it saw the store closed and polled everything up to the watermark published last.
\<close>
theorem next_batch_complete:
  assumes "\<forall>r \<in> set rounds. round_ok crc F es r" and "wf_Query (sub_query sub)" and "1 \<le> max_batch_events sub"
    and "next_batch crc F rounds sub = Some (out, sub')"
  shows "sub_cursor sub \<le> sub_cursor sub' \<and>
     (case out of
        Some (Inr batch) \<Rightarrow> batch = found (sub_query sub) es (sub_cursor sub) (sub_cursor sub') \<and> batch \<noteq> []
      | Some (Inl _) \<Rightarrow> False
      | None \<Rightarrow> found (sub_query sub) es (sub_cursor sub) (sub_cursor sub') = [] \<and>
          (\<exists>r \<in> set rounds. rc_watermark (close_core r) \<le> sub_cursor sub' \<and> (\<exists>c \<in> set (wait_cores r). rc_closed c)))"
proof -
  obtain cur where "sub' = sub\<lparr>sub_cursor := cur\<rparr>" "sub_cursor sub \<le> cur"
    "batch_spec (sub_query sub) es rounds (sub_cursor sub) cur out"
    using next_batch_ok [OF assms] by blast
  moreover from this have "sub_cursor sub' = cur" by simp
  ultimately show ?thesis by (simp only: batch_spec_def)
qed

theorem next_batch_complete_witness:
  "\<exists>S ix out sub'. set_append_batch crc_demo 0 (map buf demo_events) demo_set = (Inr (1, 2), S) \<and>
     (let c = \<lparr>rc_segments = capture S ix, rc_watermark = 2, rc_closed = True, rc_subscribers = 1\<rparr>;
          sub = \<lparr>sub_config = ReadConfig_default, sub_query = All, sub_cursor = 2, max_batch_events = 1\<rparr>
      in next_batch crc_demo fst_demo [\<lparr>poll_core = c, wait_cores = [c], close_core = c\<rparr>] sub = Some (out, sub') \<and>
         out = None \<and> 2 \<le> sub_cursor sub')"
proof (rule demo_snapshot)
  fix S and ix :: "(str \<times> nat) list IndexSet"
  assume s: "set_append_batch crc_demo 0 (map buf demo_events) demo_set = (Inr (1, 2), S)"
    "snap_ok crc_demo fst_demo (capture S ix) demo_events"
  define c where "c = \<lparr>rc_segments = capture S ix, rc_watermark = 2, rc_closed = True, rc_subscribers = 1\<rparr>"
  define sub where "sub = \<lparr>sub_config = ReadConfig_default, sub_query = All, sub_cursor = 2, max_batch_events = 1\<rparr>"
  let ?r = "\<lparr>poll_core = c, wait_cores = [c], close_core = c\<rparr>"
  have "core_shows crc_demo fst_demo c (take 2 demo_events)"
    using s(2) by (simp add: core_shows_def c_def demo_events_def)
  then have "\<forall>r \<in> set [?r]. round_ok crc_demo fst_demo demo_events r" by (auto simp: round_ok_def)
  moreover have q: "wf_Query (sub_query sub)" "1 \<le> max_batch_events sub" "sub_cursor sub = 2" by (simp_all add: sub_def wf_Query_def)
  moreover have run: "next_batch crc_demo fst_demo [?r] sub = Some (None, sub)"
    by (simp add: poll_batch_def core_load_def sub_wait_def q(3) c_def)
  ultimately have "2 \<le> sub_cursor sub" using next_batch_complete [of "[?r]" crc_demo fst_demo demo_events sub None sub] by simp
  then show ?thesis using s(1) run unfolding c_def sub_def Let_def by blast
qed

text \<open>
  C24. No wakeup is lost: in every reachable state of the protocol, with any number of subscribers registering,
  polling, waiting and dropping at any time, a subscriber that is parked while the writer owes no notification
  has seen everything: the watermark is not past its cursor and the store is not closed. In particular a commit
  whose gate read a zero count has skipped no one who sleeps.
\<close>
theorem no_lost_wakeup:
  assumes "notify_step\<^sup>*\<^sup>* (notify_init wm) s" and "nt_pc s i = SParked" and "nt_writer s = WIdle \<or> nt_writer s = WClosed"
  shows "nt_watermark s \<le> nt_cursor s i \<and> \<not> nt_closed s"
proof -
  have "nt_watermark s \<le> nt_cursor s i \<or> owes_wake (nt_writer s)" "\<not> nt_closed s \<or> owes_close (nt_writer s)"
    using notify_reachable_inv [OF assms(1)] assms(2) unfolding notify_inv_def by blast+
  then show ?thesis using assms(3) by (auto simp: owes_wake_def owes_close_def)
qed

theorem no_lost_wakeup_witness:
  "\<exists>s. notify_step\<^sup>*\<^sup>* (notify_init 0) s \<and> nt_pc s 0 = SParked \<and> nt_writer s = WIdle \<and>
     nt_watermark s \<le> nt_cursor s 0 \<and> \<not> nt_closed s"
proof -
  define s1 where "s1 = (set_pc 0 SIdle (notify_init 0))\<lparr>nt_subscribers := 1, nt_cursor := (nt_cursor (notify_init 0))(0 := 0)\<rparr>"
  define s2 where "s2 = (set_pc 0 SLocked s1)\<lparr>nt_lock := Some (BySub 0)\<rparr>"
  define s3 where "s3 = set_pc 0 SOpen s2"
  define s4 where "s4 = set_pc 0 SChecked s3"
  define s5 where "s5 = (set_pc 0 SParked s4)\<lparr>nt_lock := None\<rparr>"
  note d = s1_def s2_def s3_def s4_def s5_def notify_init_def
  have "notify_step (notify_init 0) s1" using sub_register [of "notify_init 0" 0 0] by (simp add: s1_def notify_init_def)
  moreover have "notify_step s1 s2" using wait_lock [of s1 0] by (simp add: d)
  moreover have "notify_step s2 s3" using wait_open [of s2 0] by (simp add: d)
  moreover have "notify_step s3 s4" using wait_behind [of s3 0] by (simp add: d)
  moreover have "notify_step s4 s5" using wait_park [of s4 0] by (simp add: d)
  ultimately have r: "notify_step\<^sup>*\<^sup>* (notify_init 0) s5" by (meson rtranclp.rtrancl_into_rtrancl rtranclp.rtrancl_refl)
  have "nt_pc s5 0 = SParked" "nt_writer s5 = WIdle" by (simp_all add: d)
  then show ?thesis using no_lost_wakeup [OF r, of 0] r by auto
qed

end
