(* ===== verification/Coordinator.thy ===== *)
theory Coordinator
  imports Condition Subscribe
begin

text \<open>
  The write coordinator (\<open>crates/tephra/src/writer/coordinator.rs\<close>, \<open>batch.rs\<close>, \<open>handle.rs\<close> and the types of
  \<open>mod.rs\<close>): draining the request channel into a batch, evaluating conditions, staging, group commit, feeding the
  index, publishing to readers and replying.

  The channel is the list of queued messages and whether all senders are gone; blocking on it is a result of its
  own. Sending a reply appends \<open>(channel, token, result)\<close> to the list of replies, where the channel is a number.
  A panic of the writer thread (an expectation that fails, a debug assertion, feeding the index out of order) is
  \<open>None\<close>. Spawning and joining the thread are not modelled.

  The published snapshot shares the active segment and the active tail with the writer (\<open>Arc\<close>): after every change
  of the writer's own state \<open>live\<close> shows the snapshot what its \<open>Arc\<close>s now point to, identified by the segment's and
  the tail's base position (a segment's file is named after its base and created exclusively, so no two segments
  share one). A snapshot whose active segment has been sealed meanwhile keeps that segment.
\<close>

subsection \<open>Requests and configuration\<close>

record WriterConfig =
  queue_capacity :: nat
  max_batch_records :: nat
  max_batch_bytes :: nat
  tips_window :: nat
  verify_tips :: bool
  condition_force_scan :: bool
  cfg_read :: ReadConfig

definition WriterConfig_default :: WriterConfig where
  "WriterConfig_default =
     \<lparr>queue_capacity = 16384, max_batch_records = 2048, max_batch_bytes = 8 * 1024 * 1024, tips_window = 1000000,
      verify_tips = False, condition_force_scan = False, cfg_read = ReadConfig_default\<rparr>"

record Request =
  req_events :: "Event list"
  req_condition :: "AppendCondition option"
  req_reply :: nat
  req_token :: nat

datatype Message = MAppend Request | MShutdown

type_synonym Reply = "nat \<times> nat \<times> (AppendError + (Position \<times> Position))"

subsection \<open>Batches\<close>

definition MARKER_BYTES :: nat where "MARKER_BYTES = BATCH_OVERHEAD"

text \<open>\<open>measure\<close>: the total and the largest framed size.\<close>
fun measure_from :: "Event list \<Rightarrow> nat \<times> nat \<Rightarrow> nat \<times> nat" where
  "measure_from [] acc = acc"
| "measure_from (event # events) (tot, largest) =
     (let framed = RECORD_OVERHEAD + length (buf event)
      in measure_from events (tot + framed, if framed > largest then framed else largest))"

definition measure_events :: "Event list \<Rightarrow> nat \<times> nat" where
  "measure_events events = measure_from events (0, 0)"

record Staged =
  st_reply :: nat
  st_range :: "Position \<times> Position"
  st_token :: nat

record Batch =
  bt_records :: "bytes list"
  bt_staged :: "Staged list"
  bt_tips :: StagedTips
  bt_first :: Position
  bt_next :: Position

definition Batch_new :: "Position \<Rightarrow> Batch" where
  "Batch_new nxt = \<lparr>bt_records = [], bt_staged = [], bt_tips = StagedTips_new, bt_first = nxt, bt_next = nxt\<rparr>"

definition committed_records :: "Batch \<Rightarrow> (Position \<times> bytes) list" where
  "committed_records b = zip [bt_first b..<bt_first b + length (bt_records b)] (bt_records b)"

text \<open>The loop of \<open>stage\<close>; \<open>None\<close> is the overflow of \<open>p.next()\<close>.\<close>
fun stage_events :: "Event list \<Rightarrow> Position \<Rightarrow> Batch \<Rightarrow> (Position \<times> Batch) option" where
  "stage_events [] p b = Some (p, b)"
| "stage_events (event # events) p b =
     (let b = b\<lparr>bt_records := bt_records b @ [buf event],
                bt_tips := fold (\<lambda>tag. staged_record tag p) (event_tags event) (bt_tips b)\<rparr>
      in case Position_next p of None \<Rightarrow> None | Some p \<Rightarrow> stage_events events p b)"

definition stage :: "Event list \<Rightarrow> nat \<Rightarrow> nat \<Rightarrow> Batch \<Rightarrow> Batch option" where
  "stage events token reply b =
     (let first = bt_next b
      in case stage_events events first b of
           None \<Rightarrow> None
         | Some (p, b) \<Rightarrow>
             if p = 0 then None
             else Some (b\<lparr>bt_next := p,
                          bt_staged := bt_staged b @ [\<lparr>st_reply = reply, st_range = (first, p - 1), st_token = token\<rparr>]\<rparr>))"

text \<open>\<open>commit_ok\<close>: the tips with the batch absorbed, and the replies.\<close>
definition commit_ok ::
  "bool \<Rightarrow> Position \<times> Position \<Rightarrow> TagTips \<Rightarrow> Position \<Rightarrow> Batch \<Rightarrow> (TagTips \<times> Reply list) option" where
  "commit_ok dbg committed tips next_pos b =
     (if dbg \<and> (fst committed \<noteq> bt_first b \<or> snd committed \<noteq> bt_next b - 1) then None
      else Some (absorb (bt_tips b) next_pos tips,
                 map (\<lambda>s. (st_reply s, st_token s, Inr (st_range s))) (bt_staged b)))"

definition commit_err :: "AppendError \<Rightarrow> Batch \<Rightarrow> Reply list" where
  "commit_err err b = map (\<lambda>s. (st_reply s, st_token s, Inl err)) (bt_staged b)"

subsection \<open>The worker\<close>

record 'm Worker =
  wk_set :: SegmentSet
  wk_index :: "'m IndexSet"
  wk_tips :: TagTips
  wk_cfg :: WriterConfig
  wk_pushback :: "Request option"
  wk_shutdown :: bool
  wk_core :: "'m ReadCore"

definition live_segment :: "SegmentSet \<Rightarrow> Segment \<Rightarrow> Segment" where
  "live_segment S seg =
     (case List.find (\<lambda>s. seg_base s = seg_base seg) (active S # rev (sealed S)) of Some s \<Rightarrow> s | None \<Rightarrow> seg)"

definition live :: "SegmentSet \<Rightarrow> 'm IndexSet \<Rightarrow> 'm ReadCore \<Rightarrow> 'm ReadCore" where
  "live S ix c =
     c\<lparr>rc_segments :=
        (let sn = rc_segments c
         in sn\<lparr>active_log := live_segment S (active_log sn),
               active_index := (if at_base (ix_active ix) = at_base (active_index sn) then ix_active ix
                                else active_index sn)\<rparr>)\<rparr>"

definition is_oversized :: "'m Worker \<Rightarrow> nat \<Rightarrow> nat \<Rightarrow> bool" where
  "is_oversized w record_bytes largest_event \<longleftrightarrow>
     MARKER_BYTES + record_bytes > max_batch_bytes (wk_cfg w) \<or>
     largest_event > max_record_len (config (wk_set w))"

text \<open>The draining loop of \<open>collect\<close> on the queue; \<open>disc\<close> is whether every sender is gone.\<close>
fun collect_more ::
  "bool \<Rightarrow> Message list \<Rightarrow> nat \<Rightarrow> Request list \<Rightarrow> 'm Worker \<Rightarrow> Request list \<times> 'm Worker \<times> Message list" where
  "collect_more disc [] bytes reqs w =
     (if length reqs < max_batch_records (wk_cfg w) \<and> disc then (reqs, w\<lparr>wk_shutdown := True\<rparr>, [])
      else (reqs, w, []))"
| "collect_more disc (MShutdown # queue) bytes reqs w =
     (if length reqs < max_batch_records (wk_cfg w) then (reqs, w\<lparr>wk_shutdown := True\<rparr>, queue)
      else (reqs, w, MShutdown # queue))"
| "collect_more disc (MAppend request # queue) bytes reqs w =
     (if length reqs < max_batch_records (wk_cfg w) then
        (case measure_events (req_events request) of
           (tot, largest) \<Rightarrow>
             if is_oversized w tot largest \<or> bytes + tot > max_batch_bytes (wk_cfg w)
             then (reqs, w\<lparr>wk_pushback := Some request\<rparr>, queue)
             else collect_more disc queue (bytes + tot) (reqs @ [request]) w)
      else (reqs, w, MAppend request # queue))"

text \<open>What \<open>collect\<close> gives: requests to process, the order to exit, or blocked on an empty connected channel.\<close>
datatype Collected = Blocked | Exit | Reqs "Request list"

definition collect_first ::
  "bool \<Rightarrow> Message list \<Rightarrow> Request \<Rightarrow> 'm Worker \<Rightarrow> Collected \<times> 'm Worker \<times> Message list" where
  "collect_first disc queue first w =
     (case measure_events (req_events first) of
        (first_sum, first_max) \<Rightarrow>
          if is_oversized w first_sum first_max then (Reqs [first], w, queue)
          else case collect_more disc queue (MARKER_BYTES + first_sum) [first] w of
            (reqs, w, queue) \<Rightarrow> (Reqs reqs, w, queue))"

definition collect :: "bool \<Rightarrow> Message list \<Rightarrow> 'm Worker \<Rightarrow> Collected \<times> 'm Worker \<times> Message list" where
  "collect disc queue w =
     (case wk_pushback w of
        Some request \<Rightarrow> collect_first disc queue request (w\<lparr>wk_pushback := None\<rparr>)
      | None \<Rightarrow>
          (case queue of
             MAppend request # queue \<Rightarrow> collect_first disc queue request w
           | MShutdown # queue \<Rightarrow> (Exit, w\<lparr>wk_shutdown := True\<rparr>, queue)
           | [] \<Rightarrow> if disc then (Exit, w\<lparr>wk_shutdown := True\<rparr>, []) else (Blocked, w, [])))"

subsection \<open>Processing a batch\<close>

text \<open>Why a request is rejected before staging, if it is.\<close>
definition reject ::
  "bool \<Rightarrow> crc_fun \<Rightarrow> 'm fst_crate \<Rightarrow> 'm Worker \<Rightarrow> Position \<Rightarrow> Batch \<Rightarrow> Request \<Rightarrow> AppendError option" where
  "reject dbg crc F w tip b req =
     (case req_condition req of
        None \<Rightarrow> None
      | Some cond \<Rightarrow>
          if after cond > tip then Some (AfterBeyondTip (after cond) tip)
          else case evaluate dbg crc F cond (wk_tips w) (bt_tips b) (wk_index w) (wk_set w)
                      (verify_tips (wk_cfg w)) (condition_force_scan (wk_cfg w)) of
            Inr (Some (clause, at)) \<Rightarrow> Some (Conflict clause at)
          | Inr None \<Rightarrow> None
          | Inl err \<Rightarrow> Some err)"

fun stage_requests ::
  "bool \<Rightarrow> crc_fun \<Rightarrow> 'm fst_crate \<Rightarrow> 'm Worker \<Rightarrow> Position \<Rightarrow> Request list \<Rightarrow> Batch \<Rightarrow> (Batch \<times> Reply list) option" where
  "stage_requests dbg crc F w tip [] b = Some (b, [])"
| "stage_requests dbg crc F w tip (req # reqs) b =
     (case reject dbg crc F w tip b req of
        Some AppendPanic \<Rightarrow> None
      | Some err \<Rightarrow>
          map_option (\<lambda>(b, rs). (b, (req_reply req, req_token req, Inl err) # rs)) (stage_requests dbg crc F w tip reqs b)
      | None \<Rightarrow>
          (case stage (req_events req) (req_token req) (req_reply req) b of
             None \<Rightarrow> None
           | Some b \<Rightarrow> stage_requests dbg crc F w tip reqs b))"

text \<open>Feeding the committed records to the index.\<close>
fun feed_index :: "(Position \<times> bytes) list \<Rightarrow> 'm IndexSet \<Rightarrow> 'm IndexSet option" where
  "feed_index [] ix = Some ix"
| "feed_index ((pos, b) # rest) ix =
     (case EventRef_from_bytes b of
        Inl _ \<Rightarrow> None
      | Inr event \<Rightarrow> (case IndexSet_push pos event ix of None \<Rightarrow> None | Some ix \<Rightarrow> feed_index rest ix))"

definition classify :: "LogError \<Rightarrow> AppendError" where
  "classify err =
     (case err of BatchTooLarge sz _ \<Rightarrow> TooLarge sz | RecordTooLarge sz _ \<Rightarrow> TooLarge sz | _ \<Rightarrow> AppendLog err)"

text \<open>The commit seam after a successful append: seal, feed, publish, absorb, reply.\<close>
definition after_append ::
  "bool \<Rightarrow> crc_fun \<Rightarrow> 'm fst_crate \<Rightarrow> nat \<Rightarrow> Batch \<Rightarrow> nat \<Rightarrow> Position \<times> Position \<Rightarrow> 'm Worker \<Rightarrow> ('m Worker \<times> Reply list) option" where
  "after_append dbg crc F now b sealed_before rng w =
     (let S = wk_set w; rolled = length (sealed S) > sealed_before
      in case (if rolled then seal_active crc F now (fst rng) (wk_index w) else Some (wk_index w)) of
           None \<Rightarrow> None
         | Some ix \<Rightarrow>
             (case feed_index (committed_records b) ix of
                None \<Rightarrow> None
              | Some ix \<Rightarrow>
                  let c = live S ix (wk_core w);
                      c = (if rolled then publish_segments (capture S ix) c else c);
                      c = publish_watermark (set_last_position S) c
                  in map_option (\<lambda>(tips, replies). (w\<lparr>wk_index := ix, wk_core := c, wk_tips := tips\<rparr>, replies))
                       (commit_ok dbg rng (wk_tips w) (next_position S) b)))"

definition process ::
  "bool \<Rightarrow> crc_fun \<Rightarrow> 'm fst_crate \<Rightarrow> nat \<Rightarrow> Request list \<Rightarrow> 'm Worker \<Rightarrow> ('m Worker \<times> Reply list) option" where
  "process dbg crc F now reqs w =
     (case stage_requests dbg crc F w (set_last_position (wk_set w)) reqs (Batch_new (next_position (wk_set w))) of
        None \<Rightarrow> None
      | Some (b, rejected) \<Rightarrow>
          if bt_records b = [] then Some (w, rejected)
          else
            let sealed_before = length (sealed (wk_set w))
            in case set_append_batch crc now (bt_records b) (wk_set w) of
                 (Inr rng, S) \<Rightarrow>
                   map_option (\<lambda>(w, replies). (w, rejected @ replies))
                     (after_append dbg crc F now b sealed_before rng (w\<lparr>wk_set := S\<rparr>))
               | (Inl err, S) \<Rightarrow>
                   Some (w\<lparr>wk_set := S, wk_core := live S (wk_index w) (wk_core w)\<rparr>,
                         rejected @ commit_err (classify err) b))"

subsection \<open>The loop, the handle and the start\<close>

definition worker_messages :: "Message list \<Rightarrow> 'm Worker \<Rightarrow> nat" where
  "worker_messages queue w = length queue + (if wk_pushback w = None then 0 else 1)"

lemma collect_more_messages:
  assumes "collect_more disc queue bytes reqs w = (reqs', w', queue')" and "wk_pushback w = None"
  shows "worker_messages queue' w' \<le> length queue"
  using assms
  by (induction disc queue bytes reqs w arbitrary: reqs' w' queue' rule: collect_more.induct)
    (fastforce simp: worker_messages_def split: if_splits prod.splits)+

lemma collect_first_messages:
  "\<lbrakk>collect_first disc queue req w = (c, w', queue'); wk_pushback w = None\<rbrakk> \<Longrightarrow>
   worker_messages queue' w' \<le> length queue"
  by (auto simp: collect_first_def worker_messages_def split: prod.splits if_splits dest!: collect_more_messages)

lemma collect_messages:
  assumes "collect disc queue w = (Reqs reqs, w', queue')"
  shows "worker_messages queue' w' < worker_messages queue w"
proof (cases "wk_pushback w")
  case (Some request)
  then show ?thesis
    using assms collect_first_messages [of disc queue request "w\<lparr>wk_pushback := None\<rparr>"]
    by (fastforce simp: collect_def worker_messages_def)
next
  case None
  then obtain request rest where "queue = MAppend request # rest" "collect_first disc rest request w = (Reqs reqs, w', queue')"
    using assms by (auto simp: collect_def split: list.splits Message.splits if_splits)
  then show ?thesis using collect_first_messages None by (fastforce simp: worker_messages_def)
qed

lemma process_keeps:
  "process dbg crc F now reqs w = Some (w', replies) \<Longrightarrow>
   wk_pushback w' = wk_pushback w \<and> wk_shutdown w' = wk_shutdown w \<and> wk_cfg w' = wk_cfg w"
  by (auto simp: process_def after_append_def Let_def split: option.splits prod.splits if_splits sum.splits)

lemma run_progress:
  assumes "(Reqs reqs, w', queue') = collect disc queue w" and "process dbg crc F now reqs w' = Some (w'', replies)"
  shows "worker_messages queue' w'' < worker_messages queue w"
  using collect_messages [OF assms(1) [symmetric]] process_keeps [OF assms(2)] by (simp add: worker_messages_def)

text \<open>
  \<open>Worker::run\<close> on the messages queued: whether the loop ended (otherwise it waits for more), the worker, the
  messages left and the replies sent. \<open>None\<close> is a panic of the writer thread.
\<close>
function run ::
  "bool \<Rightarrow> crc_fun \<Rightarrow> 'm fst_crate \<Rightarrow> nat \<Rightarrow> bool \<Rightarrow> Message list \<Rightarrow> 'm Worker
     \<Rightarrow> (bool \<times> 'm Worker \<times> Message list \<times> Reply list) option" where
  "run dbg crc F now disc queue w =
     (case collect disc queue w of
        (Blocked, w, queue) \<Rightarrow> Some (False, w, queue, [])
      | (Exit, w, queue) \<Rightarrow> Some (True, w\<lparr>wk_core := core_close (wk_core w)\<rparr>, queue, [])
      | (Reqs reqs, w, queue) \<Rightarrow>
          (case process dbg crc F now reqs w of
             None \<Rightarrow> None
           | Some (w, replies) \<Rightarrow>
               if wk_shutdown w then Some (True, w\<lparr>wk_core := core_close (wk_core w)\<rparr>, queue, replies)
               else map_option (\<lambda>(ended, w, queue, rest). (ended, w, queue, replies @ rest))
                      (run dbg crc F now disc queue w)))"
  by pat_completeness auto
termination
  by (relation "measure (\<lambda>(dbg, crc, F, now, disc, queue, w). worker_messages queue w)")
    (auto simp: run_progress)

declare run.simps [simp del]

text \<open>
  \<open>WriteHandle::append_submit\<close>; \<open>alive\<close> is whether the writer still holds its receiver. Blocking while the queue is
  full only delays the send.
\<close>
definition append_submit ::
  "Event list \<Rightarrow> AppendCondition option \<Rightarrow> nat \<Rightarrow> nat \<Rightarrow> bool \<Rightarrow> Message list \<Rightarrow> (AppendError + unit) \<times> Message list" where
  "append_submit events condition token reply alive queue =
     (if events = [] then (Inl AppendEmpty, queue)
      else
        let request = \<lparr>req_events = events, req_condition = condition, req_reply = reply, req_token = token\<rparr>
        in if \<not> alive then (Inl Shutdown, queue) else (Inr (), queue @ [MAppend request]))"

text \<open>The wait of \<open>WriteHandle::append\<close> on its private channel, given every reply the writer ever sends.\<close>
definition append_recv :: "nat \<Rightarrow> Reply list \<Rightarrow> AppendError + (Position \<times> Position)" where
  "append_recv reply replies =
     (case List.find (\<lambda>(ch, _). ch = reply) replies of Some (_, _, result) \<Rightarrow> result | None \<Rightarrow> Inl Shutdown)"

definition handle_append ::
  "Event list \<Rightarrow> AppendCondition option \<Rightarrow> nat \<Rightarrow> bool \<Rightarrow> Message list \<Rightarrow> Reply list
     \<Rightarrow> (AppendError + (Position \<times> Position)) \<times> Message list" where
  "handle_append events condition reply alive queue replies =
     (case append_submit events condition 0 reply alive queue of
        (Inl err, queue) \<Rightarrow> (Inl err, queue)
      | (Inr _, queue) \<Rightarrow> (append_recv reply replies, queue))"

text \<open>\<open>WriteCoordinator::start\<close>: \<open>None\<close> is a failed assertion.\<close>
definition WriteCoordinator_start ::
  "crc_fun \<Rightarrow> 'm fst_crate \<Rightarrow> nat \<Rightarrow> SegmentSet \<Rightarrow> WriterConfig \<Rightarrow> IndexFs \<Rightarrow> (IndexError + 'm Worker) option" where
  "WriteCoordinator_start crc F now S cfg fs =
     (if queue_capacity cfg \<ge> 1 \<and> max_batch_records cfg \<ge> 1 \<and> max_batch_bytes cfg \<le> segment_capacity S
      then Some (case IndexSet_open crc F now S fs of
                   Inl e \<Rightarrow> Inl e
                 | Inr ix \<Rightarrow>
                     Inr \<lparr>wk_set = S, wk_index = ix, wk_tips = TagTips_new (next_position S) (tips_window cfg),
                          wk_cfg = cfg, wk_pushback = None, wk_shutdown = False, wk_core = ReadCore_new S ix\<rparr>)
      else None)"

text \<open>\<open>WriteCoordinator::shutdown\<close>: the message sent.\<close>
definition WriteCoordinator_shutdown :: "bool \<Rightarrow> Message list \<Rightarrow> Message list" where
  "WriteCoordinator_shutdown alive queue = (if alive then queue @ [MShutdown] else queue)"

subsection \<open>Specification\<close>

text \<open>
  What staged events do to a later request of the same drain: a conflict as soon as every tag of an item occurs
  on some staged event, whatever the types, provided some staged event carries a tag at all.
\<close>
definition staged_hits :: "Event list \<Rightarrow> Query \<Rightarrow> bool" where
  "staged_hits evs q \<longleftrightarrow>
     (\<exists>e \<in> set evs. event_tags e \<noteq> []) \<and>
     (case q of
        All \<Rightarrow> True
      | Items its \<Rightarrow> \<exists>it \<in> set its. \<forall>tag \<in> set (tags it). \<exists>e \<in> set evs. tag_str tag \<in> set (event_tags e))"

definition clause_at :: "Event list \<Rightarrow> Event list \<Rightarrow> Query \<Rightarrow> Position \<Rightarrow> ConflictSite option" where
  "clause_at es evs q aft = (if staged_hits evs q then Some SameBatch else map_option Durable (first_match q es aft))"

text \<open>The verdict on a request, with the log \<open>es\<close> durable and \<open>evs\<close> staged.\<close>
definition verdict :: "Event list \<Rightarrow> Event list \<Rightarrow> Request \<Rightarrow> AppendError option" where
  "verdict es evs req =
     (case req_condition req of
        None \<Rightarrow> None
      | Some cond \<Rightarrow>
          if after cond > length es then Some (AfterBeyondTip (after cond) (length es))
          else case clause_at es evs (fail_if_events_match cond) (after cond) of
            Some at \<Rightarrow> Some (Conflict Boundary at)
          | None \<Rightarrow>
              (case fail_if_exists cond of
                 None \<Rightarrow> None
               | Some q \<Rightarrow> map_option (Conflict Existence) (clause_at es evs q 0)))"

text \<open>The rejected requests with their errors and the accepted ones with the first position of each.\<close>
fun decide :: "Event list \<Rightarrow> Event list \<Rightarrow> Request list \<Rightarrow> (Request \<times> AppendError) list \<times> (Request \<times> Position) list" where
  "decide es evs [] = ([], [])"
| "decide es evs (req # reqs) =
     (case verdict es evs req of
        Some err \<Rightarrow> (case decide es evs reqs of (rej, acc) \<Rightarrow> ((req, err) # rej, acc))
      | None \<Rightarrow>
          (case decide es (evs @ req_events req) reqs of
             (rej, acc) \<Rightarrow> (rej, (req, length es + length evs + 1) # acc)))"

definition accepted_events :: "(Request \<times> Position) list \<Rightarrow> Event list" where
  "accepted_events acc = concat (map (\<lambda>(req, _). req_events req) acc)"

definition reply_rejected :: "Request \<times> AppendError \<Rightarrow> Reply" where
  "reply_rejected = (\<lambda>(req, err). (req_reply req, req_token req, Inl err))"

definition reply_accepted :: "Request \<times> Position \<Rightarrow> Reply" where
  "reply_accepted = (\<lambda>(req, p). (req_reply req, req_token req, Inr (p, p + length (req_events req) - 1)))"

definition wf_Request :: "Request \<Rightarrow> bool" where
  "wf_Request req \<longleftrightarrow>
     req_events req \<noteq> [] \<and> (\<forall>e \<in> set (req_events req). wf_Event e) \<and>
     (case req_condition req of None \<Rightarrow> True | Some cond \<Rightarrow> wf_condition cond)"

subsection \<open>Staging\<close>

lemma may_conflict_spec: "staged_ok st n evs \<Longrightarrow> may_conflict st q \<longleftrightarrow> staged_hits evs q"
proof -
  assume "staged_ok st n evs"
  then have has: "staged_contains st tag \<longleftrightarrow> (\<exists>e \<in> set evs. tag \<in> set (event_tags e))" for tag
    by (simp add: staged_ok_def)
  have "staged_is_empty st \<longleftrightarrow> (\<forall>tag. \<not> staged_contains st tag)"
    by (cases "tag_positions st") (auto simp: staged_is_empty_def staged_contains_def)
  then have "staged_is_empty st \<longleftrightarrow> (\<forall>e \<in> set evs. event_tags e = [])" 
    unfolding has by (metis empty_iff list.set(1) list.set_sel(1))
  then show ?thesis
    by (cases q) (simp_all add: may_conflict_def staged_hits_def has list_all_iff list_ex_iff)
qed

definition batch_ok :: "nat \<Rightarrow> Event list \<Rightarrow> Batch \<Rightarrow> bool" where
  "batch_ok n evs b \<longleftrightarrow>
     bt_records b = map buf evs \<and> staged_ok (bt_tips b) n evs \<and> bt_first b = n + 1 \<and> bt_next b = n + length evs + 1"

lemma stage_events_ok:
  assumes "bt_records b = map buf evs" and "staged_ok (bt_tips b) n evs" and "p = n + length evs + 1"
    and "p + length events \<le> U64_MAX"
  shows "\<exists>st. stage_events events p b =
            Some (p + length events, b\<lparr>bt_records := map buf (evs @ events), bt_tips := st\<rparr>) \<and>
          staged_ok st n (evs @ events)"
  using assms
proof (induction events arbitrary: p b evs)
  case (Cons e events)
  let ?b = "b\<lparr>bt_records := bt_records b @ [buf e], bt_tips := fold (\<lambda>tag. staged_record tag p) (event_tags e) (bt_tips b)\<rparr>"
  have "staged_ok (bt_tips ?b) n (evs @ [e])" using staged_record_ok [OF Cons.prems(2), of e] Cons.prems(3) by simp
  moreover have "Position_next p = Some (p + 1)" using Cons.prems(4) by (simp add: Position_next_def checked_add_def)
  ultimately show ?case using Cons.IH [of ?b "evs @ [e]" "p + 1"] Cons.prems by auto
next
  case Nil
  then show ?case by (intro exI [of _ "bt_tips b"]) simp
qed

lemma stage_ok:
  assumes "batch_ok n evs b" and "n + length evs + length events < U64_MAX"
  shows "\<exists>b'. stage events token reply b = Some b' \<and> batch_ok n (evs @ events) b' \<and>
     bt_staged b' = bt_staged b @
       [\<lparr>st_reply = reply, st_range = (n + length evs + 1, n + length evs + length events), st_token = token\<rparr>]"
proof -
  obtain st where "stage_events events (n + length evs + 1) b =
      Some (n + length evs + 1 + length events, b\<lparr>bt_records := map buf (evs @ events), bt_tips := st\<rparr>)"
    "staged_ok st n (evs @ events)"
    using stage_events_ok [of b evs n "n + length evs + 1" events] assms by (auto simp: batch_ok_def)
  then show ?thesis using assms(1) by (simp add: stage_def batch_ok_def Let_def)
qed

text \<open>What the writer's own state says of the log: the segments hold the events, index and tips describe them.\<close>
definition store_ok :: "crc_fun \<Rightarrow> 'm fst_crate \<Rightarrow> 'm Worker \<Rightarrow> Event list \<Rightarrow> bool" where
  "store_ok crc F w es \<longleftrightarrow>
     log_holds (crc, wk_set w) es \<and> (\<forall>e \<in> set es. wf_Event e) \<and> index_inv F (wk_index w) es \<and> tips_sound (wk_tips w) es"

lemma reject_ok:
  assumes "store_ok crc F w es" and "staged_ok (bt_tips b) (length es) evs" and "wf_Request req"
  shows "reject dbg crc F w (length es) b req = verdict es evs req"
proof (cases "req_condition req")
  case (Some cond)
  have "wf_condition cond" using assms(3) Some by (simp add: wf_Request_def)
  then have "evaluate dbg crc F cond (wk_tips w) (bt_tips b) (wk_index w) (wk_set w) vfy fscan =
      Inr (condition_spec (bt_tips b) cond es)" for vfy fscan
    using assms(1) by (intro evaluate_ok) (simp_all add: ctx_ok_def store_ok_def)
  moreover have "clause_spec (bt_tips b) q es aft = clause_at es evs q aft" for q aft
    by (simp add: clause_spec_def clause_at_def may_conflict_spec [OF assms(2)])
  ultimately show ?thesis
    using Some by (simp add: reject_def verdict_def condition_spec_def split: option.splits)
qed (simp add: reject_def verdict_def)

lemma verdict_no_panic: "verdict es evs req \<noteq> Some AppendPanic"
  by (auto simp: verdict_def split: option.splits)

lemma accepted_events_Cons [simp]: "accepted_events ((req, p) # acc) = req_events req @ accepted_events acc"
  by (simp add: accepted_events_def)

lemma accepted_events_Nil [simp]: "accepted_events [] = []"
  by (simp add: accepted_events_def)

definition staged_of :: "Request \<times> Position \<Rightarrow> Staged" where
  "staged_of = (\<lambda>(req, p). \<lparr>st_reply = req_reply req, st_range = (p, p + length (req_events req) - 1), st_token = req_token req\<rparr>)"

lemma stage_requests_ok:
  assumes "store_ok crc F w es" and "batch_ok (length es) evs b" and "\<forall>req \<in> set reqs. wf_Request req"
    and "length es + length evs + length (concat (map req_events reqs)) < U64_MAX"
    and "decide es evs reqs = (rej, acc)"
  shows "\<exists>b'. stage_requests dbg crc F w (length es) reqs b = Some (b', map reply_rejected rej) \<and>
     batch_ok (length es) (evs @ accepted_events acc) b' \<and> bt_staged b' = bt_staged b @ map staged_of acc"
  using assms(2-5)
proof (induction reqs arbitrary: evs b rej acc)
  case (Cons req reqs)
  have st: "staged_ok (bt_tips b) (length es) evs" using Cons.prems(1) by (simp add: batch_ok_def)
  have rj: "reject dbg crc F w (length es) b req = verdict es evs req"
    using reject_ok [OF assms(1) st] Cons.prems(2) by simp
  show ?case
  proof (cases "verdict es evs req")
    case (Some err)
    then obtain rej' where "decide es evs reqs = (rej', acc)" "rej = (req, err) # rej'"
      using Cons.prems(4) by (auto split: prod.splits)
    then show ?thesis
      using Cons.IH [OF Cons.prems(1), of rej' acc] Cons.prems(2,3) rj Some verdict_no_panic [of es evs req]
      by (cases err) (auto simp: reply_rejected_def)
  next
    case None
    obtain acc' where d: "decide es (evs @ req_events req) reqs = (rej, acc')"
      "acc = (req, length es + length evs + 1) # acc'"
      using Cons.prems(4) None by (auto split: prod.splits)
    obtain b1 where b1: "stage (req_events req) (req_token req) (req_reply req) b = Some b1"
      "batch_ok (length es) (evs @ req_events req) b1"
      "bt_staged b1 = bt_staged b @ [staged_of (req, length es + length evs + 1)]"
      using stage_ok [OF Cons.prems(1), of "req_events req" "req_token req" "req_reply req"] Cons.prems(3)
      by (auto simp: staged_of_def)
    then show ?thesis using Cons.IH [OF b1(2) _ _ d(1)] Cons.prems(2,3) rj None d(2) by auto
  qed
qed simp

subsection \<open>Committing\<close>

text \<open>The shared tail of a degraded active segment is marked, so readers scan it.\<close>
definition marked :: "'m IndexSet \<Rightarrow> bool" where
  "marked ix \<longleftrightarrow> (active_unindexable ix \<longrightarrow> at_unindexable (ix_active ix))"

lemma push_keeps:
  "IndexSet_push pos e ix = Some ix' \<Longrightarrow>
   active_base ix' = active_base ix \<and> ix_sealed ix' = ix_sealed ix \<and> (marked ix \<longrightarrow> marked ix')"
  by (auto simp: IndexSet_push_def Let_def marked_def mark_unindexable_def split: if_splits prod.splits sum.splits TailError.splits)

lemma feed_index_ok:
  assumes "index_inv F ix es" and "\<forall>e \<in> set evs. wf_Event e"
  shows "\<exists>ix'. feed_index (zip [length es + 1..<length es + 1 + length evs] (map buf evs)) ix = Some ix' \<and>
     index_inv F ix' (es @ evs) \<and> active_base ix' = active_base ix \<and> ix_sealed ix' = ix_sealed ix \<and>
     (marked ix \<longrightarrow> marked ix')"
  using assms
proof (induction evs arbitrary: es ix)
  case (Cons e evs)
  then have e: "EventRef_from_bytes (buf e) = Inr e" by (simp add: wf_Event_def)
  obtain ix1 where ix1: "IndexSet_push (length es + 1) e ix = Some ix1" "index_inv F ix1 (es @ [e])"
    using index_push_ok [OF Cons.prems(1), of e] Cons.prems(2) by auto
  have upt: "[length es + 1..<length es + 1 + length (e # evs)] =
      (length es + 1) # [length (es @ [e]) + 1..<length (es @ [e]) + 1 + length evs]"
    by (simp add: upt_conv_Cons del: upt_Suc)
  obtain ix' where "feed_index (zip [length (es @ [e]) + 1..<length (es @ [e]) + 1 + length evs] (map buf evs)) ix1 = Some ix'"
    "index_inv F ix' ((es @ [e]) @ evs)" "active_base ix' = active_base ix1" "ix_sealed ix' = ix_sealed ix1"
    "marked ix1 \<longrightarrow> marked ix'"
    using Cons.IH [OF ix1(2)] Cons.prems(2) by auto
  then show ?case unfolding upt using push_keeps [OF ix1(1)] ix1(1) e by (simp del: upt_Suc)
qed simp

lemma seal_active_shape:
  "seal_active crc F now new_base ix = Some ix' \<Longrightarrow>
   map (\<lambda>s. (six_base s, six_count s)) (ix_sealed ix') =
     map (\<lambda>s. (six_base s, six_count s)) (ix_sealed ix) @ [(active_base ix, active_span ix)] \<and>
   active_base ix' = new_base"
  by (auto simp: seal_active_def)

text \<open>
  The writer's invariant between batches: its state describes the log, index and log segments correspond, and
  readers see the current segments, the current tail and every event.
\<close>
definition worker_ok :: "crc_fun \<Rightarrow> 'm fst_crate \<Rightarrow> 'm Worker \<Rightarrow> Event list \<Rightarrow> bool" where
  "worker_ok crc F w es \<longleftrightarrow>
     store_ok crc F w es \<and> aligned (wk_set w) (wk_index w) \<and> marked (wk_index w) \<and>
     rc_segments (wk_core w) = capture (wk_set w) (wk_index w) \<and> rc_watermark (wk_core w) = length es"

lemma store_ok_position:
  assumes "store_ok crc F w es"
  shows "next_position (wk_set w) = length es + 1" and "set_last_position (wk_set w) = length es"
proof -
  show n: "next_position (wk_set w) = length es + 1"
    using assms length_log_of [of crc "wk_set w"] by (simp add: store_ok_def log_holds_def)
  then show "set_last_position (wk_set w) = length es" by (simp add: set_last_position_def)
qed

lemma worker_ok_active:
  assumes "worker_ok crc F w es"
  shows "seg_base (active (wk_set w)) = active_base (wk_index w)" and "event_count (active (wk_set w)) = active_span (wk_index w)"
    and "at_base (ix_active (wk_index w)) = active_base (wk_index w)"
proof -
  have "set_inv crc (wk_set w)" "index_inv F (wk_index w) es" "aligned (wk_set w) (wk_index w)"
    "next_position (wk_set w) = length es + 1"
    using assms store_ok_position by (auto simp: worker_ok_def store_ok_def log_holds_def)
  then show "seg_base (active (wk_set w)) = active_base (wk_index w)" "event_count (active (wk_set w)) = active_span (wk_index w)"
    "at_base (ix_active (wk_index w)) = active_base (wk_index w)"
    by (auto simp: aligned_def set_inv_def index_inv_def contiguous_append)
qed

lemma live_capture:
  assumes "rc_segments c = capture S ix" and "sealed S' = sealed S" and "config S' = config S"
    and "seg_base (active S') = seg_base (active S)" and "ix_sealed ix' = ix_sealed ix"
    and "at_base (ix_active ix') = at_base (ix_active ix)"
  shows "rc_segments (live S' ix' c) = capture S' ix'"
  using assms by (simp add: live_def live_segment_def capture_def sealed_index_arcs_def Let_def)

lemma worker_ok_shows:
  assumes "worker_ok crc F w es"
  shows "core_shows crc F (wk_core w) es"
  using assms capture_ok [of crc "wk_set w" es F "wk_index w"]
  by (auto simp: worker_ok_def store_ok_def core_shows_def marked_def)

text \<open>Sealing the index exactly when the append rolled over keeps index and log segments aligned.\<close>
lemma seal_with_log:
  assumes "worker_ok crc F w es" and "set_append_batch crc now records (wk_set w) = (Inr rng, S')"
    and "fst_ok F" and "now \<le> U64_MAX" and "sealable F (drop (active_base (wk_index w) - 1) es)"
  defines "rolled \<equiv> length (sealed S') > length (sealed (wk_set w))"
  obtains ix where
    "(if rolled then seal_active crc F now (fst rng) (wk_index w) else Some (wk_index w)) = Some ix"
    "index_inv F ix es" "marked ix" "aligned S' ix" "config S' = config (wk_set w)"
    "\<not> rolled \<Longrightarrow> ix = wk_index w \<and> sealed S' = sealed (wk_set w) \<and> seg_base (active S') = seg_base (active (wk_set w))"
proof -
  have st: "store_ok crc F w es" and al: "aligned (wk_set w) (wk_index w)" and mk: "marked (wk_index w)"
    and inv: "set_inv crc (wk_set w)" and ix: "index_inv F (wk_index w) es"
    using assms(1) by (auto simp: worker_ok_def store_ok_def log_holds_def)
  note act = worker_ok_active [OF assms(1)]
  note shape = append_batch_shape [OF inv assms(2)]
  obtain a b where "rng = (a, b)" by fastforce
  then have "fst rng = length es + 1"
    using append_batch_log(4) [OF inv, of now records a b S'] assms(2) st by (simp add: store_ok_def log_holds_def)
  then have fr: "fst rng = length es + 1" .
  show thesis
  proof (cases rolled)
    case False
    then have "sealed S' = sealed (wk_set w)" "seg_base (active S') = seg_base (active (wk_set w))"
      using shape by (auto simp: rolled_def)
    then show thesis using that [of "wk_index w"] False ix mk al shape by (simp add: aligned_def sealed_segments_def)
  next
    case True
    then have sh: "sealed S' = sealed (wk_set w) @ [active (wk_set w)]" "seg_base (active S') = next_position (wk_set w)"
      using shape by (auto simp: rolled_def)
    obtain ix' where ix': "seal_active crc F now (length es + 1) (wk_index w) = Some ix'" "index_inv F ix' es"
      "active_base ix' = length es + 1" "\<not> active_unindexable ix'"
      using seal_active_ok [OF ix assms(3) _ assms(4) _ assms(5)] st by (auto simp: store_ok_def log_holds_def)
    have "aligned S' ix'"
      using seal_active_shape [OF ix'(1)] sh al act(1,2) store_ok_position(1) [OF st]
      by (simp add: aligned_def sealed_segments_def)
    then show thesis using that [of ix'] True ix' fr shape by (simp add: marked_def)
  qed
qed

lemma after_append_ok:
  assumes "worker_ok crc F w es" and "set_append_batch crc now (map buf evs) (wk_set w) = (Inr rng, S')"
    and "fst_ok F" and "now \<le> U64_MAX" and "sealable F (drop (active_base (wk_index w) - 1) es)"
    and "batch_ok (length es) evs b" and "\<forall>e \<in> set evs. wf_Event e" and "length es + length evs < U64_MAX"
  shows "\<exists>w'. after_append dbg crc F now b (length (sealed (wk_set w))) rng (w\<lparr>wk_set := S'\<rparr>) =
       Some (w', map (\<lambda>s. (st_reply s, st_token s, Inr (st_range s))) (bt_staged b)) \<and>
     worker_ok crc F w' (es @ evs) \<and> wk_set w' = S'"
proof -
  let ?rolled = "length (sealed S') > length (sealed (wk_set w))"
  have st: "store_ok crc F w es" and inv: "set_inv crc (wk_set w)" and log: "log_of (wk_set w) = map buf es"
    and cap: "rc_segments (wk_core w) = capture (wk_set w) (wk_index w)"
    using assms(1) by (auto simp: worker_ok_def store_ok_def log_holds_def)
  obtain a l where rng: "rng = (a, l)" by fastforce
  note ab = append_batch_log [OF inv assms(2) [unfolded rng]]
  have al: "a = length es + 1" "l = length es + length evs" "next_position S' = length es + length evs + 1"
    using ab(2,4-6) log by simp_all
  have log': "log_holds (crc, S') (es @ evs)" using ab(1,2) log assms(8) by (simp add: log_holds_def)
  obtain ix where ix: "(if ?rolled then seal_active crc F now (fst rng) (wk_index w) else Some (wk_index w)) = Some ix"
    "index_inv F ix es" "marked ix" "aligned S' ix" "config S' = config (wk_set w)"
    "\<not> ?rolled \<Longrightarrow> ix = wk_index w \<and> sealed S' = sealed (wk_set w) \<and> seg_base (active S') = seg_base (active (wk_set w))"
    using seal_with_log [OF assms(1-5)] by blast
  obtain ix' where ix': "feed_index (committed_records b) ix = Some ix'" "index_inv F ix' (es @ evs)"
    "active_base ix' = active_base ix" "ix_sealed ix' = ix_sealed ix" "marked ix'"
    using feed_index_ok [OF ix(2) assms(7)] ix(3) assms(6)
    by (auto simp: committed_records_def batch_ok_def simp del: upt_Suc)
  have base: "at_base (ix_active ix') = at_base (ix_active ix)"
    using ix(2) ix'(2,3) by (simp add: index_inv_def)
  let ?c = "live S' ix' (wk_core w)"
  let ?d = "publish_watermark (set_last_position S') (if ?rolled then publish_segments (capture S' ix') ?c else ?c)"
  have core: "rc_segments ?d = capture S' ix'" "rc_watermark ?d = length (es @ evs)"
    using live_capture [OF cap, of S' ix'] ix(5,6) base ix'(4) al(3)
    by (auto simp: publish_segments_def publish_watermark_def set_last_position_def)
  have co: "commit_ok dbg rng (wk_tips w) (next_position S') b =
      Some (absorb (bt_tips b) (next_position S') (wk_tips w), map (\<lambda>s. (st_reply s, st_token s, Inr (st_range s))) (bt_staged b))"
    using assms(6) al rng by (simp add: commit_ok_def batch_ok_def)
  let ?w = "w\<lparr>wk_set := S', wk_index := ix', wk_core := ?d, wk_tips := absorb (bt_tips b) (next_position S') (wk_tips w)\<rparr>"
  have "store_ok crc F ?w (es @ evs)"
    using st log' ix'(2) assms(6,7) absorb_sound [of "wk_tips w" es "bt_tips b" evs]
    by (auto simp: store_ok_def batch_ok_def)
  moreover have "aligned S' ix'" using ix(4) ix'(3,4) by (simp add: aligned_def)
  ultimately have "worker_ok crc F ?w (es @ evs)" using ix'(5) core by (simp add: worker_ok_def)
  moreover have "after_append dbg crc F now b (length (sealed (wk_set w))) rng (w\<lparr>wk_set := S'\<rparr>) =
      Some (?w, map (\<lambda>s. (st_reply s, st_token s, Inr (st_range s))) (bt_staged b))"
    using ix(1) ix'(1) co by (cases ?rolled) (simp_all add: after_append_def Let_def)
  ultimately show ?thesis by auto
qed

subsection \<open>Failed batches\<close>

text \<open>Replacing the active segment by one with the same records.\<close>
lemma snap_ok_active:
  assumes "snap_ok crc F sn es" and "seg_base seg = seg_base (active_log sn)"
    and "seg_records seg = seg_records (active_log sn)" and "seg_holds crc (sn_header_size sn) seg fs"
  shows "snap_ok crc F (sn\<lparr>active_log := seg\<rparr>) es"
proof -
  have "event_count seg = event_count (active_log sn)" using assms(3) length_seg_records by metis
  then have "tiled (snap_source (sn\<lparr>active_log := seg\<rparr>)) q = tiled (snap_source sn) q" for q
    using assms(2) by (simp add: tiled_def snap_source_def contiguous_append)
  moreover have "src_log (snap_source (sn\<lparr>active_log := seg\<rparr>)) = src_log (snap_source sn)"
    using assms(3) by (simp add: src_log_def snap_source_def)
  moreover have "src_header_size (snap_source (sn\<lparr>active_log := seg\<rparr>)) = sn_header_size sn"
    "src_segments (snap_source (sn\<lparr>active_log := seg\<rparr>)) = sealed_log sn @ [seg]"
    "src_header_size (snap_source sn) = sn_header_size sn" "src_segments (snap_source sn) = sealed_log sn @ [active_log sn]"
    by (simp_all add: snap_source_def)
  ultimately show ?thesis using assms(1,2,4) unfolding snap_ok_def src_ok_def by auto
qed

text \<open>After a failed batch, even one that rolled over first, readers still see the log they saw.\<close>
lemma failed_shows:
  assumes "worker_ok crc F w es" and "set_append_batch crc now records (wk_set w) = (Inl e, S')"
  shows "core_shows crc F (live S' (wk_index w) (wk_core w)) es"
proof -
  let ?S = "wk_set w" and ?sn = "rc_segments (wk_core w)"
  have inv: "set_inv crc ?S" and cap: "?sn = capture ?S (wk_index w)"
    using assms(1) by (auto simp: worker_ok_def store_ok_def log_holds_def)
  have sn: "active_log ?sn = active ?S" "sn_header_size ?sn = header_size (config ?S)" "active_index ?sn = ix_active (wk_index w)"
    by (simp_all add: cap capture_def Let_def)
  note shape = append_batch_shape [OF inv assms(2)]
  obtain fs where fs: "seg_holds crc (header_size (config ?S)) (active S') fs" using shape by blast
  obtain fs0 where fs0: "seg_holds crc (header_size (config ?S)) (active ?S) fs0"
    using set_inv_segments [OF inv, of "active ?S"] by auto
  have log: "log_of S' = log_of ?S" by (rule append_batch_log_failed [OF inv assms(2)])
  have np: "seg_base (active ?S) + event_count (active ?S) = next_position ?S"
    using inv by (simp add: set_inv_def contiguous_append)
  let ?seg = "live_segment S' (active ?S)"
  have "seg_base ?seg = seg_base (active ?S) \<and> seg_records ?seg = seg_records (active ?S) \<and>
      (\<exists>fs. seg_holds crc (header_size (config ?S)) ?seg fs)"
  proof (cases "seg_base (active S') = seg_base (active ?S)")
    case True
    then have seg: "?seg = active S'" by (simp add: live_segment_def)
    have "seg_records (active S') = seg_records (active ?S)"
      using shape
    proof (elim conjE disjE)
      assume "sealed S' = sealed ?S"
      then show ?thesis using log by (simp add: log_of_def)
    next
      assume "sealed S' = sealed ?S @ [active ?S]" "seg_base (active S') = next_position ?S"
      then have "seg_records (active S') = []" "event_count (active ?S) = 0" using log np True by (auto simp: log_of_def)
      then show ?thesis using length_seg_records [of "active ?S"] by (metis length_0_conv)
    qed
    then show ?thesis using seg fs True by auto
  next
    case False
    then have "sealed S' = sealed ?S @ [active ?S]" using shape by auto
    then have "?seg = active ?S" using False by (simp add: live_segment_def)
    then show ?thesis using fs0 by auto
  qed
  then obtain fs' where seg: "seg_base ?seg = seg_base (active ?S)" "seg_records ?seg = seg_records (active ?S)"
    "seg_holds crc (header_size (config ?S)) ?seg fs'" by blast
  have sh: "snap_ok crc F ?sn es" "rc_watermark (wk_core w) \<le> length es"
    using worker_ok_shows [OF assms(1)] by (auto simp: core_shows_def)
  have "snap_ok crc F (?sn\<lparr>active_log := ?seg\<rparr>) es"
    by (rule snap_ok_active [OF sh(1)]) (use seg sn in auto)
  moreover have "rc_segments (live S' (wk_index w) (wk_core w)) = ?sn\<lparr>active_log := ?seg\<rparr>"
    by (simp add: live_def Let_def sn cap capture_def)
  ultimately show ?thesis using sh(2) by (simp add: core_shows_def live_def Let_def)
qed

subsection \<open>A drain\<close>

definition batch_of :: "(Request \<times> Position) list \<Rightarrow> bytes list" where
  "batch_of acc = map buf (accepted_events acc)"

text \<open>How the accepted requests are answered, by the outcome of the append.\<close>
definition outcome_replies :: "LogError + (Position \<times> Position) \<Rightarrow> (Request \<times> Position) list \<Rightarrow> Reply list" where
  "outcome_replies r acc =
     (case r of Inr _ \<Rightarrow> map reply_accepted acc | Inl e \<Rightarrow> map (\<lambda>(req, _). reply_rejected (req, classify e)) acc)"

text \<open>The worker after a drain, by the outcome of the append.\<close>
definition drained_ok ::
  "crc_fun \<Rightarrow> 'm fst_crate \<Rightarrow> 'm Worker \<Rightarrow> Event list \<Rightarrow> LogError + (Position \<times> Position) \<Rightarrow> Event list \<Rightarrow> 'm Worker \<Rightarrow> bool" where
  "drained_ok crc F w es r evs w' \<longleftrightarrow>
     (case r of
        Inr _ \<Rightarrow> worker_ok crc F w' (es @ evs)
      | Inl _ \<Rightarrow> log_of (wk_set w') = map buf es \<and> wk_index w' = wk_index w \<and> wk_tips w' = wk_tips w \<and>
                 core_shows crc F (wk_core w') es \<and> rc_watermark (wk_core w') = length es \<and>
                 (wk_set w' = wk_set w \<longrightarrow> worker_ok crc F w' es))"

lemma accepted_subset: "decide es evs reqs = (rej, acc) \<Longrightarrow> fst ` set acc \<subseteq> set reqs \<and> fst ` set rej \<subseteq> set reqs"
  by (induction es evs reqs arbitrary: rej acc rule: decide.induct) (fastforce split: option.splits prod.splits)+

lemma accepted_length:
  "decide es evs reqs = (rej, acc) \<Longrightarrow> length (accepted_events acc) \<le> length (concat (map req_events reqs))"
  by (induction es evs reqs arbitrary: rej acc rule: decide.induct) (fastforce split: option.splits prod.splits)+

lemma accepted_wf:
  assumes "decide es evs reqs = (rej, acc)" and "\<forall>req \<in> set reqs. wf_Request req"
  shows "\<forall>e \<in> set (accepted_events acc). wf_Event e" and "accepted_events acc = [] \<longleftrightarrow> acc = []"
proof -
  have "wf_Request req" if "(req, p) \<in> set acc" for req p
    using accepted_subset [OF assms(1)] assms(2) that by fastforce
  then have req: "req_events req \<noteq> [] \<and> (\<forall>e \<in> set (req_events req). wf_Event e)" if "(req, p) \<in> set acc" for req p
    using that by (auto simp: wf_Request_def)
  then show "\<forall>e \<in> set (accepted_events acc). wf_Event e" by (fastforce simp: accepted_events_def)
  show "accepted_events acc = [] \<longleftrightarrow> acc = []" using req by (cases acc) (fastforce simp: accepted_events_def)+
qed

text \<open>The staged part of a drain; what follows depends on the append alone.\<close>
lemma process_staged:
  assumes "store_ok crc F w es" and "\<forall>req \<in> set reqs. wf_Request req"
    and "length es + length (concat (map req_events reqs)) < U64_MAX" and "decide es [] reqs = (rej, acc)"
    and "set_append_batch crc now (batch_of acc) (wk_set w) = (r, S')"
  obtains b where "batch_ok (length es) (accepted_events acc) b"
    "map (\<lambda>s. (st_reply s, st_token s, Inr (st_range s))) (bt_staged b) = map reply_accepted acc"
    "process dbg crc F now reqs w =
       (if acc = [] then Some (w, map reply_rejected rej)
        else case r of
          Inr rng \<Rightarrow> map_option (\<lambda>(w, replies). (w, map reply_rejected rej @ replies))
                       (after_append dbg crc F now b (length (sealed (wk_set w))) rng (w\<lparr>wk_set := S'\<rparr>))
        | Inl e \<Rightarrow> Some (w\<lparr>wk_set := S', wk_core := live S' (wk_index w) (wk_core w)\<rparr>,
                          map reply_rejected rej @ outcome_replies r acc))"
proof -
  note pos = store_ok_position [OF assms(1)]
  have new: "batch_ok (length es) [] (Batch_new (length es + 1))"
    by (simp add: batch_ok_def Batch_new_def staged_new_ok)
  obtain b where b: "stage_requests dbg crc F w (length es) reqs (Batch_new (length es + 1)) = Some (b, map reply_rejected rej)"
    "batch_ok (length es) (accepted_events acc) b" "bt_staged b = map staged_of acc"
    using stage_requests_ok [OF assms(1) new assms(2) _ assms(4), of dbg] assms(3) by (auto simp: Batch_new_def)
  have rec: "bt_records b = batch_of acc" using b(2) by (simp add: batch_ok_def batch_of_def)
  have ne: "batch_of acc = [] \<longleftrightarrow> acc = []" using accepted_wf(2) [OF assms(4,2)] by (simp add: batch_of_def)
  have ok: "map (\<lambda>s. (st_reply s, st_token s, Inr (st_range s))) (bt_staged b) = map reply_accepted acc"
    by (simp add: b(3) staged_of_def reply_accepted_def split: prod.splits)
  have err: "commit_err (classify e) b = map (\<lambda>(req, _). reply_rejected (req, classify e)) acc" for e
    by (simp add: b(3) commit_err_def staged_of_def reply_rejected_def split: prod.splits)
  show thesis
    using that [OF b(2) ok] b(1) rec ne pos assms(5) err
    by (simp add: process_def Let_def outcome_replies_def split: sum.splits)
qed

lemma process_ok:
  assumes "worker_ok crc F w es" and "\<forall>req \<in> set reqs. wf_Request req"
    and "length es + length (concat (map req_events reqs)) < U64_MAX" and "fst_ok F" and "now \<le> U64_MAX"
    and "sealable F (drop (active_base (wk_index w) - 1) es)"
    and "decide es [] reqs = (rej, acc)" and "set_append_batch crc now (batch_of acc) (wk_set w) = (r, S')"
  shows "\<exists>w'. process dbg crc F now reqs w = Some (w', map reply_rejected rej @ outcome_replies r acc) \<and>
     wk_set w' = S' \<and> drained_ok crc F w es r (accepted_events acc) w'"
proof -
  have st: "store_ok crc F w es" and inv: "set_inv crc (wk_set w)" and log: "log_of (wk_set w) = map buf es"
    and wm: "rc_watermark (wk_core w) = length es"
    using assms(1) by (auto simp: worker_ok_def store_ok_def log_holds_def)
  obtain b where b: "batch_ok (length es) (accepted_events acc) b"
    "map (\<lambda>s. (st_reply s, st_token s, Inr (st_range s))) (bt_staged b) = map reply_accepted acc"
    and run: "process dbg crc F now reqs w =
       (if acc = [] then Some (w, map reply_rejected rej)
        else case r of
          Inr rng \<Rightarrow> map_option (\<lambda>(w, replies). (w, map reply_rejected rej @ replies))
                       (after_append dbg crc F now b (length (sealed (wk_set w))) rng (w\<lparr>wk_set := S'\<rparr>))
        | Inl e \<Rightarrow> Some (w\<lparr>wk_set := S', wk_core := live S' (wk_index w) (wk_core w)\<rparr>,
                          map reply_rejected rej @ outcome_replies r acc))"
    by (rule process_staged [OF st assms(2,3,7,8)])
  consider (none) "acc = []" | (ok) rng where "acc \<noteq> []" "r = Inr rng" | (failed) e where "acc \<noteq> []" "r = Inl e"
    by (cases r) auto
  then show ?thesis
  proof cases
    case none
    then have "r = Inl EmptyBatch" "S' = wk_set w" using assms(8) by (auto simp: batch_of_def set_append_batch_def)
    then show ?thesis
      using none run log wm worker_ok_shows [OF assms(1)] assms(1) by (simp add: outcome_replies_def drained_ok_def)
  next
    case (ok rng)
    obtain w' where "after_append dbg crc F now b (length (sealed (wk_set w))) rng (w\<lparr>wk_set := S'\<rparr>) =
        Some (w', map reply_accepted acc)" "worker_ok crc F w' (es @ accepted_events acc)" "wk_set w' = S'"
      using after_append_ok [OF assms(1) _ assms(4,5,6) b(1) accepted_wf(1) [OF assms(7,2)], of rng S' dbg]
        assms(3,8) accepted_length [OF assms(7)] ok b(2) by (auto simp: batch_of_def)
    then show ?thesis using run ok by (simp add: outcome_replies_def drained_ok_def)
  next
    case (failed e)
    let ?w = "w\<lparr>wk_set := S', wk_core := live S' (wk_index w) (wk_core w)\<rparr>"
    have wm': "rc_watermark (wk_core ?w) = length es" using wm by (simp add: live_def)
    have "worker_ok crc F ?w es" if "S' = wk_set w"
      using assms(1) live_capture [of "wk_core w" "wk_set w" "wk_index w" "wk_set w" "wk_index w"] wm' that
      by (simp add: worker_ok_def store_ok_def)
    then show ?thesis
      using failed run failed_shows [OF assms(1), of now "batch_of acc" e S'] wm' assms(8) log
        append_batch_log_failed(1) [OF inv, of now "batch_of acc" e S']
      by (simp add: drained_ok_def)
  qed
qed

subsection \<open>Accepted conditions hold\<close>

lemma staged_hits_sound:
  assumes "wf_Query q" and "wf_Event e" and "e \<in> set evs" and "event_tags e \<noteq> []" and "Query_matches q e"
  shows "staged_hits evs q"
proof -
  have "matches_parts q (event_type e) (event_tags e)"
    using assms(5) Query_matches_spec [OF assms(1), of "buf e" e] assms(2) by (simp add: wf_Event_def)
  then show ?thesis
    using assms(3,4) by (cases q) (auto simp: staged_hits_def matches_parts_def item_matches_parts_def)
qed

text \<open>No event of \<open>log\<close> after position \<open>aft\<close> and before position \<open>p\<close> matches.\<close>
definition unmatched :: "Query \<Rightarrow> Event list \<Rightarrow> Position \<Rightarrow> Position \<Rightarrow> bool" where
  "unmatched q log aft p \<longleftrightarrow> (\<forall>x. aft < x \<and> 1 \<le> x \<and> x < p \<longrightarrow> \<not> Query_matches q (log ! (x - 1)))"

definition condition_holds :: "AppendCondition \<Rightarrow> Event list \<Rightarrow> Position \<Rightarrow> bool" where
  "condition_holds cond log p \<longleftrightarrow>
     unmatched (fail_if_events_match cond) log (after cond) p \<and>
     (case fail_if_exists cond of None \<Rightarrow> True | Some q \<Rightarrow> unmatched q log 0 p)"

lemma clause_at_None:
  assumes "clause_at es evs q aft = None" and "wf_Query q" and "\<forall>e \<in> set evs. wf_Event e \<and> event_tags e \<noteq> []"
  shows "unmatched q (es @ evs @ more_evs) aft (length es + length evs + 1)"
  unfolding unmatched_def
proof (intro allI impI)
  fix x assume x: "aft < x \<and> 1 \<le> x \<and> x < length es + length evs + 1"
  have none: "\<not> staged_hits evs q" "first_match q es aft = None" using assms(1) by (auto simp: clause_at_def split: if_splits)
  show "\<not> Query_matches q ((es @ evs @ more_evs) ! (x - 1))"
  proof (cases "x \<le> length es")
    case True
    then show ?thesis using none(2) x by (auto simp: first_match_None nth_append)
  next
    case False
    then have "(es @ evs @ more_evs) ! (x - 1) \<in> set evs" using x by (auto simp: nth_append)
    then show ?thesis using staged_hits_sound [OF assms(2)] none(1) assms(3) by blast
  qed
qed

lemma verdict_None:
  assumes "verdict es evs req = None" and "wf_Request req" and "\<forall>e \<in> set evs. wf_Event e \<and> event_tags e \<noteq> []"
    and "req_condition req = Some cond"
  shows "condition_holds cond (es @ evs @ more_evs) (length es + length evs + 1)"
proof -
  have "wf_Query (fail_if_events_match cond)" "fail_if_exists cond = Some q \<Longrightarrow> wf_Query q" for q
    using assms(2,4) by (auto simp: wf_Request_def wf_condition_def)
  then show ?thesis
    using assms(1,4) clause_at_None [OF _ _ assms(3), of es _ _ more_evs]
    by (auto simp: verdict_def condition_holds_def split: option.splits if_splits)
qed

text \<open>An accepted request's events are at its range.\<close>
lemma decide_positions:
  assumes "decide es evs reqs = (rej, acc)" and "(req, p) \<in> set acc"
  shows "take (length (req_events req)) (drop (p - 1) (es @ evs @ accepted_events acc)) = req_events req \<and> 1 \<le> p \<and>
     p - 1 + length (req_events req) \<le> length (es @ evs @ accepted_events acc)"
  using assms
proof (induction es evs reqs arbitrary: rej acc rule: decide.induct)
  case (2 es evs req' reqs)
  show ?case
  proof (cases "verdict es evs req'")
    case None
    then obtain acc' where d: "decide es (evs @ req_events req') reqs = (rej, acc')"
      "acc = (req', length es + length evs + 1) # acc'"
      using "2.prems"(1) by (auto split: prod.splits)
    show ?thesis
    proof (cases "(req, p) \<in> set acc'")
      case True
      show ?thesis using "2.IH"(1) [OF None d(1) True] unfolding d(2) accepted_events_Cons append_assoc .
    next
      case False
      then show ?thesis using "2.prems"(2) d(2) by simp
    qed
  next
    case (Some err)
    then obtain rej' where "decide es evs reqs = (rej', acc)" using "2.prems"(1) by (auto split: prod.splits)
    then show ?thesis using "2.IH"(2) [OF Some] "2.prems"(2) by blast
  qed
qed simp

lemma decide_safe:
  assumes "decide es evs reqs = (rej, acc)" and "\<forall>req \<in> set reqs. wf_Request req \<and> (\<forall>e \<in> set (req_events req). event_tags e \<noteq> [])"
    and "\<forall>e \<in> set evs. wf_Event e \<and> event_tags e \<noteq> []" and "(req, p) \<in> set acc"
  shows "\<forall>cond. req_condition req = Some cond \<longrightarrow> condition_holds cond (es @ evs @ accepted_events acc) p"
  using assms
proof (induction es evs reqs arbitrary: rej acc rule: decide.induct)
  case (2 es evs req' reqs)
  show ?case
  proof (cases "verdict es evs req'")
    case (Some err)
    then show ?thesis using 2 by (auto split: prod.splits)
  next
    case None
    then obtain acc' where d: "decide es (evs @ req_events req') reqs = (rej, acc')"
      "acc = (req', length es + length evs + 1) # acc'"
      using "2.prems"(1) by (auto split: prod.splits)
    show ?thesis
    proof (cases "(req, p) \<in> set acc'")
      case True
      have "\<forall>e \<in> set (evs @ req_events req'). wf_Event e \<and> event_tags e \<noteq> []"
        using "2.prems"(2,3) by (auto simp: wf_Request_def)
      then show ?thesis using "2.IH"(1) [OF None d(1) _ _ True] "2.prems"(2) d(2) by simp
    next
      case False
      then have "req = req'" "p = length es + length evs + 1" using "2.prems"(4) d(2) by auto
      then show ?thesis
        using verdict_None [OF None _ "2.prems"(3)] "2.prems"(2) d(2) by auto
    qed
  qed
qed simp

text \<open>An acceptance among the replies of a drain comes from an accepted request, and then the append succeeded.\<close>
lemma accepted_reply:
  assumes "(ch, tok, Inr rng) \<in> set (map reply_rejected rej @ outcome_replies r acc)"
  obtains req p rng' where "(req, p) \<in> set acc" "req_reply req = ch" "req_token req = tok"
    "rng = (p, p + length (req_events req) - 1)" "r = Inr rng'"
  using assms that by (auto simp: outcome_replies_def reply_rejected_def reply_accepted_def split: sum.splits)

lemma process_accepts:
  assumes "worker_ok crc F w es" and "\<forall>req \<in> set reqs. wf_Request req"
    and "length es + length (concat (map req_events reqs)) < U64_MAX" and "fst_ok F" and "now \<le> U64_MAX"
    and "sealable F (drop (active_base (wk_index w) - 1) es)"
    and "process dbg crc F now reqs w = Some (w', replies)" and "(ch, tok, Inr (f, l)) \<in> set replies"
  obtains rej acc req where "decide es [] reqs = (rej, acc)" "(req, f) \<in> set acc" "req_reply req = ch" "req_token req = tok"
    "l = f + length (req_events req) - 1" "worker_ok crc F w' (es @ accepted_events acc)"
proof -
  obtain rej acc where d: "decide es [] reqs = (rej, acc)" by fastforce
  obtain r S' where run: "set_append_batch crc now (batch_of acc) (wk_set w) = (r, S')" by fastforce
  have p: "replies = map reply_rejected rej @ outcome_replies r acc" "drained_ok crc F w es r (accepted_events acc) w'"
    using process_ok [OF assms(1-6) d run, of dbg] assms(7) by auto
  obtain req rng' where "(req, f) \<in> set acc" "req_reply req = ch" "req_token req = tok"
    "l = f + length (req_events req) - 1" "r = Inr rng'"
    using accepted_reply [OF assms(8) [unfolded p(1)]] by auto
  then show thesis using that [OF d] p(2) by (simp add: drained_ok_def)
qed

subsection \<open>Starting\<close>

lemma start_ok:
  assumes "set_inv crc S" and "log_of S = map buf es" and "\<forall>e \<in> set es. wf_Event e" and "length es < U64_MAX"
    and "fst_ok F" and "now \<le> U64_MAX" and "files_honest crc F es (sealed_segments S) fs"
    and "\<forall>r \<in> set (sealed_segments S). sealable F (range_events es (fst r) (snd r))"
    and "card (event_type ` set (drop (seg_base (active S) - 1) es)) \<le> U16_MAX + 1"
    and "queue_capacity cfg \<ge> 1" and "max_batch_records cfg \<ge> 1" and "max_batch_bytes cfg \<le> segment_capacity S"
  shows "\<exists>w. WriteCoordinator_start crc F now S cfg fs = Some (Inr w) \<and> worker_ok crc F w es \<and>
     wk_set w = S \<and> wk_cfg w = cfg \<and> wk_pushback w = None \<and> \<not> wk_shutdown w"
proof -
  obtain ix where ix: "IndexSet_open crc F now S fs = Inr ix" "index_inv F ix es" "active_base ix = seg_base (active S)"
    "map (\<lambda>s. (six_base s, six_count s)) (ix_sealed ix) = sealed_segments S" "\<not> active_unindexable ix"
    using index_open_ok [OF assms(1-8)] assms(9) by fastforce
  have np: "next_position S = length es + 1" using length_log_of [OF assms(1)] assms(2) by simp
  have "log_holds (crc, S) es" using assms(1,2,4) by (simp add: log_holds_def)
  moreover have "tips_sound (TagTips_new (length es + 1) (tips_window cfg)) es" by (rule tips_new_sound)
  ultimately show ?thesis
    using ix assms(3,10-12) np
    by (simp add: WriteCoordinator_start_def worker_ok_def store_ok_def aligned_def marked_def ReadCore_new_def set_last_position_def)
qed

subsection \<open>Demonstration\<close>

definition demo_cfg :: WriterConfig where
  "demo_cfg = \<lparr>queue_capacity = 4, max_batch_records = 4, max_batch_bytes = 64, tips_window = 10, verify_tips = True,
     condition_force_scan = False, cfg_read = ReadConfig_default\<rparr>"

definition no_index_files :: IndexFs where
  "no_index_files = \<lparr>fs_files = \<lambda>_. Missing, fs_write_fault = \<lambda>_. None\<rparr>"

lemma demo_worker:
  obtains w where "WriteCoordinator_start crc_demo fst_demo 0 demo_set demo_cfg no_index_files = Some (Inr w)"
    and "worker_ok crc_demo fst_demo w []" and "wk_set w = demo_set" and "wk_cfg w = demo_cfg"
    and "wk_pushback w = None" and "\<not> wk_shutdown w"
proof -
  have "sealed demo_set = []" "segment_capacity demo_set = 64"
    by (simp_all add: demo_set_eq segment_capacity_def SegmentConfig_new_def SEGMENT_HEADER_SIZE_def)
  then have "\<exists>w. WriteCoordinator_start crc_demo fst_demo 0 demo_set demo_cfg no_index_files = Some (Inr w) \<and>
      worker_ok crc_demo fst_demo w [] \<and> wk_set w = demo_set \<and> wk_cfg w = demo_cfg \<and> wk_pushback w = None \<and> \<not> wk_shutdown w"
    using demo_set_facts(1,2)
    by (intro start_ok) (simp_all add: fst_demo_ok files_honest_def sealed_segments_def demo_cfg_def)
  then show thesis using that by blast
qed

text \<open>A request for one event of the demonstration type, guarded by its tag.\<close>
definition demo_request :: "nat \<Rightarrow> Request" where
  "demo_request token =
     \<lparr>req_events = [demo_event 0x41 0x61],
      req_condition = Some \<lparr>fail_if_events_match = Items [\<lparr>types = [], tags = [Tag [0x61]]\<rparr>], after = 0, fail_if_exists = None\<rparr>,
      req_reply = 7, req_token = token\<rparr>"

lemma demo_request_wf: "wf_Request (demo_request token)"
  using demo_events_wf by (simp add: wf_Request_def demo_request_def) code_simp

lemma demo_decide: "decide [] [] [demo_request 0, demo_request 1] =
    ([(demo_request 1, Conflict Boundary SameBatch)], [(demo_request 0, 1)])"
  by code_simp

lemma demo_append:
  obtains S' where "set_append_batch crc_demo 0 (batch_of [(demo_request 0, 1)]) demo_set = (Inr (1, 1), S')"
proof -
  have "fst (set_append_batch crc_demo 0 (batch_of [(demo_request 0, 1)]) demo_set) = Inr (1, 1)" by code_simp
  then show thesis using that by (metis prod.collapse)
qed

lemma demo_drain_hyps:
  "\<forall>req \<in> set [demo_request 0, demo_request 1]. wf_Request req"
  "length ([] :: Event list) + length (concat (map req_events [demo_request 0, demo_request 1])) < U64_MAX"
  "sealable fst_demo (drop n [])"
  "\<forall>req \<in> set [demo_request 0, demo_request 1]. \<forall>e \<in> set (req_events req). event_tags e \<noteq> []"
  "distinct (map (\<lambda>req. (req_reply req, req_token req)) [demo_request 0, demo_request 1])"
proof -
  have "event_tags (demo_event 0x41 0x61) \<noteq> []" by code_simp
  then show "\<forall>req \<in> set [demo_request 0, demo_request 1]. \<forall>e \<in> set (req_events req). event_tags e \<noteq> []"
    by (simp add: demo_request_def)
qed (use demo_request_wf sealable_Nil in \<open>simp_all add: demo_request_def\<close>)

text \<open>What the demonstration drain replies.\<close>
definition demo_replies :: "Reply list" where
  "demo_replies = [(7, 1, Inl (Conflict Boundary SameBatch)), (7, 0, Inr (1, 1))]"

lemma demo_replies_eq:
  "map reply_rejected [(demo_request 1, Conflict Boundary SameBatch)] @ outcome_replies (Inr (1, 1)) [(demo_request 0, 1)] =
   demo_replies"
  by (simp add: demo_replies_def reply_rejected_def reply_accepted_def outcome_replies_def demo_request_def)

lemma demo_process:
  assumes "worker_ok crc_demo fst_demo w []" and "wk_set w = demo_set"
  shows "\<exists>w'. process dbg crc_demo fst_demo 0 [demo_request 0, demo_request 1] w = Some (w', demo_replies)"
proof (rule demo_append)
  fix S' assume "set_append_batch crc_demo 0 (batch_of [(demo_request 0, 1)]) demo_set = (Inr (1, 1), S')"
  then show ?thesis
    using process_ok [OF assms(1) demo_drain_hyps(1,2) fst_demo_ok _ demo_drain_hyps(3) demo_decide, of 0 "Inr (1, 1)" S' dbg]
      assms(2) by (auto simp only: demo_replies_eq le0)
qed

subsection \<open>Properties\<close>

text \<open>
  C2. One drain is exact: whatever the disk does, \<open>process\<close> does not panic and answers every request of the drain once.
  A request is rejected exactly when the specification rejects it (with the durable log and the events staged before
  it), immediately and without effect. When the append succeeds the log is the old one followed by the accepted
  requests' events in order, every accepted request is told its consecutive range, and the writer's invariant holds
  again: index, tips and the published snapshot and watermark all describe the grown log, with or without a rollover.
  When it fails every accepted request gets the same error, the log, the index, the tips and the watermark are as
  before, readers still see the old log, and a refusal that left the segments alone keeps the whole invariant.
\<close>
theorem drain_exact:
  assumes "worker_ok crc F w es" and "\<forall>req \<in> set reqs. wf_Request req"
    and "length es + length (concat (map req_events reqs)) < U64_MAX" and "fst_ok F" and "now \<le> U64_MAX"
    and "sealable F (drop (active_base (wk_index w) - 1) es)"
    and "decide es [] reqs = (rej, acc)" and "set_append_batch crc now (batch_of acc) (wk_set w) = (r, S')"
  shows "\<exists>w'. process dbg crc F now reqs w = Some (w', map reply_rejected rej @ outcome_replies r acc) \<and>
     wk_set w' = S' \<and> drained_ok crc F w es r (accepted_events acc) w'"
  by (rule process_ok [OF assms])

theorem drain_exact_witness:
  "\<exists>w w'. WriteCoordinator_start crc_demo fst_demo 0 demo_set demo_cfg no_index_files = Some (Inr w) \<and>
     process True crc_demo fst_demo 0 [demo_request 0, demo_request 1] w = Some (w', demo_replies) \<and>
     worker_ok crc_demo fst_demo w' [demo_event 0x41 0x61]"
proof (rule demo_worker)
  fix w :: "(str \<times> nat) list Worker"
  assume w: "WriteCoordinator_start crc_demo fst_demo 0 demo_set demo_cfg no_index_files = Some (Inr w)"
    "worker_ok crc_demo fst_demo w []" "wk_set w = demo_set"
  obtain S' where S': "set_append_batch crc_demo 0 (batch_of [(demo_request 0, 1)]) (wk_set w) = (Inr (1, 1), S')"
    using demo_append w(3) by metis
  from drain_exact [OF w(2) demo_drain_hyps(1,2) fst_demo_ok _ demo_drain_hyps(3) demo_decide S', of True]
  show ?thesis
    using w(1) unfolding demo_replies_eq by (auto simp: drained_ok_def demo_request_def)
qed

text \<open>
  C1. The guarantee of conditional appends: when a drain answers a request with a range, whatever was drained with it,
  the log then holds the request's events at exactly that range, and no event between the bound \<open>after\<close> and the first
  of them matches the boundary query, and none before it matches the existence query: neither an event of the old log
  nor one of a request committed in the same batch. The events drained all carry a tag; the guarantee fails without
  it.
\<close>
theorem conditional_append_safe:
  assumes "worker_ok crc F w es" and "\<forall>req \<in> set reqs. wf_Request req"
    and "length es + length (concat (map req_events reqs)) < U64_MAX" and "fst_ok F" and "now \<le> U64_MAX"
    and "sealable F (drop (active_base (wk_index w) - 1) es)"
    and "\<forall>req \<in> set reqs. \<forall>e \<in> set (req_events req). event_tags e \<noteq> []"
    and "distinct (map (\<lambda>req. (req_reply req, req_token req)) reqs)" and "req \<in> set reqs"
    and "process dbg crc F now reqs w = Some (w', replies)"
    and "(req_reply req, req_token req, Inr (f, l)) \<in> set replies"
  shows "\<exists>evs. log_of (wk_set w') = map buf (es @ evs) \<and>
     take (length (req_events req)) (drop (f - 1) (es @ evs)) = req_events req \<and> l = f + length (req_events req) - 1 \<and>
     (\<forall>cond. req_condition req = Some cond \<longrightarrow> condition_holds cond (es @ evs) f)"
proof -
  obtain rej acc req' where a: "decide es [] reqs = (rej, acc)" "(req', f) \<in> set acc" "req_reply req' = req_reply req"
    "req_token req' = req_token req" "l = f + length (req_events req') - 1" "worker_ok crc F w' (es @ accepted_events acc)"
    by (rule process_accepts [OF assms(1-6,10,11)])
  have "req' \<in> set reqs" using accepted_subset [OF a(1)] a(2) by force
  then have "req' = req" using assms(8,9) a(3,4) by (auto simp: distinct_map dest: inj_onD)
  moreover have "log_of (wk_set w') = map buf (es @ accepted_events acc)"
    using a(6) by (simp add: worker_ok_def store_ok_def log_holds_def)
  ultimately show ?thesis
    using decide_safe [OF a(1) _ _ a(2)] decide_positions [OF a(1,2)] assms(2,7) a(5)
    by (intro exI [of _ "accepted_events acc"]) auto
qed

theorem conditional_append_safe_witness:
  "\<exists>w w' evs. WriteCoordinator_start crc_demo fst_demo 0 demo_set demo_cfg no_index_files = Some (Inr w) \<and>
     process True crc_demo fst_demo 0 [demo_request 0, demo_request 1] w = Some (w', demo_replies) \<and>
     log_of (wk_set w') = map buf evs \<and> take 1 evs = [demo_event 0x41 0x61]"
proof (rule demo_worker)
  fix w :: "(str \<times> nat) list Worker"
  assume w: "WriteCoordinator_start crc_demo fst_demo 0 demo_set demo_cfg no_index_files = Some (Inr w)"
    "worker_ok crc_demo fst_demo w []" "wk_set w = demo_set"
  obtain w' where w': "process True crc_demo fst_demo 0 [demo_request 0, demo_request 1] w = Some (w', demo_replies)"
    using demo_process [OF w(2,3)] by blast
  have r: "(req_reply (demo_request 0), req_token (demo_request 0), Inr (1, 1)) \<in> set demo_replies"
    by (simp add: demo_request_def demo_replies_def)
  have "length (req_events (demo_request 0)) = 1" "req_events (demo_request 0) = [demo_event 0x41 0x61]"
    by (simp_all add: demo_request_def)
  then show ?thesis
    using conditional_append_safe [OF w(2) demo_drain_hyps(1,2) fst_demo_ok _ demo_drain_hyps(3-5) _ w' r] w(1) w' by auto
qed

end
