(* ===== verification/WriterLoop.thy ===== *)
theory WriterLoop
  imports Coordinator "HOL-Library.Sublist" "HOL-Library.Multiset"
begin

text \<open>
  The writer thread over a whole queue (\<open>crates/tephra/src/writer/coordinator.rs\<close>): on a healthy disk the loop of
  \<open>Coordinator\<close> never panics, keeps its invariant from drain to drain and answers every request that arrives before
  the shutdown exactly once. The last part runs the writer on two inputs where it does not keep its promises.
\<close>

subsection \<open>A healthy disk\<close>

text \<open>
  No pending I/O error, room in an empty active segment, and no file in the way of the next segments; the active
  segment's own file is named after the next position while it is empty.
\<close>
definition healthy :: "SegmentSet \<Rightarrow> bool" where
  "healthy S \<longleftrightarrow>
     no_faults (active_writer S) \<and>
     (event_count (active S) = 0 \<longrightarrow> remaining_bytes (active_writer S) = segment_capacity S) \<and>
     (\<forall>n. next_position S \<le> n \<and> n \<le> U64_MAX \<and> segment_file_name n \<in> set (dir_names S) \<longrightarrow>
        n = next_position S \<and> event_count (active S) = 0)"

lemma create_segment_names:
  "create_segment crc now c base names fs = (Inr x, names') \<Longrightarrow> names' = segment_file_name base # names"
  by (simp add: create_segment_def Let_def split: prod.splits sum.splits if_splits)

lemma rollover_names:
  assumes "rollover crc now S = (Inr (), S')"
  shows "dir_names S' = segment_file_name (next_position S) # dir_names S"
proof -
  obtain off w where sy: "sync (active_writer S) = (Inr off, w)"
    using assms by (auto simp: rollover_def split: prod.splits sum.splits)
  obtain r names where cs: "create_segment crc now (config S) (next_position S) (dir_names S) (faults w) = (r, names)" by fastforce
  obtain x where r: "r = Inr x" using assms sy cs by (cases r) (simp_all add: rollover_def Let_def)
  obtain writer seg where x: "x = (writer, seg)" by fastforce
  have "dir_names S' = names" using assms by (auto simp: rollover_def sy cs r x Let_def)
  then show ?thesis using create_segment_names [OF cs [unfolded r]] by simp
qed

lemma segment_file_name_inj:
  assumes "segment_file_name m = segment_file_name n" and "m \<le> U64_MAX" and "n \<le> U64_MAX"
  shows "m = n"
  using parse_segment_file_name assms by (metis option.inject)

text \<open>After a successful append to the active segment that segment is not empty.\<close>
lemma append_active_healthy:
  assumes "set_inv crc S" and "no_faults (active_writer S)" and "check_records (config S) records = Inr ()" and "records \<noteq> []"
    and "batch_total records \<le> remaining_bytes (active_writer S)"
    and "\<forall>n. next_position S < n \<and> n \<le> U64_MAX \<longrightarrow> segment_file_name n \<notin> set (dir_names S)"
  shows "\<exists>rng S'. append_active crc records S = (Inr rng, S') \<and> healthy S'"
proof -
  obtain S' where S': "append_active crc records S = (Inr (next_position S, next_position S + length records - 1), S')"
    "no_faults (active_writer S')"
    using append_active_total [OF assms(1,2,3,5)] by blast
  note ok = append_active_ok [OF assms(1) _ assms(4) S'(1)]
  have o: "set_inv crc S'" "next_position S' = next_position S + length records" "dir_names S' = dir_names S"
    "seg_base (active S') = seg_base (active S)"
    using ok assms(3) by (simp_all add: check_records_ok)
  have "seg_base (active S) \<le> next_position S" "seg_base (active S') + event_count (active S') = next_position S'"
    using assms(1) o(1) by (auto simp: set_inv_def contiguous_append)
  then have "event_count (active S') \<noteq> 0" using o(2,4) assms(4) by (cases records) auto
  moreover have "segment_file_name n \<notin> set (dir_names S')" if "next_position S' \<le> n" "n \<le> U64_MAX" for n
    using assms(4,6) o(2,3) that by (cases records) auto
  ultimately have "healthy S'" using S'(2) by (auto simp: healthy_def)
  then show ?thesis using S'(1) by blast
qed

text \<open>On a healthy disk a batch is accepted, or refused without effect.\<close>
lemma healthy_append:
  assumes "set_inv crc S" and "healthy S" and "next_position S \<le> U64_MAX"
    and "set_append_batch crc now records S = (r, S')"
  shows "healthy S' \<and> ((\<exists>rng. r = Inr rng) \<or> S' = S)"
proof (cases "records = [] \<or> check_records (config S) records \<noteq> Inr () \<or> batch_total records > segment_capacity S")
  case True
  from assms(4) have "S' = S" by (cases rule: set_append_batch_cases) (use True in auto)
  then show ?thesis using assms(2) by simp
next
  case False
  then have rec: "records \<noteq> []" "check_records (config S) records = Inr ()" "batch_total records \<le> segment_capacity S" by auto
  have free: "segment_file_name n \<notin> set (dir_names S)" if "next_position S < n" "n \<le> U64_MAX" for n
    using assms(2) that unfolding healthy_def by (metis less_imp_le nat_neq_iff)
  have nf: "no_faults (active_writer S)" using assms(2) by (simp add: healthy_def)
  show ?thesis
  proof (cases "batch_total records \<le> remaining_bytes (active_writer S)")
    case True
    then have "set_append_batch crc now records S = append_active crc records S"
      using rec by (simp add: set_append_batch_def segment_capacity_def Let_def)
    then show ?thesis using append_active_healthy [OF assms(1) nf rec(2,1) True] free assms(4) by auto
  next
    case False
    then have "event_count (active S) \<noteq> 0" using assms(2) rec(3) by (auto simp: healthy_def)
    then have name: "segment_file_name (next_position S) \<notin> set (dir_names S)" using assms(2,3) by (auto simp: healthy_def)
    obtain S1 where S1: "rollover crc now S = (Inr (), S1)" "no_faults (active_writer S1)"
      using rollover_total [OF assms(1) nf name] by blast
    have ro: "set_inv crc S1" "next_position S1 = next_position S" "config S1 = config S"
      "remaining_bytes (active_writer S1) = segment_capacity S1"
      using rollover_ok [OF assms(1) S1(1)] by auto
    have cap: "segment_capacity S1 = segment_capacity S" using ro(3) by (simp add: segment_capacity_def)
    have "segment_file_name n \<notin> set (dir_names S1)" if "next_position S1 < n" "n \<le> U64_MAX" for n
      using free [of n] segment_file_name_inj [of n "next_position S"] that ro(2) assms(3) rollover_names [OF S1(1)] by auto
    then obtain rng T where "append_active crc records S1 = (Inr rng, T)" "healthy T"
      using append_active_healthy [OF ro(1) S1(2) _ rec(1)] rec(2,3) ro(3,4) cap by auto
    moreover have "set_append_batch crc now records S = append_active crc records S1"
      using rec False S1(1) by (simp add: set_append_batch_def segment_capacity_def Let_def)
    ultimately show ?thesis using assms(4) by auto
  qed
qed

subsection \<open>Draining the queue\<close>

text \<open>The requests before the first shutdown message, and the messages after it.\<close>
fun queued :: "Message list \<Rightarrow> Request list" where
  "queued [] = []"
| "queued (MShutdown # queue) = []"
| "queued (MAppend req # queue) = req # queued queue"

fun after_shutdown :: "Message list \<Rightarrow> Message list" where
  "after_shutdown [] = []"
| "after_shutdown (MShutdown # queue) = queue"
| "after_shutdown (MAppend req # queue) = after_shutdown queue"

definition pending :: "'m Worker \<Rightarrow> Message list \<Rightarrow> Request list" where
  "pending w queue = (case wk_pushback w of None \<Rightarrow> [] | Some req \<Rightarrow> [req]) @ queued queue"

text \<open>What a drain took: everything up to the shutdown, or a first part of what was pending.\<close>
definition took :: "bool \<Rightarrow> Message list \<Rightarrow> Request list \<Rightarrow> Request list \<Rightarrow> 'm Worker \<Rightarrow> 'm Worker \<Rightarrow> Message list \<Rightarrow> bool" where
  "took disc queue todo reqs w w' queue' \<longleftrightarrow>
     w' = w\<lparr>wk_pushback := wk_pushback w', wk_shutdown := wk_shutdown w'\<rparr> \<and>
     (if wk_shutdown w'
      then reqs = todo \<and> queue' = after_shutdown queue \<and> wk_pushback w' = None \<and> (disc \<or> MShutdown \<in> set queue)
      else reqs @ pending w' queue' = todo \<and> after_shutdown queue' = after_shutdown queue \<and>
           (MShutdown \<in> set queue' \<longleftrightarrow> MShutdown \<in> set queue))"

lemma collect_more_took:
  assumes "collect_more disc queue bytes reqs w = (reqs', w', queue')" and "wk_pushback w = None" and "\<not> wk_shutdown w"
  shows "took disc queue (reqs @ queued queue) reqs' w w' queue'"
  using assms
proof (induction disc queue bytes reqs w arbitrary: reqs' w' queue' rule: collect_more.induct)
  case (3 disc req queue bytes reqs w)
  obtain tot largest where m: "measure_events (req_events req) = (tot, largest)" by fastforce
  show ?case
  proof (cases "length reqs < max_batch_records (wk_cfg w) \<and>
      \<not> (is_oversized w tot largest \<or> bytes + tot > max_batch_bytes (wk_cfg w))")
    case True
    then show ?thesis
      using "3.IH" [OF _ m [symmetric], of reqs' w' queue'] "3.prems" m by (auto simp: took_def)
  next
    case False
    then show ?thesis using "3.prems" m by (auto simp: took_def pending_def split: if_splits)
  qed
qed (auto simp: took_def pending_def split: if_splits)

lemma collect_first_took:
  assumes "collect_first disc queue req w = (c, w', queue')" and "wk_pushback w = None" and "\<not> wk_shutdown w"
  shows "\<exists>reqs. c = Reqs reqs \<and> took disc queue (req # queued queue) reqs w w' queue'"
  using assms collect_more_took [of disc queue _ "[req]" w]
  by (fastforce simp: collect_first_def took_def pending_def split: prod.splits if_splits)

lemma collect_took:
  assumes "collect disc queue w = (Reqs reqs, w', queue')" and "\<not> wk_shutdown w"
  shows "took disc queue (pending w queue) reqs w w' queue'"
proof (cases "wk_pushback w")
  case (Some req)
  let ?w = "w\<lparr>wk_pushback := None\<rparr>"
  have "took disc queue (req # queued queue) reqs ?w w' queue'"
    using collect_first_took [of disc queue req ?w "Reqs reqs" w' queue'] assms Some by (simp add: collect_def)
  moreover have "pending w queue = req # queued queue" by (simp add: pending_def Some)
  ultimately show ?thesis by (simp add: took_def)
next
  case None
  then obtain req rest where q: "queue = MAppend req # rest" "collect_first disc rest req w = (Reqs reqs, w', queue')"
    using assms(1) by (auto simp: collect_def split: list.splits Message.splits if_splits)
  then have "took disc rest (req # queued rest) reqs w w' queue'" using collect_first_took None assms(2) by blast
  then show ?thesis using None q(1) by (auto simp: took_def pending_def)
qed

lemma collect_exit:
  assumes "collect disc queue w = (Exit, w', queue')" and "\<not> wk_shutdown w"
  shows "pending w queue = []" and "queue' = after_shutdown queue" and "disc \<or> MShutdown \<in> set queue"
    and "w' = w\<lparr>wk_shutdown := True\<rparr>"
  using assms
  by (auto simp: collect_def collect_first_def pending_def split: option.splits list.splits Message.splits if_splits prod.splits)

lemma collect_blocked:
  assumes "collect disc queue w = (Blocked, w', queue')"
  shows "pending w queue = []" and "queue = []" and "queue' = []" and "\<not> disc" and "w' = w"
  using assms
  by (auto simp: collect_def collect_first_def pending_def split: option.splits list.splits Message.splits if_splits prod.splits)

subsection \<open>The loop\<close>

definition request_key :: "Request \<Rightarrow> nat \<times> nat" where
  "request_key req = (req_reply req, req_token req)"

definition reply_key :: "Reply \<Rightarrow> nat \<times> nat" where
  "reply_key = (\<lambda>(ch, tok, _). (ch, tok))"

lemma decide_keys:
  "decide es evs reqs = (rej, acc) \<Longrightarrow>
   mset (map request_key reqs) = mset (map (request_key \<circ> fst) rej) + mset (map (request_key \<circ> fst) acc)"
  by (induction es evs reqs arbitrary: rej acc rule: decide.induct) (auto split: option.splits prod.splits)

lemma replies_keys:
  assumes "decide es evs reqs = (rej, acc)"
  shows "mset (map reply_key (map reply_rejected rej @ outcome_replies r acc)) = mset (map request_key reqs)"
proof -
  have "map reply_key (map reply_rejected rej) = map (request_key \<circ> fst) rej"
    by (simp add: reply_key_def reply_rejected_def request_key_def split: prod.splits)
  moreover have "map reply_key (outcome_replies r acc) = map (request_key \<circ> fst) acc"
    by (simp add: outcome_replies_def reply_key_def reply_rejected_def reply_accepted_def request_key_def split: prod.splits sum.splits)
  ultimately show ?thesis by (simp only: decide_keys [OF assms] map_append mset_append)
qed

lemma accepted_subseq: "decide es evs reqs = (rej, acc) \<Longrightarrow> subseq (accepted_events acc) (concat (map req_events reqs))"
proof (induction es evs reqs arbitrary: rej acc rule: decide.induct)
  case (2 es evs req reqs)
  show ?case
  proof (cases "verdict es evs req")
    case (Some err)
    then obtain rej' where "decide es evs reqs = (rej', acc)" using "2.prems" by (auto split: prod.splits)
    then show ?thesis using "2.IH"(2) [OF Some] by (simp add: subseq_drop_many)
  next
    case None
    then obtain acc' where "decide es (evs @ req_events req) reqs = (rej, acc')"
      "acc = (req, length es + length evs + 1) # acc'"
      using "2.prems" by (auto split: prod.splits)
    then show ?thesis using "2.IH"(1) [OF None] by (simp add: list_emb_append_mono)
  qed
qed simp

text \<open>One drain on a healthy disk.\<close>
lemma process_healthy:
  assumes "worker_ok crc F w es" and "healthy (wk_set w)" and "\<forall>req \<in> set reqs. wf_Request req"
    and "length es + length (concat (map req_events reqs)) < U64_MAX" and "fst_ok F" and "now \<le> U64_MAX"
    and "\<forall>xs. subseq xs es \<longrightarrow> sealable F xs"
  obtains w' replies evs where "process dbg crc F now reqs w = Some (w', replies)" "worker_ok crc F w' (es @ evs)"
    "healthy (wk_set w')" "subseq evs (concat (map req_events reqs))"
    "mset (map reply_key replies) = mset (map request_key reqs)"
proof -
  obtain rej acc where d: "decide es [] reqs = (rej, acc)" by fastforce
  obtain r S' where run: "set_append_batch crc now (batch_of acc) (wk_set w) = (r, S')" by fastforce
  have seal: "sealable F (drop (active_base (wk_index w) - 1) es)" using assms(7) by (simp add: suffix_imp_subseq suffix_drop)
  obtain w' where p: "process dbg crc F now reqs w = Some (w', map reply_rejected rej @ outcome_replies r acc)"
    "wk_set w' = S'" "drained_ok crc F w es r (accepted_events acc) w'"
    using process_ok [OF assms(1,3-6) seal d run, of dbg] by blast
  have "set_inv crc (wk_set w)" "next_position (wk_set w) = length es + 1" "length es < U64_MAX"
    using assms(1) store_ok_position by (auto simp: worker_ok_def store_ok_def log_holds_def)
  then have h: "healthy S'" "(\<exists>rng. r = Inr rng) \<or> S' = wk_set w" using healthy_append [OF _ assms(2) _ run] by auto
  define evs where "evs = (if \<exists>rng. r = Inr rng then accepted_events acc else [])"
  have "worker_ok crc F w' (es @ evs)" using p(2,3) h(2) by (cases r) (auto simp: drained_ok_def evs_def)
  moreover have "subseq evs (concat (map req_events reqs))" using accepted_subseq [OF d] by (simp add: evs_def)
  ultimately show thesis using that [OF p(1) _ _ _ replies_keys [OF d]] p(2) h(1) by blast
qed

lemma worker_ok_took:
  assumes "took disc queue todo reqs w w' queue'"
  shows "worker_ok crc F w' es = worker_ok crc F w es" and "wk_set w' = wk_set w" and "wk_core w' = wk_core w"
proof -
  obtain pb sh where "w' = w\<lparr>wk_pushback := pb, wk_shutdown := sh\<rparr>" using assms unfolding took_def by blast
  then show "worker_ok crc F w' es = worker_ok crc F w es" "wk_set w' = wk_set w" "wk_core w' = wk_core w"
    by (simp_all add: worker_ok_def store_ok_def)
qed

lemma worker_ok_close: "worker_ok crc F (w\<lparr>wk_core := core_close (wk_core w)\<rparr>) es = worker_ok crc F w es"
  by (simp add: worker_ok_def store_ok_def core_close_def)

text \<open>What the loop leaves behind when it ends or waits.\<close>
definition served ::
  "crc_fun \<Rightarrow> 'm fst_crate \<Rightarrow> bool \<Rightarrow> Message list \<Rightarrow> 'm Worker \<Rightarrow> Event list \<Rightarrow> bool \<times> 'm Worker \<times> Message list \<times> Reply list \<Rightarrow> bool" where
  "served crc F disc queue w es = (\<lambda>(ended, w', rest, replies).
     (ended \<longleftrightarrow> disc \<or> MShutdown \<in> set queue) \<and> (ended \<longrightarrow> rc_closed (wk_core w')) \<and> rest = after_shutdown queue \<and>
     mset (map reply_key replies) = mset (map request_key (pending w queue)) \<and>
     (\<exists>evs. subseq evs (concat (map req_events (pending w queue))) \<and> worker_ok crc F w' (es @ evs)))"

lemma run_ok:
  assumes "worker_ok crc F w es" and "healthy (wk_set w)" and "\<not> wk_shutdown w" and "\<forall>req \<in> set (pending w queue). wf_Request req"
    and "length es + length (concat (map req_events (pending w queue))) < U64_MAX" and "fst_ok F" and "now \<le> U64_MAX"
    and "\<forall>xs. subseq xs (es @ concat (map req_events (pending w queue))) \<longrightarrow> sealable F xs"
  shows "\<exists>res. run dbg crc F now disc queue w = Some res \<and> served crc F disc queue w es res"
  using assms
proof (induction "worker_messages queue w" arbitrary: queue w es rule: less_induct)
  case less
  obtain c w1 q1 where c: "collect disc queue w = (c, w1, q1)" using prod_cases3 by blast
  show ?case
  proof (cases c)
    case Blocked
    note b = collect_blocked [OF c [unfolded Blocked]]
    have "run dbg crc F now disc queue w = Some (False, w, [], [])" using c Blocked b by (simp add: run.simps)
    moreover have "served crc F disc queue w es (False, w, [], [])"
      using b less.prems(1) by (auto simp: served_def intro!: exI [of _ "[]"])
    ultimately show ?thesis by blast
  next
    case Exit
    note e = collect_exit [OF c [unfolded Exit] less.prems(3)]
    let ?w = "w1\<lparr>wk_core := core_close (wk_core w1)\<rparr>"
    have "run dbg crc F now disc queue w = Some (True, ?w, q1, [])" using c Exit by (simp add: run.simps)
    moreover have "worker_ok crc F ?w es"
      using less.prems(1) by (simp add: e(4) worker_ok_def store_ok_def core_close_def)
    then have "served crc F disc queue w es (True, ?w, q1, [])"
      using e(1-3) by (auto simp: served_def core_close_def intro!: exI [of _ "[]"])
    ultimately show ?thesis by blast
  next
    case (Reqs reqs)
    note t = collect_took [OF c [unfolded Reqs] less.prems(3)]
    note k = worker_ok_took [OF t]
    obtain todo where todo: "pending w queue = reqs @ todo" "\<not> wk_shutdown w1 \<Longrightarrow> todo = pending w1 q1" "wk_shutdown w1 \<Longrightarrow> todo = []"
      using t by (cases "wk_shutdown w1") (auto simp: took_def)
    let ?ev = "\<lambda>rs. concat (map req_events rs)"
    have seal: "\<forall>xs. subseq xs es \<longrightarrow> sealable F xs" using less.prems(8) list_emb_prefix by blast
    have pre: "worker_ok crc F w1 es" "healthy (wk_set w1)" "\<forall>req \<in> set reqs. wf_Request req" "length es + length (?ev reqs) < U64_MAX"
      using less.prems(1,2,4,5) k todo(1) by auto
    obtain w2 replies evs where p: "process dbg crc F now reqs w1 = Some (w2, replies)" "worker_ok crc F w2 (es @ evs)"
      "healthy (wk_set w2)" "subseq evs (?ev reqs)" "mset (map reply_key replies) = mset (map request_key reqs)"
      by (rule process_healthy [OF pre less.prems(6,7) seal])
    note pk = process_keeps [OF p(1)]
    show ?thesis
    proof (cases "wk_shutdown w1")
      case True
      let ?res = "(True, w2\<lparr>wk_core := core_close (wk_core w2)\<rparr>, q1, replies)"
      have "run dbg crc F now disc queue w = Some ?res" using c Reqs p(1) pk True by (simp add: run.simps)
      moreover have "served crc F disc queue w es ?res"
        using t True p(2,4,5) todo(1,3) worker_ok_close [of crc F w2] by (auto simp: served_def took_def core_close_def)
      ultimately show ?thesis by blast
    next
      case False
      have todo2: "todo = pending w2 q1" using todo(2) [OF False] pk by (simp add: pending_def)
      have all: "?ev (pending w queue) = ?ev reqs @ ?ev todo" using todo(1) by simp
      have sub: "subseq ((es @ evs) @ ?ev todo) (es @ ?ev (pending w queue))"
        unfolding all append_assoc by (intro list_emb_append_mono subseq_order.refl p(4))
      have "worker_messages q1 w2 < worker_messages queue w" using run_progress p(1) c Reqs by metis
      moreover have "length (es @ evs) + length (?ev todo) < U64_MAX"
        using less.prems(5) list_emb_length [OF p(4)] unfolding all by simp
      moreover have "\<forall>xs. subseq xs ((es @ evs) @ ?ev todo) \<longrightarrow> sealable F xs"
        using less.prems(8) sub subseq_order.trans by blast
      ultimately obtain res where res: "run dbg crc F now disc q1 w2 = Some res" "served crc F disc q1 w2 (es @ evs) res"
        using less.hyps [of q1 w2 "es @ evs"] p(2,3) pk False less.prems(4,6,7) todo(1) todo2 by auto
      obtain ended w3 rest more_replies where r: "res = (ended, w3, rest, more_replies)" using prod_cases4 by blast
      have "run dbg crc F now disc queue w = Some (ended, w3, rest, replies @ more_replies)"
        using c Reqs p(1) pk False res(1) r by (subst run.simps) simp
      moreover have "served crc F disc queue w es (ended, w3, rest, replies @ more_replies)"
      proof -
        obtain evs' where "subseq evs' (?ev todo)" "worker_ok crc F w3 ((es @ evs) @ evs')"
          using res(2) r todo2 by (auto simp: served_def)
        then have "\<exists>evs. subseq evs (?ev (pending w queue)) \<and> worker_ok crc F w3 (es @ evs)"
          unfolding all using p(4) by (intro exI [of _ "evs @ evs'"]) (simp add: list_emb_append_mono)
        then show ?thesis using res(2) r t False p(5) todo(1) todo2 by (auto simp: served_def took_def)
      qed
      ultimately show ?thesis by blast
    qed
  qed
qed

subsection \<open>Demonstration\<close>

lemma demo_healthy: "healthy demo_set"
proof -
  have "segment_file_name n = segment_file_name 1 \<Longrightarrow> n \<le> U64_MAX \<Longrightarrow> n = 1" for n
    by (rule segment_file_name_inj) simp_all
  then show ?thesis
    using demo_set_facts(3,4)
    by (simp add: healthy_def) (simp add: demo_set_eq event_count_def remaining_bytes_def segment_capacity_def
        SegmentConfig_new_def SEGMENT_HEADER_SIZE_def)
qed

lemma demo_sealable: "subseq xs [demo_event 0x41 0x61] \<Longrightarrow> sealable fst_demo xs"
proof -
  have "sealable fst_demo [demo_event 0x41 0x61]"
    unfolding sealable_def
  proof (intro conjI allI impI)
    fix t assume "tail_inv t (map parts_of [demo_event 0x41 0x61])"
    moreover have "map parts_of [demo_event 0x41 0x61] = [([0x41], [[0x61]])]" by code_simp
    ultimately have inv: "tail_inv t [([0x41], [[0x61]])]" by metis
    have "terms_sorted_with_postings t = map (\<lambda>tag. (tag, tag_postings [([0x41], [[0x61]])] tag)) [[0x61]]"
      by (rule terms_unique [OF inv]) simp_all
    also have "\<dots> = [([0x61], [0])]" by code_simp
    finally have terms: "terms_sorted_with_postings t = [([0x61], [0])]" .
    have enc: "encode_terms [([0x61], [0])] [] = ([([0x61], 0)], [])" by code_simp
    have fb: "fst_build fst_demo [([0x61], 0)] = Some (demo_build [([0x61], 0)])" by (simp add: fst_demo_def)
    have "length n = 1" if "n \<in> set (tail_type_names t)" for n using names_from_events [OF inv that] by auto
    then have "sum_list (map (\<lambda>n. 2 + length n) (tail_type_names t)) = 3 * length (at_types t)"
      by (simp add: sum_list_triv cong: map_cong)
    also have "length (at_types t) = 1" using tail_inv_types_card [OF inv] by simp
    finally show "index_size fst_demo t \<le> U32_MAX"
      unfolding index_size_def terms enc case_prod_conv fb using tail_inv_len [OF inv] by (simp add: INDEX_HEADER_SIZE_def)
  qed simp
  moreover assume "subseq xs [demo_event 0x41 0x61]"
  then have "xs = [] \<or> xs = [demo_event 0x41 0x61]" by (cases xs) (auto dest: list_emb_length simp: subseq_Cons2_iff split: if_splits)
  ultimately show ?thesis using sealable_Nil by blast
qed

text \<open>An event without tags, and a request for it guarded by the query that matches everything.\<close>
definition untagged_event :: Event where
  "untagged_event = \<lparr>buf = [1, 0, 0, 0, 0x41, 9], data_offset = 5\<rparr>"

definition guard_all :: AppendCondition where
  "guard_all = \<lparr>fail_if_events_match = All, after = 0, fail_if_exists = None\<rparr>"

definition untagged_request :: "nat \<Rightarrow> Request" where
  "untagged_request token = \<lparr>req_events = [untagged_event], req_condition = Some guard_all, req_reply = 7, req_token = token\<rparr>"

subsection \<open>Properties\<close>

text \<open>
  C8. The writer serves its queue: from a state that satisfies its invariant and on a healthy disk, for every queue
  and every budget, the loop never panics and comes to its end or to waiting for more. Every request received before
  the shutdown is answered exactly once and nothing else is answered, the messages after the shutdown are left
  unanswered, the loop ends exactly when a shutdown message or the last sender's disconnect has been seen, having
  closed the subscriptions, and the invariant holds again for a log extended by events of those requests in order.
\<close>
theorem writer_serves_queue:
  assumes "worker_ok crc F w es" and "healthy (wk_set w)" and "\<not> wk_shutdown w" and "\<forall>req \<in> set (pending w queue). wf_Request req"
    and "length es + length (concat (map req_events (pending w queue))) < U64_MAX" and "fst_ok F" and "now \<le> U64_MAX"
    and "\<forall>xs. subseq xs (es @ concat (map req_events (pending w queue))) \<longrightarrow> sealable F xs"
  shows "\<exists>ended w' replies evs. run dbg crc F now disc queue w = Some (ended, w', after_shutdown queue, replies) \<and>
     mset (map reply_key replies) = mset (map request_key (pending w queue)) \<and>
     (ended \<longleftrightarrow> disc \<or> MShutdown \<in> set queue) \<and> (ended \<longrightarrow> rc_closed (wk_core w')) \<and>
     subseq evs (concat (map req_events (pending w queue))) \<and> worker_ok crc F w' (es @ evs)"
  using run_ok [OF assms, of dbg disc] by (auto simp: served_def)

theorem writer_serves_queue_witness:
  "\<exists>w w' replies. WriteCoordinator_start crc_demo fst_demo 0 demo_set demo_cfg no_index_files = Some (Inr w) \<and>
     run True crc_demo fst_demo 0 False [MAppend (demo_request 3), MShutdown, MAppend (demo_request 4)] w =
       Some (True, w', [MAppend (demo_request 4)], replies) \<and>
     map reply_key replies = [(7, 3)] \<and> rc_closed (wk_core w')"
proof (rule demo_worker)
  fix w :: "(str \<times> nat) list Worker"
  let ?queue = "[MAppend (demo_request 3), MShutdown, MAppend (demo_request 4)]"
  assume w: "WriteCoordinator_start crc_demo fst_demo 0 demo_set demo_cfg no_index_files = Some (Inr w)"
    "worker_ok crc_demo fst_demo w []" "wk_set w = demo_set" "wk_pushback w = None" "\<not> wk_shutdown w"
  have q: "pending w ?queue = [demo_request 3]" "after_shutdown ?queue = [MAppend (demo_request 4)]"
    by (simp_all add: pending_def w(4))
  have ev: "[] @ concat (map req_events [demo_request 3]) = [demo_event 0x41 0x61]" by (simp add: demo_request_def)
  have "\<forall>xs. subseq xs ([] @ concat (map req_events (pending w ?queue))) \<longrightarrow> sealable fst_demo xs"
    unfolding q ev using demo_sealable by blast
  moreover have "length [] + length (concat (map req_events (pending w ?queue))) < U64_MAX" unfolding q by (simp add: demo_request_def)
  moreover have "\<forall>req \<in> set (pending w ?queue). wf_Request req" unfolding q using demo_request_wf by simp
  moreover have "healthy (wk_set w)" using demo_healthy w(3) by simp
  ultimately obtain ended w' replies where r: "run True crc_demo fst_demo 0 False ?queue w =
      Some (ended, w', after_shutdown ?queue, replies)" "mset (map reply_key replies) = mset (map request_key (pending w ?queue))"
    "ended \<longleftrightarrow> False \<or> MShutdown \<in> set ?queue" "ended \<longrightarrow> rc_closed (wk_core w')"
    using writer_serves_queue [OF w(2) _ w(5) _ _ fst_demo_ok, of ?queue 0 True False] by auto
  then have "mset (map reply_key replies) = {#(7, 3)#}" unfolding q by (simp add: request_key_def demo_request_def)
  then have "map reply_key replies = [(7, 3)]" by (metis mset_single_iff)
  then show ?thesis using w(1) r q(2) by auto
qed

text \<open>
  C31. Untagged events escape the conflict check of their own drain: two requests that each append an event without
  tags provided that the log is empty, drained together, are both accepted, and the second one's condition is
  violated by the first one's event. \<open>StagedTips::may_conflict\<close> takes a drain whose staged events carry no tag for an
  empty one.
\<close>
theorem untagged_conflict_missed:
  "\<exists>w w'. WriteCoordinator_start crc_demo fst_demo 0 demo_set demo_cfg no_index_files = Some (Inr w) \<and>
     process True crc_demo fst_demo 0 [untagged_request 0, untagged_request 1] w =
       Some (w', [(7, 0, Inr (1, 1)), (7, 1, Inr (2, 2))]) \<and>
     log_of (wk_set w') = map buf [untagged_event, untagged_event] \<and>
     \<not> condition_holds guard_all [untagged_event, untagged_event] 2"
proof (rule demo_worker)
  fix w :: "(str \<times> nat) list Worker"
  let ?reqs = "[untagged_request 0, untagged_request 1]" and ?acc = "[(untagged_request 0, 1), (untagged_request 1, 2)]"
  assume w: "WriteCoordinator_start crc_demo fst_demo 0 demo_set demo_cfg no_index_files = Some (Inr w)"
    "worker_ok crc_demo fst_demo w []" "wk_set w = demo_set"
  have d: "decide [] [] ?reqs = ([], ?acc)" by code_simp
  have "fst (set_append_batch crc_demo 0 (batch_of ?acc) demo_set) = Inr (1, 2)" by code_simp
  then obtain S' where S': "set_append_batch crc_demo 0 (batch_of ?acc) (wk_set w) = (Inr (1, 2), S')"
    using w(3) by (metis prod.collapse)
  have "wf_Event untagged_event" by code_simp
  then have wf: "\<forall>req \<in> set ?reqs. wf_Request req"
    by (simp add: wf_Request_def untagged_request_def guard_all_def wf_condition_def wf_Query_def)
  have len: "length ([] :: Event list) + length (concat (map req_events ?reqs)) < U64_MAX" by (simp add: untagged_request_def)
  from process_ok [OF w(2) wf len fst_demo_ok _ demo_drain_hyps(3) d S', of True] obtain w' where
    p: "process True crc_demo fst_demo 0 ?reqs w = Some (w', outcome_replies (Inr (1, 2)) ?acc)"
    "worker_ok crc_demo fst_demo w' (accepted_events ?acc)"
    by (auto simp: drained_ok_def)
  have "log_of (wk_set w') = map buf [untagged_event, untagged_event]"
    using p(2) by (simp add: worker_ok_def store_ok_def log_holds_def untagged_request_def)
  moreover have "outcome_replies (Inr (1, 2)) ?acc = [(7, 0, Inr (1, 1)), (7, 1, Inr (2, 2))]"
    by (simp add: outcome_replies_def reply_accepted_def untagged_request_def)
  moreover have "\<not> condition_holds guard_all [untagged_event, untagged_event] 2"
    by (auto simp: condition_holds_def unmatched_def guard_all_def Query_matches_def intro!: exI [of _ 1])
  ultimately show ?thesis using w(1) p(1) by auto
qed

end
