(* ===== verification/StaleSnapshot.thy ===== *)
theory StaleSnapshot
  imports WriterLoop
begin

text \<open>
  A sequence the write coordinator does not handle (\<open>crates/tephra/src/writer/coordinator.rs\<close>, the commit seam of
  \<open>process\<close>): a batch rolls the log over and then fails to append. The next batch finds the segments already
  rolled, so the coordinator sees no rollover, does not seal the index and does not publish the new segments.
\<close>

text \<open>A successful append without a rollover needs no more than the writer's own state to be right.\<close>
lemma after_append_same_segment:
  assumes "store_ok crc F w es" and "set_append_batch crc now (map buf evs) (wk_set w) = (Inr rng, S')"
    and "sealed S' = sealed (wk_set w)" and "batch_ok (length es) evs b" and "\<forall>e \<in> set evs. wf_Event e"
  shows "\<exists>w' ix'. after_append dbg crc F now b (length (sealed (wk_set w))) rng (w\<lparr>wk_set := S'\<rparr>) =
       Some (w', map (\<lambda>s. (st_reply s, st_token s, Inr (st_range s))) (bt_staged b)) \<and> wk_set w' = S' \<and>
     wk_core w' = publish_watermark (length (es @ evs)) (live S' ix' (wk_core w)) \<and> log_of S' = map buf (es @ evs)"
proof -
  have inv: "set_inv crc (wk_set w)" and log: "log_of (wk_set w) = map buf es" and ix: "index_inv F (wk_index w) es"
    using assms(1) by (auto simp: store_ok_def log_holds_def)
  obtain a l where rng: "rng = (a, l)" by fastforce
  note ab = append_batch_log [OF inv assms(2) [unfolded rng]]
  have al: "a = length es + 1" "l = length es + length evs" "next_position S' = length es + length evs + 1"
    using ab(2,4-6) log by simp_all
  obtain ix' where "feed_index (committed_records b) (wk_index w) = Some ix'"
    using feed_index_ok [OF ix assms(5)] assms(4) by (auto simp: committed_records_def batch_ok_def simp del: upt_Suc)
  moreover have "commit_ok dbg rng (wk_tips w) (next_position S') b =
      Some (absorb (bt_tips b) (next_position S') (wk_tips w), map (\<lambda>s. (st_reply s, st_token s, Inr (st_range s))) (bt_staged b))"
    using assms(4) al rng by (simp add: commit_ok_def batch_ok_def)
  ultimately show ?thesis
    using assms(3) al(3) ab(2) log by (simp add: after_append_def Let_def set_last_position_def) blast
qed

text \<open>The segment a snapshot holds stays the sealed one after the rollover.\<close>
lemma live_segment_sealed:
  assumes "sealed S' = segs @ [seg]" and "seg_base (active S') \<noteq> seg_base seg"
  shows "live_segment S' seg = seg"
  using assms by (simp add: live_segment_def)

text \<open>A failed append into a fresh segment whose rewind reached the segment's start leaves the segments consistent.\<close>
lemma failed_rollover_inv:
  assumes "set_inv crc S" and "set_append_batch crc now records S = (Inl e, S')" and "sealed S' \<noteq> sealed S"
    and "cursor (active_writer S') = header_size (config S)" and "write_offset (active_writer S') = header_size (config S)"
  shows "set_inv crc S'"
  using assms(2)
proof (cases rule: set_append_batch_cases)
  case (rolled S1)
  have ro: "set_inv crc S1" "config S1 = config S" "remaining_bytes (active_writer S1) = segment_capacity S1"
    using rollover_ok [OF assms(1) rolled(1)] by auto
  have "write_offset (active_writer S1) \<le> segment_size (config S)" "header_size (config S) \<le> segment_size (config S)"
    "size (active_writer S1) = segment_size (config S)"
    using ro(1,2) wf_config_sizes [of "config S"] by (auto simp: set_inv_def writer_inv_def)
  then have "write_offset (active_writer S1) = header_size (config S)"
    using ro(2,3) by (simp add: remaining_bytes_def segment_capacity_def)
  then show ?thesis using append_active_fail [OF ro(1) rolled(2)] assms(4,5) by simp
next
  case direct
  then show ?thesis using append_active_fail [OF assms(1)] assms(3) by blast
next
  case (no_roll e')
  then show ?thesis using rollover_fail [OF assms(1)] by blast
qed (use assms in blast)

subsection \<open>Demonstration\<close>

definition plain_request :: "nat \<Rightarrow> Request" where
  "plain_request token =
     \<lparr>req_events = [demo_event 0x41 0x61], req_condition = None, req_reply = 7, req_token = token\<rparr>"

text \<open>The demonstration set on a disk whose seventeenth operation fails, and the set after one, two and three batches.\<close>
definition faulty_set :: SegmentSet where
  "faulty_set = demo_set\<lparr>active_writer := (active_writer demo_set)\<lparr>faults := replicate 16 None @ [Some 0]\<rparr>\<rparr>"

definition faulty_append :: "SegmentSet \<Rightarrow> (LogError + (Position \<times> Position)) \<times> SegmentSet" where
  "faulty_append = set_append_batch crc_demo 0 [buf (demo_event 0x41 0x61)]"

lemma faulty_set_inv: "set_inv crc_demo faulty_set" "log_of faulty_set = []"
proof -
  have f: "faulty_set = demo_set\<lparr>active_writer := (active_writer demo_set)\<lparr>dirty := dirty (active_writer demo_set),
      faults := replicate 16 None @ [Some 0]\<rparr>, active := active demo_set, dir_names := dir_names demo_set\<rparr>"
    by (simp add: faulty_set_def)
  show "set_inv crc_demo faulty_set" unfolding f by (rule set_inv_dirty_faults(1) [OF demo_set_facts(1)])
  have "log_of faulty_set = log_of demo_set" unfolding f by (rule set_inv_dirty_faults(2) [OF demo_set_facts(1)])
  then show "log_of faulty_set = []" by (simp add: demo_set_facts(2))
qed

lemma faulty_run:
  obtains S1 e S2 S3 where "faulty_append faulty_set = (Inr (1, 1), S1)" and "faulty_append S1 = (Inl e, S2)"
    and "faulty_append S2 = (Inr (2, 2), S3)" and "sealed S2 = sealed S1 @ [active S1]" and "event_count (active S1) > 0"
    and "set_inv crc_demo S2" and "sealed S3 = sealed S2"
proof -
  define S1 where "S1 = snd (faulty_append faulty_set)"
  define S2 where "S2 = snd (faulty_append S1)"
  define S3 where "S3 = snd (faulty_append S2)"
  have "(let (r1, S1) = faulty_append faulty_set; (r2, S2) = faulty_append S1; (r3, S3) = faulty_append S2
      in (r1, isl r2, r3, sealed S1, event_count (active S1), length (sealed S2), length (sealed S3),
          cursor (active_writer S2), write_offset (active_writer S2), header_size (config S1))) =
      (Inr (1, 1), True, Inr (2, 2), [], 1, 1, 1, 64, 64, 64)"
    by code_simp
  then have c: "fst (faulty_append faulty_set) = Inr (1, 1)" "isl (fst (faulty_append S1))" "fst (faulty_append S2) = Inr (2, 2)"
    "sealed S1 = []" "event_count (active S1) = 1" "length (sealed S2) = 1" "length (sealed S3) = 1"
    "cursor (active_writer S2) = 64" "write_offset (active_writer S2) = 64" "header_size (config S1) = 64"
    by (simp_all add: Let_def case_prod_unfold S3_def S2_def S1_def)
  obtain e where run: "faulty_append faulty_set = (Inr (1, 1), S1)" "faulty_append S1 = (Inl e, S2)" "faulty_append S2 = (Inr (2, 2), S3)"
    using c(1-3) S1_def S2_def S3_def by (metis isl_def prod.collapse)
  have inv: "set_inv crc_demo S1" using append_batch_log(1) [OF faulty_set_inv(1)] run(1) by (auto simp: faulty_append_def)
  have inv2: "set_inv crc_demo S2"
    by (rule failed_rollover_inv [OF inv run(2) [unfolded faulty_append_def]]) (use c in auto)
  have "sealed S2 = sealed S1 @ [active S1]"
    using append_batch_shape [OF inv run(2) [unfolded faulty_append_def]] c(4,6) by auto
  moreover have "sealed S3 = sealed S2"
    using append_batch_shape [OF inv2 run(3) [unfolded faulty_append_def]] c(6,7) by auto
  ultimately show thesis using that [OF run] inv2 c(5) by simp
qed

lemma plain_decide: "decide es [] [plain_request t] = ([], [(plain_request t, length es + 1)])"
  by (simp add: verdict_def plain_request_def)

lemma plain_wf: "wf_Request (plain_request t)"
  using demo_events_wf by (simp add: wf_Request_def plain_request_def)

lemma plain_batch: "batch_of [(plain_request t, p)] = [buf (demo_event 0x41 0x61)]"
  by (simp add: batch_of_def plain_request_def)

lemma faulty_worker:
  assumes "faulty_append faulty_set = (Inr (1, 1), S1)"
  obtains w where "worker_ok crc_demo fst_demo w [demo_event 0x41 0x61]" and "wk_set w = S1"
proof -
  have "sealed faulty_set = []" "segment_capacity faulty_set = 64"
    by (simp_all add: faulty_set_def demo_set_eq segment_capacity_def SegmentConfig_new_def SEGMENT_HEADER_SIZE_def)
  then have "\<exists>w. WriteCoordinator_start crc_demo fst_demo 0 faulty_set demo_cfg no_index_files = Some (Inr w) \<and>
      worker_ok crc_demo fst_demo w [] \<and> wk_set w = faulty_set \<and> wk_cfg w = demo_cfg \<and> wk_pushback w = None \<and> \<not> wk_shutdown w"
    using faulty_set_inv by (intro start_ok) (simp_all add: fst_demo_ok files_honest_def sealed_segments_def demo_cfg_def)
  then obtain w where w: "worker_ok crc_demo fst_demo w []" "wk_set w = faulty_set" by blast
  have "set_append_batch crc_demo 0 (batch_of [(plain_request 0, 1)]) (wk_set w) = (Inr (1, 1), S1)"
    using assms by (simp add: plain_batch w(2) faulty_append_def)
  moreover have "decide [] [] [plain_request 0] = ([], [(plain_request 0, 1)])" using plain_decide [of "[]" 0] by simp
  moreover have "\<forall>req \<in> set [plain_request 0]. wf_Request req" using plain_wf by simp
  moreover have "length ([] :: Event list) + length (concat (map req_events [plain_request 0])) < U64_MAX" by (simp add: plain_request_def)
  ultimately have "\<exists>w'. wk_set w' = S1 \<and> drained_ok crc_demo fst_demo w [] (Inr (1, 1)) (accepted_events [(plain_request 0, 1)]) w'"
    using process_ok [OF w(1) _ _ fst_demo_ok _ demo_drain_hyps(3), of "[plain_request 0]" 0] by blast
  then show thesis using that by (auto simp: drained_ok_def plain_request_def)
qed

subsection \<open>Properties\<close>

text \<open>
  C32. Read-your-writes is lost after a rollover whose batch fails: when a batch rolls over and its append then fails,
  leaving the segments consistent, and a later batch goes into the new segment, every accepted request is told it is
  durable and the watermark covers its events, but the segments published to readers still hold only the log from
  before, so no read or subscription can return the acknowledged events.
\<close>
theorem failed_rollover_hides_writes:
  assumes "worker_ok crc F w es" and "\<forall>req \<in> set (reqs @ reqs'). wf_Request req"
    and "length es + length (concat (map req_events (reqs @ reqs'))) < U64_MAX"
    and "fst_ok F" and "now \<le> U64_MAX" and "sealable F (drop (active_base (wk_index w) - 1) es)"
    and "decide es [] reqs = (rej, acc)" and "set_append_batch crc now (batch_of acc) (wk_set w) = (Inl e, S2)"
    and "sealed S2 = sealed (wk_set w) @ [active (wk_set w)]" and "event_count (active (wk_set w)) > 0" and "set_inv crc S2"
    and "decide es [] reqs' = (rej', acc')" and "set_append_batch crc now (batch_of acc') S2 = (Inr rng, S3)"
    and "sealed S3 = sealed S2"
  shows "\<exists>w2 w3. process dbg crc F now reqs w = Some (w2, map reply_rejected rej @ outcome_replies (Inl e) acc) \<and>
     process dbg crc F now reqs' w2 = Some (w3, map reply_rejected rej' @ map reply_accepted acc') \<and>
     log_of (wk_set w3) = map buf (es @ accepted_events acc') \<and>
     rc_watermark (wk_core w3) = length (es @ accepted_events acc') \<and>
     src_log (snap_source (rc_segments (wk_core w3))) = map buf es"
proof -
  let ?S = "wk_set w" and ?ev = "\<lambda>rs. concat (map req_events rs)"
  have st: "store_ok crc F w es" and inv: "set_inv crc ?S" and log: "log_of ?S = map buf es"
    and cap: "rc_segments (wk_core w) = capture ?S (wk_index w)"
    using assms(1) by (auto simp: worker_ok_def store_ok_def log_holds_def)
  have wf: "\<forall>req \<in> set reqs. wf_Request req" "\<forall>req \<in> set reqs'. wf_Request req"
    and len: "length es + length (?ev reqs) < U64_MAX" "length es + length (?ev reqs') < U64_MAX"
    using assms(2,3) by auto
  have acc: "acc \<noteq> []" using assms(8,9) by (auto simp: batch_of_def set_append_batch_def)
  have acc': "acc' \<noteq> []" using assms(13) by (auto simp: batch_of_def set_append_batch_def)
  let ?w2 = "w\<lparr>wk_set := S2, wk_core := live S2 (wk_index w) (wk_core w)\<rparr>"
  have p2: "process dbg crc F now reqs w = Some (?w2, map reply_rejected rej @ outcome_replies (Inl e) acc)"
    by (rule process_staged [OF st wf(1) len(1) assms(7,8), of dbg]) (simp add: acc)
  have "log_of S2 = map buf es" using append_batch_log_failed(1) [OF inv assms(8)] log by simp
  then have st2: "store_ok crc F ?w2 es" using st assms(11) by (simp add: store_ok_def log_holds_def)
  obtain b where b: "batch_ok (length es) (accepted_events acc') b"
    "map (\<lambda>s. (st_reply s, st_token s, Inr (st_range s))) (bt_staged b) = map reply_accepted acc'"
    "process dbg crc F now reqs' ?w2 =
       map_option (\<lambda>(w, replies). (w, map reply_rejected rej' @ replies))
         (after_append dbg crc F now b (length (sealed S2)) rng (?w2\<lparr>wk_set := S3\<rparr>))"
    by (rule process_staged [OF st2 wf(2) len(2) assms(12), of now "Inr rng" S3 dbg]) (use assms(13) acc' in simp_all)
  obtain w3 ix' where w3: "after_append dbg crc F now b (length (sealed S2)) rng (?w2\<lparr>wk_set := S3\<rparr>) =
      Some (w3, map reply_accepted acc')" "wk_set w3 = S3" "log_of S3 = map buf (es @ accepted_events acc')"
    "wk_core w3 = publish_watermark (length (es @ accepted_events acc')) (live S3 ix' (wk_core ?w2))"
    using after_append_same_segment [OF st2, of now "accepted_events acc'" rng S3 b dbg] assms(13,14) b(1,2)
      accepted_wf(1) [OF assms(12) wf(2)] by (auto simp: batch_of_def)
  have "seg_base (active ?S) \<noteq> next_position ?S" using inv assms(10) by (simp add: set_inv_def contiguous_append)
  moreover have "seg_base (active S2) = next_position ?S"
    using append_batch_shape [OF inv assms(8)] assms(9) by simp
  moreover have "seg_base (active S3) = seg_base (active S2)"
    using append_batch_shape [OF assms(11,13)] assms(14) by simp
  ultimately have "live_segment S2 (active ?S) = active ?S" "live_segment S3 (active ?S) = active ?S"
    using live_segment_sealed [of S2 "sealed ?S" "active ?S"] live_segment_sealed [of S3 "sealed ?S" "active ?S"] assms(9,14) by auto
  then have "src_log (snap_source (rc_segments (wk_core w3))) = log_of ?S"
    by (simp add: w3(4) publish_watermark_def live_def Let_def cap capture_def snap_source_def src_log_def log_of_def)
  then show ?thesis
    using p2 b(3) w3 log by (intro exI [of _ ?w2] exI [of _ w3]) (simp add: publish_watermark_def)
qed

theorem failed_rollover_hides_writes_witness:
  "\<exists>w w2 w3 err. process True crc_demo fst_demo 0 [plain_request 1] w = Some (w2, [(7, 1, Inl err)]) \<and>
     process True crc_demo fst_demo 0 [plain_request 2] w2 = Some (w3, [(7, 2, Inr (2, 2))]) \<and>
     length (log_of (wk_set w3)) = 2 \<and> rc_watermark (wk_core w3) = 2 \<and>
     length (src_log (snap_source (rc_segments (wk_core w3)))) = 1"
proof (rule faulty_run)
  fix S1 S2 S3 e
  let ?es = "[demo_event 0x41 0x61]"
  assume r: "faulty_append faulty_set = (Inr (1, 1), S1)" "faulty_append S1 = (Inl e, S2)" "faulty_append S2 = (Inr (2, 2), S3)"
    "sealed S2 = sealed S1 @ [active S1]" "event_count (active S1) > 0" "set_inv crc_demo S2" "sealed S3 = sealed S2"
  obtain w where w: "worker_ok crc_demo fst_demo w ?es" "wk_set w = S1" by (rule faulty_worker [OF r(1)])
  have d: "decide ?es [] [plain_request t] = ([], [(plain_request t, 2)])" for t using plain_decide [of ?es t] by simp
  have run: "set_append_batch crc_demo 0 (batch_of [(plain_request 1, 2)]) (wk_set w) = (Inl e, S2)"
    "set_append_batch crc_demo 0 (batch_of [(plain_request 2, 2)]) S2 = (Inr (2, 2), S3)"
    using r(2,3) w(2) by (simp_all add: plain_batch faulty_append_def)
  have wf: "\<forall>req \<in> set ([plain_request 1] @ [plain_request 2]). wf_Request req" using plain_wf by simp
  have len: "length ?es + length (concat (map req_events ([plain_request 1] @ [plain_request 2]))) < U64_MAX"
    by (simp add: plain_request_def)
  have seal: "sealable fst_demo (drop (active_base (wk_index w) - 1) ?es)"
    using demo_sealable suffix_imp_subseq suffix_drop by blast
  have "sealed S2 = sealed (wk_set w) @ [active (wk_set w)]" "event_count (active (wk_set w)) > 0" using r(4,5) w(2) by simp_all
  from failed_rollover_hides_writes [OF w(1) wf len fst_demo_ok _ seal d run(1) this r(6) d run(2) r(7), of True]
  obtain w2 w3 where p: "process True crc_demo fst_demo 0 [plain_request 1] w =
      Some (w2, map reply_rejected [] @ outcome_replies (Inl e) [(plain_request 1, 2)])"
    "process True crc_demo fst_demo 0 [plain_request 2] w2 = Some (w3, map reply_rejected [] @ map reply_accepted [(plain_request 2, 2)])"
    "log_of (wk_set w3) = map buf (?es @ accepted_events [(plain_request 2, 2)])"
    "rc_watermark (wk_core w3) = length (?es @ accepted_events [(plain_request 2, 2)])"
    "src_log (snap_source (rc_segments (wk_core w3))) = map buf ?es"
    by auto
  then show ?thesis
    by (intro exI [of _ w] exI [of _ w2] exI [of _ w3] exI [of _ "classify e"])
      (simp add: outcome_replies_def reply_rejected_def reply_accepted_def plain_request_def)
qed

end
