(* ===== verification/WireFrame.thy ===== *)
theory WireFrame
  imports Prelude
begin

text \<open>
  Length-prefixed framing of the wire protocol (\<open>crates/tephra-proto/src/framing.rs\<close>): a 4-byte big-endian length
  and that many bytes of a serialized message, written by \<open>write_frame\<close>, read by the resumable \<open>FrameReader\<close>, its
  blocking convenience \<open>read_frame\<close> and the asynchronous twins.

  The message codec is the protobuf runtime: \<open>serialize\<close> and \<open>parse\<close> are parameters, \<open>None\<close> their opaque errors. A
  reader is a script of what its \<open>read\<close> calls meet: bytes that arrive together, or an error; past the end of the
  script it reports end of file. The capacity kept by a body buffer across frames is not observable and left out.
\<close>

subsection \<open>Readers\<close>

datatype IoKind = IoInterrupted | IoWouldBlock | IoTimedOut | IoUnexpectedEof | IoOther nat

datatype SockEvent = Arrives bytes | Fails IoKind

text \<open>One \<open>read\<close> into \<open>n\<close> bytes of space.\<close>
fun sock_read :: "nat \<Rightarrow> SockEvent list \<Rightarrow> (IoKind + bytes) \<times> SockEvent list" where
  "sock_read n [] = (Inr [], [])"
| "sock_read n (Fails k # s) = (Inl k, s)"
| "sock_read n (Arrives b # s) =
     (if b = [] then sock_read n s
      else (Inr (take n b), if length b \<le> n then s else Arrives (drop n b) # s))"

fun sock_size :: "SockEvent list \<Rightarrow> nat" where
  "sock_size [] = 0"
| "sock_size (Fails k # s) = 1 + sock_size s"
| "sock_size (Arrives b # s) = 1 + length b + sock_size s"

definition be_bytes :: "nat \<Rightarrow> nat \<Rightarrow> bytes" where "be_bytes k n = rev (le_bytes k n)"

definition of_be :: "bytes \<Rightarrow> nat" where "of_be bs = of_le (rev bs)"

subsection \<open>Writing\<close>

definition DEFAULT_MAX_FRAME_LEN :: nat where "DEFAULT_MAX_FRAME_LEN = 16 * 1024 * 1024"

datatype FrameError =
    FrameIo IoKind
  | FrameParse
  | FrameSerialize
  | FrameTooLarge nat nat

text \<open>\<open>write_frame\<close>: the bytes added to the writer. The writer's own failures are not part of it.\<close>
definition write_frame :: "('m \<Rightarrow> bytes option) \<Rightarrow> 'm \<Rightarrow> nat \<Rightarrow> FrameError + bytes" where
  "write_frame serialize msg max_frame_len =
     (case serialize msg of
        None \<Rightarrow> Inl FrameSerialize
      | Some bd \<Rightarrow>
          if length bd > max_frame_len then Inl (FrameTooLarge (min (length bd) U32_MAX) max_frame_len)
          else Inr (be_bytes 4 (length bd) @ bd))"

subsection \<open>The resumable reader\<close>

record FrameReader =
  fr_len_buf :: bytes
  fr_len_filled :: nat
  fr_body :: bytes
  fr_body_filled :: nat

definition FrameReader_new :: FrameReader where
  "FrameReader_new = \<lparr>fr_len_buf = replicate 4 0, fr_len_filled = 0, fr_body = [], fr_body_filled = 0\<rparr>"

datatype ReadStep = StepProgress | StepWouldBlock | StepEof

datatype 'm FramePoll = PollFrame 'm | PollEof | PollProgress | PollWouldBlock bool

lemma sock_read_size:
  assumes "sock_read n s = (res, s')" and "res \<noteq> Inr []"
  shows "sock_size s' < sock_size s"
  using assms by (induction n s rule: sock_read.induct) (auto split: if_splits)

function read_once :: "bytes \<Rightarrow> nat \<Rightarrow> SockEvent list \<Rightarrow> (FrameError + ReadStep) \<times> bytes \<times> nat \<times> SockEvent list" where
  "read_once b filled s =
     (case sock_read (length b - filled) s of
        (Inr bs, s) \<Rightarrow>
          if bs = [] then (Inr StepEof, b, filled, s)
          else (Inr StepProgress, overwrite filled bs b, filled + length bs, s)
      | (Inl k, s) \<Rightarrow>
          if k = IoInterrupted then read_once b filled s
          else if k = IoWouldBlock \<or> k = IoTimedOut then (Inr StepWouldBlock, b, filled, s)
          else (Inl (FrameIo k), b, filled, s))"
  by pat_completeness auto
termination
  by (relation "measure (\<lambda>(b, filled, s). sock_size s)") (auto dest: sock_read_size [OF sym])

declare read_once.simps [simp del]

text \<open>\<open>finish\<close>: a body that does not parse leaves the reader as it is.\<close>
definition finish :: "(bytes \<Rightarrow> 'm option) \<Rightarrow> FrameReader \<Rightarrow> (FrameError + 'm FramePoll) \<times> FrameReader" where
  "finish parse r =
     (case parse (fr_body r) of
        None \<Rightarrow> (Inl FrameParse, r)
      | Some msg \<Rightarrow> (Inr (PollFrame msg), r\<lparr>fr_len_filled := 0, fr_body := [], fr_body_filled := 0\<rparr>))"

definition torn :: FrameError where "torn = FrameIo IoUnexpectedEof"

definition poll_prefix ::
  "(bytes \<Rightarrow> 'm option) \<Rightarrow> nat \<Rightarrow> FrameReader \<Rightarrow> SockEvent list \<Rightarrow> (FrameError + 'm FramePoll) \<times> FrameReader \<times> SockEvent list" where
  "poll_prefix parse max_frame_len r s =
     (case read_once (fr_len_buf r) (fr_len_filled r) s of
        (res, lb, lf, s) \<Rightarrow>
          let r = r\<lparr>fr_len_buf := lb, fr_len_filled := lf\<rparr>
          in case res of
               Inl err \<Rightarrow> (Inl err, r, s)
             | Inr StepEof \<Rightarrow> (if lf = 0 then Inr PollEof else Inl torn, r, s)
             | Inr StepWouldBlock \<Rightarrow> (Inr (PollWouldBlock (lf > 0)), r, s)
             | Inr StepProgress \<Rightarrow>
                 if lf < 4 then (Inr PollProgress, r, s)
                 else
                   let len = of_be lb
                   in if len > max_frame_len then (Inl (FrameTooLarge len max_frame_len), r, s)
                      else
                        let r = r\<lparr>fr_body := replicate len 0, fr_body_filled := 0\<rparr>
                        in if len = 0 then (case finish parse r of (res, r) \<Rightarrow> (res, r, s)) else (Inr PollProgress, r, s))"

definition poll_body ::
  "(bytes \<Rightarrow> 'm option) \<Rightarrow> FrameReader \<Rightarrow> SockEvent list \<Rightarrow> (FrameError + 'm FramePoll) \<times> FrameReader \<times> SockEvent list" where
  "poll_body parse r s =
     (case read_once (fr_body r) (fr_body_filled r) s of
        (res, bd, bf, s) \<Rightarrow>
          let r = r\<lparr>fr_body := bd, fr_body_filled := bf\<rparr>
          in case res of
               Inl err \<Rightarrow> (Inl err, r, s)
             | Inr StepEof \<Rightarrow> (Inl torn, r, s)
             | Inr StepWouldBlock \<Rightarrow> (Inr (PollWouldBlock True), r, s)
             | Inr StepProgress \<Rightarrow>
                 if bf < length bd then (Inr PollProgress, r, s)
                 else (case finish parse r of (res, r) \<Rightarrow> (res, r, s)))"

definition frame_poll ::
  "(bytes \<Rightarrow> 'm option) \<Rightarrow> nat \<Rightarrow> FrameReader \<Rightarrow> SockEvent list \<Rightarrow> (FrameError + 'm FramePoll) \<times> FrameReader \<times> SockEvent list" where
  "frame_poll parse max_frame_len r s =
     (if fr_len_filled r < 4 then poll_prefix parse max_frame_len r s else poll_body parse r s)"

lemma read_once_size:
  "\<lbrakk>read_once b filled s = (res, b', filled', s'); res \<noteq> Inr StepEof\<rbrakk> \<Longrightarrow> sock_size s' < sock_size s"
proof (induction b filled s rule: read_once.induct)
  case (1 b filled s)
  obtain o1 s1 where o1: "sock_read (length b - filled) s = (o1, s1)" by fastforce
  show ?case
  proof (cases "o1 = Inl IoInterrupted")
    case True
    then show ?thesis
      using 1 o1 sock_read_size [OF o1] by (subst (asm) (2) read_once.simps) fastforce
  next
    case False
    then show ?thesis
      using "1.prems" o1 sock_read_size [OF o1]
      by (subst (asm) read_once.simps) (auto split: sum.splits if_splits)
  qed
qed

lemma frame_poll_size:
  assumes "frame_poll parse mx r s = (Inr p, r', s')" and "p \<noteq> PollEof"
  shows "sock_size s' < sock_size s"
  using assms
  by (auto simp: frame_poll_def poll_prefix_def poll_body_def Let_def
      split: if_splits prod.splits sum.splits ReadStep.splits dest!: read_once_size)

subsection \<open>The blocking and the asynchronous readers\<close>

text \<open>The loop of \<open>read_frame\<close>, which starts from a fresh reader and drops it at the end.\<close>
function read_frame_loop ::
  "(bytes \<Rightarrow> 'm option) \<Rightarrow> nat \<Rightarrow> FrameReader \<Rightarrow> SockEvent list \<Rightarrow> (FrameError + 'm option) \<times> SockEvent list" where
  "read_frame_loop parse max_frame_len r s =
     (case frame_poll parse max_frame_len r s of
        (Inl err, r, s) \<Rightarrow> (Inl err, s)
      | (Inr (PollFrame msg), r, s) \<Rightarrow> (Inr (Some msg), s)
      | (Inr PollEof, r, s) \<Rightarrow> (Inr None, s)
      | (Inr PollProgress, r, s) \<Rightarrow> read_frame_loop parse max_frame_len r s
      | (Inr (PollWouldBlock _), r, s) \<Rightarrow> (Inl (FrameIo IoWouldBlock), s))"
  by pat_completeness auto
termination
  by (relation "measure (\<lambda>(parse, mx, r, s). sock_size s)") (auto dest: frame_poll_size [OF sym])

declare read_frame_loop.simps [simp del]

definition read_frame :: "(bytes \<Rightarrow> 'm option) \<Rightarrow> nat \<Rightarrow> SockEvent list \<Rightarrow> (FrameError + 'm option) \<times> SockEvent list" where
  "read_frame parse max_frame_len s = read_frame_loop parse max_frame_len FrameReader_new s"

definition write_frame_async :: "('m \<Rightarrow> bytes option) \<Rightarrow> 'm \<Rightarrow> nat \<Rightarrow> FrameError + bytes" where
  "write_frame_async serialize msg max_frame_len =
     (case serialize msg of
        None \<Rightarrow> Inl FrameSerialize
      | Some bd \<Rightarrow>
          if length bd > max_frame_len then Inl (FrameTooLarge (min (length bd) U32_MAX) max_frame_len)
          else Inr (be_bytes 4 (length bd) @ bd))"

text \<open>\<open>read_full_or_eof_async\<close>: \<open>Inr False\<close> is a clean end before the first byte.\<close>
function read_full_or_eof_async ::
  "bytes \<Rightarrow> nat \<Rightarrow> SockEvent list \<Rightarrow> (IoKind + bool) \<times> bytes \<times> SockEvent list" where
  "read_full_or_eof_async b filled s =
     (if filled < length b then
        (case sock_read (length b - filled) s of
           (Inl k, s) \<Rightarrow> (Inl k, b, s)
         | (Inr bs, s) \<Rightarrow>
             if bs = [] then (if filled = 0 then Inr False else Inl IoUnexpectedEof, b, s)
             else read_full_or_eof_async (overwrite filled bs b) (filled + length bs) s)
      else (Inr True, b, s))"
  by pat_completeness auto
termination
  by (relation "measure (\<lambda>(b, filled, s). sock_size s)") (auto dest: sock_read_size [OF sym])

function read_exact_async :: "bytes \<Rightarrow> nat \<Rightarrow> SockEvent list \<Rightarrow> (IoKind + unit) \<times> bytes \<times> SockEvent list" where
  "read_exact_async b filled s =
     (if filled < length b then
        (case sock_read (length b - filled) s of
           (Inl k, s) \<Rightarrow> (Inl k, b, s)
         | (Inr bs, s) \<Rightarrow>
             if bs = [] then (Inl IoUnexpectedEof, b, s)
             else read_exact_async (overwrite filled bs b) (filled + length bs) s)
      else (Inr (), b, s))"
  by pat_completeness auto
termination
  by (relation "measure (\<lambda>(b, filled, s). sock_size s)") (auto dest: sock_read_size [OF sym])

declare read_full_or_eof_async.simps [simp del] read_exact_async.simps [simp del]

definition read_frame_async ::
  "(bytes \<Rightarrow> 'm option) \<Rightarrow> nat \<Rightarrow> SockEvent list \<Rightarrow> (FrameError + 'm option) \<times> SockEvent list" where
  "read_frame_async parse max_frame_len s =
     (case read_full_or_eof_async (replicate 4 0) 0 s of
        (Inl k, _, s) \<Rightarrow> (Inl (FrameIo k), s)
      | (Inr False, _, s) \<Rightarrow> (Inr None, s)
      | (Inr True, lb, s) \<Rightarrow>
          let len = of_be lb
          in if len > max_frame_len then (Inl (FrameTooLarge len max_frame_len), s)
             else case read_exact_async (replicate len 0) 0 s of
               (Inl k, _, s) \<Rightarrow> (Inl (FrameIo k), s)
             | (Inr _, bd, s) \<Rightarrow> (case parse bd of None \<Rightarrow> Inl FrameParse | Some msg \<Rightarrow> Inr (Some msg), s))"

subsection \<open>What a reader should deliver\<close>

text \<open>The errors that only delay a reader; any other one ends the stream.\<close>
definition soft :: "IoKind \<Rightarrow> bool" where
  "soft k \<longleftrightarrow> k = IoInterrupted \<or> k = IoWouldBlock \<or> k = IoTimedOut"

fun sock_data :: "SockEvent list \<Rightarrow> bytes" where
  "sock_data [] = []"
| "sock_data (Arrives b # s) = b @ sock_data s"
| "sock_data (Fails k # s) = (if soft k then sock_data s else [])"

text \<open>How the stream ends: \<open>None\<close> is end of file.\<close>
fun sock_end :: "SockEvent list \<Rightarrow> IoKind option" where
  "sock_end [] = None"
| "sock_end (Arrives b # s) = sock_end s"
| "sock_end (Fails k # s) = (if soft k then sock_end s else Some k)"

text \<open>The reference reader: the messages of a byte string and why it stops, \<open>None\<close> after the last whole frame.\<close>
function frames_of ::
  "(bytes \<Rightarrow> 'm option) \<Rightarrow> nat \<Rightarrow> IoKind option \<Rightarrow> bytes \<Rightarrow> 'm list \<times> FrameError option" where
  "frames_of parse mx e bs =
     (if bs = [] \<and> e = None then ([], None)
      else if length bs < 4 then ([], Some (FrameIo (case e of None \<Rightarrow> IoUnexpectedEof | Some k \<Rightarrow> k)))
      else
        let n = of_be (take 4 bs)
        in if n > mx then ([], Some (FrameTooLarge n mx))
           else if length bs < 4 + n then ([], Some (FrameIo (case e of None \<Rightarrow> IoUnexpectedEof | Some k \<Rightarrow> k)))
           else case parse (bslice 4 (4 + n) bs) of
             None \<Rightarrow> ([], Some FrameParse)
           | Some msg \<Rightarrow> (case frames_of parse mx e (drop (4 + n) bs) of (ms, res) \<Rightarrow> (msg # ms, res)))"
  by pat_completeness auto
termination by (relation "measure (\<lambda>(parse, mx, e, bs). length bs)") auto

declare frames_of.simps [simp del]

text \<open>A caller that polls until the stream ends or fails, as the connection reader does.\<close>
function poll_all ::
  "(bytes \<Rightarrow> 'm option) \<Rightarrow> nat \<Rightarrow> FrameReader \<Rightarrow> SockEvent list \<Rightarrow> 'm list \<times> FrameError option" where
  "poll_all parse mx r s =
     (case frame_poll parse mx r s of
        (Inl err, _) \<Rightarrow> ([], Some err)
      | (Inr PollEof, _) \<Rightarrow> ([], None)
      | (Inr (PollFrame msg), r, s) \<Rightarrow> (case poll_all parse mx r s of (ms, res) \<Rightarrow> (msg # ms, res))
      | (Inr PollProgress, r, s) \<Rightarrow> poll_all parse mx r s
      | (Inr (PollWouldBlock _), r, s) \<Rightarrow> poll_all parse mx r s)"
  by pat_completeness auto
termination
  by (relation "measure (\<lambda>(parse, mx, r, s). sock_size s)") (auto dest: frame_poll_size [OF sym])

declare poll_all.simps [simp del]

text \<open>The reader's invariant, and the bytes it holds of the frame in flight.\<close>
definition reader_ok :: "nat \<Rightarrow> FrameReader \<Rightarrow> bool" where
  "reader_ok mx r \<longleftrightarrow>
     length (fr_len_buf r) = 4 \<and> fr_len_filled r \<le> 4 \<and>
     (fr_len_filled r = 4 \<longrightarrow>
        of_be (fr_len_buf r) \<le> mx \<and> length (fr_body r) = of_be (fr_len_buf r) \<and> fr_body_filled r < length (fr_body r))"

definition held :: "FrameReader \<Rightarrow> bytes" where
  "held r = take (fr_len_filled r) (fr_len_buf r) @ (if fr_len_filled r = 4 then take (fr_body_filled r) (fr_body r) else [])"

lemma reader_ok_new [simp]: "reader_ok mx FrameReader_new" and held_new [simp]: "held FrameReader_new = []"
  by (simp_all add: reader_ok_def held_def FrameReader_new_def)

subsection \<open>One read\<close>

lemma of_be_bytes [simp]: "n < 256 ^ k \<Longrightarrow> of_be (be_bytes k n) = n"
  by (simp add: of_be_def be_bytes_def)

lemma length_be_bytes [simp]: "length (be_bytes k n) = k"
  by (simp add: be_bytes_def)

lemma sock_read_data:
  assumes "sock_read n s = (res, s')" and "0 < n"
  shows "case res of
      Inr bs \<Rightarrow> length bs \<le> n \<and> sock_data s = bs @ sock_data s' \<and> sock_end s' = sock_end s \<and>
        (bs = [] \<longrightarrow> sock_data s = [] \<and> sock_end s = None)
    | Inl k \<Rightarrow> if soft k then sock_data s = sock_data s' \<and> sock_end s' = sock_end s
        else sock_data s = [] \<and> sock_end s = Some k"
  using assms by (induction n s rule: sock_read.induct) (auto split: if_splits sum.splits)

text \<open>What \<open>read_once\<close> does to a buffer of which \<open>filled\<close> bytes are read.\<close>
definition filled_more ::
  "bytes \<Rightarrow> nat \<Rightarrow> SockEvent list \<Rightarrow> FrameError + ReadStep \<Rightarrow> bytes \<Rightarrow> nat \<Rightarrow> SockEvent list \<Rightarrow> bool" where
  "filled_more b filled s res b' filled' s' \<longleftrightarrow>
     length b' = length b \<and>
     (case res of
        Inr StepProgress \<Rightarrow> filled < filled' \<and> filled' \<le> length b \<and> sock_end s' = sock_end s \<and>
          take filled b @ sock_data s = take filled' b' @ sock_data s'
      | Inr StepWouldBlock \<Rightarrow> filled' = filled \<and> b' = b \<and> sock_data s' = sock_data s \<and> sock_end s' = sock_end s
      | Inr StepEof \<Rightarrow> filled' = filled \<and> b' = b \<and> sock_data s = [] \<and> sock_end s = None
      | Inl err \<Rightarrow> (\<exists>k. err = FrameIo k \<and> sock_data s = [] \<and> sock_end s = Some k))"

lemma filled_more_skip:
  "\<lbrakk>sock_data s = sock_data s1; sock_end s1 = sock_end s; filled_more b filled s1 res b' filled' s'\<rbrakk> \<Longrightarrow>
   filled_more b filled s res b' filled' s'"
  by (auto simp: filled_more_def split: sum.splits ReadStep.splits)

lemma read_once_data:
  "\<lbrakk>read_once b filled s = (res, b', filled', s'); filled < length b\<rbrakk> \<Longrightarrow> filled_more b filled s res b' filled' s'"
proof (induction b filled s rule: read_once.induct)
  case (1 b filled s)
  obtain o1 s1 where o1: "sock_read (length b - filled) s = (o1, s1)" by fastforce
  note step = sock_read_data [OF o1]
  note unfolded = read_once.simps [of b filled s]
  show ?case
  proof (cases o1)
    case (Inl k)
    show ?thesis
    proof (cases "k = IoInterrupted")
      case True
      then have "read_once b filled s1 = (res, b', filled', s')" using "1.prems" Inl o1 unfolded by simp
      then show ?thesis using "1.IH" [OF o1 [symmetric] Inl True] "1.prems" step True Inl
        by (auto simp: soft_def intro: filled_more_skip)
    next
      case False
      then show ?thesis using "1.prems" step Inl o1 unfolded
        by (auto simp: soft_def filled_more_def split: if_splits)
    qed
  next
    case (Inr bs)
    then show ?thesis
      using "1.prems" step o1 unfolded
      by (auto simp: filled_more_def take_overwrite_end split: if_splits)
  qed
qed

subsection \<open>One poll\<close>

definition framed :: "bytes \<Rightarrow> bytes" where "framed bd = be_bytes 4 (length bd) @ bd"

lemma be_bytes_of_be: "length bs = k \<Longrightarrow> be_bytes k (of_be bs) = bs"
  by (simp add: be_bytes_def of_be_def le_bytes_of_le)

lemma of_be_less: "length bs = 4 \<Longrightarrow> of_be bs \<le> U32_MAX"
  using of_le_less_len [of "rev bs" 4] by (simp add: of_be_def)

lemma frames_of_framed:
  assumes "length bd \<le> mx" and "length bd \<le> U32_MAX"
  shows "frames_of parse mx e (framed bd @ rest) =
     (case parse bd of
        None \<Rightarrow> ([], Some FrameParse)
      | Some msg \<Rightarrow> (case frames_of parse mx e rest of (ms, res) \<Rightarrow> (msg # ms, res)))"
proof -
  have len: "of_be (be_bytes 4 (length bd)) = length bd" using assms by simp
  have rest: "drop (4 + length bd) (framed bd @ rest) = rest" "take 4 (framed bd @ rest) = be_bytes 4 (length bd)"
    "bslice 4 (4 + length bd) (framed bd @ rest) = bd" "framed bd @ rest \<noteq> []"
    "length (framed bd @ rest) = 4 + length bd + length rest"
    by (simp_all add: framed_def bslice_def flip: length_0_conv)
  show ?thesis
    by (subst frames_of.simps) (use assms rest len in \<open>simp del: append_is_Nil_conv length_append drop_append take_append split: option.split\<close>)
qed

lemma frames_of_short:
  assumes "length bs < 4 \<or> (of_be (take 4 bs) \<le> mx \<and> length bs < 4 + of_be (take 4 bs))" and "bs \<noteq> [] \<or> e \<noteq> None"
  shows "frames_of parse mx e bs = ([], Some (FrameIo (case e of None \<Rightarrow> IoUnexpectedEof | Some k \<Rightarrow> k)))"
  using assms by (subst frames_of.simps) (auto simp: Let_def)

lemma frames_of_too_large:
  "\<lbrakk>4 \<le> length bs; of_be (take 4 bs) > mx\<rbrakk> \<Longrightarrow>
   frames_of parse mx e bs = ([], Some (FrameTooLarge (of_be (take 4 bs)) mx))"
  by (subst frames_of.simps) (auto simp: Let_def)

text \<open>What one poll tells about the stream that remains.\<close>
definition poll_tells ::
  "(bytes \<Rightarrow> 'm option) \<Rightarrow> nat \<Rightarrow> FrameReader \<Rightarrow> SockEvent list \<Rightarrow> FrameError + 'm FramePoll \<Rightarrow> FrameReader \<Rightarrow> SockEvent list \<Rightarrow> bool" where
  "poll_tells parse mx r s res r' s' \<longleftrightarrow>
     (case res of
        Inl err \<Rightarrow> frames_of parse mx (sock_end s) (held r @ sock_data s) = ([], Some err)
      | Inr PollEof \<Rightarrow> held r = [] \<and> sock_data s = [] \<and> sock_end s = None
      | Inr (PollFrame msg) \<Rightarrow>
          reader_ok mx r' \<and> held r' = [] \<and> sock_end s' = sock_end s \<and>
          (\<exists>bd. held r @ sock_data s = framed bd @ sock_data s' \<and> length bd \<le> mx \<and> length bd \<le> U32_MAX \<and>
                parse bd = Some msg)
      | Inr _ \<Rightarrow> reader_ok mx r' \<and> sock_end s' = sock_end s \<and> held r' @ sock_data s' = held r @ sock_data s)"

lemma finish_tells:
  assumes "finish parse r' = (res, r'')" and "reader_ok mx r"
    and whole: "held r @ sock_data s = framed (fr_body r') @ sock_data s'"
    and len: "length (fr_body r') \<le> mx" "length (fr_body r') \<le> U32_MAX"
    and buf: "length (fr_len_buf r') = 4" and same: "sock_end s' = sock_end s"
  shows "poll_tells parse mx r s res r'' s'"
  using assms frames_of_framed [OF len, of parse "sock_end s" "sock_data s'"]
  by (auto simp: finish_def poll_tells_def reader_ok_def held_def split: option.splits)

lemma poll_body_tells:
  assumes "poll_body parse r s = (res, r', s')" and ok: "reader_ok mx r" and full: "fr_len_filled r = 4"
  shows "poll_tells parse mx r s res r' s'"
proof -
  obtain st bd bf s1 where once: "read_once (fr_body r) (fr_body_filled r) s = (st, bd, bf, s1)" by (metis prod_cases4)
  have lens: "length (fr_len_buf r) = 4" "of_be (fr_len_buf r) \<le> mx" "length (fr_body r) = of_be (fr_len_buf r)"
    "fr_body_filled r < length (fr_body r)"
    using ok full by (auto simp: reader_ok_def)
  note m = read_once_data [OF once lens(4), unfolded filled_more_def]
  have held: "held r = fr_len_buf r @ take (fr_body_filled r) (fr_body r)" using full lens by (simp add: held_def)
  have u32: "length (fr_body r) \<le> U32_MAX" using lens of_be_less by simp
  have short: "frames_of parse mx (sock_end s) (held r) =
      ([], Some (FrameIo (case sock_end s of None \<Rightarrow> IoUnexpectedEof | Some k \<Rightarrow> k)))"
    by (rule frames_of_short) (use lens held in auto)
  show ?thesis
  proof (cases st)
    case (Inl err)
    then show ?thesis using assms(1) once m short by (auto simp: poll_body_def poll_tells_def)
  next
    case (Inr step)
    show ?thesis
    proof (cases step)
      case StepEof
      then show ?thesis using assms(1) once m short Inr by (auto simp: poll_body_def poll_tells_def torn_def)
    next
      case StepWouldBlock
      then show ?thesis using assms(1) once m ok Inr
        by (auto simp: poll_body_def poll_tells_def reader_ok_def held_def)
    next
      case StepProgress
      note m' = m [unfolded Inr StepProgress, simplified]
      show ?thesis
      proof (cases "bf < length bd")
        case True
        then show ?thesis using assms(1) once m' ok Inr StepProgress held lens full
          by (auto simp: poll_body_def poll_tells_def reader_ok_def held_def)
      next
        case False
        define r1 where "r1 = r\<lparr>fr_body := bd, fr_body_filled := bf\<rparr>"
        obtain r2 where fin: "finish parse r1 = (res, r2)" "r' = r2" "s' = s1"
          using assms(1) once False Inr StepProgress by (auto simp: poll_body_def r1_def split: prod.splits)
        have "framed bd = fr_len_buf r @ bd"
          using be_bytes_of_be [of "fr_len_buf r" 4] m' lens by (simp add: framed_def)
        then have "held r @ sock_data s = framed bd @ sock_data s1" using m' held False by simp
        then show ?thesis
          using finish_tells [OF fin(1) ok, of s s1] m' lens u32 fin(2,3) by (simp add: r1_def)
      qed
    qed
  qed
qed

lemma poll_prefix_tells:
  assumes "poll_prefix parse mx r s = (res, r', s')" and ok: "reader_ok mx r" and part: "fr_len_filled r < 4"
  shows "poll_tells parse mx r s res r' s'"
proof -
  obtain st lb lf s1 where once: "read_once (fr_len_buf r) (fr_len_filled r) s = (st, lb, lf, s1)" by (metis prod_cases4)
  have len: "length (fr_len_buf r) = 4" using ok by (simp add: reader_ok_def)
  then have space: "fr_len_filled r < length (fr_len_buf r)" and some: "fr_len_buf r \<noteq> []" using part by auto
  note m = read_once_data [OF once space, unfolded filled_more_def]
  have held: "held r = take (fr_len_filled r) (fr_len_buf r)" using part by (simp add: held_def)
  have short: "frames_of parse mx (sock_end s) (held r) =
      ([], Some (FrameIo (case sock_end s of None \<Rightarrow> IoUnexpectedEof | Some k \<Rightarrow> k)))" if "held r \<noteq> [] \<or> sock_end s \<noteq> None"
    by (rule frames_of_short) (use held part len that in auto)
  show ?thesis
  proof (cases st)
    case (Inl err)
    then show ?thesis using assms(1) once m short by (auto simp: poll_prefix_def poll_tells_def)
  next
    case (Inr step)
    show ?thesis
    proof (cases step)
      case StepEof
      then show ?thesis using assms(1) once m short Inr held some
        by (auto simp: poll_prefix_def poll_tells_def torn_def)
    next
      case StepWouldBlock
      then show ?thesis using assms(1) once m ok Inr
        by (auto simp: poll_prefix_def poll_tells_def reader_ok_def held_def)
    next
      case StepProgress
      note m' = m [unfolded Inr StepProgress, simplified]
      have data: "held r @ sock_data s = take lf lb @ sock_data s1" using m' held by simp
      consider "lf < 4" | "lf = 4" "of_be lb > mx" | "lf = 4" "of_be lb \<le> mx" "of_be lb = 0"
        | "lf = 4" "of_be lb \<le> mx" "of_be lb \<noteq> 0" using m' len by linarith
      then show ?thesis
      proof cases
        case 1
        then show ?thesis using assms(1) once m' len data Inr StepProgress
          by (auto simp: poll_prefix_def poll_tells_def reader_ok_def held_def)
      next
        case 2
        then show ?thesis using assms(1) once m' len data Inr StepProgress
            frames_of_too_large [of "lb @ sock_data s1" mx parse "sock_end s"]
          by (auto simp: poll_prefix_def poll_tells_def)
      next
        case 3
        define r1 where "r1 = r\<lparr>fr_len_buf := lb, fr_len_filled := lf, fr_body := [], fr_body_filled := 0\<rparr>"
        obtain r2 where fin: "finish parse r1 = (res, r2)" "r' = r2" "s' = s1"
          using assms(1) once 3 Inr StepProgress by (auto simp: poll_prefix_def r1_def Let_def split: prod.splits)
        have "framed [] = lb" using be_bytes_of_be [of lb 4] m' len 3 by (simp add: framed_def)
        then show ?thesis
          using finish_tells [OF fin(1) ok, of s s1] m' len fin(2,3) data 3 by (simp add: r1_def)
      next
        case 4
        then show ?thesis using assms(1) once m' len data Inr StepProgress
          by (auto simp: poll_prefix_def poll_tells_def reader_ok_def held_def Let_def)
      qed
    qed
  qed
qed

lemma frame_poll_tells:
  assumes "frame_poll parse mx r s = (res, r', s')" and "reader_ok mx r"
  shows "poll_tells parse mx r s res r' s'"
proof (cases "fr_len_filled r < 4")
  case True
  then show ?thesis using assms poll_prefix_tells by (auto simp: frame_poll_def)
next
  case False
  then have "fr_len_filled r = 4" using assms(2) by (simp add: reader_ok_def)
  then show ?thesis using assms poll_body_tells by (auto simp: frame_poll_def)
qed

subsection \<open>Whole streams\<close>

lemma poll_all_frames:
  "reader_ok mx r \<Longrightarrow> poll_all parse mx r s = frames_of parse mx (sock_end s) (held r @ sock_data s)"
proof (induction parse mx r s rule: poll_all.induct)
  case (1 parse mx r s)
  obtain res r' s' where poll: "frame_poll parse mx r s = (res, r', s')" by (metis prod_cases3)
  note tells = frame_poll_tells [OF poll "1.prems"]
  show ?case
  proof (cases res)
    case (Inl err)
    then show ?thesis using poll tells by (subst poll_all.simps) (simp add: poll_tells_def)
  next
    case (Inr p)
    show ?thesis
    proof (cases p)
      case (PollFrame msg)
      then obtain bd where bd: "held r @ sock_data s = framed bd @ sock_data s'" "length bd \<le> mx" "length bd \<le> U32_MAX"
          "parse bd = Some msg" "reader_ok mx r'" "held r' = []" "sock_end s' = sock_end s"
        using tells Inr by (auto simp: poll_tells_def)
      then have "poll_all parse mx r' s' = frames_of parse mx (sock_end s) (sock_data s')"
        using "1.IH"(1) poll Inr PollFrame by auto
      then show ?thesis using poll Inr PollFrame bd frames_of_framed [OF bd(2,3), of parse] by (subst poll_all.simps) simp
    next
      case PollEof
      then show ?thesis using poll Inr tells by (subst poll_all.simps, subst frames_of.simps) (simp add: poll_tells_def)
    next
      case PollProgress
      then show ?thesis using poll Inr tells "1.IH"(2) by (subst poll_all.simps) (auto simp: poll_tells_def)
    next
      case (PollWouldBlock x)
      then show ?thesis using poll Inr tells "1.IH"(3) by (subst poll_all.simps) (auto simp: poll_tells_def)
    qed
  qed
qed

lemma frames_of_written:
  assumes "\<And>m b. serialize m = Some b \<Longrightarrow> parse b = Some m" and "mx \<le> U32_MAX"
    and "list_all2 (\<lambda>m f. write_frame serialize m mx = Inr f) ms fs"
  shows "frames_of parse mx e (concat fs @ rest) = (case frames_of parse mx e rest of (ms', res) \<Rightarrow> (ms @ ms', res))"
  using assms(3)
proof (induction ms fs rule: list_all2_induct)
  case Nil
  then show ?case by simp
next
  case (Cons m ms f fs)
  from Cons.hyps(1) obtain b where b: "serialize m = Some b" "length b \<le> mx" "f = framed b"
    by (auto simp: write_frame_def framed_def split: option.splits if_splits)
  then have "length b \<le> U32_MAX" using assms(2) by simp
  then show ?case
    using frames_of_framed [OF b(2), of parse e "concat fs @ rest"] assms(1) [OF b(1)] Cons.IH b(3)
    by (auto split: prod.splits)
qed

lemma frames_of_cut:
  assumes "write_frame serialize m mx = Inr f" and "mx \<le> U32_MAX" and "n < length f"
  shows "frames_of parse mx None (take n f) = ([], if n = 0 then None else Some torn)"
proof (cases "n = 0")
  case True
  then show ?thesis by (subst frames_of.simps) simp
next
  case False
  from assms obtain b where b: "length b \<le> mx" "f = framed b"
    by (auto simp: write_frame_def framed_def split: option.splits if_splits)
  then have "of_be (be_bytes 4 (length b)) = length b" using assms(2) by simp
  moreover have "take 4 (take n f) = be_bytes 4 (length b)" if "4 \<le> n" using that b by (simp add: framed_def)
  ultimately have "length (take n f) < 4 \<or>
      (of_be (take 4 (take n f)) \<le> mx \<and> length (take n f) < 4 + of_be (take 4 (take n f)))"
    using assms(3) b by (cases "n < 4") (auto simp: framed_def)
  then show ?thesis
    using frames_of_short [of "take n f" mx None parse] False assms(3) by (cases f) (auto simp: torn_def)
qed

subsection \<open>The two blocking readers\<close>

definition calm :: "SockEvent list \<Rightarrow> bool" where
  "calm s \<longleftrightarrow> (\<forall>ev \<in> set s. \<exists>b. ev = Arrives b)"

lemma sock_read_calm:
  "\<lbrakk>sock_read n s = (res, s'); calm s\<rbrakk> \<Longrightarrow> (\<exists>bs. res = Inr bs) \<and> calm s'"
  by (induction n s rule: sock_read.induct) (auto simp: calm_def split: if_splits)

lemma read_once_calm:
  assumes "calm s"
  obtains bs s' where "sock_read (length b - filled) s = (Inr bs, s')" and "calm s'"
    and "read_once b filled s =
      (if bs = [] then (Inr StepEof, b, filled, s') else (Inr StepProgress, overwrite filled bs b, filled + length bs, s'))"
proof -
  obtain res s' where read: "sock_read (length b - filled) s = (res, s')" by fastforce
  from sock_read_calm [OF read assms] obtain bs where "res = Inr bs" "calm s'" by auto
  then show thesis using that read by (auto simp: read_once.simps [of b filled s])
qed

lemma length_sock_read: "sock_read n s = (Inr bs, s') \<Longrightarrow> length bs \<le> n"
  by (induction n s rule: sock_read.induct) (auto split: if_splits)

lemma body_twins:
  assumes "calm s" and "fr_len_filled r = 4" and "fr_body_filled r < length (fr_body r)"
  shows "read_frame_loop parse mx r s =
     (case read_exact_async (fr_body r) (fr_body_filled r) s of
        (Inl k, _, s) \<Rightarrow> (Inl (FrameIo k), s)
      | (Inr _, bd, s) \<Rightarrow> (case parse bd of None \<Rightarrow> Inl FrameParse | Some msg \<Rightarrow> Inr (Some msg), s))"
  using assms
proof (induction parse mx r s rule: read_frame_loop.induct)
  case (1 parse mx r s)
  obtain bs s' where read: "sock_read (length (fr_body r) - fr_body_filled r) s = (Inr bs, s')" "calm s'"
    and once: "read_once (fr_body r) (fr_body_filled r) s =
      (if bs = [] then (Inr StepEof, fr_body r, fr_body_filled r, s')
       else (Inr StepProgress, overwrite (fr_body_filled r) bs (fr_body r), fr_body_filled r + length bs, s'))"
    by (rule read_once_calm [OF "1.prems"(1)])
  have space: "fr_body_filled r + length bs \<le> length (fr_body r)" using length_sock_read [OF read(1)] "1.prems"(3) by simp
  let ?bd = "overwrite (fr_body_filled r) bs (fr_body r)"
  let ?r = "r\<lparr>fr_body := ?bd, fr_body_filled := fr_body_filled r + length bs\<rparr>"
  consider "bs = []" | "bs \<noteq> []" "fr_body_filled r + length bs = length (fr_body r)"
    | "bs \<noteq> []" "fr_body_filled r + length bs < length (fr_body r)" using space by linarith
  then show ?case
  proof cases
    case 1
    then show ?thesis using read once "1.prems"
      by (subst read_frame_loop.simps, subst read_exact_async.simps) (simp add: frame_poll_def poll_body_def torn_def)
  next
    case 2
    then show ?thesis using read once "1.prems"
      by (subst read_frame_loop.simps, subst read_exact_async.simps, subst read_exact_async.simps)
        (simp add: frame_poll_def poll_body_def finish_def split: option.split)
  next
    case 3
    then have poll: "frame_poll parse mx r s = (Inr PollProgress, ?r, s')"
      using once "1.prems" by (simp add: frame_poll_def poll_body_def)
    then have "read_frame_loop parse mx r s = read_frame_loop parse mx ?r s'" by (subst read_frame_loop.simps) simp
    also have "\<dots> = (case read_exact_async (fr_body ?r) (fr_body_filled ?r) s' of
        (Inl k, _, s) \<Rightarrow> (Inl (FrameIo k), s)
      | (Inr _, bd, s) \<Rightarrow> (case parse bd of None \<Rightarrow> Inl FrameParse | Some msg \<Rightarrow> Inr (Some msg), s))"
      by (rule "1.IH" [OF poll [symmetric] refl refl refl]) (use 3 read "1.prems" in simp_all)
    also have "read_exact_async (fr_body ?r) (fr_body_filled ?r) s' = read_exact_async (fr_body r) (fr_body_filled r) s"
      using 3 read "1.prems" by (simp add: read_exact_async.simps [of "fr_body r"])
    finally show ?thesis .
  qed
qed

lemma prefix_twins:
  assumes "calm s" and "fr_len_filled r < 4" and "length (fr_len_buf r) = 4"
  shows "read_frame_loop parse mx r s =
     (case read_full_or_eof_async (fr_len_buf r) (fr_len_filled r) s of
        (Inl k, _, s) \<Rightarrow> (Inl (FrameIo k), s)
      | (Inr False, _, s) \<Rightarrow> (Inr None, s)
      | (Inr True, lb, s) \<Rightarrow>
          let len = of_be lb
          in if len > mx then (Inl (FrameTooLarge len mx), s)
             else case read_exact_async (replicate len 0) 0 s of
               (Inl k, _, s) \<Rightarrow> (Inl (FrameIo k), s)
             | (Inr _, bd, s) \<Rightarrow> (case parse bd of None \<Rightarrow> Inl FrameParse | Some msg \<Rightarrow> Inr (Some msg), s))"
    (is "_ = ?rest (read_full_or_eof_async (fr_len_buf r) (fr_len_filled r) s)")
  using assms
proof (induction parse mx r s rule: read_frame_loop.induct)
  case (1 parse mx r s)
  obtain bs s' where read: "sock_read (length (fr_len_buf r) - fr_len_filled r) s = (Inr bs, s')" "calm s'"
    and once: "read_once (fr_len_buf r) (fr_len_filled r) s =
      (if bs = [] then (Inr StepEof, fr_len_buf r, fr_len_filled r, s')
       else (Inr StepProgress, overwrite (fr_len_filled r) bs (fr_len_buf r), fr_len_filled r + length bs, s'))"
    by (rule read_once_calm [OF "1.prems"(1)])
  have space: "fr_len_filled r + length bs \<le> 4" using length_sock_read [OF read(1)] "1.prems" by simp
  let ?lb = "overwrite (fr_len_filled r) bs (fr_len_buf r)"
  let ?r = "r\<lparr>fr_len_buf := ?lb, fr_len_filled := fr_len_filled r + length bs\<rparr>"
  let ?rb = "?r\<lparr>fr_body := replicate (of_be ?lb) 0, fr_body_filled := 0\<rparr>"
  have async: "read_full_or_eof_async (fr_len_buf r) (fr_len_filled r) s =
      (if bs = [] then (if fr_len_filled r = 0 then Inr False else Inl IoUnexpectedEof, fr_len_buf r, s')
       else read_full_or_eof_async ?lb (fr_len_filled r + length bs) s')"
    using read "1.prems" by (subst read_full_or_eof_async.simps) simp
  consider "bs = []" | "bs \<noteq> []" "fr_len_filled r + length bs < 4" | "bs \<noteq> []" "fr_len_filled r + length bs = 4"
    using space by linarith
  then show ?case
  proof cases
    case 1
    then show ?thesis using async once "1.prems"
      by (subst read_frame_loop.simps) (simp add: frame_poll_def poll_prefix_def torn_def)
  next
    case 2
    then have poll: "frame_poll parse mx r s = (Inr PollProgress, ?r, s')"
      using once "1.prems" by (simp add: frame_poll_def poll_prefix_def)
    have "read_frame_loop parse mx r s = read_frame_loop parse mx ?r s'"
      using poll by (subst read_frame_loop.simps) simp
    then show ?thesis
      using "1.IH" [OF poll [symmetric] refl refl refl] 2 read "1.prems" async by simp
  next
    case 3
    then have full: "read_full_or_eof_async (fr_len_buf r) (fr_len_filled r) s = (Inr True, ?lb, s')"
      using async "1.prems" by (simp add: read_full_or_eof_async.simps [of ?lb])
    consider "of_be ?lb > mx" | "of_be ?lb \<le> mx" "of_be ?lb = 0" | "of_be ?lb \<le> mx" "0 < of_be ?lb" by linarith
    then show ?thesis
    proof cases
      case 1
      then show ?thesis using 3 once "1.prems" full
        by (subst read_frame_loop.simps) (simp add: frame_poll_def poll_prefix_def)
    next
      case 2
      then show ?thesis using 3 once "1.prems" full
        by (subst read_frame_loop.simps)
          (simp add: frame_poll_def poll_prefix_def finish_def read_exact_async.simps [of "[]"] split: option.split)
    next
      case large: 3
      then have "frame_poll parse mx r s = (Inr PollProgress, ?rb, s')"
        using 3 once "1.prems" by (simp add: frame_poll_def poll_prefix_def)
      then have "read_frame_loop parse mx r s = read_frame_loop parse mx ?rb s'" by (subst read_frame_loop.simps) simp
      then show ?thesis using body_twins [of s' ?rb parse mx] full large 3 read by simp
    qed
  qed
qed

subsection \<open>Properties\<close>

text \<open>
  C18. However the bytes of a connection are cut into reads, and however often a read is interrupted, times out or
  would block, polling a fresh \<open>FrameReader\<close> to the end delivers exactly the messages of the byte stream, in order, and
  stops for exactly the reason the reference reader stops: the clean end, a torn frame, a length over the limit, a body
  that does not parse, or the transport's own error.
\<close>
theorem wire_reader_refines:
  "poll_all parse mx FrameReader_new s = frames_of parse mx (sock_end s) (sock_data s)"
  using poll_all_frames [of mx FrameReader_new parse s] by simp

text \<open>
  What \<open>write_frame\<close> wrote is read back: when the peer sends whole frames and closes, possibly \<open>n\<close> bytes into one
  more, the reader delivers exactly the whole messages and tells the orderly close from the torn frame.
\<close>
theorem wire_frames_roundtrip:
  assumes "\<And>m b. serialize m = Some b \<Longrightarrow> parse b = Some m" and "mx \<le> U32_MAX"
    and "list_all2 (\<lambda>m f. write_frame serialize m mx = Inr f) ms fs"
    and "write_frame serialize m mx = Inr f" and "n < length f"
    and "sock_data s = concat fs @ take n f" and "sock_end s = None"
  shows "poll_all parse mx FrameReader_new s = (ms, if n = 0 then None else Some torn)"
  using poll_all_frames [of mx FrameReader_new parse s] assms
    frames_of_written [OF assms(1-3), where e = None and rest = "take n f"] frames_of_cut [OF assms(4,2,5), of parse]
  by simp

theorem wire_frames_roundtrip_witness:
  "poll_all Some 16 FrameReader_new
     [Arrives [0, 0], Fails IoTimedOut, Arrives [0, 2, 7], Fails IoInterrupted, Arrives [9, 0, 0, 0, 0, 0]] =
   ([[7, 9], []], Some torn)"
proof -
  let ?s = "[Arrives [0, 0], Fails IoTimedOut, Arrives [0, 2, 7], Fails IoInterrupted, Arrives [9, 0, 0, 0, 0, 0]]"
  have w: "write_frame Some [7, 9] 16 = Inr [0, 0, 0, 2, 7, 9]" "write_frame Some [] 16 = Inr [0, 0, 0, 0]"
    "write_frame Some [1] 16 = Inr [0, 0, 0, 1, 1]"
    by code_simp+
  show ?thesis
    using wire_frames_roundtrip [of Some Some 16 "[[7, 9], []]" "[[0, 0, 0, 2, 7, 9], [0, 0, 0, 0]]" "[1]"
        "[0, 0, 0, 1, 1]" 1 ?s] w
    by (simp add: soft_def)
qed

text \<open>
  On a connection that only delivers bytes and then ends, the blocking and the asynchronous reader return the same
  message, end or error and leave the same unread input behind.
\<close>
theorem read_frame_twins:
  assumes "\<forall>ev \<in> set s. \<exists>b. ev = Arrives b"
  shows "read_frame_async parse mx s = read_frame parse mx s"
  using prefix_twins [of s FrameReader_new parse mx] assms
  by (simp add: read_frame_async_def read_frame_def FrameReader_new_def calm_def)

theorem read_frame_twins_witness:
  "read_frame_async Some 16 [Arrives [0, 0, 0, 1], Arrives [5, 6]] =
   (read_frame Some 16 [Arrives [0, 0, 0, 1], Arrives [5, 6]] :: (FrameError + bytes option) \<times> SockEvent list)"
  by (rule read_frame_twins) simp

end
