(* ===== verification/Wire.thy ===== *)
theory Wire
  imports Coordinator WireFrame
begin

text \<open>
  The messages of the wire protocol (\<open>crates/tephra-proto/proto/tephra.proto\<close>), the conversions shared by both
  sides (\<open>crates/tephra-proto/src/convert.rs\<close>), the server's (\<open>crates/tephra-server/src/convert.rs\<close>) and the
  client's (the end of \<open>crates/tephra-client/src/lib.rs\<close>).

  A parsed message is a record of its fields: an unset message field reads as its default, so only fields whose
  presence the code asks for are options. A string field is a byte list that need not be UTF-8. \<open>uint64\<close> fields are
  natural numbers. The text of an error message is represented by what it displays (\<open>ErrText\<close>). The wire error code
  is the open enumeration's number.
\<close>

subsection \<open>Messages\<close>

record pb_Event =
  pe_type :: bytes
  pe_tags :: "bytes list"
  pe_payload :: bytes

record pb_QueryItem =
  pi_types :: "bytes list"
  pi_tags :: "bytes list"

record pb_Query =
  pq_all :: bool
  pq_items :: "pb_QueryItem list"

record pb_AppendCondition =
  pc_fail_if_events_match :: pb_Query
  pc_after :: nat
  pc_fail_if_exists :: "pb_Query option"

record pb_AppendRequest =
  pa_events :: "pb_Event list"
  pa_condition :: "pb_AppendCondition option"

record pb_ReadRequest =
  pr_query :: pb_Query
  pr_after :: nat
  pr_limit :: "nat option"
  pr_reverse :: bool

record pb_SubscribeRequest =
  psub_query :: pb_Query
  psub_after :: nat

record pb_Hello =
  ph_version :: nat
  ph_token :: "bytes option"

datatype RequestKind =
    ReqAppend pb_AppendRequest
  | ReqRead pb_ReadRequest
  | ReqSubscribe pb_SubscribeRequest
  | ReqCancel nat
  | ReqStats
  | ReqHello pb_Hello
  | ReqNotSet

record pb_Request =
  rq_id :: nat
  rq_kind :: RequestKind

record pb_SequencedEvent =
  pse_position :: nat
  pse_event :: pb_Event

text \<open>The reading behind a stats reply.\<close>
record StatsSnapshot =
  sn_event_count :: nat
  sn_segment_count :: nat
  sn_disk_bytes :: nat
  sn_uptime_seconds :: nat
  sn_active_connections :: nat
  sn_active_subscriptions :: nat
  sn_connections_refused :: nat
  sn_connections_reaped :: nat
  sn_max_connections :: nat

datatype WireConvertError =
    WireInvalidUtf8
  | WireName NameError
  | WireTags TagsError

datatype ConvertError =
    ConvWire WireConvertError
  | ConvEncode EncodeError

datatype ErrText =
    Text string
  | ShowAppend AppendError
  | ShowConvert ConvertError
  | ShowFrame FrameError
  | ShowRead ReadsError
  | ShowVersion nat

record pb_ErrorResponse =
  er_code :: int
  er_message :: ErrText
  er_conflict_position :: "nat option"
  er_retryable :: bool

text \<open>\<open>ResponseKind\<close> of the server, with the client's view of a response whose kind is not set.\<close>
datatype ResponseKind =
    RespAppend nat nat
  | RespReadEvents "pb_SequencedEvent list"
  | RespReadEnd nat
  | RespCaughtUp nat
  | RespStats StatsSnapshot
  | RespError pb_ErrorResponse
  | RespHelloAck nat
  | RespNotSet

record pb_Response =
  rs_id :: nat
  rs_kind :: ResponseKind

definition PROTOCOL_VERSION :: nat where "PROTOCOL_VERSION = 1"

definition hello_request :: "nat \<Rightarrow> str option \<Rightarrow> pb_Request" where
  "hello_request request_id auth_token =
     \<lparr>rq_id = request_id, rq_kind = ReqHello \<lparr>ph_version = PROTOCOL_VERSION, ph_token = auth_token\<rparr>\<rparr>"

definition make_response :: "nat \<Rightarrow> ResponseKind \<Rightarrow> pb_Response" where
  "make_response request_id kind = \<lparr>rs_id = request_id, rs_kind = kind\<rparr>"

subsection \<open>The shared conversions\<close>

text \<open>A loop that converts each item and returns at the first failure.\<close>
fun try_map :: "('a \<Rightarrow> 'e + 'b) \<Rightarrow> 'a list \<Rightarrow> 'e + 'b list" where
  "try_map f [] = Inr []"
| "try_map f (x # xs) =
     (case f x of
        Inl e \<Rightarrow> Inl e
      | Inr y \<Rightarrow> (case try_map f xs of Inl e \<Rightarrow> Inl e | Inr ys \<Rightarrow> Inr (y # ys)))"

definition as_str :: "bytes \<Rightarrow> WireConvertError + str" where
  "as_str v = (if utf8_valid v then Inr v else Inl WireInvalidUtf8)"

definition tag_from_pb :: "bytes \<Rightarrow> WireConvertError + Tag" where
  "tag_from_pb v =
     (case as_str v of
        Inl e \<Rightarrow> Inl e
      | Inr s \<Rightarrow> (case Tag_new s of Inl e \<Rightarrow> Inl (WireName e) | Inr t \<Rightarrow> Inr t))"

definition type_from_pb :: "bytes \<Rightarrow> WireConvertError + EventType" where
  "type_from_pb v =
     (case as_str v of
        Inl e \<Rightarrow> Inl e
      | Inr s \<Rightarrow> (case EventType_new s of Inl e \<Rightarrow> Inl (WireName e) | Inr t \<Rightarrow> Inr t))"

definition tags_from_pb :: "bytes list \<Rightarrow> WireConvertError + Tags" where
  "tags_from_pb vs =
     (case try_map tag_from_pb vs of
        Inl e \<Rightarrow> Inl e
      | Inr out \<Rightarrow> (case Tags_new out of Inl e \<Rightarrow> Inl (WireTags e) | Inr ts \<Rightarrow> Inr ts))"

definition types_from_pb :: "bytes list \<Rightarrow> WireConvertError + EventType list" where
  "types_from_pb vs = try_map type_from_pb vs"

definition item_from_pb :: "pb_QueryItem \<Rightarrow> WireConvertError + QueryItem" where
  "item_from_pb item =
     (case types_from_pb (pi_types item) of
        Inl e \<Rightarrow> Inl e
      | Inr tys \<Rightarrow>
          (case tags_from_pb (pi_tags item) of Inl e \<Rightarrow> Inl e | Inr ts \<Rightarrow> Inr \<lparr>types = tys, tags = ts\<rparr>))"

definition query_from_pb :: "pb_Query \<Rightarrow> WireConvertError + Query" where
  "query_from_pb query =
     (if pq_all query then Inr All
      else case try_map item_from_pb (pq_items query) of Inl e \<Rightarrow> Inl e | Inr its \<Rightarrow> Inr (Items its))"

definition item_to_pb :: "QueryItem \<Rightarrow> pb_QueryItem" where
  "item_to_pb item = \<lparr>pi_types = map type_str (types item), pi_tags = map tag_str (tags item)\<rparr>"

definition query_to_pb :: "Query \<Rightarrow> pb_Query" where
  "query_to_pb query =
     (case query of
        All \<Rightarrow> \<lparr>pq_all = True, pq_items = []\<rparr>
      | Items its \<Rightarrow> \<lparr>pq_all = False, pq_items = map item_to_pb its\<rparr>)"

definition condition_from_pb :: "pb_AppendCondition \<Rightarrow> WireConvertError + AppendCondition" where
  "condition_from_pb c =
     (case query_from_pb (pc_fail_if_events_match c) of
        Inl e \<Rightarrow> Inl e
      | Inr q \<Rightarrow>
          let cond = AppendCondition_after (AppendCondition_new q) (pc_after c)
          in case pc_fail_if_exists c of
               None \<Rightarrow> Inr cond
             | Some ex \<Rightarrow>
                 (case query_from_pb ex of
                    Inl e \<Rightarrow> Inl e
                  | Inr q \<Rightarrow> Inr (AppendCondition_fail_if_exists cond q)))"

definition condition_to_pb :: "AppendCondition \<Rightarrow> pb_AppendCondition" where
  "condition_to_pb c =
     \<lparr>pc_fail_if_events_match = query_to_pb (fail_if_events_match c), pc_after = after c,
      pc_fail_if_exists = map_option query_to_pb (fail_if_exists c)\<rparr>"

datatype ErrorCode =
    CodeConflict | CodeAlreadyExists | CodeAfterBeyondTip | CodeEmpty | CodeTooLarge
  | CodeBadRequest | CodeInternal | CodeShutdown | CodeUnauthenticated | CodeUnknown

definition ErrorCode_from :: "int \<Rightarrow> ErrorCode" where
  "ErrorCode_from code =
     (if code = 1 then CodeConflict
      else if code = 9 then CodeAlreadyExists
      else if code = 2 then CodeAfterBeyondTip
      else if code = 3 then CodeEmpty
      else if code = 4 then CodeTooLarge
      else if code = 5 then CodeBadRequest
      else if code = 6 then CodeInternal
      else if code = 7 then CodeShutdown
      else if code = 8 then CodeUnauthenticated
      else CodeUnknown)"

fun ErrorCode_to_pb :: "ErrorCode \<Rightarrow> int" where
  "ErrorCode_to_pb CodeConflict = 1"
| "ErrorCode_to_pb CodeAlreadyExists = 9"
| "ErrorCode_to_pb CodeAfterBeyondTip = 2"
| "ErrorCode_to_pb CodeEmpty = 3"
| "ErrorCode_to_pb CodeTooLarge = 4"
| "ErrorCode_to_pb CodeBadRequest = 5"
| "ErrorCode_to_pb CodeInternal = 6"
| "ErrorCode_to_pb CodeShutdown = 7"
| "ErrorCode_to_pb CodeUnauthenticated = 8"
| "ErrorCode_to_pb CodeUnknown = 0"

subsection \<open>The server's conversions\<close>

definition event_from_proto :: "pb_Event \<Rightarrow> ConvertError + Event" where
  "event_from_proto ev =
     (case type_from_pb (pe_type ev) of
        Inl e \<Rightarrow> Inl (ConvWire e)
      | Inr ty \<Rightarrow>
          (case tags_from_pb (pe_tags ev) of
             Inl e \<Rightarrow> Inl (ConvWire e)
           | Inr ts \<Rightarrow>
               (case Event_new ty ts (pe_payload ev) of Inl e \<Rightarrow> Inl (ConvEncode e) | Inr event \<Rightarrow> Inr event)))"

definition events_from_proto :: "pb_AppendRequest \<Rightarrow> ConvertError + Event list" where
  "events_from_proto req = try_map event_from_proto (pa_events req)"

definition query_from_proto :: "pb_Query \<Rightarrow> ConvertError + Query" where
  "query_from_proto query = (case query_from_pb query of Inl e \<Rightarrow> Inl (ConvWire e) | Inr q \<Rightarrow> Inr q)"

definition condition_from_proto :: "pb_AppendCondition \<Rightarrow> ConvertError + AppendCondition" where
  "condition_from_proto c = (case condition_from_pb c of Inl e \<Rightarrow> Inl (ConvWire e) | Inr cond \<Rightarrow> Inr cond)"

definition sequenced_to_proto :: "Position \<Rightarrow> Event \<Rightarrow> pb_SequencedEvent" where
  "sequenced_to_proto p event =
     \<lparr>pse_position = p,
      pse_event = \<lparr>pe_type = event_type event, pe_tags = event_tags event, pe_payload = data event\<rparr>\<rparr>"

text \<open>A new error response with its code and message set.\<close>
definition error_response :: "ErrorCode \<Rightarrow> ErrText \<Rightarrow> pb_ErrorResponse" where
  "error_response code msg =
     \<lparr>er_code = ErrorCode_to_pb code, er_message = msg, er_conflict_position = None, er_retryable = False\<rparr>"

text \<open>\<open>append_error_to_proto\<close>; \<open>AppendPanic\<close> is no value of the source's enumeration and is never replied.\<close>
definition append_error_to_proto :: "AppendError \<Rightarrow> pb_ErrorResponse" where
  "append_error_to_proto err =
     (case err of
        Conflict clause at \<Rightarrow>
          let resp = error_response (case clause of Boundary \<Rightarrow> CodeConflict | Existence \<Rightarrow> CodeAlreadyExists) (ShowAppend err)
          in (case at of
                Durable p \<Rightarrow> resp\<lparr>er_conflict_position := Some p, er_retryable := False\<rparr>
              | SameBatch \<Rightarrow> resp\<lparr>er_retryable := True\<rparr>)
      | AfterBeyondTip _ _ \<Rightarrow> error_response CodeAfterBeyondTip (ShowAppend err)
      | AppendEmpty \<Rightarrow> error_response CodeEmpty (ShowAppend err)
      | TooLarge _ \<Rightarrow> error_response CodeTooLarge (ShowAppend err)
      | AppendLog _ \<Rightarrow> error_response CodeInternal (ShowAppend err)
      | AppendCorrupt _ \<Rightarrow> error_response CodeInternal (ShowAppend err)
      | Shutdown \<Rightarrow> error_response CodeShutdown (ShowAppend err)
      | AppendPanic \<Rightarrow> error_response CodeInternal (ShowAppend err))"

definition bad_request :: "ErrText \<Rightarrow> pb_ErrorResponse" where
  "bad_request msg = error_response CodeBadRequest msg"

definition unauthenticated :: "ErrText \<Rightarrow> pb_ErrorResponse" where
  "unauthenticated msg = error_response CodeUnauthenticated msg"

definition too_large :: "ErrText \<Rightarrow> pb_ErrorResponse" where
  "too_large msg = error_response CodeTooLarge msg"

definition internal_error :: "ErrText \<Rightarrow> pb_ErrorResponse" where
  "internal_error msg = error_response CodeInternal msg"

subsection \<open>The client's values and conversions\<close>

record ClientEvent =
  ce_type :: EventType
  ce_tags :: Tags
  ce_payload :: bytes

record ClientSequenced =
  cs_position :: Position
  cs_event :: ClientEvent

datatype BuildError = BuildName NameError | BuildTags TagsError

definition ClientEvent_new :: "str \<Rightarrow> str list \<Rightarrow> bytes \<Rightarrow> BuildError + ClientEvent" where
  "ClientEvent_new ty ts payload =
     (case EventType_new ty of
        Inl e \<Rightarrow> Inl (BuildName e)
      | Inr ety \<Rightarrow>
          (case try_map Tag_new ts of
             Inl e \<Rightarrow> Inl (BuildName e)
           | Inr collected \<Rightarrow>
               (case Tags_new collected of
                  Inl e \<Rightarrow> Inl (BuildTags e)
                | Inr tset \<Rightarrow> Inr \<lparr>ce_type = ety, ce_tags = tset, ce_payload = payload\<rparr>)))"

datatype ProtocolFault =
    WrongId nat nat
  | WrongKind ResponseKind
  | WrongVersion nat
  | BadType NameError
  | Malformed WireConvertError
  | NoWatermark
  | ConnectionEnded ErrText

datatype ClientError =
    ClientFrame FrameError
  | ClientEof
  | ClientProtocol ProtocolFault
  | ClientServer ErrorCode ErrText bool "Position option"

definition event_to_pb :: "ClientEvent \<Rightarrow> pb_Event" where
  "event_to_pb event =
     \<lparr>pe_type = type_str (ce_type event), pe_tags = map tag_str (ce_tags event), pe_payload = ce_payload event\<rparr>"

definition sequenced_from_pb :: "pb_SequencedEvent \<Rightarrow> ClientError + ClientSequenced" where
  "sequenced_from_pb view =
     (let ev = pse_event view
      in case as_str (pe_type ev) of
           Inl e \<Rightarrow> Inl (ClientProtocol (Malformed e))
         | Inr s \<Rightarrow>
             (case EventType_new s of
                Inl e \<Rightarrow> Inl (ClientProtocol (BadType e))
              | Inr ety \<Rightarrow>
                  (case tags_from_pb (pe_tags ev) of
                     Inl e \<Rightarrow> Inl (ClientProtocol (Malformed e))
                   | Inr ts \<Rightarrow>
                       Inr \<lparr>cs_position = pse_position view,
                            cs_event = \<lparr>ce_type = ety, ce_tags = ts, ce_payload = pe_payload ev\<rparr>\<rparr>)))"

definition server_error :: "pb_ErrorResponse \<Rightarrow> ClientError" where
  "server_error error =
     ClientServer (ErrorCode_from (er_code error)) (er_message error) (er_retryable error) (er_conflict_position error)"

definition wf_ClientEvent :: "ClientEvent \<Rightarrow> bool" where
  "wf_ClientEvent e \<longleftrightarrow> wf_name (type_str (ce_type e)) \<and> wf_Tags (ce_tags e)"

definition client_event :: "Event \<Rightarrow> ClientEvent" where
  "client_event e = \<lparr>ce_type = EventType (event_type e), ce_tags = map Tag (event_tags e), ce_payload = data e\<rparr>"

subsection \<open>Facts about the conversions\<close>

lemma try_map_Inr: "try_map f xs = Inr ys \<longleftrightarrow> list_all2 (\<lambda>x y. f x = Inr y) xs ys"
proof (induction xs arbitrary: ys)
  case (Cons x xs)
  then show ?case by (cases "try_map f xs") (auto simp: list_all2_Cons1 split: sum.splits)
qed auto

lemma try_map_map: "(\<And>x. x \<in> set xs \<Longrightarrow> f (g x) = Inr (h x)) \<Longrightarrow> try_map f (map g xs) = Inr (map h xs)"
  by (induction xs) auto

lemma try_map_all:
  assumes "try_map f xs = Inr ys" and "\<And>x y. f x = Inr y \<Longrightarrow> P y"
  shows "\<forall>y \<in> set ys. P y"
  using assms unfolding try_map_Inr by (induction xs ys rule: list_all2_induct) auto

lemma tag_from_pb_wf: "tag_from_pb v = Inr t \<longleftrightarrow> t = Tag v \<and> wf_name v"
  by (auto simp: tag_from_pb_def as_str_def wf_name_def Tag_new_def validate_name_def)

lemma type_from_pb_wf: "type_from_pb v = Inr t \<longleftrightarrow> t = EventType v \<and> wf_name v"
  by (auto simp: type_from_pb_def as_str_def wf_name_def EventType_new_def validate_name_def)

lemma tags_from_pb_wf: "tags_from_pb vs = Inr ts \<Longrightarrow> wf_Tags ts"
  using try_map_all [of tag_from_pb vs _ "wf_name \<circ> tag_str"]
  by (auto simp: tags_from_pb_def tag_from_pb_wf dest: Tags_new_wf split: sum.splits)

lemma tags_from_pb_sorted:
  assumes "wf_Tags ts"
  shows "tags_from_pb (map tag_str ts) = Inr ts"
proof -
  have "try_map tag_from_pb (map tag_str ts) = Inr (map (\<lambda>t. t) ts)"
    by (rule try_map_map) (use assms in \<open>auto simp: tag_from_pb_wf wf_Tags_def list_all_iff\<close>)
  moreover have "Tags_new ts = Inr ts"
    using assms by (auto simp: Tags_new_spec wf_Tags_def strict_sorted_iff sorted_sort_id)
  ultimately show ?thesis by (simp add: tags_from_pb_def)
qed

lemma item_from_pb_wf:
  "item_from_pb pi = Inr it \<Longrightarrow> wf_Tags (tags it) \<and> list_all (wf_name \<circ> type_str) (types it)"
  using try_map_all [of type_from_pb "pi_types pi" _ "wf_name \<circ> type_str"]
  by (auto simp: item_from_pb_def types_from_pb_def type_from_pb_wf tags_from_pb_wf list_all_iff split: sum.splits)

lemma query_from_pb_wf:
  assumes "query_from_pb pq = Inr q"
  shows "wf_Query q"
proof (cases "pq_all pq")
  case True
  then show ?thesis using assms by (auto simp: query_from_pb_def wf_Query_def)
next
  case False
  then obtain its where its: "try_map item_from_pb (pq_items pq) = Inr its" "q = Items its"
    using assms by (auto simp: query_from_pb_def split: sum.splits)
  from try_map_all [OF its(1) item_from_pb_wf] show ?thesis
    by (simp add: its(2) wf_Query_def Ball_set)
qed

lemma item_roundtrip:
  assumes "wf_Tags (tags it)" and "list_all (wf_name \<circ> type_str) (types it)"
  shows "item_from_pb (item_to_pb it) = Inr it"
proof -
  have "types_from_pb (map type_str (types it)) = Inr (map (\<lambda>t. t) (types it))"
    unfolding types_from_pb_def by (rule try_map_map) (use assms(2) in \<open>auto simp: type_from_pb_wf list_all_iff\<close>)
  then show ?thesis using tags_from_pb_sorted [OF assms(1)] by (simp add: item_from_pb_def item_to_pb_def)
qed

lemma query_roundtrip: "wf_Query q \<Longrightarrow> query_from_pb (query_to_pb q) = Inr q"
  using try_map_map [where f = item_from_pb and g = item_to_pb and h = "\<lambda>it. it"]
  by (auto simp: query_to_pb_def query_from_pb_def wf_Query_def list_all_iff item_roundtrip split: Query.split)

lemma condition_from_pb_wf: "condition_from_pb pc = Inr c \<Longrightarrow> wf_condition c"
  by (auto simp: condition_from_pb_def wf_condition_def AppendCondition_after_def AppendCondition_new_def
      AppendCondition_fail_if_exists_def query_from_pb_wf Let_def split: sum.splits option.splits)

lemma condition_trip: "wf_condition c \<Longrightarrow> condition_from_pb (condition_to_pb c) = Inr c"
  by (auto simp: condition_from_pb_def condition_to_pb_def wf_condition_def query_roundtrip AppendCondition_new_def
      AppendCondition_after_def AppendCondition_fail_if_exists_def split: option.splits)

lemma event_from_proto_new:
  assumes "event_from_proto pe = Inr e"
  obtains ty ts where "wf_name (type_str ty)" and "wf_Tags ts" and "Event_new ty ts (pe_payload pe) = Inr e"
proof -
  from assms obtain ty ts where "type_from_pb (pe_type pe) = Inr ty" "tags_from_pb (pe_tags pe) = Inr ts"
      "Event_new ty ts (pe_payload pe) = Inr e"
    by (auto simp: event_from_proto_def split: sum.splits)
  then show thesis using that [of ty ts] tags_from_pb_wf by (auto simp: type_from_pb_wf)
qed

lemma event_from_proto_wf: "event_from_proto pe = Inr e \<Longrightarrow> wf_Event e"
  by (erule event_from_proto_new) (simp add: Event_new_decodes wf_Event_def)

lemma event_to_proto:
  "wf_ClientEvent ce \<Longrightarrow>
   event_from_proto (event_to_pb ce) =
     (case Event_new (ce_type ce) (ce_tags ce) (ce_payload ce) of Inl e \<Rightarrow> Inl (ConvEncode e) | Inr e \<Rightarrow> Inr e)"
  using type_from_pb_wf [of "type_str (ce_type ce)" "ce_type ce"]
  by (simp add: event_from_proto_def event_to_pb_def tags_from_pb_sorted wf_ClientEvent_def)

lemma sequenced_from_proto:
  assumes "wf_Event e"
  shows "sequenced_from_pb (sequenced_to_proto p e) = Inr \<lparr>cs_position = p, cs_event = client_event e\<rparr>"
proof -
  have wf: "wf_name (event_type e)" "wf_Tags (map Tag (event_tags e))"
    using from_bytes_wf [OF assms [unfolded wf_Event_def]] by auto
  have ts: "tags_from_pb (event_tags e) = Inr (map Tag (event_tags e))"
    using tags_from_pb_sorted [OF wf(2)] by (simp add: comp_def)
  have ty: "EventType_new (event_type e) = Inr (EventType (event_type e))"
    using wf(1) by (simp add: EventType_new_spec wf_name_def)
  show ?thesis using wf(1) ts ty
    by (simp add: sequenced_from_pb_def sequenced_to_proto_def as_str_def client_event_def wf_name_def)
qed

lemma client_event_new:
  assumes "wf_ClientEvent ce" and "Event_new (ce_type ce) (ce_tags ce) (ce_payload ce) = Inr e"
  shows "wf_Event e" and "client_event e = ce"
  using Event_new_decodes [of "ce_type ce" "ce_tags ce" "ce_payload ce" e] assms
  by (auto simp: wf_ClientEvent_def wf_Event_def client_event_def comp_def)

lemma server_error_append:
  "server_error (append_error_to_proto (Conflict clause at)) =
     ClientServer (case clause of Boundary \<Rightarrow> CodeConflict | Existence \<Rightarrow> CodeAlreadyExists)
       (ShowAppend (Conflict clause at)) (at = SameBatch) (case at of Durable p \<Rightarrow> Some p | SameBatch \<Rightarrow> None)"
  by (simp add: server_error_def append_error_to_proto_def error_response_def ErrorCode_from_def Let_def
      split: ConflictClause.split ConflictSite.split)

subsection \<open>Properties\<close>

text \<open>
  A condition survives the wire: what the client encodes for a constructed condition decodes on the server to the
  same condition, both clauses, the boundary position, the order of items, types and tags included; in particular an
  absent existence clause stays absent and an empty item list does not become the catch-all query.
\<close>
theorem condition_wire_roundtrip:
  assumes "wf_condition c"
  shows "condition_from_pb (condition_to_pb c) = Inr c"
  by (rule condition_trip [OF assms])

theorem condition_wire_roundtrip_witness:
  "condition_from_pb (condition_to_pb
     \<lparr>fail_if_events_match = Items [], after = 42, fail_if_exists = Some (Items [\<lparr>types = [EventType [0x41]], tags = [Tag [0x61]]\<rparr>])\<rparr>) =
   Inr \<lparr>fail_if_events_match = Items [], after = 42, fail_if_exists = Some (Items [\<lparr>types = [EventType [0x41]], tags = [Tag [0x61]]\<rparr>])\<rparr>"
  by (rule condition_wire_roundtrip) code_simp

text \<open>
  An event survives the trip through the store: the server rebuilds the packed event the client's event describes,
  and what it later sends for that event at any position decodes on the client to the same event at that position.
\<close>
theorem event_wire_roundtrip:
  assumes "wf_ClientEvent ce" and "Event_new (ce_type ce) (ce_tags ce) (ce_payload ce) = Inr e"
  shows "event_from_proto (event_to_pb ce) = Inr e \<and>
         sequenced_from_pb (sequenced_to_proto p e) = Inr \<lparr>cs_position = p, cs_event = ce\<rparr>"
  using event_to_proto [OF assms(1)] sequenced_from_proto [OF client_event_new(1) [OF assms], of p]
    client_event_new(2) [OF assms] assms(2) by simp

theorem event_wire_roundtrip_witness:
  "\<exists>e. event_from_proto (event_to_pb \<lparr>ce_type = EventType [0x41], ce_tags = [Tag [0x61], Tag [0x62]], ce_payload = [7]\<rparr>) = Inr e \<and>
       sequenced_from_pb (sequenced_to_proto 5 e) =
         Inr \<lparr>cs_position = 5, cs_event = \<lparr>ce_type = EventType [0x41], ce_tags = [Tag [0x61], Tag [0x62]], ce_payload = [7]\<rparr>\<rparr>"
proof -
  let ?ce = "\<lparr>ce_type = EventType [0x41], ce_tags = [Tag [0x61], Tag [0x62]], ce_payload = [7]\<rparr>"
  have wf: "wf_ClientEvent ?ce" by code_simp
  obtain e where "Event_new (ce_type ?ce) (ce_tags ?ce) (ce_payload ?ce) = Inr e"
    by (simp add: Event_new_def header_len_def FIXED_HEADER_def)
  then show ?thesis using event_wire_roundtrip [OF wf] by blast
qed

end
