(* ===== verification/Egress.thy ===== *)
theory Egress
  imports Wire
begin

text \<open>
  The writer of a server connection (\<open>drive_writer\<close> of \<open>crates/tephra-server/src/conn.rs\<close>): two bounded lanes of
  response frames, control before bulk with a forced bulk frame after a full control run, blocking on both when idle.

  Producers run concurrently, so the writer is a program counter in a step relation that interleaves with sends and
  with the last sender of a lane going away. \<open>EgControl n w\<close> is the inner loop with its two locals, \<open>EgBulk w\<close> the
  bulk receive, \<open>EgIdle\<close> the flush after both lanes were found empty, \<open>EgFlag\<close> between the two disconnection tests,
  \<open>EgBlock\<close> the blocking receive. \<open>is_disconnected\<close> is documented to tell whether all senders are gone, whatever is
  still queued. Encoding a frame is \<open>write_frame\<close> (the parameter \<open>enc\<close>); a transport error may strike at any step.
  The lists of frames sent and the count of control frames written while a bulk frame waited are ghost state.
\<close>

subsection \<open>The step relation\<close>

definition CONTROL_QUEUE_MIN :: nat where "CONTROL_QUEUE_MIN = 64"

definition MAX_CONTROL_RUN :: nat where "MAX_CONTROL_RUN = 64"

datatype EgPc =
    EgControl nat bool
  | EgBulk bool
  | EgIdle
  | EgFlag bool
  | EgBlock bool bool
  | EgDone
  | EgFailed FrameError

datatype Lane = Control | Bulk

record 'f Egress =
  eg_control :: "'f list"
  eg_bulk :: "'f list"
  eg_control_gone :: bool
  eg_bulk_gone :: bool
  eg_pc :: EgPc
  eg_out :: "(Lane \<times> 'f) list"
  eg_control_sent :: "'f list"
  eg_bulk_sent :: "'f list"
  eg_over :: nat

definition egress_init :: "'f Egress" where
  "egress_init = \<lparr>eg_control = [], eg_bulk = [], eg_control_gone = False, eg_bulk_gone = False, eg_pc = EgControl 0 False,
     eg_out = [], eg_control_sent = [], eg_bulk_sent = [], eg_over = 0\<rparr>"

text \<open>Writing a frame just received from a lane.\<close>
definition eg_write :: "('f \<Rightarrow> FrameError + bytes) \<Rightarrow> Lane \<Rightarrow> 'f \<Rightarrow> EgPc \<Rightarrow> 'f Egress \<Rightarrow> 'f Egress" where
  "eg_write enc lane f pc s =
     (case enc f of
        Inl err \<Rightarrow> s\<lparr>eg_pc := EgFailed err\<rparr>
      | Inr _ \<Rightarrow>
          s\<lparr>eg_out := eg_out s @ [(lane, f)], eg_pc := pc,
            eg_over := (if lane = Bulk \<or> eg_bulk s = [] then 0 else eg_over s + 1)\<rparr>)"

inductive egress_step :: "nat \<Rightarrow> nat \<Rightarrow> ('f \<Rightarrow> FrameError + bytes) \<Rightarrow> 'f Egress \<Rightarrow> 'f Egress \<Rightarrow> bool"
  for control_depth bulk_depth enc where
  send_control: "\<lbrakk>\<not> eg_control_gone s; length (eg_control s) < control_depth\<rbrakk> \<Longrightarrow>
     egress_step control_depth bulk_depth enc s (s\<lparr>eg_control := eg_control s @ [f], eg_control_sent := eg_control_sent s @ [f]\<rparr>)"
| send_bulk: "\<lbrakk>\<not> eg_bulk_gone s; length (eg_bulk s) < bulk_depth\<rbrakk> \<Longrightarrow>
     egress_step control_depth bulk_depth enc s (s\<lparr>eg_bulk := eg_bulk s @ [f], eg_bulk_sent := eg_bulk_sent s @ [f]\<rparr>)"
| drop_control: "\<not> eg_control_gone s \<Longrightarrow> egress_step control_depth bulk_depth enc s (s\<lparr>eg_control_gone := True\<rparr>)"
| drop_bulk: "\<not> eg_bulk_gone s \<Longrightarrow> egress_step control_depth bulk_depth enc s (s\<lparr>eg_bulk_gone := True\<rparr>)"
| control_full: "\<lbrakk>eg_pc s = EgControl n w; n \<ge> MAX_CONTROL_RUN; eg_bulk s \<noteq> []\<rbrakk> \<Longrightarrow>
     egress_step control_depth bulk_depth enc s (s\<lparr>eg_pc := EgBulk w\<rparr>)"
| control_recv: "\<lbrakk>eg_pc s = EgControl n w; n < MAX_CONTROL_RUN \<or> eg_bulk s = []; eg_control s = f # fs\<rbrakk> \<Longrightarrow>
     egress_step control_depth bulk_depth enc s (eg_write enc Control f (EgControl (n + 1) True) (s\<lparr>eg_control := fs\<rparr>))"
| control_empty: "\<lbrakk>eg_pc s = EgControl n w; n < MAX_CONTROL_RUN \<or> eg_bulk s = []; eg_control s = []\<rbrakk> \<Longrightarrow>
     egress_step control_depth bulk_depth enc s (s\<lparr>eg_pc := EgBulk w\<rparr>)"
| bulk_recv: "\<lbrakk>eg_pc s = EgBulk w; eg_bulk s = f # fs\<rbrakk> \<Longrightarrow>
     egress_step control_depth bulk_depth enc s (eg_write enc Bulk f (EgControl 0 False) (s\<lparr>eg_bulk := fs\<rparr>))"
| bulk_empty: "\<lbrakk>eg_pc s = EgBulk w; eg_bulk s = []\<rbrakk> \<Longrightarrow>
     egress_step control_depth bulk_depth enc s (s\<lparr>eg_pc := (if w then EgControl 0 False else EgIdle)\<rparr>)"
| idle: "eg_pc s = EgIdle \<Longrightarrow> egress_step control_depth bulk_depth enc s (s\<lparr>eg_pc := EgFlag (\<not> eg_control_gone s)\<rparr>)"
| flag: "eg_pc s = EgFlag c \<Longrightarrow>
     egress_step control_depth bulk_depth enc s
       (s\<lparr>eg_pc := (if c \<or> \<not> eg_bulk_gone s then EgBlock c (\<not> eg_bulk_gone s) else EgDone)\<rparr>)"
| block_control: "\<lbrakk>eg_pc s = EgBlock True b; eg_control s = f # fs\<rbrakk> \<Longrightarrow>
     egress_step control_depth bulk_depth enc s (eg_write enc Control f (EgControl 0 False) (s\<lparr>eg_control := fs\<rparr>))"
| block_bulk: "\<lbrakk>eg_pc s = EgBlock c True; eg_bulk s = f # fs\<rbrakk> \<Longrightarrow>
     egress_step control_depth bulk_depth enc s (eg_write enc Bulk f (EgControl 0 False) (s\<lparr>eg_bulk := fs\<rparr>))"
| block_gone: "\<lbrakk>eg_pc s = EgBlock c b; (c \<and> eg_control s = [] \<and> eg_control_gone s) \<or> (b \<and> eg_bulk s = [] \<and> eg_bulk_gone s)\<rbrakk> \<Longrightarrow>
     egress_step control_depth bulk_depth enc s (s\<lparr>eg_pc := EgControl 0 False\<rparr>)"
| transport: "\<lbrakk>eg_pc s \<noteq> EgDone; \<forall>err. eg_pc s \<noteq> EgFailed err\<rbrakk> \<Longrightarrow>
     egress_step control_depth bulk_depth enc s (s\<lparr>eg_pc := EgFailed (FrameIo k)\<rparr>)"

inductive_cases egress_stepE: "egress_step cd bd enc s s'"

subsection \<open>Invariants\<close>

text \<open>The frames of a lane among those written.\<close>
definition lane_out :: "Lane \<Rightarrow> (Lane \<times> 'f) list \<Rightarrow> 'f list" where
  "lane_out lane out = map snd (filter (\<lambda>(l, _). l = lane) out)"

lemma lane_out_simps [simp]:
  "lane_out lane [] = []" "lane_out lane (out @ [(l, f)]) = lane_out lane out @ (if l = lane then [f] else [])"
  by (simp_all add: lane_out_def)

definition failed :: "'f Egress \<Rightarrow> bool" where
  "failed s \<longleftrightarrow> (\<exists>err. eg_pc s = EgFailed err)"

definition order_inv :: "'f Egress \<Rightarrow> bool" where
  "order_inv s \<longleftrightarrow>
     prefix (lane_out Control (eg_out s)) (eg_control_sent s) \<and> prefix (lane_out Bulk (eg_out s)) (eg_bulk_sent s) \<and>
     (\<not> failed s \<longrightarrow> lane_out Control (eg_out s) @ eg_control s = eg_control_sent s \<and>
                    lane_out Bulk (eg_out s) @ eg_bulk s = eg_bulk_sent s)"

definition wait_inv :: "'f Egress \<Rightarrow> bool" where
  "wait_inv s \<longleftrightarrow>
     (eg_bulk s = [] \<and> \<not> failed s \<longrightarrow> eg_over s = 0) \<and> eg_over s \<le> MAX_CONTROL_RUN + 1 \<and>
     (case eg_pc s of
        EgControl n w \<Rightarrow> eg_over s \<le> n + 1 \<and> (w \<longleftrightarrow> 0 < n)
      | EgBulk w \<Rightarrow> True
      | EgFailed _ \<Rightarrow> True
      | EgDone \<Rightarrow> True
      | _ \<Rightarrow> eg_over s = 0)"

lemma order_inv_write:
  assumes "lane_out Control (eg_out s) @ f # fs = eg_control_sent s" and "lane_out Bulk (eg_out s) @ eg_bulk s = eg_bulk_sent s"
  shows "order_inv (eg_write enc Control f pc (s\<lparr>eg_control := fs\<rparr>))"
  using assms [symmetric] by (auto simp: order_inv_def eg_write_def failed_def split: sum.split)

lemma order_inv_write_bulk:
  assumes "lane_out Control (eg_out s) @ eg_control s = eg_control_sent s" and "lane_out Bulk (eg_out s) @ f # fs = eg_bulk_sent s"
  shows "order_inv (eg_write enc Bulk f pc (s\<lparr>eg_bulk := fs\<rparr>))"
  using assms [symmetric] by (auto simp: order_inv_def eg_write_def failed_def split: sum.split)

lemma order_inv_pc: "\<lbrakk>order_inv s; \<not> failed s\<rbrakk> \<Longrightarrow> order_inv (s\<lparr>eg_pc := pc\<rparr>)"
  by (auto simp: order_inv_def failed_def)

lemma order_inv_step: "\<lbrakk>egress_step cd bd enc s s'; order_inv s\<rbrakk> \<Longrightarrow> order_inv s'"
proof (induction rule: egress_step.induct)
  case (send_control s f)
  then show ?case by (auto simp: order_inv_def failed_def)
next
  case (send_bulk s f)
  then show ?case by (auto simp: order_inv_def failed_def)
qed (auto simp: failed_def intro!: order_inv_pc order_inv_write order_inv_write_bulk,
     auto simp: order_inv_def failed_def)

lemma wait_inv_step: "\<lbrakk>egress_step cd bd enc s s'; wait_inv s\<rbrakk> \<Longrightarrow> wait_inv s'"
  by (induction rule: egress_step.induct)
    (auto simp: wait_inv_def eg_write_def failed_def MAX_CONTROL_RUN_def split: sum.split EgPc.splits)

lemma egress_reachable:
  assumes "(egress_step cd bd enc)\<^sup>*\<^sup>* egress_init s"
  shows "order_inv s \<and> wait_inv s"
  using assms
proof (induction rule: rtranclp_induct)
  case base
  then show ?case by (simp add: order_inv_def wait_inv_def egress_init_def failed_def)
next
  case (step s s')
  then show ?case using order_inv_step wait_inv_step by blast
qed

subsection \<open>Closing\<close>

text \<open>Both lanes are disconnected and the writer has not yet taken a queued frame for none.\<close>
definition closing :: "'f Egress \<Rightarrow> bool" where
  "closing s \<longleftrightarrow>
     eg_control_gone s \<and> eg_bulk_gone s \<and>
     (case eg_pc s of
        EgControl n w \<Rightarrow> w \<longleftrightarrow> 0 < n
      | EgBulk w \<Rightarrow> w \<or> eg_control s = []
      | EgFailed _ \<Rightarrow> True
      | EgBlock c b \<Rightarrow> (c \<or> b) \<and> eg_control s = [] \<and> eg_bulk s = []
      | _ \<Rightarrow> eg_control s = [] \<and> eg_bulk s = [])"

lemma closing_step: "\<lbrakk>egress_step cd bd enc s s'; closing s\<rbrakk> \<Longrightarrow> closing s'"
  by (induction rule: egress_step.induct)
    (auto simp: closing_def eg_write_def MAX_CONTROL_RUN_def split: sum.split EgPc.splits)

fun pc_rank :: "EgPc \<Rightarrow> nat" where
  "pc_rank (EgControl n w) = (if w then 9 else 5)"
| "pc_rank (EgBulk w) = (if w then 8 else 4)"
| "pc_rank EgIdle = 3"
| "pc_rank (EgFlag c) = (if c then 7 else 2)"
| "pc_rank (EgBlock c b) = 6"
| "pc_rank EgDone = 0"
| "pc_rank (EgFailed _) = 0"

definition steps_left :: "'f Egress \<Rightarrow> nat" where
  "steps_left s = 10 * (length (eg_control s) + length (eg_bulk s)) + pc_rank (eg_pc s)"

lemma closing_progress:
  "\<lbrakk>egress_step cd bd enc s s'; closing s\<rbrakk> \<Longrightarrow> steps_left s' < steps_left s"
proof (induction rule: egress_step.induct)
  case (transport s k)
  then show ?case by (cases "eg_pc s") (auto simp: steps_left_def)
qed (auto simp: closing_def steps_left_def eg_write_def split: sum.split)

lemma closing_run:
  "\<lbrakk>(egress_step cd bd enc ^^ k) s s'; closing s\<rbrakk> \<Longrightarrow> closing s' \<and> k + steps_left s' \<le> steps_left s"
proof (induction k arbitrary: s')
  case (Suc k)
  then obtain t where t: "(egress_step cd bd enc ^^ k) s t" "egress_step cd bd enc t s'" by auto
  with Suc have "closing t" "k + steps_left t \<le> steps_left s" by auto
  then show ?case using closing_step [OF t(2)] closing_progress [OF t(2)] by simp
qed simp

text \<open>A step of the writer that fails only because a queued frame cannot be encoded.\<close>
definition own_step :: "nat \<Rightarrow> nat \<Rightarrow> ('f \<Rightarrow> FrameError + bytes) \<Rightarrow> 'f Egress \<Rightarrow> 'f Egress \<Rightarrow> bool" where
  "own_step cd bd enc s s' \<longleftrightarrow>
     egress_step cd bd enc s s' \<and>
     (\<forall>err. eg_pc s' = EgFailed err \<longrightarrow> (\<exists>f \<in> set (eg_control s) \<union> set (eg_bulk s). enc f = Inl err))"

lemma own_step_pc: "\<lbrakk>egress_step cd bd enc s (s\<lparr>eg_pc := pc\<rparr>); \<forall>err. pc \<noteq> EgFailed err\<rbrakk> \<Longrightarrow> \<exists>s'. own_step cd bd enc s s'"
  by (intro exI [of _ "s\<lparr>eg_pc := pc\<rparr>"]) (simp add: own_step_def)

lemma own_step_write:
  "\<lbrakk>egress_step cd bd enc s (eg_write enc lane f pc t); f \<in> set (eg_control s) \<union> set (eg_bulk s); \<forall>err. pc \<noteq> EgFailed err\<rbrakk> \<Longrightarrow>
   \<exists>s'. own_step cd bd enc s s'"
  by (intro exI [of _ "eg_write enc lane f pc t"]) (auto simp: own_step_def eg_write_def split: sum.splits)

text \<open>While closing, the writer itself always has a step until it ends.\<close>
lemma closing_moves:
  assumes "closing s" and "eg_pc s \<noteq> EgDone" and "\<not> failed s"
  shows "\<exists>s'. own_step cd bd enc s s'"
proof (cases "eg_pc s")
  case (EgControl n w)
  show ?thesis
  proof (cases "n < MAX_CONTROL_RUN \<or> eg_bulk s = []")
    case True
    show ?thesis
    proof (cases "eg_control s")
      case Nil
      show ?thesis by (rule own_step_pc [OF control_empty [OF EgControl True Nil]]) simp
    next
      case (Cons f fs)
      show ?thesis by (rule own_step_write [OF control_recv [OF EgControl True Cons]]) (use Cons in simp_all)
    qed
  next
    case False
    show ?thesis by (rule own_step_pc [OF control_full [OF EgControl]]) (use False in simp_all)
  qed
next
  case (EgBulk w)
  show ?thesis
  proof (cases "eg_bulk s")
    case Nil
    show ?thesis by (rule own_step_pc [OF bulk_empty [OF EgBulk Nil]]) simp
  next
    case (Cons f fs)
    show ?thesis by (rule own_step_write [OF bulk_recv [OF EgBulk Cons]]) (use Cons in simp_all)
  qed
next
  case EgIdle
  show ?thesis by (rule own_step_pc [OF idle [OF EgIdle]]) simp
next
  case (EgFlag c)
  show ?thesis by (rule own_step_pc [OF flag [OF EgFlag]]) simp
next
  case (EgBlock c b)
  show ?thesis by (rule own_step_pc [OF block_gone [OF EgBlock]]) (use EgBlock assms(1) in \<open>auto simp: closing_def\<close>)
qed (use assms in \<open>auto simp: failed_def\<close>)

text \<open>The run in which the last response is sent between the writer's last look and its test for disconnection.\<close>
definition race_states :: "'f \<Rightarrow> 'f Egress list" where
  "race_states f =
     (let s0 = egress_init;
          s1 = s0\<lparr>eg_pc := EgBulk False\<rparr>;
          s2 = s1\<lparr>eg_pc := EgIdle\<rparr>;
          s3 = s2\<lparr>eg_control := [f], eg_control_sent := [f]\<rparr>;
          s4 = s3\<lparr>eg_control_gone := True\<rparr>;
          s5 = s4\<lparr>eg_bulk_gone := True\<rparr>;
          s6 = s5\<lparr>eg_pc := EgFlag False\<rparr>
      in [s0, s1, s2, s3, s4, s5, s6, s6\<lparr>eg_pc := EgDone\<rparr>])"

lemma egress_rules:
  "\<lbrakk>eg_pc s = EgControl 0 w; eg_control s = []; s' = s\<lparr>eg_pc := EgBulk w\<rparr>\<rbrakk> \<Longrightarrow> egress_step cd bd enc s s'"
  "\<lbrakk>eg_pc s = EgBulk False; eg_bulk s = []; s' = s\<lparr>eg_pc := EgIdle\<rparr>\<rbrakk> \<Longrightarrow> egress_step cd bd enc s s'"
  "\<lbrakk>eg_pc s = EgIdle; eg_control_gone s; s' = s\<lparr>eg_pc := EgFlag False\<rparr>\<rbrakk> \<Longrightarrow> egress_step cd bd enc s s'"
  "\<lbrakk>eg_pc s = EgFlag False; eg_bulk_gone s; s' = s\<lparr>eg_pc := EgDone\<rparr>\<rbrakk> \<Longrightarrow> egress_step cd bd enc s s'"
  "\<lbrakk>\<not> eg_control_gone s; length (eg_control s) < cd;
    s' = s\<lparr>eg_control := eg_control s @ [f], eg_control_sent := eg_control_sent s @ [f]\<rparr>\<rbrakk> \<Longrightarrow> egress_step cd bd enc s s'"
  "\<lbrakk>\<not> eg_control_gone s; s' = s\<lparr>eg_control_gone := True\<rparr>\<rbrakk> \<Longrightarrow> egress_step cd bd enc s s'"
  "\<lbrakk>\<not> eg_bulk_gone s; s' = s\<lparr>eg_bulk_gone := True\<rparr>\<rbrakk> \<Longrightarrow> egress_step cd bd enc s s'"
  using control_empty [of s 0 w cd bd enc] send_control [of s cd bd enc f] drop_control [of s cd bd enc]
    drop_bulk [of s cd bd enc] bulk_empty [of s False cd bd enc] idle [of s cd bd enc] flag [of s False cd bd enc]
  by (simp_all add: MAX_CONTROL_RUN_def)

lemma race_run:
  assumes "0 < cd"
  shows "successively (egress_step cd bd enc) (race_states f)"
proof -
  let ?s = "\<lambda>i. race_states f ! i"
  note states = race_states_def egress_init_def Let_def
  have "egress_step cd bd enc (?s 0) (?s 1)" by (rule egress_rules(1) [where w = False]) (simp_all add: states)
  moreover have "egress_step cd bd enc (?s 1) (?s 2)" by (rule egress_rules(2)) (simp_all add: states)
  moreover have "egress_step cd bd enc (?s 2) (?s 3)" by (rule egress_rules(5) [where f = f]) (simp_all add: states assms)
  moreover have "egress_step cd bd enc (?s 3) (?s 4)" by (rule egress_rules(6)) (simp_all add: states)
  moreover have "egress_step cd bd enc (?s 4) (?s 5)" by (rule egress_rules(7)) (simp_all add: states)
  moreover have "egress_step cd bd enc (?s 5) (?s 6)" by (rule egress_rules(3)) (simp_all add: states)
  moreover have "egress_step cd bd enc (?s 6) (?s 7)" by (rule egress_rules(4)) (simp_all add: states)
  ultimately show ?thesis by (simp add: states)
qed

lemma successively_reaches: "successively R (x # xs) \<Longrightarrow> R\<^sup>*\<^sup>* x (last (x # xs))"
  by (induction xs arbitrary: x) (auto intro: converse_rtranclp_into_rtranclp)

subsection \<open>Properties\<close>

text \<open>
  C25. On every interleaving of producers and writer, what was written of each lane is a prefix of what was sent on it, in
  order; as long as no write failed, every sent frame is either written once or still queued; and no more than 65
  control frames are ever written while one bulk frame waits at the head of its lane (a full run of 64 and the one taken by the blocking receive).
\<close>
theorem egress_order_and_fairness:
  assumes "(egress_step cd bd enc)\<^sup>*\<^sup>* egress_init s"
  shows "prefix (lane_out Control (eg_out s)) (eg_control_sent s) \<and> prefix (lane_out Bulk (eg_out s)) (eg_bulk_sent s) \<and>
         (\<not> failed s \<longrightarrow> lane_out Control (eg_out s) @ eg_control s = eg_control_sent s \<and>
                        lane_out Bulk (eg_out s) @ eg_bulk s = eg_bulk_sent s) \<and>
         eg_over s \<le> MAX_CONTROL_RUN + 1"
  using egress_reachable [OF assms] by (simp add: order_inv_def wait_inv_def)

theorem egress_order_and_fairness_witness:
  "eg_over (last (race_states [1 :: byte])) \<le> MAX_CONTROL_RUN + 1 \<and>
   lane_out Control (eg_out (last (race_states [1 :: byte]))) @ eg_control (last (race_states [1 :: byte])) = [[1]]"
proof -
  have "(egress_step 1 1 Inr)\<^sup>*\<^sup>* egress_init (last (race_states [1 :: byte]))"
    using successively_reaches [of "egress_step 1 1 Inr" egress_init "tl (race_states [1 :: byte])"] race_run [of 1 1 Inr "[1 :: byte]"]
    by (simp add: race_states_def Let_def)
  from egress_order_and_fairness [OF this] show ?thesis
    by (simp add: race_states_def Let_def failed_def)
qed

text \<open>
  C33. Closing drains: once both lanes are disconnected while the writer is in its control loop (not between finding the
  lanes empty and testing them for disconnection), every run is finite (at most ten steps per queued frame and nine
  more); until it ends, the writer always has a step of its own, which fails only on a frame that cannot be encoded; and
  when it ends without failing, every frame ever sent has been written, each lane in order.
\<close>
theorem egress_closing_drains:
  assumes "(egress_step cd bd enc)\<^sup>*\<^sup>* egress_init s" and "eg_control_gone s" and "eg_bulk_gone s" and "eg_pc s = EgControl n w"
    and "(egress_step cd bd enc ^^ k) s s'"
  shows "k \<le> 10 * (length (eg_control s) + length (eg_bulk s)) + 9 \<and>
         (failed s' \<or>
          eg_pc s' \<noteq> EgDone \<and>
          (\<exists>s''. egress_step cd bd enc s' s'' \<and>
             (\<forall>err. eg_pc s'' = EgFailed err \<longrightarrow> (\<exists>f \<in> set (eg_control s') \<union> set (eg_bulk s'). enc f = Inl err))) \<or>
          eg_pc s' = EgDone \<and> lane_out Control (eg_out s') = eg_control_sent s' \<and> lane_out Bulk (eg_out s') = eg_bulk_sent s')"
proof -
  have "closing s" using egress_reachable [OF assms(1)] assms(2-4) by (simp add: closing_def wait_inv_def)
  note run = closing_run [OF assms(5) this]
  have "(egress_step cd bd enc)\<^sup>*\<^sup>* s s'" using assms(5) by (rule relpowp_imp_rtranclp)
  then have "order_inv s'" using egress_reachable assms(1) by (meson rtranclp_trans)
  moreover have "steps_left s \<le> 10 * (length (eg_control s) + length (eg_bulk s)) + 9" using assms(4) by (simp add: steps_left_def)
  ultimately show ?thesis
    using run closing_moves [of s' cd bd enc]
    by (cases "eg_pc s' = EgDone") (auto simp: closing_def order_inv_def failed_def own_step_def)
qed

text \<open>A frame queued when both lanes close: it is written, and the writer goes on.\<close>
theorem egress_closing_drains_witness:
  "\<exists>s s' s''. (egress_step 1 1 Inr)\<^sup>*\<^sup>* egress_init (s :: bytes Egress) \<and> (egress_step 1 1 Inr ^^ 1) s s' \<and>
     eg_out s' = [(Control, [7])] \<and> egress_step 1 1 Inr s' s'' \<and> \<not> failed s''"
proof -
  let ?init = "egress_init\<lparr>eg_control := [[7]], eg_control_sent := [[7]]\<rparr> :: bytes Egress"
  let ?s = "?init\<lparr>eg_control_gone := True, eg_bulk_gone := True\<rparr>"
  let ?t = "eg_write Inr Control [7] (EgControl (0 + 1) True) (?s\<lparr>eg_control := []\<rparr>)"
  have "egress_step 1 1 Inr egress_init ?init"
    using send_control [of egress_init 1 1 Inr "[7 :: byte]"] by (simp add: egress_init_def)
  moreover have "egress_step 1 1 Inr ?init (?init\<lparr>eg_control_gone := True\<rparr>)" by (rule drop_control) (simp add: egress_init_def)
  moreover have "egress_step 1 1 Inr (?init\<lparr>eg_control_gone := True\<rparr>) ?s"
    using drop_bulk [of "?init\<lparr>eg_control_gone := True\<rparr>" 1 1 Inr] by (simp add: egress_init_def)
  ultimately have reach: "(egress_step 1 1 Inr)\<^sup>*\<^sup>* egress_init ?s" by (meson r_into_rtranclp rtranclp.rtrancl_into_rtrancl)
  have "egress_step 1 1 Inr ?s ?t"
    by (rule control_recv [where w = False]) (simp_all add: egress_init_def MAX_CONTROL_RUN_def)
  then have run: "(egress_step 1 1 Inr ^^ 1) ?s ?t" by (simp add: eq_OO)
  have t: "eg_out ?t = [(Control, [7])]" "\<not> failed ?t" "eg_pc ?t \<noteq> EgDone"
    by (simp_all add: eg_write_def failed_def egress_init_def)
  obtain u where "egress_step 1 1 Inr ?t u" "\<forall>err. eg_pc u \<noteq> EgFailed err"
    using egress_closing_drains [OF reach _ _ _ run, of 0 False] t by (auto simp: egress_init_def)
  then show ?thesis using reach run t(1) unfolding failed_def by blast
qed

text \<open>
  C34. The writer can end without writing a response that was sent: if the last frame of a lane is sent and both lanes are
  then disconnected after the writer found them empty and before it tests for disconnection, the test succeeds and the
  loop returns success with the frame still queued.
\<close>
theorem egress_can_lose_last_frame:
  assumes "0 < cd"
  shows "\<exists>s. (egress_step cd bd enc)\<^sup>*\<^sup>* egress_init s \<and> eg_pc s = EgDone \<and> eg_control_sent s = [f] \<and> eg_out s = []"
proof -
  have "(egress_step cd bd enc)\<^sup>*\<^sup>* egress_init (last (race_states f))"
    using successively_reaches [of "egress_step cd bd enc" egress_init "tl (race_states f)"] race_run [OF assms, of bd enc f]
    by (simp add: race_states_def Let_def)
  moreover have "eg_pc (last (race_states f)) = EgDone" "eg_control_sent (last (race_states f)) = [f]"
      "eg_out (last (race_states f)) = []"
    by (simp_all add: race_states_def egress_init_def Let_def)
  ultimately show ?thesis by blast
qed

theorem egress_can_lose_last_frame_witness:
  "\<exists>s. (egress_step 64 256 Inr)\<^sup>*\<^sup>* egress_init s \<and> eg_pc s = EgDone \<and> eg_control_sent s = [[7 :: byte]] \<and> eg_out s = []"
  by (rule egress_can_lose_last_frame) simp

end
