(* ===== verification/Streaming.thy ===== *)
theory Streaming
  imports Wire
begin

text \<open>
  Streaming matched events in bounded batches: the server's reads and subscriptions (\<open>run_read\<close>, \<open>run_subscribe\<close>,
  \<open>send_event_batch\<close> of \<open>crates/tephra-server/src/conn.rs\<close>) and the embedded read pool
  (\<open>crates/tephra/src/read/pool.rs\<close>).

  What runs beside a stream is given to it: \<open>go i\<close> is what \<open>should_continue\<close> answers before the \<open>i\<close>-th item,
  \<open>accepts j\<close> whether the \<open>j\<close>-th send finds its receiver, and a subscription sees a list of rounds. The result is the
  list of what was sent. A panic inside a read (\<open>ReadPanic\<close>) unwinds: the server's worker swallows it, the pool's
  worker reports \<open>Aborted\<close>. Threads, the queue in front of the workers and the futures of the pool are not modelled.
\<close>

subsection \<open>Configuration\<close>

text \<open>Durations are in milliseconds.\<close>
record ServerConfig =
  max_frame_len :: nat
  read_batch_events :: nat
  read_batch_bytes :: nat
  subscribe_wait_tick :: nat
  max_inflight_requests_per_conn :: nat
  max_concurrent_subscriptions :: nat
  read_worker_threads :: nat
  frame_queue_depth :: nat
  keepalive_idle :: nat
  keepalive_interval :: nat
  max_connections :: nat
  incomplete_frame_timeout :: nat
  handshake_timeout :: nat
  idle_timeout :: nat

definition ServerConfig_default :: ServerConfig where
  "ServerConfig_default =
     \<lparr>max_frame_len = DEFAULT_MAX_FRAME_LEN, read_batch_events = 1024, read_batch_bytes = 512 * 1024,
      subscribe_wait_tick = 250, max_inflight_requests_per_conn = 256, max_concurrent_subscriptions = 64,
      read_worker_threads = 0, frame_queue_depth = 256, keepalive_idle = 60000, keepalive_interval = 15000,
      max_connections = 1024, incomplete_frame_timeout = 30000, handshake_timeout = 0, idle_timeout = 0\<rparr>"

subsection \<open>The server's reads\<close>

text \<open>\<open>send_bulk\<close>: whether the frame was queued, and what was sent so far.\<close>
definition send_bulk_frame :: "(nat \<Rightarrow> bool) \<Rightarrow> 'a \<Rightarrow> 'a list \<Rightarrow> bool \<times> 'a list" where
  "send_bulk_frame accepts resp sent = (if accepts (length sent) then (True, sent @ [resp]) else (False, sent))"

definition full_batch :: "ServerConfig \<Rightarrow> 'a list \<Rightarrow> nat \<Rightarrow> bool" where
  "full_batch cfg batch batch_bytes \<longleftrightarrow> length batch \<ge> read_batch_events cfg \<or> batch_bytes \<ge> read_batch_bytes cfg"

text \<open>The loop of \<open>run_read\<close> over the read \<open>r\<close>.\<close>
function read_frames ::
  "crc_fun \<Rightarrow> ServerConfig \<Rightarrow> nat \<Rightarrow> (nat \<Rightarrow> bool) \<Rightarrow> (nat \<Rightarrow> bool) \<Rightarrow> Position \<Rightarrow> nat \<Rightarrow> 'm Reads
     \<Rightarrow> pb_SequencedEvent list \<Rightarrow> nat \<Rightarrow> pb_Response list \<Rightarrow> pb_Response list" where
  "read_frames crc cfg rid go accepts wm i r batch batch_bytes sent =
     (case Reads_next crc r of
        (None, _) \<Rightarrow>
          (case (if batch \<noteq> [] then send_bulk_frame accepts (make_response rid (RespReadEvents batch)) sent else (True, sent)) of
             (False, sent) \<Rightarrow> sent
           | (True, sent) \<Rightarrow> snd (send_bulk_frame accepts (make_response rid (RespReadEnd wm)) sent))
      | (Some item, r) \<Rightarrow>
          if item = Inl ReadPanic then sent
          else if \<not> go i then sent
          else case item of
            Inl err \<Rightarrow> snd (send_bulk_frame accepts (make_response rid (RespError (internal_error (ShowRead err)))) sent)
          | Inr sq \<Rightarrow>
              let batch_bytes = batch_bytes + length (buf (sq_event sq));
                  batch = batch @ [sequenced_to_proto (sq_position sq) (sq_event sq)]
              in if full_batch cfg batch batch_bytes
                 then (case send_bulk_frame accepts (make_response rid (RespReadEvents batch)) sent of
                         (False, sent) \<Rightarrow> sent
                       | (True, sent) \<Rightarrow> read_frames crc cfg rid go accepts wm (i + 1) r [] 0 sent)
                 else read_frames crc cfg rid go accepts wm (i + 1) r batch batch_bytes sent)"
  by pat_completeness auto
termination
  by (relation "measure (\<lambda>(crc, cfg, rid, go, accepts, wm, i, r, batch, bb, sent). mode_left (rd_mode r))")
    (auto simp: Reads_next_def dest!: mode_next_progress split: option.splits if_splits prod.splits)

declare read_frames.simps [simp del]

record ReadRun =
  rr_request_id :: nat
  rr_query :: Query
  rr_cursor :: Position
  rr_reverse :: bool
  rr_limit :: "nat option"

definition run_read ::
  "crc_fun \<Rightarrow> 'm fst_crate \<Rightarrow> 'm ReadCore \<Rightarrow> ReadConfig \<Rightarrow> ServerConfig \<Rightarrow> (nat \<Rightarrow> bool) \<Rightarrow> (nat \<Rightarrow> bool) \<Rightarrow> ReadRun \<Rightarrow> pb_Response list" where
  "run_read crc F c rcfg cfg go accepts job =
     (let reads = (if rr_reverse job then handle_read_back crc F c rcfg (rr_query job) (rr_cursor job) (rr_limit job)
                   else handle_read crc F c rcfg (rr_query job) (rr_cursor job) (rr_limit job))
      in read_frames crc cfg (rr_request_id job) go accepts (rd_watermark reads) 0 reads [] 0 [])"

subsection \<open>The server's subscriptions\<close>

text \<open>\<open>send_event_batch\<close>: \<open>False\<close> when the writer is gone.\<close>
fun event_frames ::
  "ServerConfig \<Rightarrow> nat \<Rightarrow> (nat \<Rightarrow> bool) \<Rightarrow> (Position \<times> Event) list \<Rightarrow> pb_SequencedEvent list \<Rightarrow> nat \<Rightarrow> pb_Response list \<Rightarrow> bool \<times> pb_Response list" where
  "event_frames cfg rid accepts [] batch batch_bytes sent =
     (if batch \<noteq> [] then send_bulk_frame accepts (make_response rid (RespReadEvents batch)) sent else (True, sent))"
| "event_frames cfg rid accepts ((p, e) # events) batch batch_bytes sent =
     (let batch_bytes = batch_bytes + length (buf e);
          batch = batch @ [sequenced_to_proto p e]
      in if full_batch cfg batch batch_bytes
         then (case send_bulk_frame accepts (make_response rid (RespReadEvents batch)) sent of
                 (False, sent) \<Rightarrow> (False, sent)
               | (True, sent) \<Rightarrow> event_frames cfg rid accepts events [] 0 sent)
         else event_frames cfg rid accepts events batch batch_bytes sent)"

definition send_event_batch ::
  "ServerConfig \<Rightarrow> nat \<Rightarrow> (nat \<Rightarrow> bool) \<Rightarrow> (Position \<times> Event) list \<Rightarrow> pb_Response list \<Rightarrow> bool \<times> pb_Response list" where
  "send_event_batch cfg rid accepts events sent = event_frames cfg rid accepts events [] 0 sent"

text \<open>What one turn of \<open>run_subscribe\<close> sees: \<open>should_continue\<close>, the core it polls, the passes of its bounded wait.\<close>
record 'm SubTurn =
  tn_go :: bool
  tn_core :: "'m ReadCore"
  tn_wait :: "('m ReadCore \<times> bool) list"

text \<open>The loop of \<open>run_subscribe\<close>: the frames sent, the subscription and whether the loop returned.\<close>
fun subscribe_frames ::
  "crc_fun \<Rightarrow> 'm fst_crate \<Rightarrow> ServerConfig \<Rightarrow> nat \<Rightarrow> (nat \<Rightarrow> bool) \<Rightarrow> 'm SubTurn list \<Rightarrow> Subscription \<Rightarrow> bool
     \<Rightarrow> pb_Response list \<Rightarrow> pb_Response list \<times> Subscription \<times> bool" where
  "subscribe_frames crc F cfg rid accepts [] sub announced sent = (sent, sub, False)"
| "subscribe_frames crc F cfg rid accepts (t # turns) sub announced sent =
     (if \<not> tn_go t then (sent, sub, True)
      else case poll_batch crc F (tn_core t) sub of
        (Inl err, sub) \<Rightarrow>
          (if err = ReadPanic then sent
           else snd (send_bulk_frame accepts (make_response rid (RespError (internal_error (ShowRead err)))) sent), sub, True)
      | (Inr batch, sub) \<Rightarrow>
          if batch = [] then
            (case (if announced then (True, sent)
                   else send_bulk_frame accepts (make_response rid (RespCaughtUp (sub_cursor sub))) sent) of
               (False, sent) \<Rightarrow> (sent, sub, True)
             | (True, sent) \<Rightarrow>
                 (case wait_past (sub_cursor sub) (tn_wait t) of
                    None \<Rightarrow> (sent, sub, False)
                  | Some Closed \<Rightarrow> (sent, sub, True)
                  | Some _ \<Rightarrow> subscribe_frames crc F cfg rid accepts turns sub True sent))
          else
            (case send_event_batch cfg rid accepts batch sent of
               (False, sent) \<Rightarrow> (sent, sub, True)
             | (True, sent) \<Rightarrow> subscribe_frames crc F cfg rid accepts turns sub False sent))"

definition run_subscribe ::
  "crc_fun \<Rightarrow> 'm fst_crate \<Rightarrow> 'm ReadCore \<Rightarrow> ReadConfig \<Rightarrow> ServerConfig \<Rightarrow> nat \<Rightarrow> Query \<Rightarrow> Position \<Rightarrow> (nat \<Rightarrow> bool)
     \<Rightarrow> 'm SubTurn list \<Rightarrow> pb_Response list \<times> Subscription \<times> bool" where
  "run_subscribe crc F c rcfg cfg rid q aft accepts turns =
     subscribe_frames crc F cfg rid accepts turns (fst (Subscription_new c rcfg q aft)) False []"

subsection \<open>The embedded read pool\<close>

record ReadPoolConfig =
  pool_workers :: nat
  pool_batch_events :: nat
  pool_batch_bytes :: nat
  pool_channel_depth :: nat
  pool_queue_capacity :: nat

definition ReadPoolConfig_default :: "nat \<Rightarrow> ReadPoolConfig" where
  "ReadPoolConfig_default parallelism =
     \<lparr>pool_workers = parallelism, pool_batch_events = DEFAULT_MAX_BATCH_EVENTS, pool_batch_bytes = 512 * 1024,
      pool_channel_depth = 8, pool_queue_capacity = 1024\<rparr>"

text \<open>The clamping of \<open>with_config\<close>.\<close>
definition pool_with_config :: "ReadPoolConfig \<Rightarrow> ReadPoolConfig" where
  "pool_with_config cfg =
     \<lparr>pool_workers = max (pool_workers cfg) 1, pool_batch_events = max (pool_batch_events cfg) 1,
      pool_batch_bytes = max (pool_batch_bytes cfg) 1, pool_channel_depth = max (pool_channel_depth cfg) 1,
      pool_queue_capacity = max (pool_queue_capacity cfg) 1\<rparr>"

type_synonym ReadItem = "ReadsError + (Position \<times> Event) list"

datatype SendOutcome = Sent | SendTimedOut | SendDisconnected

text \<open>The rounds of \<open>send_item\<close>: the shutdown flag read and what \<open>send_timeout\<close> gave; \<open>None\<close> while still parked.\<close>
fun send_item :: "(bool \<times> SendOutcome) list \<Rightarrow> bool option" where
  "send_item [] = None"
| "send_item ((shut, res) # rounds) =
     (if shut then Some False
      else case res of
        Sent \<Rightarrow> Some True
      | SendTimedOut \<Rightarrow> send_item rounds
      | SendDisconnected \<Rightarrow> Some False)"

text \<open>\<open>run_job\<close>: the items sent, and whether the read panicked.\<close>
function job_items ::
  "crc_fun \<Rightarrow> ReadPoolConfig \<Rightarrow> (nat \<Rightarrow> (bool \<times> SendOutcome) list) \<Rightarrow> 'm Reads \<Rightarrow> (Position \<times> Event) list \<Rightarrow> nat
     \<Rightarrow> ReadItem list \<Rightarrow> ReadItem list \<times> bool" where
  "job_items crc cfg rounds r batch bytes_seen sent =
     (case Reads_next crc r of
        (None, _) \<Rightarrow>
          (if batch \<noteq> [] \<and> send_item (rounds (length sent)) = Some True then sent @ [Inr batch] else sent, False)
      | (Some (Inr sq), r) \<Rightarrow>
          let bytes_seen = bytes_seen + length (buf (sq_event sq));
              batch = batch @ [(sq_position sq, sq_event sq)]
          in if length batch \<ge> pool_batch_events cfg \<or> bytes_seen \<ge> pool_batch_bytes cfg
             then (if send_item (rounds (length sent)) = Some True
                   then job_items crc cfg rounds r [] 0 (sent @ [Inr batch])
                   else (sent, False))
             else job_items crc cfg rounds r batch bytes_seen sent
      | (Some (Inl err), r) \<Rightarrow>
          if err = ReadPanic then (sent, True)
          else (if send_item (rounds (length sent)) = Some True then sent @ [Inl err] else sent, False))"
  by pat_completeness auto
termination
  by (relation "measure (\<lambda>(crc, cfg, rounds, r, batch, b, sent). mode_left (rd_mode r))")
    (auto simp: Reads_next_def dest!: mode_next_progress split: option.splits if_splits prod.splits)

declare job_items.simps [simp del]

text \<open>One turn of \<open>worker_loop\<close>: a caught panic is reported with the retained sender.\<close>
definition pool_job ::
  "crc_fun \<Rightarrow> 'm fst_crate \<Rightarrow> 'm ReadCore \<Rightarrow> ReadConfig \<Rightarrow> ReadPoolConfig \<Rightarrow> (nat \<Rightarrow> (bool \<times> SendOutcome) list) \<Rightarrow> ReadRun \<Rightarrow> ReadItem list" where
  "pool_job crc F c rcfg cfg rounds job =
     (let reads = (if rr_reverse job then handle_read_back crc F c rcfg (rr_query job) (rr_cursor job) (rr_limit job)
                   else handle_read crc F c rcfg (rr_query job) (rr_cursor job) (rr_limit job))
      in case job_items crc cfg rounds reads [] 0 [] of
           (sent, True) \<Rightarrow> sent @ [Inl Aborted]
         | (sent, False) \<Rightarrow> sent)"

text \<open>The loop of \<open>collect\<close> on what the closed channel delivers.\<close>
fun pool_collect :: "ReadItem list \<Rightarrow> (Position \<times> Event) list \<Rightarrow> ReadsError + (Position \<times> Event) list" where
  "pool_collect [] out = Inr out"
| "pool_collect (Inr batch # items) out = pool_collect items (out @ batch)"
| "pool_collect (Inl err # items) out = Inl err"

subsection \<open>Batches\<close>

text \<open>The reference: items cut into batches, each closed when it reaches \<open>n\<close> items or weight \<open>k\<close>.\<close>
fun batches :: "nat \<Rightarrow> nat \<Rightarrow> ('a \<Rightarrow> nat) \<Rightarrow> 'a list \<Rightarrow> nat \<Rightarrow> 'a list \<Rightarrow> 'a list list" where
  "batches n k wt cur b [] = (if cur = [] then [] else [cur])"
| "batches n k wt cur b (x # xs) =
     (if length cur + 1 \<ge> n \<or> b + wt x \<ge> k then (cur @ [x]) # batches n k wt [] 0 xs
      else batches n k wt (cur @ [x]) (b + wt x) xs)"

lemma concat_batches: "concat (batches n k wt cur b xs) = cur @ xs"
  by (induction n k wt cur b xs rule: batches.induct) auto

lemma batches_bounds:
  assumes "ys \<in> set (batches n k wt cur b xs)" and "length cur < max n 1" and "cur \<noteq> [] \<Longrightarrow> sum_list (map wt cur) < k"
    and "b = sum_list (map wt cur)"
  shows "ys \<noteq> [] \<and> length ys \<le> max n 1 \<and> (length ys = 1 \<or> sum_list (map wt (butlast ys)) < k)"
  using assms
proof (induction n k wt cur b xs rule: batches.induct)
  case (1 n k wt cur b)
  then show ?case
  proof (cases "length cur = 1")
    case False
    have "sum_list (map wt (butlast cur)) \<le> sum_list (map wt cur)"
      by (metis append_butlast_last_id le_add1 list.map(1) butlast.simps(1) map_append order_refl sum_list_append)
    then show ?thesis using 1 by (auto split: if_splits)
  qed (auto split: if_splits)
next
  case (2 n k wt cur b x xs)
  show ?case
  proof (cases "length cur + 1 \<ge> n \<or> b + wt x \<ge> k")
    case True
    then show ?thesis using 2 by (cases n; cases cur) (auto split: if_splits)
  next
    case False
    then show ?thesis using 2 by auto
  qed
qed

lemma batches_map: "batches n k (wt \<circ> f) cur b xs = ys \<Longrightarrow> batches n k wt (map f cur) b (map f xs) = map (map f) ys"
  by (induction n k "wt \<circ> f" cur b xs arbitrary: ys rule: batches.induct) auto

definition to_pb :: "Sequenced \<Rightarrow> pb_SequencedEvent" where
  "to_pb sq = sequenced_to_proto (sq_position sq) (sq_event sq)"

definition event_size :: "Sequenced \<Rightarrow> nat" where "event_size sq = length (buf (sq_event sq))"

text \<open>The frames of a whole read: the batches, then the end with the watermark.\<close>
definition batch_frames :: "ServerConfig \<Rightarrow> nat \<Rightarrow> Sequenced list \<Rightarrow> nat \<Rightarrow> Sequenced list \<Rightarrow> pb_Response list" where
  "batch_frames cfg rid cur b xs =
     map (\<lambda>ys. make_response rid (RespReadEvents (map to_pb ys)))
       (batches (read_batch_events cfg) (read_batch_bytes cfg) event_size cur b xs)"

lemma batch_frames_Nil: "batch_frames cfg rid cur b [] = (if cur = [] then [] else [make_response rid (RespReadEvents (map to_pb cur))])"
  by (simp add: batch_frames_def)

lemma batch_frames_Cons:
  "batch_frames cfg rid cur b (x # xs) =
     (if full_batch cfg (cur @ [x]) (b + event_size x)
      then make_response rid (RespReadEvents (map to_pb (cur @ [x]))) # batch_frames cfg rid [] 0 xs
      else batch_frames cfg rid (cur @ [x]) (b + event_size x) xs)"
  by (simp add: batch_frames_def full_batch_def)

lemma full_batch_map [simp]: "full_batch cfg (map f ys) b = full_batch cfg ys b"
  by (simp add: full_batch_def)

lemma read_frames_Some:
  assumes "Reads_next crc r = (Some (Inr sq), r')"
  shows "read_frames crc cfg rid go accepts wm i r (map to_pb cur) b sent =
     (if \<not> go i then sent
      else if full_batch cfg (cur @ [sq]) (b + event_size sq)
      then (case send_bulk_frame accepts (make_response rid (RespReadEvents (map to_pb (cur @ [sq])))) sent of
              (False, sent) \<Rightarrow> sent
            | (True, sent) \<Rightarrow> read_frames crc cfg rid go accepts wm (i + 1) r' [] 0 sent)
      else read_frames crc cfg rid go accepts wm (i + 1) r' (map to_pb (cur @ [sq])) (b + event_size sq) sent)"
  using full_batch_map [of cfg to_pb "cur @ [sq]" "b + event_size sq"]
  by (subst read_frames.simps) (simp add: assms to_pb_def event_size_def Let_def)

lemma read_frames_prefix:
  assumes "drains (Reads_next crc) r xs"
  shows "\<exists>ms. prefix ms (batch_frames cfg rid cur b xs @ [make_response rid (RespReadEnd wm)]) \<and>
     read_frames crc cfg rid go accepts wm i r (map to_pb cur) b sent = sent @ ms \<and>
     ((\<forall>i. go i) \<and> (\<forall>j. accepts j) \<longrightarrow> ms = batch_frames cfg rid cur b xs @ [make_response rid (RespReadEnd wm)])"
  using assms
proof (induction arbitrary: cur b i sent rule: drains.induct)
  case (drains_end r r')
  have "read_frames crc cfg rid go accepts wm i r (map to_pb cur) b sent = sent @ ms" 
    if "ms = (if cur = [] then (if accepts (length sent) then [make_response rid (RespReadEnd wm)] else [])
        else if \<not> accepts (length sent) then []
        else make_response rid (RespReadEvents (map to_pb cur)) #
          (if accepts (Suc (length sent)) then [make_response rid (RespReadEnd wm)] else []))" for ms
    using that drains_end by (subst read_frames.simps) (simp add: send_bulk_frame_def)
  then show ?case by (auto simp: batch_frames_Nil)
next
  case (drains_item r a r' xs)
  note step = read_frames_Some [OF drains_item.hyps(1)]
  show ?case
  proof (cases "go i \<and> (full_batch cfg (cur @ [a]) (b + event_size a) \<longrightarrow> accepts (length sent))")
    case False
    then have "read_frames crc cfg rid go accepts wm i r (map to_pb cur) b sent = sent"
      by (auto simp: step send_bulk_frame_def)
    then show ?thesis using False by (intro exI [of _ "[]"]) auto
  next
    case True
    show ?thesis
    proof (cases "full_batch cfg (cur @ [a]) (b + event_size a)")
      case full: True
      let ?f = "make_response rid (RespReadEvents (map to_pb (cur @ [a])))"
      obtain ms where "prefix ms (batch_frames cfg rid [] 0 xs @ [make_response rid (RespReadEnd wm)])"
        "read_frames crc cfg rid go accepts wm (i + 1) r' [] 0 (sent @ [?f]) = (sent @ [?f]) @ ms"
        "(\<forall>i. go i) \<and> (\<forall>j. accepts j) \<longrightarrow> ms = batch_frames cfg rid [] 0 xs @ [make_response rid (RespReadEnd wm)]"
        using drains_item.IH [of "[]" 0 "i + 1" "sent @ [?f]"] by auto
      then show ?thesis using True full
        by (intro exI [of _ "?f # ms"]) (simp add: step send_bulk_frame_def batch_frames_Cons)
    next
      case False
      obtain ms where "prefix ms (batch_frames cfg rid (cur @ [a]) (b + event_size a) xs @ [make_response rid (RespReadEnd wm)])"
        "read_frames crc cfg rid go accepts wm (i + 1) r' (map to_pb (cur @ [a])) (b + event_size a) sent = sent @ ms"
        "(\<forall>i. go i) \<and> (\<forall>j. accepts j) \<longrightarrow>
           ms = batch_frames cfg rid (cur @ [a]) (b + event_size a) xs @ [make_response rid (RespReadEnd wm)]"
        using drains_item.IH by blast
      then show ?thesis using True False by (intro exI [of _ ms]) (simp add: step batch_frames_Cons)
    qed
  qed
qed

lemma event_frames_ok:
  "\<exists>ms. prefix ms (batch_frames cfg rid cur b xs) \<and>
     event_frames cfg rid accepts (map (\<lambda>sq. (sq_position sq, sq_event sq)) xs) (map to_pb cur) b sent =
       (ms = batch_frames cfg rid cur b xs, sent @ ms) \<and>
     ((\<forall>j. accepts j) \<longrightarrow> ms = batch_frames cfg rid cur b xs)"
proof (induction xs arbitrary: cur b sent)
  case Nil
  then show ?case by (auto simp: batch_frames_Nil send_bulk_frame_def)
next
  case (Cons x xs)
  have step: "event_frames cfg rid accepts (map (\<lambda>sq. (sq_position sq, sq_event sq)) (x # xs)) (map to_pb cur) b sent =
     (if full_batch cfg (cur @ [x]) (b + event_size x)
      then (case send_bulk_frame accepts (make_response rid (RespReadEvents (map to_pb (cur @ [x])))) sent of
              (False, sent) \<Rightarrow> (False, sent)
            | (True, sent) \<Rightarrow> event_frames cfg rid accepts (map (\<lambda>sq. (sq_position sq, sq_event sq)) xs) [] 0 sent)
      else event_frames cfg rid accepts (map (\<lambda>sq. (sq_position sq, sq_event sq)) xs) (map to_pb (cur @ [x])) (b + event_size x) sent)"
    using full_batch_map [of cfg to_pb "cur @ [x]" "b + event_size x"]
    by (simp add: to_pb_def event_size_def Let_def)
  show ?case
  proof (cases "full_batch cfg (cur @ [x]) (b + event_size x)")
    case True
    let ?f = "make_response rid (RespReadEvents (map to_pb (cur @ [x])))"
    show ?thesis
    proof (cases "accepts (length sent)")
      case False
      then show ?thesis using True
        by (intro exI [of _ "[]"]) (auto simp add: step send_bulk_frame_def batch_frames_Cons simp del: event_frames.simps list.map)
    next
      case acc: True
      obtain ms where "prefix ms (batch_frames cfg rid [] 0 xs)"
        "event_frames cfg rid accepts (map (\<lambda>sq. (sq_position sq, sq_event sq)) xs) [] 0 (sent @ [?f]) =
           (ms = batch_frames cfg rid [] 0 xs, (sent @ [?f]) @ ms)"
        "(\<forall>j. accepts j) \<longrightarrow> ms = batch_frames cfg rid [] 0 xs"
        using Cons.IH [of "[]" 0 "sent @ [?f]"] by auto
      then show ?thesis using True acc
        by (intro exI [of _ "?f # ms"]) (simp add: step send_bulk_frame_def batch_frames_Cons del: event_frames.simps list.map)
    qed
  next
    case False
    then show ?thesis using Cons.IH [of "cur @ [x]" "b + event_size x" sent] by (simp only: step batch_frames_Cons if_False)
  qed
qed

subsection \<open>Reads over a published state\<close>

text \<open>The positions a request reads, in the order of its direction.\<close>
definition read_spec :: "Event list \<Rightarrow> Position \<Rightarrow> ReadRun \<Rightarrow> Position list" where
  "read_spec es wm job =
     (if rr_reverse job then read_positions Backward (rr_query job) es 0 (min (rr_cursor job - 1) wm) (rr_limit job)
      else read_positions Forward (rr_query job) es (rr_cursor job) wm (rr_limit job))"

definition job_reads :: "crc_fun \<Rightarrow> 'm fst_crate \<Rightarrow> 'm ReadCore \<Rightarrow> ReadConfig \<Rightarrow> ReadRun \<Rightarrow> 'm Reads" where
  "job_reads crc F c rcfg job =
     (if rr_reverse job then handle_read_back crc F c rcfg (rr_query job) (rr_cursor job) (rr_limit job)
      else handle_read crc F c rcfg (rr_query job) (rr_cursor job) (rr_limit job))"

lemma plan_watermark: "rd_watermark (plan_directional crc F d sn q aft up wm cfg limit) = wm"
  by (auto simp: plan_directional_def reads_of_def split: sum.splits prod.splits Access.splits)

lemma job_reads_drain:
  assumes "core_shows crc F c es" and "wf_Query (rr_query job)"
  shows "drains (Reads_next crc) (job_reads crc F c rcfg job) (map (sequenced es) (read_spec es (rc_watermark c) job))"
    and "rd_watermark (job_reads crc F c rcfg job) = rc_watermark c"
proof -
  have sn: "snap_ok crc F (rc_segments c) es" "rc_watermark c \<le> length es" using assms(1) by (auto simp: core_shows_def)
  have up: "min (rr_cursor job - 1) (rc_watermark c) \<le> length es" using sn(2) by simp
  show "drains (Reads_next crc) (job_reads crc F c rcfg job) (map (sequenced es) (read_spec es (rc_watermark c) job))"
    using plan_drain [OF sn(1) assms(2) sn(2), of Forward "rr_cursor job" "rc_watermark c" rcfg "rr_limit job"]
      plan_drain [OF sn(1) assms(2) up, of Backward 0 "rc_watermark c" rcfg "rr_limit job"]
    by (simp add: job_reads_def handle_read_def handle_read_back_def core_load_def Reads_plan_def Reads_plan_back_def
        read_spec_def Position_ZERO_def)
  show "rd_watermark (job_reads crc F c rcfg job) = rc_watermark c"
    by (simp add: job_reads_def handle_read_def handle_read_back_def core_load_def Reads_plan_def Reads_plan_back_def plan_watermark)
qed

text \<open>Every frame of a completed read.\<close>
definition read_answer :: "ServerConfig \<Rightarrow> Event list \<Rightarrow> Position \<Rightarrow> ReadRun \<Rightarrow> pb_Response list" where
  "read_answer cfg es wm job =
     batch_frames cfg (rr_request_id job) [] 0 (map (sequenced es) (read_spec es wm job)) @
     [make_response (rr_request_id job) (RespReadEnd wm)]"

lemma run_read_answer:
  assumes "core_shows crc F c es" and "wf_Query (rr_query job)"
  shows "prefix (run_read crc F c rcfg cfg go accepts job) (read_answer cfg es (rc_watermark c) job)"
    and "(\<forall>i. go i) \<and> (\<forall>j. accepts j) \<Longrightarrow> run_read crc F c rcfg cfg go accepts job = read_answer cfg es (rc_watermark c) job"
  using read_frames_prefix [OF job_reads_drain(1) [OF assms, of rcfg], of cfg "rr_request_id job" "[]" 0 "rc_watermark c" go accepts 0 "[]"]
    job_reads_drain(2) [OF assms, of rcfg]
  by (auto simp: run_read_def read_answer_def Let_def job_reads_def [symmetric])

text \<open>The first frame when the second match fills the batch.\<close>
lemma read_answer_first:
  assumes "read_spec es wm job = p1 # p2 # ps" and "2 \<le> read_batch_events cfg"
    and "length (buf (es ! (p1 - 1))) < read_batch_bytes cfg"
    and "read_batch_bytes cfg \<le> length (buf (es ! (p1 - 1))) + length (buf (es ! (p2 - 1)))"
  shows "\<exists>rest. read_answer cfg es wm job =
    make_response (rr_request_id job) (RespReadEvents [to_pb (sequenced es p1), to_pb (sequenced es p2)]) # rest"
  using assms by (simp add: read_answer_def batch_frames_def event_size_def sequenced_def)

lemma read_answer_batches:
  assumes "make_response rid (RespReadEvents evs) \<in> set (read_answer cfg es wm job)"
  shows "evs \<noteq> [] \<and> length evs \<le> max (read_batch_events cfg) 1"
proof -
  from assms obtain ys where "evs = map to_pb ys"
    "ys \<in> set (batches (read_batch_events cfg) (read_batch_bytes cfg) event_size [] 0 (map (sequenced es) (read_spec es wm job)))"
    by (auto simp: read_answer_def batch_frames_def make_response_def)
  from batches_bounds [OF this(2)] this(1) show ?thesis by simp
qed

subsection \<open>The pool\<close>

definition pair_of :: "Sequenced \<Rightarrow> Position \<times> Event" where "pair_of sq = (sq_position sq, sq_event sq)"

lemma job_items_Some:
  assumes "Reads_next crc r = (Some (Inr sq), r')"
  shows "job_items crc cfg rounds r batch b sent =
     (if length batch + 1 \<ge> pool_batch_events cfg \<or> b + event_size sq \<ge> pool_batch_bytes cfg
      then (if send_item (rounds (length sent)) = Some True
            then job_items crc cfg rounds r' [] 0 (sent @ [Inr (batch @ [pair_of sq])])
            else (sent, False))
      else job_items crc cfg rounds r' (batch @ [pair_of sq]) (b + event_size sq) sent)"
  by (subst job_items.simps) (simp add: assms event_size_def pair_of_def Let_def)

lemma pool_collect_append: "pool_collect (map Inr bs @ items) out = pool_collect items (out @ concat bs)"
  by (induction bs arbitrary: out) auto

text \<open>A job sends a prefix of the batches, and all of them when no send is refused.\<close>
lemma job_items_ok:
  assumes "drains (Reads_next crc) r xs"
  shows "\<exists>bs. prefix bs (batches (pool_batch_events cfg) (pool_batch_bytes cfg) event_size cur b xs) \<and>
     job_items crc cfg rounds r (map pair_of cur) b sent = (sent @ map (\<lambda>ys. Inr (map pair_of ys)) bs, False) \<and>
     ((\<forall>j. send_item (rounds j) = Some True) \<longrightarrow>
        bs = batches (pool_batch_events cfg) (pool_batch_bytes cfg) event_size cur b xs)"
  using assms
proof (induction arbitrary: cur b sent rule: drains.induct)
  case (drains_end r r')
  then show ?case by (subst job_items.simps) auto
next
  case (drains_item r a r' xs)
  note step = job_items_Some [OF drains_item.hyps(1)]
  let ?full = "length cur + 1 \<ge> pool_batch_events cfg \<or> b + event_size a \<ge> pool_batch_bytes cfg"
  show ?case
  proof (cases ?full)
    case True
    show ?thesis
    proof (cases "send_item (rounds (length sent)) = Some True")
      case ok: True
      obtain bs where "prefix bs (batches (pool_batch_events cfg) (pool_batch_bytes cfg) event_size [] 0 xs)"
        "job_items crc cfg rounds r' [] 0 (sent @ [Inr (map pair_of (cur @ [a]))]) =
           ((sent @ [Inr (map pair_of (cur @ [a]))]) @ map (\<lambda>ys. Inr (map pair_of ys)) bs, False)"
        "(\<forall>j. send_item (rounds j) = Some True) \<longrightarrow> bs = batches (pool_batch_events cfg) (pool_batch_bytes cfg) event_size [] 0 xs"
        using drains_item.IH [of "[]" 0 "sent @ [Inr (map pair_of (cur @ [a]))]"] by auto
      then show ?thesis using True ok by (intro exI [of _ "(cur @ [a]) # bs"]) (auto simp: step)
    next
      case False
      then show ?thesis using True by (intro exI [of _ "[]"]) (auto simp: step)
    qed
  next
    case False
    then show ?thesis using drains_item.IH [of "cur @ [a]" "b + event_size a" sent] by (simp add: step)
  qed
qed

lemma pool_job_ok:
  assumes "core_shows crc F c es" and "wf_Query (rr_query job)"
  obtains bs where "pool_job crc F c rcfg cfg rounds job = map Inr bs"
    and "prefix (concat bs) (map (\<lambda>p. (p, es ! (p - 1))) (read_spec es (rc_watermark c) job))"
    and "\<forall>j. send_item (rounds j) = Some True \<Longrightarrow> concat bs = map (\<lambda>p. (p, es ! (p - 1))) (read_spec es (rc_watermark c) job)"
proof -
  let ?xs = "map (sequenced es) (read_spec es (rc_watermark c) job)"
  let ?bs = "batches (pool_batch_events cfg) (pool_batch_bytes cfg) event_size [] 0 ?xs"
  obtain bs where bs: "prefix bs ?bs"
    "job_items crc cfg rounds (job_reads crc F c rcfg job) [] 0 [] = (map (\<lambda>ys. Inr (map pair_of ys)) bs, False)"
    "(\<forall>j. send_item (rounds j) = Some True) \<longrightarrow> bs = ?bs"
    using job_items_ok [OF job_reads_drain(1) [OF assms, of rcfg], of cfg "[]" 0 rounds "[]"] by auto
  have all: "concat (map (map pair_of) ?bs) = map (\<lambda>p. (p, es ! (p - 1))) (read_spec es (rc_watermark c) job)"
    by (simp flip: map_concat add: concat_batches pair_of_def sequenced_def comp_def)
  from bs(1) obtain rest where "?bs = bs @ rest" by (auto simp: prefix_def)
  then have "prefix (concat (map (map pair_of) bs)) (map (\<lambda>p. (p, es ! (p - 1))) (read_spec es (rc_watermark c) job))"
    using all by (metis concat_append map_append prefixI)
  then show thesis
    using that [of "map (map pair_of) bs"] bs(2,3) all
    by (auto simp: pool_job_def Let_def job_reads_def [symmetric])
qed

subsection \<open>Subscriptions over frames\<close>

fun frame_events :: "ResponseKind \<Rightarrow> pb_SequencedEvent list" where
  "frame_events (RespReadEvents evs) = evs"
| "frame_events _ = []"

definition delivered :: "pb_Response list \<Rightarrow> pb_SequencedEvent list" where
  "delivered rs = concat (map (frame_events \<circ> rs_kind) rs)"

lemma delivered_simps [simp]:
  "delivered [] = []" "delivered (r # rs) = frame_events (rs_kind r) @ delivered rs" "delivered (rs @ rs') = delivered rs @ delivered rs'"
  by (simp_all add: delivered_def)

lemma delivered_prefix: "prefix rs rs' \<Longrightarrow> prefix (delivered rs) (delivered rs')"
  by (auto simp: prefix_def)

lemma delivered_batch_frames: "delivered (batch_frames cfg rid [] 0 xs) = map to_pb xs"
proof -
  have "delivered (batch_frames cfg rid [] 0 xs) =
      concat (map (map to_pb) (batches (read_batch_events cfg) (read_batch_bytes cfg) event_size [] 0 xs))"
    by (simp add: delivered_def batch_frames_def make_response_def comp_def)
  then show ?thesis by (simp flip: map_concat add: concat_batches)
qed

lemma batch_frames_kind: "r \<in> set (batch_frames cfg rid cur b xs) \<Longrightarrow> \<exists>evs. r = make_response rid (RespReadEvents evs)"
  by (auto simp: batch_frames_def)

text \<open>The matches between two positions, as the wire carries them.\<close>
definition found_pb :: "Query \<Rightarrow> Event list \<Rightarrow> Position \<Rightarrow> Position \<Rightarrow> pb_SequencedEvent list" where
  "found_pb q es a b = map (\<lambda>(p, e). sequenced_to_proto p e) (found q es a b)"

lemma found_pb_split: "\<lbrakk>a \<le> b; b \<le> c\<rbrakk> \<Longrightarrow> found_pb q es a c = found_pb q es a b @ found_pb q es b c"
  using found_split [of a b c q es] by (simp add: found_pb_def)

lemma found_pb_empty: "found q es a b = [] \<Longrightarrow> found_pb q es a b = []"
  by (simp add: found_pb_def)

lemma send_found:
  "\<exists>ms. prefix (delivered ms) (found_pb q es a b) \<and> (\<forall>r \<in> set ms. \<exists>evs. r = make_response rid (RespReadEvents evs)) \<and>
     (\<exists>ok. send_event_batch cfg rid accepts (found q es a b) sent = (ok, sent @ ms) \<and> (ok \<longrightarrow> delivered ms = found_pb q es a b) \<and>
        ((\<forall>j. accepts j) \<longrightarrow> ok))"
proof -
  let ?sq = "\<lambda>(p, e). \<lparr>sq_position = p, sq_event = e\<rparr>"
  let ?xs = "map ?sq (found q es a b)"
  have xs: "map (\<lambda>sq. (sq_position sq, sq_event sq)) ?xs = found q es a b" by (simp add: comp_def case_prod_unfold)
  have pb: "map to_pb ?xs = found_pb q es a b" by (auto simp: found_pb_def to_pb_def)
  obtain ms where ms: "prefix ms (batch_frames cfg rid [] 0 ?xs)"
    "event_frames cfg rid accepts (found q es a b) [] 0 sent = (ms = batch_frames cfg rid [] 0 ?xs, sent @ ms)"
    "(\<forall>j. accepts j) \<longrightarrow> ms = batch_frames cfg rid [] 0 ?xs"
    using event_frames_ok [of cfg rid "[]" 0 ?xs accepts sent] unfolding xs by auto
  have "\<forall>r \<in> set ms. \<exists>evs. r = make_response rid (RespReadEvents evs)"
    using ms(1) batch_frames_kind set_mono_prefix by blast
  then show ?thesis
    using ms delivered_prefix [OF ms(1)] delivered_batch_frames [of cfg rid ?xs] unfolding pb send_event_batch_def by auto
qed

text \<open>What a subscription has sent when its cursor moved from \<open>a\<close> to \<open>cur\<close>.\<close>
definition sub_sent :: "Query \<Rightarrow> Event list \<Rightarrow> nat \<Rightarrow> Position \<Rightarrow> Position \<Rightarrow> pb_Response list \<Rightarrow> bool" where
  "sub_sent q es rid a cur ms \<longleftrightarrow>
     prefix (delivered ms) (found_pb q es a cur) \<and>
     (\<forall>xs ys w. ms = xs @ make_response rid (RespCaughtUp w) # ys \<longrightarrow> a \<le> w \<and> delivered xs = found_pb q es a w) \<and>
     (\<forall>r \<in> set ms. (\<exists>evs. r = make_response rid (RespReadEvents evs)) \<or> (\<exists>w. r = make_response rid (RespCaughtUp w)))"

lemma sub_sent_events:
  assumes "prefix (delivered ms) (found_pb q es a b)" and "\<forall>r \<in> set ms. \<exists>evs. r = make_response rid (RespReadEvents evs)"
  shows "sub_sent q es rid a b ms"
  using assms by (auto simp: sub_sent_def make_response_def)

lemma sub_sent_append:
  assumes "sub_sent q es rid a b ms" and "delivered ms = found_pb q es a b" and "sub_sent q es rid b cur ms'"
    and "a \<le> b" and "b \<le> cur"
  shows "sub_sent q es rid a cur (ms @ ms')"
proof -
  have "a \<le> w \<and> delivered xs = found_pb q es a w" if split: "ms @ ms' = xs @ make_response rid (RespCaughtUp w) # ys" for xs ys w
  proof -
    from split consider us where "ms = xs @ make_response rid (RespCaughtUp w) # us" "ys = us @ ms'"
      | vs where "xs = ms @ vs" "ms' = vs @ make_response rid (RespCaughtUp w) # ys"
      by (auto simp: append_eq_append_conv2 Cons_eq_append_conv append_eq_Cons_conv)
    then show ?thesis
    proof cases
      case 1
      then show ?thesis using assms(1) by (simp add: sub_sent_def)
    next
      case 2
      then have "delivered vs = found_pb q es b w" "b \<le> w" using assms(3) by (auto simp: sub_sent_def)
      then show ?thesis using 2 assms(2,4) found_pb_split [OF assms(4), of w q es] by simp
    qed
  qed
  then show ?thesis using assms found_pb_split [OF assms(4,5), of q es] by (auto simp: sub_sent_def)
qed

text \<open>One turn sends what its poll found and moves the cursor; it ends the loop or goes on to the next turn.\<close>
lemma subscribe_turn:
  assumes "core_shows crc F (tn_core t) (take n es)" and "wf_Query (sub_query sub)" and "1 \<le> max_batch_events sub"
  obtains pre b where "sub_cursor sub \<le> b" and "sub_sent (sub_query sub) es rid (sub_cursor sub) b pre"
    and "(\<forall>j. accepts j) \<longrightarrow> delivered pre = found_pb (sub_query sub) es (sub_cursor sub) b"
    and "(\<exists>ended. subscribe_frames crc F cfg rid accepts (t # turns) sub announced sent = (sent @ pre, sub\<lparr>sub_cursor := b\<rparr>, ended)) \<or>
      delivered pre = found_pb (sub_query sub) es (sub_cursor sub) b \<and>
      (\<exists>ann. subscribe_frames crc F cfg rid accepts (t # turns) sub announced sent =
              subscribe_frames crc F cfg rid accepts turns (sub\<lparr>sub_cursor := b\<rparr>) ann (sent @ pre))"
proof (cases "tn_go t")
  case False
  then show thesis
    using that [of "sub_cursor sub" "[]"] by (auto simp: sub_sent_def found_pb_def found_def)
next
  case go: True
  let ?q = "sub_query sub" and ?a = "sub_cursor sub"
  obtain b where b: "poll_batch crc F (tn_core t) sub = (Inr (found ?q es ?a b), sub\<lparr>sub_cursor := b\<rparr>)" "?a \<le> b"
    using poll_batch_log [OF assms] by metis
  show thesis
  proof (cases "found ?q es ?a b = []")
    case True
    define pre where "pre = (if announced \<or> \<not> accepts (length sent) then [] else [make_response rid (RespCaughtUp b)])"
    have pre: "sub_sent ?q es rid ?a b pre" "delivered pre = found_pb ?q es ?a b"
      using found_pb_empty [OF True] b(2) by (auto simp: pre_def sub_sent_def make_response_def Cons_eq_append_conv)
    have "(\<exists>ended. subscribe_frames crc F cfg rid accepts (t # turns) sub announced sent = (sent @ pre, sub\<lparr>sub_cursor := b\<rparr>, ended)) \<or>
        (\<exists>ann. subscribe_frames crc F cfg rid accepts (t # turns) sub announced sent =
              subscribe_frames crc F cfg rid accepts turns (sub\<lparr>sub_cursor := b\<rparr>) ann (sent @ pre))"
      using go b(1) True by (auto simp: pre_def send_bulk_frame_def split: option.split WaitOutcome.split)
    then show thesis using that [OF b(2) pre(1)] pre(2) by simp
  next
    case False
    obtain ms ok where ms: "prefix (delivered ms) (found_pb ?q es ?a b)" "\<forall>r \<in> set ms. \<exists>evs. r = make_response rid (RespReadEvents evs)"
      "send_event_batch cfg rid accepts (found ?q es ?a b) sent = (ok, sent @ ms)" "ok \<longrightarrow> delivered ms = found_pb ?q es ?a b"
      "(\<forall>j. accepts j) \<longrightarrow> ok"
      using send_found [of ?q es ?a b rid cfg accepts sent] by blast
    then show thesis
      using that [OF b(2) sub_sent_events [OF ms(1,2)]] go b(1) False by (cases ok) auto
  qed
qed

lemma subscribe_frames_ok:
  assumes "\<forall>t \<in> set turns. \<exists>n. core_shows crc F (tn_core t) (take n es)" and "wf_Query (sub_query sub)"
    and "1 \<le> max_batch_events sub"
  shows "\<exists>ms cur ended. subscribe_frames crc F cfg rid accepts turns sub announced sent = (sent @ ms, sub\<lparr>sub_cursor := cur\<rparr>, ended) \<and>
     sub_cursor sub \<le> cur \<and> sub_sent (sub_query sub) es rid (sub_cursor sub) cur ms \<and>
     ((\<forall>j. accepts j) \<longrightarrow> delivered ms = found_pb (sub_query sub) es (sub_cursor sub) cur)"
  using assms
proof (induction turns arbitrary: sub announced sent)
  case Nil
  show ?case by (intro exI [of _ "[]"] exI [of _ "sub_cursor sub"]) (auto simp: sub_sent_def found_pb_def found_def)
next
  case (Cons t turns)
  let ?q = "sub_query sub" and ?a = "sub_cursor sub"
  obtain n where "core_shows crc F (tn_core t) (take n es)" using Cons.prems(1) by auto
  then obtain pre b where pre: "?a \<le> b" "sub_sent ?q es rid ?a b pre" "(\<forall>j. accepts j) \<longrightarrow> delivered pre = found_pb ?q es ?a b"
    and turn: "(\<exists>ended. subscribe_frames crc F cfg rid accepts (t # turns) sub announced sent = (sent @ pre, sub\<lparr>sub_cursor := b\<rparr>, ended)) \<or>
      delivered pre = found_pb ?q es ?a b \<and>
      (\<exists>ann. subscribe_frames crc F cfg rid accepts (t # turns) sub announced sent =
              subscribe_frames crc F cfg rid accepts turns (sub\<lparr>sub_cursor := b\<rparr>) ann (sent @ pre))"
    by (rule subscribe_turn [OF _ Cons.prems(2,3)])
  from turn show ?case
  proof
    assume "\<exists>ended. subscribe_frames crc F cfg rid accepts (t # turns) sub announced sent = (sent @ pre, sub\<lparr>sub_cursor := b\<rparr>, ended)"
    then show ?thesis using pre by blast
  next
    assume go_on: "delivered pre = found_pb ?q es ?a b \<and>
      (\<exists>ann. subscribe_frames crc F cfg rid accepts (t # turns) sub announced sent =
              subscribe_frames crc F cfg rid accepts turns (sub\<lparr>sub_cursor := b\<rparr>) ann (sent @ pre))"
    then obtain ann where ann: "subscribe_frames crc F cfg rid accepts (t # turns) sub announced sent =
        subscribe_frames crc F cfg rid accepts turns (sub\<lparr>sub_cursor := b\<rparr>) ann (sent @ pre)" by blast
    obtain ms cur ended where r: "subscribe_frames crc F cfg rid accepts turns (sub\<lparr>sub_cursor := b\<rparr>) ann (sent @ pre) =
        ((sent @ pre) @ ms, sub\<lparr>sub_cursor := cur\<rparr>, ended)"
      "b \<le> cur" "sub_sent ?q es rid b cur ms" "(\<forall>j. accepts j) \<longrightarrow> delivered ms = found_pb ?q es b cur"
      using Cons.IH [of "sub\<lparr>sub_cursor := b\<rparr>" ann "sent @ pre"] Cons.prems by auto
    then show ?thesis
      using ann go_on sub_sent_append [OF pre(2) conjunct1 [OF go_on] r(3) pre(1) r(2)] found_pb_split [OF pre(1) r(2), of ?q es] pre(1)
      by (intro exI [of _ "pre @ ms"] exI [of _ cur] exI [of _ ended]) auto
  qed
qed

lemma delivered_answer: "delivered (read_answer cfg es wm job) = map (\<lambda>p. sequenced_to_proto p (es ! (p - 1))) (read_spec es wm job)"
  by (simp add: read_answer_def delivered_batch_frames make_response_def to_pb_def sequenced_def comp_def)

lemma demo_core:
  obtains S ix c where "set_append_batch crc_demo 0 (map buf demo_events) demo_set = (Inr (1, 2), S)"
    and "\<And>wm closed. wm \<le> 2 \<Longrightarrow>
      core_shows crc_demo fst_demo \<lparr>rc_segments = capture S ix, rc_watermark = wm, rc_closed = closed, rc_subscribers = 1\<rparr> demo_events"
proof (rule demo_snapshot)
  fix S and ix :: "(str \<times> nat) list IndexSet"
  assume "set_append_batch crc_demo 0 (map buf demo_events) demo_set = (Inr (1, 2), S)" "snap_ok crc_demo fst_demo (capture S ix) demo_events"
  then show thesis using that [of S ix] by (simp add: core_shows_def demo_events_def)
qed

subsection \<open>Properties\<close>

text \<open>
  A streamed read is exact: whenever the worker is stopped or the writer goes away, what it sent is a prefix of the
  full answer, so an end marker never follows a gap; undisturbed it sends the whole answer, which carries exactly the
  matching events of the request's window in its direction, cut to the limit, and ends with the watermark the read was
  pinned to. No batch is empty and none holds more events than configured.
\<close>
theorem streamed_read_exact:
  assumes "core_shows crc F c es" and "wf_Query (rr_query job)"
  shows "prefix (run_read crc F c rcfg cfg go accepts job) (read_answer cfg es (rc_watermark c) job) \<and>
         ((\<forall>i. go i) \<and> (\<forall>j. accepts j) \<longrightarrow> run_read crc F c rcfg cfg go accepts job = read_answer cfg es (rc_watermark c) job) \<and>
         delivered (read_answer cfg es (rc_watermark c) job) =
           map (\<lambda>p. sequenced_to_proto p (es ! (p - 1))) (read_spec es (rc_watermark c) job) \<and>
         (\<forall>evs. make_response (rr_request_id job) (RespReadEvents evs) \<in> set (read_answer cfg es (rc_watermark c) job) \<longrightarrow>
            evs \<noteq> [] \<and> length evs \<le> max (read_batch_events cfg) 1)"
  using run_read_answer(1) [OF assms, where rcfg = rcfg and cfg = cfg and go = go and accepts = accepts]
    run_read_answer(2) [OF assms, where rcfg = rcfg and cfg = cfg and go = go and accepts = accepts]
  by (intro conjI delivered_answer) (auto dest: read_answer_batches)

theorem streamed_read_exact_witness:
  "\<exists>(c :: (str \<times> nat) list ReadCore).
     run_read crc_demo fst_demo c ReadConfig_default ServerConfig_default (\<lambda>_. True) (\<lambda>_. True)
       \<lparr>rr_request_id = 7, rr_query = All, rr_cursor = 0, rr_reverse = False, rr_limit = Some 1\<rparr> =
     read_answer ServerConfig_default demo_events 2
       \<lparr>rr_request_id = 7, rr_query = All, rr_cursor = 0, rr_reverse = False, rr_limit = Some 1\<rparr>"
proof (rule demo_core)
  fix S and ix :: "(str \<times> nat) list IndexSet"
  let ?c = "\<lparr>rc_segments = capture S ix, rc_watermark = 2, rc_closed = False, rc_subscribers = 1\<rparr>"
  assume "\<And>wm closed. wm \<le> 2 \<Longrightarrow>
    core_shows crc_demo fst_demo \<lparr>rc_segments = capture S ix, rc_watermark = wm, rc_closed = closed, rc_subscribers = 1\<rparr> demo_events"
  then have "core_shows crc_demo fst_demo ?c demo_events" by simp
  from streamed_read_exact [OF this, of "\<lparr>rr_request_id = 7, rr_query = All, rr_cursor = 0, rr_reverse = False, rr_limit = Some 1\<rparr>"
      ReadConfig_default ServerConfig_default "\<lambda>_. True" "\<lambda>_. True"]
  show ?thesis by (intro exI [of _ ?c]) (simp add: wf_Query_def)
qed

text \<open>
  C36. The read pool gives what a direct read gives: as long as no send is refused, collecting the batches a worker sends
  returns the same events in the same order as draining the read on the caller's thread, for every batch size, in both
  directions and with every limit.
\<close>
theorem pool_read_exact:
  assumes "core_shows crc F c es" and "wf_Query (rr_query job)" and "\<forall>j. send_item (rounds j) = Some True"
  shows "pool_collect (pool_job crc F c rcfg cfg rounds job) [] =
         collect_owned crc (if rr_reverse job then handle_read_back crc F c rcfg (rr_query job) (rr_cursor job) (rr_limit job)
                            else handle_read crc F c rcfg (rr_query job) (rr_cursor job) (rr_limit job))"
proof -
  obtain bs where bs: "pool_job crc F c rcfg cfg rounds job = map Inr bs"
    "concat bs = map (\<lambda>p. (p, es ! (p - 1))) (read_spec es (rc_watermark c) job)"
    using pool_job_ok [OF assms(1,2), of rcfg cfg rounds] assms(3) by metis
  show ?thesis
    using bs pool_collect_append [of bs "[]" "[]"]
      collect_drain [OF job_reads_drain(1) [OF assms(1,2), of rcfg], of "[]"]
    by (simp add: collect_owned_def job_reads_def sequenced_def comp_def)
qed

theorem pool_read_exact_witness:
  "\<exists>(c :: (str \<times> nat) list ReadCore).
     pool_collect (pool_job crc_demo fst_demo c ReadConfig_default (pool_with_config (ReadPoolConfig_default 0)) (\<lambda>_. [(False, SendTimedOut), (False, Sent)])
       \<lparr>rr_request_id = 0, rr_query = All, rr_cursor = 3, rr_reverse = True, rr_limit = None\<rparr>) [] =
     collect_owned crc_demo (handle_read_back crc_demo fst_demo c ReadConfig_default All 3 None)"
proof (rule demo_core)
  fix S and ix :: "(str \<times> nat) list IndexSet"
  let ?c = "\<lparr>rc_segments = capture S ix, rc_watermark = 2, rc_closed = False, rc_subscribers = 1\<rparr>"
  assume "\<And>wm closed. wm \<le> 2 \<Longrightarrow>
    core_shows crc_demo fst_demo \<lparr>rc_segments = capture S ix, rc_watermark = wm, rc_closed = closed, rc_subscribers = 1\<rparr> demo_events"
  then have "core_shows crc_demo fst_demo ?c demo_events" by simp
  from pool_read_exact [OF this, of "\<lparr>rr_request_id = 0, rr_query = All, rr_cursor = 3, rr_reverse = True, rr_limit = None\<rparr>"
      "\<lambda>_. [(False, SendTimedOut), (False, Sent)]" ReadConfig_default "pool_with_config (ReadPoolConfig_default 0)"]
  show ?thesis by (intro exI [of _ ?c]) (simp add: wf_Query_def)
qed

text \<open>
  C14. A remote subscription delivers every match exactly once, in order: whatever prefixes of the log its polls see and
  however its waits end, the events it sent are a prefix of the matches between its start and its cursor, and all of
  them while the writer accepts frames; a caught-up marker for a watermark is sent only after exactly the matches up to
  it; and it never sends anything else while the log is readable.
\<close>
theorem remote_subscription_exactly_once:
  assumes "\<forall>t \<in> set turns. \<exists>n. core_shows crc F (tn_core t) (take n es)" and "wf_Query q"
  shows "\<exists>ms cur sub ended. run_subscribe crc F c rcfg cfg rid q aft accepts turns = (ms, sub, ended) \<and>
     sub_cursor sub = cur \<and> aft \<le> cur \<and> prefix (delivered ms) (found_pb q es aft cur) \<and>
     ((\<forall>j. accepts j) \<longrightarrow> delivered ms = found_pb q es aft cur) \<and>
     (\<forall>xs ys w. ms = xs @ make_response rid (RespCaughtUp w) # ys \<longrightarrow> delivered xs = found_pb q es aft w) \<and>
     (\<forall>r \<in> set ms. (\<exists>evs. r = make_response rid (RespReadEvents evs)) \<or> (\<exists>w. r = make_response rid (RespCaughtUp w)))"
proof -
  let ?sub = "fst (Subscription_new c rcfg q aft)"
  have sub: "sub_query ?sub = q" "sub_cursor ?sub = aft" "1 \<le> max_batch_events ?sub"
    by (simp_all add: Subscription_new_def DEFAULT_MAX_BATCH_EVENTS_def)
  obtain ms cur ended where "subscribe_frames crc F cfg rid accepts turns ?sub False [] = (ms, ?sub\<lparr>sub_cursor := cur\<rparr>, ended)"
    "aft \<le> cur" "sub_sent q es rid aft cur ms" "(\<forall>j. accepts j) \<longrightarrow> delivered ms = found_pb q es aft cur"
    using subscribe_frames_ok [OF assms(1), of ?sub cfg rid accepts False "[]"] sub assms(2) by auto
  then show ?thesis
    by (intro exI [of _ ms] exI [of _ cur] exI [of _ "?sub\<lparr>sub_cursor := cur\<rparr>"] exI [of _ ended])
      (auto simp: run_subscribe_def sub_sent_def)
qed

theorem remote_subscription_exactly_once_witness:
  "\<exists>(c :: (str \<times> nat) list ReadCore) ms cur sub ended.
     run_subscribe crc_demo fst_demo c ReadConfig_default ServerConfig_default 9 All 0 (\<lambda>_. True) [\<lparr>tn_go = True, tn_core = c, tn_wait = []\<rparr>] =
       (ms, sub, ended) \<and> sub_cursor sub = cur \<and> delivered ms = found_pb All demo_events 0 cur"
proof (rule demo_core)
  fix S and ix :: "(str \<times> nat) list IndexSet"
  let ?c = "\<lparr>rc_segments = capture S ix, rc_watermark = 2, rc_closed = False, rc_subscribers = 1\<rparr>"
  assume "\<And>wm closed. wm \<le> 2 \<Longrightarrow>
    core_shows crc_demo fst_demo \<lparr>rc_segments = capture S ix, rc_watermark = wm, rc_closed = closed, rc_subscribers = 1\<rparr> demo_events"
  then have "\<exists>n. core_shows crc_demo fst_demo ?c (take n demo_events)" by (intro exI [of _ 2]) (simp add: demo_events_def)
  then have "\<forall>t \<in> set [\<lparr>tn_go = True, tn_core = ?c, tn_wait = []\<rparr>]. \<exists>n. core_shows crc_demo fst_demo (tn_core t) (take n demo_events)"
    by simp
  from remote_subscription_exactly_once [OF this, of All ?c ReadConfig_default ServerConfig_default 9 0 "\<lambda>_. True"] show ?thesis
    by (auto simp: wf_Query_def)
qed

text \<open>
  C37. At shutdown a remote subscription can end without the last durable events: if the store publishes a batch and
  closes while the subscription waits at the live edge, the server's loop returns without polling again, while the
  embedded \<open>next_batch\<close> delivers that batch first.
\<close>
theorem remote_subscription_drops_final_batch:
  assumes "core_shows crc F c' es" and "wf_Query (sub_query sub)" and "1 \<le> max_batch_events sub"
    and "rc_watermark c \<le> sub_cursor sub" and "rc_closed c'"
    and "found (sub_query sub) es (sub_cursor sub) (rc_watermark c') \<noteq> []"
  shows "subscribe_frames crc F cfg rid accepts (\<lparr>tn_go = True, tn_core = c, tn_wait = [(c', timed_out)]\<rparr> # turns) sub True sent =
           (sent, sub, True) \<and>
         (\<exists>batch sub'. next_batch crc F [\<lparr>poll_core = c, wait_cores = [c'], close_core = c'\<rparr>] sub = Some (Some (Inr batch), sub') \<and>
            batch \<noteq> [])"
proof -
  have live_edge: "poll_batch crc F c sub = (Inr [], sub)" using assms(4) by (simp add: poll_batch_def core_load_def)
  obtain cur where cur: "poll_batch crc F c' sub = (Inr (found (sub_query sub) es (sub_cursor sub) cur), sub\<lparr>sub_cursor := cur\<rparr>)"
    "sub_cursor sub \<le> cur" "cur \<le> max (sub_cursor sub) (rc_watermark c')"
    "found (sub_query sub) es (sub_cursor sub) cur = [] \<Longrightarrow> rc_watermark c' \<le> cur"
    using poll_batch_ok [OF assms(1-3)] by metis
  have "sub_cursor sub < rc_watermark c'" using assms(6) by (cases "sub_cursor sub < rc_watermark c'") (auto simp: found_def)
  then have "found (sub_query sub) es (sub_cursor sub) cur \<noteq> []" using cur(3,4) assms(6) by (metis le_antisym max.absorb4)
  then show ?thesis using live_edge cur(1) assms(5) by (simp add: sub_wait_def)
qed

theorem remote_subscription_drops_final_batch_witness:
  "\<exists>(c :: (str \<times> nat) list ReadCore) c'.
     subscribe_frames crc_demo fst_demo ServerConfig_default 9 (\<lambda>_. True) [\<lparr>tn_go = True, tn_core = c, tn_wait = [(c', False)]\<rparr>]
       \<lparr>sub_config = ReadConfig_default, sub_query = All, sub_cursor = 1, max_batch_events = 1024\<rparr> True [] =
     ([], \<lparr>sub_config = ReadConfig_default, sub_query = All, sub_cursor = 1, max_batch_events = 1024\<rparr>, True)"
proof (rule demo_core)
  fix S and ix :: "(str \<times> nat) list IndexSet"
  let ?c = "\<lambda>wm closed. \<lparr>rc_segments = capture S ix, rc_watermark = wm, rc_closed = closed, rc_subscribers = 1\<rparr>"
  let ?sub = "\<lparr>sub_config = ReadConfig_default, sub_query = All, sub_cursor = 1, max_batch_events = 1024\<rparr>"
  assume "\<And>wm closed. wm \<le> 2 \<Longrightarrow> core_shows crc_demo fst_demo (?c wm closed) demo_events"
  then have shows_c: "core_shows crc_demo fst_demo (?c 2 True) demo_events" by simp
  have "found All demo_events 1 2 \<noteq> []" by code_simp
  then show ?thesis
    using remote_subscription_drops_final_batch [OF shows_c, of ?sub "?c 1 False" ServerConfig_default 9 "\<lambda>_. True" False "[]" "[]"]
    by (intro exI [of _ "?c 1 False"] exI [of _ "?c 2 True"]) (simp add: wf_Query_def)
qed

end
