(* ===== verification/Server.thy ===== *)
theory Server
  imports Streaming
begin

text \<open>
  A server connection's reader side (\<open>crates/tephra-server/src/conn.rs\<close>): the Hello handshake (\<open>auth.rs\<close>), request
  dispatch, the budgets that bound what a connection may have in flight, cancellation, the append completion pump, the
  reader loop with its timeouts, and the statistics snapshot (\<open>stats.rs\<close>).

  A connection is the record \<open>Conn\<close>: what it sent on the control lane, its semaphores, the cancel flags (an \<open>Arc\<close> is an
  address into \<open>cn_flags\<close>, so the registry and a worker share one), the read jobs queued in the pool, those running, the
  live subscriptions, the appends submitted and not yet answered, and who is still there: the coordinator
  (\<open>cn_writer_open\<close>), the connection's writer (\<open>cn_control_open\<close>: the receiver of the control lane) and the pump, which
  ends at its first refused send. Blocking for ever on a semaphore is \<open>None\<close>. The
  reader loop handles one poll per turn, with one clock reading per turn. The SHA-256 of a token is the parameter
  \<open>digest\<close>. Logging, socket options, thread handles and the poll interval of a waiting read are not modelled.
\<close>

subsection \<open>Budgets\<close>

record Semaphore =
  sm_permits :: nat
  sm_capacity :: nat

definition Semaphore_new :: "nat \<Rightarrow> Semaphore" where
  "Semaphore_new n = (let cap = max n 1 in \<lparr>sm_permits = cap, sm_capacity = cap\<rparr>)"

definition sem_is_idle :: "Semaphore \<Rightarrow> bool" where
  "sem_is_idle s \<longleftrightarrow> sm_permits s = sm_capacity s"

text \<open>\<open>acquire\<close>; \<open>None\<close> blocks.\<close>
definition sem_acquire :: "Semaphore \<Rightarrow> Semaphore option" where
  "sem_acquire s = (if sm_permits s = 0 then None else Some (s\<lparr>sm_permits := sm_permits s - 1\<rparr>))"

definition sem_try_acquire :: "Semaphore \<Rightarrow> bool \<times> Semaphore" where
  "sem_try_acquire s = (if sm_permits s = 0 then (False, s) else (True, s\<lparr>sm_permits := sm_permits s - 1\<rparr>))"

definition sem_release :: "Semaphore \<Rightarrow> Semaphore" where
  "sem_release s = s\<lparr>sm_permits := sm_permits s + 1\<rparr>"

text \<open>One pass of \<open>acquire_guard_or_cancel\<close>: cancelled, acquired, or waiting for the next pass.\<close>
datatype GuardPass = GuardCancelled | GuardAcquired Semaphore | GuardWaits

definition acquire_or_cancel_pass :: "bool \<Rightarrow> Semaphore \<Rightarrow> GuardPass" where
  "acquire_or_cancel_pass cancelled s =
     (if cancelled then GuardCancelled
      else case sem_try_acquire s of (True, s) \<Rightarrow> GuardAcquired s | (False, s) \<Rightarrow> GuardWaits)"

subsection \<open>Authentication\<close>

record AuthConfig =
  au_digests :: "bytes set"

definition AuthConfig_new :: "(str \<Rightarrow> bytes) \<Rightarrow> str list \<Rightarrow> AuthConfig" where
  "AuthConfig_new digest tokens = \<lparr>au_digests = digest ` set tokens\<rparr>"

definition auth_accepts :: "(str \<Rightarrow> bytes) \<Rightarrow> AuthConfig \<Rightarrow> str \<Rightarrow> bool" where
  "auth_accepts digest auth token \<longleftrightarrow> digest token \<in> au_digests auth"

subsection \<open>Statistics\<close>

text \<open>What \<open>read_dir\<close> yields: an unreadable entry, one without metadata or not a file, or a file.\<close>
datatype DirEntry = EntryError | EntryOther | EntryFile nat bool

fun scan_entries :: "DirEntry list \<Rightarrow> nat \<Rightarrow> nat \<Rightarrow> nat \<times> nat" where
  "scan_entries [] segments disk = (segments, disk)"
| "scan_entries (EntryFile len is_log # entries) segments disk =
     scan_entries entries (if is_log then segments + 1 else segments) (disk + len)"
| "scan_entries (_ # entries) segments disk = scan_entries entries segments disk"

definition scan_data_dir :: "DirEntry list option \<Rightarrow> nat \<times> nat" where
  "scan_data_dir dir = (case dir of None \<Rightarrow> (0, 0) | Some entries \<Rightarrow> scan_entries entries 0 0)"

record SharedStats =
  ss_data_dir :: "DirEntry list option option"
  ss_start_time :: nat
  ss_active_connections :: nat
  ss_active_subscriptions :: nat
  ss_connections_refused :: nat
  ss_connections_reaped :: nat
  ss_max_connections :: nat

definition gather :: "SharedStats \<Rightarrow> Position \<Rightarrow> nat \<Rightarrow> StatsSnapshot" where
  "gather st tip now =
     (case (case ss_data_dir st of None \<Rightarrow> (0, 0) | Some dir \<Rightarrow> scan_data_dir dir) of
        (segments, disk) \<Rightarrow>
          \<lparr>sn_event_count = tip, sn_segment_count = segments, sn_disk_bytes = disk,
           sn_uptime_seconds = (now - ss_start_time st) div 1000, sn_active_connections = ss_active_connections st,
           sn_active_subscriptions = ss_active_subscriptions st, sn_connections_refused = ss_connections_refused st,
           sn_connections_reaped = ss_connections_reaped st, sn_max_connections = ss_max_connections st\<rparr>)"

subsection \<open>The connection\<close>

datatype Admission = Permitted | Overflow

record ReadJob =
  rj_run :: ReadRun
  rj_cancel :: nat
  rj_admission :: Admission

record SubWorker =
  sw_request_id :: nat
  sw_query :: Query
  sw_after :: Position
  sw_cancel :: nat

record Conn =
  cn_cfg :: ServerConfig
  cn_control :: "pb_Response list"
  cn_control_open :: bool
  cn_pump_up :: bool
  cn_cancels :: "nat \<rightharpoonup> nat"
  cn_flags :: "nat \<Rightarrow> bool"
  cn_fresh :: nat
  cn_workers :: nat
  cn_append_inflight :: Semaphore
  cn_read_inflight :: Semaphore
  cn_read_overflow :: Semaphore
  cn_subscriptions :: Semaphore
  cn_stats :: SharedStats
  cn_pool_open :: bool
  cn_pool :: "ReadJob list"
  cn_reading :: "ReadJob list"
  cn_subs :: "SubWorker list"
  cn_writer_open :: bool
  cn_reply :: nat
  cn_queue :: "Message list"
  cn_unanswered :: "nat list"

definition Conn_new :: "ServerConfig \<Rightarrow> SharedStats \<Rightarrow> nat \<Rightarrow> Conn" where
  "Conn_new cfg st reply =
     \<lparr>cn_cfg = cfg, cn_control = [], cn_control_open = True, cn_pump_up = True, cn_cancels = Map.empty, cn_flags = (\<lambda>_. False), cn_fresh = 0, cn_workers = 0,
      cn_append_inflight = Semaphore_new (max_inflight_requests_per_conn cfg),
      cn_read_inflight = Semaphore_new (max_inflight_requests_per_conn cfg),
      cn_read_overflow = Semaphore_new (max_inflight_requests_per_conn cfg),
      cn_subscriptions = Semaphore_new (max_concurrent_subscriptions cfg),
      cn_stats = st, cn_pool_open = True, cn_pool = [], cn_reading = [], cn_subs = [], cn_writer_open = True,
      cn_reply = reply, cn_queue = [], cn_unanswered = []\<rparr>"

definition has_activity :: "Conn \<Rightarrow> bool" where
  "has_activity conn \<longleftrightarrow>
     \<not> sem_is_idle (cn_append_inflight conn) \<or> \<not> sem_is_idle (cn_read_inflight conn) \<or>
     \<not> sem_is_idle (cn_read_overflow conn) \<or> \<not> sem_is_idle (cn_subscriptions conn)"

definition should_continue :: "bool \<Rightarrow> bool \<Rightarrow> nat \<Rightarrow> Conn \<Rightarrow> bool" where
  "should_continue running alive flag conn \<longleftrightarrow> running \<and> alive \<and> \<not> cn_flags conn flag"

text \<open>A send on the control lane; its result is ignored when the writer is gone.\<close>
definition send_control_frame :: "pb_Response \<Rightarrow> Conn \<Rightarrow> Conn" where
  "send_control_frame resp conn =
     conn\<lparr>cn_control := (if cn_control_open conn then cn_control conn @ [resp] else cn_control conn)\<rparr>"

definition send_error :: "nat \<Rightarrow> ErrText \<Rightarrow> Conn \<Rightarrow> Conn" where
  "send_error rid msg conn = send_control_frame (make_response rid (RespError (bad_request msg))) conn"

datatype HelloOutcome = HelloOk | HelloReject

definition handle_hello :: "(str \<Rightarrow> bytes) \<Rightarrow> AuthConfig option \<Rightarrow> pb_Request \<Rightarrow> Conn \<Rightarrow> HelloOutcome \<times> Conn" where
  "handle_hello digest auth req conn =
     (case rq_kind req of
        ReqHello hello \<Rightarrow>
          if ph_version hello \<noteq> PROTOCOL_VERSION
          then (HelloReject, send_control_frame (make_response (rq_id req) (RespError (bad_request (ShowVersion (ph_version hello))))) conn)
          else if (case auth of
                     None \<Rightarrow> True
                   | Some a \<Rightarrow> (case ph_token hello of None \<Rightarrow> False | Some token \<Rightarrow> utf8_valid token \<and> auth_accepts digest a token))
          then (HelloOk, send_control_frame (make_response (rq_id req) (RespHelloAck PROTOCOL_VERSION)) conn)
          else (HelloReject, send_control_frame (make_response (rq_id req)
                  (RespError (unauthenticated (Text ''invalid or missing auth token'')))) conn)
      | _ \<Rightarrow> (HelloReject, send_control_frame (make_response (rq_id req)
                (RespError (unauthenticated (Text ''first frame must be a hello'')))) conn))"

definition handle_stats :: "Position \<Rightarrow> nat \<Rightarrow> nat \<Rightarrow> Conn \<Rightarrow> Conn" where
  "handle_stats tip now rid conn = send_control_frame (make_response rid (RespStats (gather (cn_stats conn) tip now))) conn"

text \<open>The submission of \<open>handle_append\<close>: a permit, the coordinator's queue, and the permit back when it refuses.\<close>
definition submit_append :: "nat \<Rightarrow> Event list \<Rightarrow> AppendCondition option \<Rightarrow> Conn \<Rightarrow> Conn option" where
  "submit_append rid events condition conn =
     (case sem_acquire (cn_append_inflight conn) of
        None \<Rightarrow> None
      | Some sem \<Rightarrow>
          (case append_submit events condition rid (cn_reply conn) (cn_writer_open conn) (cn_queue conn) of
             (Inr _, queue) \<Rightarrow> Some (conn\<lparr>cn_append_inflight := sem, cn_queue := queue, cn_unanswered := cn_unanswered conn @ [rid]\<rparr>)
           | (Inl err, _) \<Rightarrow>
               Some (send_control_frame (make_response rid (RespError (append_error_to_proto err)))
                 (conn\<lparr>cn_append_inflight := sem_release sem\<rparr>))))"

definition server_append :: "nat \<Rightarrow> pb_AppendRequest \<Rightarrow> Conn \<Rightarrow> Conn option" where
  "server_append rid req conn =
     (case events_from_proto req of
        Inl err \<Rightarrow> Some (send_error rid (ShowConvert err) conn)
      | Inr events \<Rightarrow>
          (case pa_condition req of
             None \<Rightarrow> submit_append rid events None conn
           | Some pc \<Rightarrow>
               (case condition_from_proto pc of
                  Inl err \<Rightarrow> Some (send_error rid (ShowConvert err) conn)
                | Inr cond \<Rightarrow> submit_append rid events (Some cond) conn)))"

text \<open>\<open>register_cancel\<close>: a fresh flag, found from now on under the request id.\<close>
definition register_cancel :: "nat \<Rightarrow> Conn \<Rightarrow> nat \<times> Conn" where
  "register_cancel rid conn =
     (let flag = cn_fresh conn
      in (flag, conn\<lparr>cn_fresh := flag + 1, cn_flags := (cn_flags conn)(flag := False), cn_cancels := (cn_cancels conn)(rid \<mapsto> flag)\<rparr>))"

text \<open>Dropping a \<open>WorkerCleanup\<close>, without its semaphore.\<close>
definition worker_cleanup :: "nat \<Rightarrow> Conn \<Rightarrow> Conn" where
  "worker_cleanup rid conn = conn\<lparr>cn_cancels := (cn_cancels conn)(rid := None), cn_workers := cn_workers conn - 1\<rparr>"

text \<open>Dropping the permit or the overflow slot an admission holds.\<close>
definition drop_admission :: "Admission \<Rightarrow> Conn \<Rightarrow> Conn" where
  "drop_admission adm conn =
     (case adm of
        Permitted \<Rightarrow> conn\<lparr>cn_read_inflight := sem_release (cn_read_inflight conn)\<rparr>
      | Overflow \<Rightarrow> conn\<lparr>cn_read_overflow := sem_release (cn_read_overflow conn)\<rparr>)"

definition admit_read :: "Conn \<Rightarrow> (Admission \<times> Conn) option" where
  "admit_read conn =
     (case sem_try_acquire (cn_read_inflight conn) of
        (True, sem) \<Rightarrow> Some (Permitted, conn\<lparr>cn_read_inflight := sem\<rparr>)
      | (False, _) \<Rightarrow>
          (case sem_try_acquire (cn_read_overflow conn) of
             (True, sem) \<Rightarrow> Some (Overflow, conn\<lparr>cn_read_overflow := sem\<rparr>)
           | (False, _) \<Rightarrow> None))"

definition spawn_read :: "nat \<Rightarrow> pb_ReadRequest \<Rightarrow> Conn \<Rightarrow> Conn" where
  "spawn_read rid read conn =
     (case query_from_proto (pr_query read) of
        Inl err \<Rightarrow> send_error rid (ShowConvert err) conn
      | Inr query \<Rightarrow>
          (case admit_read conn of
             None \<Rightarrow> send_error rid (Text ''too many in-flight reads on this connection'') conn
           | Some (adm, conn) \<Rightarrow>
               (case register_cancel rid conn of
                  (flag, conn) \<Rightarrow>
                    let conn = conn\<lparr>cn_workers := cn_workers conn + 1\<rparr>;
                        job = \<lparr>rj_run = \<lparr>rr_request_id = rid, rr_query = query, rr_cursor = pr_after read,
                                         rr_reverse = pr_reverse read, rr_limit = pr_limit read\<rparr>,
                               rj_cancel = flag, rj_admission = adm\<rparr>
                    in if cn_pool_open conn then conn\<lparr>cn_pool := cn_pool conn @ [job]\<rparr>
                       else worker_cleanup rid (drop_admission adm conn))))"

definition set_gauge :: "(nat \<Rightarrow> nat) \<Rightarrow> Conn \<Rightarrow> Conn" where
  "set_gauge f conn = conn\<lparr>cn_stats := (cn_stats conn)\<lparr>ss_active_subscriptions := f (ss_active_subscriptions (cn_stats conn))\<rparr>\<rparr>"

text \<open>The end of a subscription worker, or of its closure when the thread could not be spawned.\<close>
definition end_subscription :: "nat \<Rightarrow> Conn \<Rightarrow> Conn" where
  "end_subscription rid conn =
     set_gauge (\<lambda>n. n - 1) (worker_cleanup rid (conn\<lparr>cn_subscriptions := sem_release (cn_subscriptions conn)\<rparr>))"

definition spawn_subscribe :: "bool \<Rightarrow> nat \<Rightarrow> pb_SubscribeRequest \<Rightarrow> Conn \<Rightarrow> Conn" where
  "spawn_subscribe spawns rid req conn =
     (case query_from_proto (psub_query req) of
        Inl err \<Rightarrow> send_error rid (ShowConvert err) conn
      | Inr query \<Rightarrow>
          (case sem_try_acquire (cn_subscriptions conn) of
             (False, _) \<Rightarrow> send_error rid (Text ''too many concurrent subscriptions on this connection'') conn
           | (True, sem) \<Rightarrow>
               (case register_cancel rid (conn\<lparr>cn_subscriptions := sem\<rparr>) of
                  (flag, conn) \<Rightarrow>
                    let conn = set_gauge (\<lambda>n. n + 1) (conn\<lparr>cn_workers := cn_workers conn + 1\<rparr>)
                    in if spawns
                       then conn\<lparr>cn_subs := cn_subs conn @
                              [\<lparr>sw_request_id = rid, sw_query = query, sw_after = psub_after req, sw_cancel = flag\<rparr>]\<rparr>
                       else send_error rid (Text ''server could not start the subscription'') (end_subscription rid conn))))"

definition handle_cancel :: "nat \<Rightarrow> Conn \<Rightarrow> Conn" where
  "handle_cancel target conn =
     (case cn_cancels conn target of
        None \<Rightarrow> conn
      | Some flag \<Rightarrow> conn\<lparr>cn_flags := (cn_flags conn)(flag := True)\<rparr>)"

text \<open>\<open>dispatch\<close>; \<open>spawns\<close> tells whether a thread can be spawned, \<open>tip\<close> and \<open>now\<close> are what a stats reply samples.\<close>
definition dispatch :: "bool \<Rightarrow> Position \<Rightarrow> nat \<Rightarrow> pb_Request \<Rightarrow> Conn \<Rightarrow> Conn option" where
  "dispatch spawns tip now req conn =
     (case rq_kind req of
        ReqAppend append_req \<Rightarrow> server_append (rq_id req) append_req conn
      | ReqRead read \<Rightarrow> Some (spawn_read (rq_id req) read conn)
      | ReqSubscribe sub \<Rightarrow> Some (spawn_subscribe spawns (rq_id req) sub conn)
      | ReqCancel target \<Rightarrow> Some (handle_cancel target conn)
      | ReqStats \<Rightarrow> Some (handle_stats tip now (rq_id req) conn)
      | _ \<Rightarrow> Some (send_error (rq_id req) (Text ''request has no append, read, subscribe, or cancel set'') conn))"

subsection \<open>Workers and the pump\<close>

text \<open>\<open>ReadJob::run\<close> up to the read: the job runs, is dropped (cancelled), or still waits for its permit.\<close>
datatype JobStart = JobRuns Conn | JobDropped Conn | JobWaits

definition job_start :: "ReadJob \<Rightarrow> Conn \<Rightarrow> JobStart" where
  "job_start job conn =
     (let rid = rr_request_id (rj_run job); cancelled = cn_flags conn (rj_cancel job)
      in case rj_admission job of
           Permitted \<Rightarrow>
             if cancelled then JobDropped (worker_cleanup rid (drop_admission Permitted conn)) else JobRuns conn
         | Overflow \<Rightarrow>
             (case acquire_or_cancel_pass cancelled (cn_read_inflight conn) of
                GuardCancelled \<Rightarrow> JobDropped (worker_cleanup rid (drop_admission Overflow conn))
              | GuardAcquired sem \<Rightarrow> JobRuns (drop_admission Overflow (conn\<lparr>cn_read_inflight := sem\<rparr>))
              | GuardWaits \<Rightarrow> JobWaits))"

text \<open>The end of \<open>ReadJob::run\<close>, also on an unwind: the cleanup and the permit go.\<close>
definition job_done :: "ReadJob \<Rightarrow> Conn \<Rightarrow> Conn" where
  "job_done job conn = worker_cleanup (rr_request_id (rj_run job)) (drop_admission Permitted conn)"

definition append_reply :: "nat \<Rightarrow> AppendError + (Position \<times> Position) \<Rightarrow> pb_Response" where
  "append_reply rid result =
     (case result of
        Inr (lo, hi) \<Rightarrow> make_response rid (RespAppend lo hi)
      | Inl err \<Rightarrow> make_response rid (RespError (append_error_to_proto err)))"

text \<open>One turn of \<open>pump_loop\<close>: the send, the permit, and the end of the loop when the writer is gone.\<close>
definition pump :: "nat \<Rightarrow> AppendError + (Position \<times> Position) \<Rightarrow> Conn \<Rightarrow> Conn" where
  "pump rid result conn =
     (let conn = send_control_frame (append_reply rid result) conn
      in conn\<lparr>cn_append_inflight := sem_release (cn_append_inflight conn), cn_unanswered := remove1 rid (cn_unanswered conn),
              cn_pump_up := cn_control_open conn\<rparr>)"

subsection \<open>The reader loop\<close>

definition TIMEOUT_POLL_INTERVAL :: nat where "TIMEOUT_POLL_INTERVAL = 1000"

definition request_read_timeout :: "ServerConfig \<Rightarrow> nat option" where
  "request_read_timeout cfg =
     (if incomplete_frame_timeout cfg \<noteq> 0 \<or> handshake_timeout cfg \<noteq> 0 \<or> idle_timeout cfg \<noteq> 0
      then Some TIMEOUT_POLL_INTERVAL else None)"

definition handshake_deadline :: "ServerConfig \<Rightarrow> nat option" where
  "handshake_deadline cfg =
     List.find (\<lambda>t. t \<noteq> 0) [handshake_timeout cfg, incomplete_frame_timeout cfg, idle_timeout cfg]"

datatype ReapReason = IncompleteFrame | HandshakeTimeout | IdleTimeout

record ReaderState =
  rs_established :: bool
  rs_conn_start :: nat
  rs_last_frame_at :: nat
  rs_frame_started_at :: "nat option"

definition mid_frame_reason :: "ServerConfig \<Rightarrow> nat \<Rightarrow> ReaderState \<Rightarrow> ReapReason option \<times> ReaderState" where
  "mid_frame_reason cfg now st =
     (let started = (case rs_frame_started_at st of Some t \<Rightarrow> t | None \<Rightarrow> now);
          st = st\<lparr>rs_frame_started_at := Some started\<rparr>
      in (if incomplete_frame_timeout cfg \<noteq> 0 \<and> now - started > incomplete_frame_timeout cfg then Some IncompleteFrame
          else if \<not> rs_established st \<and> handshake_timeout cfg \<noteq> 0 \<and> now - rs_conn_start st > handshake_timeout cfg then Some HandshakeTimeout
          else if idle_timeout cfg \<noteq> 0 \<and> now - rs_last_frame_at st > idle_timeout cfg then Some IdleTimeout
          else None, st))"

definition reap_connection :: "Conn \<Rightarrow> Conn" where
  "reap_connection conn =
     conn\<lparr>cn_stats := (cn_stats conn)\<lparr>ss_connections_reaped := ss_connections_reaped (cn_stats conn) + 1\<rparr>\<rparr>"

text \<open>Why a connection idle at a frame boundary is reaped, if it is; activity refreshes the idle clock instead.\<close>
definition boundary_reason :: "ServerConfig \<Rightarrow> nat \<Rightarrow> Conn \<Rightarrow> ReaderState \<Rightarrow> ReapReason option \<times> ReaderState" where
  "boundary_reason cfg now conn st =
     (let st = st\<lparr>rs_frame_started_at := None\<rparr>;
          breached = (if \<not> rs_established st \<and> handshake_timeout cfg \<noteq> 0 \<and> now - rs_conn_start st > handshake_timeout cfg then Some HandshakeTimeout
                      else if idle_timeout cfg \<noteq> 0 \<and> now - rs_last_frame_at st > idle_timeout cfg then Some IdleTimeout
                      else None)
      in if breached \<noteq> None \<and> has_activity conn then (None, st\<lparr>rs_last_frame_at := now\<rparr>) else (breached, st))"

text \<open>What a turn of the loop sees.\<close>
record Turn =
  tr_now :: nat
  tr_up :: bool
  tr_spawns :: bool
  tr_tip :: Position
  tr_control_room :: bool
  tr_polled :: "FrameError + pb_Request FramePoll"

datatype TurnEnd = GoOn | Stop

definition reap_or_go_on :: "ReapReason option \<times> ReaderState \<Rightarrow> Conn \<Rightarrow> TurnEnd \<times> ReaderState \<times> Conn" where
  "reap_or_go_on res conn = (case res of (None, st) \<Rightarrow> (GoOn, st, conn) | (Some _, st) \<Rightarrow> (Stop, st, reap_connection conn))"

definition frame_error_reply :: "FrameError \<Rightarrow> pb_ErrorResponse option" where
  "frame_error_reply err =
     (case err of
        FrameTooLarge _ _ \<Rightarrow> Some (too_large (ShowFrame err))
      | FrameParse \<Rightarrow> Some (bad_request (ShowFrame err))
      | _ \<Rightarrow> None)"

text \<open>One turn of the loop of \<open>serve_over\<close>; \<open>None\<close> when the reader blocks on a budget.\<close>
definition reader_turn ::
  "(str \<Rightarrow> bytes) \<Rightarrow> AuthConfig option \<Rightarrow> Turn \<Rightarrow> ReaderState \<Rightarrow> Conn \<Rightarrow> (TurnEnd \<times> ReaderState \<times> Conn) option" where
  "reader_turn digest auth t st conn =
     (let cfg = cn_cfg conn; now = tr_now t
      in case tr_polled t of
           Inr (PollFrame req) \<Rightarrow>
             (let st = st\<lparr>rs_last_frame_at := now, rs_frame_started_at := None\<rparr>
              in if rs_established st
                 then map_option (\<lambda>conn. (GoOn, st, conn)) (dispatch (tr_spawns t) (tr_tip t) now req conn)
                 else (case handle_hello digest auth req conn of
                         (HelloOk, conn) \<Rightarrow> Some (GoOn, st\<lparr>rs_established := True\<rparr>, conn)
                       | (HelloReject, conn) \<Rightarrow> Some (Stop, st, conn)))
         | Inr PollEof \<Rightarrow> Some (Stop, st, conn)
         | Inr PollProgress \<Rightarrow>
             if \<not> tr_up t then Some (Stop, st, conn)
             else Some (reap_or_go_on (mid_frame_reason cfg now (st\<lparr>rs_last_frame_at := now\<rparr>)) conn)
         | Inr (PollWouldBlock True) \<Rightarrow>
             if \<not> tr_up t then Some (Stop, st, conn) else Some (reap_or_go_on (mid_frame_reason cfg now st) conn)
         | Inr (PollWouldBlock False) \<Rightarrow>
             if \<not> tr_up t then Some (Stop, st, conn) else Some (reap_or_go_on (boundary_reason cfg now conn st) conn)
         | Inl err \<Rightarrow>
             Some (Stop, st,
               (case frame_error_reply err of
                  Some error \<Rightarrow> if tr_control_room t then send_control_frame (make_response 0 (RespError error)) conn else conn
                | None \<Rightarrow> conn)))"

definition reader_start :: "nat \<Rightarrow> ReaderState" where
  "reader_start now = \<lparr>rs_established = False, rs_conn_start = now, rs_last_frame_at = now, rs_frame_started_at = None\<rparr>"

fun reader_loop ::
  "(str \<Rightarrow> bytes) \<Rightarrow> AuthConfig option \<Rightarrow> Turn list \<Rightarrow> ReaderState \<Rightarrow> Conn \<Rightarrow> (TurnEnd \<times> ReaderState \<times> Conn) option" where
  "reader_loop digest auth [] st conn = Some (GoOn, st, conn)"
| "reader_loop digest auth (t # turns) st conn =
     (case reader_turn digest auth t st conn of
        None \<Rightarrow> None
      | Some (Stop, st, conn) \<Rightarrow> Some (Stop, st, conn)
      | Some (GoOn, st, conn) \<Rightarrow> reader_loop digest auth turns st conn)"

subsection \<open>Everything a connection does\<close>

text \<open>The ids of the reads and subscriptions that are queued or running.\<close>
definition live_ids :: "Conn \<Rightarrow> nat set" where
  "live_ids conn = (rr_request_id \<circ> rj_run) ` set (cn_pool conn @ cn_reading conn) \<union> sw_request_id ` set (cn_subs conn)"

text \<open>
  The reader dispatches, pool workers start, drop and finish reads in any order, subscriptions end, the pump answers as
  long as it runs, the pool closes at shutdown, the coordinator goes away, the connection's writer ends. With \<open>strict\<close> the
  client uses no request id that is still live; the server does not check that.
\<close>
inductive conn_step :: "bool \<Rightarrow> Conn \<Rightarrow> Conn \<Rightarrow> bool" for strict where
  dispatched: "\<lbrakk>dispatch spawns tip now req conn = Some conn'; strict \<longrightarrow> rq_id req \<notin> live_ids conn\<rbrakk> \<Longrightarrow> conn_step strict conn conn'"
| started: "\<lbrakk>cn_pool conn = xs @ job # ys; job_start job (conn\<lparr>cn_pool := xs @ ys\<rparr>) = JobRuns conn'\<rbrakk> \<Longrightarrow>
     conn_step strict conn (conn'\<lparr>cn_reading := cn_reading conn' @ [job]\<rparr>)"
| dropped: "\<lbrakk>cn_pool conn = xs @ job # ys; job_start job (conn\<lparr>cn_pool := xs @ ys\<rparr>) = JobDropped conn'\<rbrakk> \<Longrightarrow>
     conn_step strict conn conn'"
| finished: "cn_reading conn = xs @ job # ys \<Longrightarrow> conn_step strict conn (job_done job (conn\<lparr>cn_reading := xs @ ys\<rparr>))"
| unsubscribed: "cn_subs conn = xs @ w # ys \<Longrightarrow> conn_step strict conn (end_subscription (sw_request_id w) (conn\<lparr>cn_subs := xs @ ys\<rparr>))"
| answered: "\<lbrakk>cn_pump_up conn; rid \<in> set (cn_unanswered conn)\<rbrakk> \<Longrightarrow> conn_step strict conn (pump rid result conn)"
| pool_closed: "conn_step strict conn (conn\<lparr>cn_pool_open := False\<rparr>)"
| coordinator_gone: "conn_step strict conn (conn\<lparr>cn_writer_open := False\<rparr>)"
| writer_gone: "conn_step strict conn (conn\<lparr>cn_control_open := False\<rparr>)"

definition admitted :: "Admission \<Rightarrow> Conn \<Rightarrow> nat" where
  "admitted adm conn = length (filter (\<lambda>j. rj_admission j = adm) (cn_pool conn))"

text \<open>No budget leaks: free permits and outstanding work add up to the capacity.\<close>
definition budget_inv :: "nat \<Rightarrow> Conn \<Rightarrow> bool" where
  "budget_inv gauge conn \<longleftrightarrow>
     sm_permits (cn_append_inflight conn) + length (cn_unanswered conn) = sm_capacity (cn_append_inflight conn) \<and>
     sm_permits (cn_read_inflight conn) + length (cn_reading conn) + admitted Permitted conn = sm_capacity (cn_read_inflight conn) \<and>
     sm_permits (cn_read_overflow conn) + admitted Overflow conn = sm_capacity (cn_read_overflow conn) \<and>
     sm_permits (cn_subscriptions conn) + length (cn_subs conn) = sm_capacity (cn_subscriptions conn) \<and>
     cn_workers conn = length (cn_pool conn) + length (cn_reading conn) + length (cn_subs conn) \<and>
     ss_active_subscriptions (cn_stats conn) = gauge + length (cn_subs conn) \<and>
     sm_capacity (cn_append_inflight conn) = max (max_inflight_requests_per_conn (cn_cfg conn)) 1 \<and>
     sm_capacity (cn_read_inflight conn) = max (max_inflight_requests_per_conn (cn_cfg conn)) 1 \<and>
     sm_capacity (cn_read_overflow conn) = max (max_inflight_requests_per_conn (cn_cfg conn)) 1 \<and>
     sm_capacity (cn_subscriptions conn) = max (max_concurrent_subscriptions (cn_cfg conn)) 1"

lemmas conn_defs =
  send_error_def send_control_frame_def register_cancel_def worker_cleanup_def drop_admission_def set_gauge_def
  end_subscription_def sem_acquire_def sem_try_acquire_def sem_release_def admitted_def

lemma submit_append_budget:
  "\<lbrakk>submit_append rid events cond conn = Some conn'; budget_inv g conn\<rbrakk> \<Longrightarrow> budget_inv g conn'"
  by (auto simp: submit_append_def budget_inv_def conn_defs split: option.splits prod.splits sum.splits if_splits)

lemma send_error_budget: "budget_inv g conn \<Longrightarrow> budget_inv g (send_error rid msg conn)"
  by (auto simp: budget_inv_def conn_defs)

lemma spawn_read_budget: "budget_inv g conn \<Longrightarrow> budget_inv g (spawn_read rid read conn)"
  by (auto simp: spawn_read_def send_error_budget admit_read_def split: sum.splits option.splits prod.splits)
    (auto simp: budget_inv_def conn_defs Let_def split: if_splits)

lemma spawn_subscribe_budget: "budget_inv g conn \<Longrightarrow> budget_inv g (spawn_subscribe spawns rid req conn)"
  by (auto simp: spawn_subscribe_def send_error_budget split: sum.splits prod.splits)
    (auto simp: budget_inv_def conn_defs Let_def split: if_splits)

lemma dispatch_budget:
  assumes "dispatch spawns tip now req conn = Some conn'" and "budget_inv g conn"
  shows "budget_inv g conn'"
proof (cases "rq_kind req")
  case (ReqAppend areq)
  then show ?thesis using assms submit_append_budget send_error_budget
    by (auto simp: dispatch_def server_append_def split: sum.splits option.splits)
next
  case (ReqCancel target)
  then show ?thesis using assms by (auto simp: dispatch_def handle_cancel_def budget_inv_def admitted_def split: option.splits)
next
  case ReqStats
  then show ?thesis using assms by (auto simp: dispatch_def handle_stats_def budget_inv_def conn_defs)
qed (use assms in \<open>auto simp: dispatch_def spawn_read_budget spawn_subscribe_budget send_error_budget\<close>)

lemma conn_step_budget: "\<lbrakk>conn_step strict conn conn'; budget_inv g conn\<rbrakk> \<Longrightarrow> budget_inv g conn'"
proof (induction rule: conn_step.induct)
  case (dispatched spawns tip now req conn conn')
  then show ?case using dispatch_budget by blast
next
  case (started conn xs job ys conn')
  then show ?case
    by (cases "rj_admission job")
      (auto simp: job_start_def acquire_or_cancel_pass_def budget_inv_def conn_defs split: if_splits prod.splits bool.splits)
next
  case (dropped conn xs job ys conn')
  then show ?case
    by (cases "rj_admission job")
      (auto simp: job_start_def acquire_or_cancel_pass_def budget_inv_def conn_defs split: if_splits prod.splits bool.splits)
next
  case (answered conn rid result)
  then obtain n where "length (cn_unanswered conn) = Suc n" by (cases "cn_unanswered conn") auto
  then show ?case using answered by (auto simp: pump_def budget_inv_def conn_defs length_remove1)
qed (auto simp: budget_inv_def conn_defs job_done_def)

lemma budget_start: "budget_inv (ss_active_subscriptions st) (Conn_new cfg st reply)"
  by (simp add: budget_inv_def Conn_new_def Semaphore_new_def admitted_def Let_def)

lemma conn_reachable_budget:
  "(conn_step strict)\<^sup>*\<^sup>* (Conn_new cfg st reply) conn \<Longrightarrow> budget_inv (ss_active_subscriptions st) conn"
  by (induction rule: rtranclp_induct) (auto simp: budget_start dest: conn_step_budget)

subsection \<open>Cancellation\<close>

definition job_ref :: "ReadJob \<Rightarrow> nat \<times> nat" where "job_ref j = (rr_request_id (rj_run j), rj_cancel j)"

definition sub_ref :: "SubWorker \<Rightarrow> nat \<times> nat" where "sub_ref w = (sw_request_id w, sw_cancel w)"

text \<open>The request id and the cancel flag of every read and subscription at work.\<close>
definition live_refs :: "Conn \<Rightarrow> (nat \<times> nat) list" where
  "live_refs conn = map job_ref (cn_pool conn) @ map job_ref (cn_reading conn) @ map sub_ref (cn_subs conn)"

lemma live_ids_refs: "live_ids conn = fst ` set (live_refs conn)"
  by (auto simp: live_ids_def live_refs_def job_ref_def sub_ref_def image_Un image_image)

definition cancel_inv :: "Conn \<Rightarrow> bool" where
  "cancel_inv conn \<longleftrightarrow>
     distinct (map fst (live_refs conn)) \<and> distinct (map snd (live_refs conn)) \<and>
     (\<forall>(rid, flag) \<in> set (live_refs conn). cn_cancels conn rid = Some flag \<and> flag < cn_fresh conn)"

text \<open>Steps that change nothing the registry knows of.\<close>
lemma cancel_inv_same:
  "\<lbrakk>cancel_inv conn; live_refs conn' = live_refs conn; cn_cancels conn' = cn_cancels conn; cn_fresh conn' = cn_fresh conn\<rbrakk> \<Longrightarrow>
   cancel_inv conn'"
  by (simp add: cancel_inv_def)

lemma distinct_mset_Cons: "mset xs = mset ys + {#y#} \<Longrightarrow> distinct (map f xs) \<longleftrightarrow> distinct (f y # map f ys)"
  by (rule mset_eq_imp_distinct_iff) simp

lemma set_mset_Cons: "mset xs = mset ys + {#y#} \<Longrightarrow> set xs = insert y (set ys)"
  by (metis add_mset_add_single set_mset_add_mset_insert set_mset_mset)

lemma cancel_inv_add:
  assumes "cancel_inv conn" and "rid \<notin> live_ids conn" and "mset (live_refs conn') = mset (live_refs conn) + {#(rid, cn_fresh conn)#}"
    and "cn_cancels conn' = (cn_cancels conn)(rid \<mapsto> cn_fresh conn)" and "cn_fresh conn' = cn_fresh conn + 1"
  shows "cancel_inv conn'"
proof -
  have reg: "cn_cancels conn i = Some flag \<and> flag < cn_fresh conn" if "(i, flag) \<in> set (live_refs conn)" for i flag
    using assms(1) that by (auto simp: cancel_inv_def)
  have new: "rid \<notin> fst ` set (live_refs conn)" using assms(2) by (simp add: live_ids_refs)
  then have "cn_cancels conn' i = Some flag \<and> flag < cn_fresh conn'" if "(i, flag) \<in> set (live_refs conn')" for i flag
    using that reg assms(4,5) by (auto simp: set_mset_Cons [OF assms(3)] image_iff less_Suc_eq)
  moreover have "cn_fresh conn \<notin> snd ` set (live_refs conn)" using reg by fastforce
  ultimately show ?thesis
    using assms(1) new unfolding cancel_inv_def distinct_mset_Cons [OF assms(3)] by auto
qed

lemma cancel_inv_remove:
  assumes "cancel_inv conn" and "mset (live_refs conn) = mset (live_refs conn') + {#(rid, flag)#}"
    and "cn_cancels conn' = (cn_cancels conn)(rid := None)" and "cn_fresh conn' = cn_fresh conn"
  shows "cancel_inv conn'"
proof -
  have d: "distinct (map fst ((rid, flag) # live_refs conn'))" "distinct (map snd ((rid, flag) # live_refs conn'))"
    using assms(1) unfolding cancel_inv_def distinct_mset_Cons [OF assms(2)] by auto
  have "cn_cancels conn' i = Some f \<and> f < cn_fresh conn'" if "(i, f) \<in> set (live_refs conn')" for i f
  proof -
    have "i \<noteq> rid" using d(1) that by (auto simp: image_iff)
    then show ?thesis using assms(1,3,4) that by (auto simp: cancel_inv_def set_mset_Cons [OF assms(2)])
  qed
  then show ?thesis using d by (auto simp: cancel_inv_def)
qed

lemma cancel_inv_move:
  assumes "cancel_inv conn" and "mset (live_refs conn') = mset (live_refs conn)"
    and "cn_cancels conn' = cn_cancels conn" and "cn_fresh conn' = cn_fresh conn"
  shows "cancel_inv conn'"
proof -
  have "mset (map f (live_refs conn')) = mset (map f (live_refs conn))" for f :: "nat \<times> nat \<Rightarrow> nat" by (simp add: assms(2))
  then have "distinct (map f (live_refs conn')) = distinct (map f (live_refs conn))" for f :: "nat \<times> nat \<Rightarrow> nat"
    by (rule mset_eq_imp_distinct_iff)
  then show ?thesis using assms mset_eq_setD [OF assms(2)] by (simp add: cancel_inv_def)
qed

lemma cancel_inv_gone:
  assumes "cancel_inv conn" and "rid \<notin> live_ids conn" and "live_refs conn' = live_refs conn"
    and "cn_cancels conn' = (cn_cancels conn)(rid := None)" and "cn_fresh conn' = cn_fresh conn + 1"
  shows "cancel_inv conn'"
proof -
  have "i \<noteq> rid" if "(i, f) \<in> set (live_refs conn)" for i f using that assms(2) by (force simp: live_ids_refs)
  then show ?thesis using assms(1,3-5) by (fastforce simp: cancel_inv_def)
qed

lemma job_start_runs:
  "job_start job conn = JobRuns conn' \<Longrightarrow>
   cn_pool conn' = cn_pool conn \<and> cn_reading conn' = cn_reading conn \<and> cn_subs conn' = cn_subs conn \<and>
   cn_cancels conn' = cn_cancels conn \<and> cn_fresh conn' = cn_fresh conn"
  by (auto simp: job_start_def acquire_or_cancel_pass_def conn_defs Let_def split: Admission.splits if_splits)

lemma job_start_drops:
  "job_start job conn = JobDropped conn' \<Longrightarrow>
   cn_pool conn' = cn_pool conn \<and> cn_reading conn' = cn_reading conn \<and> cn_subs conn' = cn_subs conn \<and>
   cn_cancels conn' = (cn_cancels conn)(rr_request_id (rj_run job) := None) \<and> cn_fresh conn' = cn_fresh conn"
  by (auto simp: job_start_def acquire_or_cancel_pass_def conn_defs Let_def split: Admission.splits if_splits)

lemma dispatch_cancel:
  assumes "dispatch spawns tip now req conn = Some conn'" and "cancel_inv conn" and "rq_id req \<notin> live_ids conn"
  shows "cancel_inv conn'"
proof (cases "rq_kind req")
  case (ReqAppend areq)
  then show ?thesis using assms(1,2)
    by (auto simp: dispatch_def server_append_def submit_append_def conn_defs live_refs_def
        split: sum.splits option.splits prod.splits if_splits elim!: cancel_inv_same)
next
  case (ReqRead read)
  show ?thesis
  proof (cases "\<exists>q adm c. query_from_proto (pr_query read) = Inr q \<and> admit_read conn = Some (adm, c)")
    case False
    then show ?thesis using assms(1,2) ReqRead
      by (auto simp: dispatch_def spawn_read_def conn_defs live_refs_def split: sum.splits option.splits elim!: cancel_inv_same)
  next
    case True
    then obtain q adm c where q: "query_from_proto (pr_query read) = Inr q" "admit_read conn = Some (adm, c)" by blast
    then have c: "cn_pool c = cn_pool conn" "cn_reading c = cn_reading conn" "cn_subs c = cn_subs conn"
        "cn_cancels c = cn_cancels conn" "cn_fresh c = cn_fresh conn"
      by (auto simp: admit_read_def split: prod.splits bool.splits)
    show ?thesis
    proof (cases "cn_pool_open c")
      case True
      then show ?thesis using assms q c ReqRead
        by (intro cancel_inv_add [OF assms(2,3)])
          (auto simp: dispatch_def spawn_read_def register_cancel_def live_refs_def job_ref_def Let_def)
    next
      case False
      then show ?thesis using assms q c ReqRead
        by (intro cancel_inv_gone [OF assms(2,3)])
          (auto simp: dispatch_def spawn_read_def conn_defs Let_def live_refs_def split: Admission.splits)
    qed
  qed
next
  case (ReqSubscribe sub)
  show ?thesis
  proof (cases "(\<exists>q. query_from_proto (psub_query sub) = Inr q) \<and> sm_permits (cn_subscriptions conn) \<noteq> 0")
    case False
    then show ?thesis using assms(1,2) ReqSubscribe
      by (auto simp: dispatch_def spawn_subscribe_def conn_defs live_refs_def split: sum.splits option.splits elim!: cancel_inv_same)
  next
    case True
    show ?thesis
    proof (cases spawns)
      case spawn: True
      then show ?thesis using assms True ReqSubscribe
        by (intro cancel_inv_add [OF assms(2,3)])
          (auto simp: dispatch_def spawn_subscribe_def conn_defs live_refs_def sub_ref_def Let_def)
    next
      case False
      then show ?thesis using assms True ReqSubscribe
        by (intro cancel_inv_gone [OF assms(2,3)])
          (auto simp: dispatch_def spawn_subscribe_def conn_defs Let_def live_refs_def)
    qed
  qed
qed (use assms in \<open>auto simp: dispatch_def handle_stats_def handle_cancel_def conn_defs live_refs_def
      split: option.splits elim!: cancel_inv_same\<close>)

lemma conn_step_cancel: "\<lbrakk>conn_step True conn conn'; cancel_inv conn\<rbrakk> \<Longrightarrow> cancel_inv conn'"
proof (induction rule: conn_step.induct)
  case (dispatched spawns tip now req conn conn')
  then show ?case using dispatch_cancel by blast
next
  case (started conn xs job ys conn')
  then show ?case using job_start_runs [OF started(2)]
    by (intro cancel_inv_move [OF started(3)]) (simp_all add: live_refs_def)
next
  case (dropped conn xs job ys conn')
  then show ?case using job_start_drops [OF dropped(2)]
    by (intro cancel_inv_remove [OF dropped(3), where flag = "rj_cancel job" and rid = "rr_request_id (rj_run job)"])
      (simp_all add: live_refs_def job_ref_def)
next
  case (finished conn xs job ys)
  then show ?case
    by (intro cancel_inv_remove [OF finished(2), where flag = "rj_cancel job" and rid = "rr_request_id (rj_run job)"])
      (auto simp: job_done_def conn_defs live_refs_def job_ref_def)
next
  case (unsubscribed conn xs w ys)
  then show ?case
    by (intro cancel_inv_remove [OF unsubscribed(2), where flag = "sw_cancel w" and rid = "sw_request_id w"])
      (auto simp: conn_defs live_refs_def sub_ref_def)
qed (auto simp: pump_def conn_defs live_refs_def elim!: cancel_inv_same)

lemma cancel_start: "cancel_inv (Conn_new cfg st reply)"
  by (simp add: cancel_inv_def Conn_new_def live_refs_def)

lemma conn_reachable_cancel: "(conn_step True)\<^sup>*\<^sup>* (Conn_new cfg st reply) conn \<Longrightarrow> cancel_inv conn"
  by (induction rule: rtranclp_induct) (auto simp: cancel_start dest: conn_step_cancel)

subsection \<open>The handshake\<close>

definition hello_ok :: "(str \<Rightarrow> bytes) \<Rightarrow> AuthConfig option \<Rightarrow> pb_Request \<Rightarrow> bool" where
  "hello_ok digest auth req \<longleftrightarrow>
     (\<exists>hello. rq_kind req = ReqHello hello \<and> ph_version hello = PROTOCOL_VERSION \<and>
        (case auth of
           None \<Rightarrow> True
         | Some a \<Rightarrow> \<exists>token. ph_token hello = Some token \<and> utf8_valid token \<and> digest token \<in> au_digests a))"

lemma handle_hello_ok: "fst (handle_hello digest auth req conn) = HelloOk \<longleftrightarrow> hello_ok digest auth req"
  by (auto simp: handle_hello_def hello_ok_def auth_accepts_def split: RequestKind.splits option.splits)

lemma handle_hello_sends: "\<exists>resp. snd (handle_hello digest auth req conn) = send_control_frame resp conn"
  by (auto simp: handle_hello_def split: RequestKind.splits)

text \<open>Everything a request could have changed is as it was.\<close>
definition unserved :: "Conn \<Rightarrow> Conn \<Rightarrow> bool" where
  "unserved conn conn' \<longleftrightarrow>
     cn_queue conn' = cn_queue conn \<and> cn_pool conn' = cn_pool conn \<and> cn_reading conn' = cn_reading conn \<and>
     cn_subs conn' = cn_subs conn \<and> cn_unanswered conn' = cn_unanswered conn \<and> cn_flags conn' = cn_flags conn \<and>
     cn_cancels conn' = cn_cancels conn \<and> cn_cfg conn' = cn_cfg conn"

lemma unserved_send: "unserved conn (send_control_frame resp conn)"
  by (simp add: unserved_def send_control_frame_def)

lemma unserved_reap: "reap_or_go_on res conn = (e, st', conn') \<Longrightarrow> unserved conn conn' \<and> st' = snd res"
  by (auto simp: reap_or_go_on_def reap_connection_def unserved_def split: prod.splits option.splits)

lemma unserved_trans: "\<lbrakk>unserved a b; unserved b c\<rbrakk> \<Longrightarrow> unserved a c"
  by (simp add: unserved_def)

lemma mid_frame_established [simp]: "rs_established (snd (mid_frame_reason cfg now st)) = rs_established st"
  by (simp add: mid_frame_reason_def Let_def)

lemma boundary_established [simp]: "rs_established (snd (boundary_reason cfg now conn st)) = rs_established st"
  by (simp add: boundary_reason_def Let_def)

text \<open>A turn before the handshake serves nothing, and only an acceptable Hello completes the handshake.\<close>
lemma early_turn:
  assumes "reader_turn digest auth t st conn = Some (e, st', conn')" and "\<not> rs_established st"
  shows "unserved conn conn'"
    and "(\<exists>req. tr_polled t = Inr (PollFrame req) \<and> (hello_ok digest auth req \<or> e = Stop)) \<or>
         (\<forall>req. tr_polled t \<noteq> Inr (PollFrame req)) \<and> \<not> rs_established st'"
proof -
  note [simp] = reader_turn_def Let_def
  have "unserved conn conn' \<and> ((\<exists>req. tr_polled t = Inr (PollFrame req) \<and> (hello_ok digest auth req \<or> e = Stop)) \<or>
         (\<forall>req. tr_polled t \<noteq> Inr (PollFrame req)) \<and> \<not> rs_established st')"
  proof (cases "tr_polled t")
    case (Inl err)
    then show ?thesis using assms unserved_send by (auto simp: unserved_def send_control_frame_def split: option.splits)
  next
    case (Inr p)
    show ?thesis
    proof (cases p)
      case (PollFrame req)
      obtain o1 c1 where h: "handle_hello digest auth req conn = (o1, c1)" by fastforce
      then have "unserved conn c1" using handle_hello_sends [of digest auth req conn] unserved_send by fastforce
      then show ?thesis
        using assms Inr PollFrame h handle_hello_ok [of digest auth req conn] by (cases o1) auto
    next
      case PollEof
      then show ?thesis using assms Inr by (auto simp: unserved_def)
    next
      case PollProgress
      then show ?thesis using assms Inr
        by (auto simp: unserved_def split: if_splits dest!: unserved_reap [unfolded unserved_def])
    next
      case (PollWouldBlock busy)
      then show ?thesis using assms Inr
        by (cases busy) (auto simp: unserved_def split: if_splits dest!: unserved_reap [unfolded unserved_def])
    qed
  qed
  then show "unserved conn conn'"
    and "(\<exists>req. tr_polled t = Inr (PollFrame req) \<and> (hello_ok digest auth req \<or> e = Stop)) \<or>
         (\<forall>req. tr_polled t \<noteq> Inr (PollFrame req)) \<and> \<not> rs_established st'"
    by auto
qed

lemma loop_before_hello:
  assumes "reader_loop digest auth turns st conn = Some (e, st', conn')" and "\<not> rs_established st"
  shows "unserved conn conn' \<or>
     (\<exists>ts t us req. turns = ts @ t # us \<and> (\<forall>t' \<in> set ts. \<forall>r. tr_polled t' \<noteq> Inr (PollFrame r)) \<and>
        tr_polled t = Inr (PollFrame req) \<and> hello_ok digest auth req)"
  using assms
proof (induction turns arbitrary: st conn)
  case Nil
  then show ?case by (simp add: unserved_def)
next
  case (Cons t turns)
  obtain e1 st1 c1 where t: "reader_turn digest auth t st conn = Some (e1, st1, c1)"
    using Cons.prems(1) by (auto split: option.splits)
  note early = early_turn [OF t Cons.prems(2)]
  show ?case
  proof (cases "\<exists>req. tr_polled t = Inr (PollFrame req) \<and> hello_ok digest auth req")
    case True
    then show ?thesis by (intro disjI2 exI [of _ "[]"]) auto
  next
    case False
    show ?thesis
    proof (cases e1)
      case Stop
      then show ?thesis using Cons.prems(1) t early(1) by simp
    next
      case GoOn
      then have quiet: "\<forall>r. tr_polled t \<noteq> Inr (PollFrame r)" "\<not> rs_established st1" using early(2) False by auto
      have "reader_loop digest auth turns st1 c1 = Some (e, st', conn')" using Cons.prems(1) t GoOn by simp
      from Cons.IH [OF this quiet(2)] show ?thesis
      proof
        assume "unserved c1 conn'"
        then show ?thesis using unserved_trans [OF early(1)] by blast
      next
        assume "\<exists>ts t us req. turns = ts @ t # us \<and> (\<forall>t' \<in> set ts. \<forall>r. tr_polled t' \<noteq> Inr (PollFrame r)) \<and>
          tr_polled t = Inr (PollFrame req) \<and> hello_ok digest auth req"
        then obtain ts t' us req where "turns = ts @ t' # us" "\<forall>t' \<in> set ts. \<forall>r. tr_polled t' \<noteq> Inr (PollFrame r)"
          "tr_polled t' = Inr (PollFrame req)" "hello_ok digest auth req" by blast
        then show ?thesis using quiet(1) by (intro disjI2 exI [of _ "t # ts"]) auto
      qed
    qed
  qed
qed

subsection \<open>What reaches the coordinator\<close>

lemma condition_from_proto_wf: "condition_from_proto pc = Inr cond \<Longrightarrow> wf_condition cond"
  by (auto simp: condition_from_proto_def condition_from_pb_wf split: sum.splits)

lemma events_from_proto_wf: "events_from_proto req = Inr events \<Longrightarrow> \<forall>e \<in> set events. wf_Event e"
  unfolding events_from_proto_def by (rule try_map_all) (auto intro: event_from_proto_wf)

lemma submit_append_queue:
  assumes "submit_append rid events cond conn = Some conn'" and "\<forall>e \<in> set events. wf_Event e"
    and "case cond of None \<Rightarrow> True | Some c \<Rightarrow> wf_condition c"
  shows "cn_queue conn' = cn_queue conn \<or>
     (\<exists>req. cn_queue conn' = cn_queue conn @ [MAppend req] \<and> wf_Request req \<and> req_token req = rid \<and> req_reply req = cn_reply conn)"
  using assms
  by (auto simp: submit_append_def append_submit_def wf_Request_def conn_defs Let_def split: option.splits prod.splits sum.splits if_splits)

lemma server_append_queue:
  assumes "server_append rid areq conn = Some conn'"
  shows "cn_queue conn' = cn_queue conn \<or>
     (\<exists>req. cn_queue conn' = cn_queue conn @ [MAppend req] \<and> wf_Request req \<and> req_token req = rid \<and> req_reply req = cn_reply conn)"
proof (cases "events_from_proto areq")
  case (Inl err)
  then show ?thesis using assms by (auto simp: server_append_def conn_defs)
next
  case (Inr events)
  note wf = events_from_proto_wf [OF Inr]
  show ?thesis
  proof (cases "pa_condition areq")
    case None
    then show ?thesis using assms Inr submit_append_queue [OF _ wf, of rid None conn conn'] by (simp add: server_append_def)
  next
    case (Some pc)
    then show ?thesis
      using assms Inr submit_append_queue [OF _ wf, of rid "Some c" conn conn' for c] condition_from_proto_wf [of pc]
      by (auto simp: server_append_def conn_defs split: sum.splits)
  qed
qed

lemma dispatch_queue:
  assumes "dispatch spawns tip now req conn = Some conn'"
  shows "cn_queue conn' = cn_queue conn \<or>
     (\<exists>r. cn_queue conn' = cn_queue conn @ [MAppend r] \<and> wf_Request r \<and> req_token r = rq_id req \<and> req_reply r = cn_reply conn)"
proof (cases "rq_kind req")
  case (ReqAppend areq)
  then show ?thesis using assms server_append_queue by (simp add: dispatch_def)
qed (use assms in \<open>auto simp: dispatch_def spawn_read_def spawn_subscribe_def admit_read_def handle_cancel_def handle_stats_def
      conn_defs Let_def split: sum.splits option.splits prod.splits Admission.splits if_splits\<close>)

subsection \<open>Timeouts\<close>

text \<open>The polls of a connection in the middle of a frame.\<close>
definition mid_frame :: "Turn \<Rightarrow> bool" where
  "mid_frame t \<longleftrightarrow> tr_polled t = Inr PollProgress \<or> tr_polled t = Inr (PollWouldBlock True)"

lemma mid_frame_turn:
  assumes "mid_frame t" and "rs_frame_started_at st = Some began" and "incomplete_frame_timeout (cn_cfg conn) \<noteq> 0"
  shows "(\<exists>st' conn'. reader_turn digest auth t st conn = Some (Stop, st', conn')) \<or>
     tr_now t - began \<le> incomplete_frame_timeout (cn_cfg conn) \<and>
     (\<exists>st' conn'. reader_turn digest auth t st conn = Some (GoOn, st', conn') \<and> rs_frame_started_at st' = Some began \<and> cn_cfg conn' = cn_cfg conn)"
proof -
  have "\<exists>e st' conn'. reap_or_go_on (mid_frame_reason (cn_cfg conn) (tr_now t) s) conn = (e, st', conn') \<and>
      (e = Stop \<or> tr_now t - began \<le> incomplete_frame_timeout (cn_cfg conn) \<and> rs_frame_started_at st' = Some began \<and> conn' = conn)"
    if "rs_frame_started_at s = Some began" for s
    using that assms(3) by (auto simp: reap_or_go_on_def mid_frame_reason_def Let_def)
  from this [of st] this [of "st\<lparr>rs_last_frame_at := tr_now t\<rparr>"] show ?thesis
    using assms by (auto simp: mid_frame_def reader_turn_def Let_def) (metis TurnEnd.exhaust)+
qed

lemma mid_frame_loop:
  assumes "\<forall>t \<in> set turns. mid_frame t" and "rs_frame_started_at st = Some began" and "incomplete_frame_timeout (cn_cfg conn) \<noteq> 0"
    and "\<exists>t \<in> set turns. tr_now t - began > incomplete_frame_timeout (cn_cfg conn)"
  shows "\<exists>st' conn'. reader_loop digest auth turns st conn = Some (Stop, st', conn')"
  using assms
proof (induction turns arbitrary: st conn)
  case (Cons t turns)
  have "mid_frame t" using Cons.prems(1) by simp
  from mid_frame_turn [OF this Cons.prems(2,3), of digest auth] show ?case
  proof
    assume "tr_now t - began \<le> incomplete_frame_timeout (cn_cfg conn) \<and>
      (\<exists>st' conn'. reader_turn digest auth t st conn = Some (GoOn, st', conn') \<and> rs_frame_started_at st' = Some began \<and> cn_cfg conn' = cn_cfg conn)"
    then obtain st' conn' where go: "tr_now t - began \<le> incomplete_frame_timeout (cn_cfg conn)"
        "reader_turn digest auth t st conn = Some (GoOn, st', conn')" "rs_frame_started_at st' = Some began" "cn_cfg conn' = cn_cfg conn"
      by blast
    then have "\<exists>t \<in> set turns. tr_now t - began > incomplete_frame_timeout (cn_cfg conn')" using Cons.prems(4) by auto
    from Cons.IH [OF _ go(3) _ this] show ?thesis using go Cons.prems(1,3) by simp
  qed auto
qed simp

lemma admitted_total: "admitted Permitted conn + admitted Overflow conn = length (cn_pool conn)"
proof -
  have "length (filter (\<lambda>j. rj_admission j = Permitted) js) + length (filter (\<lambda>j. rj_admission j = Overflow) js) = length js" for js
    by (induction js) (auto, metis Admission.exhaust)
  then show ?thesis by (simp add: admitted_def)
qed

lemma activity_work:
  assumes "budget_inv g conn"
  shows "has_activity conn \<longleftrightarrow> cn_unanswered conn \<noteq> [] \<or> cn_reading conn \<noteq> [] \<or> cn_pool conn \<noteq> [] \<or> cn_subs conn \<noteq> []"
proof -
  have "sem_is_idle (cn_append_inflight conn) \<longleftrightarrow> length (cn_unanswered conn) = 0"
    "sem_is_idle (cn_read_inflight conn) \<longleftrightarrow> length (cn_reading conn) + admitted Permitted conn = 0"
    "sem_is_idle (cn_read_overflow conn) \<longleftrightarrow> admitted Overflow conn = 0"
    "sem_is_idle (cn_subscriptions conn) \<longleftrightarrow> length (cn_subs conn) = 0"
    using assms unfolding sem_is_idle_def budget_inv_def by linarith+
  then show ?thesis using admitted_total [of conn] by (auto simp: has_activity_def)
qed

subsection \<open>A small connection\<close>

definition demo_stats :: SharedStats where
  "demo_stats = \<lparr>ss_data_dir = None, ss_start_time = 0, ss_active_connections = 1, ss_active_subscriptions = 0,
     ss_connections_refused = 0, ss_connections_reaped = 0, ss_max_connections = 1024\<rparr>"

definition demo_conn :: Conn where "demo_conn = Conn_new ServerConfig_default demo_stats 0"

definition demo_read :: pb_Request where
  "demo_read = \<lparr>rq_id = 5, rq_kind = ReqRead \<lparr>pr_query = \<lparr>pq_all = True, pq_items = []\<rparr>, pr_after = 0, pr_limit = None, pr_reverse = False\<rparr>\<rparr>"

definition demo_busy :: Conn where "demo_busy = the (dispatch True 0 0 demo_read demo_conn)"

lemma demo_dispatch: "dispatch True 0 0 demo_read demo_conn = Some demo_busy"
  by (simp add: demo_busy_def dispatch_def demo_read_def)

lemma demo_busy_facts: "live_refs demo_busy = [(5, 0)]" "length (cn_pool demo_busy) = 1" "cn_subs demo_busy = []"
  by (simp_all add: demo_busy_def dispatch_def demo_read_def spawn_read_def query_from_proto_def query_from_pb_def admit_read_def
      demo_conn_def Conn_new_def Semaphore_new_def sem_try_acquire_def register_cancel_def live_refs_def job_ref_def
      ServerConfig_default_def Let_def)

lemma demo_reach: "(conn_step strict)\<^sup>*\<^sup>* demo_conn demo_busy"
proof -
  have "live_ids demo_conn = {}" by (simp add: live_ids_def demo_conn_def Conn_new_def)
  then have "conn_step strict demo_conn demo_busy" using demo_dispatch by (intro dispatched) auto
  then show ?thesis by blast
qed

subsection \<open>Properties\<close>

text \<open>
  C17. Nothing is served before the handshake: unless the first complete frame on a connection is a Hello of the right
  protocol version that carries, when authentication is on, a UTF-8 token with an accepted digest, the reader loop never
  submits an append, queues a read, starts a subscription or touches a cancel flag, however the loop ends.
\<close>
theorem no_service_before_hello:
  assumes "reader_loop digest auth turns (reader_start now) conn = Some (e, st', conn')"
  shows "unserved conn conn' \<or>
     (\<exists>ts t us req. turns = ts @ t # us \<and> (\<forall>t' \<in> set ts. \<forall>r. tr_polled t' \<noteq> Inr (PollFrame r)) \<and>
        tr_polled t = Inr (PollFrame req) \<and> hello_ok digest auth req)"
  using loop_before_hello [OF assms] by (simp add: reader_start_def)

theorem no_service_before_hello_witness:
  "\<exists>e st' conn'. reader_loop (\<lambda>s. s) None
      [\<lparr>tr_now = 1, tr_up = True, tr_spawns = True, tr_tip = 0, tr_control_room = True, tr_polled = Inr (PollFrame demo_read)\<rparr>]
      (reader_start 0) demo_conn = Some (e, st', conn') \<and> unserved demo_conn conn'"
proof -
  let ?t = "\<lparr>tr_now = 1, tr_up = True, tr_spawns = True, tr_tip = 0, tr_control_room = True, tr_polled = Inr (PollFrame demo_read)\<rparr>"
  obtain e st' conn' where run: "reader_loop (\<lambda>s. s) None [?t] (reader_start 0) demo_conn = Some (e, st', conn')"
    by (auto simp: reader_turn_def reader_start_def handle_hello_def demo_read_def Let_def)
  have "\<not> hello_ok (\<lambda>s. s) None demo_read" by (simp add: hello_ok_def demo_read_def)
  then show ?thesis using no_service_before_hello [OF run] run by (auto simp: Cons_eq_append_conv)
qed

text \<open>
  C16. No budget leaks and none is overdrawn: on every interleaving of dispatch, pool workers, subscription ends, the pump,
  shutdown and the coordinator or the connection's writer going away, the free permits of each budget and the work that holds them add up to its capacity, the worker count
  and the subscription gauge are exact, and the connection counts as active precisely while something is outstanding.
\<close>
theorem budgets_conserved:
  assumes "(conn_step strict)\<^sup>*\<^sup>* (Conn_new cfg st reply) conn"
  shows "sm_permits (cn_append_inflight conn) + length (cn_unanswered conn) = max (max_inflight_requests_per_conn (cn_cfg conn)) 1 \<and>
     sm_permits (cn_read_inflight conn) + length (cn_reading conn) + admitted Permitted conn =
       max (max_inflight_requests_per_conn (cn_cfg conn)) 1 \<and>
     sm_permits (cn_read_overflow conn) + admitted Overflow conn = max (max_inflight_requests_per_conn (cn_cfg conn)) 1 \<and>
     sm_permits (cn_subscriptions conn) + length (cn_subs conn) = max (max_concurrent_subscriptions (cn_cfg conn)) 1 \<and>
     cn_workers conn = length (cn_pool conn) + length (cn_reading conn) + length (cn_subs conn) \<and>
     ss_active_subscriptions (cn_stats conn) = ss_active_subscriptions st + length (cn_subs conn) \<and>
     (has_activity conn \<longleftrightarrow> cn_unanswered conn \<noteq> [] \<or> cn_reading conn \<noteq> [] \<or> cn_pool conn \<noteq> [] \<or> cn_subs conn \<noteq> [])"
  using conn_reachable_budget [OF assms] activity_work [OF conn_reachable_budget [OF assms]]
  unfolding budget_inv_def by presburger

theorem budgets_conserved_witness:
  "cn_workers demo_busy = 1 \<and> has_activity demo_busy"
  using budgets_conserved [OF demo_reach [unfolded demo_conn_def, of True]] demo_busy_facts
  by (auto simp: live_refs_def append_eq_Cons_conv)

text \<open>
  C15. A cancel stops its target and nothing else: while the client does not reuse the id of a live request, cancelling the
  id of a queued or running read or of a subscription makes that worker's continuation test fail, and leaves the test of
  every other worker of the connection as it was.
\<close>
theorem cancel_stops_its_target:
  assumes "(conn_step True)\<^sup>*\<^sup>* (Conn_new cfg st reply) conn" and "(rid, flag) \<in> set (live_refs conn)"
  shows "\<not> should_continue running alive flag (handle_cancel rid conn) \<and>
     (\<forall>(rid', flag') \<in> set (live_refs conn). rid' \<noteq> rid \<longrightarrow>
        should_continue running alive flag' (handle_cancel rid conn) = should_continue running alive flag' conn)"
proof -
  have inv: "cancel_inv conn" by (rule conn_reachable_cancel [OF assms(1)])
  then have "cn_cancels conn rid = Some flag" using assms(2) by (auto simp: cancel_inv_def)
  moreover have "flag' \<noteq> flag" if "(rid', flag') \<in> set (live_refs conn)" "rid' \<noteq> rid" for rid' flag'
    using inv assms(2) that by (fastforce simp: cancel_inv_def distinct_map inj_on_def)
  ultimately show ?thesis by (auto simp: handle_cancel_def should_continue_def)
qed

theorem cancel_stops_its_target_witness:
  "\<not> should_continue True True 0 (handle_cancel 5 demo_busy)"
  using cancel_stops_its_target [OF demo_reach [unfolded demo_conn_def], of 5 0 True True] by (simp add: demo_busy_facts)

text \<open>
  C19. Whatever bytes a client sends, a request the server hands to the write coordinator satisfies the coordinator's
  precondition: at least one event, every event a canonical encoding of valid names, a well-formed condition, and the
  request's own id and reply channel for the answer.
\<close>
theorem wire_requests_wellformed:
  assumes "dispatch spawns tip now req conn = Some conn'"
  shows "cn_queue conn' = cn_queue conn \<or>
     (\<exists>r. cn_queue conn' = cn_queue conn @ [MAppend r] \<and> wf_Request r \<and> req_token r = rq_id req \<and> req_reply r = cn_reply conn)"
  by (rule dispatch_queue [OF assms])

theorem wire_requests_wellformed_witness:
  "\<exists>conn' r. dispatch True 0 0 \<lparr>rq_id = 8, rq_kind = ReqAppend \<lparr>pa_events = [\<lparr>pe_type = [0x41], pe_tags = [], pe_payload = [1]\<rparr>], pa_condition = None\<rparr>\<rparr>
     demo_conn = Some conn' \<and> cn_queue conn' = [MAppend r] \<and> wf_Request r"
proof -
  let ?req = "\<lparr>rq_id = 8, rq_kind = ReqAppend \<lparr>pa_events = [\<lparr>pe_type = [0x41], pe_tags = [], pe_payload = [1]\<rparr>], pa_condition = None\<rparr>\<rparr>"
  have "event_from_proto \<lparr>pe_type = [0x41], pe_tags = [], pe_payload = [1]\<rparr> = Inr \<lparr>buf = [1, 0, 0, 0, 0x41, 1], data_offset = 5\<rparr>" by code_simp
  then obtain conn' where run: "dispatch True 0 0 ?req demo_conn = Some conn'" "cn_queue conn' \<noteq> cn_queue demo_conn"
    by (auto simp: dispatch_def server_append_def submit_append_def append_submit_def events_from_proto_def sem_acquire_def
        demo_conn_def Conn_new_def Semaphore_new_def Let_def ServerConfig_default_def)
  from wire_requests_wellformed [OF run(1)] run(2) obtain r where "cn_queue conn' = cn_queue demo_conn @ [MAppend r]" "wf_Request r" by blast
  then show ?thesis using run(1) by (auto simp: demo_conn_def Conn_new_def)
qed

text \<open>
  C35. A trickled frame cannot hold a connection: once a partial frame is in flight, if every following poll only advances
  or stalls it, the loop has stopped by the first poll later than the configured incomplete-frame timeout after the
  frame's first byte, no matter how many bytes keep arriving or what else the connection is doing.
\<close>
theorem partial_frame_is_bounded:
  assumes "\<forall>t \<in> set turns. mid_frame t" and "rs_frame_started_at st = Some began" and "incomplete_frame_timeout (cn_cfg conn) \<noteq> 0"
    and "\<exists>t \<in> set turns. tr_now t - began > incomplete_frame_timeout (cn_cfg conn)"
  shows "\<exists>st' conn'. reader_loop digest auth turns st conn = Some (Stop, st', conn')"
  by (rule mid_frame_loop [OF assms])

theorem partial_frame_is_bounded_witness:
  "\<exists>st' conn'. reader_loop (\<lambda>s. s) None
     [\<lparr>tr_now = 20000, tr_up = True, tr_spawns = True, tr_tip = 0, tr_control_room = True, tr_polled = Inr PollProgress\<rparr>,
      \<lparr>tr_now = 40000, tr_up = True, tr_spawns = True, tr_tip = 0, tr_control_room = True, tr_polled = Inr PollProgress\<rparr>]
     \<lparr>rs_established = True, rs_conn_start = 0, rs_last_frame_at = 5000, rs_frame_started_at = Some 5000\<rparr> demo_busy = Some (Stop, st', conn')"
proof -
  have cfg: "cn_cfg demo_busy = ServerConfig_default"
    by (simp add: demo_busy_def dispatch_def demo_read_def spawn_read_def query_from_proto_def query_from_pb_def admit_read_def
        demo_conn_def Conn_new_def Semaphore_new_def sem_try_acquire_def register_cancel_def ServerConfig_default_def Let_def)
  show ?thesis
    by (rule partial_frame_is_bounded [where began = 5000]) (simp_all add: mid_frame_def cfg ServerConfig_default_def)
qed

text \<open>
  The idle reaper spares exactly the busy: on an established connection of a running server that polls idle at a frame
  boundary, the loop stops if and only if the idle timeout is on and has passed since the last frame and no append is
  unanswered, no read queued or running and no subscription live.
\<close>
theorem idle_reaper_exact:
  assumes "(conn_step strict)\<^sup>*\<^sup>* (Conn_new cfg stats reply) conn" and "rs_established st" and "tr_up t"
    and "tr_polled t = Inr (PollWouldBlock False)"
  shows "(\<exists>st' conn'. reader_turn digest auth t st conn = Some (Stop, st', conn')) \<longleftrightarrow>
     idle_timeout (cn_cfg conn) \<noteq> 0 \<and> tr_now t - rs_last_frame_at st > idle_timeout (cn_cfg conn) \<and>
     cn_unanswered conn = [] \<and> cn_reading conn = [] \<and> cn_pool conn = [] \<and> cn_subs conn = []"
  using activity_work [OF conn_reachable_budget [OF assms(1)]] assms(2-4)
  by (auto simp: reader_turn_def boundary_reason_def reap_or_go_on_def Let_def)

theorem idle_reaper_exact_witness:
  "\<not> (\<exists>st' conn'. reader_turn (\<lambda>s. s) None
     \<lparr>tr_now = 99, tr_up = True, tr_spawns = True, tr_tip = 0, tr_control_room = True, tr_polled = Inr (PollWouldBlock False)\<rparr>
     \<lparr>rs_established = True, rs_conn_start = 0, rs_last_frame_at = 5, rs_frame_started_at = None\<rparr> demo_busy = Some (Stop, st', conn'))"
  using demo_busy_facts
  by (subst idle_reaper_exact [OF demo_reach [unfolded demo_conn_def, of True]]) auto

end
