(* ===== verification/AcceptLoop.thy ===== *)
theory AcceptLoop
  imports Server
begin

text \<open>
  The server's accept loop (\<open>crates/tephra-server/src/lib.rs\<close>): the connection cap, the registry of live sockets that
  lets a shutdown wake every reader, and the shutdown handle.

  A socket is named by its connection id. \<open>ln_woken\<close> are the sockets shut down in both directions, \<open>ln_serving\<close> the
  connection threads that run, each holding its slot. One turn of the loop is four steps, between which shutdowns and
  ending connections may come: the \<open>running\<close> check, taking a permit and an id, registering, and spawning the thread.
  Binding, keepalive, TLS, the metrics endpoint and joining the threads are not modelled. Whether a socket can be
  cloned and a thread spawned is given to each step.
\<close>

subsection \<open>The loop\<close>

text \<open>Where the loop stands: waiting for a socket, or with an accepted one that has no permit, no registration, no thread.\<close>
datatype LoopPoint =
    AwaitSocket
  | TakePermit
  | RegisterSocket nat
  | SpawnThread nat

record Listener =
  ln_point :: LoopPoint
  ln_running :: bool
  ln_shutting_down :: bool
  ln_streams :: "nat set"
  ln_woken :: "nat set"
  ln_next_id :: nat
  ln_stats :: SharedStats
  ln_serving :: "nat set"
  ln_leaving :: "nat set"
  ln_ended :: bool

definition SharedStats_new :: "DirEntry list option option \<Rightarrow> nat \<Rightarrow> nat \<Rightarrow> SharedStats" where
  "SharedStats_new dir mx now =
     \<lparr>ss_data_dir = dir, ss_start_time = now, ss_active_connections = 0, ss_active_subscriptions = 0,
      ss_connections_refused = 0, ss_connections_reaped = 0, ss_max_connections = mx\<rparr>"

definition Listener_new :: "DirEntry list option option \<Rightarrow> ServerConfig \<Rightarrow> nat \<Rightarrow> Listener" where
  "Listener_new dir cfg now =
     \<lparr>ln_point = AwaitSocket, ln_running = True, ln_shutting_down = False, ln_streams = {}, ln_woken = {},
      ln_next_id = 0, ln_stats = SharedStats_new dir (max_connections cfg) now, ln_serving = {}, ln_leaving = {},
      ln_ended = False\<rparr>"

definition Connections_register :: "nat \<Rightarrow> Listener \<Rightarrow> bool \<times> Listener" where
  "Connections_register cid L =
     (if ln_shutting_down L then (False, L\<lparr>ln_woken := insert cid (ln_woken L)\<rparr>)
      else (True, L\<lparr>ln_streams := insert cid (ln_streams L)\<rparr>))"

definition Connections_remove :: "nat \<Rightarrow> Listener \<Rightarrow> Listener" where
  "Connections_remove cid L = L\<lparr>ln_streams := ln_streams L - {cid}\<rparr>"

definition Connections_shutdown_all :: "Listener \<Rightarrow> Listener" where
  "Connections_shutdown_all L = L\<lparr>ln_shutting_down := True, ln_woken := ln_woken L \<union> ln_streams L\<rparr>"

definition ConnPermit_acquire :: "SharedStats \<Rightarrow> SharedStats option" where
  "ConnPermit_acquire st =
     (if ss_max_connections st \<noteq> 0 \<and> ss_active_connections st \<ge> ss_max_connections st then None
      else Some (st\<lparr>ss_active_connections := ss_active_connections st + 1\<rparr>))"

definition ConnPermit_drop :: "SharedStats \<Rightarrow> SharedStats" where
  "ConnPermit_drop st = st\<lparr>ss_active_connections := ss_active_connections st - 1\<rparr>"

text \<open>
  The body of the loop of \<open>Server::run\<close>, step by step. \<open>continue\<close> goes back to waiting for a socket, \<open>break\<close> and \<open>?\<close> end
  the loop, and leaving the body before the spawn drops the permit.
\<close>
definition accept_check :: "Listener \<Rightarrow> Listener" where
  "accept_check L = (if \<not> ln_running L then L\<lparr>ln_ended := True\<rparr> else L\<lparr>ln_point := TakePermit\<rparr>)"

definition accept_permit :: "bool \<Rightarrow> Listener \<Rightarrow> Listener" where
  "accept_permit clones L =
     (case ConnPermit_acquire (ln_stats L) of
        None \<Rightarrow> L\<lparr>ln_stats := (ln_stats L)\<lparr>ss_connections_refused := ss_connections_refused (ln_stats L) + 1\<rparr>,
                  ln_point := AwaitSocket\<rparr>
      | Some st \<Rightarrow>
          let cid = ln_next_id L; L = L\<lparr>ln_stats := st, ln_next_id := cid + 1\<rparr>
          in if \<not> clones then L\<lparr>ln_stats := ConnPermit_drop (ln_stats L), ln_point := AwaitSocket\<rparr>
             else L\<lparr>ln_point := RegisterSocket cid\<rparr>)"

definition accept_register :: "nat \<Rightarrow> Listener \<Rightarrow> Listener" where
  "accept_register cid L =
     (case Connections_register cid L of
        (False, L) \<Rightarrow> L\<lparr>ln_stats := ConnPermit_drop (ln_stats L), ln_woken := insert cid (ln_woken L),
                        ln_point := AwaitSocket, ln_ended := True\<rparr>
      | (True, L) \<Rightarrow> L\<lparr>ln_point := SpawnThread cid\<rparr>)"

definition accept_spawn :: "bool \<Rightarrow> nat \<Rightarrow> Listener \<Rightarrow> Listener" where
  "accept_spawn spawns cid L =
     (if spawns then L\<lparr>ln_serving := insert cid (ln_serving L), ln_point := AwaitSocket\<rparr>
      else L\<lparr>ln_stats := ConnPermit_drop (ln_stats L), ln_point := AwaitSocket, ln_ended := True\<rparr>)"

definition accept_advance :: "bool \<Rightarrow> bool \<Rightarrow> Listener \<Rightarrow> Listener" where
  "accept_advance clones spawns L =
     (case ln_point L of
        AwaitSocket \<Rightarrow> accept_check L
      | TakePermit \<Rightarrow> accept_permit clones L
      | RegisterSocket cid \<Rightarrow> accept_register cid L
      | SpawnThread cid \<Rightarrow> accept_spawn spawns cid L)"

text \<open>The end of a connection thread: it drops its permit, then its registration.\<close>
definition connection_drop_permit :: "nat \<Rightarrow> Listener \<Rightarrow> Listener" where
  "connection_drop_permit cid L =
     L\<lparr>ln_stats := ConnPermit_drop (ln_stats L), ln_serving := ln_serving L - {cid},
       ln_leaving := insert cid (ln_leaving L)\<rparr>"

definition connection_unregister :: "nat \<Rightarrow> Listener \<Rightarrow> Listener" where
  "connection_unregister cid L = Connections_remove cid (L\<lparr>ln_leaving := ln_leaving L - {cid}\<rparr>)"

text \<open>
  \<open>ShutdownHandle::shutdown\<close> clears \<open>running\<close> and then shuts the registered sockets down; steps of the loop and ending
  connections may come between.
\<close>
inductive accept_step :: "Listener \<Rightarrow> Listener \<Rightarrow> bool" where
  loop_step: "\<not> ln_ended L \<Longrightarrow> accept_step L (accept_advance clones spawns L)"
| connection_done: "cid \<in> ln_serving L \<Longrightarrow> accept_step L (connection_drop_permit cid L)"
| connection_gone: "cid \<in> ln_leaving L \<Longrightarrow> accept_step L (connection_unregister cid L)"
| shutdown_flag: "accept_step L (L\<lparr>ln_running := False\<rparr>)"
| shutdown_wake: "\<not> ln_running L \<Longrightarrow> accept_step L (Connections_shutdown_all L)"

text \<open>The permit in the hands of the loop itself.\<close>
definition loop_permits :: "Listener \<Rightarrow> nat" where
  "loop_permits L = (case ln_point L of RegisterSocket _ \<Rightarrow> 1 | SpawnThread _ \<Rightarrow> 1 | _ \<Rightarrow> 0)"

definition accept_inv :: "Listener \<Rightarrow> bool" where
  "accept_inv L \<longleftrightarrow>
     finite (ln_serving L) \<and> ss_active_connections (ln_stats L) = card (ln_serving L) + loop_permits L \<and>
     (ss_max_connections (ln_stats L) \<noteq> 0 \<longrightarrow> ss_active_connections (ln_stats L) \<le> ss_max_connections (ln_stats L)) \<and>
     ln_serving L \<subseteq> ln_streams L \<and> ln_serving L \<inter> ln_leaving L = {} \<and>
     (\<forall>cid \<in> ln_streams L \<union> ln_leaving L. cid < ln_next_id L) \<and>
     (\<forall>cid. ln_point L = RegisterSocket cid \<longrightarrow> cid < ln_next_id L \<and> cid \<notin> ln_streams L \<union> ln_leaving L) \<and>
     (\<forall>cid. ln_point L = SpawnThread cid \<longrightarrow> cid \<in> ln_streams L - ln_serving L - ln_leaving L) \<and>
     (ln_shutting_down L \<longrightarrow> ln_streams L \<subseteq> ln_woken L)"

lemmas accept_defs = accept_inv_def loop_permits_def ConnPermit_acquire_def ConnPermit_drop_def Connections_register_def

lemma accept_advance_inv: "accept_inv L \<Longrightarrow> accept_inv (accept_advance clones spawns L)"
proof (cases "ln_point L")
  case AwaitSocket
  moreover assume "accept_inv L"
  ultimately show ?thesis by (auto simp: accept_advance_def accept_check_def accept_defs)
next
  case TakePermit
  moreover assume "accept_inv L"
  ultimately show ?thesis by (auto simp: accept_advance_def accept_permit_def accept_defs Let_def less_SucI split: if_splits)
next
  case (RegisterSocket cid)
  moreover assume "accept_inv L"
  ultimately show ?thesis by (auto simp: accept_advance_def accept_register_def accept_defs)
next
  case (SpawnThread cid)
  moreover assume "accept_inv L"
  ultimately show ?thesis by (auto simp: accept_advance_def accept_spawn_def accept_defs card_insert_if)
qed

lemma connection_drop_permit_inv:
  assumes "accept_inv L" and "cid \<in> ln_serving L"
  shows "accept_inv (connection_drop_permit cid L)"
proof -
  have "card (ln_serving L - {cid}) = card (ln_serving L) - 1" "0 < card (ln_serving L)"
    using assms by (auto simp: accept_inv_def card_gt_0_iff)
  then show ?thesis using assms by (auto simp: connection_drop_permit_def accept_defs)
qed

lemma connection_unregister_inv:
  assumes "accept_inv L" and "cid \<in> ln_leaving L"
  shows "accept_inv (connection_unregister cid L)"
  using assms by (auto simp: connection_unregister_def Connections_remove_def accept_defs)

lemma accept_step_inv: "\<lbrakk>accept_step L L'; accept_inv L\<rbrakk> \<Longrightarrow> accept_inv L'"
proof (induction rule: accept_step.induct)
  case (shutdown_flag L)
  then show ?case by (auto simp: accept_inv_def loop_permits_def)
next
  case (shutdown_wake L)
  then show ?case by (auto simp: accept_inv_def loop_permits_def Connections_shutdown_all_def)
qed (simp_all add: accept_advance_inv connection_drop_permit_inv connection_unregister_inv)

lemma accept_reachable: "accept_step\<^sup>*\<^sup>* (Listener_new dir cfg now) L \<Longrightarrow> accept_inv L"
proof (induction rule: rtranclp_induct)
  case base
  show ?case by (simp add: accept_inv_def loop_permits_def Listener_new_def SharedStats_new_def)
qed (rule accept_step_inv)

lemma accept_max:
  "accept_step\<^sup>*\<^sup>* (Listener_new dir cfg now) L \<Longrightarrow> ss_max_connections (ln_stats L) = max_connections cfg"
proof (induction rule: rtranclp_induct)
  case base
  then show ?case by (simp add: Listener_new_def SharedStats_new_def)
next
  case (step L L')
  from step(2) have "ss_max_connections (ln_stats L') = ss_max_connections (ln_stats L)"
    by (cases rule: accept_step.cases)
      (auto simp: accept_advance_def accept_check_def accept_permit_def accept_register_def accept_spawn_def
        ConnPermit_acquire_def ConnPermit_drop_def Connections_register_def connection_drop_permit_def
        connection_unregister_def Connections_remove_def Connections_shutdown_all_def Let_def split: LoopPoint.splits)
  then show ?case using step(3) by simp
qed

subsection \<open>Properties\<close>

text \<open>
  C26. The connection cap holds and no connection outlives a shutdown unnoticed: however the steps of the accept loop,
  failing clones and spawns, ending connections and the shutdown interleave (a shutdown may fall between the check of
  \<open>running\<close> and the registration of an accepted socket), the gauge is the number of connections served plus the permit
  in the loop's hands and never exceeds a non-zero cap, every served connection is registered, and once the registry
  is shutting down every registered socket has been woken, that of a thread about to be spawned included.
\<close>
theorem server_admission:
  assumes "accept_step\<^sup>*\<^sup>* (Listener_new dir cfg now) L"
  shows "ss_active_connections (ln_stats L) = card (ln_serving L) + loop_permits L \<and>
     (max_connections cfg \<noteq> 0 \<longrightarrow> ss_active_connections (ln_stats L) \<le> max_connections cfg) \<and>
     ln_serving L \<subseteq> ln_streams L \<and>
     (ln_shutting_down L \<longrightarrow>
        ln_streams L \<subseteq> ln_woken L \<and> (\<forall>cid. ln_point L = SpawnThread cid \<longrightarrow> cid \<in> ln_woken L))"
  using accept_reachable [OF assms] accept_max [OF assms] by (auto simp: accept_inv_def)

text \<open>One connection served, a second one accepted when the shutdown comes: it is refused and never served.\<close>
theorem server_admission_witness:
  "\<exists>L. accept_step\<^sup>*\<^sup>* (Listener_new None ServerConfig_default 0) L \<and>
     ln_shutting_down L \<and> ln_serving L = {0} \<and> 0 \<in> ln_woken L \<and> ss_active_connections (ln_stats L) = 1"
proof -
  let ?a = "accept_advance True True" and ?L0 = "Listener_new None ServerConfig_default 0"
  define L1 where "L1 = (?a ^^ 6) ?L0"
  define L2 where "L2 = Connections_shutdown_all (L1\<lparr>ln_running := False\<rparr>)"
  define L3 where "L3 = ?a L2"
  have live: "\<forall>n \<in> set [0..<6]. \<not> ln_ended ((?a ^^ n) ?L0)" by code_simp
  have loop: "accept_step\<^sup>*\<^sup>* ?L0 ((?a ^^ n) ?L0)" if "n \<le> 6" for n
    using that
  proof (induction n)
    case (Suc n)
    have "\<not> ln_ended ((?a ^^ n) ?L0)" using live Suc.prems by simp
    from loop_step [OF this, of True True] Suc show ?case by simp
  qed simp
  have "accept_step\<^sup>*\<^sup>* ?L0 L1" unfolding L1_def by (rule loop) simp
  also have "accept_step L1 (L1\<lparr>ln_running := False\<rparr>)" by (rule shutdown_flag)
  also have "accept_step \<dots> L2" unfolding L2_def by (rule shutdown_wake) simp
  also have "accept_step L2 L3" unfolding L3_def by (rule loop_step) (simp add: L1_def L2_def Connections_shutdown_all_def, code_simp)
  finally have run: "accept_step\<^sup>*\<^sup>* ?L0 L3" .
  have f: "ln_shutting_down L3" "ln_serving L3 = {0}" "loop_permits L3 = 0" unfolding L3_def L2_def L1_def by code_simp+
  from server_admission [OF run] show ?thesis using run f by (intro exI [of _ L3]) auto
qed

end
