(* ===== verification/Client.thy ===== *)
theory Client
  imports Server
begin

text \<open>
  The blocking client (\<open>crates/tephra-client/src/lib.rs\<close>): the opening Hello, appends, statistics, streamed reads and
  subscriptions over one connection, one request at a time.

  A client holds the script of its socket (\<open>WireFrame\<close>), the bytes it wrote, the next request id and the frame limit.
  \<open>ser\<close> serializes a request and \<open>par\<close> parses a response (the protobuf runtime). \<open>cl_write_err\<close> is what a write or a
  flush fails with, if it does. A \<open>ReadStream\<close> and a \<open>SubscribeStream\<close> borrow the client's reader and give it back.
  Connecting, TLS and the cloned socket of a subscription's cancel handle are not modelled.
\<close>

subsection \<open>Requests and single responses\<close>

definition UNATTRIBUTED_REQUEST_ID :: nat where "UNATTRIBUTED_REQUEST_ID = 0"

record Client =
  cl_reader :: "SockEvent list"
  cl_written :: bytes
  cl_write_err :: "IoKind option"
  cl_next_id :: nat
  cl_max_frame_len :: nat

type_synonym req_ser = "pb_Request \<Rightarrow> bytes option"
type_synonym resp_par = "bytes \<Rightarrow> pb_Response option"

definition Client_new :: "SockEvent list \<Rightarrow> Client" where
  "Client_new s = \<lparr>cl_reader = s, cl_written = [], cl_write_err = None, cl_next_id = 1, cl_max_frame_len = DEFAULT_MAX_FRAME_LEN\<rparr>"

definition set_max_frame_len :: "nat \<Rightarrow> Client \<Rightarrow> Client" where
  "set_max_frame_len n c = c\<lparr>cl_max_frame_len := n\<rparr>"

definition next_id :: "Client \<Rightarrow> nat \<times> Client" where
  "next_id c = (cl_next_id c, c\<lparr>cl_next_id := cl_next_id c + 1\<rparr>)"

definition client_send :: "req_ser \<Rightarrow> pb_Request \<Rightarrow> Client \<Rightarrow> (ClientError + unit) \<times> Client" where
  "client_send ser request c =
     (case write_frame ser request (cl_max_frame_len c) of
        Inl err \<Rightarrow> (Inl (ClientFrame err), c)
      | Inr bs \<Rightarrow>
          (case cl_write_err c of
             Some k \<Rightarrow> (Inl (ClientFrame (FrameIo k)), c)
           | None \<Rightarrow> (Inr (), c\<lparr>cl_written := cl_written c @ bs\<rparr>)))"

definition client_recv :: "resp_par \<Rightarrow> Client \<Rightarrow> (ClientError + pb_Response) \<times> Client" where
  "client_recv par c =
     (case read_frame par (cl_max_frame_len c) (cl_reader c) of
        (Inl err, s) \<Rightarrow> (Inl (ClientFrame err), c\<lparr>cl_reader := s\<rparr>)
      | (Inr None, s) \<Rightarrow> (Inl ClientEof, c\<lparr>cl_reader := s\<rparr>)
      | (Inr (Some resp), s) \<Rightarrow> (Inr resp, c\<lparr>cl_reader := s\<rparr>))"

definition check_response_id :: "pb_Response \<Rightarrow> nat \<Rightarrow> ClientError + unit" where
  "check_response_id response expected =
     (if rs_id response \<noteq> expected \<and> rs_id response \<noteq> UNATTRIBUTED_REQUEST_ID
      then Inl (ClientProtocol (WrongId (rs_id response) expected)) else Inr ())"

text \<open>Sending a request and awaiting its single response, as \<open>hello\<close>, \<open>append\<close> and \<open>stats\<close> do.\<close>
definition round_trip :: "req_ser \<Rightarrow> resp_par \<Rightarrow> pb_Request \<Rightarrow> Client \<Rightarrow> (ClientError + pb_Response) \<times> Client" where
  "round_trip ser par request c =
     (case client_send ser request c of
        (Inl err, c) \<Rightarrow> (Inl err, c)
      | (Inr _, c) \<Rightarrow>
          (case client_recv par c of
             (Inl err, c) \<Rightarrow> (Inl err, c)
           | (Inr response, c) \<Rightarrow>
               (case check_response_id response (rq_id request) of Inl err \<Rightarrow> (Inl err, c) | Inr _ \<Rightarrow> (Inr response, c))))"

definition verify_hello_ack :: "pb_Response \<Rightarrow> ClientError + unit" where
  "verify_hello_ack response =
     (case rs_kind response of
        RespHelloAck server \<Rightarrow>
          if server \<noteq> PROTOCOL_VERSION then Inl (ClientProtocol (WrongVersion server)) else Inr ()
      | RespError error \<Rightarrow> Inl (server_error error)
      | other \<Rightarrow> Inl (ClientProtocol (WrongKind other)))"

definition client_hello :: "req_ser \<Rightarrow> resp_par \<Rightarrow> str option \<Rightarrow> Client \<Rightarrow> (ClientError + unit) \<times> Client" where
  "client_hello ser par auth_token c =
     (case next_id c of
        (cid, c) \<Rightarrow>
          (case round_trip ser par (hello_request cid auth_token) c of
             (Inl err, c) \<Rightarrow> (Inl err, c)
           | (Inr response, c) \<Rightarrow> (verify_hello_ack response, c)))"

text \<open>The error kinds of a failed connect.\<close>
datatype ConnectError = PermissionDenied ErrText | InvalidData ClientError | ConnectIo IoKind

definition hello_error :: "ClientError \<Rightarrow> ConnectError" where
  "hello_error err =
     (case err of
        ClientServer CodeUnauthenticated message _ _ \<Rightarrow> PermissionDenied message
      | ClientFrame (FrameIo k) \<Rightarrow> ConnectIo k
      | _ \<Rightarrow> InvalidData err)"

definition connect_with :: "req_ser \<Rightarrow> resp_par \<Rightarrow> SockEvent list \<Rightarrow> str option \<Rightarrow> ConnectError + Client" where
  "connect_with ser par s auth_token =
     (case client_hello ser par auth_token (Client_new s) of
        (Inl err, _) \<Rightarrow> Inl (hello_error err)
      | (Inr _, c) \<Rightarrow> Inr c)"

definition append_message :: "nat \<Rightarrow> ClientEvent list \<Rightarrow> AppendCondition option \<Rightarrow> pb_Request" where
  "append_message cid events condition =
     \<lparr>rq_id = cid, rq_kind = ReqAppend \<lparr>pa_events = map event_to_pb events, pa_condition = map_option condition_to_pb condition\<rparr>\<rparr>"

definition client_append ::
  "req_ser \<Rightarrow> resp_par \<Rightarrow> ClientEvent list \<Rightarrow> AppendCondition option \<Rightarrow> Client \<Rightarrow> (ClientError + (Position \<times> Position)) \<times> Client" where
  "client_append ser par events condition c =
     (case next_id c of
        (cid, c) \<Rightarrow>
          (case round_trip ser par (append_message cid events condition) c of
             (Inl err, c) \<Rightarrow> (Inl err, c)
           | (Inr response, c) \<Rightarrow>
               ((case rs_kind response of
                   RespAppend lo hi \<Rightarrow> Inr (lo, hi)
                 | RespError error \<Rightarrow> Inl (server_error error)
                 | other \<Rightarrow> Inl (ClientProtocol (WrongKind other))), c)))"

definition client_stats :: "req_ser \<Rightarrow> resp_par \<Rightarrow> Client \<Rightarrow> (ClientError + StatsSnapshot) \<times> Client" where
  "client_stats ser par c =
     (case next_id c of
        (cid, c) \<Rightarrow>
          (case round_trip ser par \<lparr>rq_id = cid, rq_kind = ReqStats\<rparr> c of
             (Inl err, c) \<Rightarrow> (Inl err, c)
           | (Inr response, c) \<Rightarrow>
               ((case rs_kind response of
                   RespStats stats \<Rightarrow> Inr stats
                 | RespError error \<Rightarrow> Inl (server_error error)
                 | other \<Rightarrow> Inl (ClientProtocol (WrongKind other))), c)))"

subsection \<open>Streamed reads\<close>

record ReadStream =
  rt_reader :: "SockEvent list"
  rt_max_frame_len :: nat
  rt_request_id :: nat
  rt_buffered :: "ClientSequenced list"
  rt_watermark :: "Position option"
  rt_done :: bool

definition read_message :: "nat \<Rightarrow> Query \<Rightarrow> Position \<Rightarrow> bool \<Rightarrow> nat option \<Rightarrow> pb_Request" where
  "read_message cid query cur reverse limit =
     \<lparr>rq_id = cid, rq_kind = ReqRead \<lparr>pr_query = query_to_pb query, pr_after = cur, pr_limit = limit, pr_reverse = reverse\<rparr>\<rparr>"

definition start_read ::
  "req_ser \<Rightarrow> Query \<Rightarrow> Position \<Rightarrow> bool \<Rightarrow> nat option \<Rightarrow> Client \<Rightarrow> (ClientError + ReadStream) \<times> Client" where
  "start_read ser query cur reverse limit c =
     (case next_id c of
        (cid, c) \<Rightarrow>
          (case client_send ser (read_message cid query cur reverse limit) c of
             (Inl err, c) \<Rightarrow> (Inl err, c)
           | (Inr _, c) \<Rightarrow>
               (Inr \<lparr>rt_reader = cl_reader c, rt_max_frame_len = cl_max_frame_len c, rt_request_id = cid, rt_buffered = [],
                     rt_watermark = None, rt_done = False\<rparr>, c)))"

text \<open>Pushing the events of a batch: the events before the first malformed one stay buffered.\<close>
fun push_events_pb :: "pb_SequencedEvent list \<Rightarrow> ClientSequenced list \<Rightarrow> ClientError option \<times> ClientSequenced list" where
  "push_events_pb [] buffered = (None, buffered)"
| "push_events_pb (ev # evs) buffered =
     (case sequenced_from_pb ev of
        Inl err \<Rightarrow> (Some err, buffered)
      | Inr sq \<Rightarrow> push_events_pb evs (buffered @ [sq]))"

lemma read_frame_size:
  assumes "read_frame par mx s = (Inr (Some m), s')"
  shows "sock_size s' < sock_size s"
proof -
  have "read_frame_loop par mx r s = (Inr (Some m), s') \<Longrightarrow> sock_size s' < sock_size s" for r
  proof (induction par mx r s rule: read_frame_loop.induct)
    case (1 par mx r s)
    obtain res r1 s1 where poll: "frame_poll par mx r s = (res, r1, s1)" by (metis prod_cases3)
    note unfolded = read_frame_loop.simps [of par mx r s]
    show ?case
    proof (cases res)
      case (Inr p)
      note size = frame_poll_size [OF poll [unfolded Inr]]
      show ?thesis
      proof (cases p)
        case PollProgress
        then have "read_frame_loop par mx r1 s1 = (Inr (Some m), s')" using "1.prems" unfolded poll Inr by simp
        then show ?thesis using "1.IH" [OF poll [symmetric]] Inr PollProgress size by fastforce
      qed (use "1.prems" unfolded poll Inr size in auto)
    qed (use "1.prems" unfolded poll in simp)
  qed
  then show ?thesis using assms by (simp add: read_frame_def)
qed

text \<open>\<open>ReadStream::fill\<close>.\<close>
function read_fill :: "resp_par \<Rightarrow> ReadStream \<Rightarrow> (ClientError + unit) \<times> ReadStream" where
  "read_fill par st =
     (case read_frame par (rt_max_frame_len st) (rt_reader st) of
        (Inl err, s) \<Rightarrow> (Inl (ClientFrame err), st\<lparr>rt_reader := s\<rparr>)
      | (Inr None, s) \<Rightarrow> (Inl ClientEof, st\<lparr>rt_reader := s\<rparr>)
      | (Inr (Some response), s) \<Rightarrow>
          let st = st\<lparr>rt_reader := s\<rparr>; got = rs_id response
          in if got \<noteq> rt_request_id st \<and> got \<noteq> UNATTRIBUTED_REQUEST_ID
             then (Inl (ClientProtocol (WrongId got (rt_request_id st))), st\<lparr>rt_done := True\<rparr>)
             else case rs_kind response of
               RespReadEvents evs \<Rightarrow>
                 (case push_events_pb evs (rt_buffered st) of
                    (Some err, buffered) \<Rightarrow> (Inl err, st\<lparr>rt_buffered := buffered\<rparr>)
                  | (None, buffered) \<Rightarrow>
                      if buffered \<noteq> [] then (Inr (), st\<lparr>rt_buffered := buffered\<rparr>) else read_fill par st)
             | RespReadEnd wm \<Rightarrow> (Inr (), st\<lparr>rt_watermark := Some wm, rt_done := True\<rparr>)
             | RespError error \<Rightarrow> (Inl (server_error error), st\<lparr>rt_done := True\<rparr>)
             | other \<Rightarrow> (Inl (ClientProtocol (WrongKind other)), st\<lparr>rt_done := True\<rparr>))"
  by pat_completeness auto
termination
  by (relation "measure (\<lambda>(par, st). sock_size (rt_reader st))") (auto dest: read_frame_size [OF sym])

declare read_fill.simps [simp del]

text \<open>\<open>ReadStream::next\<close>.\<close>
definition read_next :: "resp_par \<Rightarrow> ReadStream \<Rightarrow> (ClientError + ClientSequenced) option \<times> ReadStream" where
  "read_next par st =
     (case rt_buffered st of
        sq # rest \<Rightarrow> (Some (Inr sq), st\<lparr>rt_buffered := rest\<rparr>)
      | [] \<Rightarrow>
          if rt_done st then (None, st)
          else case read_fill par st of
            (Inr _, st) \<Rightarrow>
              (case rt_buffered st of
                 [] \<Rightarrow> (None, st)
               | sq # rest \<Rightarrow> (Some (Inr sq), st\<lparr>rt_buffered := rest\<rparr>))
          | (Inl err, st) \<Rightarrow> (Some (Inl err), st\<lparr>rt_done := True\<rparr>))"

text \<open>\<open>ReadStream::drain\<close>: discarding the rest of a read, given the reader; the reader left behind.\<close>
function drain_rest :: "resp_par \<Rightarrow> nat \<Rightarrow> SockEvent list \<Rightarrow> SockEvent list" where
  "drain_rest par mx s =
     (case read_frame par mx s of
        (Inr (Some response), s) \<Rightarrow>
          (case rs_kind response of
             RespReadEnd _ \<Rightarrow> s
           | RespError _ \<Rightarrow> s
           | _ \<Rightarrow> drain_rest par mx s)
      | (_, s) \<Rightarrow> s)"
  by pat_completeness auto
termination
  by (relation "measure (\<lambda>(par, mx, s). sock_size s)") (auto dest: read_frame_size [OF sym])

declare drain_rest.simps [simp del]

text \<open>Dropping a stream: the reader given back to the client.\<close>
definition drop_stream :: "resp_par \<Rightarrow> ReadStream \<Rightarrow> SockEvent list" where
  "drop_stream par st = (if rt_done st then rt_reader st else drain_rest par (rt_max_frame_len st) (rt_reader st))"

lemma read_fill_size: "read_fill par st = (Inr u, st') \<Longrightarrow> sock_size (rt_reader st') < sock_size (rt_reader st)"
proof (induction par st arbitrary: st' rule: read_fill.induct)
  case (1 par st)
  obtain res s where rd: "read_frame par (rt_max_frame_len st) (rt_reader st) = (res, s)" by fastforce
  note unfolded = read_fill.simps [of par st]
  obtain response where res: "res = Inr (Some response)"
    using "1.prems" unfolded rd by (auto split: sum.splits option.splits)
  note size = read_frame_size [OF rd [unfolded res]]
  show ?case
  proof (cases "read_fill par st = read_fill par (st\<lparr>rt_reader := s\<rparr>)")
    case False
    then show ?thesis using "1.prems" unfolded rd res size
      by (auto simp: Let_def split: if_splits ResponseKind.splits prod.splits option.splits)
  next
    case True
    show ?thesis
    proof (cases "(rs_id response = rt_request_id st \<or> rs_id response = UNATTRIBUTED_REQUEST_ID) \<and>
        (\<exists>evs. rs_kind response = RespReadEvents evs \<and> push_events_pb evs (rt_buffered st) = (None, []))")
      case loop: True
      then obtain evs where evs: "rs_kind response = RespReadEvents evs" "push_events_pb evs (rt_buffered st) = (None, [])" by blast
      have "sock_size (rt_reader st') < sock_size (rt_reader (st\<lparr>rt_reader := s\<rparr>))"
        by (rule "1.IH" [OF rd [symmetric] res refl refl refl _ evs(1)]) (use loop evs "1.prems" True in auto)
      then show ?thesis using size by simp
    next
      case False
      then show ?thesis using "1.prems" unfolded rd res size
        by (auto simp: Let_def split: if_splits ResponseKind.splits prod.splits option.splits)
    qed
  qed
qed

lemma read_next_progress:
  assumes "read_next par st = (Some (Inr sq), st')"
  shows "(sock_size (rt_reader st'), length (rt_buffered st')) \<in> {(a, b)} \<Longrightarrow>
     a < sock_size (rt_reader st) \<or> a = sock_size (rt_reader st) \<and> b < length (rt_buffered st)"
  using assms read_fill_size
  by (auto simp: read_next_def split: list.splits if_splits prod.splits sum.splits dest: read_fill_size)

text \<open>The loop of \<open>drain_read\<close>: the events or the first error, and the stream.\<close>
function drain_events :: "resp_par \<Rightarrow> ReadStream \<Rightarrow> ClientSequenced list \<Rightarrow> (ClientError + ClientSequenced list) \<times> ReadStream" where
  "drain_events par st events =
     (case read_next par st of
        (None, st) \<Rightarrow> (Inr events, st)
      | (Some (Inl err), st) \<Rightarrow> (Inl err, st)
      | (Some (Inr sq), st) \<Rightarrow> drain_events par st (events @ [sq]))"
  by pat_completeness auto
termination
  by (relation "inv_image (less_than <*lex*> less_than) (\<lambda>(par, st, events). (sock_size (rt_reader st), length (rt_buffered st)))")
    (auto dest: read_next_progress [OF sym])

declare drain_events.simps [simp del]

definition drain_read :: "resp_par \<Rightarrow> ReadStream \<Rightarrow> (ClientError + (ClientSequenced list \<times> Position)) \<times> SockEvent list" where
  "drain_read par st =
     (case drain_events par st [] of
        (Inl err, st) \<Rightarrow> (Inl err, drop_stream par st)
      | (Inr events, st) \<Rightarrow>
          (case rt_watermark st of
             None \<Rightarrow> (Inl (ClientProtocol NoWatermark), drop_stream par st)
           | Some wm \<Rightarrow> (Inr (events, wm), drop_stream par st)))"

text \<open>\<open>read_all\<close> and \<open>read_all_back\<close>.\<close>
definition client_read_all ::
  "req_ser \<Rightarrow> resp_par \<Rightarrow> Query \<Rightarrow> Position \<Rightarrow> bool \<Rightarrow> nat option \<Rightarrow> Client \<Rightarrow> (ClientError + (ClientSequenced list \<times> Position)) \<times> Client" where
  "client_read_all ser par query cur reverse limit c =
     (case start_read ser query cur reverse limit c of
        (Inl err, c) \<Rightarrow> (Inl err, c)
      | (Inr st, c) \<Rightarrow> (case drain_read par st of (res, s) \<Rightarrow> (res, c\<lparr>cl_reader := s\<rparr>)))"

subsection \<open>Subscriptions\<close>

datatype SubEvent = SubEvent ClientSequenced | SubCaughtUp Position

record SubscribeStream =
  sb_reader :: "SockEvent list"
  sb_max_frame_len :: nat
  sb_request_id :: nat
  sb_buffered :: "SubEvent list"
  sb_done :: bool

definition client_subscribe :: "req_ser \<Rightarrow> Query \<Rightarrow> Position \<Rightarrow> Client \<Rightarrow> (ClientError + SubscribeStream) \<times> Client" where
  "client_subscribe ser query aft c =
     (case next_id c of
        (cid, c) \<Rightarrow>
          (case client_send ser \<lparr>rq_id = cid, rq_kind = ReqSubscribe \<lparr>psub_query = query_to_pb query, psub_after = aft\<rparr>\<rparr> c of
             (Inl err, c) \<Rightarrow> (Inl err, c)
           | (Inr _, c) \<Rightarrow>
               (Inr \<lparr>sb_reader = cl_reader c, sb_max_frame_len = cl_max_frame_len c, sb_request_id = cid, sb_buffered = [],
                     sb_done = False\<rparr>, c)))"

fun push_sub_events :: "pb_SequencedEvent list \<Rightarrow> SubEvent list \<Rightarrow> ClientError option \<times> SubEvent list" where
  "push_sub_events [] buffered = (None, buffered)"
| "push_sub_events (ev # evs) buffered =
     (case sequenced_from_pb ev of
        Inl err \<Rightarrow> (Some err, buffered)
      | Inr sq \<Rightarrow> push_sub_events evs (buffered @ [SubEvent sq]))"

text \<open>\<open>SubscribeStream::fill\<close>.\<close>
function sub_fill :: "resp_par \<Rightarrow> SubscribeStream \<Rightarrow> (ClientError + unit) \<times> SubscribeStream" where
  "sub_fill par st =
     (case read_frame par (sb_max_frame_len st) (sb_reader st) of
        (Inl err, s) \<Rightarrow> (Inl (ClientFrame err), st\<lparr>sb_reader := s\<rparr>)
      | (Inr None, s) \<Rightarrow> (Inr (), st\<lparr>sb_reader := s, sb_done := True\<rparr>)
      | (Inr (Some response), s) \<Rightarrow>
          let st = st\<lparr>sb_reader := s\<rparr>; got = rs_id response
          in if got \<noteq> sb_request_id st \<and> got \<noteq> UNATTRIBUTED_REQUEST_ID
             then (Inl (ClientProtocol (WrongId got (sb_request_id st))), st\<lparr>sb_done := True\<rparr>)
             else case rs_kind response of
               RespReadEvents evs \<Rightarrow>
                 (case push_sub_events evs (sb_buffered st) of
                    (Some err, buffered) \<Rightarrow> (Inl err, st\<lparr>sb_buffered := buffered\<rparr>)
                  | (None, buffered) \<Rightarrow>
                      if buffered \<noteq> [] then (Inr (), st\<lparr>sb_buffered := buffered\<rparr>) else sub_fill par st)
             | RespCaughtUp wm \<Rightarrow> (Inr (), st\<lparr>sb_buffered := sb_buffered st @ [SubCaughtUp wm]\<rparr>)
             | RespError error \<Rightarrow> (Inl (server_error error), st\<lparr>sb_done := True\<rparr>)
             | other \<Rightarrow> (Inl (ClientProtocol (WrongKind other)), st\<lparr>sb_done := True\<rparr>))"
  by pat_completeness auto
termination
  by (relation "measure (\<lambda>(par, st). sock_size (sb_reader st))") (auto dest: read_frame_size [OF sym])

declare sub_fill.simps [simp del]

text \<open>\<open>SubscribeStream::next\<close>.\<close>
definition sub_next :: "resp_par \<Rightarrow> SubscribeStream \<Rightarrow> (ClientError + SubEvent) option \<times> SubscribeStream" where
  "sub_next par st =
     (case sb_buffered st of
        ev # rest \<Rightarrow> (Some (Inr ev), st\<lparr>sb_buffered := rest\<rparr>)
      | [] \<Rightarrow>
          if sb_done st then (None, st)
          else case sub_fill par st of
            (Inr _, st) \<Rightarrow>
              (case sb_buffered st of
                 [] \<Rightarrow> (None, st)
               | ev # rest \<Rightarrow> (Some (Inr ev), st\<lparr>sb_buffered := rest\<rparr>))
          | (Inl err, st) \<Rightarrow> (Some (Inl err), st\<lparr>sb_done := True\<rparr>))"

subsection \<open>Whole frames from a patient connection\<close>

text \<open>A connection that delivers bytes in any pieces, with reads interrupted in between.\<close>
definition patient :: "SockEvent list \<Rightarrow> bool" where
  "patient s \<longleftrightarrow> (\<forall>ev \<in> set s. ev = Fails IoInterrupted \<or> (\<exists>b. ev = Arrives b))"

lemma sock_read_patient:
  "\<lbrakk>sock_read n s = (res, s'); patient s\<rbrakk> \<Longrightarrow> patient s' \<and> (\<forall>k. res = Inl k \<longrightarrow> k = IoInterrupted)"
  by (induction n s rule: sock_read.induct) (auto simp: patient_def split: if_splits)

lemma read_once_patient:
  "\<lbrakk>read_once b filled s = (res, b', filled', s'); patient s\<rbrakk> \<Longrightarrow> patient s' \<and> res \<noteq> Inr StepWouldBlock"
proof (induction b filled s rule: read_once.induct)
  case (1 b filled s)
  obtain o1 s1 where o1: "sock_read (length b - filled) s = (o1, s1)" by fastforce
  note step = sock_read_patient [OF o1 "1.prems"(2)]
  note unfolded = read_once.simps [of b filled s]
  show ?case
  proof (cases o1)
    case (Inl k)
    then have "k = IoInterrupted" using step by simp
    then show ?thesis using "1.IH" [OF o1 [symmetric] Inl] "1.prems" step Inl o1 unfolded by simp
  qed (use "1.prems" step o1 unfolded in \<open>auto split: if_splits\<close>)
qed

lemma finish_no_block: "finish parse r = (res, r') \<Longrightarrow> res \<noteq> Inr (PollWouldBlock b)"
  by (auto simp: finish_def split: option.splits)

lemma poll_prefix_patient:
  assumes "poll_prefix parse mx r s = (res, r', s')" and "patient s"
  shows "patient s' \<and> res \<noteq> Inr (PollWouldBlock p)"
proof -
  obtain st b n s1 where once: "read_once (fr_len_buf r) (fr_len_filled r) s = (st, b, n, s1)" by (metis prod_cases4)
  have "s' = s1 \<and> res \<noteq> Inr (PollWouldBlock p)" if "st \<noteq> Inr StepWouldBlock"
    using assms(1) once that
    by (cases st rule: sum.exhaust; cases "projr st")
      (auto simp: poll_prefix_def Let_def split: if_splits prod.splits dest: finish_no_block)
  then show ?thesis using read_once_patient [OF once assms(2)] by simp
qed

lemma poll_body_patient:
  assumes "poll_body parse r s = (res, r', s')" and "patient s"
  shows "patient s' \<and> res \<noteq> Inr (PollWouldBlock p)"
proof -
  obtain st b n s1 where once: "read_once (fr_body r) (fr_body_filled r) s = (st, b, n, s1)" by (metis prod_cases4)
  have "s' = s1 \<and> res \<noteq> Inr (PollWouldBlock p)" if "st \<noteq> Inr StepWouldBlock"
    using assms(1) once that
    by (cases st rule: sum.exhaust; cases "projr st")
      (auto simp: poll_body_def Let_def split: if_splits prod.splits dest: finish_no_block)
  then show ?thesis using read_once_patient [OF once assms(2)] by simp
qed

lemma frame_poll_patient:
  assumes "frame_poll parse mx r s = (res, r', s')" and "patient s"
  shows "patient s' \<and> res \<noteq> Inr (PollWouldBlock p)"
proof (cases "fr_len_filled r < 4")
  case True
  then have "poll_prefix parse mx r s = (res, r', s')" using assms(1) by (simp add: frame_poll_def)
  then show ?thesis by (rule poll_prefix_patient [OF _ assms(2)])
next
  case False
  then have "poll_body parse r s = (res, r', s')" using assms(1) by (simp add: frame_poll_def)
  then show ?thesis by (rule poll_body_patient [OF _ assms(2)])
qed

lemma framed_inj:
  assumes "framed a @ x = framed b @ y" and "length a \<le> U32_MAX" and "length b \<le> U32_MAX"
  shows "a = b \<and> x = y"
proof -
  from assms(1) have len: "be_bytes 4 (length a) = be_bytes 4 (length b)" and rest: "a @ x = b @ y"
    by (simp_all add: framed_def)
  have "of_be (be_bytes 4 (length a)) = length a" "of_be (be_bytes 4 (length b)) = length b" using assms(2,3) by simp_all
  then have "length a = length b" using len by metis
  then show ?thesis using rest by simp
qed

lemma read_frame_loop_delivers:
  "\<lbrakk>reader_ok mx r; patient s; held r @ sock_data s = framed bd @ rest; length bd \<le> mx; length bd \<le> U32_MAX; parse bd = Some m\<rbrakk> \<Longrightarrow>
   \<exists>s'. read_frame_loop parse mx r s = (Inr (Some m), s') \<and> patient s' \<and> sock_data s' = rest"
proof (induction parse mx r s rule: read_frame_loop.induct)
  case (1 parse mx r s)
  obtain res r1 s1 where poll: "frame_poll parse mx r s = (res, r1, s1)" by (metis prod_cases3)
  note tells = frame_poll_tells [OF poll "1.prems"(1), unfolded poll_tells_def]
  have calm: "patient s1 \<and> res \<noteq> Inr (PollWouldBlock b)" for b by (rule frame_poll_patient [OF poll "1.prems"(2)])
  note unfolded = read_frame_loop.simps [of parse mx r s]
  show ?case
  proof (cases res)
    case (Inl err)
    then show ?thesis
      using tells frames_of_framed [OF "1.prems"(4,5), of parse "sock_end s" rest] "1.prems"(3,6) by (simp split: prod.splits)
  next
    case (Inr p)
    show ?thesis
    proof (cases p)
      case (PollFrame msg)
      then obtain bd' where "framed bd @ rest = framed bd' @ sock_data s1" "length bd' \<le> U32_MAX" "parse bd' = Some msg"
        using tells Inr "1.prems"(3) by auto
      then have "bd = bd' \<and> rest = sock_data s1" using framed_inj "1.prems"(5) by blast
      then show ?thesis using unfolded poll Inr PollFrame calm \<open>parse bd' = Some msg\<close> "1.prems"(6) by simp
    next
      case PollEof
      then have "framed bd @ rest = []" using tells Inr "1.prems"(3) by simp
      then have "length (framed bd) = 0" by simp
      then show ?thesis by (simp add: framed_def del: length_0_conv)
    next
      case PollProgress
      then show ?thesis using "1.IH" [OF poll [symmetric] Inr PollProgress refl] tells Inr calm "1.prems" unfolded poll by simp
    qed (use calm Inr in blast)
  qed
qed

lemma read_frame_written:
  assumes "write_frame ser m mx = Inr f" and "\<forall>m b. ser m = Some b \<longrightarrow> parse b = Some m"
    and "mx \<le> cmx" and "mx \<le> U32_MAX" and "patient s" and "sock_data s = f @ rest"
  obtains s' where "read_frame parse cmx s = (Inr (Some m), s')" and "patient s'" and "sock_data s' = rest"
proof -
  from assms(1) obtain bd where bd: "ser m = Some bd" "length bd \<le> mx" "f = framed bd"
    by (auto simp: write_frame_def framed_def split: option.splits if_splits)
  then show thesis
    using that read_frame_loop_delivers [of cmx FrameReader_new s bd rest parse m] assms(2-6) bd(1)
    by (auto simp: read_frame_def)
qed

subsection \<open>Draining a read\<close>

lemma push_events_map:
  "(\<And>x. x \<in> set xs \<Longrightarrow> sequenced_from_pb (f x) = Inr (g x)) \<Longrightarrow> push_events_pb (map f xs) buffered = (None, buffered @ map g xs)"
  by (induction xs arbitrary: buffered) simp_all

lemma drain_events_buffered:
  "drain_events par st out = drain_events par (st\<lparr>rt_buffered := []\<rparr>) (out @ rt_buffered st)"
proof (induction "rt_buffered st" arbitrary: st out)
  case Nil
  then have "st\<lparr>rt_buffered := []\<rparr> = st" "rt_buffered st = []" by simp_all
  then show ?case by (simp only: append_Nil2)
next
  case (Cons sq rest)
  have "drain_events par st out = drain_events par (st\<lparr>rt_buffered := rest\<rparr>) (out @ [sq])"
    by (subst drain_events.simps) (simp add: read_next_def flip: Cons.hyps(2))
  then show ?case using Cons.hyps(1) [of "st\<lparr>rt_buffered := rest\<rparr>" "out @ [sq]"] Cons.hyps(2) [symmetric] by simp
qed

lemma read_next_events:
  assumes "read_frame par (rt_max_frame_len st) (rt_reader st) = (Inr (Some (make_response (rt_request_id st) (RespReadEvents evs))), s)"
    and "push_events_pb evs [] = (None, sq # sqs)" and "rt_buffered st = []" and "\<not> rt_done st"
  shows "read_next par st = (Some (Inr sq), st\<lparr>rt_reader := s, rt_buffered := sqs\<rparr>)"
  using assms by (simp add: read_next_def read_fill.simps [of par st] make_response_def Let_def)

lemma read_next_end:
  assumes "read_frame par (rt_max_frame_len st) (rt_reader st) = (Inr (Some (make_response (rt_request_id st) (RespReadEnd wm))), s)"
    and "rt_buffered st = []" and "\<not> rt_done st"
  shows "read_next par st = (None, st\<lparr>rt_reader := s, rt_watermark := Some wm, rt_done := True\<rparr>)"
  using assms by (simp add: read_next_def read_fill.simps [of par st] make_response_def Let_def)

lemma drain_events_frames:
  assumes "list_all2 (\<lambda>m f. write_frame ser m mx = Inr f)
      (map (\<lambda>ys. make_response (rt_request_id st) (RespReadEvents (map f ys))) yss @ [make_response (rt_request_id st) (RespReadEnd wm)]) fs"
    and codec: "\<forall>m b. ser m = Some b \<longrightarrow> par b = Some m" and mx: "mx \<le> rt_max_frame_len st" "mx \<le> U32_MAX"
    and "\<And>y. y \<in> set (concat yss) \<Longrightarrow> sequenced_from_pb (f y) = Inr (g y)" and "[] \<notin> set yss"
    and "patient (rt_reader st)" and "sock_data (rt_reader st) = concat fs @ rest"
    and "rt_buffered st = []" and "\<not> rt_done st"
  shows "\<exists>s'. drain_events par st out =
      (Inr (out @ map g (concat yss)), st\<lparr>rt_reader := s', rt_watermark := Some wm, rt_done := True\<rparr>) \<and>
    patient s' \<and> sock_data s' = rest"
  using assms(1) mx assms(5-10)
proof (induction yss arbitrary: fs st out)
  case Nil
  then obtain fr where "fs = [fr]" "write_frame ser (make_response (rt_request_id st) (RespReadEnd wm)) mx = Inr fr"
    by (auto simp: list_all2_Cons1)
  then obtain s' where "read_frame par (rt_max_frame_len st) (rt_reader st) =
      (Inr (Some (make_response (rt_request_id st) (RespReadEnd wm))), s')" "patient s'" "sock_data s' = rest"
    using read_frame_written [of ser _ mx fr par "rt_max_frame_len st" "rt_reader st" rest] codec Nil.prems by auto
  then show ?case
    using read_next_end [of par st wm s'] Nil.prems by (subst drain_events.simps) auto
next
  case (Cons ys yss)
  let ?m = "make_response (rt_request_id st) (RespReadEvents (map f ys))"
  from Cons.prems(1) obtain fr frs where fs: "fs = fr # frs" "write_frame ser ?m mx = Inr fr"
    and rest: "list_all2 (\<lambda>m f. write_frame ser m mx = Inr f)
      (map (\<lambda>ys. make_response (rt_request_id st) (RespReadEvents (map f ys))) yss @ [make_response (rt_request_id st) (RespReadEnd wm)]) frs"
    by (auto simp: list_all2_Cons1)
  obtain s1 where s1: "read_frame par (rt_max_frame_len st) (rt_reader st) = (Inr (Some ?m), s1)" "patient s1"
      "sock_data s1 = concat frs @ rest"
    using read_frame_written [OF fs(2) codec Cons.prems(2,3,6), where rest = "concat frs @ rest"] Cons.prems(7) fs(1) by auto
  obtain y ys' where ys: "ys = y # ys'" using Cons.prems(5) by (cases ys) auto
  have "push_events_pb (map f ys) [] = (None, [] @ map g ys)" by (rule push_events_map) (use Cons.prems(4) in auto)
  then have push: "push_events_pb (map f ys) [] = (None, g y # map g ys')" using ys by simp
  have st: "st\<lparr>rt_reader := s1, rt_buffered := []\<rparr> = st\<lparr>rt_reader := s1\<rparr>" using Cons.prems(8) by (cases st) simp
  have "drain_events par st out = drain_events par (st\<lparr>rt_reader := s1, rt_buffered := map g ys'\<rparr>) (out @ [g y])"
    using read_next_events [OF s1(1) push Cons.prems(8,9)] by (subst drain_events.simps) simp
  also have "\<dots> = drain_events par (st\<lparr>rt_reader := s1\<rparr>) (out @ map g ys)"
    using drain_events_buffered [of par "st\<lparr>rt_reader := s1, rt_buffered := map g ys'\<rparr>" "out @ [g y]"] ys st by simp
  finally show ?case
    using Cons.IH [of "st\<lparr>rt_reader := s1\<rparr>" frs "out @ map g ys"] rest Cons.prems s1 by auto
qed

lemma read_answer_decodes:
  assumes "\<forall>e \<in> set es. wf_Event e" and "set (read_spec es wm job) \<subseteq> {1..length es}"
    and "y \<in> set (map (sequenced es) (read_spec es wm job))"
  shows "sequenced_from_pb (to_pb y) = Inr \<lparr>cs_position = sq_position y, cs_event = client_event (sq_event y)\<rparr>"
proof -
  from assms(3) obtain p where p: "y = sequenced es p" "p \<in> set (read_spec es wm job)" by auto
  then have "1 \<le> p" "p \<le> length es" using assms(2) by auto
  then have "es ! (p - 1) \<in> set es" by simp
  then show ?thesis using sequenced_from_proto [of "es ! (p - 1)" p] assms(1) p(1) by (simp add: to_pb_def sequenced_def)
qed

lemma drain_read_answer:
  assumes "list_all2 (\<lambda>m f. write_frame ser m mx = Inr f) (read_answer cfg es wm job) fs" and "\<forall>e \<in> set es. wf_Event e"
    and codec: "\<forall>m b. ser m = Some b \<longrightarrow> par b = Some m" and mx: "mx \<le> cmx" "mx \<le> U32_MAX"
    and "set (read_spec es wm job) \<subseteq> {1..length es}"
    and "patient s" and "sock_data s = concat fs @ rest"
  obtains s' where "drain_read par \<lparr>rt_reader = s, rt_max_frame_len = cmx, rt_request_id = rr_request_id job, rt_buffered = [],
        rt_watermark = None, rt_done = False\<rparr> =
      (Inr (map (\<lambda>p. \<lparr>cs_position = p, cs_event = client_event (es ! (p - 1))\<rparr>) (read_spec es wm job), wm), s')"
    and "patient s'" and "sock_data s' = rest"
proof -
  let ?st = "\<lparr>rt_reader = s, rt_max_frame_len = cmx, rt_request_id = rr_request_id job, rt_buffered = [],
        rt_watermark = None, rt_done = False\<rparr>"
  let ?g = "\<lambda>sq. \<lparr>cs_position = sq_position sq, cs_event = client_event (sq_event sq)\<rparr>"
  let ?xs = "map (sequenced es) (read_spec es wm job)"
  let ?yss = "batches (read_batch_events cfg) (read_batch_bytes cfg) event_size [] 0 ?xs"
  have conv: "sequenced_from_pb (to_pb y) = Inr (?g y)" if "y \<in> set (concat ?yss)" for y
    by (rule read_answer_decodes [OF assms(2,6)]) (use that in \<open>simp add: concat_batches\<close>)
  have ne: "[] \<notin> set ?yss" using batches_bounds [of "[]" "read_batch_events cfg" "read_batch_bytes cfg" event_size "[]" 0 ?xs] by (auto simp: less_max_iff_disj)
  obtain s' where s': "drain_events par ?st [] =
      (Inr ([] @ map ?g (concat ?yss)), ?st\<lparr>rt_reader := s', rt_watermark := Some wm, rt_done := True\<rparr>)" "patient s'" "sock_data s' = rest"
    using drain_events_frames [of ser mx ?st to_pb ?yss wm fs par ?g rest "[]"] assms(1) codec mx conv ne assms(7,8)
    by (auto simp: read_answer_def batch_frames_def)
  have "map ?g (concat ?yss) = map (\<lambda>p. \<lparr>cs_position = p, cs_event = client_event (es ! (p - 1))\<rparr>) (read_spec es wm job)"
    by (simp add: concat_batches sequenced_def comp_def)
  then show thesis using that s' by (simp add: drain_read_def drop_stream_def)
qed

lemma read_spec_range: "wm \<le> length es \<Longrightarrow> set (read_spec es wm job) \<subseteq> {1..length es}"
  by (auto simp: read_spec_def read_positions_def truncate_to_def split: option.splits dest!: in_set_takeD)

lemma client_read_all_sent:
  assumes "write_frame qser (read_message (cl_next_id cl) q cur bwd lim) (cl_max_frame_len cl) = Inr bs" and "cl_write_err cl = None"
    and "drain_read par \<lparr>rt_reader = cl_reader cl, rt_max_frame_len = cl_max_frame_len cl, rt_request_id = cl_next_id cl,
        rt_buffered = [], rt_watermark = None, rt_done = False\<rparr> = (res, s')"
  shows "client_read_all qser par q cur bwd lim cl =
    (res, cl\<lparr>cl_reader := s', cl_written := cl_written cl @ bs, cl_next_id := cl_next_id cl + 1\<rparr>)"
  using assms by (simp add: client_read_all_def start_read_def next_id_def client_send_def)

lemma spawn_read_message:
  assumes "wf_Query q" and "admit_read conn = Some (adm, conn')" and "cn_pool_open conn"
  shows "\<exists>conn''. dispatch spawns tip now (read_message cid q cur bwd lim) conn = Some conn'' \<and>
    map rj_run (cn_pool conn'') = map rj_run (cn_pool conn) @
      [\<lparr>rr_request_id = cid, rr_query = q, rr_cursor = cur, rr_reverse = bwd, rr_limit = lim\<rparr>]"
proof -
  have "cn_pool_open conn'" "cn_pool conn' = cn_pool conn"
    using assms(2,3) by (auto simp: admit_read_def split: prod.splits bool.splits)
  then show ?thesis
    using assms query_roundtrip [OF assms(1)]
    by (simp add: dispatch_def spawn_read_def read_message_def query_from_proto_def register_cancel_def Let_def)
qed

subsection \<open>An append and its answer\<close>

lemma append_message_decodes:
  assumes "\<forall>ce \<in> set ces. wf_ClientEvent ce"
    and "list_all2 (\<lambda>ce e. Event_new (ce_type ce) (ce_tags ce) (ce_payload ce) = Inr e) ces es"
  shows "try_map event_from_proto (map event_to_pb ces) = Inr es" and "map client_event es = ces"
proof -
  have "list_all2 (\<lambda>ce e. event_from_proto (event_to_pb ce) = Inr e \<and> client_event e = ce) ces es"
    using assms(2,1) event_to_proto client_event_new(2) by (induction ces es rule: list_all2_induct) auto
  then have "list_all2 (\<lambda>ce e. event_from_proto (event_to_pb ce) = Inr e) ces es" "list_all2 (\<lambda>ce e. client_event e = ce) ces es"
    by (auto elim: list_all2_mono)
  then show "try_map event_from_proto (map event_to_pb ces) = Inr es" "map client_event es = ces"
    by (auto simp: try_map_Inr list_all2_map1 list_all2_conv_all_nth intro: nth_equalityI)
qed

lemma dispatch_append_message:
  assumes "\<forall>ce \<in> set ces. wf_ClientEvent ce" and "ces \<noteq> []" and "case cond of None \<Rightarrow> True | Some c \<Rightarrow> wf_condition c"
    and "list_all2 (\<lambda>ce e. Event_new (ce_type ce) (ce_tags ce) (ce_payload ce) = Inr e) ces es"
    and "sm_permits (cn_append_inflight conn) \<noteq> 0" and "cn_writer_open conn"
  shows "\<exists>conn'. dispatch spawns tip now (append_message cid ces cond) conn = Some conn' \<and>
    cn_queue conn' = cn_queue conn @ [MAppend \<lparr>req_events = es, req_condition = cond, req_reply = cn_reply conn, req_token = cid\<rparr>]"
proof -
  have "es \<noteq> []" using assms(2,4) by auto
  then show ?thesis
    using append_message_decodes(1) [OF assms(1,4)] assms(3,5,6)
    by (auto simp: dispatch_def append_message_def server_append_def events_from_proto_def submit_append_def sem_acquire_def
        append_submit_def condition_from_proto_def condition_trip split: option.splits)
qed

lemma client_append_answered:
  assumes "write_frame qser (append_message (cl_next_id cl) ces cond) (cl_max_frame_len cl) = Inr bs" and "cl_write_err cl = None"
    and "read_frame par (cl_max_frame_len cl) (cl_reader cl) = (Inr (Some (append_reply (cl_next_id cl) result)), s')"
  shows "client_append qser par ces cond cl =
    (case result of Inr rng \<Rightarrow> Inr rng | Inl err \<Rightarrow> Inl (server_error (append_error_to_proto err)),
     cl\<lparr>cl_reader := s', cl_written := cl_written cl @ bs, cl_next_id := cl_next_id cl + 1\<rparr>)"
  using assms
  by (auto simp: client_append_def next_id_def round_trip_def client_send_def client_recv_def check_response_id_def append_reply_def
      make_response_def append_message_def split: sum.split prod.split)

subsection \<open>Properties\<close>

text \<open>
  C9. A remote read returns what a local read returns. When the connection's reader admits the request the client wrote,
  the job it queues is the read the client asked for; and when the frames of that job reach the client, cut into reads in
  any way and followed by anything, \<open>read_all\<close> returns exactly the matching events with their positions, in the order of
  the direction and within the limit, and the watermark of the snapshot, and leaves the connection at the next response.
  The message codec is assumed to round-trip what it serializes.
\<close>
theorem remote_read_exact:
  fixes cl :: Client and q :: Query and cur :: Position and bwd :: bool and lim :: "nat option"
  defines "req \<equiv> read_message (cl_next_id cl) q cur bwd lim"
    and "job \<equiv> \<lparr>rr_request_id = cl_next_id cl, rr_query = q, rr_cursor = cur, rr_reverse = bwd, rr_limit = lim\<rparr>"
  assumes "core_shows crc F core es" and "wf_Query q" and "admit_read conn = Some (adm, conn')" and "cn_pool_open conn"
    and "\<forall>m b. ser m = Some b \<longrightarrow> par b = Some m"
    and "max_frame_len cfg \<le> cl_max_frame_len cl" and "max_frame_len cfg \<le> U32_MAX"
    and "write_frame qser req (cl_max_frame_len cl) = Inr bs" and "cl_write_err cl = None"
    and "list_all2 (\<lambda>m f. write_frame ser m (max_frame_len cfg) = Inr f)
          (run_read crc F core rcfg cfg (\<lambda>_. True) (\<lambda>_. True) job) fs"
    and "patient (cl_reader cl)" and "sock_data (cl_reader cl) = concat fs @ rest"
  shows "(\<exists>conn''. dispatch spawns tip now req conn = Some conn'' \<and>
            map rj_run (cn_pool conn'') = map rj_run (cn_pool conn) @ [job]) \<and>
         (\<exists>s'. client_read_all qser par q cur bwd lim cl =
            (Inr (map (\<lambda>p. \<lparr>cs_position = p, cs_event = client_event (es ! (p - 1))\<rparr>) (read_spec es (rc_watermark core) job),
                  rc_watermark core),
             cl\<lparr>cl_reader := s', cl_written := cl_written cl @ bs, cl_next_id := cl_next_id cl + 1\<rparr>) \<and>
          patient s' \<and> sock_data s' = rest)"
proof -
  have sn: "\<forall>e \<in> set es. wf_Event e" "rc_watermark core \<le> length es" using assms(3) by (auto simp: core_shows_def snap_ok_def)
  have "run_read crc F core rcfg cfg (\<lambda>_. True) (\<lambda>_. True) job = read_answer cfg es (rc_watermark core) job"
    using run_read_answer(2) [OF assms(3), of job "\<lambda>_. True" "\<lambda>_. True" rcfg cfg] assms(4) by (simp add: job_def)
  then have answer: "list_all2 (\<lambda>m f. write_frame ser m (max_frame_len cfg) = Inr f) (read_answer cfg es (rc_watermark core) job) fs"
    using assms(12) by simp
  have rid: "rr_request_id job = cl_next_id cl" by (simp add: job_def)
  obtain s' where s': "drain_read par \<lparr>rt_reader = cl_reader cl, rt_max_frame_len = cl_max_frame_len cl,
        rt_request_id = cl_next_id cl, rt_buffered = [], rt_watermark = None, rt_done = False\<rparr> =
      (Inr (map (\<lambda>p. \<lparr>cs_position = p, cs_event = client_event (es ! (p - 1))\<rparr>) (read_spec es (rc_watermark core) job),
            rc_watermark core), s')" "patient s'" "sock_data s' = rest"
    using drain_read_answer [OF answer sn(1) assms(7,8,9) read_spec_range [OF sn(2)] assms(13,14)] unfolding rid by metis
  show ?thesis
    using client_read_all_sent [OF assms(10) [unfolded req_def] assms(11) s'(1)] s'(2,3)
      spawn_read_message [OF assms(4-6), of spawns tip now "cl_next_id cl" cur bwd lim]
    by (auto simp: req_def job_def)
qed

definition demo_job :: ReadRun where
  "demo_job = \<lparr>rr_request_id = 1, rr_query = All, rr_cursor = 0, rr_reverse = False, rr_limit = Some 1\<rparr>"

definition demo_answer :: "pb_Response list" where
  "demo_answer = [make_response 1 (RespReadEvents [sequenced_to_proto 1 (demo_event 0x41 0x61)]), make_response 1 (RespReadEnd 2)]"

lemma demo_read_answer: "read_answer ServerConfig_default demo_events 2 demo_job = demo_answer"
  by code_simp

text \<open>A codec for the two responses of the demonstration.\<close>
definition demo_ser :: "pb_Response \<Rightarrow> bytes option" where
  "demo_ser m = (if m = demo_answer ! 0 then Some [1] else if m = demo_answer ! 1 then Some [2] else None)"

definition demo_par :: "bytes \<Rightarrow> pb_Response option" where
  "demo_par b = (if b = [1] then Some (demo_answer ! 0) else if b = [2] then Some (demo_answer ! 1) else None)"

theorem remote_read_exact_witness:
  "\<exists>s'. client_read_all (\<lambda>_. Some []) demo_par All 0 False (Some 1)
      (Client_new [Arrives [0, 0, 0], Fails IoInterrupted, Arrives [1, 1, 0, 0, 0, 1, 2, 9]]) =
    (Inr ([\<lparr>cs_position = 1, cs_event = client_event (demo_event 0x41 0x61)\<rparr>], 2),
     (Client_new s')\<lparr>cl_written := [0, 0, 0, 0], cl_next_id := 2\<rparr>) \<and> sock_data s' = [9]"
proof (rule demo_core)
  fix S and ix :: "(str \<times> nat) list IndexSet"
  let ?c = "\<lparr>rc_segments = capture S ix, rc_watermark = 2, rc_closed = False, rc_subscribers = 1\<rparr>"
  let ?s = "[Arrives [0, 0, 0], Fails IoInterrupted, Arrives [1, 1, 0, 0, 0, 1, 2, 9]]"
  assume "\<And>wm closed. wm \<le> 2 \<Longrightarrow>
    core_shows crc_demo fst_demo \<lparr>rc_segments = capture S ix, rc_watermark = wm, rc_closed = closed, rc_subscribers = 1\<rparr> demo_events"
  then have core: "core_shows crc_demo fst_demo ?c demo_events" by simp
  have run: "run_read crc_demo fst_demo ?c ReadConfig_default ServerConfig_default (\<lambda>_. True) (\<lambda>_. True) demo_job = demo_answer"
    using run_read_answer(2) [OF core, of demo_job "\<lambda>_. True" "\<lambda>_. True" ReadConfig_default ServerConfig_default] demo_read_answer
    by (simp add: wf_Query_def demo_job_def)
  have spec: "read_spec demo_events 2 demo_job = [1]" by code_simp
  have first: "demo_events ! 0 = demo_event 0x41 0x61" by (simp add: demo_events_def)
  have codec: "\<forall>m b. demo_ser m = Some b \<longrightarrow> demo_par b = Some m"
    by (auto simp: demo_ser_def demo_par_def split: if_splits)
  let ?cl = "Client_new ?s"
  have rc_wm: "rc_watermark ?c = 2" by simp
  have cid: "cl_next_id ?cl = 1" by (simp add: Client_new_def)
  have "list_all2 (\<lambda>m f. write_frame demo_ser m (max_frame_len ServerConfig_default) = Inr f) demo_answer
      [[0, 0, 0, 1, 1], [0, 0, 0, 1, 2]]"
    by code_simp
  then have frames: "list_all2 (\<lambda>m f. write_frame demo_ser m (max_frame_len ServerConfig_default) = Inr f)
      (run_read crc_demo fst_demo ?c ReadConfig_default ServerConfig_default (\<lambda>_. True) (\<lambda>_. True)
        \<lparr>rr_request_id = cl_next_id ?cl, rr_query = All, rr_cursor = 0, rr_reverse = False, rr_limit = Some 1\<rparr>)
      [[0, 0, 0, 1, 1], [0, 0, 0, 1, 2]]"
    unfolding cid demo_job_def [symmetric] run .
  have sent: "write_frame (\<lambda>_. Some []) (read_message (cl_next_id ?cl) All 0 False (Some 1)) (cl_max_frame_len ?cl) = Inr [0, 0, 0, 0]"
    by code_simp
  have lens: "max_frame_len ServerConfig_default \<le> cl_max_frame_len ?cl" "max_frame_len ServerConfig_default \<le> U32_MAX"
    "cl_write_err ?cl = None" "sock_data (cl_reader ?cl) = concat [[0, 0, 0, 1, 1], [0, 0, 0, 1, 2]] @ [9]" "wf_Query All"
    by (code_simp, simp add: ServerConfig_default_def DEFAULT_MAX_FRAME_LEN_def, code_simp, code_simp, code_simp)
  have calm: "patient (cl_reader ?cl)" by (simp add: Client_new_def patient_def)
  have "admit_read demo_conn \<noteq> None" "cn_pool_open demo_conn" by code_simp+
  then obtain adm conn' where adm: "admit_read demo_conn = Some (adm, conn')" "cn_pool_open demo_conn" by auto
  obtain s' where "client_read_all (\<lambda>_. Some []) demo_par All 0 False (Some 1) ?cl =
      (Inr (map (\<lambda>p. \<lparr>cs_position = p, cs_event = client_event (demo_events ! (p - 1))\<rparr>) (read_spec demo_events 2 demo_job), 2),
       ?cl\<lparr>cl_reader := s', cl_written := cl_written ?cl @ [0, 0, 0, 0], cl_next_id := cl_next_id ?cl + 1\<rparr>)" "sock_data s' = [9]"
    using remote_read_exact [where cl = ?cl and q = All and cur = 0 and bwd = False and lim = "Some 1"
        and rcfg = ReadConfig_default and spawns = True and tip = 0 and now = 0, OF core lens(5) adm codec lens(1,2) sent lens(3) frames calm lens(4)]
    unfolding cid demo_job_def [symmetric] by (auto simp: rc_wm)
  then show ?thesis using spec first by (auto simp: Client_new_def)
qed

text \<open>
  C10. A remote append is the append the client asked for. The request the connection hands to the write coordinator carries
  exactly the client's events, its condition, and the request's id; and when the answer the pump makes of the
  coordinator's result reaches the client, however it is cut into reads, \<open>append\<close> returns the assigned range, or the
  error with its code, a conflict with the clause that failed, whether it may be retried, and the conflicting position.
\<close>
theorem remote_append_exact:
  fixes cl :: Client and ces :: "ClientEvent list" and cond :: "AppendCondition option"
  defines "req \<equiv> append_message (cl_next_id cl) ces cond"
  assumes "\<forall>ce \<in> set ces. wf_ClientEvent ce" and "ces \<noteq> []" and "case cond of None \<Rightarrow> True | Some c \<Rightarrow> wf_condition c"
    and "list_all2 (\<lambda>ce e. Event_new (ce_type ce) (ce_tags ce) (ce_payload ce) = Inr e) ces es"
    and "sm_permits (cn_append_inflight conn) \<noteq> 0" and "cn_writer_open conn"
    and "\<forall>m b. ser m = Some b \<longrightarrow> par b = Some m" and "mx \<le> cl_max_frame_len cl" and "mx \<le> U32_MAX"
    and "write_frame qser req (cl_max_frame_len cl) = Inr bs" and "cl_write_err cl = None"
    and "write_frame ser (append_reply (cl_next_id cl) result) mx = Inr f"
    and "patient (cl_reader cl)" and "sock_data (cl_reader cl) = f @ rest"
  shows "(\<exists>conn' r. dispatch spawns tip now req conn = Some conn' \<and> cn_queue conn' = cn_queue conn @ [MAppend r] \<and>
            map client_event (req_events r) = ces \<and> req_condition r = cond \<and>
            req_token r = cl_next_id cl \<and> req_reply r = cn_reply conn) \<and>
         (\<exists>s'. client_append qser par ces cond cl =
            (case result of Inr rng \<Rightarrow> Inr rng | Inl err \<Rightarrow> Inl (server_error (append_error_to_proto err)),
             cl\<lparr>cl_reader := s', cl_written := cl_written cl @ bs, cl_next_id := cl_next_id cl + 1\<rparr>) \<and>
          sock_data s' = rest) \<and>
         (\<forall>clause at. result = Inl (Conflict clause at) \<longrightarrow>
            fst (client_append qser par ces cond cl) =
              Inl (ClientServer (case clause of Boundary \<Rightarrow> CodeConflict | Existence \<Rightarrow> CodeAlreadyExists)
                (ShowAppend (Conflict clause at)) (at = SameBatch) (case at of Durable p \<Rightarrow> Some p | SameBatch \<Rightarrow> None)))"
proof -
  obtain s' where s': "read_frame par (cl_max_frame_len cl) (cl_reader cl) = (Inr (Some (append_reply (cl_next_id cl) result)), s')"
      "sock_data s' = rest"
    using read_frame_written [OF assms(13,8,9,10,14,15)] by blast
  note answered = client_append_answered [OF assms(11) [unfolded req_def] assms(12) s'(1)]
  show ?thesis
    using dispatch_append_message [OF assms(2-7), of spawns tip now "cl_next_id cl"] append_message_decodes(2) [OF assms(2,5)]
      answered s'(2) server_error_append
    by (auto simp: req_def)
qed

theorem remote_append_exact_witness:
  "fst (client_append (\<lambda>_. Some []) (\<lambda>b. if b = [5] then Some (append_reply 1 (Inl (Conflict Boundary (Durable 9)))) else None)
      [\<lparr>ce_type = EventType [0x41], ce_tags = [], ce_payload = [1]\<rparr>] None (Client_new [Arrives [0, 0], Arrives [0, 1, 5]])) =
   Inl (ClientServer CodeConflict (ShowAppend (Conflict Boundary (Durable 9))) False (Some 9))"
proof -
  let ?ce = "\<lparr>ce_type = EventType [0x41], ce_tags = [], ce_payload = [1]\<rparr>"
  let ?result = "Inl (Conflict Boundary (Durable 9)) :: AppendError + (Position \<times> Position)"
  let ?par = "\<lambda>b. if b = [5] then Some (append_reply 1 ?result) else None"
  let ?ser = "\<lambda>m. if m = append_reply 1 ?result then Some [5] else None"
  let ?cl = "Client_new [Arrives [0, 0], Arrives [0, 1, 5]]"
  have ev: "\<forall>ce \<in> set [?ce]. wf_ClientEvent ce" "[?ce] \<noteq> []" by code_simp+
  have new: "list_all2 (\<lambda>ce e. Event_new (ce_type ce) (ce_tags ce) (ce_payload ce) = Inr e) [?ce]
      [\<lparr>buf = [1, 0, 0, 0, 0x41, 1], data_offset = 5\<rparr>]" by code_simp
  have conn: "sm_permits (cn_append_inflight demo_conn) \<noteq> 0" "cn_writer_open demo_conn" by code_simp+
  have codec: "\<forall>m b. ?ser m = Some b \<longrightarrow> ?par b = Some m" by simp
  have len: "16 \<le> cl_max_frame_len ?cl" "16 \<le> U32_MAX" by code_simp+
  have sent: "write_frame (\<lambda>_. Some []) (append_message (cl_next_id ?cl) [?ce] None) (cl_max_frame_len ?cl) = Inr [0, 0, 0, 0]" by code_simp
  have answer: "write_frame ?ser (append_reply (cl_next_id ?cl) ?result) 16 = Inr [0, 0, 0, 1, 5]" by code_simp
  have reader: "patient (cl_reader ?cl)" "sock_data (cl_reader ?cl) = [0, 0, 0, 1, 5] @ []" "cl_write_err ?cl = None"
    by (simp_all add: Client_new_def patient_def)
  show ?thesis
    using remote_append_exact [OF ev _ new conn codec len sent reader(3) answer reader(1,2), of True 0 0] by simp
qed

end
