(* ===== verification/AsyncClient.thy ===== *)
theory AsyncClient
  imports Client
begin

text \<open>
  The asynchronous client (\<open>crates/tephra-client/src/asynchronous.rs\<close>): one multiplexed connection with its registry of
  requests in flight, its reader and writer tasks, streams that cancel when dropped, and futures that may be dropped
  while they wait.

  A connection keeps what was sent on each request's channel (\<open>am_box\<close>), the channels whose receiver is gone
  (\<open>am_dropped\<close>), the futures that wait for a permit or for room in the queue, and the streams handed out. A drained
  registry is visited in any order, which \<open>fail_all\<close> takes as an argument. The text \<open>connection error\<close> in front of a
  transport error is left out. Dialling, TLS and the task scheduler are not modelled.
\<close>

subsection \<open>The connection\<close>

record AsyncClientConfig =
  ac_max_frame_len :: nat
  request_queue_depth :: nat
  max_inflight_requests :: nat
  bulk_connections :: nat
  ac_auth_token :: "str option"

definition AsyncClientConfig_default :: AsyncClientConfig where
  "AsyncClientConfig_default =
     \<lparr>ac_max_frame_len = DEFAULT_MAX_FRAME_LEN, request_queue_depth = 256, max_inflight_requests = 1024, bulk_connections = 4,
      ac_auth_token = None\<rparr>"

datatype Sink = SinkAppend | SinkStats | SinkRead | SinkSubscribe

datatype AsyncItem = ItemEvent ClientSequenced | ItemEnd Position | ItemErr ClientError

text \<open>What is sent on a request's channel.\<close>
datatype Answer =
    AnsAppend "ClientError + (Position \<times> Position)"
  | AnsStats "ClientError + StatsSnapshot"
  | AnsRead AsyncItem
  | AnsSub "ClientError + SubEvent"

record Submission =
  sb_id :: nat
  sb_sink :: Sink
  sb_request :: pb_Request

record AConn =
  am_max_frame_len :: nat
  am_next_id :: nat
  am_requests :: "nat \<rightharpoonup> Sink"
  am_inflight :: nat
  am_depth :: nat
  am_queue :: "pb_Request list"
  am_written :: bytes
  am_reader_up :: bool
  am_writer_up :: bool
  am_last_error :: "ErrText option"
  am_waiting :: "Submission list"
  am_sending :: "Submission list"
  am_refused :: "nat set"
  am_streams :: "nat set"
  am_box :: "nat \<Rightarrow> Answer list"
  am_dropped :: "nat set"

text \<open>\<open>Conn::spawn\<close>.\<close>
definition AConn_new :: "AsyncClientConfig \<Rightarrow> AConn" where
  "AConn_new cfg =
     \<lparr>am_max_frame_len = ac_max_frame_len cfg, am_next_id = 1, am_requests = Map.empty,
      am_inflight = max (max_inflight_requests cfg) 1, am_depth = max (request_queue_depth cfg) 1, am_queue = [], am_written = [],
      am_reader_up = True, am_writer_up = True, am_last_error = None, am_waiting = [], am_sending = [], am_refused = {},
      am_streams = {}, am_box = (\<lambda>_. []), am_dropped = {}\<rparr>"

text \<open>\<open>send_hello\<close>, on the two halves before the tasks start: the bytes written, the outcome and the reader.\<close>
definition send_hello :: "req_ser \<Rightarrow> resp_par \<Rightarrow> AsyncClientConfig \<Rightarrow> SockEvent list \<Rightarrow> bytes \<times> (ClientError + unit) \<times> SockEvent list" where
  "send_hello ser par cfg s =
     (case write_frame_async ser (hello_request 1 (ac_auth_token cfg)) (ac_max_frame_len cfg) of
        Inl err \<Rightarrow> ([], Inl (ClientFrame err), s)
      | Inr bs \<Rightarrow>
          (bs, case read_frame_async par (ac_max_frame_len cfg) s of
             (Inl err, s) \<Rightarrow> (Inl (ClientFrame err), s)
           | (Inr None, s) \<Rightarrow> (Inl ClientEof, s)
           | (Inr (Some response), s) \<Rightarrow> (verify_hello_ack response, s)))"

record AsyncClient =
  as_control :: AConn
  as_bulk :: "AConn list"
  as_next_bulk :: nat

text \<open>\<open>AsyncClient::bulk\<close>: the index of the chosen bulk connection, \<open>None\<close> for the control connection.\<close>
definition async_bulk :: "AsyncClient \<Rightarrow> nat option \<times> AsyncClient" where
  "async_bulk c =
     (if as_bulk c = [] then (None, c)
      else (Some (as_next_bulk c mod length (as_bulk c)), c\<lparr>as_next_bulk := as_next_bulk c + 1\<rparr>))"

subsection \<open>Channels and the registry\<close>

definition post :: "nat \<Rightarrow> Answer \<Rightarrow> AConn \<Rightarrow> AConn" where
  "post cid a c = (if cid \<in> am_dropped c then c else c\<lparr>am_box := (am_box c)(cid := am_box c cid @ [a])\<rparr>)"

text \<open>Removing an entry drops its permit.\<close>
definition unregister :: "nat \<Rightarrow> AConn \<Rightarrow> AConn" where
  "unregister cid c =
     (case am_requests c cid of
        None \<Rightarrow> c
      | Some _ \<Rightarrow> c\<lparr>am_requests := (am_requests c)(cid := None), am_inflight := am_inflight c + 1\<rparr>)"

subsection \<open>Submitting\<close>

text \<open>The start of \<open>append\<close>, \<open>stats\<close>, \<open>start_read\<close> and \<open>subscribe\<close>: an id and the message; then a permit is awaited.\<close>
definition async_begin :: "Sink \<Rightarrow> (nat \<Rightarrow> pb_Request) \<Rightarrow> AConn \<Rightarrow> AConn" where
  "async_begin sink message c =
     (let cid = am_next_id c
      in c\<lparr>am_next_id := cid + 1, am_waiting := am_waiting c @ [\<lparr>sb_id = cid, sb_sink = sink, sb_request = message cid\<rparr>]\<rparr>)"

definition async_append :: "ClientEvent list \<Rightarrow> AppendCondition option \<Rightarrow> AConn \<Rightarrow> AConn" where
  "async_append events condition = async_begin SinkAppend (\<lambda>cid. append_message cid events condition)"

definition async_stats :: "AConn \<Rightarrow> AConn" where
  "async_stats = async_begin SinkStats (\<lambda>cid. \<lparr>rq_id = cid, rq_kind = ReqStats\<rparr>)"

definition async_start_read :: "Query \<Rightarrow> Position \<Rightarrow> bool \<Rightarrow> nat option \<Rightarrow> AConn \<Rightarrow> AConn" where
  "async_start_read query cur reverse limit = async_begin SinkRead (\<lambda>cid. read_message cid query cur reverse limit)"

definition async_subscribe :: "Query \<Rightarrow> Position \<Rightarrow> AConn \<Rightarrow> AConn" where
  "async_subscribe query aft =
     async_begin SinkSubscribe (\<lambda>cid. \<lparr>rq_id = cid, rq_kind = ReqSubscribe \<lparr>psub_query = query_to_pb query, psub_after = aft\<rparr>\<rparr>)"

text \<open>A permit is there: the request is registered; then room in the queue is awaited. \<open>None\<close> while there is none.\<close>
definition async_admit :: "Submission \<Rightarrow> AConn \<Rightarrow> AConn option" where
  "async_admit p c =
     (if am_inflight c = 0 then None
      else Some (c\<lparr>am_inflight := am_inflight c - 1, am_requests := (am_requests c)(sb_id p \<mapsto> sb_sink p), am_sending := am_sending c @ [p]\<rparr>))"

text \<open>The end of a submission: queued, refused because the writer is gone, or still waiting for room.\<close>
definition async_enqueue :: "Submission \<Rightarrow> AConn \<Rightarrow> AConn option" where
  "async_enqueue p c =
     (let cid = sb_id p;
          c' = (if sb_sink p = SinkRead \<or> sb_sink p = SinkSubscribe then c\<lparr>am_streams := insert cid (am_streams c)\<rparr> else c)
      in if \<not> am_writer_up c then
           Some (case (sb_sink p, am_requests c cid) of
                   (SinkRead, Some SinkRead) \<Rightarrow> post cid (AnsRead (ItemErr ClientEof)) (unregister cid c')
                 | (SinkSubscribe, Some SinkSubscribe) \<Rightarrow> post cid (AnsSub (Inl ClientEof)) (unregister cid c')
                 | (SinkRead, _) \<Rightarrow> unregister cid c'
                 | (SinkSubscribe, _) \<Rightarrow> unregister cid c'
                 | _ \<Rightarrow> (unregister cid c')\<lparr>am_refused := insert cid (am_refused c)\<rparr>)
         else if length (am_queue c) < am_depth c then Some (c'\<lparr>am_queue := am_queue c @ [sb_request p]\<rparr>)
         else None)"

text \<open>What an \<open>append\<close> or \<open>stats\<close> future resolves to, \<open>None\<close> while it waits: \<open>Some None\<close> is \<open>UnexpectedEof\<close>.\<close>
definition async_result :: "nat \<Rightarrow> AConn \<Rightarrow> Answer option option" where
  "async_result cid c =
     (if cid \<in> am_refused c then Some None
      else case am_box c cid of
        a # _ \<Rightarrow> Some (Some a)
      | [] \<Rightarrow> if am_requests c cid = None \<and> cid \<notin> sb_id ` set (am_waiting c) then Some None else None)"

subsection \<open>The tasks\<close>

fun deliver_events :: "nat \<Rightarrow> (ClientSequenced \<Rightarrow> Answer) \<Rightarrow> (ClientError \<Rightarrow> Answer) \<Rightarrow> pb_SequencedEvent list \<Rightarrow> AConn \<Rightarrow> bool \<times> AConn" where
  "deliver_events cid ev er [] c = (True, c)"
| "deliver_events cid ev er (view # views) c =
     (case sequenced_from_pb view of
        Inr sq \<Rightarrow> if cid \<in> am_dropped c then (False, c) else deliver_events cid ev er views (post cid (ev sq) c)
      | Inl err \<Rightarrow> (False, post cid (er err) c))"

definition deliver_read :: "nat \<Rightarrow> pb_Response \<Rightarrow> AConn \<Rightarrow> bool \<times> AConn" where
  "deliver_read cid response c =
     (case rs_kind response of
        RespReadEvents evs \<Rightarrow> deliver_events cid (AnsRead \<circ> ItemEvent) (AnsRead \<circ> ItemErr) evs c
      | RespReadEnd wm \<Rightarrow> (False, post cid (AnsRead (ItemEnd wm)) c)
      | RespError error \<Rightarrow> (False, post cid (AnsRead (ItemErr (server_error error))) c)
      | other \<Rightarrow> (False, post cid (AnsRead (ItemErr (ClientProtocol (WrongKind other)))) c))"

definition deliver_subscribe :: "nat \<Rightarrow> pb_Response \<Rightarrow> AConn \<Rightarrow> bool \<times> AConn" where
  "deliver_subscribe cid response c =
     (case rs_kind response of
        RespReadEvents evs \<Rightarrow> deliver_events cid (AnsSub \<circ> Inr \<circ> SubEvent) (AnsSub \<circ> Inl) evs c
      | RespCaughtUp wm \<Rightarrow> (cid \<notin> am_dropped c, post cid (AnsSub (Inr (SubCaughtUp wm))) c)
      | RespError error \<Rightarrow> (False, post cid (AnsSub (Inl (server_error error))) c)
      | other \<Rightarrow> (False, post cid (AnsSub (Inl (ClientProtocol (WrongKind other)))) c))"

definition append_answer :: "pb_Response \<Rightarrow> Answer" where
  "append_answer response =
     AnsAppend (case rs_kind response of
        RespAppend lo hi \<Rightarrow> Inr (lo, hi)
      | RespError error \<Rightarrow> Inl (server_error error)
      | other \<Rightarrow> Inl (ClientProtocol (WrongKind other)))"

definition stats_answer :: "pb_Response \<Rightarrow> Answer" where
  "stats_answer response =
     AnsStats (case rs_kind response of
        RespStats stats \<Rightarrow> Inr stats
      | RespError error \<Rightarrow> Inl (server_error error)
      | other \<Rightarrow> Inl (ClientProtocol (WrongKind other)))"

text \<open>\<open>route\<close>: a stream that continues keeps its entry and permit.\<close>
definition route :: "pb_Response \<Rightarrow> AConn \<Rightarrow> AConn" where
  "route response c =
     (let cid = rs_id response
      in case am_requests c cid of
           None \<Rightarrow> c
         | Some SinkAppend \<Rightarrow> unregister cid (post cid (append_answer response) c)
         | Some SinkStats \<Rightarrow> unregister cid (post cid (stats_answer response) c)
         | Some SinkRead \<Rightarrow> (case deliver_read cid response c of (True, c) \<Rightarrow> c | (False, c) \<Rightarrow> unregister cid c)
         | Some SinkSubscribe \<Rightarrow> (case deliver_subscribe cid response c of (True, c) \<Rightarrow> c | (False, c) \<Rightarrow> unregister cid c))"

fun failure :: "Sink \<Rightarrow> ErrText \<Rightarrow> Answer" where
  "failure SinkAppend reason = AnsAppend (Inl (ClientProtocol (ConnectionEnded reason)))"
| "failure SinkStats reason = AnsStats (Inl (ClientProtocol (ConnectionEnded reason)))"
| "failure SinkRead reason = AnsRead (ItemErr (ClientProtocol (ConnectionEnded reason)))"
| "failure SinkSubscribe reason = AnsSub (Inl (ClientProtocol (ConnectionEnded reason)))"

definition fail_one :: "ErrText \<Rightarrow> nat \<Rightarrow> AConn \<Rightarrow> AConn" where
  "fail_one reason cid c =
     (case am_requests c cid of None \<Rightarrow> c | Some sink \<Rightarrow> unregister cid (post cid (failure sink reason) c))"

text \<open>\<open>fail_all\<close>, draining the registry in the given order.\<close>
definition fail_all :: "nat list \<Rightarrow> ErrText \<Rightarrow> AConn \<Rightarrow> AConn" where
  "fail_all order reason c = fold (fail_one reason) order c"

text \<open>One turn of \<open>reader_task\<close> on what \<open>read_frame_async\<close> returned.\<close>
definition async_reader_turn :: "nat list \<Rightarrow> FrameError + pb_Response option \<Rightarrow> AConn \<Rightarrow> AConn" where
  "async_reader_turn order res c =
     (case res of
        Inr (Some response) \<Rightarrow>
          if rs_id response = UNATTRIBUTED_REQUEST_ID
          then (case rs_kind response of RespError error \<Rightarrow> c\<lparr>am_last_error := Some (er_message error)\<rparr> | _ \<Rightarrow> c)
          else route response c
      | Inr None \<Rightarrow>
          fail_all order (case am_last_error c of Some e \<Rightarrow> e | None \<Rightarrow> Text ''server closed the connection'') (c\<lparr>am_reader_up := False\<rparr>)
      | Inl err \<Rightarrow> fail_all order (ShowFrame err) (c\<lparr>am_reader_up := False, am_last_error := Some (ShowFrame err)\<rparr>))"

text \<open>One turn of \<open>writer_task\<close>: a failed frame or write ends it and drops the queue.\<close>
definition async_writer_turn :: "req_ser \<Rightarrow> bool \<Rightarrow> AConn \<Rightarrow> AConn" where
  "async_writer_turn ser transport_ok c =
     (case am_queue c of
        [] \<Rightarrow> c
      | request # queue \<Rightarrow>
          (case write_frame_async ser request (am_max_frame_len c) of
             Inl _ \<Rightarrow> c\<lparr>am_writer_up := False, am_queue := []\<rparr>
           | Inr bs \<Rightarrow>
               if transport_ok then c\<lparr>am_queue := queue, am_written := am_written c @ bs\<rparr>
               else c\<lparr>am_writer_up := False, am_queue := []\<rparr>))"

subsection \<open>Streams\<close>

definition send_cancel :: "nat \<Rightarrow> AConn \<Rightarrow> AConn" where
  "send_cancel target c =
     (let cid = am_next_id c; c = c\<lparr>am_next_id := cid + 1\<rparr>
      in if am_writer_up c \<and> length (am_queue c) < am_depth c
         then c\<lparr>am_queue := am_queue c @ [\<lparr>rq_id = cid, rq_kind = ReqCancel target\<rparr>]\<rparr> else c)"

text \<open>Dropping a \<open>ReadStream\<close> or a \<open>SubscribeStream\<close>.\<close>
definition async_drop_stream :: "nat \<Rightarrow> bool \<Rightarrow> AConn \<Rightarrow> AConn" where
  "async_drop_stream cid finished c =
     (let c = unregister cid (if finished then c else send_cancel cid c)
      in c\<lparr>am_dropped := insert cid (am_dropped c), am_streams := am_streams c - {cid}\<rparr>)"

record AsyncReadStream =
  ar_rx :: "AsyncItem list"
  ar_open :: bool
  ar_watermark :: "Position option"
  ar_done :: bool

datatype 'a Polled = Pending | Ready 'a

text \<open>\<open>poll_next\<close> of a read stream; \<open>ar_open\<close> is whether a sender is left.\<close>
definition async_poll_read :: "AsyncReadStream \<Rightarrow> (ClientError + ClientSequenced) option Polled \<times> AsyncReadStream" where
  "async_poll_read st =
     (if ar_done st then (Ready None, st)
      else case ar_rx st of
        ItemEvent sq # rest \<Rightarrow> (Ready (Some (Inr sq)), st\<lparr>ar_rx := rest\<rparr>)
      | ItemEnd wm # rest \<Rightarrow> (Ready None, st\<lparr>ar_rx := rest, ar_watermark := Some wm, ar_done := True\<rparr>)
      | ItemErr err # rest \<Rightarrow> (Ready (Some (Inl err)), st\<lparr>ar_rx := rest, ar_done := True\<rparr>)
      | [] \<Rightarrow> if ar_open st then (Pending, st) else (Ready None, st\<lparr>ar_done := True\<rparr>))"

text \<open>\<open>poll_next\<close> of a subscription on its channel.\<close>
definition async_poll_sub :: "bool \<Rightarrow> (ClientError + SubEvent) list \<Rightarrow> bool
    \<Rightarrow> (ClientError + SubEvent) option Polled \<times> (ClientError + SubEvent) list \<times> bool" where
  "async_poll_sub opened rx finished =
     (if finished then (Ready None, rx, finished)
      else case rx of
        Inr ev # rest \<Rightarrow> (Ready (Some (Inr ev)), rest, False)
      | Inl err # rest \<Rightarrow> (Ready (Some (Inl err)), rest, True)
      | [] \<Rightarrow> if opened then (Pending, rx, False) else (Ready None, rx, True))"

text \<open>The loop of \<open>drain_read\<close>; \<open>None\<close> while it waits for the channel.\<close>
function async_drain_events :: "AsyncReadStream \<Rightarrow> ClientSequenced list \<Rightarrow> ((ClientError + ClientSequenced list) \<times> AsyncReadStream) option" where
  "async_drain_events st events =
     (case async_poll_read st of
        (Pending, st) \<Rightarrow> None
      | (Ready None, st) \<Rightarrow> Some (Inr events, st)
      | (Ready (Some (Inl err)), st) \<Rightarrow> Some (Inl err, st)
      | (Ready (Some (Inr sq)), st) \<Rightarrow> async_drain_events st (events @ [sq]))"
  by pat_completeness auto
termination
  by (relation "measure (\<lambda>(st, events). length (ar_rx st))")
    (auto simp: async_poll_read_def split: if_splits list.splits AsyncItem.splits)

declare async_drain_events.simps [simp del]

definition async_drain_read :: "AsyncReadStream \<Rightarrow> (ClientError + (ClientSequenced list \<times> Position)) option" where
  "async_drain_read st =
     (case async_drain_events st [] of
        None \<Rightarrow> None
      | Some (Inl err, _) \<Rightarrow> Some (Inl err)
      | Some (Inr events, st) \<Rightarrow>
          Some (case ar_watermark st of None \<Rightarrow> Inl (ClientProtocol NoWatermark) | Some wm \<Rightarrow> Inr (events, wm)))"

text \<open>The read stream of a request: its channel holds what was sent, and a sender is left while the request is registered.\<close>
definition stream_of :: "nat \<Rightarrow> AConn \<Rightarrow> AsyncReadStream" where
  "stream_of cid c =
     \<lparr>ar_rx = concat (map (\<lambda>a. case a of AnsRead it \<Rightarrow> [it] | _ \<Rightarrow> []) (am_box c cid)),
      ar_open = (am_requests c cid \<noteq> None), ar_watermark = None, ar_done = False\<rparr>"

subsection \<open>Everything a connection does\<close>

text \<open>
  Futures progress or are dropped, tasks take turns, streams are dropped, in any order. The reader takes turns until it ends.
\<close>
inductive async_step :: "req_ser \<Rightarrow> AConn \<Rightarrow> AConn \<Rightarrow> bool" for ser where
  begun: "async_step ser c (async_begin sink message c)"
| admitted: "\<lbrakk>am_waiting c = xs @ p # ys; async_admit p (c\<lparr>am_waiting := xs @ ys\<rparr>) = Some c'\<rbrakk> \<Longrightarrow> async_step ser c c'"
| enqueued: "\<lbrakk>am_sending c = xs @ p # ys; async_enqueue p (c\<lparr>am_sending := xs @ ys\<rparr>) = Some c'\<rbrakk> \<Longrightarrow> async_step ser c c'"
| gave_up_permit: "am_waiting c = xs @ p # ys \<Longrightarrow> async_step ser c (c\<lparr>am_waiting := xs @ ys\<rparr>)"
| gave_up_queue: "am_sending c = xs @ p # ys \<Longrightarrow>
     async_step ser c (c\<lparr>am_sending := xs @ ys, am_dropped := insert (sb_id p) (am_dropped c)\<rparr>)"
| gave_up_answer: "am_requests c cid \<in> {Some SinkAppend, Some SinkStats} \<Longrightarrow>
     async_step ser c (c\<lparr>am_dropped := insert cid (am_dropped c)\<rparr>)"
| reads: "\<lbrakk>am_reader_up c; distinct order; set order = dom (am_requests c)\<rbrakk> \<Longrightarrow> async_step ser c (async_reader_turn order res c)"
| writes: "am_writer_up c \<Longrightarrow> async_step ser c (async_writer_turn ser transport_ok c)"
| stream_dropped: "cid \<in> am_streams c \<Longrightarrow> async_step ser c (async_drop_stream cid finished c)"

subsection \<open>One request at a time\<close>

text \<open>What a connection holds of one request.\<close>
definition same_view :: "nat \<Rightarrow> AConn \<Rightarrow> AConn \<Rightarrow> bool" where
  "same_view cid c d \<longleftrightarrow>
     am_box c cid = am_box d cid \<and> am_requests c cid = am_requests d cid \<and> (cid \<in> am_dropped c \<longleftrightarrow> cid \<in> am_dropped d)"

lemma same_view_refl [simp]: "same_view cid c c"
  by (simp add: same_view_def)

lemma same_view_post: "same_view cid c d \<Longrightarrow> same_view cid (post x a c) (post x a d)"
  and same_view_unregister: "same_view cid c d \<Longrightarrow> same_view cid (unregister x c) (unregister x d)"
  by (auto simp: same_view_def post_def unregister_def split: option.splits)

lemma other_post: "x \<noteq> cid \<Longrightarrow> same_view cid (post x a c) d = same_view cid c d"
  and other_unregister: "x \<noteq> cid \<Longrightarrow> same_view cid (unregister x c) d = same_view cid c d"
  by (auto simp: same_view_def post_def unregister_def split: option.splits)

lemma deliver_events_view:
  "same_view cid c d \<Longrightarrow>
   fst (deliver_events cid ev er evs c) = fst (deliver_events cid ev er evs d) \<and>
   same_view cid (snd (deliver_events cid ev er evs c)) (snd (deliver_events cid ev er evs d))"
proof (induction evs arbitrary: c d)
  case (Cons v evs)
  have "cid \<in> am_dropped c \<longleftrightarrow> cid \<in> am_dropped d" using Cons.prems by (simp add: same_view_def)
  then show ?case using Cons.IH [OF same_view_post [OF Cons.prems]] Cons.prems by (auto split: sum.split intro: same_view_post)
qed simp

lemma other_deliver_events: "x \<noteq> cid \<Longrightarrow> same_view cid (snd (deliver_events x ev er evs c)) d = same_view cid c d"
  by (induction evs arbitrary: c) (auto simp: other_post split: sum.splits)

lemma deliver_view:
  assumes "same_view cid c d"
  shows "fst (deliver_read cid r c) = fst (deliver_read cid r d) \<and> same_view cid (snd (deliver_read cid r c)) (snd (deliver_read cid r d))"
    and "fst (deliver_subscribe cid r c) = fst (deliver_subscribe cid r d) \<and>
      same_view cid (snd (deliver_subscribe cid r c)) (snd (deliver_subscribe cid r d))"
  using deliver_events_view [OF assms] same_view_post [OF assms] assms
  by (auto simp: deliver_read_def deliver_subscribe_def same_view_def split: ResponseKind.split)

lemma other_deliver:
  assumes "x \<noteq> cid"
  shows "same_view cid (snd (deliver_read x r c)) d = same_view cid c d"
    and "same_view cid (snd (deliver_subscribe x r c)) d = same_view cid c d"
  using other_deliver_events [OF assms] other_post [OF assms]
  by (auto simp: deliver_read_def deliver_subscribe_def split: ResponseKind.split)

lemma route_other: "rs_id r \<noteq> cid \<Longrightarrow> same_view cid (route r c) c"
  using other_deliver [of "rs_id r" cid r c c] other_post [of "rs_id r" cid _ c c] other_unregister [of "rs_id r" cid _ c]
  by (auto simp: route_def Let_def case_prod_unfold other_unregister other_post split: option.split Sink.split bool.split)

lemma route_view:
  assumes "same_view cid c d"
  shows "same_view cid (route r c) (route r d)"
proof (cases "rs_id r = cid")
  case True
  have eq: "am_requests d cid = am_requests c cid" using assms by (simp add: same_view_def)
  note d = deliver_view [OF assms, of r]
  show ?thesis
  proof (cases "am_requests c cid")
    case None
    then show ?thesis using True eq assms by (simp add: route_def)
  next
    case (Some sink)
    then show ?thesis
      using True eq d assms
      by (cases sink)
        (simp_all add: route_def case_prod_unfold same_view_unregister same_view_post split: bool.split)
  qed
next
  case False
  then show ?thesis using route_other [OF False, of c] route_other [OF False, of d] assms by (simp add: same_view_def)
qed

lemma fold_route_demux: "same_view cid c d \<Longrightarrow> same_view cid (fold route rs c) (fold route (filter (\<lambda>r. rs_id r = cid) rs) d)"
proof (induction rs arbitrary: c d)
  case (Cons r rs)
  show ?case
  proof (cases "rs_id r = cid")
    case True
    then show ?thesis using Cons.IH [OF route_view [OF Cons.prems]] by simp
  next
    case False
    then have "same_view cid (route r c) d" using route_other [OF False] Cons.prems by (simp add: same_view_def)
    then show ?thesis using Cons.IH False by simp
  qed
qed simp

subsection \<open>A multiplexed read\<close>

text \<open>A read in flight whose receiver is there, with what its channel holds.\<close>
definition reading :: "nat \<Rightarrow> Answer list \<Rightarrow> AConn \<Rightarrow> bool" where
  "reading cid b c \<longleftrightarrow> am_requests c cid = Some SinkRead \<and> am_box c cid = b \<and> cid \<notin> am_dropped c"

lemma deliver_events_all:
  "\<lbrakk>\<And>x. x \<in> set xs \<Longrightarrow> sequenced_from_pb (f x) = Inr (g x); reading cid b c\<rbrakk> \<Longrightarrow>
   \<exists>d. deliver_events cid ev er (map f xs) c = (True, d) \<and> reading cid (b @ map (ev \<circ> g) xs) d"
proof (induction xs arbitrary: b c)
  case (Cons x xs)
  have "reading cid (b @ [ev (g x)]) (post cid (ev (g x)) c)" using Cons.prems(2) by (simp add: reading_def post_def)
  then show ?case using Cons.IH Cons.prems by (fastforce simp: reading_def)
qed simp

lemma route_batch:
  assumes "\<And>x. x \<in> set xs \<Longrightarrow> sequenced_from_pb (f x) = Inr (g x)" and "reading cid b c"
  shows "reading cid (b @ map (AnsRead \<circ> ItemEvent \<circ> g) xs) (route (make_response cid (RespReadEvents (map f xs))) c)"
proof -
  obtain d where "deliver_events cid (AnsRead \<circ> ItemEvent) (AnsRead \<circ> ItemErr) (map f xs) c = (True, d)"
      "reading cid (b @ map ((AnsRead \<circ> ItemEvent) \<circ> g) xs) d"
    using deliver_events_all [where f = f and g = g, OF assms] by metis
  then show ?thesis using assms(2) by (simp add: route_def deliver_read_def make_response_def reading_def)
qed

lemma route_batches:
  "\<lbrakk>\<And>x. x \<in> set (concat xss) \<Longrightarrow> sequenced_from_pb (f x) = Inr (g x); reading cid b c\<rbrakk> \<Longrightarrow>
   reading cid (b @ map (AnsRead \<circ> ItemEvent \<circ> g) (concat xss))
     (fold route (map (\<lambda>xs. make_response cid (RespReadEvents (map f xs))) xss) c)"
proof (induction xss arbitrary: b c)
  case (Cons xs xss)
  have "reading cid (b @ map (AnsRead \<circ> ItemEvent \<circ> g) xs) (route (make_response cid (RespReadEvents (map f xs))) c)"
    by (rule route_batch [OF _ Cons.prems(2)]) (use Cons.prems(1) in auto)
  from Cons.IH [OF _ this] show ?case using Cons.prems(1) by (simp add: comp_def)
qed simp

lemma route_end:
  assumes "reading cid b c"
  shows "am_box (route (make_response cid (RespReadEnd wm)) c) cid = b @ [AnsRead (ItemEnd wm)]"
    and "am_requests (route (make_response cid (RespReadEnd wm)) c) cid = None"
  using assms by (auto simp: route_def deliver_read_def make_response_def reading_def post_def unregister_def)

lemma async_drain_items:
  "async_drain_events \<lparr>ar_rx = map ItemEvent xs @ [ItemEnd wm], ar_open = opened, ar_watermark = None, ar_done = False\<rparr> out =
   Some (Inr (out @ xs), \<lparr>ar_rx = [], ar_open = opened, ar_watermark = Some wm, ar_done = True\<rparr>)"
  by (induction xs arbitrary: out) (subst async_drain_events.simps, simp add: async_poll_read_def)+

lemma route_answer:
  assumes "\<forall>e \<in> set es. wf_Event e" and "set (read_spec es wm job) \<subseteq> {1..length es}" and "reading (rr_request_id job) [] c"
  shows "am_box (fold route (read_answer cfg es wm job) c) (rr_request_id job) =
      map (\<lambda>p. AnsRead (ItemEvent \<lparr>cs_position = p, cs_event = client_event (es ! (p - 1))\<rparr>)) (read_spec es wm job) @ [AnsRead (ItemEnd wm)]"
    and "am_requests (fold route (read_answer cfg es wm job) c) (rr_request_id job) = None"
proof -
  let ?cid = "rr_request_id job"
  let ?g = "\<lambda>sq. \<lparr>cs_position = sq_position sq, cs_event = client_event (sq_event sq)\<rparr>"
  let ?xs = "map (sequenced es) (read_spec es wm job)"
  let ?xss = "batches (read_batch_events cfg) (read_batch_bytes cfg) event_size [] 0 ?xs"
  have conv: "sequenced_from_pb (to_pb y) = Inr (?g y)" if "y \<in> set (concat ?xss)" for y
    by (rule read_answer_decodes [OF assms(1,2)]) (use that in \<open>simp add: concat_batches\<close>)
  have "reading ?cid ([] @ map (AnsRead \<circ> ItemEvent \<circ> ?g) (concat ?xss))
      (fold route (map (\<lambda>xs. make_response ?cid (RespReadEvents (map to_pb xs))) ?xss) c)"
    by (rule route_batches [OF conv assms(3)])
  then have r: "reading ?cid (map (AnsRead \<circ> ItemEvent \<circ> ?g) ?xs) (fold route (batch_frames cfg ?cid [] 0 ?xs) c)"
    by (simp add: batch_frames_def concat_batches)
  show "am_box (fold route (read_answer cfg es wm job) c) ?cid =
      map (\<lambda>p. AnsRead (ItemEvent \<lparr>cs_position = p, cs_event = client_event (es ! (p - 1))\<rparr>)) (read_spec es wm job) @ [AnsRead (ItemEnd wm)]"
    using route_end(1) [OF r] by (simp add: read_answer_def sequenced_def comp_def)
  show "am_requests (fold route (read_answer cfg es wm job) c) ?cid = None"
    using route_end(2) [OF r] by (simp add: read_answer_def)
qed

subsection \<open>Permits and single answers\<close>

fun single :: "Answer \<Rightarrow> bool" where
  "single (AnsAppend _) = True"
| "single (AnsStats _) = True"
| "single _ = False"

text \<open>What the channel of a registered request may hold, and that of any other.\<close>
definition box_ok :: "Sink option \<Rightarrow> Answer list \<Rightarrow> bool" where
  "box_ok sink b \<longleftrightarrow>
     (case sink of
        None \<Rightarrow> (\<exists>a \<in> set b. single a) \<longrightarrow> length b = 1
      | Some SinkAppend \<Rightarrow> b = []
      | Some SinkStats \<Rightarrow> b = []
      | Some _ \<Rightarrow> \<forall>a \<in> set b. \<not> single a)"

text \<open>\<open>cap\<close> is the budget of the connection.\<close>
definition async_inv :: "nat \<Rightarrow> AConn \<Rightarrow> bool" where
  "async_inv cap c \<longleftrightarrow>
     finite (dom (am_requests c)) \<and> am_inflight c + card (dom (am_requests c)) = cap \<and>
     (\<forall>cid. box_ok (am_requests c cid) (am_box c cid)) \<and>
     (\<forall>cid \<ge> am_next_id c. am_box c cid = [] \<and> am_requests c cid = None) \<and>
     distinct (map sb_id (am_waiting c)) \<and>
     (\<forall>p \<in> set (am_waiting c). sb_id p < am_next_id c \<and> am_box c (sb_id p) = [] \<and> am_requests c (sb_id p) = None)"

lemma async_inv_new: "async_inv (max (max_inflight_requests cfg) 1) (AConn_new cfg)"
  by (simp add: async_inv_def AConn_new_def box_ok_def)

lemma unregister_requests [simp]: "am_requests (unregister cid c) = (am_requests c)(cid := None)"
  and unregister_box [simp]: "am_box (unregister cid c) = am_box c"
  and unregister_rest [simp]: "am_dropped (unregister cid c) = am_dropped c" "am_next_id (unregister cid c) = am_next_id c"
    "am_waiting (unregister cid c) = am_waiting c" "am_refused (unregister cid c) = am_refused c" "am_reader_up (unregister cid c) = am_reader_up c"
  by (auto simp: unregister_def split: option.split)

lemma post_rest [simp]: "am_dropped (post cid a c) = am_dropped c" "am_next_id (post cid a c) = am_next_id c" "am_waiting (post cid a c) = am_waiting c"
    "am_requests (post cid a c) = am_requests c" "am_inflight (post cid a c) = am_inflight c" "am_refused (post cid a c) = am_refused c"
    "am_reader_up (post cid a c) = am_reader_up c"
  by (simp_all add: post_def)

lemma post_unregister: "post cid a (unregister cid c) = unregister cid (post cid a c)"
  by (auto simp: post_def unregister_def split: option.split)

lemma unregister_inflight:
  assumes "finite (dom (am_requests c))"
  shows "am_inflight (unregister cid c) + card (dom (am_requests (unregister cid c))) = am_inflight c + card (dom (am_requests c))"
proof (cases "am_requests c cid")
  case (Some sink)
  then have "cid \<in> dom (am_requests c)" by auto
  then have "card (dom (am_requests c)) = Suc (card (dom (am_requests c) - {cid}))" using card_Suc_Diff1 [OF assms] by simp
  then show ?thesis using Some by (simp add: unregister_def)
next
  case None
  then have "dom (am_requests c) - {cid} = dom (am_requests c)" by auto
  then show ?thesis using None by (simp add: unregister_def)
qed

text \<open>The invariant follows the channels: an operation that keeps the rest has to keep them well.\<close>
lemma unregister_inv_at:
  assumes "async_inv cap c" and "box_ok None (am_box c cid)"
  shows "async_inv cap (unregister cid c)"
  using assms unregister_inflight [of c cid] by (auto simp: async_inv_def)

lemma box_ok_None: "box_ok sink b \<Longrightarrow> box_ok None b"
  by (auto simp: box_ok_def split: option.splits Sink.splits)

lemma unregister_inv: "async_inv cap c \<Longrightarrow> async_inv cap (unregister cid c)"
  by (rule unregister_inv_at) (auto simp: async_inv_def intro: box_ok_None)

lemma async_inv_registered:
  assumes "async_inv cap c" and "am_requests c cid = Some sink"
  shows "box_ok (Some sink) (am_box c cid)" and "cid < am_next_id c" and "cid \<notin> sb_id ` set (am_waiting c)"
proof -
  show "box_ok (Some sink) (am_box c cid)" using assms unfolding async_inv_def by metis
  show "cid < am_next_id c" using assms by (auto simp: async_inv_def not_less [symmetric])
  show "cid \<notin> sb_id ` set (am_waiting c)" using assms by (auto simp: async_inv_def)
qed

lemma finish_inv:
  assumes "async_inv cap c" and "am_requests c cid = Some sink" and "single a \<longrightarrow> sink = SinkAppend \<or> sink = SinkStats"
  shows "async_inv cap (unregister cid (post cid a c))"
proof -
  note reg = async_inv_registered [OF assms(1,2)]
  then have "box_ok None (am_box c cid @ [a])" using assms(3) by (cases sink) (auto simp: box_ok_def)
  then show ?thesis
    using assms(1,2) unregister_inflight [of "post cid a c" cid] reg
    by (auto simp: async_inv_def post_def intro: box_ok_None)
qed

definition streaming :: "nat \<Rightarrow> AConn \<Rightarrow> bool" where
  "streaming cid c \<longleftrightarrow> am_requests c cid = Some SinkRead \<or> am_requests c cid = Some SinkSubscribe"

lemma post_inv:
  assumes "async_inv cap c" and "streaming cid c" and "\<not> single a"
  shows "async_inv cap (post cid a c)"
proof -
  from assms(2) obtain sink where sink: "am_requests c cid = Some sink" by (auto simp: streaming_def)
  note reg = async_inv_registered [OF assms(1) sink]
  have "box_ok (am_requests c cid) (am_box c cid @ [a])" using reg(1) sink assms(2,3) by (auto simp: streaming_def box_ok_def)
  then show ?thesis using assms(1) reg(2,3) by (auto simp: async_inv_def post_def)
qed

lemma post_streaming: "streaming cid c \<Longrightarrow> streaming cid (post x a c)"
  by (simp add: streaming_def)

lemma deliver_events_inv:
  "\<lbrakk>async_inv cap c; streaming cid c; \<And>e. \<not> single (ev e); \<And>e. \<not> single (er e)\<rbrakk> \<Longrightarrow>
   async_inv cap (snd (deliver_events cid ev er evs c))"
  by (induction evs arbitrary: c) (auto simp: post_inv post_streaming split: sum.split)

lemma deliver_inv:
  assumes "async_inv cap c" and "streaming cid c"
  shows "async_inv cap (snd (deliver_read cid r c))" and "async_inv cap (snd (deliver_subscribe cid r c))"
  using deliver_events_inv [OF assms] post_inv [OF assms]
  by (auto simp: deliver_read_def deliver_subscribe_def split: ResponseKind.split)

lemma route_inv:
  assumes "async_inv cap c"
  shows "async_inv cap (route r c)"
proof (cases "am_requests c (rs_id r)")
  case (Some sink)
  show ?thesis
  proof (cases sink)
    case SinkRead
    then show ?thesis using Some deliver_inv(1) [OF assms, of "rs_id r" r]
      by (auto simp: route_def streaming_def case_prod_unfold Let_def intro: unregister_inv split: bool.split)
  next
    case SinkSubscribe
    then show ?thesis using Some deliver_inv(2) [OF assms, of "rs_id r" r]
      by (auto simp: route_def streaming_def case_prod_unfold Let_def intro: unregister_inv split: bool.split)
  qed (use Some finish_inv [OF assms Some] in \<open>simp_all add: route_def Let_def\<close>)
qed (use assms in \<open>simp add: route_def\<close>)

lemma fail_one_inv: "async_inv cap c \<Longrightarrow> async_inv cap (fail_one reason cid c)"
  by (cases "am_requests c cid"; cases "the (am_requests c cid)") (simp_all add: fail_one_def finish_inv)

lemma fail_all_inv: "async_inv cap c \<Longrightarrow> async_inv cap (fail_all order reason c)"
  unfolding fail_all_def by (induction order arbitrary: c) (simp_all add: fail_one_inv)

lemma reader_turn_inv: "async_inv cap c \<Longrightarrow> async_inv cap (async_reader_turn order res c)"
  using route_inv fail_all_inv
  by (auto simp: async_reader_turn_def async_inv_def split: sum.split option.split ResponseKind.split)

lemma begin_inv: "async_inv cap c \<Longrightarrow> async_inv cap (async_begin sink message c)"
  by (auto simp: async_inv_def async_begin_def Let_def)

lemma admit_inv:
  assumes "async_inv cap c" and "am_waiting c = xs @ p # ys" and "async_admit p (c\<lparr>am_waiting := xs @ ys\<rparr>) = Some c'"
  shows "async_inv cap c'"
proof -
  have p: "sb_id p < am_next_id c" "am_box c (sb_id p) = []" "am_requests c (sb_id p) = None"
    "am_inflight c \<noteq> 0"
    using assms by (auto simp: async_inv_def async_admit_def split: if_splits)
  have "distinct (map sb_id (xs @ p # ys))" using assms(1,2) by (simp add: async_inv_def)
  then have "sb_id p \<notin> sb_id ` (set xs \<union> set ys)" by auto
  then have others: "\<forall>q \<in> set xs \<union> set ys. sb_id q \<noteq> sb_id p" by (metis imageI)
  have "sb_id p \<notin> dom (am_requests c)" using p(3) by auto
  then have "card (insert (sb_id p) (dom (am_requests c))) = Suc (card (dom (am_requests c)))"
    using assms(1) by (simp add: async_inv_def)
  moreover have "box_ok (Some sink) []" for sink by (simp add: box_ok_def split: Sink.split)
  moreover have "c' = c\<lparr>am_waiting := xs @ ys, am_inflight := am_inflight c - 1, am_requests := (am_requests c)(sb_id p \<mapsto> sb_sink p),
      am_sending := am_sending c @ [p]\<rparr>"
    using assms(3) p(4) by (simp add: async_admit_def)
  ultimately show ?thesis using assms(1,2) p others by (auto simp: async_inv_def)
qed

text \<open>Operations on the queue, the written bytes and the receivers do not touch what the invariant is about.\<close>
lemma async_inv_cong:
  assumes "async_inv cap c" and "am_requests d = am_requests c" and "am_inflight d = am_inflight c" and "am_box d = am_box c"
    and "am_next_id c \<le> am_next_id d" and "am_waiting d = am_waiting c"
  shows "async_inv cap d"
  using assms by (auto simp: async_inv_def intro: less_le_trans)

lemma enqueue_inv:
  assumes "async_inv cap c" and "async_enqueue p c = Some c'"
  shows "async_inv cap c'"
proof -
  let ?c = "if sb_sink p = SinkRead \<or> sb_sink p = SinkSubscribe then c\<lparr>am_streams := insert (sb_id p) (am_streams c)\<rparr> else c"
  have inv: "async_inv cap ?c" by (rule async_inv_cong [OF assms(1)]) auto
  have req: "am_requests ?c = am_requests c" by simp
  have refused: "async_inv cap (d\<lparr>am_refused := x\<rparr>)" if "async_inv cap d" for d x
    by (rule async_inv_cong [OF that]) auto
  have fin: "async_inv cap (post (sb_id p) a (unregister (sb_id p) ?c))"
    if "am_requests c (sb_id p) = Some sink" "\<not> single a" for sink a
    unfolding post_unregister by (rule finish_inv [OF inv]) (use that req in auto)
  show ?thesis
  proof (cases "am_writer_up c")
    case False
    then show ?thesis
      using assms(2) unregister_inv [OF inv, of "sb_id p"] fin refused [OF unregister_inv [OF inv, of "sb_id p"]]
      by (auto simp: async_enqueue_def Let_def split: Sink.splits option.splits if_splits)
  next
    case True
    then show ?thesis using assms by (auto simp: async_enqueue_def Let_def split: if_splits intro: async_inv_cong)
  qed
qed

lemma step_inv:
  assumes "async_step ser c c'" and "async_inv cap c"
  shows "async_inv cap c'"
  using assms
proof cases
  case (begun sink message)
  then show ?thesis using begin_inv assms(2) by simp
next
  case (admitted xs p ys)
  then show ?thesis using admit_inv assms(2) by blast
next
  case (enqueued xs p ys)
  have "async_inv cap (c\<lparr>am_sending := xs @ ys\<rparr>)" by (rule async_inv_cong [OF assms(2)]) auto
  then show ?thesis using enqueue_inv enqueued by blast
next
  case (gave_up_permit xs p ys)
  then show ?thesis using assms(2) by (auto simp: async_inv_def)
next
  case (gave_up_queue xs p ys)
  then show ?thesis by (auto intro: async_inv_cong [OF assms(2)])
next
  case (gave_up_answer cid)
  then show ?thesis by (auto intro: async_inv_cong [OF assms(2)])
next
  case (reads order res)
  then show ?thesis using reader_turn_inv assms(2) by simp
next
  case (writes transport_ok)
  then show ?thesis
    by (auto simp: async_writer_turn_def intro: async_inv_cong [OF assms(2)] split: list.split sum.split)
next
  case (stream_dropped cid finished)
  have "async_inv cap (if finished then c else send_cancel cid c)"
    by (rule async_inv_cong [OF assms(2)]) (auto simp: send_cancel_def Let_def)
  from unregister_inv [OF this, of cid] show ?thesis
    unfolding stream_dropped(1) async_drop_stream_def Let_def by (rule async_inv_cong) auto
qed

lemma async_reachable_inv:
  assumes "(async_step ser)\<^sup>*\<^sup>* (AConn_new cfg) c"
  shows "async_inv (max (max_inflight_requests cfg) 1) c"
  using assms
proof (induction rule: rtranclp_induct)
  case base
  show ?case by (rule async_inv_new)
qed (rule step_inv)

subsection \<open>After the reader has ended\<close>

text \<open>An append that is registered and sent while no reader is left.\<close>
definition stranded :: "nat \<Rightarrow> AConn \<Rightarrow> bool" where
  "stranded cid c \<longleftrightarrow>
     \<not> am_reader_up c \<and> am_requests c cid = Some SinkAppend \<and> am_box c cid = [] \<and> cid \<notin> am_refused c \<and>
     cid \<notin> am_streams c \<and> cid \<notin> sb_id ` set (am_sending c)"

lemma unregister_streams [simp]: "am_streams (unregister cid c) = am_streams c" "am_sending (unregister cid c) = am_sending c"
  by (simp_all add: unregister_def split: option.split)

lemma post_streams [simp]: "am_streams (post cid a c) = am_streams c" "am_sending (post cid a c) = am_sending c"
  by (simp_all add: post_def)

lemma stranded_enqueue:
  assumes "stranded cid c" and "async_enqueue p c = Some c'" and "sb_id p \<noteq> cid"
  shows "stranded cid c'"
proof -
  have "stranded cid (c\<lparr>am_streams := insert (sb_id p) (am_streams c)\<rparr>)" using assms(1,3) by (simp add: stranded_def)
  moreover have "stranded cid (post (sb_id p) a (unregister (sb_id p) d))" "stranded cid (unregister (sb_id p) d)"
    "stranded cid ((unregister (sb_id p) d)\<lparr>am_refused := insert (sb_id p) (am_refused d)\<rparr>)"
    if "stranded cid d" for d a
    using that assms(3) by (auto simp: stranded_def post_def)
  moreover have "stranded cid (d\<lparr>am_queue := q\<rparr>)" if "stranded cid d" for d q using that by (simp add: stranded_def)
  ultimately show ?thesis using assms(1,2)
    by (auto simp: async_enqueue_def Let_def split: if_splits Sink.splits option.splits)
qed

lemma stranded_step:
  assumes "async_step ser c c'" and "stranded cid c" and inv: "async_inv cap c"
  shows "stranded cid c'"
  using assms(1)
proof cases
  case (admitted xs p ys)
  then have "sb_id p \<noteq> cid" using assms(2) async_inv_registered(3) [OF inv, of cid SinkAppend] by (force simp: stranded_def)
  then show ?thesis using admitted assms(2) by (auto simp: async_admit_def stranded_def split: if_splits)
next
  case (enqueued xs p ys)
  then have "sb_id p \<noteq> cid" "stranded cid (c\<lparr>am_sending := xs @ ys\<rparr>)" using assms(2) by (auto simp: stranded_def)
  then show ?thesis using stranded_enqueue enqueued by blast
next
  case (stream_dropped x finished)
  then have "x \<noteq> cid" using assms(2) by (auto simp: stranded_def)
  moreover have "stranded cid (send_cancel x c)" using assms(2) by (simp add: stranded_def send_cancel_def Let_def)
  ultimately show ?thesis using assms(2) unfolding stream_dropped by (auto simp: async_drop_stream_def stranded_def Let_def)
qed (use assms(2) in \<open>auto simp: stranded_def async_begin_def async_writer_turn_def Let_def split: list.split sum.split\<close>)

lemma stranded_forever:
  assumes "(async_step ser)\<^sup>*\<^sup>* c c'" and "stranded cid c" and "async_inv cap c"
  shows "stranded cid c' \<and> async_inv cap c'"
  using assms by (induction rule: rtranclp_induct) (auto intro: stranded_step step_inv)

subsection \<open>Properties\<close>

text \<open>
  C11. Multiplexed reads do not mix. Whatever responses to other requests come between them, the frames of a read are
  delivered to its stream alone: draining the stream gives exactly the matching events with their positions, in order,
  and the watermark, and the read's registration and permit are gone.
\<close>
theorem async_read_exact:
  assumes "core_shows crc F core es" and "wf_Query (rr_query job)"
    and "am_requests c (rr_request_id job) = Some SinkRead" and "am_box c (rr_request_id job) = []"
    and "rr_request_id job \<notin> am_dropped c"
    and "filter (\<lambda>r. rs_id r = rr_request_id job) rs = run_read crc F core rcfg cfg (\<lambda>_. True) (\<lambda>_. True) job"
  shows "async_drain_read (stream_of (rr_request_id job) (fold route rs c)) =
           Some (Inr (map (\<lambda>p. \<lparr>cs_position = p, cs_event = client_event (es ! (p - 1))\<rparr>) (read_spec es (rc_watermark core) job),
                      rc_watermark core)) \<and>
         am_requests (fold route rs c) (rr_request_id job) = None"
proof -
  let ?cid = "rr_request_id job" and ?wm = "rc_watermark core"
  let ?xs = "map (\<lambda>p. \<lparr>cs_position = p, cs_event = client_event (es ! (p - 1))\<rparr>) (read_spec es ?wm job)"
  have sn: "\<forall>e \<in> set es. wf_Event e" "?wm \<le> length es" using assms(1) by (auto simp: core_shows_def snap_ok_def)
  have "filter (\<lambda>r. rs_id r = ?cid) rs = read_answer cfg es ?wm job"
    using run_read_answer(2) [OF assms(1,2), of "\<lambda>_. True" "\<lambda>_. True" rcfg cfg] assms(6) by simp
  then have "same_view ?cid (fold route rs c) (fold route (read_answer cfg es ?wm job) c)"
    using fold_route_demux [of ?cid c c rs] by simp
  then have box: "am_box (fold route rs c) ?cid = map (AnsRead \<circ> ItemEvent) ?xs @ [AnsRead (ItemEnd ?wm)]"
    and gone: "am_requests (fold route rs c) ?cid = None"
    using route_answer [OF sn(1) read_spec_range [OF sn(2)], of job c cfg] assms(3-5) by (simp_all add: same_view_def reading_def comp_def)
  have "concat (map (\<lambda>a. case a of AnsRead it \<Rightarrow> [it] | _ \<Rightarrow> []) (map (AnsRead \<circ> ItemEvent) ys @ [AnsRead (ItemEnd ?wm)])) =
      map ItemEvent ys @ [ItemEnd ?wm]" for ys
    by (induction ys) simp_all
  from this [of ?xs] have "stream_of ?cid (fold route rs c) =
      \<lparr>ar_rx = map ItemEvent ?xs @ [ItemEnd ?wm], ar_open = False, ar_watermark = None, ar_done = False\<rparr>"
    unfolding stream_of_def box by (simp only: gone not_True_eq_False refl)
  then show ?thesis using async_drain_items [of ?xs ?wm False "[]"] gone by (simp only: async_drain_read_def) simp
qed

theorem async_read_exact_witness:
  "async_drain_read (stream_of 1 (fold route
      [demo_answer ! 0, make_response 2 (RespAppend 3 4), demo_answer ! 1]
      ((AConn_new AsyncClientConfig_default)\<lparr>am_requests := [1 \<mapsto> SinkRead, 2 \<mapsto> SinkAppend]\<rparr>))) =
   Some (Inr ([\<lparr>cs_position = 1, cs_event = client_event (demo_event 0x41 0x61)\<rparr>], 2))"
proof (rule demo_core)
  fix S and ix :: "(str \<times> nat) list IndexSet"
  let ?core = "\<lparr>rc_segments = capture S ix, rc_watermark = 2, rc_closed = False, rc_subscribers = 1\<rparr>"
  let ?c = "(AConn_new AsyncClientConfig_default)\<lparr>am_requests := [1 \<mapsto> SinkRead, 2 \<mapsto> SinkAppend]\<rparr>"
  let ?rs = "[demo_answer ! 0, make_response 2 (RespAppend 3 4), demo_answer ! 1]"
  assume "\<And>wm closed. wm \<le> 2 \<Longrightarrow>
    core_shows crc_demo fst_demo \<lparr>rc_segments = capture S ix, rc_watermark = wm, rc_closed = closed, rc_subscribers = 1\<rparr> demo_events"
  then have core: "core_shows crc_demo fst_demo ?core demo_events" by simp
  have wf: "wf_Query (rr_query demo_job)" and cid: "rr_request_id demo_job = 1" by (simp_all add: demo_job_def wf_Query_def)
  have run: "run_read crc_demo fst_demo ?core ReadConfig_default ServerConfig_default (\<lambda>_. True) (\<lambda>_. True) demo_job = demo_answer"
    using run_read_answer(2) [OF core wf, of "\<lambda>_. True" "\<lambda>_. True" ReadConfig_default ServerConfig_default] demo_read_answer by simp
  have only: "filter (\<lambda>r. rs_id r = rr_request_id demo_job) ?rs =
      run_read crc_demo fst_demo ?core ReadConfig_default ServerConfig_default (\<lambda>_. True) (\<lambda>_. True) demo_job"
    unfolding run cid by (simp add: demo_answer_def make_response_def)
  have c: "am_requests ?c (rr_request_id demo_job) = Some SinkRead" "am_box ?c (rr_request_id demo_job) = []"
    "rr_request_id demo_job \<notin> am_dropped ?c"
    by (simp_all add: cid AConn_new_def)
  have spec: "read_spec demo_events 2 demo_job = [1]" by code_simp
  have first: "demo_events ! 0 = demo_event 0x41 0x61" by (simp add: demo_events_def)
  show ?thesis using async_read_exact [OF core wf c only] unfolding cid by (simp add: spec first)
qed

text \<open>
  Permits are conserved and no request is answered twice: in every state a connection reaches, the free permits and
  the registered requests add up to the configured budget, and the future of an append or of a statistics request has
  been sent at most one result.
\<close>
theorem async_budget_and_single_answer:
  assumes "(async_step ser)\<^sup>*\<^sup>* (AConn_new cfg) c"
  shows "am_inflight c + card (dom (am_requests c)) = max (max_inflight_requests cfg) 1 \<and>
         ((\<exists>a \<in> set (am_box c cid). single a) \<longrightarrow> length (am_box c cid) = 1)"
proof -
  note inv = async_reachable_inv [OF assms]
  then have "box_ok None (am_box c cid)" by (auto simp: async_inv_def intro: box_ok_None)
  then show ?thesis using inv by (simp add: async_inv_def box_ok_def)
qed

theorem async_budget_and_single_answer_witness:
  "am_inflight (async_stats (AConn_new AsyncClientConfig_default)) +
     card (dom (am_requests (async_stats (AConn_new AsyncClientConfig_default)))) = max 1024 1"
proof -
  have "(async_step (\<lambda>_. None))\<^sup>*\<^sup>* (AConn_new AsyncClientConfig_default) (async_stats (AConn_new AsyncClientConfig_default))"
    unfolding async_stats_def by (rule r_into_rtranclp, rule async_step.begun)
  from async_budget_and_single_answer [OF this, of 1] show ?thesis by (simp add: AsyncClientConfig_default_def)
qed

text \<open>
  C39. An append begun after the connection's reader has ended can wait for ever: once it is registered and queued, nothing
  the client does afterwards, in any order, resolves its future, neither an answer nor an error.
\<close>
theorem async_append_after_close_hangs:
  assumes "(async_step ser)\<^sup>*\<^sup>* (AConn_new cfg) c" and "\<not> am_reader_up c" and "am_requests c cid = Some SinkAppend"
    and "async_result cid c = None" and "cid \<notin> am_streams c" and "cid \<notin> sb_id ` set (am_sending c)"
    and "(async_step ser)\<^sup>*\<^sup>* c c'"
  shows "async_result cid c' = None"
proof -
  have "stranded cid c" using assms(2-6) by (auto simp: stranded_def async_result_def split: if_splits list.splits)
  then have "stranded cid c'" using stranded_forever [OF assms(7)] async_reachable_inv [OF assms(1)] by blast
  then show ?thesis by (simp add: stranded_def async_result_def)
qed

text \<open>A connection whose server closed it before an append was begun and queued.\<close>
definition demo_stranded :: AConn where
  "demo_stranded =
     (let c = async_append [] None (async_reader_turn [] (Inr None) (AConn_new AsyncClientConfig_default));
          c = the (async_admit (hd (am_waiting c)) (c\<lparr>am_waiting := []\<rparr>))
      in the (async_enqueue (hd (am_sending c)) (c\<lparr>am_sending := []\<rparr>)))"

lemma demo_stranded_facts:
  "(async_step ser)\<^sup>*\<^sup>* (AConn_new AsyncClientConfig_default) demo_stranded"
  "\<not> am_reader_up demo_stranded" "am_requests demo_stranded 1 = Some SinkAppend" "async_result 1 demo_stranded = None"
  "1 \<notin> am_streams demo_stranded" "1 \<notin> sb_id ` set (am_sending demo_stranded)" "length (am_queue demo_stranded) = 1"
proof -
  let ?c0 = "AConn_new AsyncClientConfig_default"
  let ?c1 = "async_reader_turn [] (Inr None) ?c0"
  let ?p = "\<lparr>sb_id = 1, sb_sink = SinkAppend, sb_request = append_message 1 [] None\<rparr>"
  let ?c2 = "async_append [] None ?c1"
  let ?c3 = "the (async_admit ?p (?c2\<lparr>am_waiting := []\<rparr>))"
  let ?c4 = "the (async_enqueue ?p (?c3\<lparr>am_sending := []\<rparr>))"
  have "async_step ser ?c0 ?c1" by (rule async_step.reads) (simp_all add: AConn_new_def)
  moreover have "async_step ser ?c1 ?c2" unfolding async_append_def by (rule async_step.begun)
  moreover have "async_step ser ?c2 ?c3"
    by (rule async_step.admitted [of _ "[]" ?p "[]"])
      (simp_all add: async_append_def async_begin_def async_reader_turn_def fail_all_def AConn_new_def async_admit_def
        AsyncClientConfig_default_def Let_def)
  moreover have "async_step ser ?c3 ?c4"
    by (rule async_step.enqueued [of _ "[]" ?p "[]"])
      (simp_all add: async_append_def async_begin_def async_reader_turn_def fail_all_def AConn_new_def async_admit_def async_enqueue_def
        AsyncClientConfig_default_def Let_def)
  moreover have c4: "?c4 = demo_stranded"
    by (simp add: demo_stranded_def async_append_def async_begin_def async_reader_turn_def fail_all_def AConn_new_def async_admit_def
        AsyncClientConfig_default_def Let_def)
  ultimately show "(async_step ser)\<^sup>*\<^sup>* ?c0 demo_stranded"
    by (metis (no_types, lifting) converse_rtranclp_into_rtranclp rtranclp.rtrancl_refl)
  show "\<not> am_reader_up demo_stranded" "am_requests demo_stranded 1 = Some SinkAppend" "async_result 1 demo_stranded = None"
    "1 \<notin> am_streams demo_stranded" "1 \<notin> sb_id ` set (am_sending demo_stranded)" "length (am_queue demo_stranded) = 1"
    unfolding c4 [symmetric] async_result_def
    by (simp_all add: async_append_def async_begin_def async_reader_turn_def fail_all_def AConn_new_def async_admit_def async_enqueue_def
        AsyncClientConfig_default_def Let_def)
qed

theorem async_append_after_close_hangs_witness:
  "async_result 1 (async_writer_turn (\<lambda>_. Some []) False demo_stranded) = None"
proof -
  have "(async_step (\<lambda>_. Some []))\<^sup>*\<^sup>* demo_stranded (async_writer_turn (\<lambda>_. Some []) False demo_stranded)"
    by (rule r_into_rtranclp, rule async_step.writes)
      (simp add: demo_stranded_def async_append_def async_begin_def async_reader_turn_def fail_all_def AConn_new_def async_admit_def
        async_enqueue_def AsyncClientConfig_default_def Let_def)
  then show ?thesis by (rule async_append_after_close_hangs [OF demo_stranded_facts(1-6)])
qed

end
