(* ===== verification/Spec2Isabelle.thy ===== *)
theory Spec2Isabelle
  imports Query Reopen StaleSnapshot Egress AcceptLoop AsyncClient
begin

text \<open>
  Tephra is an event store: an append-only log of events, each with a type, a set of tags and a payload; appends are
  guarded by conditions on what the log holds (dynamic consistency boundaries); reads and subscriptions select events by
  type and tags. One writer thread owns the log, group-commits batches and publishes to readers that never block it.
  A server speaks a framed protobuf protocol over many connections; a blocking and an asynchronous client speak it back.
  This development models the store, the server and the clients, bottom up, from the Rust sources under \<open>src/crates\<close>, and
  proves that what a caller, local or remote, is told is what the log holds, through I/O errors, crashes, restarts,
  rollovers, evictions, cancellations, timeouts and any cutting of the byte stream.

  \<^bold>\<open>Conventions.\<close> Records and datatypes carry the source's names. Positions, lengths and offsets are natural numbers,
  with each overflow that the code can reach made an outcome of its own (\<open>checked_add\<close> and the like); bytes are
  \<open>8 word\<close>, the CRC is a 32-bit word. Errors are values of sum types with the source's constructors, and a panic
  (an assertion, an expectation that fails, an index out of range) is an outcome of its own, never left unspecified.
  Loops are structural recursion or \<open>function\<close>s with a termination proof; nothing runs on fuel except the histories of
  \<open>Subscribe\<close>, \<open>Streaming\<close> and \<open>Server\<close>, which are lists given by the environment. Code outside the repository is a
  parameter: the CRC function \<open>crc\<close> (any function), the \<open>fst\<close> term dictionary \<open>F\<close> with its documented contract \<open>fst_ok\<close>,
  the protobuf codec (\<open>ser\<close>, \<open>par\<close>; what it serializes it parses back) and the token digest. Files carry a
  schedule of I/O faults (\<open>None\<close>: the call succeeds; \<open>Some n\<close>: it fails after \<open>n\<close> bytes), so a statement for every
  writer is a statement for every pattern of failures, and crashes are arbitrary images of the unsynced part.

  \<^bold>\<open>The theories, in the order of the code.\<close>
  \<^item> \<open>Prelude\<close>: bytes, little-endian codecs, byte slices and overwrites, list facts; the collections of rules.
  \<^item> \<open>Types\<close> (\<open>tephra-types\<close>): positions with their overflow, names and their validation, tag sets, queries, conditions.
  \<^item> \<open>Event\<close> (\<open>tephra/src/event.rs\<close>): the event codec, the borrowed decoder with every rejection.
    Shown: round trip, and only canonical encodings are accepted.
  \<^item> \<open>Query\<close> (\<open>tephra/src/query.rs\<close>): the match predicate with its linear merge. Shown: it decides the documented
    semantics.
  \<^item> \<open>Framing\<close>, \<open>SegWriter\<close>, \<open>SegReader\<close> (\<open>seglog\<close>): record frames and the pure parser; the segment writer with
    append, commit, sync, rewind, truncation and recovery over a file with faults; the reader with its two paths and the
    header patching. Shown: recovery adopts exactly the committed prefix, acknowledged batches survive every crash image,
    a rolled-back batch leaves no trace, both read paths agree with the parser; and a truncation that loses the next batch.
  \<^item> \<open>LogHeader\<close>, \<open>SegmentSet\<close>, \<open>Reopen\<close>, \<open>Scan\<close> (\<open>tephra/src/log\<close>): the segment header codec; the set of segments with
    rollover, batch append, lookup and reading by position; opening a directory after a crash; the forward scan and the
    windowed backward scan. Shown: appending refines appending to a list, a failed batch that was rewound leaves the set
    as if it had not begun, opening gives exactly the acknowledged log after any number of crashes, reads and scans are
    exact; and that sealing what an interrupted batch left makes a directory that cannot be opened.
  \<^item> \<open>Postings\<close>, \<open>AppendColumn\<close>, \<open>IndexSearch\<close>, \<open>IndexTail\<close>, \<open>IndexHeader\<close>, \<open>IndexSegment\<close>, \<open>IndexSet\<close>
    (\<open>tephra/src/index\<close>): the posting codec, the append-only columns, query evaluation over any index and the cost model,
    the in-memory tail with watermark views and its rebuild, the on-disk segment and the set of them. Shown: views,
    sealed segments and the whole set answer exactly or refuse, whatever the files hold, and follow the log.
  \<^item> \<open>Tips\<close>, \<open>Condition\<close> (\<open>tephra/src/writer/tips.rs\<close>, \<open>condition.rs\<close>): the lossy tag map, the staged tags of a drain and
    the evaluation of a condition through tips, index and scan. Shown: the fast reject has no false negatives, and the
    verdict is the specification's on every path.
  \<^item> \<open>ReadPath\<close>, \<open>Subscribe\<close> (\<open>tephra/src/read\<close>): snapshots, the planner and the lending iterator in both directions;
    the published state, read handles, subscriptions, and the wakeup protocol as a step relation. Shown: reads are
    exact whatever the planner picks, subscriptions deliver exactly once, no wakeup is lost.
  \<^item> \<open>Coordinator\<close>, \<open>WriterLoop\<close>, \<open>StaleSnapshot\<close> (\<open>tephra/src/writer/coordinator.rs\<close>, \<open>batch.rs\<close>, \<open>handle.rs\<close>): draining,
    staging, group commit, the commit seam that feeds the index and publishes, the loop, the handle. Shown: a drain does
    what the sequential specification \<open>decide\<close> says, accepted conditions hold, every request before the shutdown is
    answered once and the loop terminates; and two inputs where the store breaks a promise.

  \<^item> \<open>WireFrame\<close>, \<open>Wire\<close> (\<open>tephra-proto\<close>, \<open>tephra-server/src/convert.rs\<close>): frames, the resumable reader and its blocking and
    asynchronous twins over a script of partial reads and errors; the messages and every conversion. Shown: the reader
    delivers exactly the messages of the byte stream and ends for the right reason, the twins agree, and queries,
    conditions and events survive the wire.
  \<^item> \<open>Egress\<close>, \<open>Streaming\<close>, \<open>Server\<close>, \<open>AcceptLoop\<close> (\<open>tephra-server/src/conn.rs\<close>, \<open>lib.rs\<close>, \<open>auth.rs\<close>, \<open>stats.rs\<close>,
    \<open>tephra/src/read/pool.rs\<close>): the writer of a connection with its two lanes, the streamed reads and subscriptions and the
    embedded read pool, the handlers, budgets, cancel flags, timeouts and reader loop of a connection, and the accept
    loop. Shown: order, fairness and draining of the lanes, exact reads and exactly-once subscriptions, nothing served
    before the Hello, budgets that never leak, cancels that stop their target only, bounded partial frames, the connection
    cap and no connection that a shutdown misses; and three runs that lose or refuse what they should send, the last of
    them below.
  \<^item> \<open>Client\<close>, \<open>AsyncClient\<close> (\<open>tephra-client\<close>): the blocking client with its streams, and the asynchronous client's registry,
    tasks and streams. Shown: a remote append and a remote read are what the client asked for and return what the store
    says, also when multiplexed; permits are conserved; and a request that is never answered.

  \<^bold>\<open>Interfaces.\<close> What one part relies on is a locale, interpreted on the model's own definitions: \<open>codec\<close> (the two header
  formats), \<open>append_vec\<close> (the append-only column and its snapshots), \<open>segment_source\<close> (looking up the owner of a
  position), \<open>segment_index\<close> (the trait the query evaluator calls, on tail views and on sealed segments) and
  \<open>match_oracle\<close> (the three sources of a durable verdict: tips, index and scan).

  \<^bold>\<open>Invariants.\<close> \<open>writer_inv\<close> and \<open>holds_frames\<close> for a segment file, \<open>set_inv\<close> and \<open>log_of\<close> for the set of segments,
  \<open>disk_inv\<close> for the directory it leaves (zeros past the committed end of what is sealed, anything past that of the rest),
  \<open>tail_inv\<close>, \<open>seg_rep\<close> and \<open>index_inv\<close> for the index, \<open>tips_sound\<close> for the tips, \<open>snap_ok\<close> and \<open>core_shows\<close> for what readers
  see, and \<open>worker_ok\<close>, which ties them together for the writer between two drains. Hypotheses that recur:
  \<open>sealable\<close> (an index fits the 32-bit offsets of its format, which the code expects without checking first),
  \<open>length es < U64_MAX\<close> (positions do not run out), \<open>healthy\<close> (no I/O error is pending and no file is in the way).

  \<^bold>\<open>Sharing.\<close> Readers hold the active segment and the active tail by reference. \<open>live\<close> in \<open>Coordinator\<close> shows a published
  snapshot what its references point to after each change of the writer; everything else in a snapshot is immutable.

  \<^bold>\<open>Connections.\<close> \<open>egress_step\<close>, \<open>conn_step\<close>, \<open>accept_step\<close> and \<open>async_step\<close> interleave what threads and tasks do, one whole
  call or channel operation at a time; \<open>order_inv\<close>, \<open>wait_inv\<close>, \<open>budget_inv\<close>, \<open>cancel_inv\<close>, \<open>accept_inv\<close> and \<open>async_inv\<close> are
  their invariants. What happens beside a single-threaded routine (cancellation, refused sends, time) is an argument of it.

  \<^bold>\<open>Not modelled.\<close> The 16 KB buffer of the segment writer (every write may fail where it stands, which covers more
  faults than there are) and I/O errors of the reads at opening (\<open>recover_unreadable\<close> says what they would do). Memory ordering of the atomics (calls are sequential, and the step relations interleave whole atomic
  actions); the async twins of the store's blocking calls; spawning, parking and joining threads; the queue and the stream
  polling of the embedded read pool; dialling sockets and TLS; settings, health check, metrics endpoint and process start;
  the crash-test harness and the fault-injection points, which are test code.
\<close>

subsection \<open>Properties across components\<close>

text \<open>
  C5. Read your writes: when the writer has answered a request with its range, a read through a handle on the
  published state, from just before the range and limited to the request's size, returns the request's events at
  exactly the positions it was told, whatever the cost model picks.
\<close>
theorem read_your_writes:
  assumes "worker_ok crc F w es" and "\<forall>req \<in> set reqs. wf_Request req"
    and "length es + length (concat (map req_events reqs)) < U64_MAX" and "fst_ok F" and "now \<le> U64_MAX"
    and "sealable F (drop (active_base (wk_index w) - 1) es)"
    and "distinct (map (\<lambda>req. (req_reply req, req_token req)) reqs)" and "req \<in> set reqs"
    and "process dbg crc F now reqs w = Some (w', replies)"
    and "(req_reply req, req_token req, Inr (f, l)) \<in> set replies"
  shows "collect_owned crc (handle_read crc F (wk_core w') cfg All (f - 1) (Some (length (req_events req)))) =
     Inr (zip [f..<l + 1] (req_events req))"
proof -
  let ?n = "length (req_events req)"
  obtain rej acc req' where a: "decide es [] reqs = (rej, acc)" "(req', f) \<in> set acc" "req_reply req' = req_reply req"
    "req_token req' = req_token req" "l = f + length (req_events req') - 1" "worker_ok crc F w' (es @ accepted_events acc)"
    by (rule process_accepts [OF assms(1-6,9,10)])
  have "req' \<in> set reqs" using accepted_subset [OF a(1)] a(2) by force
  then have req: "req' = req" using assms(7,8) a(3,4) by (auto simp: distinct_map dest: inj_onD)
  let ?log = "es @ accepted_events acc"
  have pos: "take ?n (drop (f - 1) ?log) = req_events req" "1 \<le> f" "f - 1 + ?n \<le> length ?log" "?n > 0"
    using decide_positions [OF a(1,2)] req assms(2,8) by (auto simp: wf_Request_def)
  have sn: "snap_ok crc F (rc_segments (wk_core w')) ?log" "rc_watermark (wk_core w') = length ?log"
    using worker_ok_shows [OF a(6)] a(6) by (auto simp: core_shows_def worker_ok_def)
  have "collect_owned crc (handle_read crc F (wk_core w') cfg All (f - 1) (Some ?n)) =
      Inr (map (\<lambda>p. (p, ?log ! (p - 1))) (take ?n [f..<length ?log + 1]))"
    using collect_drain [OF plan_drain [OF sn(1), of All "length ?log" Forward "f - 1" "length ?log" cfg "Some ?n"], of "[]"] sn(2) pos(2)
    by (simp add: handle_read_def core_load_def collect_owned_def Reads_plan_def read_positions_def sequenced_def comp_def
        wf_Query_def Query_matches_def truncate_to_def del: upt_Suc)
  also have "take ?n [f..<length ?log + 1] = [f..<l + 1]"
    using pos a(5) req by (simp add: take_upt del: upt_Suc)
  also have "map (\<lambda>p. (p, ?log ! (p - 1))) [f..<l + 1] = zip [f..<l + 1] (req_events req)"
  proof (rule nth_equalityI)
    fix i assume "i < length (map (\<lambda>p. (p, ?log ! (p - 1))) [f..<l + 1])"
    then have i: "i < ?n" using pos(4) a(5) req by (simp del: upt_Suc)
    then have "req_events req ! i = ?log ! (f - 1 + i)" using pos(1,3) by (metis add_leD1 nth_drop nth_take)
    then show "map (\<lambda>p. (p, ?log ! (p - 1))) [f..<l + 1] ! i = zip [f..<l + 1] (req_events req) ! i"
      using i pos(2) a(5) req by (simp del: upt_Suc)
  qed (use pos(4) a(5) req in \<open>simp del: upt_Suc\<close>)
  finally show ?thesis .
qed

theorem read_your_writes_witness:
  "\<exists>w w'. WriteCoordinator_start crc_demo fst_demo 0 demo_set demo_cfg no_index_files = Some (Inr w) \<and>
     process True crc_demo fst_demo 0 [demo_request 0, demo_request 1] w = Some (w', demo_replies) \<and>
     collect_owned crc_demo (handle_read crc_demo fst_demo (wk_core w') ReadConfig_default All 0 (Some 1)) =
       Inr [(1, demo_event 0x41 0x61)]"
proof (rule demo_worker)
  fix w :: "(str \<times> nat) list Worker"
  assume w: "WriteCoordinator_start crc_demo fst_demo 0 demo_set demo_cfg no_index_files = Some (Inr w)"
    "worker_ok crc_demo fst_demo w []" "wk_set w = demo_set"
  obtain w' where w': "process True crc_demo fst_demo 0 [demo_request 0, demo_request 1] w = Some (w', demo_replies)"
    using demo_process [OF w(2,3)] by blast
  have r: "(req_reply (demo_request 0), req_token (demo_request 0), Inr (1, 1)) \<in> set demo_replies"
    by (simp add: demo_request_def demo_replies_def)
  have "req_events (demo_request 0) = [demo_event 0x41 0x61]" by (simp add: demo_request_def)
  then show ?thesis
    using read_your_writes [OF w(2) demo_drain_hyps(1,2) fst_demo_ok _ demo_drain_hyps(3,5) _ w' r, of ReadConfig_default] w(1) w'
    by auto
qed

text \<open>
  C38. A batch is closed only after the event that fills it, so a read's response can exceed the frame limit although
  its events came within it. For any serializer whose bodies are at least as long as the payloads in them: when the
  first match of a read does not fill a batch, the second one does, and their payloads together exceed
  \<open>max_frame_len\<close>, then the first frame of \<open>run_read\<close> is one that \<open>write_frame\<close> refuses, and taking it from the bulk lane
  ends the writer of the connection with that error.
\<close>
theorem read_batch_exceeds_frame_limit:
  assumes "core_shows crc F c es" and "wf_Query (rr_query job)"
    and "\<And>rid evs. \<exists>b. serialize (make_response rid (RespReadEvents evs)) = Some b \<and>
      sum_list (map (\<lambda>ev. length (pe_payload (pse_event ev))) evs) \<le> length b"
    and "read_spec es (rc_watermark c) job = p1 # p2 # ps" and "2 \<le> read_batch_events cfg"
    and "length (buf (es ! (p1 - 1))) < read_batch_bytes cfg"
    and "read_batch_bytes cfg \<le> length (buf (es ! (p1 - 1))) + length (buf (es ! (p2 - 1)))"
    and "max_frame_len cfg < length (data (es ! (p1 - 1))) + length (data (es ! (p2 - 1)))"
    and "eg_pc s = EgBulk w" and "eg_bulk s = hd (run_read crc F c rcfg cfg (\<lambda>_. True) (\<lambda>_. True) job) # fs"
  shows "\<exists>s' len. egress_step cd bd (\<lambda>r. write_frame serialize r (max_frame_len cfg)) s s' \<and>
     eg_pc s' = EgFailed (FrameTooLarge len (max_frame_len cfg))"
proof -
  let ?evs = "[to_pb (sequenced es p1), to_pb (sequenced es p2)]" and ?enc = "\<lambda>r. write_frame serialize r (max_frame_len cfg)"
  let ?f = "make_response (rr_request_id job) (RespReadEvents ?evs)"
  have "hd (run_read crc F c rcfg cfg (\<lambda>_. True) (\<lambda>_. True) job) = ?f"
    using run_read_answer(2) [OF assms(1,2), of "\<lambda>_. True" "\<lambda>_. True" rcfg cfg] read_answer_first [OF assms(4-7)] by auto
  then have "eg_bulk s = ?f # fs" using assms(10) by simp
  from bulk_recv [OF assms(9) this, of cd bd ?enc]
  have step: "egress_step cd bd ?enc s (eg_write ?enc Bulk ?f (EgControl 0 False) (s\<lparr>eg_bulk := fs\<rparr>))" .
  obtain b where b: "serialize ?f = Some b" "sum_list (map (\<lambda>ev. length (pe_payload (pse_event ev))) ?evs) \<le> length b"
    using assms(3) by blast
  have "max_frame_len cfg < length b"
    using b(2) assms(8) by (simp add: to_pb_def sequenced_def sequenced_to_proto_def)
  then have "?enc ?f = Inl (FrameTooLarge (min (length b) U32_MAX) (max_frame_len cfg))" using b(1) by (simp add: write_frame_def)
  then show ?thesis using step by (intro exI) (auto simp: eg_write_def)
qed

text \<open>Two events of one payload byte each, with a limit that each of them meets on its own.\<close>
theorem read_batch_exceeds_frame_limit_witness:
  "\<exists>(c :: (str \<times> nat) list ReadCore) ser cfg s' len.
     (\<forall>p \<in> {1, 2}. \<exists>b. write_frame ser (make_response 7 (RespReadEvents [to_pb (sequenced demo_events p)])) (max_frame_len cfg) = Inr b) \<and>
     egress_step 64 256 (\<lambda>r. write_frame ser r (max_frame_len cfg))
       (egress_init\<lparr>eg_pc := EgBulk False,
          eg_bulk := [hd (run_read crc_demo fst_demo c ReadConfig_default cfg (\<lambda>_. True) (\<lambda>_. True)
            \<lparr>rr_request_id = 7, rr_query = All, rr_cursor = 0, rr_reverse = False, rr_limit = None\<rparr>)]\<rparr>) s' \<and>
     eg_pc s' = EgFailed (FrameTooLarge len (max_frame_len cfg))"
proof (rule demo_core)
  fix S and ix :: "(str \<times> nat) list IndexSet"
  let ?c = "\<lparr>rc_segments = capture S ix, rc_watermark = 2, rc_closed = False, rc_subscribers = 1\<rparr>"
  let ?job = "\<lparr>rr_request_id = 7, rr_query = All, rr_cursor = 0, rr_reverse = False, rr_limit = None\<rparr>"
  let ?cfg = "ServerConfig_default\<lparr>max_frame_len := 1, read_batch_bytes := 10\<rparr>"
  let ?ser = "\<lambda>r. Some (concat (map (pe_payload \<circ> pse_event) (frame_events (rs_kind r))))"
  assume "\<And>wm closed. wm \<le> 2 \<Longrightarrow>
    core_shows crc_demo fst_demo \<lparr>rc_segments = capture S ix, rc_watermark = wm, rc_closed = closed, rc_subscribers = 1\<rparr> demo_events"
  then have core: "core_shows crc_demo fst_demo ?c demo_events" by simp
  have payload: "\<exists>b. ?ser (make_response rid (RespReadEvents evs)) = Some b \<and>
      sum_list (map (\<lambda>ev. length (pe_payload (pse_event ev))) evs) \<le> length b" for rid evs
    by (simp add: make_response_def length_concat comp_def)
  have wf: "wf_Query (rr_query ?job)" by code_simp
  have spec: "read_spec demo_events (rc_watermark ?c) ?job = [1, 2]" by code_simp
  have single: "\<forall>p \<in> {1, 2}. \<exists>b. write_frame ?ser (make_response 7 (RespReadEvents [to_pb (sequenced demo_events p)])) (max_frame_len ?cfg) = Inr b"
    by (auto simp: write_frame_def make_response_def to_pb_def sequenced_def sequenced_to_proto_def demo_events_def demo_event_def data_def decode_data_def)
  let ?s = "egress_init\<lparr>eg_pc := EgBulk False,
    eg_bulk := [hd (run_read crc_demo fst_demo ?c ReadConfig_default ?cfg (\<lambda>_. True) (\<lambda>_. True) ?job)]\<rparr>"
  have sizes: "2 \<le> read_batch_events ?cfg" "length (buf (demo_events ! (1 - 1))) < read_batch_bytes ?cfg"
    "read_batch_bytes ?cfg \<le> length (buf (demo_events ! (1 - 1))) + length (buf (demo_events ! (2 - 1)))"
    "max_frame_len ?cfg < length (data (demo_events ! (1 - 1))) + length (data (demo_events ! (2 - 1)))"
    by (simp_all add: ServerConfig_default_def demo_events_def demo_event_def data_def decode_data_def)
  have "eg_pc ?s = EgBulk False"
    "eg_bulk ?s = hd (run_read crc_demo fst_demo ?c ReadConfig_default ?cfg (\<lambda>_. True) (\<lambda>_. True) ?job) # []"
    by simp_all
  from read_batch_exceeds_frame_limit [where serialize = ?ser, OF core wf payload spec sizes this, of 64 256]
  obtain s' len where "egress_step 64 256 (\<lambda>r. write_frame ?ser r (max_frame_len ?cfg)) ?s s'"
    "eg_pc s' = EgFailed (FrameTooLarge len (max_frame_len ?cfg))" by blast
  with single show ?thesis by blast
qed

end
